(* ===== verification/Prelude.thy ===== *)
theory Prelude
  imports Main "HOL-Library.Word"
begin

text \<open>
  Shared material of the development: the machine types of the modelled platform (LP64,
  little endian: the 64-bit iOS targets of the Pods), the collections of rewrite rules the
  component theories feed, and the generic facts on words, byte lists and result pairs.
\<close>

unbundle bit_operations_syntax

section \<open>Machine types\<close>

type_synonym u8 = "8 word"
type_synonym u16 = "16 word"
type_synonym u32 = "32 word"
type_synonym u64 = "64 word"
type_synonym bytes = "u8 list"

text \<open>
  A fallible operation on a state returns \<open>(None, s)\<close> where the C function returns
  false (the state may have changed) and \<open>(Some v, s)\<close> where it returns true with
  the outputs \<open>v\<close>.
\<close>

type_synonym ('s, 'a) outcome = "'a option \<times> 's"

definition the_ok :: "('s, 'a) outcome \<Rightarrow> bool" where
  "the_ok r \<longleftrightarrow> fst r \<noteq> None"

lemma the_ok_simps [simp]: "the_ok (Some v, s)" "\<not> the_ok (None, s)"
  by (simp_all add: the_ok_def)

lemma the_ok_iff: "the_ok r \<longleftrightarrow> (\<exists>v s. r = (Some v, s))"
  by (cases r) (auto simp: the_ok_def)

text \<open>\<open>memcpy\<close> of \<open>data\<close> to offset \<open>p\<close> of a byte array, and single-byte stores through a pointer
  into memory.\<close>

definition put_bytes :: "nat \<Rightarrow> bytes \<Rightarrow> bytes \<Rightarrow> bytes" where
  "put_bytes p data buf = take p buf @ data @ drop (p + length data) buf"

type_synonym memory = "nat \<Rightarrow> u8"

primrec mem_store :: "memory \<Rightarrow> nat \<Rightarrow> bytes \<Rightarrow> memory" where
  "mem_store m p [] = m"
| "mem_store m p (b # bs) = mem_store (m(p := b)) (p + 1) bs"

definition mem_load :: "memory \<Rightarrow> nat \<Rightarrow> nat \<Rightarrow> bytes" where
  "mem_load m p n = map (\<lambda>i. m (p + i)) [0..<n]"

section \<open>Rule collections\<close>

named_theorems bit_consts \<open>the bits of the masks and flags the code uses\<close>
named_theorems stream_defs \<open>definitions of the elementary stream operations\<close>
named_theorems emit_rules \<open>which bytes an encoder step emits\<close>
named_theorems take_rules \<open>what a decoder step takes from its stream\<close>

section \<open>Bits of constants\<close>

lemma bit_int_mask_iff: "x = mask m \<Longrightarrow> bit (x::int) n \<longleftrightarrow> n < m"
  by (simp add: bit_mask_iff)

lemma bit_int_exp_iff: "x = 2 ^ m \<Longrightarrow> bit (x::int) n \<longleftrightarrow> n = m"
  by (auto simp add: bit_exp_iff)

lemma bit_int_0x80 [bit_consts]: "bit (0x80::int) n \<longleftrightarrow> n = 7"
  by (rule bit_int_exp_iff) simp

lemma bit_int_0x7F [bit_consts]: "bit (0x7F::int) n \<longleftrightarrow> n < 7"
  by (rule bit_int_mask_iff) (simp add: mask_eq_exp_minus_1)

lemma bit_int_0xFF [bit_consts]: "bit (0xFF::int) n \<longleftrightarrow> n < 8"
  by (rule bit_int_mask_iff) (simp add: mask_eq_exp_minus_1)

lemma bit_int_0x3F [bit_consts]: "bit (0x3F::int) n \<longleftrightarrow> n < 6"
  by (rule bit_int_mask_iff) (simp add: mask_eq_exp_minus_1)

lemma bit_int_0x1F [bit_consts]: "bit (0x1F::int) n \<longleftrightarrow> n < 5"
  by (rule bit_int_mask_iff) (simp add: mask_eq_exp_minus_1)

lemma bit_int_0x0F [bit_consts]: "bit (0x0F::int) n \<longleftrightarrow> n < 4"
  by (rule bit_int_mask_iff) (simp add: mask_eq_exp_minus_1)

lemma bit_int_0x07 [bit_consts]: "bit (7::int) n \<longleftrightarrow> n < 3"
  by (rule bit_int_mask_iff) (simp add: mask_eq_exp_minus_1)

lemma bit_int_0x03 [bit_consts]: "bit (3::int) n \<longleftrightarrow> n < 2"
  by (rule bit_int_mask_iff) (simp add: mask_eq_exp_minus_1)

lemma bit_int_0x70 [bit_consts]: "bit (0x70::int) n \<longleftrightarrow> 4 \<le> n \<and> n < 7"
proof -
  have e: "(0x70::int) = push_bit 4 7" by simp
  show ?thesis by (simp only: e bit_push_bit_iff) (auto simp: bit_consts)
qed

section \<open>Word facts\<close>

lemma unat_u8_lt [simp]: "unat (b :: u8) < 256"
  using unsigned_less [of b, where 'a = nat] by simp

lemma unat_u32_lt [simp]: "unat (b :: u32) < 4294967296"
  using unsigned_less [of b, where 'a = nat] by simp

lemma unat_u64_lt [simp]: "unat (b :: u64) < 18446744073709551616"
  using unsigned_less [of b, where 'a = nat] by simp

lemma unat_ucast_le:
  "LENGTH('a) \<le> LENGTH('b) \<Longrightarrow> unat (ucast (b :: 'a::len word) :: 'b::len word) = unat b"
  by (simp add: unsigned_ucast_eq take_bit_nat_eq_self_iff less_le_trans [OF unsigned_less])

lemma unat_ucast_u8_u64 [simp]: "unat (ucast (b :: u8) :: u64) = unat b"
  by (rule unat_ucast_le) simp

lemma unat_ucast_u8_u32 [simp]: "unat (ucast (b :: u8) :: u32) = unat b"
  by (rule unat_ucast_le) simp

lemma unat_ucast_u32_u64 [simp]: "unat (ucast (b :: u32) :: u64) = unat b"
  by (rule unat_ucast_le) simp

lemma word_eq_of_natI: "unat (w :: 'a::len word) = n \<Longrightarrow> w = of_nat n"
  by auto

lemma unat_minus_le: "(b :: 'a::len word) \<le> a \<Longrightarrow> unat (a - b) = unat a - unat b"
  by (simp add: unat_sub)

lemma unat_dec: "(a :: 'a::len word) \<noteq> 0 \<Longrightarrow> unat (a - 1) = unat a - 1"
  by (simp add: unat_minus_one)

lemma unat_pos [simp]: "0 < unat (a :: 'a::len word) \<longleftrightarrow> a \<noteq> 0"
  using unat_gt_0 by blast

lemma word_and_eq_0_bit: "(w AND 2 ^ n = 0) \<longleftrightarrow> \<not> bit (w :: 'a::len word) n"
proof -
  have "w AND 2 ^ n = (if bit w n then 2 ^ n else 0)"
    by (rule bit_word_eqI) (auto simp: bit_simps)
  moreover have "bit w n \<Longrightarrow> (2 ^ n :: 'a word) \<noteq> 0"
    using bit_imp_le_length [of w n] by (simp add: exp_eq_zero_iff)
  ultimately show ?thesis by simp
qed

lemma u8_and_0x80_eq_0: "(b AND 0x80 = 0) \<longleftrightarrow> \<not> bit (b :: u8) 7"
  using word_and_eq_0_bit [of b 7] by simp

text \<open>The overflow-safe bound check \<open>a + n < a || a + n > m\<close>.\<close>

lemma add_overflow_or_above:
  fixes a m n :: "'a::len word"
  assumes "unat n = k"
  shows "(a + n < a \<or> m < a + n) \<longleftrightarrow> unat m < unat a + k"
proof (cases "unat a + unat n < 2 ^ LENGTH('a)")
  case True
  then have "unat (a + n) = unat a + unat n" by (rule unat_add_lem [THEN iffD1])
  then show ?thesis using assms by (auto simp: word_less_nat_alt)
next
  case False
  have ab: "unat a < 2 ^ LENGTH('a)" "unat n < 2 ^ LENGTH('a)" "unat m < 2 ^ LENGTH('a)"
    by (rule unsigned_less)+
  have "unat (a + n) = (unat a + unat n) mod 2 ^ LENGTH('a)"
    by (rule unat_word_ariths)
  also have "\<dots> = unat a + unat n - 2 ^ LENGTH('a)"
  proof -
    have "unat a + unat n - 2 ^ LENGTH('a) < 2 ^ LENGTH('a)" using ab by linarith
    then show ?thesis using False by (simp add: le_mod_geq)
  qed
  finally have "unat (a + n) < unat a" using ab False by linarith
  moreover have "unat m < unat a + k" using False ab assms by linarith
  ultimately show ?thesis by (simp add: word_less_nat_alt)
qed

lemma drop_bit_nat_less: "0 < n \<Longrightarrow> 0 < (m::nat) \<Longrightarrow> drop_bit n m < m"
  using div_less_dividend [of "2 ^ n" m] one_less_power [of "2::nat" n]
  by (simp add: drop_bit_eq_div)

lemma unat_drop_bit_div: "unat (drop_bit n (v :: 'a::len word)) = unat v div 2 ^ n"
  by (subst unat_drop_bit_eq) (rule drop_bit_eq_div)

lemma drop_bit_eq_0_iff: "drop_bit n (v :: 'a::len word) = 0 \<longleftrightarrow> unat v < 2 ^ n"
  by (simp only: word_unat_eq_iff unat_drop_bit_div unat_0 div_eq_0_iff) simp

lemma bit_bound: "unat (v :: 'a::len word) < 2 ^ k \<Longrightarrow> bit v n \<Longrightarrow> n < k"
proof (rule ccontr)
  assume "unat v < 2 ^ k" "bit v n" "\<not> n < k"
  moreover from this have "bit (drop_bit k v) (n - k)" by (simp add: bit_drop_bit_eq)
  ultimately show False by (simp add: drop_bit_eq_0_iff [THEN iffD2])
qed

lemma unat_shift_or:
  fixes x y :: u32
  assumes "unat x < 2 ^ j" "unat y < 2 ^ k" "j + k \<le> 32"
  shows "unat (push_bit k x OR y) = unat x * 2 ^ k + unat y"
proof -
  have lt: "unat x * 2 ^ k + unat y < 2 ^ (j + k)"
  proof -
    have "unat x * 2 ^ k + unat y < (unat x + 1) * 2 ^ k" using assms(2) by (simp add: algebra_simps)
    also have "\<dots> \<le> 2 ^ j * 2 ^ k" using assms(1) by (intro mult_right_mono) auto
    finally show ?thesis by (simp add: power_add)
  qed
  also have "(2::nat) ^ (j + k) \<le> 2 ^ 32" using assms(3) by (rule power_increasing) simp
  finally have lt32: "unat x * 2 ^ k + unat y < 2 ^ 32" .
  have "push_bit k x OR y = push_bit k x + y"
    by (rule disjunctive_add [symmetric]) (auto simp: bit_simps dest!: bit_bound [OF assms(2)])
  also have "\<dots> = of_nat (unat x * 2 ^ k + unat y)" by (simp add: push_bit_eq_mult)
  finally have "unat (push_bit k x OR y) = (unat x * 2 ^ k + unat y) mod 2 ^ LENGTH(32)"
    by (simp only: unat_of_nat)
  then show ?thesis using lt32 by simp
qed

section \<open>List facts\<close>

lemma mem_store_append [simp]:
  "mem_store m p (xs @ ys) = mem_store (mem_store m p xs) (p + length xs) ys"
  by (induction xs arbitrary: m p) simp_all

lemma mem_store_apply:
  "mem_store m p bs i = (if p \<le> i \<and> i < p + length bs then bs ! (i - p) else m i)"
  by (induction bs arbitrary: m p) (auto simp: nth_Cons' Suc_le_eq)

lemma length_mem_load [simp]: "length (mem_load m p n) = n"
  by (simp add: mem_load_def)

lemma mem_load_store: "mem_load (mem_store m p bs) p (length bs) = bs"
  by (rule nth_equalityI) (simp_all add: mem_load_def mem_store_apply)

lemma mem_store_overwrite:
  "length xs \<le> length ys \<Longrightarrow> mem_store (mem_store m p xs) p ys = mem_store m p ys"
  by (rule ext) (auto simp: mem_store_apply)

lemma take_drop_split: "n \<le> length xs \<Longrightarrow> take n xs @ drop n xs = xs"
  by simp

lemma map_nth_upt_take: "n \<le> length xs \<Longrightarrow> map ((!) xs) [0..<n] = take n xs"
  by (rule nth_equalityI) auto

end
