(* ===== verification/PbCommon.thy ===== *)
theory PbCommon
  imports Prelude
begin

text \<open>
  nanopb's field descriptors (\<open>Pods/nanopb/pb.h\<close>) and the field iterator of
  \<open>Pods/nanopb/pb_common.c\<close>, in the configuration of the Pods build
  (\<open>PB_FIELD_32BIT\<close>, \<open>PB_NO_PACKED_STRUCTS\<close>, \<open>PB_ENABLE_MALLOC\<close>): \<open>pb_size_t\<close> has
  32 bits. Addresses are 64-bit words.
\<close>

section \<open>Descriptors\<close>

text \<open>
  A descriptor array is the list of its entries before the terminator: the entry at the
  list's length (and, for a C array, the last one that may be read) is \<open>PB_LAST_FIELD\<close>.
\<close>

record pb_field =
  f_tag :: u32
  f_type :: u8
  data_offset :: u32
  size_offset :: "32 word"
  data_size :: u32
  array_size :: u32
  f_ptr :: u64

definition PB_LAST_FIELD :: pb_field where
  "PB_LAST_FIELD = \<lparr>f_tag = 0, f_type = 0, data_offset = 0, size_offset = 0,
                    data_size = 0, array_size = 0, f_ptr = 0\<rparr>"

definition field_at :: "pb_field list \<Rightarrow> nat \<Rightarrow> pb_field" where
  "field_at fs i = (if i < length fs then fs ! i else PB_LAST_FIELD)"

abbreviation (input) PB_SIZE_MAX :: u32 where "PB_SIZE_MAX \<equiv> 0xFFFFFFFF"

definition PB_LTYPE :: "u8 \<Rightarrow> u8" where "PB_LTYPE x = x AND 0x0F"
definition PB_HTYPE :: "u8 \<Rightarrow> u8" where "PB_HTYPE x = x AND 0x30"
definition PB_ATYPE :: "u8 \<Rightarrow> u8" where "PB_ATYPE x = x AND 0xC0"

abbreviation (input) PB_LTYPE_BOOL :: u8 where "PB_LTYPE_BOOL \<equiv> 0x00"
abbreviation (input) PB_LTYPE_VARINT :: u8 where "PB_LTYPE_VARINT \<equiv> 0x01"
abbreviation (input) PB_LTYPE_UVARINT :: u8 where "PB_LTYPE_UVARINT \<equiv> 0x02"
abbreviation (input) PB_LTYPE_SVARINT :: u8 where "PB_LTYPE_SVARINT \<equiv> 0x03"
abbreviation (input) PB_LTYPE_FIXED32 :: u8 where "PB_LTYPE_FIXED32 \<equiv> 0x04"
abbreviation (input) PB_LTYPE_FIXED64 :: u8 where "PB_LTYPE_FIXED64 \<equiv> 0x05"
abbreviation (input) PB_LTYPE_LAST_PACKABLE :: u8 where "PB_LTYPE_LAST_PACKABLE \<equiv> 0x05"
abbreviation (input) PB_LTYPE_BYTES :: u8 where "PB_LTYPE_BYTES \<equiv> 0x06"
abbreviation (input) PB_LTYPE_STRING :: u8 where "PB_LTYPE_STRING \<equiv> 0x07"
abbreviation (input) PB_LTYPE_SUBMESSAGE :: u8 where "PB_LTYPE_SUBMESSAGE \<equiv> 0x08"
abbreviation (input) PB_LTYPE_EXTENSION :: u8 where "PB_LTYPE_EXTENSION \<equiv> 0x09"
abbreviation (input) PB_LTYPE_FIXED_LENGTH_BYTES :: u8 where "PB_LTYPE_FIXED_LENGTH_BYTES \<equiv> 0x0A"

abbreviation (input) PB_HTYPE_REQUIRED :: u8 where "PB_HTYPE_REQUIRED \<equiv> 0x00"
abbreviation (input) PB_HTYPE_OPTIONAL :: u8 where "PB_HTYPE_OPTIONAL \<equiv> 0x10"
abbreviation (input) PB_HTYPE_REPEATED :: u8 where "PB_HTYPE_REPEATED \<equiv> 0x20"
abbreviation (input) PB_HTYPE_ONEOF :: u8 where "PB_HTYPE_ONEOF \<equiv> 0x30"

abbreviation (input) PB_ATYPE_STATIC :: u8 where "PB_ATYPE_STATIC \<equiv> 0x00"
abbreviation (input) PB_ATYPE_POINTER :: u8 where "PB_ATYPE_POINTER \<equiv> 0x80"
abbreviation (input) PB_ATYPE_CALLBACK :: u8 where "PB_ATYPE_CALLBACK \<equiv> 0x40"

section \<open>The iterator\<close>

text \<open>\<open>it_start\<close> is the array, \<open>it_pos\<close> the index of \<open>iter->pos\<close> in it.\<close>

record pb_field_iter =
  it_start :: "pb_field list"
  it_pos :: nat
  required_field_index :: u32
  dest_struct :: u64
  pData :: u64
  pSize :: u64

definition cur_field :: "pb_field_iter \<Rightarrow> pb_field" where
  "cur_field it = field_at (it_start it) (it_pos it)"

text \<open>Both components: the return value and the iterator.\<close>

definition pb_field_iter_begin :: "pb_field list \<Rightarrow> u64 \<Rightarrow> bool \<times> pb_field_iter" where
  "pb_field_iter_begin fs dest =
     (let f = field_at fs 0; d = dest + ucast (data_offset f)
      in (f_tag f \<noteq> 0,
          \<lparr>it_start = fs, it_pos = 0, required_field_index = 0, dest_struct = dest,
           pData = d, pSize = d + scast (size_offset f)\<rparr>))"

text \<open>The bytes the previous field occupies in the struct (\<open>prev_size\<close>).\<close>

definition field_extent :: "pb_field \<Rightarrow> u64" where
  "field_extent prev =
     (if PB_ATYPE (f_type prev) = PB_ATYPE_STATIC \<and> PB_HTYPE (f_type prev) = PB_HTYPE_REPEATED
      then ucast (data_size prev) * ucast (array_size prev)
      else if PB_ATYPE (f_type prev) = PB_ATYPE_POINTER then 8
      else ucast (data_size prev))"

definition inside_union :: "pb_field \<Rightarrow> pb_field \<Rightarrow> bool" where
  "inside_union prev f \<longleftrightarrow>
     PB_HTYPE (f_type prev) = PB_HTYPE_ONEOF \<and> PB_HTYPE (f_type f) = PB_HTYPE_ONEOF \<and>
     data_offset f = PB_SIZE_MAX"

definition pb_field_iter_next :: "pb_field_iter \<Rightarrow> bool \<times> pb_field_iter" where
  "pb_field_iter_next it =
     (let prev = cur_field it; f = field_at (it_start it) (Suc (it_pos it)) in
      if f_tag prev = 0 then (False, it)
      else if f_tag f = 0 then (False, snd (pb_field_iter_begin (it_start it) (dest_struct it)))
      else if inside_union prev f then (True, it\<lparr>it_pos := Suc (it_pos it)\<rparr>)
      else
        let d = pData it + field_extent prev + ucast (data_offset f)
        in (True, it\<lparr>it_pos := Suc (it_pos it),
                     required_field_index :=
                       (if PB_HTYPE (f_type prev) = PB_HTYPE_REQUIRED
                        then required_field_index it + 1 else required_field_index it),
                     pData := d, pSize := d + scast (size_offset f)\<rparr>))"

text \<open>
  The search loop of \<open>pb_field_iter_find\<close>. \<open>fuel\<close> bounds its steps; \<open>find_loop_enough\<close>
  below shows that \<open>length fs + 1\<close> steps always reach a return of the C loop.
\<close>

fun find_loop :: "nat \<Rightarrow> nat \<Rightarrow> (pb_field \<Rightarrow> bool) \<Rightarrow> pb_field_iter \<Rightarrow> (bool \<times> pb_field_iter) option" where
  "find_loop 0 first wanted it = None"
| "find_loop (Suc fuel) first wanted it =
     (if wanted (cur_field it) then Some (True, it)
      else let it' = snd (pb_field_iter_next it)
           in if it_pos it' \<noteq> first then find_loop fuel first wanted it' else Some (False, it'))"

definition wanted_tag :: "u32 \<Rightarrow> pb_field \<Rightarrow> bool" where
  "wanted_tag t f \<longleftrightarrow> f_tag f = t \<and> PB_LTYPE (f_type f) \<noteq> PB_LTYPE_EXTENSION"

definition pb_field_iter_find :: "pb_field_iter \<Rightarrow> u32 \<Rightarrow> (bool \<times> pb_field_iter) option" where
  "pb_field_iter_find it t = find_loop (length (it_start it) + 1) (it_pos it) (wanted_tag t) it"

lemma next_true_advances:
  "pb_field_iter_next it = (True, it') \<Longrightarrow>
     it_start it' = it_start it \<and> it_pos it' = Suc (it_pos it) \<and> Suc (it_pos it) < length (it_start it)"
  by (auto simp: pb_field_iter_next_def Let_def field_at_def PB_LAST_FIELD_def split: if_splits)

text \<open>
  The loop \<open>do { if (!step) return false; } while (pb_field_iter_next(&iter)); return true;\<close>
  that the encoder and the initialiser run over a message; \<open>None\<close> is a step that does not
  return.
\<close>

function iter_all ::
  "(pb_field_iter \<Rightarrow> 's \<Rightarrow> (bool \<times> 's) option) \<Rightarrow> pb_field_iter \<Rightarrow> 's \<Rightarrow> (bool \<times> 's) option" where
  "iter_all step it s =
     (case step it s of
        None \<Rightarrow> None
      | Some (False, s') \<Rightarrow> Some (False, s')
      | Some (True, s') \<Rightarrow>
          (case pb_field_iter_next it of
             (True, it') \<Rightarrow> iter_all step it' s'
           | (False, it') \<Rightarrow> Some (True, s')))"
  by pat_completeness auto
termination
  by (relation "measure (\<lambda>(step, it, s). length (it_start it) - it_pos it)")
     (auto dest!: next_true_advances [OF sym])

declare iter_all.simps [simp del]

section \<open>What the iterator computes\<close>

text \<open>
  A reference for the layout: the state after \<open>k\<close> calls of \<open>next\<close> from \<open>begin\<close>, by
  recursion on \<open>k\<close>.
\<close>

primrec iter_at :: "pb_field list \<Rightarrow> u64 \<Rightarrow> nat \<Rightarrow> pb_field_iter" where
  "iter_at fs dest 0 = snd (pb_field_iter_begin fs dest)"
| "iter_at fs dest (Suc k) = snd (pb_field_iter_next (iter_at fs dest k))"

text \<open>A well-formed array: no entry before the terminator has tag 0.\<close>

definition fields_wf :: "pb_field list \<Rightarrow> bool" where
  "fields_wf fs \<longleftrightarrow> (\<forall>f \<in> set fs. f_tag f \<noteq> 0)"

lemma field_at_in [simp]: "i < length fs \<Longrightarrow> field_at fs i = fs ! i"
  by (simp add: field_at_def)

lemma field_at_end [simp]: "length fs \<le> i \<Longrightarrow> field_at fs i = PB_LAST_FIELD"
  by (simp add: field_at_def)

lemma tag_last [simp]: "f_tag PB_LAST_FIELD = 0"
  by (simp add: PB_LAST_FIELD_def)

lemma tag_field_at: "fields_wf fs \<Longrightarrow> f_tag (field_at fs i) = 0 \<longleftrightarrow> length fs \<le> i"
  by (cases "i < length fs") (auto simp: fields_wf_def)

lemma begin_simps [simp]:
  "fst (pb_field_iter_begin fs d) \<longleftrightarrow> f_tag (field_at fs 0) \<noteq> 0"
  "it_pos (snd (pb_field_iter_begin fs d)) = 0"
  "it_start (snd (pb_field_iter_begin fs d)) = fs"
  "dest_struct (snd (pb_field_iter_begin fs d)) = d"
  by (simp_all add: pb_field_iter_begin_def Let_def)

lemma next_keeps [simp]:
  "it_start (snd (pb_field_iter_next it)) = it_start it"
  "dest_struct (snd (pb_field_iter_next it)) = dest_struct it"
  by (simp_all add: pb_field_iter_next_def Let_def)

lemma next_pos:
  "fields_wf (it_start it) \<Longrightarrow> it_pos it < length (it_start it) \<Longrightarrow>
     it_pos (snd (pb_field_iter_next it)) =
       (if Suc (it_pos it) < length (it_start it) then Suc (it_pos it) else 0)"
  by (auto simp: pb_field_iter_next_def Let_def cur_field_def tag_field_at fields_wf_def)

lemma next_ret:
  "fields_wf (it_start it) \<Longrightarrow> it_pos it < length (it_start it) \<Longrightarrow>
     fst (pb_field_iter_next it) \<longleftrightarrow> Suc (it_pos it) < length (it_start it)"
  by (auto simp: pb_field_iter_next_def Let_def cur_field_def tag_field_at fields_wf_def)

lemma next_wrap:
  "fields_wf (it_start it) \<Longrightarrow> Suc (it_pos it) = length (it_start it) \<Longrightarrow>
     snd (pb_field_iter_next it) = snd (pb_field_iter_begin (it_start it) (dest_struct it))"
  by (auto simp: pb_field_iter_next_def Let_def cur_field_def tag_field_at fields_wf_def)

lemma iter_at_keeps [simp]:
  "it_start (iter_at fs d k) = fs" "dest_struct (iter_at fs d k) = d"
  by (induction k) simp_all

lemma iter_at_pos: "fields_wf fs \<Longrightarrow> k < length fs \<Longrightarrow> it_pos (iter_at fs d k) = k"
  by (induction k) (simp_all add: next_pos)

declare iter_at.simps [simp del]

lemma cur_field_iter_at [simp]:
  "fields_wf fs \<Longrightarrow> k < length fs \<Longrightarrow> cur_field (iter_at fs d k) = fs ! k"
  by (simp add: cur_field_def iter_at_pos)

text \<open>One step of \<open>next\<close> between canonical positions.\<close>

lemma next_iter_at:
  assumes "fields_wf fs" "k < length fs"
  shows "pb_field_iter_next (iter_at fs d k) =
           (Suc k < length fs, iter_at fs d (if Suc k < length fs then Suc k else 0))"
proof -
  let ?it = "iter_at fs d k"
  have it_pos: "it_pos ?it = k" using assms by (rule iter_at_pos)
  have "fst (pb_field_iter_next ?it) \<longleftrightarrow> Suc k < length fs"
    using next_ret [of ?it] assms it_pos by simp
  moreover have "snd (pb_field_iter_next ?it) =
      iter_at fs d (if Suc k < length fs then Suc k else 0)"
    using next_wrap [of ?it] assms it_pos by (cases "Suc k < length fs") (auto simp: iter_at.simps)
  ultimately show ?thesis by (simp add: prod_eq_iff)
qed

text \<open>
  The cyclic order in which the search visits the entries: from \<open>i\<close> to the end of the
  array, then from its beginning up to \<open>first\<close>.
\<close>

definition visit_order :: "nat \<Rightarrow> nat \<Rightarrow> nat \<Rightarrow> nat list" where
  "visit_order first i n = (if first \<le> i then [i..<n] @ [0..<first] else [i..<first])"

lemma visit_order_step:
  assumes "i < n" "first < n"
  defines "i' \<equiv> (if Suc i < n then Suc i else 0)"
  shows "visit_order first i n = i # (if i' = first then [] else visit_order first i' n)"
  using assms by (auto simp: visit_order_def upt_conv_Cons)

definition find_result :: "(pb_field \<Rightarrow> bool) \<Rightarrow> pb_field list \<Rightarrow> u64 \<Rightarrow> nat \<Rightarrow> nat list \<Rightarrow> bool \<times> pb_field_iter" where
  "find_result wanted fs d first order =
     (case find (\<lambda>i. wanted (fs ! i)) order of
        Some i \<Rightarrow> (True, iter_at fs d i)
      | None \<Rightarrow> (False, iter_at fs d first))"

lemma find_loop_enough:
  assumes "fields_wf fs" "first < length fs" "i < length fs"
    and "length (visit_order first i (length fs)) \<le> fuel"
  shows "find_loop fuel first wanted (iter_at fs d i) =
           Some (find_result wanted fs d first (visit_order first i (length fs)))"
  using assms(3,4)
proof (induction fuel arbitrary: i)
  case 0
  then show ?case using assms(2) by (simp add: visit_order_step)
next
  case (Suc fuel)
  let ?n = "length fs" and ?i' = "if Suc i < length fs then Suc i else 0"
  have i': "?i' < ?n" using assms(2) by auto
  have step: "visit_order first i ?n =
      i # (if ?i' = first then [] else visit_order first ?i' ?n)"
    using Suc.prems(1) assms(2) by (rule visit_order_step)
  have nxt: "snd (pb_field_iter_next (iter_at fs d i)) = iter_at fs d ?i'"
    using next_iter_at [OF assms(1) Suc.prems(1)] by simp
  have posn: "it_pos (iter_at fs d ?i') = ?i'"
    using assms(1) i' by (rule iter_at_pos)
  show ?case
  proof (cases "wanted (fs ! i) \<or> ?i' = first")
    case True
    then show ?thesis
      using Suc.prems(1) assms(1) by (auto simp: step nxt posn find_result_def Let_def)
  next
    case False
    then have "length (visit_order first ?i' ?n) \<le> fuel"
      using Suc.prems(2) step by simp
    then have "find_loop fuel first wanted (iter_at fs d ?i') =
        Some (find_result wanted fs d first (visit_order first ?i' ?n))"
      using Suc.IH i' by blast
    with False show ?thesis
      using Suc.prems(1) assms(1) by (auto simp: step nxt posn Let_def find_result_def)
  qed
qed

section \<open>Properties\<close>

text \<open>C21. From any position \<open>k\<close> of a well-formed descriptor array the search of
  \<open>pb_field_iter_find\<close> ends; it stops at the first entry with the wanted tag that is not an
  extension placeholder, in the cyclic order that starts at \<open>k\<close>, with the iterator state
  (data pointers, required-field index) that a fresh pass over the array has there; it
  returns false and is back at \<open>k\<close> when there is no such entry.\<close>

theorem pb_field_iter_find_first:
  assumes "fields_wf fs" "k < length fs"
  shows "pb_field_iter_find (iter_at fs d k) t =
           Some (case find (\<lambda>i. f_tag (fs ! i) = t \<and> PB_LTYPE (f_type (fs ! i)) \<noteq> PB_LTYPE_EXTENSION)
                        ([k..<length fs] @ [0..<k]) of
                   Some i \<Rightarrow> (True, iter_at fs d i)
                 | None \<Rightarrow> (False, iter_at fs d k))"
proof -
  have order: "visit_order k k (length fs) = [k..<length fs] @ [0..<k]"
    by (simp add: visit_order_def)
  have "find_loop (length fs + 1) k (wanted_tag t) (iter_at fs d k) =
          Some (find_result (wanted_tag t) fs d k (visit_order k k (length fs)))"
    by (rule find_loop_enough) (use assms in \<open>simp_all add: order\<close>)
  then show ?thesis
    using assms by (simp add: pb_field_iter_find_def iter_at_pos order find_result_def wanted_tag_def)
qed

definition example_fields :: "pb_field list" where
  "example_fields =
     [\<lparr>f_tag = 1, f_type = 0x02, data_offset = 0, size_offset = 0,
       data_size = 4, array_size = 0, f_ptr = 0\<rparr>,
      \<lparr>f_tag = 7, f_type = 0x05, data_offset = 4, size_offset = 0,
       data_size = 8, array_size = 0, f_ptr = 0\<rparr>]"

theorem pb_field_iter_find_first_witness:
  "pb_field_iter_find (iter_at example_fields 1000 1) 1 = Some (True, iter_at example_fields 1000 0)"
  using pb_field_iter_find_first [of example_fields 1 1000 1]
  by (simp add: example_fields_def fields_wf_def PB_LTYPE_def)

end
