(* ===== verification/PbLayout.thy ===== *)
theory PbLayout
  imports PbCommon
begin

text \<open>
  The macros of \<open>pb.h\<close> that fill descriptor arrays from a C struct, and what the field iterator
  makes of the arrays they build. A \<open>c_member\<close> holds what the compiler knows of a struct member;
  a \<open>field_decl\<close> is one use of \<open>PB_FIELD\<close> or of its variants for fixed counts and oneofs.
\<close>

datatype proto_type =
  P_BOOL | P_BYTES | P_DOUBLE | P_ENUM | P_UENUM | P_FIXED32 | P_FIXED64 | P_FLOAT | P_INT32
| P_INT64 | P_MESSAGE | P_SFIXED32 | P_SFIXED64 | P_SINT32 | P_SINT64 | P_STRING | P_UINT32
| P_UINT64 | P_EXTENSION | P_FIXED_LENGTH_BYTES

fun PB_LTYPE_MAP :: "proto_type \<Rightarrow> u8" where
  "PB_LTYPE_MAP P_BOOL = PB_LTYPE_BOOL"
| "PB_LTYPE_MAP P_BYTES = PB_LTYPE_BYTES"
| "PB_LTYPE_MAP P_DOUBLE = PB_LTYPE_FIXED64"
| "PB_LTYPE_MAP P_ENUM = PB_LTYPE_VARINT"
| "PB_LTYPE_MAP P_UENUM = PB_LTYPE_UVARINT"
| "PB_LTYPE_MAP P_FIXED32 = PB_LTYPE_FIXED32"
| "PB_LTYPE_MAP P_FIXED64 = PB_LTYPE_FIXED64"
| "PB_LTYPE_MAP P_FLOAT = PB_LTYPE_FIXED32"
| "PB_LTYPE_MAP P_INT32 = PB_LTYPE_VARINT"
| "PB_LTYPE_MAP P_INT64 = PB_LTYPE_VARINT"
| "PB_LTYPE_MAP P_MESSAGE = PB_LTYPE_SUBMESSAGE"
| "PB_LTYPE_MAP P_SFIXED32 = PB_LTYPE_FIXED32"
| "PB_LTYPE_MAP P_SFIXED64 = PB_LTYPE_FIXED64"
| "PB_LTYPE_MAP P_SINT32 = PB_LTYPE_SVARINT"
| "PB_LTYPE_MAP P_SINT64 = PB_LTYPE_SVARINT"
| "PB_LTYPE_MAP P_STRING = PB_LTYPE_STRING"
| "PB_LTYPE_MAP P_UINT32 = PB_LTYPE_UVARINT"
| "PB_LTYPE_MAP P_UINT64 = PB_LTYPE_UVARINT"
| "PB_LTYPE_MAP P_EXTENSION = PB_LTYPE_EXTENSION"
| "PB_LTYPE_MAP P_FIXED_LENGTH_BYTES = PB_LTYPE_FIXED_LENGTH_BYTES"

datatype rules = REQUIRED | OPTIONAL | SINGULAR | REPEATED | FIXED_COUNT | ONEOF | OPTEXT
datatype allocation = STATIC | POINTER | CALLBACK
datatype placement = FIRST | OTHER | UNION

text \<open>\<open>offsetof(st, m)\<close>, \<open>sizeof st.m\<close> and \<open>sizeof st.m[0]\<close>, the last also for a pointer \<open>m\<close>.\<close>

record c_member =
  m_offset :: nat
  m_size :: nat
  m_elem :: nat

text \<open>\<open>aux\<close> is the offset of the member \<open>has_m\<close>, \<open>m_count\<close> or \<open>which_u\<close> where the rule has one.\<close>

record field_decl =
  e_tag :: u32
  e_type :: proto_type
  e_rules :: rules
  e_alloc :: allocation
  e_place :: placement
  e_member :: c_member
  e_aux :: nat
  e_ptr :: u64

definition pb_membersize :: "c_member \<Rightarrow> u32" where
  "pb_membersize m = of_nat (m_size m)"

definition pb_arraysize :: "c_member \<Rightarrow> u32" where
  "pb_arraysize m = of_nat (m_size m div m_elem m)"

definition pb_delta :: "nat \<Rightarrow> nat \<Rightarrow> u32" where
  "pb_delta off1 off2 = of_nat off1 - of_nat off2"

fun PB_DATAOFFSET :: "placement \<Rightarrow> c_member \<Rightarrow> c_member \<Rightarrow> u32" where
  "PB_DATAOFFSET FIRST m1 m2 = of_nat (m_offset m1)"
| "PB_DATAOFFSET OTHER m1 m2 = of_nat (m_offset m1) - of_nat (m_offset m2) - pb_membersize m2"
| "PB_DATAOFFSET UNION m1 m2 = PB_SIZE_MAX"

fun atype_of :: "allocation \<Rightarrow> u8" where
  "atype_of STATIC = PB_ATYPE_STATIC"
| "atype_of POINTER = PB_ATYPE_POINTER"
| "atype_of CALLBACK = PB_ATYPE_CALLBACK"

fun htype_of :: "rules \<Rightarrow> allocation \<Rightarrow> u8" where
  "htype_of REQUIRED a = PB_HTYPE_REQUIRED"
| "htype_of OPTIONAL a = PB_HTYPE_OPTIONAL"
| "htype_of SINGULAR a = PB_HTYPE_OPTIONAL"
| "htype_of REPEATED a = PB_HTYPE_REPEATED"
| "htype_of FIXED_COUNT a = PB_HTYPE_REPEATED"
| "htype_of ONEOF a = PB_HTYPE_ONEOF"
| "htype_of OPTEXT a = (if a = STATIC then PB_HTYPE_REQUIRED else PB_HTYPE_OPTIONAL)"

text \<open>The rules whose entries point to a \<open>has_\<close>, \<open>_count\<close> or \<open>which_\<close> member.\<close>

fun has_aux :: "rules \<Rightarrow> allocation \<Rightarrow> bool" where
  "has_aux OPTIONAL a \<longleftrightarrow> a = STATIC"
| "has_aux REPEATED a \<longleftrightarrow> a \<noteq> CALLBACK"
| "has_aux ONEOF a \<longleftrightarrow> True"
| "has_aux _ a \<longleftrightarrow> False"

text \<open>
  One entry: \<open>PB_FIELD\<close>, \<open>PB_REPEATED_FIXED_COUNT\<close>, \<open>PB_ONEOF_FIELD\<close>; \<open>prev\<close> is the macro's
  argument \<open>prevfield\<close>.
\<close>

definition PB_FIELD :: "c_member \<Rightarrow> field_decl \<Rightarrow> pb_field" where
  "PB_FIELD prev e =
     (let m = e_member e; r = e_rules e; a = e_alloc e in
      \<lparr>f_tag = e_tag e,
       f_type = atype_of a OR htype_of r a OR PB_LTYPE_MAP (e_type e),
       data_offset = (if r = OPTEXT \<and> a = STATIC then 0 else PB_DATAOFFSET (e_place e) m prev),
       size_offset = (if has_aux r a then pb_delta (e_aux e) (m_offset m) else 0),
       data_size = (if a = POINTER \<or> a = STATIC \<and> (r = REPEATED \<or> r = FIXED_COUNT)
                    then of_nat (m_elem m) else pb_membersize m),
       array_size = (if a = STATIC \<and> (r = REPEATED \<or> r = FIXED_COUNT) then pb_arraysize m else 0),
       f_ptr = e_ptr e\<rparr>)"

text \<open>The array for a message: each entry names the one before as \<open>prevfield\<close>, the first itself.\<close>

definition descriptor_array :: "field_decl list \<Rightarrow> pb_field list" where
  "descriptor_array es = map (\<lambda>k. PB_FIELD (e_member (es ! (k - 1))) (es ! k)) [0..<length es]"

text \<open>
  What the compiler and the generator guarantee: pointers have 8 bytes, arrays are whole numbers
  of elements, members lie behind one another, except that the members of a union share its
  start and its \<open>which_\<close> member; everything lies in the first \<open>2 ^ 31 - 1\<close> bytes.
\<close>

definition member_ok :: "field_decl \<Rightarrow> bool" where
  "member_ok e \<longleftrightarrow>
     (let m = e_member e in
      m_offset m + m_size m < 2 ^ 31 - 1 \<and> e_aux e < 2 ^ 31 - 1 \<and> e_tag e \<noteq> 0 \<and> 0 < m_elem m \<and>
      m_elem m < 2 ^ 32 \<and>
      (e_alloc e = POINTER \<longrightarrow> m_size m = 8) \<and>
      (e_alloc e = STATIC \<longrightarrow> m_elem m dvd m_size m) \<and>
      (e_rules e = ONEOF \<longrightarrow> e_alloc e \<noteq> CALLBACK) \<and>
      (e_rules e = FIXED_COUNT \<longrightarrow> e_alloc e = STATIC) \<and> e_rules e \<noteq> OPTEXT)"

definition follows :: "field_decl \<Rightarrow> field_decl \<Rightarrow> bool" where
  "follows e' e \<longleftrightarrow>
     (if e_place e = UNION
      then e_rules e' = ONEOF \<and> e_rules e = ONEOF \<and> e_aux e = e_aux e' \<and>
           m_offset (e_member e) = m_offset (e_member e')
      else e_place e = OTHER \<and>
           m_offset (e_member e') + m_size (e_member e') \<le> m_offset (e_member e))"

definition message_layout :: "field_decl list \<Rightarrow> bool" where
  "message_layout es \<longleftrightarrow>
     (\<forall>e \<in> set es. member_ok e) \<and> (es \<noteq> [] \<longrightarrow> e_place (es ! 0) = FIRST) \<and>
     (\<forall>k. Suc k < length es \<longrightarrow> follows (es ! k) (es ! Suc k))"

section \<open>The iterator on such an array\<close>

lemma type_bits:
  "PB_HTYPE (atype_of a OR htype_of r a' OR PB_LTYPE_MAP p) = htype_of r a'"
  "PB_ATYPE (atype_of a OR htype_of r a' OR PB_LTYPE_MAP p) = atype_of a"
  "PB_LTYPE (atype_of a OR htype_of r a' OR PB_LTYPE_MAP p) = PB_LTYPE_MAP p"
  by (cases a; cases r; cases p; cases "a' = STATIC"; simp add: PB_HTYPE_def PB_ATYPE_def PB_LTYPE_def)+

lemma length_descriptor_array [simp]: "length (descriptor_array es) = length es"
  by (simp add: descriptor_array_def)

lemma nth_descriptor_array [simp]:
  "k < length es \<Longrightarrow> descriptor_array es ! k = PB_FIELD (e_member (es ! (k - 1))) (es ! k)"
  by (simp add: descriptor_array_def)

lemma PB_FIELD_types [simp]:
  "PB_HTYPE (f_type (PB_FIELD p e)) = htype_of (e_rules e) (e_alloc e)"
  "PB_ATYPE (f_type (PB_FIELD p e)) = atype_of (e_alloc e)"
  "f_tag (PB_FIELD p e) = e_tag e"
  "data_size (PB_FIELD p e) =
     (if e_alloc e = POINTER \<or> e_alloc e = STATIC \<and> (e_rules e = REPEATED \<or> e_rules e = FIXED_COUNT)
      then of_nat (m_elem (e_member e)) else pb_membersize (e_member e))"
  "array_size (PB_FIELD p e) =
     (if e_alloc e = STATIC \<and> (e_rules e = REPEATED \<or> e_rules e = FIXED_COUNT)
      then pb_arraysize (e_member e) else 0)"
  by (simp_all add: PB_FIELD_def Let_def type_bits)

lemma descriptor_array_wf: "message_layout es \<Longrightarrow> fields_wf (descriptor_array es)"
  by (auto simp: fields_wf_def descriptor_array_def message_layout_def member_ok_def Let_def
      dest!: bspec [OF _ nth_mem])

lemma sint_small: "- (2 ^ 31) \<le> k \<Longrightarrow> k < 2 ^ 31 \<Longrightarrow> sint (word_of_int k :: u32) = k"
  by (simp add: sint_sbintrunc' signed_take_bit_int_eq_self)

lemma pb_delta_scast:
  assumes "a < 2 ^ 31 - 1" "b < 2 ^ 31 - 1"
  shows "(scast (pb_delta a b) :: u64) = of_nat a - of_nat b"
proof -
  have "pb_delta a b = word_of_int (int a - int b)" by (simp add: pb_delta_def)
  moreover have "sint (word_of_int (int a - int b) :: u32) = int a - int b"
    using assms by (intro sint_small) auto
  ultimately have "sint (pb_delta a b) = int a - int b" by simp
  then have "(scast (pb_delta a b) :: u64) = word_of_int (int a - int b)"
    by (simp only: scast_eq)
  then show ?thesis by simp
qed

text \<open>The address arithmetic of the iterator for one member after another.\<close>

lemma extent_is_membersize:
  assumes "member_ok e"
  shows "field_extent (PB_FIELD p e) = of_nat (m_size (e_member e))"
proof -
  let ?m = "e_member e"
  have small: "m_size ?m < 2 ^ 32" using assms by (simp add: member_ok_def Let_def)
  show ?thesis
  proof (cases "e_alloc e")
    case STATIC
    have d: "m_elem ?m dvd m_size ?m" "0 < m_elem ?m" "m_elem ?m < 2 ^ 32"
      using assms STATIC by (auto simp: member_ok_def Let_def)
    have "m_size ?m div m_elem ?m \<le> m_size ?m" by simp
    then have q: "m_size ?m div m_elem ?m < 2 ^ 32" using small by linarith
    have "(ucast (of_nat (m_elem ?m) :: u32) :: u64) * ucast (of_nat (m_size ?m div m_elem ?m) :: u32) =
          of_nat (m_elem ?m * (m_size ?m div m_elem ?m))"
      using d(3) q by (simp add: unsigned_of_nat take_bit_nat_eq_self)
    also have "\<dots> = of_nat (m_size ?m)" using d(1) by simp
    finally have mult: "(ucast (of_nat (m_elem ?m) :: u32) :: u64) * ucast (pb_arraysize ?m) =
        of_nat (m_size ?m)" by (simp only: pb_arraysize_def)
    have "(ucast (pb_membersize ?m) :: u64) = of_nat (m_size ?m)"
      using small by (simp add: pb_membersize_def unsigned_of_nat take_bit_nat_eq_self)
    then show ?thesis
      using STATIC assms mult by (cases "e_rules e") (auto simp: field_extent_def member_ok_def Let_def)
  next
    case POINTER
    then show ?thesis using assms by (simp add: field_extent_def member_ok_def Let_def)
  next
    case CALLBACK
    then show ?thesis using small
      by (simp add: field_extent_def pb_membersize_def unsigned_of_nat take_bit_nat_eq_self)
  qed
qed

text \<open>The state in which the iterator stands at entry \<open>k\<close>.\<close>

definition stands_at :: "field_decl list \<Rightarrow> u64 \<Rightarrow> nat \<Rightarrow> pb_field_iter \<Rightarrow> bool" where
  "stands_at es d k it \<longleftrightarrow>
     (let e = es ! k in
      it_pos it = k \<and>
      pData it = d + of_nat (m_offset (e_member e)) \<and>
      pSize it = (if has_aux (e_rules e) (e_alloc e) then d + of_nat (e_aux e) else pData it) \<and>
      required_field_index it = of_nat (length (filter (\<lambda>e. e_rules e = REQUIRED) (take k es))))"

lemma size_pointer:
  assumes "member_ok e" "x = d + (of_nat (m_offset (e_member e)) :: u64)"
  shows "x + scast (size_offset (PB_FIELD p e)) =
           (if has_aux (e_rules e) (e_alloc e) then d + of_nat (e_aux e) else x)"
proof -
  have "m_offset (e_member e) < 2 ^ 31 - 1" "e_aux e < 2 ^ 31 - 1"
    using assms(1) by (auto simp: member_ok_def Let_def)
  then show ?thesis using assms(2) by (simp add: PB_FIELD_def Let_def pb_delta_scast)
qed

lemma iterator_steps:
  assumes "member_ok e'" "member_ok e" "follows e' e"
    and "x = d + (of_nat (m_offset (e_member e')) :: u64)" "f = PB_FIELD (e_member e') e"
  shows "inside_union (PB_FIELD p e') f \<longleftrightarrow> e_place e = UNION"
    and "e_place e \<noteq> UNION \<Longrightarrow>
         x + field_extent (PB_FIELD p e') + ucast (data_offset f) = d + of_nat (m_offset (e_member e))"
proof -
  let ?m' = "e_member e'" and ?m = "e_member e"
  have f: "data_offset f = PB_DATAOFFSET (e_place e) ?m ?m'"
    using assms(2,5) by (simp add: PB_FIELD_def Let_def member_ok_def)
  have other: "\<exists>z < 2 ^ 31 - 1. m_offset ?m = m_offset ?m' + m_size ?m' + z \<and> data_offset f = of_nat z"
    if "e_place e \<noteq> UNION"
  proof -
    have "m_offset ?m' + m_size ?m' \<le> m_offset ?m" "e_place e = OTHER"
      using assms(3) that by (auto simp: follows_def)
    then obtain z where z: "m_offset ?m = m_offset ?m' + m_size ?m' + z"
      by (auto simp: le_iff_add)
    moreover have "m_offset ?m < 2 ^ 31 - 1" using assms(2) by (simp add: member_ok_def Let_def)
    ultimately show ?thesis
      using f \<open>e_place e = OTHER\<close> by (auto simp: pb_membersize_def)
  qed
  have nm: "data_offset f \<noteq> PB_SIZE_MAX" if "e_place e \<noteq> UNION"
  proof -
    have "unat (data_offset f) < 2 ^ 31 - 1"
      using other [OF that] by (auto simp: unsigned_of_nat take_bit_nat_eq_self)
    then show ?thesis by auto
  qed
  show "inside_union (PB_FIELD p e') f \<longleftrightarrow> e_place e = UNION"
    using nm assms(3,5) f by (auto simp: inside_union_def follows_def)
  show "x + field_extent (PB_FIELD p e') + ucast (data_offset f) = d + of_nat (m_offset ?m)"
    if "e_place e \<noteq> UNION"
    using other [OF that] assms(1,4)
    by (auto simp: extent_is_membersize unsigned_of_nat take_bit_nat_eq_self)
qed

lemma htype_required:
  "member_ok e \<Longrightarrow> htype_of (e_rules e) (e_alloc e) = PB_HTYPE_REQUIRED \<longleftrightarrow> e_rules e = REQUIRED"
  by (cases "e_rules e") (auto simp: member_ok_def Let_def)

text \<open>C22. The descriptor macros and the iterator fit together: on the array that \<open>PB_FIELD\<close> builds
  for any struct layout (static and fixed-count arrays, pointers, callbacks, unions), the
  iterator started at address \<open>d\<close> stands, at entry \<open>k\<close>, at the address of that member, with
  \<open>pSize\<close> at its \<open>has_\<close>, \<open>_count\<close> or \<open>which_\<close> member where it has one (also inside a union, where
  the code leaves both pointers alone), and has counted the required fields before it.\<close>

theorem pb_field_iter_layout:
  assumes "message_layout es" "k < length es"
  shows "stands_at es d k (iter_at (descriptor_array es) d k)"
  using assms(2)
proof (induction k)
  case 0
  then have "es \<noteq> []" "e_place (es ! 0) = FIRST" "member_ok (es ! 0)"
    using assms(1) by (auto simp: message_layout_def)
  then have "ucast (data_offset (PB_FIELD (e_member (es ! 0)) (es ! 0))) =
             (of_nat (m_offset (e_member (es ! 0))) :: u64)"
    by (simp add: PB_FIELD_def Let_def member_ok_def unsigned_of_nat take_bit_nat_eq_self)
  with \<open>es \<noteq> []\<close> \<open>member_ok (es ! 0)\<close> show ?case
    by (simp add: iter_at.simps pb_field_iter_begin_def Let_def stands_at_def size_pointer)
next
  case (Suc k)
  let ?fs = "descriptor_array es"
  have m: "member_ok (es ! k)" "member_ok (es ! Suc k)" "follows (es ! k) (es ! Suc k)"
    using assms(1) Suc.prems by (auto simp: message_layout_def)
  have st: "stands_at es d k (iter_at ?fs d k)" using Suc by simp
  have n: "iter_at ?fs d (Suc k) = snd (pb_field_iter_next (iter_at ?fs d k))" "it_pos (iter_at ?fs d k) = k"
    using st by (simp_all add: iter_at.simps stands_at_def Let_def)
  have cur: "cur_field (iter_at ?fs d k) = ?fs ! k" "f_tag (?fs ! k) \<noteq> 0" "f_tag (?fs ! Suc k) \<noteq> 0"
    using Suc.prems n m by (simp_all add: cur_field_def member_ok_def Let_def)
  have req: "filter (\<lambda>e. e_rules e = REQUIRED) (take (Suc k) es) =
      filter (\<lambda>e. e_rules e = REQUIRED) (take k es) @ (if e_rules (es ! k) = REQUIRED then [es ! k] else [])"
    using Suc.prems by (simp add: take_Suc_conv_app_nth)
  note step = iterator_steps(1) [OF m refl refl, where p = "e_member (es ! (k - 1))"]
    iterator_steps(2) [OF m refl refl, where p = "e_member (es ! (k - 1))" and d = d]
  show ?case
    using st m Suc.prems cur n req step size_pointer [OF m(2) step(2)]
    by (auto simp: pb_field_iter_next_def stands_at_def htype_required follows_def Let_def)
qed

text \<open>A message with an optional integer, an array, a union of a pointer and a double, and a string.\<close>

definition example_decls :: "field_decl list" where
  "example_decls =
    [\<lparr>e_tag = 1, e_type = P_INT32, e_rules = OPTIONAL, e_alloc = STATIC, e_place = FIRST,
      e_member = \<lparr>m_offset = 4, m_size = 4, m_elem = 4\<rparr>, e_aux = 0, e_ptr = 0\<rparr>,
     \<lparr>e_tag = 2, e_type = P_FIXED64, e_rules = REPEATED, e_alloc = STATIC, e_place = OTHER,
      e_member = \<lparr>m_offset = 16, m_size = 24, m_elem = 8\<rparr>, e_aux = 8, e_ptr = 0\<rparr>,
     \<lparr>e_tag = 3, e_type = P_BYTES, e_rules = ONEOF, e_alloc = POINTER, e_place = OTHER,
      e_member = \<lparr>m_offset = 48, m_size = 8, m_elem = 1\<rparr>, e_aux = 40, e_ptr = 0\<rparr>,
     \<lparr>e_tag = 4, e_type = P_DOUBLE, e_rules = ONEOF, e_alloc = STATIC, e_place = UNION,
      e_member = \<lparr>m_offset = 48, m_size = 8, m_elem = 8\<rparr>, e_aux = 40, e_ptr = 0\<rparr>,
     \<lparr>e_tag = 5, e_type = P_STRING, e_rules = REQUIRED, e_alloc = POINTER, e_place = OTHER,
      e_member = \<lparr>m_offset = 56, m_size = 8, m_elem = 1\<rparr>, e_aux = 0, e_ptr = 0\<rparr>]"

theorem pb_field_iter_layout_witness:
  "pData (iter_at (descriptor_array example_decls) 1000 3) = 1048 \<and>
   pSize (iter_at (descriptor_array example_decls) 1000 3) = 1040"
proof -
  have "message_layout example_decls"
    by (auto simp: message_layout_def example_decls_def member_ok_def follows_def Let_def less_Suc_eq
        nth_Cons')
  from pb_field_iter_layout [OF this, of 3 1000] show ?thesis
    by (simp add: stands_at_def Let_def example_decls_def)
qed

end
