(* ===== verification/PbIStream.thy ===== *)
theory PbIStream
  imports Prelude
begin

text \<open>
  nanopb's input streams: \<open>Pods/nanopb/pb_decode.c\<close> up to \<open>pb_close_string_substream\<close>,
  with the types of \<open>pb_decode.h\<close> and \<open>pb.h\<close>. A stream is a callback that fills a
  buffer, its private state and a byte budget \<open>bytes_left\<close>; everything else (varints, tags,
  skipping, substreams) is built on \<open>pb_read\<close> and \<open>pb_readbyte\<close>.
\<close>

section \<open>Streams\<close>

text \<open>
  The \<open>void *state\<close> of a stream is either the byte pointer of \<open>buf_read\<close> (the bytes
  from the pointer to the end of its buffer) or the state of a user callback. A user callback
  is a function of its state and the count; it returns its success, the bytes it leaves in the
  buffer and its next state (\<open>pb_decode.h\<close>: a callback uses \<open>state\<close> and must not use
  \<open>bytes_left\<close>). The model never applies \<open>buf_read\<close> to a user state: in C that would
  read a foreign object as bytes; here the read fails.
\<close>

datatype 'u istate = BufPtr bytes | UserState 'u

datatype 'u icallback =
  Buf_read
| User_read "'u istate \<Rightarrow> u64 \<Rightarrow> bool \<times> (nat \<Rightarrow> u8) \<times> 'u istate"

record 'u pb_istream =
  i_callback :: "'u icallback"
  i_state :: "'u istate"
  bytes_left :: u64
  i_errmsg :: "string option"

definition is_buf_read :: "'u icallback \<Rightarrow> bool" where
  "is_buf_read cb = (case cb of Buf_read \<Rightarrow> True | User_read f \<Rightarrow> False)"

text \<open>\<open>PB_SET_ERROR\<close> keeps the first message; \<open>PB_RETURN_ERROR\<close> then returns false.\<close>

definition pb_set_error :: "'u pb_istream \<Rightarrow> string \<Rightarrow> 'u pb_istream" where
  "pb_set_error s msg =
     s\<lparr>i_errmsg := (case i_errmsg s of None \<Rightarrow> Some msg | Some m \<Rightarrow> Some m)\<rparr>"

definition pb_return_error :: "'u pb_istream \<Rightarrow> string \<Rightarrow> ('u pb_istream, 'a) outcome" where
  "pb_return_error s msg = (None, pb_set_error s msg)"

definition buf_read ::
  "'u istate \<Rightarrow> u64 \<Rightarrow> bool \<times> (nat \<Rightarrow> u8) \<times> 'u istate" where
  "buf_read st count =
     (case st of
        BufPtr source \<Rightarrow> (True, (\<lambda>i. source ! i), BufPtr (drop (unat count) source))
      | UserState u \<Rightarrow> (False, (\<lambda>i. 0), UserState u))"

text \<open>The call through \<open>stream->callback\<close>: the bytes stored in \<open>buf[0..count)\<close>.\<close>

definition run_icallback :: "'u pb_istream \<Rightarrow> u64 \<Rightarrow> ('u pb_istream, bytes) outcome" where
  "run_icallback s count =
     (let (ok, buf, st) =
        (case i_callback s of Buf_read \<Rightarrow> buf_read (i_state s) count
                            | User_read f \<Rightarrow> f (i_state s) count)
      in (if ok then Some (map buf [0..<unat count]) else None, s\<lparr>i_state := st\<rparr>))"

definition pb_istream_from_buffer :: "bytes \<Rightarrow> u64 \<Rightarrow> 'u pb_istream" where
  "pb_istream_from_buffer buf bufsize =
     \<lparr>i_callback = Buf_read, i_state = BufPtr buf, bytes_left = bufsize, i_errmsg = None\<rparr>"

section \<open>Reading\<close>

text \<open>The tail of \<open>pb_read\<close>: the check against the budget and the callback.\<close>

definition pb_read_direct :: "'u pb_istream \<Rightarrow> u64 \<Rightarrow> ('u pb_istream, bytes) outcome" where
  "pb_read_direct s count =
     (if bytes_left s < count then pb_return_error s ''end-of-stream''
      else case run_icallback s count of
             (None, s') \<Rightarrow> pb_return_error s' ''io error''
           | (Some buf, s') \<Rightarrow> (Some buf, s'\<lparr>bytes_left := bytes_left s' - count\<rparr>))"

text \<open>
  Skipping with a user callback: chunks of 16 bytes through a local buffer, each a
  \<open>pb_read\<close> with a non-null buffer.
\<close>

definition pb_read_tmp :: "'u pb_istream \<Rightarrow> u64 \<Rightarrow> ('u pb_istream, bytes) outcome" where
  "pb_read_tmp s count = (if count = 0 then (Some [], s) else pb_read_direct s count)"

function pb_read_skip :: "'u pb_istream \<Rightarrow> u64 \<Rightarrow> ('u pb_istream, bytes) outcome" where
  "pb_read_skip s count =
     (if 16 < count
      then case pb_read_tmp s 16 of
             (None, s') \<Rightarrow> (None, s')
           | (Some tmp, s') \<Rightarrow> pb_read_skip s' (count - 16)
      else pb_read_tmp s count)"
  by pat_completeness auto
termination
  by (relation "measure (\<lambda>(s, count). unat count)")
     (auto simp: unat_sub word_less_nat_alt word_le_nat_alt)

declare pb_read_skip.simps [simp del]

text \<open>
  \<open>pb_read\<close>, with \<open>null\<close> for a null \<open>buf\<close>; the bytes delivered are the result, and
  a null buffer discards them.
\<close>

definition pb_read :: "'u pb_istream \<Rightarrow> bool \<Rightarrow> u64 \<Rightarrow> ('u pb_istream, bytes) outcome" where
  "pb_read s null count =
     (if count = 0 then (Some [], s)
      else if null \<and> \<not> is_buf_read (i_callback s) then pb_read_skip s count
      else pb_read_direct s count)"

definition pb_readbyte :: "'u pb_istream \<Rightarrow> ('u pb_istream, u8) outcome" where
  "pb_readbyte s =
     (if bytes_left s = 0 then pb_return_error s ''end-of-stream''
      else case run_icallback s 1 of
             (None, s') \<Rightarrow> pb_return_error s' ''io error''
           | (Some buf, s') \<Rightarrow> (Some (buf ! 0), s'\<lparr>bytes_left := bytes_left s' - 1\<rparr>))"

lemma run_icallback_bytes_left [simp]:
  "run_icallback s n = (r, s') \<Longrightarrow> bytes_left s' = bytes_left s"
  by (auto simp: run_icallback_def Let_def split: prod.splits icallback.splits)

lemma run_icallback_callback [simp]:
  "run_icallback s n = (r, s') \<Longrightarrow> i_callback s' = i_callback s"
  by (auto simp: run_icallback_def Let_def split: prod.splits icallback.splits)

lemma pb_readbyte_bytes_left:
  "pb_readbyte s = (Some b, s') \<Longrightarrow> Suc (unat (bytes_left s')) = unat (bytes_left s)"
  by (auto simp: pb_readbyte_def pb_return_error_def unat_dec split: if_splits prod.splits option.splits)

section \<open>Varints\<close>

text \<open>
  The multi-byte loop of \<open>pb_decode_varint32_eof\<close>. \<open>bitpos\<close> is a
  \<open>uint_fast8_t\<close>, eight bits wide on the platform, and wraps at 256.
\<close>

function varint32_loop :: "'u pb_istream \<Rightarrow> u8 \<Rightarrow> u32 \<Rightarrow> ('u pb_istream, u8 \<times> u8 \<times> u32) outcome" where
  "varint32_loop s bitpos result =
     (case pb_readbyte s of
        (None, s') \<Rightarrow> (None, s')
      | (Some byte, s') \<Rightarrow>
          (let sign_extension = (if bitpos < 63 then 0xFF else 0x01) in
           if 32 \<le> bitpos \<and> byte AND 0x7F \<noteq> 0 \<and>
              (drop_bit 31 result = 0 \<or> byte \<noteq> sign_extension)
           then pb_return_error s' ''varint overflow''
           else let result' = (if 32 \<le> bitpos then result
                               else result OR push_bit (unat bitpos) (ucast (byte AND 0x7F)));
                    bitpos' = bitpos + 7
                in if byte AND 0x80 \<noteq> 0 then varint32_loop s' bitpos' result'
                   else (Some (byte, bitpos', result'), s')))"
  by pat_completeness auto
termination
  by (relation "measure (\<lambda>(s, b, r). unat (bytes_left s))")
     (auto dest!: pb_readbyte_bytes_left [OF sym])

declare varint32_loop.simps [simp del]

text \<open>The second component of the result is whether \<open>*eof\<close> was set.\<close>

definition pb_decode_varint32_eof ::
  "'u pb_istream \<Rightarrow> bool \<times> ('u pb_istream, u32) outcome" where
  "pb_decode_varint32_eof s =
     (case pb_readbyte s of
        (None, s') \<Rightarrow> (bytes_left s' = 0, (None, s'))
      | (Some byte, s') \<Rightarrow>
          (False,
           if byte AND 0x80 = 0 then (Some (ucast byte), s')
           else case varint32_loop s' 7 (ucast (byte AND 0x7F)) of
                  (None, s'') \<Rightarrow> (None, s'')
                | (Some (byte', bitpos, result), s'') \<Rightarrow>
                    if bitpos = 35 \<and> byte' AND 0x70 \<noteq> 0
                    then pb_return_error s'' ''varint overflow''
                    else (Some result, s'')))"

definition pb_decode_varint32 :: "'u pb_istream \<Rightarrow> ('u pb_istream, u32) outcome" where
  "pb_decode_varint32 s = snd (pb_decode_varint32_eof s)"

function varint_loop :: "'u pb_istream \<Rightarrow> u8 \<Rightarrow> u64 \<Rightarrow> ('u pb_istream, u64) outcome" where
  "varint_loop s bitpos result =
     (if 64 \<le> bitpos then pb_return_error s ''varint overflow''
      else case pb_readbyte s of
             (None, s') \<Rightarrow> (None, s')
           | (Some byte, s') \<Rightarrow>
               (let result' = result OR push_bit (unat bitpos) (ucast (byte AND 0x7F));
                    bitpos' = bitpos + 7
                in if byte AND 0x80 \<noteq> 0 then varint_loop s' bitpos' result'
                   else (Some result', s')))"
  by pat_completeness auto
termination
  by (relation "measure (\<lambda>(s, b, r). unat (bytes_left s))")
     (auto dest!: pb_readbyte_bytes_left [OF sym])

declare varint_loop.simps [simp del]

definition pb_decode_varint :: "'u pb_istream \<Rightarrow> ('u pb_istream, u64) outcome" where
  "pb_decode_varint s = varint_loop s 0 0"

section \<open>Other scalar decoders\<close>

definition pb_decode_bool :: "'u pb_istream \<Rightarrow> ('u pb_istream, bool) outcome" where
  "pb_decode_bool s =
     (case pb_decode_varint32 s of
        (None, s') \<Rightarrow> (None, s')
      | (Some value, s') \<Rightarrow> (Some (value \<noteq> 0), s'))"

text \<open>The result holds the two's complement of the \<open>int64_t\<close>.\<close>

definition pb_decode_svarint :: "'u pb_istream \<Rightarrow> ('u pb_istream, u64) outcome" where
  "pb_decode_svarint s =
     (case pb_decode_varint s of
        (None, s') \<Rightarrow> (None, s')
      | (Some value, s') \<Rightarrow>
          (Some (if value AND 1 \<noteq> 0 then NOT (drop_bit 1 value) else drop_bit 1 value), s'))"

definition pb_decode_fixed32 :: "'u pb_istream \<Rightarrow> ('u pb_istream, u32) outcome" where
  "pb_decode_fixed32 s =
     (case pb_read s False 4 of
        (None, s') \<Rightarrow> (None, s')
      | (Some b, s') \<Rightarrow>
          (Some (push_bit 0 (ucast (b ! 0)) OR push_bit 8 (ucast (b ! 1)) OR
                 push_bit 16 (ucast (b ! 2)) OR push_bit 24 (ucast (b ! 3))), s'))"

definition pb_decode_fixed64 :: "'u pb_istream \<Rightarrow> ('u pb_istream, u64) outcome" where
  "pb_decode_fixed64 s =
     (case pb_read s False 8 of
        (None, s') \<Rightarrow> (None, s')
      | (Some b, s') \<Rightarrow>
          (Some (push_bit 0 (ucast (b ! 0)) OR push_bit 8 (ucast (b ! 1)) OR
                 push_bit 16 (ucast (b ! 2)) OR push_bit 24 (ucast (b ! 3)) OR
                 push_bit 32 (ucast (b ! 4)) OR push_bit 40 (ucast (b ! 5)) OR
                 push_bit 48 (ucast (b ! 6)) OR push_bit 56 (ucast (b ! 7))), s'))"

section \<open>Tags, skipping, raw values\<close>

abbreviation (input) PB_WT_VARINT :: u32 where "PB_WT_VARINT \<equiv> 0"
abbreviation (input) PB_WT_64BIT :: u32 where "PB_WT_64BIT \<equiv> 1"
abbreviation (input) PB_WT_STRING :: u32 where "PB_WT_STRING \<equiv> 2"
abbreviation (input) PB_WT_32BIT :: u32 where "PB_WT_32BIT \<equiv> 5"

lemma pb_read_direct_bytes_left:
  "pb_read_direct s n = (Some bs, s') \<Longrightarrow>
     n \<le> bytes_left s \<and> bytes_left s' = bytes_left s - n"
  by (auto simp: pb_read_direct_def pb_return_error_def not_less
      split: if_splits prod.splits option.splits)

lemma pb_read_one_decreases:
  "pb_read s False 1 = (Some bs, s') \<Longrightarrow> unat (bytes_left s') < unat (bytes_left s)"
  using pb_read_direct_bytes_left [of s 1 bs s']
  by (auto simp: pb_read_def word_le_nat_alt unat_sub)

function pb_skip_varint :: "'u pb_istream \<Rightarrow> ('u pb_istream, unit) outcome" where
  "pb_skip_varint s =
     (case pb_read s False 1 of
        (None, s') \<Rightarrow> (None, s')
      | (Some buf, s') \<Rightarrow> if (buf ! 0) AND 0x80 \<noteq> 0 then pb_skip_varint s' else (Some (), s'))"
  by pat_completeness auto
termination
  by (relation "measure (\<lambda>s. unat (bytes_left s))") (auto dest!: pb_read_one_decreases [OF sym])

declare pb_skip_varint.simps [simp del]

definition discard :: "('s, 'a) outcome \<Rightarrow> ('s, unit) outcome" where
  "discard r = (map_option (\<lambda>x. ()) (fst r), snd r)"

definition pb_skip_string :: "'u pb_istream \<Rightarrow> ('u pb_istream, unit) outcome" where
  "pb_skip_string s =
     (case pb_decode_varint32 s of
        (None, s') \<Rightarrow> (None, s')
      | (Some len, s') \<Rightarrow> discard (pb_read s' True (ucast len)))"

text \<open>
  \<open>pb_decode_tag\<close> sets its three outputs before it reads, so they are part of the result
  on both returns: success, \<open>wire_type\<close>, \<open>tag\<close>, \<open>eof\<close>.
\<close>

definition pb_decode_tag ::
  "'u pb_istream \<Rightarrow> (bool \<times> u32 \<times> u32 \<times> bool) \<times> 'u pb_istream" where
  "pb_decode_tag s =
     (case pb_decode_varint32_eof s of
        (eof, (None, s')) \<Rightarrow> ((False, 0, 0, eof), s')
      | (eof, (Some temp, s')) \<Rightarrow>
          if temp = 0 then ((False, 0, 0, True), s')
          else ((True, temp AND 7, drop_bit 3 temp, eof), s'))"

definition pb_skip_field :: "'u pb_istream \<Rightarrow> u32 \<Rightarrow> ('u pb_istream, unit) outcome" where
  "pb_skip_field s wire_type =
     (if wire_type = PB_WT_VARINT then pb_skip_varint s
      else if wire_type = PB_WT_64BIT then discard (pb_read s True 8)
      else if wire_type = PB_WT_STRING then pb_skip_string s
      else if wire_type = PB_WT_32BIT then discard (pb_read s True 4)
      else pb_return_error s ''invalid wire_type'')"

text \<open>
  \<open>read_raw_value\<close> with \<open>max_size\<close> the value of \<open>*size\<close> on call; the result is the
  value read, whose length is \<open>*size\<close> on return.
\<close>

function raw_varint_loop :: "'u pb_istream \<Rightarrow> u64 \<Rightarrow> u64 \<Rightarrow> bytes \<Rightarrow> ('u pb_istream, bytes) outcome" where
  "raw_varint_loop s sz max_size acc =
     (let sz' = sz + 1 in
      if max_size < sz' then (None, s)
      else case pb_read s False 1 of
             (None, s') \<Rightarrow> (None, s')
           | (Some b, s') \<Rightarrow>
               if (b ! 0) AND 0x80 \<noteq> 0 then raw_varint_loop s' sz' max_size (acc @ b)
               else (Some (acc @ b), s'))"
  by pat_completeness auto
termination
  by (relation "measure (\<lambda>(s, n, m, a). unat (bytes_left s))")
     (auto dest!: pb_read_one_decreases [OF sym])

declare raw_varint_loop.simps [simp del]

definition read_raw_value :: "'u pb_istream \<Rightarrow> u32 \<Rightarrow> u64 \<Rightarrow> ('u pb_istream, bytes) outcome" where
  "read_raw_value s wire_type max_size =
     (if wire_type = PB_WT_VARINT then raw_varint_loop s 0 max_size []
      else if wire_type = PB_WT_64BIT then pb_read s False 8
      else if wire_type = PB_WT_32BIT then pb_read s False 4
      else pb_return_error s ''invalid wire_type'')"

section \<open>Substreams\<close>

text \<open>The result carries the substream, the state is the parent.\<close>

definition pb_make_string_substream ::
  "'u pb_istream \<Rightarrow> ('u pb_istream, 'u pb_istream) outcome" where
  "pb_make_string_substream s =
     (case pb_decode_varint32 s of
        (None, s') \<Rightarrow> (None, s')
      | (Some sz, s') \<Rightarrow>
          if bytes_left s' < ucast sz then pb_return_error s' ''parent stream too short''
          else (Some (s'\<lparr>bytes_left := ucast sz\<rparr>),
                s'\<lparr>bytes_left := bytes_left s' - ucast sz\<rparr>))"

definition pb_close_string_substream ::
  "'u pb_istream \<Rightarrow> 'u pb_istream \<Rightarrow> ('u pb_istream, unit) outcome" where
  "pb_close_string_substream s sub =
     (case (if bytes_left sub \<noteq> 0 then discard (pb_read sub True (bytes_left sub))
            else (Some (), sub)) of
        (None, sub') \<Rightarrow> (None, s)
      | (Some u, sub') \<Rightarrow> (Some (), s\<lparr>i_state := i_state sub', i_errmsg := i_errmsg sub'\<rparr>))"

end
