(* ===== verification/PbMem.thy ===== *)
theory PbMem
  imports PbCommon
begin

text \<open>
  The byte memory that holds message structs, little-endian loads and stores of the C integer
  types, and the heap behind \<open>pb_realloc\<close> and \<open>pb_free\<close> (the C library's \<open>realloc\<close> and
  \<open>free\<close>): the live blocks with their sizes, and an allocator that picks the address of a new
  block or none.
\<close>

section \<open>Loads\<close>

definition load_bytes :: "(u64 \<Rightarrow> u8) \<Rightarrow> u64 \<Rightarrow> nat \<Rightarrow> bytes" where
  "load_bytes m a n = map (\<lambda>i. m (a + of_nat i)) [0..<n]"

fun le_word :: "bytes \<Rightarrow> 'a::len word" where
  "le_word [] = 0"
| "le_word (b # bs) = ucast b OR push_bit 8 (le_word bs)"

definition load8 :: "(u64 \<Rightarrow> u8) \<Rightarrow> u64 \<Rightarrow> u8" where
  "load8 m a = m a"
definition load16 :: "(u64 \<Rightarrow> u8) \<Rightarrow> u64 \<Rightarrow> u16" where
  "load16 m a = le_word (load_bytes m a 2)"
definition load32 :: "(u64 \<Rightarrow> u8) \<Rightarrow> u64 \<Rightarrow> u32" where
  "load32 m a = le_word (load_bytes m a 4)"
definition load64 :: "(u64 \<Rightarrow> u8) \<Rightarrow> u64 \<Rightarrow> u64" where
  "load64 m a = le_word (load_bytes m a 8)"

text \<open>\<open>sizeof(bool)\<close> is 1.\<close>

definition safe_read_bool :: "(u64 \<Rightarrow> u8) \<Rightarrow> u64 \<Rightarrow> bool" where
  "safe_read_bool m p = (load8 m p \<noteq> 0)"

text \<open>\<open>pb_bytes_array_t\<close> holds its size at offset 0 and its bytes from offset 4.\<close>

definition PB_BYTES_ARRAY_T_ALLOCSIZE :: "u32 \<Rightarrow> u64" where
  "PB_BYTES_ARRAY_T_ALLOCSIZE n = ucast n + 4"

section \<open>Stores\<close>

definition store_bytes :: "(u64 \<Rightarrow> u8) \<Rightarrow> u64 \<Rightarrow> bytes \<Rightarrow> u64 \<Rightarrow> u8" where
  "store_bytes m a bs =
     (\<lambda>x. if unat (x - a) < length bs then bs ! unat (x - a) else m x)"

definition word_bytes :: "nat \<Rightarrow> 'a::len word \<Rightarrow> bytes" where
  "word_bytes n w = map (\<lambda>i. ucast (drop_bit (8 * i) w)) [0..<n]"

definition store8 :: "(u64 \<Rightarrow> u8) \<Rightarrow> u64 \<Rightarrow> u8 \<Rightarrow> u64 \<Rightarrow> u8" where
  "store8 m a v = m(a := v)"
definition store16 :: "(u64 \<Rightarrow> u8) \<Rightarrow> u64 \<Rightarrow> u16 \<Rightarrow> u64 \<Rightarrow> u8" where
  "store16 m a v = store_bytes m a (word_bytes 2 v)"
definition store32 :: "(u64 \<Rightarrow> u8) \<Rightarrow> u64 \<Rightarrow> u32 \<Rightarrow> u64 \<Rightarrow> u8" where
  "store32 m a v = store_bytes m a (word_bytes 4 v)"
definition store64 :: "(u64 \<Rightarrow> u8) \<Rightarrow> u64 \<Rightarrow> u64 \<Rightarrow> u64 \<Rightarrow> u8" where
  "store64 m a v = store_bytes m a (word_bytes 8 v)"

definition store_bool :: "(u64 \<Rightarrow> u8) \<Rightarrow> u64 \<Rightarrow> bool \<Rightarrow> u64 \<Rightarrow> u8" where
  "store_bool m a b = store8 m a (of_bool b)"

definition mem_set :: "(u64 \<Rightarrow> u8) \<Rightarrow> u64 \<Rightarrow> u8 \<Rightarrow> nat \<Rightarrow> u64 \<Rightarrow> u8" where
  "mem_set m a b n = store_bytes m a (replicate n b)"

definition mem_copy :: "(u64 \<Rightarrow> u8) \<Rightarrow> u64 \<Rightarrow> u64 \<Rightarrow> nat \<Rightarrow> u64 \<Rightarrow> u8" where
  "mem_copy m dst src n = store_bytes m dst (load_bytes m src n)"

section \<open>The heap\<close>

text \<open>
  \<open>alloc blocks old n\<close> is the address \<open>realloc\<close> returns for \<open>n\<close> bytes when the live blocks
  are \<open>blocks\<close> and the old block is at \<open>old\<close> (0 for none): 0 on failure. \<open>realloc\<close> moves the
  common prefix of the contents; on failure nothing changes.
\<close>

type_synonym blocks = "u64 \<Rightarrow> u64 option"
type_synonym allocator = "blocks \<Rightarrow> u64 \<Rightarrow> u64 \<Rightarrow> u64"

definition pb_realloc ::
  "allocator \<Rightarrow> (u64 \<Rightarrow> u8) \<times> blocks \<Rightarrow> u64 \<Rightarrow> u64 \<Rightarrow> u64 \<times> (u64 \<Rightarrow> u8) \<times> blocks" where
  "pb_realloc alloc h ptr n =
     (let (m, blocks) = h; a = alloc blocks ptr n in
      if a = 0 then (0, m, blocks)
      else
        let old = (if ptr = 0 then 0 else case blocks ptr of None \<Rightarrow> 0 | Some k \<Rightarrow> k)
        in (a, mem_copy m a ptr (unat (min old n)),
            (if ptr = 0 then blocks else blocks(ptr := None))(a := Some n)))"

definition pb_free :: "blocks \<Rightarrow> u64 \<Rightarrow> blocks" where
  "pb_free blocks ptr = (if ptr = 0 then blocks else blocks(ptr := None))"

section \<open>Loads after stores\<close>

lemma length_load_bytes [simp]: "length (load_bytes m a n) = n"
  by (simp add: load_bytes_def)

lemma length_word_bytes [simp]: "length (word_bytes n w) = n"
  by (simp add: word_bytes_def)

text \<open>The addresses of an area, which does not wrap more than once around the memory.\<close>

definition area :: "u64 \<Rightarrow> nat \<Rightarrow> u64 set" where
  "area a n = {x. unat (x - a) < n}"

lemma area_mono: "n \<le> k \<Longrightarrow> area a n \<subseteq> area a k"
  by (auto simp: area_def)

lemma store_bytes_outside: "x \<notin> area a (length bs) \<Longrightarrow> store_bytes m a bs x = m x"
  by (simp add: store_bytes_def area_def)

lemma load_store_bytes:
  assumes "length bs < 2 ^ 64"
  shows "load_bytes (store_bytes m a bs) a (length bs) = bs"
proof (rule nth_equalityI)
  fix i assume "i < length (load_bytes (store_bytes m a bs) a (length bs))"
  then have i: "i < length bs" by simp
  then have "unat (of_nat i :: u64) = i" using assms by (simp add: unat_of_nat)
  then show "load_bytes (store_bytes m a bs) a (length bs) ! i = bs ! i"
    using i by (simp add: load_bytes_def store_bytes_def)
qed simp

lemma load_bytes_cong:
  "(\<And>i. i < n \<Longrightarrow> m (a + of_nat i) = m' (a + of_nat i)) \<Longrightarrow> load_bytes m a n = load_bytes m' a n"
  by (simp add: load_bytes_def)

lemma load_store_disjoint:
  assumes "\<And>i. i < n \<Longrightarrow> a + of_nat i \<notin> area b (length bs)"
  shows "load_bytes (store_bytes m b bs) a n = load_bytes m a n"
  by (rule load_bytes_cong) (simp add: store_bytes_outside assms)

lemma bit_le_word:
  "bit (le_word bs :: 'a::len word) k \<longleftrightarrow>
     k < LENGTH('a) \<and> k < 8 * length bs \<and> bit (bs ! (k div 8)) (k mod 8)"
proof (induction bs arbitrary: k)
  case (Cons b bs)
  show ?case
  proof (cases "k < 8")
    case True
    then show ?thesis by (auto simp: bit_simps)
  next
    case False
    then have "k div 8 = Suc ((k - 8) div 8)" "k mod 8 = (k - 8) mod 8"
      by (simp_all add: le_div_geq le_mod_geq)
    moreover have "\<not> bit b k" using False by (auto dest: bit_imp_le_length)
    ultimately show ?thesis using False Cons.IH [of "k - 8"] by (auto simp: bit_simps)
  qed
qed simp

lemma le_word_word_bytes:
  assumes "LENGTH('a::len) = 8 * n"
  shows "le_word (word_bytes n (v :: 'b::len word)) = (ucast v :: 'a word)"
proof (rule bit_word_eqI)
  fix k assume k: "k < LENGTH('a)"
  then have "k div 8 < n" using assms by (simp add: less_mult_imp_div_less mult.commute)
  moreover have "8 * (k div 8) + k mod 8 = k" by simp
  ultimately show "bit (le_word (word_bytes n v) :: 'a word) k = bit (ucast v :: 'a word) k"
    using k assms by (auto simp: bit_le_word word_bytes_def bit_simps)
qed

text \<open>A stored area reads back at each width.\<close>

lemma load_word_bytes:
  "load8 (store_bytes m a (word_bytes 1 v)) a = ucast v"
  "load16 (store_bytes m a (word_bytes 2 v)) a = ucast v"
  "load32 (store_bytes m a (word_bytes 4 v)) a = ucast v"
  "load64 (store_bytes m a (word_bytes 8 v)) a = ucast v"
  using load_store_bytes [of "word_bytes 2 v" m a] load_store_bytes [of "word_bytes 4 v" m a]
    load_store_bytes [of "word_bytes 8 v" m a]
  by (simp_all add: load16_def load32_def load64_def le_word_word_bytes)
     (simp add: load8_def store_bytes_def word_bytes_def)

lemma load_store [simp]:
  "load16 (store16 m a h) a = h" "load32 (store32 m a w) a = w" "load64 (store64 m a d) a = d"
  by (simp_all add: store16_def store32_def store64_def load_word_bytes)

lemma load8_store8 [simp]: "load8 (store8 m a b) a = b"
  by (simp add: load8_def store8_def)

lemma read_store_bool [simp]: "safe_read_bool (store_bool m a b) a = b"
  by (simp add: safe_read_bool_def store_bool_def)

text \<open>A store changes its area only.\<close>

lemma stores_outside:
  "x \<notin> area a 1 \<Longrightarrow> store8 m a b x = m x" "x \<notin> area a 2 \<Longrightarrow> store16 m a h x = m x"
  "x \<notin> area a 4 \<Longrightarrow> store32 m a w x = m x" "x \<notin> area a 8 \<Longrightarrow> store64 m a d x = m x"
  "x \<notin> area a n \<Longrightarrow> mem_set m a b n x = m x" "x \<notin> area a n \<Longrightarrow> mem_copy m a q n x = m x"
  by (auto simp: store8_def store16_def store32_def store64_def mem_set_def mem_copy_def
      store_bytes_outside area_def)

end
