(* ===== verification/PbDecode.thy ===== *)
theory PbDecode
  imports PbIStream PbMem
begin

text \<open>
  nanopb's message decoder: the field decoders, \<open>allocate_field\<close>, \<open>decode_field\<close> and its
  three cases, extensions, default values, \<open>pb_decode\<close> and \<open>pb_release\<close> of
  \<open>Pods/nanopb/pb_decode.c\<close>, on the memory and heap of \<open>PbMem\<close>. Recursion through
  submessages goes through a record of calls that the elementary definitions take as an
  argument; \<open>pb_decode_noinit\<close> ties the knot with a bound on the nesting depth.
\<close>

section \<open>State and environment\<close>

text \<open>A decoder run changes the stream it reads, the memory and the heap.\<close>

record 'u dstate =
  d_strm :: "'u pb_istream"
  d_mem :: "u64 \<Rightarrow> u8"
  d_blocks :: blocks

text \<open>
  The environment: the descriptor array at each address, the user's decode callbacks
  (\<open>pb_callback_t.funcs.decode\<close> with the field and the address of \<open>arg\<close>;
  \<open>pb_extension_type_t.decode\<close> with the extension, the tag and the wire type), the
  allocator, and the address of the local \<open>fixed_count_size\<close> in the stack frame of
  \<open>pb_decode_noinit\<close> at each depth, since the code takes its address.
\<close>

record 'u dec_env =
  d_ftab :: "u64 \<Rightarrow> pb_field list"
  dec_cb :: "u64 \<Rightarrow> pb_field \<Rightarrow> u64 \<Rightarrow> 'u dstate \<Rightarrow> bool \<times> 'u dstate"
  ext_dec :: "u64 \<Rightarrow> u64 \<Rightarrow> u32 \<Rightarrow> u32 \<Rightarrow> 'u dstate \<Rightarrow> bool \<times> 'u dstate"
  d_alloc :: allocator
  d_local :: "nat \<Rightarrow> u64"

text \<open>\<open>None\<close> is a C call that does not return: see \<open>PbEncode\<close>.\<close>

type_synonym 'u dec_res = "(bool \<times> 'u dstate) option"
type_synonym 'u dec_step = "'u dstate \<Rightarrow> 'u dec_res"
type_synonym 'u msg_decoder = "pb_field list \<Rightarrow> u64 \<Rightarrow> 'u dec_step"
type_synonym heap = "(u64 \<Rightarrow> u8) \<times> blocks"

definition dec_err :: "string \<Rightarrow> 'u dec_step" where
  "dec_err msg \<sigma> = Some (False, \<sigma>\<lparr>d_strm := pb_set_error (d_strm \<sigma>) msg\<rparr>)"

definition dec_ok :: "'u dec_step" where
  "dec_ok \<sigma> = Some (True, \<sigma>)"

text \<open>\<open>if (!f(stream)) return false;\<close> before \<open>g\<close>.\<close>

definition seq_dec :: "'u dec_step \<Rightarrow> 'u dec_step \<Rightarrow> 'u dec_step" where
  "seq_dec f g \<sigma> =
     (case f \<sigma> of None \<Rightarrow> None | Some (False, \<sigma>') \<Rightarrow> Some (False, \<sigma>') | Some (True, \<sigma>') \<Rightarrow> g \<sigma>')"

text \<open>\<open>if (!rd(stream, &x)) return false;\<close> before \<open>k x\<close>, for the readers of \<open>PbIStream\<close>.\<close>

definition with_read :: "('u pb_istream \<Rightarrow> ('u pb_istream, 'a) outcome) \<Rightarrow> ('a \<Rightarrow> 'u dec_step) \<Rightarrow> 'u dec_step" where
  "with_read rd k \<sigma> =
     (case rd (d_strm \<sigma>) of
        (None, s') \<Rightarrow> Some (False, \<sigma>\<lparr>d_strm := s'\<rparr>)
      | (Some x, s') \<Rightarrow> k x (\<sigma>\<lparr>d_strm := s'\<rparr>))"

definition upd_mem :: "((u64 \<Rightarrow> u8) \<Rightarrow> u64 \<Rightarrow> u8) \<Rightarrow> 'u dec_step" where
  "upd_mem f \<sigma> = Some (True, \<sigma>\<lparr>d_mem := f (d_mem \<sigma>)\<rparr>)"

text \<open>\<open>pb_read(stream, (pb_byte_t* )a, n)\<close>\<close>

definition read_into :: "u64 \<Rightarrow> u64 \<Rightarrow> 'u dec_step" where
  "read_into a n =
     with_read (\<lambda>s. pb_read s (a = 0) n)
       (\<lambda>bs. upd_mem (\<lambda>m. if a = 0 then m else store_bytes m a bs))"

text \<open>
  A body between \<open>pb_make_string_substream\<close> and \<open>pb_close_string_substream\<close>: it runs on the
  substream, and its status is returned if the substream closes.
\<close>

definition close_sub :: "'u pb_istream \<Rightarrow> bool \<Rightarrow> 'u dec_step" where
  "close_sub parent status \<sigma> =
     (case pb_close_string_substream parent (d_strm \<sigma>) of
        (None, s') \<Rightarrow> Some (False, \<sigma>\<lparr>d_strm := s'\<rparr>)
      | (Some u, s') \<Rightarrow> Some (status, \<sigma>\<lparr>d_strm := s'\<rparr>))"

definition in_substream :: "'u dec_step \<Rightarrow> 'u dec_step" where
  "in_substream body =
     with_read pb_make_string_substream
       (\<lambda>sub \<sigma>. case body (\<sigma>\<lparr>d_strm := sub\<rparr>) of
                 None \<Rightarrow> None
               | Some (status, \<sigma>') \<Rightarrow> close_sub (d_strm \<sigma>) status \<sigma>')"

section \<open>Allocation\<close>

definition allocate_field :: "'u dec_env \<Rightarrow> u64 \<Rightarrow> u64 \<Rightarrow> u64 \<Rightarrow> 'u dec_step" where
  "allocate_field env p dsize asize \<sigma> =
     (if dsize = 0 \<or> asize = 0 then dec_err ''invalid size'' \<sigma>
      else if (2 ^ 32 \<le> dsize \<or> 2 ^ 32 \<le> asize) \<and> - 1 div asize < dsize
      then dec_err ''size too large'' \<sigma>
      else
        case pb_realloc (d_alloc env) (d_mem \<sigma>, d_blocks \<sigma>) (load64 (d_mem \<sigma>) p) (asize * dsize) of
          (ptr, m, blocks) \<Rightarrow>
            if ptr = 0 then dec_err ''realloc failed'' (\<sigma>\<lparr>d_mem := m, d_blocks := blocks\<rparr>)
            else Some (True, \<sigma>\<lparr>d_mem := store64 m p ptr, d_blocks := blocks\<rparr>))"

section \<open>Field decoders\<close>

text \<open>
  The casts of a 64-bit value to an integer of \<open>sz\<close> bytes and back (\<open>clamped\<close>), and the
  store of its \<open>sz\<close> low bytes.
\<close>

definition clamp_signed :: "u32 \<Rightarrow> u64 \<Rightarrow> u64 option" where
  "clamp_signed sz v =
     (if sz = 8 then Some v
      else if sz = 4 then Some (scast (ucast v :: u32))
      else if sz = 2 then Some (scast (ucast v :: u16))
      else if sz = 1 then Some (scast (ucast v :: u8))
      else None)"

definition clamp_unsigned :: "u32 \<Rightarrow> u64 \<Rightarrow> u64 option" where
  "clamp_unsigned sz v =
     (if sz = 8 then Some v
      else if sz = 4 then Some (ucast (ucast v :: u32))
      else if sz = 2 then Some (ucast (ucast v :: u16))
      else if sz = 1 then Some (ucast (ucast v :: u8))
      else None)"

text \<open>\<open>clamped = *(T* )dest = (T)value;\<close> and the two errors.\<close>

definition store_clamped :: "(u32 \<Rightarrow> u64 \<Rightarrow> u64 option) \<Rightarrow> pb_field \<Rightarrow> u64 \<Rightarrow> u64 \<Rightarrow> 'u dec_step" where
  "store_clamped clamp field dest v =
     (case clamp (data_size field) v of
        None \<Rightarrow> dec_err ''invalid data_size''
      | Some clamped \<Rightarrow>
          seq_dec (upd_mem (\<lambda>m. store_bytes m dest (word_bytes (unat (data_size field)) clamped)))
            (if clamped \<noteq> v then dec_err ''integer too large'' else dec_ok))"

definition pb_dec_bool :: "pb_field \<Rightarrow> u64 \<Rightarrow> 'u dec_step" where
  "pb_dec_bool field dest =
     with_read pb_decode_varint32 (\<lambda>value. upd_mem (\<lambda>m. store_bool m dest (value \<noteq> 0)))"

definition pb_dec_varint :: "pb_field \<Rightarrow> u64 \<Rightarrow> 'u dec_step" where
  "pb_dec_varint field dest =
     with_read pb_decode_varint
       (\<lambda>value. let svalue = (if data_size field = 8 then value else scast (ucast value :: u32))
                in store_clamped clamp_signed field dest svalue)"

definition pb_dec_uvarint :: "pb_field \<Rightarrow> u64 \<Rightarrow> 'u dec_step" where
  "pb_dec_uvarint field dest =
     with_read pb_decode_varint (store_clamped clamp_unsigned field dest)"

definition pb_dec_svarint :: "pb_field \<Rightarrow> u64 \<Rightarrow> 'u dec_step" where
  "pb_dec_svarint field dest =
     with_read pb_decode_svarint (store_clamped clamp_signed field dest)"

definition pb_dec_fixed32 :: "pb_field \<Rightarrow> u64 \<Rightarrow> 'u dec_step" where
  "pb_dec_fixed32 field dest =
     with_read pb_decode_fixed32 (\<lambda>v. upd_mem (\<lambda>m. store32 m dest v))"

definition pb_dec_fixed64 :: "pb_field \<Rightarrow> u64 \<Rightarrow> 'u dec_step" where
  "pb_dec_fixed64 field dest =
     with_read pb_decode_fixed64 (\<lambda>v. upd_mem (\<lambda>m. store64 m dest v))"

definition fill_bytes :: "u32 \<Rightarrow> u64 \<Rightarrow> 'u dec_step" where
  "fill_bytes sz bdest =
     seq_dec (upd_mem (\<lambda>m. store32 m bdest sz)) (read_into (bdest + 4) (ucast sz))"

definition pb_dec_bytes :: "'u dec_env \<Rightarrow> pb_field \<Rightarrow> u64 \<Rightarrow> 'u dec_step" where
  "pb_dec_bytes env field dest =
     with_read pb_decode_varint32
       (\<lambda>sz. let alloc_size = PB_BYTES_ARRAY_T_ALLOCSIZE sz in
             if PB_SIZE_MAX < sz then dec_err ''bytes overflow''
             else if alloc_size < ucast sz then dec_err ''size too large''
             else if PB_ATYPE (f_type field) = PB_ATYPE_POINTER then
               seq_dec (allocate_field env dest alloc_size 1)
                 (\<lambda>\<sigma>. fill_bytes sz (load64 (d_mem \<sigma>) dest) \<sigma>)
             else if ucast (data_size field) < alloc_size then dec_err ''bytes overflow''
             else fill_bytes sz dest)"

text \<open>The terminator is stored whether or not the read succeeds.\<close>

definition fill_string :: "u32 \<Rightarrow> u64 \<Rightarrow> 'u dec_step" where
  "fill_string sz dest \<sigma> =
     (case read_into dest (ucast sz) \<sigma> of
        None \<Rightarrow> None
      | Some (status, \<sigma>') \<Rightarrow>
          Some (status, \<sigma>'\<lparr>d_mem := store8 (d_mem \<sigma>') (dest + ucast sz) 0\<rparr>))"

definition pb_dec_string :: "'u dec_env \<Rightarrow> pb_field \<Rightarrow> u64 \<Rightarrow> 'u dec_step" where
  "pb_dec_string env field dest =
     with_read pb_decode_varint32
       (\<lambda>sz. let alloc_size = (ucast (sz + 1) :: u64) in
             if alloc_size < ucast sz then dec_err ''size too large''
             else if PB_ATYPE (f_type field) = PB_ATYPE_POINTER then
               seq_dec (allocate_field env dest alloc_size 1)
                 (\<lambda>\<sigma>. fill_string sz (load64 (d_mem \<sigma>) dest) \<sigma>)
             else if ucast (data_size field) < alloc_size then dec_err ''string overflow''
             else fill_string sz dest)"

definition pb_dec_fixed_length_bytes :: "pb_field \<Rightarrow> u64 \<Rightarrow> 'u dec_step" where
  "pb_dec_fixed_length_bytes field dest =
     with_read pb_decode_varint32
       (\<lambda>sz. if PB_SIZE_MAX < sz then dec_err ''bytes overflow''
             else if sz = 0 then upd_mem (\<lambda>m. mem_set m dest 0 (unat (data_size field)))
             else if sz \<noteq> data_size field then dec_err ''incorrect fixed length bytes size''
             else read_into dest (ucast (data_size field)))"

text \<open>
  The calls a message's fields make back into the message level: \<open>pb_decode\<close>,
  \<open>pb_decode_noinit\<close>, \<open>pb_message_set_to_defaults\<close> and \<open>pb_release_single_field\<close>.
\<close>

record 'u dec_calls =
  c_decode :: "'u msg_decoder"
  c_noinit :: "'u msg_decoder"
  c_defaults :: "pb_field list \<Rightarrow> u64 \<Rightarrow> (u64 \<Rightarrow> u8) \<Rightarrow> (u64 \<Rightarrow> u8) option"
  c_release_field :: "pb_field_iter \<Rightarrow> heap \<Rightarrow> heap option"

definition pb_dec_submessage :: "'u dec_calls \<Rightarrow> 'u dec_env \<Rightarrow> pb_field \<Rightarrow> u64 \<Rightarrow> 'u dec_step" where
  "pb_dec_submessage calls env field dest =
     (if f_ptr field = 0
      then with_read pb_make_string_substream (\<lambda>sub. dec_err ''invalid field descriptor'')
      else in_substream
        (if PB_HTYPE (f_type field) = PB_HTYPE_REPEATED
         then c_decode calls (d_ftab env (f_ptr field)) dest
         else c_noinit calls (d_ftab env (f_ptr field)) dest))"

text \<open>The table \<open>PB_DECODERS\<close>.\<close>

definition pb_decoder :: "'u dec_calls \<Rightarrow> 'u dec_env \<Rightarrow> pb_field \<Rightarrow> u64 \<Rightarrow> 'u dec_step" where
  "pb_decoder calls env field dest =
     (let l = PB_LTYPE (f_type field) in
      if l = PB_LTYPE_BOOL then pb_dec_bool field dest
      else if l = PB_LTYPE_VARINT then pb_dec_varint field dest
      else if l = PB_LTYPE_UVARINT then pb_dec_uvarint field dest
      else if l = PB_LTYPE_SVARINT then pb_dec_svarint field dest
      else if l = PB_LTYPE_FIXED32 then pb_dec_fixed32 field dest
      else if l = PB_LTYPE_FIXED64 then pb_dec_fixed64 field dest
      else if l = PB_LTYPE_BYTES then pb_dec_bytes env field dest
      else if l = PB_LTYPE_STRING then pb_dec_string env field dest
      else if l = PB_LTYPE_SUBMESSAGE then pb_dec_submessage calls env field dest
      else if l = PB_LTYPE_FIXED_LENGTH_BYTES then pb_dec_fixed_length_bytes field dest
      else (\<lambda>\<sigma>. None))"

end
