(* ===== verification/PbDecodeMsg.thy ===== *)
theory PbDecodeMsg
  imports PbDecode
begin

text \<open>
  The message level of nanopb's decoder in \<open>Pods/nanopb/pb_decode.c\<close>: the three cases of
  \<open>decode_field\<close>, extensions, default values, releasing of allocated fields, and the loop of
  \<open>pb_decode_noinit\<close>.
\<close>

section \<open>Static fields\<close>

definition item_at :: "u64 \<Rightarrow> pb_field \<Rightarrow> u32 \<Rightarrow> u64" where
  "item_at base field n = base + ucast (data_size field * n)"

text \<open>
  The loop over a packed array. Each item takes at least one byte of the substream, so that
  \<open>bytes_left\<close> iterations, which the caller allows, are never too few for a packable type.
\<close>

fun packed_static_loop :: "nat \<Rightarrow> (u64 \<Rightarrow> 'u dec_step) \<Rightarrow> pb_field_iter \<Rightarrow> 'u dec_step" where
  "packed_static_loop fuel func it \<sigma> =
     (let psz = pSize it; n = load32 (d_mem \<sigma>) psz in
      if 0 < bytes_left (d_strm \<sigma>) \<and> n < array_size (cur_field it) then
        (case fuel of
           0 \<Rightarrow> None
         | Suc fuel' \<Rightarrow>
             seq_dec (func (item_at (pData it) (cur_field it) n))
               (\<lambda>\<sigma>. packed_static_loop fuel' func it
                  (\<sigma>\<lparr>d_mem := store32 (d_mem \<sigma>) psz (load32 (d_mem \<sigma>) psz + 1)\<rparr>)) \<sigma>)
      else Some (True, \<sigma>))"

declare packed_static_loop.simps [simp del]

definition decode_packed_static :: "(u64 \<Rightarrow> 'u dec_step) \<Rightarrow> pb_field_iter \<Rightarrow> 'u dec_step" where
  "decode_packed_static func it =
     with_read pb_make_string_substream
       (\<lambda>sub \<sigma>. case packed_static_loop (unat (bytes_left sub)) func it (\<sigma>\<lparr>d_strm := sub\<rparr>) of
                 None \<Rightarrow> None
               | Some (status, \<sigma>') \<Rightarrow>
                   if bytes_left (d_strm \<sigma>') \<noteq> 0
                   then dec_err ''array overflow'' (\<sigma>'\<lparr>d_strm := d_strm \<sigma>\<rparr>)
                   else close_sub (d_strm \<sigma>) status \<sigma>')"

text \<open>The result of a call of \<open>pb_message_set_to_defaults\<close>, as a step.\<close>

definition lift_mem :: "((u64 \<Rightarrow> u8) \<Rightarrow> (u64 \<Rightarrow> u8) option) \<Rightarrow> 'u dec_step" where
  "lift_mem f \<sigma> = map_option (\<lambda>m. (True, \<sigma>\<lparr>d_mem := m\<rparr>)) (f (d_mem \<sigma>))"

text \<open>\<open>memset\<close> to zero, then the default values.\<close>

definition clear_submessage :: "'u dec_calls \<Rightarrow> 'u dec_env \<Rightarrow> pb_field \<Rightarrow> u64 \<Rightarrow> 'u dec_step" where
  "clear_submessage calls env field p =
     seq_dec (upd_mem (\<lambda>m. mem_set m p 0 (unat (data_size field))))
       (lift_mem (c_defaults calls (d_ftab env (f_ptr field)) p))"

definition decode_static_field ::
  "'u dec_calls \<Rightarrow> 'u dec_env \<Rightarrow> u32 \<Rightarrow> pb_field_iter \<Rightarrow> 'u dec_step" where
  "decode_static_field calls env wire_type it =
     (let field = cur_field it; func = pb_decoder calls env field;
          h = PB_HTYPE (f_type field); l = PB_LTYPE (f_type field) in
      if h = PB_HTYPE_REQUIRED then func (pData it)
      else if h = PB_HTYPE_OPTIONAL then
        seq_dec (upd_mem (\<lambda>m. if pSize it \<noteq> pData it then store_bool m (pSize it) True else m))
          (func (pData it))
      else if h = PB_HTYPE_REPEATED then
        (if wire_type = PB_WT_STRING \<and> l \<le> PB_LTYPE_LAST_PACKABLE
         then decode_packed_static func it
         else (\<lambda>\<sigma>. let n = load32 (d_mem \<sigma>) (pSize it);
                       \<sigma>' = \<sigma>\<lparr>d_mem := store32 (d_mem \<sigma>) (pSize it) (n + 1)\<rparr> in
                   if array_size field \<le> n then dec_err ''array overflow'' \<sigma>'
                   else func (item_at (pData it) field n) \<sigma>'))
      else
        seq_dec (upd_mem (\<lambda>m. store32 m (pSize it) (f_tag field)))
          (seq_dec (if l = PB_LTYPE_SUBMESSAGE then clear_submessage calls env field (pData it)
                    else dec_ok)
            (func (pData it))))"

section \<open>Pointer fields\<close>

definition initialize_pointer_field ::
  "'u dec_calls \<Rightarrow> 'u dec_env \<Rightarrow> u64 \<Rightarrow> pb_field_iter \<Rightarrow> 'u dec_step" where
  "initialize_pointer_field calls env item it =
     (let field = cur_field it; l = PB_LTYPE (f_type field) in
      if l = PB_LTYPE_STRING \<or> l = PB_LTYPE_BYTES then upd_mem (\<lambda>m. store64 m item 0)
      else if l = PB_LTYPE_SUBMESSAGE then clear_submessage calls env field item
      else dec_ok)"

text \<open>\<open>pb_release_single_field(iter)\<close> as a step.\<close>

definition release_step :: "'u dec_calls \<Rightarrow> pb_field_iter \<Rightarrow> 'u dec_step" where
  "release_step calls it \<sigma> =
     (case c_release_field calls it (d_mem \<sigma>, d_blocks \<sigma>) of
        None \<Rightarrow> None
      | Some (m, blocks) \<Rightarrow> Some (True, \<sigma>\<lparr>d_mem := m, d_blocks := blocks\<rparr>))"

text \<open>The guess of the number of entries that remain in a packed array.\<close>

definition grown_size :: "u64 \<Rightarrow> u32 \<Rightarrow> u64 \<Rightarrow> u64" where
  "grown_size left dsize allocated =
     (let remain = (left - 1) div ucast dsize + 1 in
      if remain < ucast PB_SIZE_MAX - allocated then allocated + remain else allocated + 1)"

text \<open>
  The loop over a packed array; the result is \<open>status\<close>, whether "too many array entries" was
  reported (on the parent stream), and the state. \<open>fuel\<close> as in \<open>packed_static_loop\<close>.
\<close>

fun packed_pointer_loop ::
  "nat \<Rightarrow> 'u dec_calls \<Rightarrow> 'u dec_env \<Rightarrow> pb_field_iter \<Rightarrow> u64 \<Rightarrow> 'u dstate \<Rightarrow>
   ((bool \<times> bool) \<times> 'u dstate) option" where
  "packed_pointer_loop fuel calls env it allocated \<sigma> =
     (let field = cur_field it; psz = pSize it; n = load32 (d_mem \<sigma>) psz in
      if bytes_left (d_strm \<sigma>) = 0 then Some ((True, False), \<sigma>)
      else if n = PB_SIZE_MAX then Some ((False, True), \<sigma>)
      else
        let grow = allocated < ucast n + 1;
            allocated' = (if grow then grown_size (bytes_left (d_strm \<sigma>)) (data_size field) allocated
                          else allocated)
        in case (if grow then allocate_field env (pData it) (ucast (data_size field)) allocated' \<sigma>
                 else Some (True, \<sigma>)) of
             None \<Rightarrow> None
           | Some (False, \<sigma>1) \<Rightarrow> Some ((False, False), \<sigma>1)
           | Some (True, \<sigma>1) \<Rightarrow>
               (let item = item_at (load64 (d_mem \<sigma>1) (pData it)) field (load32 (d_mem \<sigma>1) psz) in
                case seq_dec (initialize_pointer_field calls env item it)
                       (pb_decoder calls env field item) \<sigma>1 of
                  None \<Rightarrow> None
                | Some (False, \<sigma>2) \<Rightarrow> Some ((False, False), \<sigma>2)
                | Some (True, \<sigma>2) \<Rightarrow>
                    (case fuel of
                       0 \<Rightarrow> None
                     | Suc fuel' \<Rightarrow>
                         packed_pointer_loop fuel' calls env it allocated'
                           (\<sigma>2\<lparr>d_mem := store32 (d_mem \<sigma>2) psz (load32 (d_mem \<sigma>2) psz + 1)\<rparr>))))"

declare packed_pointer_loop.simps [simp del]

definition decode_packed_pointer ::
  "'u dec_calls \<Rightarrow> 'u dec_env \<Rightarrow> pb_field_iter \<Rightarrow> 'u dec_step" where
  "decode_packed_pointer calls env it \<sigma>0 =
     with_read pb_make_string_substream
       (\<lambda>sub \<sigma>.
          case packed_pointer_loop (unat (bytes_left sub)) calls env it
                 (ucast (load32 (d_mem \<sigma>0) (pSize it))) (\<sigma>\<lparr>d_strm := sub\<rparr>) of
            None \<Rightarrow> None
          | Some ((status, many), \<sigma>') \<Rightarrow>
              close_sub ((if many then \<lambda>s. s\<lparr>i_errmsg := Some ''too many array entries''\<rparr> else id)
                           (d_strm \<sigma>)) status \<sigma>') \<sigma>0"

definition decode_pointer_field ::
  "'u dec_calls \<Rightarrow> 'u dec_env \<Rightarrow> u32 \<Rightarrow> pb_field_iter \<Rightarrow> 'u dec_step" where
  "decode_pointer_field calls env wire_type it =
     (let field = cur_field it; func = pb_decoder calls env field; dsz = ucast (data_size field);
          h = PB_HTYPE (f_type field); l = PB_LTYPE (f_type field) in
      if h \<noteq> PB_HTYPE_REPEATED then
        seq_dec (\<lambda>\<sigma>. if l = PB_LTYPE_SUBMESSAGE \<and> load64 (d_mem \<sigma>) (pData it) \<noteq> 0
                     then release_step calls it \<sigma> else Some (True, \<sigma>))
          (seq_dec (if h = PB_HTYPE_ONEOF then upd_mem (\<lambda>m. store32 m (pSize it) (f_tag field))
                    else dec_ok)
            (if l = PB_LTYPE_STRING \<or> l = PB_LTYPE_BYTES then func (pData it)
             else
               seq_dec (allocate_field env (pData it) dsz 1)
                 (\<lambda>\<sigma>. seq_dec (initialize_pointer_field calls env (load64 (d_mem \<sigma>) (pData it)) it)
                   (\<lambda>\<sigma>. func (load64 (d_mem \<sigma>) (pData it)) \<sigma>) \<sigma>)))
      else if wire_type = PB_WT_STRING \<and> l \<le> PB_LTYPE_LAST_PACKABLE
      then decode_packed_pointer calls env it
      else
        (\<lambda>\<sigma>. let n = load32 (d_mem \<sigma>) (pSize it) in
             if n = PB_SIZE_MAX then dec_err ''too many array entries'' \<sigma>
             else
               seq_dec (allocate_field env (pData it) dsz (ucast (n + 1)))
                 (\<lambda>\<sigma>. let n = load32 (d_mem \<sigma>) (pSize it);
                          item = item_at (load64 (d_mem \<sigma>) (pData it)) field n in
                      seq_dec (upd_mem (\<lambda>m. store32 m (pSize it) (n + 1)))
                        (seq_dec (initialize_pointer_field calls env item it) (func item)) \<sigma>) \<sigma>))"

section \<open>Callback fields\<close>

text \<open>
  \<open>do { if (!decode(&substream, ...)) ... } while (substream.bytes_left);\<close> A callback that
  keeps returning true without consuming input would run on in C; \<open>fuel\<close>, one more than the
  bytes of the substream, is enough for callbacks that consume.
\<close>

fun callback_loop :: "nat \<Rightarrow> 'u dec_env \<Rightarrow> pb_field_iter \<Rightarrow> 'u dec_step" where
  "callback_loop 0 env it \<sigma> = None"
| "callback_loop (Suc fuel) env it \<sigma> =
     (case dec_cb env (load64 (d_mem \<sigma>) (pData it)) (cur_field it) (pData it + 8) \<sigma> of
        (False, \<sigma>') \<Rightarrow> Some (False, \<sigma>')
      | (True, \<sigma>') \<Rightarrow>
          if bytes_left (d_strm \<sigma>') \<noteq> 0 then callback_loop fuel env it \<sigma>' else Some (True, \<sigma>'))"

definition decode_callback_field :: "'u dec_env \<Rightarrow> u32 \<Rightarrow> pb_field_iter \<Rightarrow> 'u dec_step" where
  "decode_callback_field env wire_type it \<sigma>0 =
     (if pData it = 0 \<or> load64 (d_mem \<sigma>0) (pData it) = 0
      then with_read (\<lambda>s. pb_skip_field s wire_type) (\<lambda>u. dec_ok) \<sigma>0
      else if wire_type = PB_WT_STRING then
        with_read pb_make_string_substream
          (\<lambda>sub \<sigma>. case callback_loop (Suc (unat (bytes_left sub))) env it (\<sigma>\<lparr>d_strm := sub\<rparr>) of
                    None \<Rightarrow> None
                  | Some (False, \<sigma>') \<Rightarrow> dec_err ''callback failed'' (\<sigma>'\<lparr>d_strm := d_strm \<sigma>\<rparr>)
                  | Some (True, \<sigma>') \<Rightarrow> close_sub (d_strm \<sigma>) True \<sigma>') \<sigma>0
      else
        with_read (\<lambda>s. read_raw_value s wire_type 10)
          (\<lambda>buffer \<sigma>.
             (case dec_cb env (load64 (d_mem \<sigma>) (pData it)) (cur_field it) (pData it + 8)
                     (\<sigma>\<lparr>d_strm := pb_istream_from_buffer buffer (of_nat (length buffer))\<rparr>) of
                (status, \<sigma>') \<Rightarrow> Some (status, \<sigma>'\<lparr>d_strm := d_strm \<sigma>\<rparr>))) \<sigma>0)"

section \<open>Extensions as fields\<close>

text \<open>\<open>pb_extension_t\<close>: \<open>type\<close> at 0, \<open>dest\<close> at 8, \<open>next\<close> at 16, \<open>found\<close> at 24;
  \<open>type->decode\<close> at 0, \<open>type->arg\<close> at 16.\<close>

definition extension_field :: "(u64 \<Rightarrow> pb_field list) \<Rightarrow> (u64 \<Rightarrow> u8) \<Rightarrow> u64 \<Rightarrow> pb_field list" where
  "extension_field tab m ext = tab (load64 m (load64 m ext + 16))"

definition iter_from_extension :: "(u64 \<Rightarrow> pb_field list) \<Rightarrow> (u64 \<Rightarrow> u8) \<Rightarrow> u64 \<Rightarrow> pb_field_iter" where
  "iter_from_extension tab m ext =
     (let fs = extension_field tab m ext; dest = load64 m (ext + 8);
          it = snd (pb_field_iter_begin fs dest) in
      it\<lparr>pData := (if PB_ATYPE (f_type (field_at fs 0)) = PB_ATYPE_POINTER then ext + 8 else dest),
         pSize := ext + 24\<rparr>)"

section \<open>Default values\<close>

text \<open>The walk over the extensions of a message, for at most \<open>fuel\<close> elements.\<close>

fun default_extensions ::
  "nat \<Rightarrow> (u64 \<Rightarrow> pb_field list) \<Rightarrow> (pb_field_iter \<Rightarrow> (u64 \<Rightarrow> u8) \<Rightarrow> (u64 \<Rightarrow> u8) option) \<Rightarrow>
   u64 \<Rightarrow> (u64 \<Rightarrow> u8) \<Rightarrow> (u64 \<Rightarrow> u8) option" where
  "default_extensions 0 tab self ext m = (if ext = 0 then Some m else None)"
| "default_extensions (Suc fuel) tab self ext m =
     (if ext = 0 then Some m
      else let m' = store_bool m (ext + 24) False in
           case self (iter_from_extension tab m' ext) m' of
             None \<Rightarrow> None
           | Some m'' \<Rightarrow> default_extensions fuel tab self (load64 m'' (ext + 16)) m'')"

text \<open>
  \<open>pb_field_set_to_default\<close> with the calls to \<open>pb_message_set_to_defaults\<close> (\<open>msg\<close>) and to
  itself for extensions (\<open>self\<close>).
\<close>

definition set_field_default ::
  "nat \<Rightarrow> (u64 \<Rightarrow> pb_field list) \<Rightarrow> (pb_field list \<Rightarrow> u64 \<Rightarrow> (u64 \<Rightarrow> u8) \<Rightarrow> (u64 \<Rightarrow> u8) option) \<Rightarrow>
   (pb_field_iter \<Rightarrow> (u64 \<Rightarrow> u8) \<Rightarrow> (u64 \<Rightarrow> u8) option) \<Rightarrow>
   pb_field_iter \<Rightarrow> (u64 \<Rightarrow> u8) \<Rightarrow> (u64 \<Rightarrow> u8) option" where
  "set_field_default fuel tab msg self it m =
     (let field = cur_field it; a = PB_ATYPE (f_type field); h = PB_HTYPE (f_type field);
          l = PB_LTYPE (f_type field); n = unat (data_size field) in
      if l = PB_LTYPE_EXTENSION then default_extensions fuel tab self (load64 m (pData it)) m
      else if a = PB_ATYPE_STATIC then
        (if h = PB_HTYPE_REPEATED \<or> h = PB_HTYPE_ONEOF then Some (store32 m (pSize it) 0)
         else
           let m' = (if h = PB_HTYPE_OPTIONAL \<and> pSize it \<noteq> pData it
                     then store_bool m (pSize it) False else m) in
           if l = PB_LTYPE_SUBMESSAGE then msg (tab (f_ptr field)) (pData it) m'
           else if f_ptr field \<noteq> 0 then Some (mem_copy m' (pData it) (f_ptr field) n)
           else Some (mem_set m' (pData it) 0 n))
      else if a = PB_ATYPE_POINTER then
        (let m' = store64 m (pData it) 0 in
         Some (if h = PB_HTYPE_REPEATED \<or> h = PB_HTYPE_ONEOF then store32 m' (pSize it) 0 else m'))
      else Some m)"

fun pb_message_set_to_defaults ::
  "nat \<Rightarrow> (u64 \<Rightarrow> pb_field list) \<Rightarrow> pb_field list \<Rightarrow> u64 \<Rightarrow> (u64 \<Rightarrow> u8) \<Rightarrow> (u64 \<Rightarrow> u8) option"
and pb_field_set_to_default ::
  "nat \<Rightarrow> (u64 \<Rightarrow> pb_field list) \<Rightarrow> pb_field_iter \<Rightarrow> (u64 \<Rightarrow> u8) \<Rightarrow> (u64 \<Rightarrow> u8) option" where
  "pb_message_set_to_defaults 0 tab fs dest m = None"
| "pb_message_set_to_defaults (Suc depth) tab fs dest m =
     (case pb_field_iter_begin fs dest of
        (False, it) \<Rightarrow> Some m
      | (True, it) \<Rightarrow>
          map_option snd
            (iter_all (\<lambda>it m. map_option (Pair True) (pb_field_set_to_default depth tab it m)) it m))"
| "pb_field_set_to_default 0 tab it m = None"
| "pb_field_set_to_default (Suc depth) tab it m =
     set_field_default depth tab (pb_message_set_to_defaults depth tab)
       (pb_field_set_to_default depth tab) it m"

section \<open>Releasing allocated fields\<close>

fun release_extensions ::
  "nat \<Rightarrow> (u64 \<Rightarrow> pb_field list) \<Rightarrow> (pb_field_iter \<Rightarrow> heap \<Rightarrow> heap option) \<Rightarrow> u64 \<Rightarrow> heap \<Rightarrow> heap option" where
  "release_extensions 0 tab self ext h = (if ext = 0 then Some h else None)"
| "release_extensions (Suc fuel) tab self ext h =
     (if ext = 0 then Some h
      else case self (iter_from_extension tab (fst h) ext) h of
             None \<Rightarrow> None
           | Some h' \<Rightarrow> release_extensions fuel tab self (load64 (fst h') (ext + 16)) h')"

text \<open>\<open>while (count--) { pb_release(fields, pItem); pItem += data_size; }\<close>\<close>

fun release_items :: "(u64 \<Rightarrow> heap \<Rightarrow> heap option) \<Rightarrow> u64 \<Rightarrow> u64 \<Rightarrow> nat \<Rightarrow> heap \<Rightarrow> heap option" where
  "release_items rel item step 0 h = Some h"
| "release_items rel item step (Suc n) h =
     (case rel item h of None \<Rightarrow> None | Some h' \<Rightarrow> release_items rel (item + step) step n h')"

text \<open>\<open>while (count--) { pb_free(*pItem); *pItem++ = NULL; }\<close>\<close>

fun free_items :: "u64 \<Rightarrow> nat \<Rightarrow> heap \<Rightarrow> heap" where
  "free_items item 0 h = h"
| "free_items item (Suc n) h =
     free_items (item + 8) n (store64 (fst h) item 0, pb_free (snd h) (load64 (fst h) item))"

text \<open>The second half of \<open>pb_release_single_field\<close>, for pointer fields.\<close>

definition free_pointer_field :: "pb_field_iter \<Rightarrow> heap \<Rightarrow> heap" where
  "free_pointer_field it h0 =
     (let field = cur_field it; h = PB_HTYPE (f_type field); l = PB_LTYPE (f_type field);
          (m1, b1) =
            (if h = PB_HTYPE_REPEATED \<and> (l = PB_LTYPE_STRING \<or> l = PB_LTYPE_BYTES)
             then free_items (load64 (fst h0) (pData it)) (unat (load32 (fst h0) (pSize it))) h0
             else h0);
          m2 = (if h = PB_HTYPE_REPEATED then store32 m1 (pSize it) 0 else m1)
      in (store64 m2 (pData it) 0, pb_free b1 (load64 m2 (pData it))))"

definition release_count :: "pb_field_iter \<Rightarrow> (u64 \<Rightarrow> u8) \<Rightarrow> u32" where
  "release_count it m =
     (let field = cur_field it; a = PB_ATYPE (f_type field) in
      if PB_HTYPE (f_type field) = PB_HTYPE_REPEATED then
        (let count = (if a = PB_ATYPE_STATIC \<and> pSize it = pData it then array_size field
                      else load32 m (pSize it))
         in if a = PB_ATYPE_STATIC \<and> array_size field < count then array_size field else count)
      else 1)"

definition release_single_field ::
  "nat \<Rightarrow> (u64 \<Rightarrow> pb_field list) \<Rightarrow> (pb_field list \<Rightarrow> u64 \<Rightarrow> heap \<Rightarrow> heap option) \<Rightarrow>
   (pb_field_iter \<Rightarrow> heap \<Rightarrow> heap option) \<Rightarrow> pb_field_iter \<Rightarrow> heap \<Rightarrow> heap option" where
  "release_single_field fuel tab rel self it h0 =
     (let field = cur_field it; a = PB_ATYPE (f_type field); l = PB_LTYPE (f_type field); m = fst h0 in
      if PB_HTYPE (f_type field) = PB_HTYPE_ONEOF \<and> load32 m (pSize it) \<noteq> f_tag field then Some h0
      else
        map_option (\<lambda>h. if a = PB_ATYPE_POINTER then free_pointer_field it h else h)
          (if l = PB_LTYPE_EXTENSION then release_extensions fuel tab self (load64 m (pData it)) h0
           else if l = PB_LTYPE_SUBMESSAGE \<and> a \<noteq> PB_ATYPE_CALLBACK then
             (let item = (if a = PB_ATYPE_POINTER then load64 m (pData it) else pData it) in
              if item \<noteq> 0
              then release_items (rel (tab (f_ptr field))) item (ucast (data_size field))
                     (unat (release_count it m)) h0
              else Some h0)
           else Some h0))"

fun pb_release :: "nat \<Rightarrow> (u64 \<Rightarrow> pb_field list) \<Rightarrow> pb_field list \<Rightarrow> u64 \<Rightarrow> heap \<Rightarrow> heap option"
and pb_release_single_field :: "nat \<Rightarrow> (u64 \<Rightarrow> pb_field list) \<Rightarrow> pb_field_iter \<Rightarrow> heap \<Rightarrow> heap option" where
  "pb_release 0 tab fs dest h = None"
| "pb_release (Suc depth) tab fs dest h =
     (if dest = 0 then Some h
      else case pb_field_iter_begin fs dest of
        (False, it) \<Rightarrow> Some h
      | (True, it) \<Rightarrow>
          map_option snd
            (iter_all (\<lambda>it h. map_option (Pair True) (pb_release_single_field depth tab it h)) it h))"
| "pb_release_single_field 0 tab it h = None"
| "pb_release_single_field (Suc depth) tab it h =
     release_single_field depth tab (pb_release depth tab) (pb_release_single_field depth tab) it h"

section \<open>Any field\<close>

text \<open>
  \<open>pb_release_union_field\<close> moves the caller's iterator to the old member and back, so the
  iterator is part of the result, here and in \<open>decode_field\<close>.
\<close>

type_synonym 'u field_res = "(bool \<times> pb_field_iter \<times> 'u dstate) option"

definition with_iter :: "pb_field_iter \<Rightarrow> 'u dec_res \<Rightarrow> 'u field_res" where
  "with_iter it r = map_option (\<lambda>(ok, \<sigma>). (ok, it, \<sigma>)) r"

definition pb_release_union_field ::
  "'u dec_calls \<Rightarrow> pb_field_iter \<Rightarrow> 'u dstate \<Rightarrow> 'u field_res" where
  "pb_release_union_field calls it \<sigma> =
     (let old_tag = load32 (d_mem \<sigma>) (pSize it); new_tag = f_tag (cur_field it) in
      if old_tag = 0 \<or> old_tag = new_tag then Some (True, it, \<sigma>)
      else
        case pb_field_iter_find it old_tag of
          None \<Rightarrow> None
        | Some (False, it1) \<Rightarrow> with_iter it1 (dec_err ''invalid union tag'' \<sigma>)
        | Some (True, it1) \<Rightarrow>
            (case release_step calls it1 \<sigma> of
               None \<Rightarrow> None
             | Some (ok, \<sigma>1) \<Rightarrow>
                 (case pb_field_iter_find it1 new_tag of
                    None \<Rightarrow> None
                  | Some (False, it2) \<Rightarrow> with_iter it2 (dec_err ''iterator error'' \<sigma>1)
                  | Some (True, it2) \<Rightarrow> Some (True, it2, \<sigma>1))))"

definition decode_field ::
  "'u dec_calls \<Rightarrow> 'u dec_env \<Rightarrow> u32 \<Rightarrow> pb_field_iter \<Rightarrow> 'u dstate \<Rightarrow> 'u field_res" where
  "decode_field calls env wire_type it \<sigma> =
     (case (if PB_HTYPE (f_type (cur_field it)) = PB_HTYPE_ONEOF
            then pb_release_union_field calls it \<sigma> else Some (True, it, \<sigma>)) of
        None \<Rightarrow> None
      | Some (False, it', \<sigma>') \<Rightarrow> Some (False, it', \<sigma>')
      | Some (True, it', \<sigma>') \<Rightarrow>
          with_iter it'
            (let a = PB_ATYPE (f_type (cur_field it')) in
             if a = PB_ATYPE_STATIC then decode_static_field calls env wire_type it' \<sigma>'
             else if a = PB_ATYPE_POINTER then decode_pointer_field calls env wire_type it' \<sigma>'
             else if a = PB_ATYPE_CALLBACK then decode_callback_field env wire_type it' \<sigma>'
             else dec_err ''invalid field type'' \<sigma>'))"

section \<open>Decoding extensions\<close>

definition default_extension_decoder ::
  "'u dec_calls \<Rightarrow> 'u dec_env \<Rightarrow> u64 \<Rightarrow> u32 \<Rightarrow> u32 \<Rightarrow> 'u dec_step" where
  "default_extension_decoder calls env ext tag wire_type \<sigma> =
     (let field = field_at (extension_field (d_ftab env) (d_mem \<sigma>) ext) 0 in
      if f_tag field \<noteq> tag then Some (True, \<sigma>)
      else
        let it = iter_from_extension (d_ftab env) (d_mem \<sigma>) ext;
            \<sigma>' = \<sigma>\<lparr>d_mem := store_bool (d_mem \<sigma>) (ext + 24) True\<rparr>
        in map_option (\<lambda>(ok, it', \<sigma>''). (ok, \<sigma>'')) (decode_field calls env wire_type it \<sigma>'))"

text \<open>The list of extensions, for at most \<open>fuel\<close> elements; \<open>pos\<close> is \<open>bytes_left\<close> at the start.\<close>

fun extension_decode_loop ::
  "nat \<Rightarrow> 'u dec_calls \<Rightarrow> 'u dec_env \<Rightarrow> u64 \<Rightarrow> u32 \<Rightarrow> u32 \<Rightarrow> u64 \<Rightarrow> 'u dec_step" where
  "extension_decode_loop fuel calls env pos tag wire_type ext \<sigma> =
     (if ext \<noteq> 0 \<and> pos = bytes_left (d_strm \<sigma>) then
        (case fuel of
           0 \<Rightarrow> None
         | Suc fuel' \<Rightarrow>
             (let dec = load64 (d_mem \<sigma>) (load64 (d_mem \<sigma>) ext) in
              seq_dec (if dec \<noteq> 0 then (\<lambda>\<sigma>. Some (ext_dec env dec ext tag wire_type \<sigma>))
                       else default_extension_decoder calls env ext tag wire_type)
                (\<lambda>\<sigma>. extension_decode_loop fuel' calls env pos tag wire_type
                       (load64 (d_mem \<sigma>) (ext + 16)) \<sigma>) \<sigma>))
      else Some (True, \<sigma>))"

declare extension_decode_loop.simps [simp del]

definition decode_extension ::
  "nat \<Rightarrow> 'u dec_calls \<Rightarrow> 'u dec_env \<Rightarrow> u32 \<Rightarrow> u32 \<Rightarrow> pb_field_iter \<Rightarrow> 'u dec_step" where
  "decode_extension fuel calls env tag wire_type it \<sigma> =
     extension_decode_loop fuel calls env (bytes_left (d_strm \<sigma>)) tag wire_type
       (load64 (d_mem \<sigma>) (pData it)) \<sigma>"

text \<open>The same cyclic search as \<open>pb_field_iter_find\<close>, for another test.\<close>

definition is_extension :: "pb_field \<Rightarrow> bool" where
  "is_extension f \<longleftrightarrow> PB_LTYPE (f_type f) = PB_LTYPE_EXTENSION"

definition find_extension_field :: "pb_field_iter \<Rightarrow> (bool \<times> pb_field_iter) option" where
  "find_extension_field it = find_loop (length (it_start it) + 1) (it_pos it) is_extension it"

section \<open>The message loop\<close>

text \<open>
  The locals of \<open>pb_decode_noinit\<close> other than \<open>fixed_count_size\<close>, which is in memory at
  \<open>slot\<close>: the iterator, \<open>extension_range_start\<close>, \<open>fixed_count_field\<close> as an index into the
  descriptor array, and the two words of \<open>fields_seen\<close>.
\<close>

record locals =
  l_iter :: pb_field_iter
  l_ext_start :: u32
  l_fixed :: "nat option"
  l_seen :: "u32 list"

type_synonym 'u loop_res = "(bool \<times> locals \<times> 'u dstate) option"

definition skip_unknown :: "u32 \<Rightarrow> locals \<Rightarrow> 'u dstate \<Rightarrow> 'u loop_res" where
  "skip_unknown wire_type L \<sigma> =
     map_option (\<lambda>(ok, \<sigma>'). (ok, L, \<sigma>'))
       (with_read (\<lambda>s. pb_skip_field s wire_type) (\<lambda>u. dec_ok) \<sigma>)"

text \<open>No field of the message has the tag, and \<open>it\<close> is the iterator after the search.\<close>

definition decode_unknown ::
  "nat \<Rightarrow> 'u dec_calls \<Rightarrow> 'u dec_env \<Rightarrow> u32 \<Rightarrow> u32 \<Rightarrow> locals \<Rightarrow> 'u dstate \<Rightarrow> 'u loop_res" where
  "decode_unknown fuel calls env wire_type tag L \<sigma> =
     (if l_ext_start L \<le> tag then
        (case find_extension_field (l_iter L) of
           None \<Rightarrow> None
         | Some (found, it) \<Rightarrow>
             (let start = (if found then f_tag (cur_field it) else - 1);
                  L' = L\<lparr>l_iter := it, l_ext_start := start\<rparr> in
              if start \<le> tag then
                (case decode_extension fuel calls env tag wire_type it \<sigma> of
                   None \<Rightarrow> None
                 | Some (False, \<sigma>') \<Rightarrow> Some (False, L', \<sigma>')
                 | Some (True, \<sigma>') \<Rightarrow>
                     if bytes_left (d_strm \<sigma>) \<noteq> bytes_left (d_strm \<sigma>') then Some (True, L', \<sigma>')
                     else skip_unknown wire_type L' \<sigma>')
              else skip_unknown wire_type L' \<sigma>))
      else skip_unknown wire_type L \<sigma>)"

definition mark_seen :: "pb_field_iter \<Rightarrow> u32 list \<Rightarrow> u32 list" where
  "mark_seen it seen =
     (let r = required_field_index it in
      if PB_HTYPE (f_type (cur_field it)) = PB_HTYPE_REQUIRED \<and> r < 64
      then let w = unat (drop_bit 5 r)
           in seen[w := (seen ! w) OR push_bit (unat (r AND 31)) 1]
      else seen)"

text \<open>The entry is of a repeated field of fixed count, which has no counter in the struct.\<close>

definition fixed_count_complete :: "u64 \<Rightarrow> locals \<Rightarrow> 'u dstate \<Rightarrow> bool" where
  "fixed_count_complete slot L \<sigma> =
     (case l_fixed L of
        None \<Rightarrow> True
      | Some i \<Rightarrow> load32 (d_mem \<sigma>) slot = array_size (field_at (it_start (l_iter L)) i))"

definition decode_known ::
  "'u dec_calls \<Rightarrow> 'u dec_env \<Rightarrow> u64 \<Rightarrow> u32 \<Rightarrow> locals \<Rightarrow> 'u dstate \<Rightarrow> 'u loop_res" where
  "decode_known calls env slot wire_type L \<sigma> =
     (let it = l_iter L;
          fixed = (PB_HTYPE (f_type (cur_field it)) = PB_HTYPE_REPEATED \<and> pSize it = pData it);
          fresh = (fixed \<and> l_fixed L \<noteq> Some (it_pos it)) in
      if fresh \<and> \<not> fixed_count_complete slot L \<sigma>
      then map_option (\<lambda>(ok, \<sigma>'). (ok, L, \<sigma>')) (dec_err ''wrong size for fixed count field'' \<sigma>)
      else
        let \<sigma>1 = (if fresh then \<sigma>\<lparr>d_mem := store32 (d_mem \<sigma>) slot 0\<rparr> else \<sigma>);
            it1 = (if fixed then it\<lparr>pSize := slot\<rparr> else it);
            L1 = L\<lparr>l_iter := it1, l_fixed := (if fresh then Some (it_pos it) else l_fixed L),
                   l_seen := mark_seen it1 (l_seen L)\<rparr>
        in map_option (\<lambda>(ok, it2, \<sigma>2). (ok, L1\<lparr>l_iter := it2\<rparr>, \<sigma>2))
             (decode_field calls env wire_type it1 \<sigma>1))"

text \<open>One field, after its tag.\<close>

definition decode_one ::
  "nat \<Rightarrow> 'u dec_calls \<Rightarrow> 'u dec_env \<Rightarrow> u64 \<Rightarrow> u32 \<Rightarrow> u32 \<Rightarrow> locals \<Rightarrow> 'u dstate \<Rightarrow> 'u loop_res" where
  "decode_one fuel calls env slot wire_type tag L \<sigma> =
     (case pb_field_iter_find (l_iter L) tag of
        None \<Rightarrow> None
      | Some (False, it) \<Rightarrow> decode_unknown fuel calls env wire_type tag (L\<lparr>l_iter := it\<rparr>) \<sigma>
      | Some (True, it) \<Rightarrow> decode_known calls env slot wire_type (L\<lparr>l_iter := it\<rparr>) \<sigma>)"

text \<open>
  \<open>while (stream->bytes_left)\<close>: every iteration that goes on has consumed a tag, so
  \<open>bytes_left\<close> iterations, given by the caller, are enough.
\<close>

fun noinit_loop ::
  "nat \<Rightarrow> (u32 \<Rightarrow> u32 \<Rightarrow> locals \<Rightarrow> 'u dstate \<Rightarrow> 'u loop_res) \<Rightarrow> locals \<Rightarrow> 'u dstate \<Rightarrow> 'u loop_res" where
  "noinit_loop fuel one L \<sigma> =
     (if bytes_left (d_strm \<sigma>) = 0 then Some (True, L, \<sigma>)
      else
        case pb_decode_tag (d_strm \<sigma>) of
          ((False, wire_type, tag, eof), s') \<Rightarrow> Some (eof, L, \<sigma>\<lparr>d_strm := s'\<rparr>)
        | ((True, wire_type, tag, eof), s') \<Rightarrow>
            (case one wire_type tag L (\<sigma>\<lparr>d_strm := s'\<rparr>) of
               None \<Rightarrow> None
             | Some (False, L', \<sigma>') \<Rightarrow> Some (False, L', \<sigma>')
             | Some (True, L', \<sigma>') \<Rightarrow>
                 (case fuel of 0 \<Rightarrow> None | Suc fuel' \<Rightarrow> noinit_loop fuel' one L' \<sigma>')))"

declare noinit_loop.simps [simp del]

text \<open>
  \<open>do { req_field_count = ...; last_type = ...; } while (pb_field_iter_next(&iter));\<close>: the
  two values and the iterator at the end.
\<close>

function seek_end :: "pb_field_iter \<Rightarrow> u32 \<times> u8 \<times> pb_field_iter" where
  "seek_end it =
     (case pb_field_iter_next it of
        (True, it') \<Rightarrow> seek_end it'
      | (False, it') \<Rightarrow> (required_field_index it, f_type (cur_field it), it'))"
  by pat_completeness auto
termination
  by (relation "measure (\<lambda>it. length (it_start it) - it_pos it)")
     (auto dest!: next_true_advances [OF sym])

declare seek_end.simps [simp del]

definition required_count :: "pb_field_iter \<Rightarrow> u32" where
  "required_count it =
     (let (n, last_type, it') = seek_end it;
          n' = (if PB_HTYPE last_type = PB_HTYPE_REQUIRED \<and> f_tag (cur_field it') \<noteq> 0 then n + 1 else n)
      in if 64 < n' then 64 else n')"

definition all_required_seen :: "u32 \<Rightarrow> u32 list \<Rightarrow> bool" where
  "all_required_seen n seen =
     (list_all (\<lambda>i. seen ! i = - 1) [0..<unat (drop_bit 5 n)] \<and>
      (n AND 31 \<noteq> 0 \<longrightarrow>
         seen ! unat (drop_bit 5 n) = drop_bit (32 - unat (n AND 31)) (- 1 :: u32)))"

definition decode_noinit ::
  "nat \<Rightarrow> 'u dec_calls \<Rightarrow> 'u dec_env \<Rightarrow> u64 \<Rightarrow> 'u msg_decoder" where
  "decode_noinit fuel calls env slot fs dest \<sigma> =
     (let L = \<lparr>l_iter = snd (pb_field_iter_begin fs dest), l_ext_start = 0, l_fixed = None,
               l_seen = [0, 0]\<rparr>;
          \<sigma>0 = \<sigma>\<lparr>d_mem := store32 (d_mem \<sigma>) slot 0\<rparr>
      in case noinit_loop (unat (bytes_left (d_strm \<sigma>))) (decode_one fuel calls env slot) L \<sigma>0 of
           None \<Rightarrow> None
         | Some (False, L', \<sigma>') \<Rightarrow> Some (False, \<sigma>')
         | Some (True, L', \<sigma>') \<Rightarrow>
             if \<not> fixed_count_complete slot L' \<sigma>'
             then dec_err ''wrong size for fixed count field'' \<sigma>'
             else if \<not> all_required_seen (required_count (l_iter L')) (l_seen L')
             then dec_err ''missing required field'' \<sigma>'
             else Some (True, \<sigma>'))"

text \<open>\<open>pb_decode\<close> over given calls.\<close>

definition decode_with_defaults ::
  "'u msg_decoder \<Rightarrow> (pb_field list \<Rightarrow> u64 \<Rightarrow> (u64 \<Rightarrow> u8) \<Rightarrow> (u64 \<Rightarrow> u8) option) \<Rightarrow>
   (pb_field list \<Rightarrow> u64 \<Rightarrow> heap \<Rightarrow> heap option) \<Rightarrow> 'u msg_decoder" where
  "decode_with_defaults noinit defaults release fs dest \<sigma> =
     (case defaults fs dest (d_mem \<sigma>) of
        None \<Rightarrow> None
      | Some m \<Rightarrow>
          (case noinit fs dest (\<sigma>\<lparr>d_mem := m\<rparr>) of
             None \<Rightarrow> None
           | Some (True, \<sigma>') \<Rightarrow> Some (True, \<sigma>')
           | Some (False, \<sigma>') \<Rightarrow>
               (case release fs dest (d_mem \<sigma>', d_blocks \<sigma>') of
                  None \<Rightarrow> None
                | Some (m', blocks) \<Rightarrow> Some (False, \<sigma>'\<lparr>d_mem := m', d_blocks := blocks\<rparr>))))"

text \<open>
  The depth bounds the nesting of submessages, of defaults and of releases, and the length
  of extension lists.
\<close>

fun pb_decode_noinit :: "nat \<Rightarrow> 'u dec_env \<Rightarrow> 'u msg_decoder" where
  "pb_decode_noinit 0 env fs dest \<sigma> = None"
| "pb_decode_noinit (Suc depth) env fs dest \<sigma> =
     decode_noinit depth
       \<lparr>c_decode = decode_with_defaults (pb_decode_noinit depth env)
                     (pb_message_set_to_defaults depth (d_ftab env)) (pb_release depth (d_ftab env)),
        c_noinit = pb_decode_noinit depth env,
        c_defaults = pb_message_set_to_defaults depth (d_ftab env),
        c_release_field = pb_release_single_field depth (d_ftab env)\<rparr>
       env (d_local env depth) fs dest \<sigma>"

definition pb_decode :: "nat \<Rightarrow> 'u dec_env \<Rightarrow> 'u msg_decoder" where
  "pb_decode depth env =
     decode_with_defaults (pb_decode_noinit depth env)
       (pb_message_set_to_defaults depth (d_ftab env)) (pb_release depth (d_ftab env))"

definition pb_decode_delimited_noinit :: "nat \<Rightarrow> 'u dec_env \<Rightarrow> 'u msg_decoder" where
  "pb_decode_delimited_noinit depth env fs dest = in_substream (pb_decode_noinit depth env fs dest)"

definition pb_decode_delimited :: "nat \<Rightarrow> 'u dec_env \<Rightarrow> 'u msg_decoder" where
  "pb_decode_delimited depth env fs dest = in_substream (pb_decode depth env fs dest)"

definition pb_decode_nullterminated :: "nat \<Rightarrow> 'u dec_env \<Rightarrow> 'u msg_decoder" where
  "pb_decode_nullterminated depth env fs dest = pb_decode depth env fs dest"

end
