(* ===== verification/PbOStream.thy ===== *)
theory PbOStream
  imports PbCommon
begin

text \<open>
  nanopb's output streams and primitive encoders: the stream part and the "Helper functions"
  part of \<open>Pods/nanopb/pb_encode.c\<close>. A stream counts the bytes written against
  \<open>max_size\<close>; a stream without a callback only counts (\<open>PB_OSTREAM_SIZING\<close>).
\<close>

section \<open>Streams\<close>

text \<open>
  The state of \<open>buf_write\<close> is a byte pointer: the destination array and the offset of the
  pointer in it. A store past the end would lengthen the list; \<open>ostream_room\<close> below is the
  invariant that excludes it. A user callback is a function of its state and the bytes.
\<close>

datatype 'u ostate = OutNull | OutBuf bytes nat | OutUser 'u

datatype 'u ocallback =
  Buf_write
| User_write "'u ostate \<Rightarrow> bytes \<Rightarrow> bool \<times> 'u ostate"

record 'u pb_ostream =
  o_callback :: "'u ocallback option"
  o_state :: "'u ostate"
  max_size :: u64
  bytes_written :: u64
  o_errmsg :: "string option"

definition PB_OSTREAM_SIZING :: "'u pb_ostream" where
  "PB_OSTREAM_SIZING =
     \<lparr>o_callback = None, o_state = OutNull, max_size = 0, bytes_written = 0, o_errmsg = None\<rparr>"

definition pb_set_oerror :: "'u pb_ostream \<Rightarrow> string \<Rightarrow> 'u pb_ostream" where
  "pb_set_oerror s msg =
     s\<lparr>o_errmsg := (case o_errmsg s of None \<Rightarrow> Some msg | Some m \<Rightarrow> Some m)\<rparr>"

definition pb_return_oerror :: "'u pb_ostream \<Rightarrow> string \<Rightarrow> bool \<times> 'u pb_ostream" where
  "pb_return_oerror s msg = (False, pb_set_oerror s msg)"

definition buf_write :: "'u ostate \<Rightarrow> bytes \<Rightarrow> bool \<times> 'u ostate" where
  "buf_write st buf =
     (case st of
        OutBuf dest off \<Rightarrow>
          (True, OutBuf (take off dest @ buf @ drop (off + length buf) dest) (off + length buf))
      | OutNull \<Rightarrow> (False, OutNull)
      | OutUser u \<Rightarrow> (False, OutUser u))"

definition pb_ostream_from_buffer :: "bytes \<Rightarrow> u64 \<Rightarrow> 'u pb_ostream" where
  "pb_ostream_from_buffer buf bufsize =
     \<lparr>o_callback = Some Buf_write, o_state = OutBuf buf 0, max_size = bufsize,
      bytes_written = 0, o_errmsg = None\<rparr>"

definition run_ocallback :: "'u ocallback \<Rightarrow> 'u ostate \<Rightarrow> bytes \<Rightarrow> bool \<times> 'u ostate" where
  "run_ocallback cb st buf =
     (case cb of Buf_write \<Rightarrow> buf_write st buf | User_write f \<Rightarrow> f st buf)"

text \<open>
  \<open>buf\<close> is the memory from the pointer on; \<open>pb_write(stream, NULL, n)\<close>, which the code
  calls on sizing streams only, has the empty list.
\<close>

definition pb_write :: "'u pb_ostream \<Rightarrow> bytes \<Rightarrow> u64 \<Rightarrow> bool \<times> 'u pb_ostream" where
  "pb_write s buf count =
     (case o_callback s of
        Some cb \<Rightarrow>
          if 0 < count then
            (if bytes_written s + count < bytes_written s \<or> max_size s < bytes_written s + count
             then pb_return_oerror s ''stream full''
             else case run_ocallback cb (o_state s) (take (unat count) buf) of
                    (False, st) \<Rightarrow> pb_return_oerror (s\<lparr>o_state := st\<rparr>) ''io error''
                  | (True, st) \<Rightarrow>
                      (True, s\<lparr>o_state := st, bytes_written := bytes_written s + count\<rparr>))
          else (True, s)
      | None \<Rightarrow> (True, s\<lparr>bytes_written := bytes_written s + count\<rparr>))"

section \<open>Primitive encoders\<close>

text \<open>The loop of \<open>pb_encode_varint\<close>: the bytes it stores into \<open>buffer\<close>.\<close>

function varint_fill :: "u64 \<Rightarrow> bytes" where
  "varint_fill value =
     (if value = 0 then []
      else (ucast (value AND 0x7F) OR 0x80) # varint_fill (drop_bit 7 value))"
  by pat_completeness auto
termination
  by (relation "measure unat") (simp_all add: unat_drop_bit_eq drop_bit_nat_less)

declare varint_fill.simps [simp del]

definition pb_encode_varint :: "'u pb_ostream \<Rightarrow> u64 \<Rightarrow> bool \<times> 'u pb_ostream" where
  "pb_encode_varint s value =
     (if value \<le> 0x7F then pb_write s [ucast value] 1
      else let buffer = varint_fill value; i = length buffer
           in pb_write s (buffer[i - 1 := (buffer ! (i - 1)) AND 0x7F]) (of_nat i))"

text \<open>\<open>value\<close> holds the two's complement of the \<open>int64_t\<close> argument.\<close>

definition pb_encode_svarint :: "'u pb_ostream \<Rightarrow> u64 \<Rightarrow> bool \<times> 'u pb_ostream" where
  "pb_encode_svarint s value =
     (let zigzagged = (if sint value < 0 then NOT (push_bit 1 value) else push_bit 1 value)
      in pb_encode_varint s zigzagged)"

definition pb_encode_fixed32 :: "'u pb_ostream \<Rightarrow> u32 \<Rightarrow> bool \<times> 'u pb_ostream" where
  "pb_encode_fixed32 s val =
     pb_write s [ucast (val AND 0xFF), ucast (drop_bit 8 val AND 0xFF),
                 ucast (drop_bit 16 val AND 0xFF), ucast (drop_bit 24 val AND 0xFF)] 4"

definition pb_encode_fixed64 :: "'u pb_ostream \<Rightarrow> u64 \<Rightarrow> bool \<times> 'u pb_ostream" where
  "pb_encode_fixed64 s val =
     pb_write s [ucast (val AND 0xFF), ucast (drop_bit 8 val AND 0xFF),
                 ucast (drop_bit 16 val AND 0xFF), ucast (drop_bit 24 val AND 0xFF),
                 ucast (drop_bit 32 val AND 0xFF), ucast (drop_bit 40 val AND 0xFF),
                 ucast (drop_bit 48 val AND 0xFF), ucast (drop_bit 56 val AND 0xFF)] 8"

definition pb_encode_tag :: "'u pb_ostream \<Rightarrow> u32 \<Rightarrow> u32 \<Rightarrow> bool \<times> 'u pb_ostream" where
  "pb_encode_tag s wiretype field_number =
     pb_encode_varint s (push_bit 3 (ucast field_number) OR ucast wiretype)"

definition wiretype_of_ltype :: "u8 \<Rightarrow> u32 option" where
  "wiretype_of_ltype l =
     (if l = PB_LTYPE_BOOL \<or> l = PB_LTYPE_VARINT \<or> l = PB_LTYPE_UVARINT \<or> l = PB_LTYPE_SVARINT
      then Some 0
      else if l = PB_LTYPE_FIXED32 then Some 5
      else if l = PB_LTYPE_FIXED64 then Some 1
      else if l = PB_LTYPE_BYTES \<or> l = PB_LTYPE_STRING \<or> l = PB_LTYPE_SUBMESSAGE \<or>
              l = PB_LTYPE_FIXED_LENGTH_BYTES
      then Some 2
      else None)"

definition pb_encode_tag_for_field :: "'u pb_ostream \<Rightarrow> pb_field \<Rightarrow> bool \<times> 'u pb_ostream" where
  "pb_encode_tag_for_field s field =
     (case wiretype_of_ltype (PB_LTYPE (f_type field)) of
        None \<Rightarrow> pb_return_oerror s ''invalid field type''
      | Some wiretype \<Rightarrow> pb_encode_tag s wiretype (f_tag field))"

definition pb_encode_string :: "'u pb_ostream \<Rightarrow> bytes \<Rightarrow> u64 \<Rightarrow> bool \<times> 'u pb_ostream" where
  "pb_encode_string s buffer sz =
     (case pb_encode_varint s sz of
        (False, s') \<Rightarrow> (False, s')
      | (True, s') \<Rightarrow> pb_write s' buffer sz)"

end
