(* ===== verification/PbEncode.thy ===== *)
theory PbEncode
  imports PbOStream PbMem
begin

text \<open>
  nanopb's message encoder: the field encoders, \<open>encode_array\<close>, \<open>encode_field\<close>,
  \<open>pb_encode\<close>, \<open>pb_encode_submessage\<close> and their callers in
  \<open>Pods/nanopb/pb_encode.c\<close>. The source struct is read from a byte memory; submessages
  are encoded by a recursive call that the elementary definitions take as the argument
  \<open>enc\<close>, and \<open>pb_encode\<close> ties the knot with a bound on the nesting depth.
\<close>

section \<open>Environment\<close>

text \<open>
  The environment of an encoder run: the memory, the descriptor array at each address, and
  the code of the user's callbacks (\<open>pb_callback_t.funcs.encode\<close> with the field and the
  address of \<open>arg\<close>, \<open>pb_extension_type_t.encode\<close> with the extension's address).
\<close>

record 'u enc_env =
  mem :: "u64 \<Rightarrow> u8"
  ftab :: "u64 \<Rightarrow> pb_field list"
  enc_cb :: "u64 \<Rightarrow> 'u pb_ostream \<Rightarrow> pb_field \<Rightarrow> u64 \<Rightarrow> bool \<times> 'u pb_ostream"
  ext_cb :: "u64 \<Rightarrow> 'u pb_ostream \<Rightarrow> u64 \<Rightarrow> bool \<times> 'u pb_ostream"

text \<open>
  A run returns \<open>Some (ok, s)\<close>, or \<open>None\<close> where the C call does not return: recursion
  deeper than the bound, or a call through a null or missing entry of \<open>PB_ENCODERS\<close>.
\<close>

type_synonym 'u enc_res = "(bool \<times> 'u pb_ostream) option"
type_synonym 'u enc_step = "'u pb_ostream \<Rightarrow> 'u enc_res"
type_synonym 'u msg_encoder = "pb_field list \<Rightarrow> u64 \<Rightarrow> 'u enc_step"

text \<open>\<open>if (!f(stream)) return false;\<close> before \<open>g\<close>.\<close>

definition seq_enc :: "'u enc_step \<Rightarrow> 'u enc_step \<Rightarrow> 'u enc_step" where
  "seq_enc f g s =
     (case f s of None \<Rightarrow> None | Some (False, s') \<Rightarrow> Some (False, s') | Some (True, s') \<Rightarrow> g s')"

definition fail_enc :: "string \<Rightarrow> 'u enc_step" where
  "fail_enc msg s = Some (pb_return_oerror s msg)"

definition done_enc :: "'u enc_step" where
  "done_enc s = Some (True, s)"

definition lift_enc :: "('u pb_ostream \<Rightarrow> bool \<times> 'u pb_ostream) \<Rightarrow> 'u enc_step" where
  "lift_enc f s = Some (f s)"

section \<open>Field encoders\<close>

definition pb_enc_bool :: "'u enc_env \<Rightarrow> pb_field \<Rightarrow> u64 \<Rightarrow> 'u enc_step" where
  "pb_enc_bool env field src =
     lift_enc (\<lambda>s. pb_encode_varint s (if safe_read_bool (mem env) src then 1 else 0))"

text \<open>Loads of the integer types by their size; \<open>None\<close> for any other size.\<close>

definition load_signed :: "(u64 \<Rightarrow> u8) \<Rightarrow> u32 \<Rightarrow> u64 \<Rightarrow> u64 option" where
  "load_signed m sz a =
     (if sz = 1 then Some (scast (load8 m a))
      else if sz = 2 then Some (scast (load16 m a))
      else if sz = 4 then Some (scast (load32 m a))
      else if sz = 8 then Some (load64 m a)
      else None)"

definition load_unsigned :: "(u64 \<Rightarrow> u8) \<Rightarrow> u32 \<Rightarrow> u64 \<Rightarrow> u64 option" where
  "load_unsigned m sz a =
     (if sz = 1 then Some (ucast (load8 m a))
      else if sz = 2 then Some (ucast (load16 m a))
      else if sz = 4 then Some (ucast (load32 m a))
      else if sz = 8 then Some (load64 m a)
      else None)"

definition pb_enc_varint :: "'u enc_env \<Rightarrow> pb_field \<Rightarrow> u64 \<Rightarrow> 'u enc_step" where
  "pb_enc_varint env field src =
     (case load_signed (mem env) (data_size field) src of
        None \<Rightarrow> fail_enc ''invalid data_size''
      | Some value \<Rightarrow> lift_enc (\<lambda>s. pb_encode_varint s value))"

definition pb_enc_uvarint :: "'u enc_env \<Rightarrow> pb_field \<Rightarrow> u64 \<Rightarrow> 'u enc_step" where
  "pb_enc_uvarint env field src =
     (case load_unsigned (mem env) (data_size field) src of
        None \<Rightarrow> fail_enc ''invalid data_size''
      | Some value \<Rightarrow> lift_enc (\<lambda>s. pb_encode_varint s value))"

definition pb_enc_svarint :: "'u enc_env \<Rightarrow> pb_field \<Rightarrow> u64 \<Rightarrow> 'u enc_step" where
  "pb_enc_svarint env field src =
     (case load_signed (mem env) (data_size field) src of
        None \<Rightarrow> fail_enc ''invalid data_size''
      | Some value \<Rightarrow> lift_enc (\<lambda>s. pb_encode_svarint s value))"

definition pb_enc_fixed64 :: "'u enc_env \<Rightarrow> pb_field \<Rightarrow> u64 \<Rightarrow> 'u enc_step" where
  "pb_enc_fixed64 env field src = lift_enc (\<lambda>s. pb_encode_fixed64 s (load64 (mem env) src))"

definition pb_enc_fixed32 :: "'u enc_env \<Rightarrow> pb_field \<Rightarrow> u64 \<Rightarrow> 'u enc_step" where
  "pb_enc_fixed32 env field src = lift_enc (\<lambda>s. pb_encode_fixed32 s (load32 (mem env) src))"

definition pb_enc_bytes :: "'u enc_env \<Rightarrow> pb_field \<Rightarrow> u64 \<Rightarrow> 'u enc_step" where
  "pb_enc_bytes env field src =
     (if src = 0 then lift_enc (\<lambda>s. pb_encode_string s [] 0)
      else let bsize = load32 (mem env) src; allocsize = PB_BYTES_ARRAY_T_ALLOCSIZE bsize
           in if allocsize < ucast bsize \<or>
                 (PB_ATYPE (f_type field) = PB_ATYPE_STATIC \<and> ucast (data_size field) < allocsize)
              then fail_enc ''bytes size exceeded''
              else lift_enc (\<lambda>s. pb_encode_string s
                     (load_bytes (mem env) (src + 4) (unat bsize)) (ucast bsize)))"

text \<open>The \<open>strnlen\<close> loop of \<open>pb_enc_string\<close>.\<close>

function string_length :: "(u64 \<Rightarrow> u8) \<Rightarrow> u64 \<Rightarrow> u64 \<Rightarrow> u64 \<Rightarrow> u64" where
  "string_length m p max_sz sz =
     (if sz < max_sz \<and> m p \<noteq> 0 then string_length m (p + 1) max_sz (sz + 1) else sz)"
  by pat_completeness auto
termination
proof (relation "measure (\<lambda>(m, p, max_sz, sz). unat max_sz - unat sz)", goal_cases)
  case (2 m p max_sz sz)
  then have "unat sz < unat max_sz" by (simp add: word_less_nat_alt)
  moreover from this have "unat (sz + 1) = Suc (unat sz)"
    using unat_add_lem [of sz 1] unat_u64_lt [of max_sz] by simp
  ultimately show ?case by simp
qed simp

declare string_length.simps [simp del]

definition pb_enc_string :: "'u enc_env \<Rightarrow> pb_field \<Rightarrow> u64 \<Rightarrow> 'u enc_step" where
  "pb_enc_string env field src =
     (let max_sz = (if PB_ATYPE (f_type field) = PB_ATYPE_POINTER then - 1
                    else ucast (data_size field));
          sz = (if src = 0 then 0 else string_length (mem env) src max_sz 0)
      in lift_enc (\<lambda>s. pb_encode_string s (load_bytes (mem env) src (unat sz)) sz))"

definition pb_enc_fixed_length_bytes :: "'u enc_env \<Rightarrow> pb_field \<Rightarrow> u64 \<Rightarrow> 'u enc_step" where
  "pb_enc_fixed_length_bytes env field src =
     lift_enc (\<lambda>s. pb_encode_string s
       (load_bytes (mem env) src (unat (data_size field))) (ucast (data_size field)))"

section \<open>Submessages\<close>

text \<open>
  The message is encoded twice: on a sizing stream for its length, then on a substream whose
  \<open>max_size\<close> is that length.
\<close>

definition pb_encode_submessage :: "'u msg_encoder \<Rightarrow> pb_field list \<Rightarrow> u64 \<Rightarrow> 'u enc_step" where
  "pb_encode_submessage enc fs src s =
     (case enc fs src PB_OSTREAM_SIZING of
        None \<Rightarrow> None
      | Some (False, sub) \<Rightarrow> Some (False, s\<lparr>o_errmsg := o_errmsg sub\<rparr>)
      | Some (True, sub) \<Rightarrow>
          (let sz = bytes_written sub in
           case pb_encode_varint s sz of
             (False, s1) \<Rightarrow> Some (False, s1)
           | (True, s1) \<Rightarrow>
               if o_callback s1 = None then Some (pb_write s1 [] sz)
               else if max_size s1 < bytes_written s1 + sz
                    then Some (pb_return_oerror s1 ''stream full'')
               else
                 (case enc fs src
                         \<lparr>o_callback = o_callback s1, o_state = o_state s1, max_size = sz,
                          bytes_written = 0, o_errmsg = None\<rparr> of
                    None \<Rightarrow> None
                  | Some (status, sub2) \<Rightarrow>
                      (let s2 = s1\<lparr>bytes_written := bytes_written s1 + bytes_written sub2,
                                  o_state := o_state sub2, o_errmsg := o_errmsg sub2\<rparr>
                       in if bytes_written sub2 \<noteq> sz
                          then Some (pb_return_oerror s2 ''submsg size changed'')
                          else Some (status, s2)))))"

definition pb_enc_submessage :: "'u msg_encoder \<Rightarrow> 'u enc_env \<Rightarrow> pb_field \<Rightarrow> u64 \<Rightarrow> 'u enc_step" where
  "pb_enc_submessage enc env field src =
     (if f_ptr field = 0 then fail_enc ''invalid field descriptor''
      else pb_encode_submessage enc (ftab env (f_ptr field)) src)"

text \<open>The table \<open>PB_ENCODERS\<close>, indexed by the LTYPE.\<close>

definition pb_encoder :: "'u msg_encoder \<Rightarrow> 'u enc_env \<Rightarrow> pb_field \<Rightarrow> u64 \<Rightarrow> 'u enc_step" where
  "pb_encoder enc env field src =
     (let l = PB_LTYPE (f_type field) in
      if l = PB_LTYPE_BOOL then pb_enc_bool env field src
      else if l = PB_LTYPE_VARINT then pb_enc_varint env field src
      else if l = PB_LTYPE_UVARINT then pb_enc_uvarint env field src
      else if l = PB_LTYPE_SVARINT then pb_enc_svarint env field src
      else if l = PB_LTYPE_FIXED32 then pb_enc_fixed32 env field src
      else if l = PB_LTYPE_FIXED64 then pb_enc_fixed64 env field src
      else if l = PB_LTYPE_BYTES then pb_enc_bytes env field src
      else if l = PB_LTYPE_STRING then pb_enc_string env field src
      else if l = PB_LTYPE_SUBMESSAGE then pb_enc_submessage enc env field src
      else if l = PB_LTYPE_FIXED_LENGTH_BYTES then pb_enc_fixed_length_bytes env field src
      else (\<lambda>s. None))"

section \<open>Arrays\<close>

text \<open>\<open>for (i = 0; i < count; i++) { if (!f(p)) return false; p += data_size; }\<close>\<close>

fun array_loop :: "(u64 \<Rightarrow> 'u enc_step) \<Rightarrow> u64 \<Rightarrow> u64 \<Rightarrow> nat \<Rightarrow> 'u enc_step" where
  "array_loop f p step 0 s = Some (True, s)"
| "array_loop f p step (Suc n) s = seq_enc (f p) (array_loop f (p + step) step n) s"

definition packed_size :: "(u64 \<Rightarrow> 'u enc_step) \<Rightarrow> pb_field \<Rightarrow> u64 \<Rightarrow> u64 \<Rightarrow> (bool \<times> u64) option" where
  "packed_size func field p count =
     (if PB_LTYPE (f_type field) = PB_LTYPE_FIXED32 then Some (True, 4 * count)
      else if PB_LTYPE (f_type field) = PB_LTYPE_FIXED64 then Some (True, 8 * count)
      else map_option (\<lambda>(ok, sizestream). (ok, bytes_written sizestream))
             (array_loop func p (ucast (data_size field)) (unat count) PB_OSTREAM_SIZING))"

definition encode_packed :: "(u64 \<Rightarrow> 'u enc_step) \<Rightarrow> pb_field \<Rightarrow> u64 \<Rightarrow> u64 \<Rightarrow> 'u enc_step" where
  "encode_packed func field p count =
     seq_enc (lift_enc (\<lambda>s. pb_encode_tag s 2 (f_tag field)))
       (\<lambda>s. case packed_size func field p count of
              None \<Rightarrow> None
            | Some (False, sz) \<Rightarrow> Some (False, s)
            | Some (True, sz) \<Rightarrow>
                seq_enc (lift_enc (\<lambda>s. pb_encode_varint s sz))
                  (\<lambda>s. if o_callback s = None then Some (pb_write s [] sz)
                       else array_loop func p (ucast (data_size field)) (unat count) s) s)"

definition encode_unpacked_item ::
  "'u enc_env \<Rightarrow> (u64 \<Rightarrow> 'u enc_step) \<Rightarrow> pb_field \<Rightarrow> u64 \<Rightarrow> 'u enc_step" where
  "encode_unpacked_item env func field p =
     seq_enc (lift_enc (\<lambda>s. pb_encode_tag_for_field s field))
       (if PB_ATYPE (f_type field) = PB_ATYPE_POINTER \<and>
           (PB_LTYPE (f_type field) = PB_LTYPE_STRING \<or> PB_LTYPE (f_type field) = PB_LTYPE_BYTES)
        then func (load64 (mem env) p) else func p)"

definition encode_array ::
  "'u enc_env \<Rightarrow> pb_field \<Rightarrow> u64 \<Rightarrow> u64 \<Rightarrow> (u64 \<Rightarrow> 'u enc_step) \<Rightarrow> 'u enc_step" where
  "encode_array env field p count func =
     (if count = 0 then done_enc
      else if PB_ATYPE (f_type field) \<noteq> PB_ATYPE_POINTER \<and> ucast (array_size field) < count
      then fail_enc ''array max size exceeded''
      else if PB_LTYPE (f_type field) \<le> PB_LTYPE_LAST_PACKABLE
      then encode_packed func field p count
      else array_loop (encode_unpacked_item env func field) p (ucast (data_size field)) (unat count))"

section \<open>The proto3 default check\<close>

text \<open>\<open>chk\<close> is the recursive check of all fields of a submessage.\<close>

definition pb_check_proto3_default_value ::
  "(pb_field list \<Rightarrow> u64 \<Rightarrow> bool option) \<Rightarrow> 'u enc_env \<Rightarrow> pb_field \<Rightarrow> u64 \<Rightarrow> bool option" where
  "pb_check_proto3_default_value chk env field p =
     (let m = mem env; h = PB_HTYPE (f_type field); a = PB_ATYPE (f_type field);
          l = PB_LTYPE (f_type field); psz = p + scast (size_offset field);
          bytewise = Some (list_all (\<lambda>b. b = 0) (load_bytes m p (unat (data_size field))));
          rest =
            (if a = PB_ATYPE_STATIC \<and> l = PB_LTYPE_BYTES then Some (load32 m p = 0)
             else if a = PB_ATYPE_STATIC \<and> l = PB_LTYPE_STRING then Some (m p = 0)
             else if a = PB_ATYPE_STATIC \<and> l = PB_LTYPE_FIXED_LENGTH_BYTES
             then Some (data_size field = 0)
             else if a = PB_ATYPE_STATIC \<and> l = PB_LTYPE_SUBMESSAGE
             then chk (ftab env (f_ptr field)) p
             else if a = PB_ATYPE_POINTER \<and> PB_LTYPE_LAST_PACKABLE < l then Some (load64 m p = 0)
             else bytewise)
      in if h = PB_HTYPE_REQUIRED then Some False
         else if h = PB_HTYPE_REPEATED \<and> size_offset field \<noteq> 0 then Some (load32 m psz = 0)
         else if h = PB_HTYPE_REPEATED \<and> a = PB_ATYPE_STATIC then Some False
         else if h = PB_HTYPE_ONEOF then Some (load32 m psz = 0)
         else if h = PB_HTYPE_OPTIONAL \<and> size_offset field \<noteq> 0
         then Some (\<not> safe_read_bool m psz)
         else rest)"

text \<open>The loop over a submessage's fields, to a nesting depth.\<close>

fun msg_is_default :: "nat \<Rightarrow> 'u enc_env \<Rightarrow> pb_field list \<Rightarrow> u64 \<Rightarrow> bool option" where
  "msg_is_default 0 env fs p = None"
| "msg_is_default (Suc depth) env fs p =
     (case pb_field_iter_begin fs p of
        (False, it) \<Rightarrow> Some True
      | (True, it) \<Rightarrow>
          map_option fst
            (iter_all (\<lambda>it u. map_option (\<lambda>b. (b, u))
                 (pb_check_proto3_default_value (msg_is_default depth env) env (cur_field it) (pData it)))
               it ()))"

section \<open>Fields\<close>

text \<open>
  \<open>encode_basic_field\<close>. \<open>pSize\<close> points to the \<open>has_\<close>, count or \<open>which_\<close> member when
  \<open>size_offset\<close> is not 0, and otherwise to the local \<open>implicit_has\<close>; the latter is read
  as the count of no descriptor the macros of \<open>pb.h\<close> build (a ONEOF entry always has a
  \<open>which_\<close> member at another offset); its one byte is all the model reads of it.
\<close>

definition encode_basic_field ::
  "(pb_field list \<Rightarrow> u64 \<Rightarrow> bool option) \<Rightarrow> 'u msg_encoder \<Rightarrow> 'u enc_env \<Rightarrow> pb_field \<Rightarrow> u64 \<Rightarrow> 'u enc_step" where
  "encode_basic_field chk enc env field p0 s =
     (let m = mem env; h = PB_HTYPE (f_type field);
          pointer = (PB_ATYPE (f_type field) = PB_ATYPE_POINTER);
          psz = p0 + scast (size_offset field);
          p = (if pointer then load64 m p0 else p0);
          func = pb_encoder enc env field
      in case (if size_offset field = 0 \<and> h = PB_HTYPE_OPTIONAL
               then map_option Not (pb_check_proto3_default_value chk env field p0)
               else Some True) of
           None \<Rightarrow> None
         | Some implicit0 \<Rightarrow>
             (let implicit_has = (if pointer then p \<noteq> 0 else implicit0);
                  has = (if size_offset field \<noteq> 0 then safe_read_bool m psz else implicit_has);
                  count = (if size_offset field \<noteq> 0 then load32 m psz else of_bool implicit_has)
              in if h = PB_HTYPE_REQUIRED then
                   (if p = 0 then fail_enc ''missing required field'' s
                    else seq_enc (lift_enc (\<lambda>s. pb_encode_tag_for_field s field)) (func p) s)
                 else if h = PB_HTYPE_OPTIONAL then
                   (if has then seq_enc (lift_enc (\<lambda>s. pb_encode_tag_for_field s field)) (func p) s
                    else Some (True, s))
                 else if h = PB_HTYPE_REPEATED then
                   encode_array env field p
                     (ucast (if size_offset field \<noteq> 0 then count else array_size field)) func s
                 else
                   (if count = f_tag field
                    then seq_enc (lift_enc (\<lambda>s. pb_encode_tag_for_field s field)) (func p) s
                    else Some (True, s))))"

text \<open>\<open>pb_callback_t\<close>: the function pointer at offset 0, \<open>arg\<close> at offset 8.\<close>

definition encode_callback_field :: "'u enc_env \<Rightarrow> pb_field \<Rightarrow> u64 \<Rightarrow> 'u enc_step" where
  "encode_callback_field env field p s =
     (let fn = load64 (mem env) p in
      if fn \<noteq> 0 then
        (case enc_cb env fn s field (p + 8) of
           (False, s') \<Rightarrow> Some (pb_return_oerror s' ''callback error'')
         | (True, s') \<Rightarrow> Some (True, s'))
      else Some (True, s))"

definition encode_field ::
  "(pb_field list \<Rightarrow> u64 \<Rightarrow> bool option) \<Rightarrow> 'u msg_encoder \<Rightarrow> 'u enc_env \<Rightarrow> pb_field \<Rightarrow> u64 \<Rightarrow> 'u enc_step" where
  "encode_field chk enc env field p =
     (let a = PB_ATYPE (f_type field) in
      if a = PB_ATYPE_STATIC \<or> a = PB_ATYPE_POINTER then encode_basic_field chk enc env field p
      else if a = PB_ATYPE_CALLBACK then encode_callback_field env field p
      else fail_enc ''invalid field type'')"

section \<open>Extensions\<close>

text \<open>
  \<open>pb_extension_t\<close>: \<open>type\<close> at 0, \<open>dest\<close> at 8, \<open>next\<close> at 16;
  \<open>pb_extension_type_t\<close>: \<open>decode\<close> at 0, \<open>encode\<close> at 8, \<open>arg\<close> at 16.
\<close>

definition default_extension_encoder ::
  "(pb_field list \<Rightarrow> u64 \<Rightarrow> bool option) \<Rightarrow> 'u msg_encoder \<Rightarrow> 'u enc_env \<Rightarrow> u64 \<Rightarrow> 'u enc_step" where
  "default_extension_encoder chk enc env extension =
     (let m = mem env;
          field = field_at (ftab env (load64 m (load64 m extension + 16))) 0
      in if PB_ATYPE (f_type field) = PB_ATYPE_POINTER
         then encode_field chk enc env field (extension + 8)
         else encode_field chk enc env field (load64 m (extension + 8)))"

text \<open>The walk over the list of extensions, for at most \<open>fuel\<close> elements.\<close>

fun extension_loop ::
  "nat \<Rightarrow> (pb_field list \<Rightarrow> u64 \<Rightarrow> bool option) \<Rightarrow> 'u msg_encoder \<Rightarrow> 'u enc_env \<Rightarrow> u64 \<Rightarrow> 'u enc_step" where
  "extension_loop 0 chk enc env extension s = (if extension = 0 then Some (True, s) else None)"
| "extension_loop (Suc fuel) chk enc env extension s =
     (if extension = 0 then Some (True, s)
      else
        let m = mem env; encode = load64 m (load64 m extension + 8) in
        seq_enc (if encode \<noteq> 0 then (\<lambda>s. Some (ext_cb env encode s extension))
                 else default_extension_encoder chk enc env extension)
          (extension_loop fuel chk enc env (load64 m (extension + 16))) s)"

definition encode_extension_field ::
  "nat \<Rightarrow> (pb_field list \<Rightarrow> u64 \<Rightarrow> bool option) \<Rightarrow> 'u msg_encoder \<Rightarrow> 'u enc_env \<Rightarrow> u64 \<Rightarrow> 'u enc_step" where
  "encode_extension_field fuel chk enc env p =
     extension_loop fuel chk enc env (load64 (mem env) p)"

section \<open>Messages\<close>

text \<open>
  \<open>pb_encode\<close> to a nesting depth, which also bounds the length of an extension list. Inside
  depth \<open>Suc n\<close> the submessages are encoded, and checked for defaults, at depth \<open>n\<close>.
\<close>

fun pb_encode :: "nat \<Rightarrow> 'u enc_env \<Rightarrow> 'u msg_encoder" where
  "pb_encode 0 env fs src s = None"
| "pb_encode (Suc depth) env fs src s =
     (case pb_field_iter_begin fs src of
        (False, it) \<Rightarrow> Some (True, s)
      | (True, it) \<Rightarrow>
          iter_all (\<lambda>it.
             if PB_LTYPE (f_type (cur_field it)) = PB_LTYPE_EXTENSION
             then encode_extension_field depth (msg_is_default depth env) (pb_encode depth env) env (pData it)
             else encode_field (msg_is_default depth env) (pb_encode depth env) env
                    (cur_field it) (pData it)) it s)"

definition pb_encode_delimited :: "nat \<Rightarrow> 'u enc_env \<Rightarrow> 'u msg_encoder" where
  "pb_encode_delimited depth env fs src = pb_encode_submessage (pb_encode depth env) fs src"

definition pb_encode_nullterminated :: "nat \<Rightarrow> 'u enc_env \<Rightarrow> 'u msg_encoder" where
  "pb_encode_nullterminated depth env fs src =
     seq_enc (pb_encode depth env fs src) (lift_enc (\<lambda>s. pb_write s [0] 1))"

text \<open>The result is the return value and \<open>*size\<close>, which is set on success only.\<close>

definition pb_get_encoded_size ::
  "nat \<Rightarrow> 'u enc_env \<Rightarrow> pb_field list \<Rightarrow> u64 \<Rightarrow> u64 option option" where
  "pb_get_encoded_size depth env fs src =
     (case pb_encode depth env fs src PB_OSTREAM_SIZING of
        None \<Rightarrow> None
      | Some (False, stream) \<Rightarrow> Some None
      | Some (True, stream) \<Rightarrow> Some (Some (bytes_written stream)))"

end
