(* ===== verification/PbEmit.thy ===== *)
theory PbEmit
  imports PbEncode "HOL-Library.Sublist"
begin

text \<open>
  What the encoder writes. \<open>ostream_sink\<close> is the contract a stream callback has to keep; in
  it an encoder step is shown to \<open>emit\<close> a fixed byte string: it succeeds exactly on the streams
  that have room for it, appends it to what the stream already took, and counts it on a sizing
  stream. The interpretation at the end is the memory sink \<open>buf_write\<close>.
\<close>

section \<open>Emission\<close>

text \<open>The stream after \<open>bs\<close>, where \<open>put\<close> is the effect on the callback's state.\<close>

definition advance :: "('u ostate \<Rightarrow> bytes \<Rightarrow> 'u ostate) \<Rightarrow> 'u pb_ostream \<Rightarrow> bytes \<Rightarrow> 'u pb_ostream" where
  "advance put s bs =
     s\<lparr>o_state := (if o_callback s = None then o_state s else put (o_state s) bs),
       bytes_written := bytes_written s + of_nat (length bs)\<rparr>"

definition ready :: "'u ocallback \<Rightarrow> ('u ostate \<Rightarrow> bool) \<Rightarrow> 'u pb_ostream \<Rightarrow> bool" where
  "ready cb ok s \<longleftrightarrow>
     o_errmsg s = None \<and> (o_callback s = None \<or> 
       (o_callback s = Some cb \<and> ok (o_state s) \<and> bytes_written s \<le> max_size s))"

definition fits :: "'u pb_ostream \<Rightarrow> nat \<Rightarrow> bool" where
  "fits s n \<longleftrightarrow>
     o_callback s = None \<or> n = 0 \<or> unat (bytes_written s) + n \<le> unat (max_size s)"

text \<open>
  Byte counts are 64 bits wide. \<open>bounded\<close>: \<open>n\<close> more bytes do not wrap the counter of a stream
  that writes. \<open>stopped\<close>: the call failed after it wrote a prefix of \<open>bs\<close> for which the
  stream had room, and nothing else.
\<close>

definition bounded :: "'u pb_ostream \<Rightarrow> nat \<Rightarrow> bool" where
  "bounded s n \<longleftrightarrow> o_callback s = None \<or> unat (bytes_written s) + n < 2 ^ 64"

definition stopped ::
  "('u ostate \<Rightarrow> bytes \<Rightarrow> 'u ostate) \<Rightarrow> 'u pb_ostream \<Rightarrow> bytes \<Rightarrow> 'u enc_res \<Rightarrow> bool" where
  "stopped put s bs r \<longleftrightarrow>
     (\<exists>s' p. r = Some (False, s') \<and> prefix p bs \<and> fits s (length p) \<and>
             o_state s' = o_state (advance put s p))"

text \<open>
  \<open>yields f bs good\<close>: on every ready stream, \<open>f\<close> appends \<open>bs\<close> if \<open>good\<close> holds and there is
  room, and otherwise stops inside \<open>bs\<close>.
\<close>

definition yields ::
  "'u ocallback \<Rightarrow> ('u ostate \<Rightarrow> bool) \<Rightarrow> ('u ostate \<Rightarrow> bytes \<Rightarrow> 'u ostate) \<Rightarrow>
   'u enc_step \<Rightarrow> bytes \<Rightarrow> bool \<Rightarrow> bool" where
  "yields cb ok put f bs good \<longleftrightarrow>
     (\<forall>s. ready cb ok s \<longrightarrow> bounded s (length bs) \<longrightarrow>
        (if good \<and> fits s (length bs) then f s = Some (True, advance put s bs)
         else stopped put s bs (f s)))"

abbreviation emits ::
  "'u ocallback \<Rightarrow> ('u ostate \<Rightarrow> bool) \<Rightarrow> ('u ostate \<Rightarrow> bytes \<Rightarrow> 'u ostate) \<Rightarrow> 'u enc_step \<Rightarrow> bytes \<Rightarrow> bool" where
  "emits cb ok put f bs \<equiv> yields cb ok put f bs True"

lemma fits_bounded: "fits s n \<Longrightarrow> bounded s n"
  using unat_u64_lt [of "bytes_written s"] le_less_trans [OF _ unat_u64_lt [of "max_size s"]]
  by (fastforce simp: fits_def bounded_def)

lemma fits_prefix: "fits s n \<Longrightarrow> m \<le> n \<Longrightarrow> fits s m"
  by (auto simp: fits_def)

lemma bounded_prefix: "bounded s n \<Longrightarrow> m \<le> n \<Longrightarrow> bounded s m"
  by (auto simp: bounded_def)

lemma fits_0 [simp]: "fits s 0"
  by (simp add: fits_def)

lemma yieldsI:
  "(\<And>s. ready cb ok s \<Longrightarrow> bounded s (length bs) \<Longrightarrow> good \<Longrightarrow> fits s (length bs) \<Longrightarrow>
       f s = Some (True, advance put s bs)) \<Longrightarrow>
   (\<And>s. ready cb ok s \<Longrightarrow> bounded s (length bs) \<Longrightarrow> \<not> (good \<and> fits s (length bs)) \<Longrightarrow>
       stopped put s bs (f s)) \<Longrightarrow>
   yields cb ok put f bs good"
  unfolding yields_def by auto

lemma emits_okD:
  "emits cb ok put f bs \<Longrightarrow> ready cb ok s \<Longrightarrow> fits s (length bs) \<Longrightarrow> f s = Some (True, advance put s bs)"
  unfolding yields_def by (simp add: fits_bounded)

lemma yields_failD:
  "yields cb ok put f bs good \<Longrightarrow> ready cb ok s \<Longrightarrow> bounded s (length bs) \<Longrightarrow>
   \<not> (good \<and> fits s (length bs)) \<Longrightarrow> stopped put s bs (f s)"
  unfolding yields_def by (simp split: if_splits)

lemma stopped_append: "stopped put s a r \<Longrightarrow> stopped put s (a @ b) r"
  unfolding stopped_def by (metis prefix_prefix)

text \<open>A step whose effect does not depend on the stream, when it returns on a sizing stream.\<close>

definition steady ::
  "'u ocallback \<Rightarrow> ('u ostate \<Rightarrow> bool) \<Rightarrow> ('u ostate \<Rightarrow> bytes \<Rightarrow> 'u ostate) \<Rightarrow> 'u enc_step \<Rightarrow> bool" where
  "steady cb ok put f \<longleftrightarrow>
     (\<exists>bs good. yields cb ok put f bs good) \<or> (\<forall>s. o_callback s = None \<longrightarrow> o_errmsg s = None \<longrightarrow> f s = None)"

locale ostream_sink =
  fixes cb :: "'u ocallback"
    and ok :: "'u ostate \<Rightarrow> bool"
    and put :: "'u ostate \<Rightarrow> bytes \<Rightarrow> 'u ostate"
  assumes accepts: "ok st \<Longrightarrow> run_ocallback cb st bs = (True, put st bs)"
    and ok_put: "ok st \<Longrightarrow> ok (put st bs)"
    and put_nil: "ok st \<Longrightarrow> put st [] = st"
    and put_append: "ok st \<Longrightarrow> put (put st a) b = put st (a @ b)"
begin

abbreviation emit :: "'u enc_step \<Rightarrow> bytes \<Rightarrow> bool" where
  "emit \<equiv> emits cb ok put"

lemma advance_advance:
  "ready cb ok s \<Longrightarrow> advance put (advance put s a) b = advance put s (a @ b)"
  by (auto simp: advance_def ready_def put_append add.assoc)

lemma advance_nil: "ready cb ok s \<Longrightarrow> advance put s [] = s"
  by (auto simp: advance_def ready_def put_nil)

lemma advance_keeps [simp]:
  "o_callback (advance put s bs) = o_callback s" "max_size (advance put s bs) = max_size s"
  "o_errmsg (advance put s bs) = o_errmsg s"
  by (simp_all add: advance_def)

lemma bytes_written_advance:
  "bytes_written (advance put s bs) = bytes_written s + of_nat (length bs)"
  by (simp add: advance_def)

lemma unat_bytes_written_advance:
  assumes "fits s (length bs)" "o_callback s \<noteq> None"
  shows "unat (bytes_written (advance put s bs)) = unat (bytes_written s) + length bs"
proof -
  have le: "unat (bytes_written s) + length bs < 2 ^ 64"
    using assms le_less_trans [OF _ unat_u64_lt [of "max_size s"]]
    by (auto simp: fits_def)
  then have "unat (of_nat (length bs) :: u64) = length bs"
    by (simp add: unat_of_nat)
  then show ?thesis
    using le by (simp add: bytes_written_advance unat_word_ariths)
qed

lemma ready_advance:
  assumes "ready cb ok s" "fits s (length bs)"
  shows "ready cb ok (advance put s bs)"
proof (cases "o_callback s")
  case None
  then show ?thesis using assms(1) by (simp add: ready_def)
next
  case (Some c)
  then have "unat (bytes_written (advance put s bs)) = unat (bytes_written s) + length bs"
    using unat_bytes_written_advance [OF assms(2)] by simp
  moreover have "unat (bytes_written s) + length bs \<le> unat (max_size s)"
    using assms Some by (auto simp: fits_def ready_def word_le_nat_alt)
  moreover have "o_state (advance put s bs) = put (o_state s) bs"
    using Some by (simp add: advance_def)
  ultimately show ?thesis
    using assms(1) Some by (auto simp: ready_def ok_put word_le_nat_alt)
qed

lemma fits_append:
  "fits s (length (a @ b)) \<longleftrightarrow> fits s (length a) \<and> fits (advance put s a) (length b)"
proof (cases "o_callback s = None")
  case True
  then show ?thesis by (simp add: fits_def)
next
  case False
  show ?thesis
  proof (cases "fits s (length a)")
    case True
    then show ?thesis
      using unat_bytes_written_advance [OF True False] False
      by (auto simp: fits_def)
  next
    case out: False
    then show ?thesis using False by (auto simp: fits_def)
  qed
qed

lemma bounded_advance:
  assumes "bounded s (length (a @ b))" "fits s (length a)"
  shows "bounded (advance put s a) (length b)"
  using assms unat_bytes_written_advance [OF assms(2)]
  by (cases "o_callback s") (simp_all add: bounded_def)

lemma stopped_advance:
  assumes "ready cb ok s" "fits s (length a)" "stopped put (advance put s a) b r"
  shows "stopped put s (a @ b) r"
proof -
  obtain s' p where p: "r = Some (False, s')" "prefix p b" "fits (advance put s a) (length p)"
    "o_state s' = o_state (advance put (advance put s a) p)"
    using assms(3) by (auto simp: stopped_def)
  have "fits s (length (a @ p))" using fits_append [of s a p] assms(2) p(3) by blast
  moreover have "prefix (a @ p) (a @ b)" using p(2) by simp
  moreover have "o_state s' = o_state (advance put s (a @ p))"
    using p(4) by (simp only: advance_advance [OF assms(1)])
  ultimately show ?thesis using p(1) unfolding stopped_def by blast
qed

lemma yields_seq:
  assumes f: "emit f a" and g: "yields cb ok put g b good"
  shows "yields cb ok put (seq_enc f g) (a @ b) good"
proof (rule yieldsI)
  fix s assume s: "ready cb ok s" "good" "fits s (length (a @ b))"
  then have a: "fits s (length a)" and "fits (advance put s a) (length b)"
    by (simp_all only: fits_append)
  then show "seq_enc f g s = Some (True, advance put s (a @ b))"
    using emits_okD [OF f s(1)] emits_okD [OF _ ready_advance [OF s(1) a], of put g b] g s(2)
    by (simp add: seq_enc_def advance_advance [OF s(1)])
next
  fix s assume s: "ready cb ok s" "bounded s (length (a @ b))" "\<not> (good \<and> fits s (length (a @ b)))"
  show "stopped put s (a @ b) (seq_enc f g s)"
  proof (cases "fits s (length a)")
    case True
    then have "stopped put (advance put s a) b (g (advance put s a))"
      using s(3) by (intro yields_failD [OF g ready_advance [OF s(1) True] bounded_advance [OF s(2)]])
        (simp_all only: fits_append simp_thms)
    then have "stopped put s (a @ b) (g (advance put s a))"
      by (rule stopped_advance [OF s(1) True])
    then show ?thesis by (simp add: seq_enc_def emits_okD [OF f s(1) True])
  next
    case False
    then have st: "stopped put s a (f s)"
      by (intro yields_failD [OF f s(1) bounded_prefix [OF s(2)]]) simp_all
    then have "seq_enc f g s = f s" by (auto simp: seq_enc_def stopped_def)
    then show ?thesis using stopped_append [OF st] by simp
  qed
qed

lemmas emits_seq [emit_rules] = yields_seq [where good = True]

lemma yields_stop:
  assumes "yields cb ok put f a False"
  shows "yields cb ok put (seq_enc f g) a False"
proof (rule yieldsI)
  fix s assume "ready cb ok s" "bounded s (length a)"
  then have st: "stopped put s a (f s)" by (rule yields_failD [OF assms]) simp
  then have "seq_enc f g s = f s" by (auto simp: seq_enc_def stopped_def)
  then show "stopped put s a (seq_enc f g s)" using st by simp
qed simp

lemma emits_done_Some [emit_rules]: "emit (\<lambda>s. Some (True, s)) []"
  by (rule yieldsI) (simp_all add: advance_nil)

lemma emits_done [emit_rules]: "emit done_enc []"
  by (rule yieldsI) (simp_all add: advance_nil done_enc_def)

lemma stopped_nil: "o_state s' = o_state s \<Longrightarrow> ready cb ok s \<Longrightarrow> stopped put s bs (Some (False, s'))"
  by (auto simp: stopped_def advance_nil intro!: exI [of _ "[]"])

lemma stopped_error [simp]: "ready cb ok s \<Longrightarrow> stopped put s bs (Some (pb_return_oerror s msg))"
  by (simp add: pb_return_oerror_def pb_set_oerror_def stopped_nil)

lemma pb_write_sink:
  assumes "o_callback s = Some cb" "ok (o_state s)" "bs \<noteq> []"
    and "length bs < 2 ^ 64" "take (length bs) buf = bs"
  shows "pb_write s buf (of_nat (length bs)) =
           (if unat (bytes_written s) + length bs \<le> unat (max_size s)
            then (True, advance put s bs) else pb_return_oerror s ''stream full'')"
proof -
  let ?n = "of_nat (length bs) :: u64"
  have un: "unat ?n = length bs" using assms(4) by (simp add: unat_of_nat)
  have full: "(bytes_written s + ?n < bytes_written s \<or> max_size s < bytes_written s + ?n)
      \<longleftrightarrow> unat (max_size s) < unat (bytes_written s) + length bs"
    by (rule add_overflow_or_above [OF un])
  have pos: "0 < ?n"
    using un assms(3) unat_gt_0 [of ?n] by (simp add: word_neq_0_conv)
  show ?thesis
    using assms(1,5) pos accepts [OF assms(2)]
    by (simp add: pb_write_def full un advance_def not_less)
qed

lemma pb_write_emits:
  assumes "length bs < 2 ^ 64" "take (length bs) buf = bs" "n = of_nat (length bs)"
  shows "emit (\<lambda>s. Some (pb_write s buf n)) bs"
proof (rule yieldsI)
  fix s assume r: "ready cb ok s" and fit: "fits s (length bs)"
  consider (sizing) "o_callback s = None"
    | (sink) "o_callback s = Some cb" "ok (o_state s)" using r by (auto simp: ready_def)
  then show "Some (pb_write s buf n) = Some (True, advance put s bs)"
  proof cases
    case sizing
    then show ?thesis by (simp add: pb_write_def advance_def assms(3))
  next
    case sink
    show ?thesis
    proof (cases "bs = []")
      case True
      then show ?thesis
        using sink put_nil [OF sink(2)] by (simp add: pb_write_def advance_def assms(3))
    next
      case False
      then show ?thesis
        using pb_write_sink [OF sink False assms(1,2)] fit sink(1)
        by (simp add: fits_def assms(3))
    qed
  qed
next
  fix s assume r: "ready cb ok s" and full: "\<not> (True \<and> fits s (length bs))"
  then have sink: "o_callback s = Some cb" "ok (o_state s)" "bs \<noteq> []"
    by (auto simp: ready_def fits_def)
  show "stopped put s bs (Some (pb_write s buf n))"
    using pb_write_sink [OF sink assms(1,2)] full r by (simp add: fits_def sink assms(3))
qed

end

text \<open>The sink of \<open>pb_ostream_from_buffer\<close>.\<close>

definition buf_ok :: "'u ostate \<Rightarrow> bool" where
  "buf_ok st \<longleftrightarrow> (\<exists>dest off. st = OutBuf dest off \<and> off \<le> length dest)"

definition buf_put :: "'u ostate \<Rightarrow> bytes \<Rightarrow> 'u ostate" where
  "buf_put st bs = snd (buf_write st bs)"

lemma buf_put_OutBuf [simp]:
  "buf_put (OutBuf dest off) bs =
     OutBuf (take off dest @ bs @ drop (off + length bs) dest) (off + length bs)"
  by (simp add: buf_put_def buf_write_def)

lemma buf_put_append:
  assumes "buf_ok st"
  shows "buf_put (buf_put st a) b = buf_put st (a @ b)"
proof -
  obtain dest off where st: "st = OutBuf dest off" and off: "off \<le> length dest"
    using assms by (auto simp: buf_ok_def)
  have eq: "length b + (off + length a) = off + length (a @ b)" by simp
  show ?thesis
    using off by (simp add: st eq del: length_append) simp
qed

interpretation mem: ostream_sink Buf_write buf_ok buf_put
proof unfold_locales
  show "buf_put (buf_put st a) b = buf_put st (a @ b)" if "buf_ok st" for st :: "'a ostate" and a b
    using that by (rule buf_put_append)
qed (auto simp: buf_ok_def run_ocallback_def buf_put_def buf_write_def)

end
