(* ===== verification/PbWire.thy ===== *)
theory PbWire
  imports PbEmit PbIStream
begin

text \<open>
  The wire format between encoder and decoder: a reference encoding of varints, the
  bytes each primitive encoder of \<open>pb_encode.c\<close> emits, and the round trips through the
  primitive decoders of \<open>pb_decode.c\<close> on any input source that keeps the contract
  \<open>istream_source\<close>.
\<close>

section \<open>The varint encoding\<close>

function varint_enc :: "u64 \<Rightarrow> bytes" where
  "varint_enc v =
     (if v \<le> 0x7F then [ucast v]
      else (ucast (v AND 0x7F) OR 0x80) # varint_enc (drop_bit 7 v))"
  by pat_completeness auto
termination
proof (relation "measure unat", goal_cases)
  case (2 v)
  then have "v \<noteq> 0" by auto
  then show ?case by (simp add: unat_drop_bit_eq drop_bit_nat_less)
qed simp

declare varint_enc.simps [simp del]

lemma le_0x7F_iff: "v \<le> 0x7F \<longleftrightarrow> unat (v :: u64) < 2 ^ 7"
  by (auto simp: word_le_nat_alt)

lemma le_0x7F_drop: "v \<le> 0x7F \<longleftrightarrow> drop_bit 7 (v :: u64) = 0"
  by (simp only: le_0x7F_iff drop_bit_eq_0_iff)

lemma le_0x7F_bit: "v \<le> 0x7F \<Longrightarrow> bit (v :: u64) n \<Longrightarrow> n < 7"
  using bit_bound [of v 7 n] by (simp add: le_0x7F_iff)

lemma varint_enc_small: "v \<le> 0x7F \<Longrightarrow> varint_enc v = [ucast v]"
  by (simp add: varint_enc.simps)

lemma varint_enc_large:
  "\<not> v \<le> 0x7F \<Longrightarrow> varint_enc v = (ucast (v AND 0x7F) OR 0x80) # varint_enc (drop_bit 7 v)"
  by (subst varint_enc.simps) simp

lemma varint_enc_not_Nil [simp]: "varint_enc v \<noteq> []"
  by (subst varint_enc.simps) simp

lemma low7_clear_top: "v \<le> 0x7F \<Longrightarrow> (ucast ((v :: u64) AND 0x7F) OR 0x80) AND 0x7F = (ucast v :: u8)"
  by (rule bit_word_eqI) (auto simp: bit_simps bit_consts dest: le_0x7F_bit)

lemma varint_fill_spec:
  "v \<noteq> 0 \<Longrightarrow> varint_fill v \<noteq> [] \<and>
     (varint_fill v)[length (varint_fill v) - 1 := (varint_fill v ! (length (varint_fill v) - 1)) AND 0x7F]
       = varint_enc v"
proof (induction v rule: varint_fill.induct)
  case (1 v)
  have fill: "varint_fill v = (ucast (v AND 0x7F) OR 0x80) # varint_fill (drop_bit 7 v)"
    using "1.prems" by (subst varint_fill.simps) simp
  show ?case
  proof (cases "drop_bit 7 v = 0")
    case True
    then have le: "v \<le> 0x7F" by (simp add: le_0x7F_drop)
    have "varint_fill v = [ucast (v AND 0x7F) OR 0x80]"
      using fill True by (simp add: varint_fill.simps)
    then show ?thesis by (simp add: varint_enc_small [OF le] low7_clear_top [OF le])
  next
    case False
    then have "\<not> v \<le> 0x7F" by (simp add: le_0x7F_drop)
    moreover obtain k where "length (varint_fill (drop_bit 7 v)) = Suc k"
      using "1.IH" "1.prems" False by (cases "varint_fill (drop_bit 7 v)") auto
    ultimately show ?thesis
      using "1.IH" "1.prems" False fill by (simp add: varint_enc_large)
  qed
qed

lemma length_varint_enc_le:
  "unat v < 2 ^ (7 * Suc k) \<Longrightarrow> length (varint_enc v) \<le> Suc k"
proof (induction k arbitrary: v)
  case 0
  then have "v \<le> 0x7F" by (simp add: word_le_nat_alt)
  then show ?case by (simp add: varint_enc_small)
next
  case (Suc k)
  show ?case
  proof (cases "v \<le> 0x7F")
    case True
    then show ?thesis by (simp add: varint_enc_small)
  next
    case False
    have "unat (drop_bit 7 v) < 2 ^ (7 * Suc k)"
      using Suc.prems by (simp only: unat_drop_bit_div)
        (simp add: less_mult_imp_div_less power_add mult.commute)
    then have "length (varint_enc (drop_bit 7 v)) \<le> Suc k" by (rule Suc.IH)
    then show ?thesis using False by (simp add: varint_enc_large)
  qed
qed

lemma length_varint_enc: "length (varint_enc v) \<le> 10"
  using length_varint_enc_le [of v 9] unat_u64_lt [of v] by simp

section \<open>What the primitive encoders emit\<close>

definition zigzag :: "u64 \<Rightarrow> u64" where
  "zigzag v = (if sint v < 0 then NOT (push_bit 1 v) else push_bit 1 v)"

definition unzigzag :: "u64 \<Rightarrow> u64" where
  "unzigzag v = (if v AND 1 \<noteq> 0 then NOT (drop_bit 1 v) else drop_bit 1 v)"

definition le_bytes :: "nat \<Rightarrow> u64 \<Rightarrow> bytes" where
  "le_bytes n v = map (\<lambda>i. ucast (drop_bit (8 * i) v)) [0..<n]"

definition tag_word :: "u32 \<Rightarrow> u32 \<Rightarrow> u64" where
  "tag_word wiretype field_number = push_bit 3 (ucast field_number) OR ucast wiretype"

lemma length_le_bytes [simp]: "length (le_bytes n v) = n"
  by (simp add: le_bytes_def)

lemma ucast_and_0xFF: "(ucast ((v :: 'a::len word) AND 0xFF) :: u8) = ucast v"
  by (rule bit_word_eqI) (auto simp: bit_simps bit_consts dest: bit_imp_le_length)

context ostream_sink
begin

lemma encode_varint_emits [emit_rules]: "emit (\<lambda>s. Some (pb_encode_varint s v)) (varint_enc v)"
proof (cases "v \<le> 0x7F")
  case True
  have "emit (\<lambda>s. Some (pb_write s [ucast v] 1)) [ucast v]"
    by (rule pb_write_emits) simp_all
  then show ?thesis using True by (simp add: pb_encode_varint_def varint_enc_small)
next
  case False
  then have "v \<noteq> 0" by auto
  then have fill: "varint_fill v \<noteq> []"
    "(varint_fill v)[length (varint_fill v) - 1 :=
       (varint_fill v ! (length (varint_fill v) - 1)) AND 0x7F] = varint_enc v"
    using varint_fill_spec by blast+
  have len: "length (varint_fill v) = length (varint_enc v)"
    using fill(2) by (metis length_list_update)
  have "emit (\<lambda>s. Some (pb_write s (varint_enc v) (of_nat (length (varint_fill v))))) (varint_enc v)"
    by (rule pb_write_emits) (use length_varint_enc [of v] in \<open>simp_all add: len\<close>)
  then show ?thesis using False fill(2) by (simp add: pb_encode_varint_def Let_def)
qed

lemma encode_svarint_emits [emit_rules]:
  "emit (\<lambda>s. Some (pb_encode_svarint s v)) (varint_enc (zigzag v))"
  using encode_varint_emits [of "zigzag v"] by (simp add: pb_encode_svarint_def zigzag_def Let_def)

lemma encode_fixed32_emits [emit_rules]:
  "emit (\<lambda>s. Some (pb_encode_fixed32 s v)) (le_bytes 4 (ucast v))"
proof -
  have "le_bytes 4 (ucast v) =
      [ucast (v AND 0xFF), ucast (drop_bit 8 v AND 0xFF),
       ucast (drop_bit 16 v AND 0xFF), ucast (drop_bit 24 v AND 0xFF)]"
    unfolding ucast_and_0xFF
    by (simp add: le_bytes_def upt_conv_Cons)
       (intro conjI; rule bit_word_eqI; simp add: bit_simps)
  then show ?thesis
    unfolding pb_encode_fixed32_def by (intro pb_write_emits) simp_all
qed

lemma encode_fixed64_emits [emit_rules]:
  "emit (\<lambda>s. Some (pb_encode_fixed64 s v)) (le_bytes 8 v)"
proof -
  have "le_bytes 8 v =
      [ucast (v AND 0xFF), ucast (drop_bit 8 v AND 0xFF),
       ucast (drop_bit 16 v AND 0xFF), ucast (drop_bit 24 v AND 0xFF),
       ucast (drop_bit 32 v AND 0xFF), ucast (drop_bit 40 v AND 0xFF),
       ucast (drop_bit 48 v AND 0xFF), ucast (drop_bit 56 v AND 0xFF)]"
    unfolding ucast_and_0xFF by (simp add: le_bytes_def upt_conv_Cons)
  then show ?thesis
    unfolding pb_encode_fixed64_def by (intro pb_write_emits) simp_all
qed

lemma encode_tag_emits [emit_rules]:
  "emit (\<lambda>s. Some (pb_encode_tag s wt n)) (varint_enc (tag_word wt n))"
  using encode_varint_emits by (simp add: pb_encode_tag_def tag_word_def)

lemma encode_string_emits [emit_rules]:
  assumes "length bs = unat n" "take (unat n) buf = bs"
  shows "emit (\<lambda>s. Some (pb_encode_string s buf n)) (varint_enc n @ bs)"
proof -
  have "emit (seq_enc (\<lambda>s. Some (pb_encode_varint s n)) (\<lambda>s. Some (pb_write s buf n))) (varint_enc n @ bs)"
    by (intro emits_seq encode_varint_emits pb_write_emits) (use assms in simp_all)
  moreover have "seq_enc (\<lambda>s :: 'u pb_ostream. Some (pb_encode_varint s n)) (\<lambda>s. Some (pb_write s buf n)) =
      (\<lambda>s. Some (pb_encode_string s buf n))"
    by (auto simp: fun_eq_iff seq_enc_def pb_encode_string_def split: bool.splits prod.splits)
  ultimately show ?thesis by simp
qed

end

section \<open>Input sources\<close>

text \<open>
  \<open>delivers\<close>: the stream's budget covers exactly \<open>bs\<close>, and its source holds \<open>bs\<close> followed by
  \<open>aft\<close> (what a parent stream sees behind a substream). \<open>takes f bs v\<close>: on every such stream
  \<open>f\<close> consumes \<open>bs\<close>, returns \<open>v\<close> and leaves the rest.
\<close>

definition delivers ::
  "'u icallback \<Rightarrow> ('u istate \<Rightarrow> bytes \<Rightarrow> bool) \<Rightarrow> 'u pb_istream \<Rightarrow> bytes \<Rightarrow> bytes \<Rightarrow> bool" where
  "delivers cb holds s bs aft \<longleftrightarrow>
     i_callback s = cb \<and> holds (i_state s) (bs @ aft) \<and> unat (bytes_left s) = length bs"

definition takes ::
  "'u icallback \<Rightarrow> ('u istate \<Rightarrow> bytes \<Rightarrow> bool) \<Rightarrow> ('u pb_istream \<Rightarrow> ('u pb_istream, 'a) outcome) \<Rightarrow>
     bytes \<Rightarrow> 'a \<Rightarrow> bool" where
  "takes cb holds f bs v \<longleftrightarrow>
     (\<forall>s rest aft. delivers cb holds s (bs @ rest) aft \<longrightarrow>
        (\<exists>s'. f s = (Some v, s') \<and> delivers cb holds s' rest aft \<and> i_errmsg s' = i_errmsg s))"

lemma takesI:
  "(\<And>s rest aft. delivers cb holds s (bs @ rest) aft \<Longrightarrow>
      \<exists>s'. f s = (Some v, s') \<and> delivers cb holds s' rest aft \<and> i_errmsg s' = i_errmsg s)
   \<Longrightarrow> takes cb holds f bs v"
  unfolding takes_def by blast

lemma takesE:
  assumes "takes cb holds f bs v" "delivers cb holds s (bs @ rest) aft"
  obtains s' where "f s = (Some v, s')" "delivers cb holds s' rest aft" "i_errmsg s' = i_errmsg s"
  using assms unfolding takes_def by blast

text \<open>The error propagation \<open>if (!f(stream, &x)) return false; g(x)\<close>.\<close>

lemma takes_then:
  assumes "takes cb holds f a x" "takes cb holds (g x) b v"
  shows "takes cb holds (\<lambda>s. case f s of (None, s') \<Rightarrow> (None, s') | (Some y, s') \<Rightarrow> g y s') (a @ b) v"
proof (rule takesI)
  fix s rest aft assume "delivers cb holds s ((a @ b) @ rest) aft"
  then have "delivers cb holds s (a @ (b @ rest)) aft" by simp
  with assms(1) obtain s1 where s1: "f s = (Some x, s1)" "delivers cb holds s1 (b @ rest) aft"
    "i_errmsg s1 = i_errmsg s" by (rule takesE)
  from assms(2) s1(2) obtain s2 where "g x s1 = (Some v, s2)" "delivers cb holds s2 rest aft"
    "i_errmsg s2 = i_errmsg s1" by (rule takesE)
  with s1 show "\<exists>s'. (case f s of (None, s') \<Rightarrow> (None, s') | (Some y, s') \<Rightarrow> g y s') = (Some v, s') \<and>
      delivers cb holds s' rest aft \<and> i_errmsg s' = i_errmsg s" by simp
qed

lemma takes_return: "takes cb holds (\<lambda>s. (Some v, s)) [] v"
  by (rule takesI) simp

lemma takes_discard: "takes cb holds f bs v \<Longrightarrow> takes cb holds (\<lambda>s. discard (f s)) bs ()"
  unfolding takes_def discard_def by fastforce

locale istream_source =
  fixes cb :: "'u icallback"
    and holds :: "'u istate \<Rightarrow> bytes \<Rightarrow> bool"
  assumes fills: "i_callback s = cb \<Longrightarrow> holds (i_state s) (bs @ rest) \<Longrightarrow> length bs < 2 ^ 64 \<Longrightarrow>
      \<exists>st'. run_icallback s (of_nat (length bs)) = (Some bs, s\<lparr>i_state := st'\<rparr>) \<and> holds st' rest"
begin

abbreviation gets :: "('u pb_istream \<Rightarrow> ('u pb_istream, 'a) outcome) \<Rightarrow> bytes \<Rightarrow> 'a \<Rightarrow> bool" where
  "gets \<equiv> takes cb holds"

lemma read_direct_takes:
  assumes "n = of_nat (length bs)" "length bs < 2 ^ 64"
  shows "gets (\<lambda>s. pb_read_direct s n) bs bs"
proof (rule takesI)
  fix s rest aft assume d: "delivers cb holds s (bs @ rest) aft"
  have un: "unat n = length bs" using assms by (simp add: unat_of_nat)
  have left: "unat (bytes_left s) = length bs + length rest"
    using d by (simp add: delivers_def)
  have "\<exists>st'. run_icallback s (of_nat (length bs)) = (Some bs, s\<lparr>i_state := st'\<rparr>) \<and> holds st' (rest @ aft)"
    by (rule fills) (use d assms(2) in \<open>simp_all add: delivers_def\<close>)
  then obtain st' where st': "run_icallback s n = (Some bs, s\<lparr>i_state := st'\<rparr>)" "holds st' (rest @ aft)"
    using assms(1) by blast
  have "\<not> bytes_left s < n" using un left by (simp add: word_less_nat_alt)
  moreover have "unat (bytes_left s - n) = length rest"
    using un left by (simp add: unat_minus_le word_le_nat_alt)
  ultimately show "\<exists>s'. pb_read_direct s n = (Some bs, s') \<and> delivers cb holds s' rest aft \<and>
      i_errmsg s' = i_errmsg s"
    using st' d by (auto simp: pb_read_direct_def delivers_def)
qed

lemma read_tmp_takes:
  "n = of_nat (length bs) \<Longrightarrow> length bs < 2 ^ 64 \<Longrightarrow> gets (\<lambda>s. pb_read_tmp s n) bs bs"
  using read_direct_takes [of n bs] takes_return [of cb holds "[]"]
  by (cases "bs = []") (auto simp: pb_read_tmp_def word_unat_eq_iff unat_of_nat takes_def)

lemma readbyte_takes [take_rules]: "gets pb_readbyte [b] b"
proof (rule takesI)
  fix s rest aft assume d: "delivers cb holds s ([b] @ rest) aft"
  then have "bytes_left s \<noteq> 0" by (auto simp: delivers_def)
  moreover have "\<not> bytes_left s < 1" using calculation by (simp add: word_less_nat_alt unat_eq_zero)
  moreover have "gets (\<lambda>s. pb_read_direct s 1) [b] [b]" by (rule read_direct_takes) simp_all
  from this d obtain s' where "pb_read_direct s 1 = (Some [b], s')" "delivers cb holds s' rest aft"
    "i_errmsg s' = i_errmsg s" by (rule takesE)
  ultimately show "\<exists>s'. pb_readbyte s = (Some b, s') \<and> delivers cb holds s' rest aft \<and>
      i_errmsg s' = i_errmsg s"
    by (auto simp: pb_readbyte_def pb_read_direct_def pb_return_error_def
        split: option.splits prod.splits if_splits)
qed

lemma read_skip_takes:
  "length bs < 2 ^ 64 \<Longrightarrow> gets (\<lambda>s. discard (pb_read_skip s (of_nat (length bs)))) bs ()"
proof (induction "length bs" arbitrary: bs rule: less_induct)
  case less
  let ?n = "of_nat (length bs) :: u64"
  have un: "unat ?n = length bs" using less.prems by (simp add: unat_of_nat)
  show ?case
  proof (cases "16 < ?n")
    case False
    then have "(\<lambda>s :: 'u pb_istream. discard (pb_read_skip s ?n)) = (\<lambda>s. discard (pb_read_tmp s ?n))"
      by (auto simp: fun_eq_iff pb_read_skip.simps)
    then show ?thesis using read_tmp_takes [of ?n bs] less.prems by (simp add: takes_discard)
  next
    case True
    then have gt: "16 < length bs" using un by (simp add: word_less_nat_alt)
    define a b where "a = take 16 bs" and "b = drop 16 bs"
    have ab: "bs = a @ b" "length a = 16" "length b < length bs"
      using gt by (simp_all add: a_def b_def)
    have nb: "?n - 16 = of_nat (length b)" using gt by (simp add: b_def of_nat_diff)
    have "gets (\<lambda>s. pb_read_tmp s 16) a a" by (rule read_tmp_takes) (simp_all add: ab(2))
    moreover have "gets (\<lambda>s. discard (pb_read_skip s (?n - 16))) b ()"
      unfolding nb by (rule less.hyps) (use ab less.prems in auto)
    ultimately have "gets (\<lambda>s. case pb_read_tmp s 16 of (None, s') \<Rightarrow> (None, s')
        | (Some tmp, s') \<Rightarrow> discard (pb_read_skip s' (?n - 16))) (a @ b) ()"
      by (rule takes_then)
    moreover have "(\<lambda>s :: 'u pb_istream. case pb_read_tmp s 16 of (None, s') \<Rightarrow> (None, s')
        | (Some tmp, s') \<Rightarrow> discard (pb_read_skip s' (?n - 16))) = (\<lambda>s. discard (pb_read_skip s ?n))"
      using True by (subst (2) pb_read_skip.simps)
        (auto simp: fun_eq_iff discard_def split: option.splits prod.splits)
    ultimately show ?thesis using ab(1) by simp
  qed
qed

lemma pb_read_False: "(\<lambda>s :: 'v pb_istream. pb_read s False n) = (\<lambda>s. pb_read_tmp s n)"
  by (simp add: fun_eq_iff pb_read_def pb_read_tmp_def)

lemma read_takes [take_rules]:
  "n = of_nat (length bs) \<Longrightarrow> length bs < 2 ^ 64 \<Longrightarrow> gets (\<lambda>s. pb_read s False n) bs bs"
  using read_tmp_takes [of n bs] by (simp add: pb_read_False)

lemma skip_takes [take_rules]:
  assumes "n = of_nat (length bs)" "length bs < 2 ^ 64"
  shows "gets (\<lambda>s. discard (pb_read s True n)) bs ()"
proof -
  have "(\<lambda>s :: 'u pb_istream. discard (pb_read s True n)) =
      (\<lambda>s. if n \<noteq> 0 \<and> \<not> is_buf_read (i_callback s) then discard (pb_read_skip s n)
           else discard (pb_read_tmp s n))"
    by (simp add: fun_eq_iff pb_read_def pb_read_tmp_def)
  moreover have "takes cb holds (\<lambda>s. discard (pb_read_skip s n)) bs ()"
    "takes cb holds (\<lambda>s. discard (pb_read_tmp s n)) bs ()"
    using assms read_skip_takes takes_discard [OF read_tmp_takes] by simp_all
  ultimately show ?thesis by (simp add: takes_def)
qed

end

text \<open>The source of \<open>pb_istream_from_buffer\<close>.\<close>

definition buf_holds :: "'u istate \<Rightarrow> bytes \<Rightarrow> bool" where
  "buf_holds st bs \<longleftrightarrow> st = BufPtr bs"

interpretation membuf: istream_source Buf_read buf_holds
proof unfold_locales
  fix s :: "'a pb_istream" and bs rest
  assume "i_callback s = Buf_read" "buf_holds (i_state s) (bs @ rest)" "length bs < 2 ^ 64"
  then show "\<exists>st'. run_icallback s (of_nat (length bs)) = (Some bs, s\<lparr>i_state := st'\<rparr>) \<and> buf_holds st' rest"
    by (auto simp: run_icallback_def buf_read_def buf_holds_def Let_def unat_of_nat
        map_nth_upt_take)
qed

section \<open>Varint round trips\<close>

text \<open>The byte of a varint group: its low bits and its continuation flag.\<close>

lemma group_bits:
  "(ucast ((ucast ((w :: u64) AND 0x7F) OR 0x80 :: u8) AND 0x7F) :: 'a::len word) = ucast (w AND 0x7F)"
  by (rule bit_word_eqI) (auto simp: bit_simps bit_consts)

lemma group_flag [simp]: "(x OR 0x80 :: u8) AND 0x80 \<noteq> 0"
  by (simp add: u8_and_0x80_eq_0 bit_simps bit_consts)

lemma last_group_flag [simp]: "w \<le> 0x7F \<Longrightarrow> (ucast (w :: u64) :: u8) AND 0x80 = 0"
  by (auto simp: u8_and_0x80_eq_0 bit_simps dest: le_0x7F_bit)

lemma last_group_bits:
  "w \<le> 0x7F \<Longrightarrow> (ucast ((ucast (w :: u64) :: u8) AND 0x7F) :: 'a::len word) = ucast w"
  by (rule bit_word_eqI) (auto simp: bit_simps bit_consts dest: le_0x7F_bit)

lemma join_groups:
  "push_bit p (ucast ((w :: u64) AND 0x7F)) OR push_bit (p + 7) (ucast (drop_bit 7 w)) =
     (push_bit p (ucast w) :: 'a::len word)"
proof (rule bit_word_eqI)
  fix n assume n: "n < LENGTH('a)"
  show "bit (push_bit p (ucast (w AND 0x7F)) OR push_bit (p + 7) (ucast (drop_bit 7 w)) :: 'a word) n
      \<longleftrightarrow> bit (push_bit p (ucast w) :: 'a word) n"
    using n by (cases "p + 7 \<le> n") (auto simp: bit_simps bit_consts)
qed

lemma join_bytes:
  "push_bit p (ucast (ucast (drop_bit p (v :: u64)) :: u8)) OR push_bit (p + 8) (drop_bit (p + 8) v) =
     push_bit p (drop_bit p v)"
proof (rule bit_word_eqI)
  fix n assume "n < LENGTH(64)"
  then show "bit (push_bit p (ucast (ucast (drop_bit p v) :: u8)) OR
      push_bit (p + 8) (drop_bit (p + 8) v)) n \<longleftrightarrow> bit (push_bit p (drop_bit p v)) n"
    by (cases "p + 8 \<le> n") (auto simp: bit_simps)
qed

lemma bitpos_plus_7: "unat (b :: u8) + 7 < 256 \<Longrightarrow> unat (b + 7) = unat b + 7"
  using unat_add_lem [of b 7] by simp

lemma shift_room:
  assumes "\<not> w \<le> 0x7F" "unat (w :: u64) < 2 ^ (m - p)" "p < m"
  shows "p + 7 < m" "unat (drop_bit 7 w) < 2 ^ (m - (p + 7))"
proof -
  have ge: "2 ^ 7 \<le> unat w" using assms(1) by (simp add: le_0x7F_iff)
  have "7 < m - p"
  proof (rule ccontr)
    assume "\<not> 7 < m - p"
    then have "(2::nat) ^ (m - p) \<le> 2 ^ 7" by (intro power_increasing) simp_all
    then show False using ge assms(2) by linarith
  qed
  then show p: "p + 7 < m" by simp
  then have "m - p = (m - (p + 7)) + 7" by simp
  then have "(2::nat) ^ (m - p) = 2 ^ (m - (p + 7)) * 2 ^ 7"
    by (metis power_add)
  then show "unat (drop_bit 7 w) < 2 ^ (m - (p + 7))"
    using assms(2) by (simp only: unat_drop_bit_div less_mult_imp_div_less)
qed

context istream_source
begin

lemma varint_loop_takes:
  assumes "unat bitpos < 64" "unat w < 2 ^ (64 - unat bitpos)"
  shows "gets (\<lambda>s. varint_loop s bitpos r) (varint_enc w) (r OR push_bit (unat bitpos) w)"
  using assms
proof (induction w arbitrary: bitpos r rule: varint_enc.induct)
  case (1 w)
  define K where "K = (\<lambda>(byte :: u8) (s' :: 'u pb_istream).
      let result' = r OR push_bit (unat bitpos) (ucast (byte AND 0x7F)); bitpos' = bitpos + 7
      in if byte AND 0x80 \<noteq> 0 then varint_loop s' bitpos' result' else (Some result', s'))"
  have unfold: "(\<lambda>s :: 'u pb_istream. varint_loop s bitpos r) =
      (\<lambda>s. case pb_readbyte s of (None, s') \<Rightarrow> (None, s') | (Some byte, s') \<Rightarrow> K byte s')"
    using "1.prems"(1) by (subst varint_loop.simps)
      (auto simp: fun_eq_iff K_def word_le_nat_alt split: prod.splits option.splits)
  show ?case
  proof (cases "w \<le> 0x7F")
    case True
    have "gets (K (ucast w)) [] (r OR push_bit (unat bitpos) w)"
      using takes_return [of cb holds] True by (simp add: K_def last_group_bits)
    from takes_then [where g = K, OF readbyte_takes this] show ?thesis
      by (simp add: unfold varint_enc_small [OF True])
  next
    case False
    let ?b = "ucast (w AND 0x7F) OR 0x80 :: u8"
    note room = shift_room [OF False "1.prems"(2,1)]
    have pos: "unat (bitpos + 7) = unat bitpos + 7"
      by (rule bitpos_plus_7) (use room(1) in simp)
    have "gets (\<lambda>s. varint_loop s (bitpos + 7) (r OR push_bit (unat bitpos) (ucast (w AND 0x7F))))
        (varint_enc (drop_bit 7 w))
        ((r OR push_bit (unat bitpos) (ucast (w AND 0x7F))) OR push_bit (unat (bitpos + 7)) (drop_bit 7 w))"
      by (rule "1.IH") (use False room pos in simp_all)
    then have "gets (K ?b) (varint_enc (drop_bit 7 w)) (r OR push_bit (unat bitpos) w)"
      using join_groups [of "unat bitpos" w, where 'a = 64]
      by (simp add: K_def group_bits pos or.assoc)
    from takes_then [where g = K, OF readbyte_takes this] show ?thesis
      by (simp add: unfold varint_enc_large [OF False])
  qed
qed

lemma decode_varint_takes [take_rules]: "gets pb_decode_varint (varint_enc v) v"
proof -
  have "(pb_decode_varint :: 'u pb_istream \<Rightarrow> _) = (\<lambda>s. varint_loop s 0 0)"
    by (simp add: fun_eq_iff pb_decode_varint_def)
  then show ?thesis using varint_loop_takes [of 0 v 0] unat_u64_lt [of v] by simp
qed

end

lemma top_nibble_clear: "unat (w :: u64) < 2 ^ 4 \<Longrightarrow> (ucast w :: u8) AND 0x70 = 0"
  by (rule bit_word_eqI) (use bit_bound [of w 4] in \<open>force simp: bit_simps bit_consts\<close>)

text \<open>Zigzag.\<close>

lemma sint_neg_bit: "sint (v :: u64) < 0 \<longleftrightarrow> bit v 63"
  by (simp add: sint_uint signed_take_bit_negative_iff bit_simps)

lemma and_1_bit: "(v :: u64) AND 1 \<noteq> 0 \<longleftrightarrow> bit v 0"
  using word_and_eq_0_bit [of v 0] by simp

lemma bit_shift_out_in:
  "bit (drop_bit 1 (push_bit 1 (v :: u64))) n \<longleftrightarrow> n < 63 \<and> bit v n"
  by (simp only: bit_drop_bit_eq bit_push_bit_iff comp_apply) (auto dest: bit_imp_le_length)

lemma bit_shift_out_in_not:
  "bit (NOT (drop_bit 1 (NOT (push_bit 1 (v :: u64))))) n \<longleftrightarrow> n < 64 \<and> (n < 63 \<longrightarrow> bit v n)"
  by (simp only: bit_drop_bit_eq bit_push_bit_iff comp_apply bit_not_iff possible_bit_word) auto

lemma bit_zigzag_0: "bit (zigzag v) 0 \<longleftrightarrow> bit v 63"
  by (simp only: zigzag_def sint_neg_bit if_split_mem1 bit_push_bit_iff bit_not_iff split: if_split)
     simp

lemma unzigzag_zigzag: "unzigzag (zigzag v) = v"
proof (cases "bit v 63")
  case True
  then have "unzigzag (zigzag v) = NOT (drop_bit 1 (NOT (push_bit 1 v)))"
    using bit_zigzag_0 [of v] by (simp only: unzigzag_def and_1_bit zigzag_def sint_neg_bit if_True)
  also have "\<dots> = v"
  proof (rule bit_word_eqI)
    fix n assume "n < LENGTH(64)"
    then have "n < 63 \<or> n = 63" by auto
    then show "bit (NOT (drop_bit 1 (NOT (push_bit 1 v)))) n = bit v n"
      using True by (simp only: bit_shift_out_in_not) auto
  qed
  finally show ?thesis .
next
  case False
  then have "unzigzag (zigzag v) = drop_bit 1 (push_bit 1 v)"
    using bit_zigzag_0 [of v] by (simp only: unzigzag_def and_1_bit zigzag_def sint_neg_bit if_False if_True)
  also have "\<dots> = v"
  proof (rule bit_word_eqI)
    fix n assume "n < LENGTH(64)"
    then have "n < 63 \<or> n = 63" by auto
    then show "bit (drop_bit 1 (push_bit 1 v)) n = bit v n"
      using False by (simp only: bit_shift_out_in) auto
  qed
  finally show ?thesis .
qed

context istream_source
begin

lemma varint32_loop_takes:
  assumes "unat bitpos < 32" "unat w < 2 ^ (32 - unat bitpos)"
  shows "\<exists>byte bp. gets (\<lambda>s. varint32_loop s bitpos r) (varint_enc w)
             (byte, bp, r OR push_bit (unat bitpos) (ucast w)) \<and> (bp = 35 \<longrightarrow> byte AND 0x70 = 0)"
  using assms
proof (induction w arbitrary: bitpos r rule: varint_enc.induct)
  case (1 w)
  define K where "K = (\<lambda>(byte :: u8) (s' :: 'u pb_istream).
      let result' = r OR push_bit (unat bitpos) (ucast (byte AND 0x7F)); bitpos' = bitpos + 7
      in if byte AND 0x80 \<noteq> 0 then varint32_loop s' bitpos' result'
         else (Some (byte, bitpos', result'), s'))"
  have lt: "\<not> 32 \<le> bitpos" using "1.prems"(1) by (simp add: word_le_nat_alt)
  have unfold: "(\<lambda>s :: 'u pb_istream. varint32_loop s bitpos r) =
      (\<lambda>s. case pb_readbyte s of (None, s') \<Rightarrow> (None, s') | (Some byte, s') \<Rightarrow> K byte s')"
    using lt by (subst varint32_loop.simps)
      (auto simp: fun_eq_iff K_def Let_def split: prod.splits option.splits)
  show ?case
  proof (cases "w \<le> 0x7F")
    case True
    have "gets (K (ucast w)) [] (ucast w, bitpos + 7, r OR push_bit (unat bitpos) (ucast w))"
      using takes_return [of cb holds] True by (simp add: K_def last_group_bits)
    from takes_then [where g = K, OF readbyte_takes this]
    have "gets (\<lambda>s. varint32_loop s bitpos r) (varint_enc w)
        (ucast w, bitpos + 7, r OR push_bit (unat bitpos) (ucast w))"
      by (simp add: unfold varint_enc_small [OF True])
    moreover have "bitpos + 7 = 35 \<longrightarrow> (ucast w :: u8) AND 0x70 = 0"
    proof
      assume "bitpos + 7 = 35"
      moreover have "unat (bitpos + 7) = unat bitpos + 7"
        by (rule bitpos_plus_7) (use "1.prems"(1) in simp)
      ultimately have "unat bitpos = 28" by simp
      then show "(ucast w :: u8) AND 0x70 = 0"
        using "1.prems"(2) by (intro top_nibble_clear) simp
    qed
    ultimately show ?thesis by blast
  next
    case False
    let ?b = "ucast (w AND 0x7F) OR 0x80 :: u8"
    let ?r = "r OR push_bit (unat bitpos) (ucast (w AND 0x7F))"
    note room = shift_room [OF False "1.prems"(2,1)]
    have pos: "unat (bitpos + 7) = unat bitpos + 7"
      by (rule bitpos_plus_7) (use room(1) in simp)
    have "\<exists>byte bp. gets (\<lambda>s. varint32_loop s (bitpos + 7) ?r) (varint_enc (drop_bit 7 w))
        (byte, bp, ?r OR push_bit (unat (bitpos + 7)) (ucast (drop_bit 7 w))) \<and>
        (bp = 35 \<longrightarrow> byte AND 0x70 = 0)"
      by (rule "1.IH") (use False room pos in simp_all)
    then obtain byte bp where bp: "bp = 35 \<longrightarrow> byte AND 0x70 = 0"
      and g: "gets (\<lambda>s. varint32_loop s (bitpos + 7) ?r) (varint_enc (drop_bit 7 w))
        (byte, bp, ?r OR push_bit (unat (bitpos + 7)) (ucast (drop_bit 7 w)))" by blast
    have "gets (K ?b) (varint_enc (drop_bit 7 w)) (byte, bp, r OR push_bit (unat bitpos) (ucast w))"
      using g join_groups [of "unat bitpos" w, where 'a = 32]
      by (simp add: K_def group_bits pos or.assoc)
    from takes_then [where g = K, OF readbyte_takes this] bp show ?thesis
      by (auto simp: unfold varint_enc_large [OF False])
  qed
qed

lemma decode_varint32_takes [take_rules]: "gets pb_decode_varint32 (varint_enc (ucast v)) v"
proof -
  define G where "G = (\<lambda>(byte' :: u8, bitpos :: u8, result :: u32) (s' :: 'u pb_istream).
      if bitpos = 35 \<and> byte' AND 0x70 \<noteq> 0
      then pb_return_error s' ''varint overflow'' else (Some result, s'))"
  define K where "K = (\<lambda>(byte :: u8) (s' :: 'u pb_istream).
      if byte AND 0x80 = 0 then (Some (ucast byte :: u32), s')
      else case varint32_loop s' 7 (ucast (byte AND 0x7F)) of
             (None, s'') \<Rightarrow> (None, s'') | (Some x, s'') \<Rightarrow> G x s'')"
  have unfold: "(pb_decode_varint32 :: 'u pb_istream \<Rightarrow> _) =
      (\<lambda>s. case pb_readbyte s of (None, s') \<Rightarrow> (None, s') | (Some byte, s') \<Rightarrow> K byte s')"
    by (auto simp: fun_eq_iff K_def G_def pb_decode_varint32_def pb_decode_varint32_eof_def
        split: prod.splits option.splits)
  let ?w = "ucast v :: u64"
  have un: "unat ?w < 2 ^ 32" by simp
  show ?thesis
  proof (cases "?w \<le> 0x7F")
    case True
    have "(ucast (ucast ?w :: u8) :: u32) = v"
      by (rule bit_word_eqI) (use le_0x7F_bit [OF True] in \<open>force simp: bit_simps\<close>)
    then have "gets (K (ucast ?w)) [] v"
      using takes_return [of cb holds] True by (simp add: K_def)
    from takes_then [where g = K, OF readbyte_takes this] show ?thesis
      by (simp add: unfold varint_enc_small [OF True])
  next
    case False
    let ?b = "ucast (?w AND 0x7F) OR 0x80 :: u8"
    have room: "unat (drop_bit 7 ?w) < 2 ^ 25"
      using shift_room(2) [OF False, of 32 0] un by simp
    have "\<exists>byte bp. gets (\<lambda>s. varint32_loop s 7 (ucast (?w AND 0x7F))) (varint_enc (drop_bit 7 ?w))
        (byte, bp, ucast (?w AND 0x7F) OR push_bit (unat (7::u8)) (ucast (drop_bit 7 ?w))) \<and>
        (bp = 35 \<longrightarrow> byte AND 0x70 = 0)"
      by (rule varint32_loop_takes) (use room in simp_all)
    then obtain byte bp where bp: "bp = 35 \<longrightarrow> byte AND 0x70 = 0"
      and g: "gets (\<lambda>s. varint32_loop s 7 (ucast (?w AND 0x7F))) (varint_enc (drop_bit 7 ?w))
        (byte, bp, ucast (?w AND 0x7F) OR push_bit (unat (7::u8)) (ucast (drop_bit 7 ?w)))" by blast
    have "(ucast ?w :: u32) = v"
      by (rule bit_word_eqI) (auto simp: bit_simps)
    then have val: "ucast (?w AND 0x7F) OR push_bit (unat (7::u8)) (ucast (drop_bit 7 ?w)) = v"
      using join_groups [of 0 ?w, where 'a = 32] by simp
    have "G (byte, bp, v) = (\<lambda>s. (Some v, s))"
      using bp by (auto simp: G_def fun_eq_iff)
    then have ret: "gets (G (byte, bp, v)) [] v" by (simp only: takes_return)
    have "gets (K ?b) (varint_enc (drop_bit 7 ?w)) v"
      using takes_then [where g = G, OF g [unfolded val] ret] by (simp add: K_def group_bits)
    from takes_then [where g = K, OF readbyte_takes this] show ?thesis
      by (simp add: unfold varint_enc_large [OF False])
  qed
qed

lemma decode_svarint_takes [take_rules]: "gets pb_decode_svarint (varint_enc (zigzag v)) v"
proof -
  have "(pb_decode_svarint :: 'u pb_istream \<Rightarrow> _) =
      (\<lambda>s. case pb_decode_varint s of (None, s') \<Rightarrow> (None, s') | (Some x, s') \<Rightarrow> (Some (unzigzag x), s'))"
    by (auto simp: fun_eq_iff pb_decode_svarint_def unzigzag_def split: option.splits prod.splits)
  then show ?thesis
    using takes_then [OF decode_varint_takes [of "zigzag v"],
        where g = "\<lambda>x s. (Some (unzigzag x), s)", OF takes_return]
    by (simp add: unzigzag_zigzag)
qed

lemma decode_fixed32_takes [take_rules]: "gets pb_decode_fixed32 (le_bytes 4 (ucast v)) v"
proof -
  define J where "J = (\<lambda>b :: bytes. push_bit 0 (ucast (b ! 0)) OR push_bit 8 (ucast (b ! 1)) OR
      push_bit 16 (ucast (b ! 2)) OR push_bit 24 (ucast (b ! 3)) :: u32)"
  have J: "J (le_bytes 4 (ucast v)) = v"
    by (rule bit_word_eqI) (auto simp: J_def le_bytes_def bit_simps not_le)
  have "(pb_decode_fixed32 :: 'u pb_istream \<Rightarrow> _) =
      (\<lambda>s. case pb_read s False 4 of (None, s') \<Rightarrow> (None, s') | (Some b, s') \<Rightarrow> (Some (J b), s'))"
    by (auto simp: fun_eq_iff pb_decode_fixed32_def J_def split: option.splits prod.splits)
  moreover have "gets (\<lambda>s. pb_read s False 4) (le_bytes 4 (ucast v)) (le_bytes 4 (ucast v))"
    by (rule read_takes) simp_all
  ultimately show ?thesis
    using takes_then [where g = "\<lambda>b s. (Some (J b), s)", OF _ takes_return] J by fastforce
qed

lemma decode_fixed64_takes [take_rules]: "gets pb_decode_fixed64 (le_bytes 8 v) v"
proof -
  define J where "J = (\<lambda>b :: bytes. push_bit 0 (ucast (b ! 0)) OR push_bit 8 (ucast (b ! 1)) OR
      push_bit 16 (ucast (b ! 2)) OR push_bit 24 (ucast (b ! 3)) OR push_bit 32 (ucast (b ! 4)) OR
      push_bit 40 (ucast (b ! 5)) OR push_bit 48 (ucast (b ! 6)) OR push_bit 56 (ucast (b ! 7)) :: u64)"
  have top: "push_bit 56 (ucast (ucast (drop_bit 56 v) :: u8)) = push_bit 56 (drop_bit 56 v)"
    by (rule bit_word_eqI) (auto simp: bit_simps)
  have J: "J (le_bytes 8 v) = v"
    using join_bytes [of 0 v] join_bytes [of 8 v] join_bytes [of 16 v] join_bytes [of 24 v]
      join_bytes [of 32 v] join_bytes [of 40 v] join_bytes [of 48 v]
    by (simp add: J_def le_bytes_def top)
  have "(pb_decode_fixed64 :: 'u pb_istream \<Rightarrow> _) =
      (\<lambda>s. case pb_read s False 8 of (None, s') \<Rightarrow> (None, s') | (Some b, s') \<Rightarrow> (Some (J b), s'))"
    by (auto simp: fun_eq_iff pb_decode_fixed64_def J_def split: option.splits prod.splits)
  moreover have "gets (\<lambda>s. pb_read s False 8) (le_bytes 8 v) (le_bytes 8 v)"
    by (rule read_takes) simp_all
  ultimately show ?thesis
    using takes_then [where g = "\<lambda>b s. (Some (J b), s)", OF _ takes_return] J by fastforce
qed

end

end
