(* ===== verification/PbStreamProps.thy ===== *)
theory PbStreamProps
  imports PbWire
begin

text \<open>
  The properties of nanopb's streams: tags, skipping and substreams on any conforming input
  source, the encode/decode round trips on memory buffers, and the two places where the 32-bit
  varint decoder is laxer than it means to be.
\<close>

section \<open>Payloads\<close>

text \<open>Any encoding of a varint, minimal or not: continuation flags up to the last byte.\<close>

definition is_varint :: "bytes \<Rightarrow> bool" where
  "is_varint bs \<longleftrightarrow>
     bs \<noteq> [] \<and> (\<forall>b \<in> set (butlast bs). b AND 0x80 \<noteq> 0) \<and> last bs AND 0x80 = 0"

text \<open>The bytes that follow a tag with the given wire type.\<close>

inductive payload :: "u32 \<Rightarrow> bytes \<Rightarrow> bool" where
  pay_varint: "is_varint bs \<Longrightarrow> length bs < 2 ^ 64 \<Longrightarrow> payload PB_WT_VARINT bs"
| pay_64: "length bs = 8 \<Longrightarrow> payload PB_WT_64BIT bs"
| pay_32: "length bs = 4 \<Longrightarrow> payload PB_WT_32BIT bs"
| pay_string: "length bs < 2 ^ 32 \<Longrightarrow>
     payload PB_WT_STRING (varint_enc (of_nat (length bs)) @ bs)"

lemma is_varint_Cons:
  "is_varint (b # bs) \<longleftrightarrow> (if bs = [] then b AND 0x80 = 0 else b AND 0x80 \<noteq> 0 \<and> is_varint bs)"
  by (auto simp: is_varint_def)

lemma varint_enc_is_varint: "is_varint (varint_enc v)"
proof (induction v rule: varint_enc.induct)
  case (1 v)
  then show ?case
    by (cases "v \<le> 0x7F") (simp_all add: varint_enc_small varint_enc_large is_varint_Cons)
qed

lemma tag_word_bound:
  assumes "unat wt < 8" "unat n < 2 ^ 29"
  shows "tag_word wt n = ucast (push_bit 3 n OR wt)" "(push_bit 3 n OR wt) AND 7 = wt"
    "drop_bit 3 (push_bit 3 n OR wt) = n"
proof -
  have w: "k < 3" if "bit wt k" for k using bit_bound [of wt 3 k] assms(1) that by simp
  have n: "k < 29" if "bit n k" for k using bit_bound [of n 29 k] assms(2) that by simp
  show "tag_word wt n = ucast (push_bit 3 n OR wt)" "(push_bit 3 n OR wt) AND 7 = wt"
    "drop_bit 3 (push_bit 3 n OR wt) = n"
    by (rule bit_word_eqI; fastforce simp: tag_word_def bit_simps bit_consts dest: w n)+
qed

context istream_source
begin

lemma skip_varint_takes [take_rules]:
  "is_varint bs \<Longrightarrow> gets pb_skip_varint bs ()"
proof (induction bs)
  case Nil
  then show ?case by (simp add: is_varint_def)
next
  case (Cons b bs)
  define K where "K = (\<lambda>(buf :: bytes) (s' :: 'u pb_istream).
      if (buf ! 0) AND 0x80 \<noteq> 0 then pb_skip_varint s' else (Some (), s'))"
  have unfold: "(pb_skip_varint :: 'u pb_istream \<Rightarrow> _) =
      (\<lambda>s. case pb_read s False 1 of (None, s') \<Rightarrow> (None, s') | (Some x, s') \<Rightarrow> K x s')"
    by (rule ext, subst pb_skip_varint.simps) (auto simp: K_def split: prod.splits option.splits)
  have rd: "gets (\<lambda>s. pb_read s False 1) [b] [b]" by (rule read_takes) simp_all
  have "gets (K [b]) bs ()"
  proof (cases "bs = []")
    case True
    then have "K [b] = (\<lambda>s. (Some (), s))"
      using Cons.prems by (simp add: K_def is_varint_Cons fun_eq_iff)
    then show ?thesis using True by (simp only: takes_return)
  next
    case False
    then show ?thesis using Cons by (simp add: K_def is_varint_Cons)
  qed
  from takes_then [where g = K, OF rd this] show ?case by (subst unfold) simp
qed

lemma skip_string_takes [take_rules]:
  assumes "length bs < 2 ^ 32"
  shows "gets pb_skip_string (varint_enc (of_nat (length bs)) @ bs) ()"
proof -
  let ?n = "of_nat (length bs) :: u32"
  have n: "(ucast ?n :: u64) = of_nat (length bs)"
    using assms by (simp add: word_unat_eq_iff unat_of_nat)
  have "(pb_skip_string :: 'u pb_istream \<Rightarrow> _) =
      (\<lambda>s. case pb_decode_varint32 s of (None, s') \<Rightarrow> (None, s')
           | (Some x, s') \<Rightarrow> discard (pb_read s' True (ucast x)))"
    by (simp add: fun_eq_iff pb_skip_string_def)
  moreover have "gets (\<lambda>s. discard (pb_read s True (ucast ?n))) bs ()"
    by (rule skip_takes) (use assms in \<open>simp_all add: n\<close>)
  ultimately show ?thesis
    using takes_then [where g = "\<lambda>x s. discard (pb_read s True (ucast x))",
        OF decode_varint32_takes [of ?n]] n by simp
qed

lemma skip_field_takes:
  assumes "payload wt bs"
  shows "gets (\<lambda>s. pb_skip_field s wt) bs ()"
  using assms
proof cases
  case pay_varint
  then show ?thesis using skip_varint_takes by (simp add: pb_skip_field_def)
next
  case pay_64
  then show ?thesis using skip_takes [of 8 bs] by (simp add: pb_skip_field_def)
next
  case pay_32
  then show ?thesis using skip_takes [of 4 bs] by (simp add: pb_skip_field_def)
next
  case (pay_string b)
  then show ?thesis using skip_string_takes [of b] by (simp add: pb_skip_field_def)
qed

lemma decode_tag_takes:
  assumes "unat wt < 8" "unat n < 2 ^ 29" "n \<noteq> 0"
    and "delivers cb holds s (varint_enc (tag_word wt n) @ rest) aft"
  shows "\<exists>s'. pb_decode_tag s = ((True, wt, n, False), s') \<and> delivers cb holds s' rest aft \<and>
           i_errmsg s' = i_errmsg s"
proof -
  let ?t = "push_bit 3 n OR wt"
  note tw = tag_word_bound [OF assms(1,2)]
  have "delivers cb holds s (varint_enc (ucast ?t) @ rest) aft" using assms(4) tw by simp
  with decode_varint32_takes obtain s' where s': "pb_decode_varint32 s = (Some ?t, s')"
    "delivers cb holds s' rest aft" "i_errmsg s' = i_errmsg s" by (rule takesE)
  have "?t \<noteq> 0" using tw assms(3) by auto
  moreover have "pb_decode_varint32_eof s = (False, (Some ?t, s'))"
    using s'(1) by (auto simp: pb_decode_varint32_def pb_decode_varint32_eof_def
        split: option.splits prod.splits)
  ultimately show ?thesis using s' tw by (simp add: pb_decode_tag_def)
qed

lemma make_substream_takes:
  assumes "length bs < 2 ^ 32"
    and "delivers cb holds s (varint_enc (of_nat (length bs)) @ bs @ rest) aft"
  shows "\<exists>s' sub. pb_make_string_substream s = (Some sub, s') \<and>
           delivers cb holds sub bs (rest @ aft) \<and> unat (bytes_left s') = length rest \<and>
           i_callback s' = cb \<and> i_errmsg sub = i_errmsg s \<and> i_errmsg s' = i_errmsg s"
proof -
  let ?n = "of_nat (length bs) :: u32"
  have n: "(ucast ?n :: u64) = of_nat (length bs)" "unat (ucast ?n :: u64) = length bs"
    using assms(1) by (simp_all add: word_unat_eq_iff unat_of_nat)
  have "delivers cb holds s (varint_enc (ucast ?n) @ (bs @ rest)) aft" using assms(2) n by simp
  with decode_varint32_takes obtain s1 where s1: "pb_decode_varint32 s = (Some ?n, s1)"
    "delivers cb holds s1 (bs @ rest) aft" "i_errmsg s1 = i_errmsg s" by (rule takesE)
  have left: "unat (bytes_left s1) = length bs + length rest" using s1(2) by (simp add: delivers_def)
  then have "\<not> bytes_left s1 < ucast ?n" using n(2) by (simp add: word_less_nat_alt)
  moreover have "unat (bytes_left s1 - ucast ?n) = length rest"
    using left n(2) by (simp add: unat_minus_le word_le_nat_alt)
  ultimately show ?thesis
    using s1 n by (auto simp: pb_make_string_substream_def delivers_def)
qed

lemma close_substream_takes:
  assumes "delivers cb holds sub left (rest @ aft)" "i_callback s = cb"
    and "unat (bytes_left s) = length rest" "length left < 2 ^ 64"
  shows "\<exists>s'. pb_close_string_substream s sub = (Some (), s') \<and> delivers cb holds s' rest aft \<and>
           i_errmsg s' = i_errmsg sub"
proof -
  have left: "unat (bytes_left sub) = length left" using assms(1) by (simp add: delivers_def)
  have n: "bytes_left sub = of_nat (length left)" by (rule word_eq_of_natI) (rule left)
  have "gets (\<lambda>s. discard (pb_read s True (bytes_left sub))) left ()"
    by (rule skip_takes) (use n assms(4) in simp_all)
  moreover have "delivers cb holds sub (left @ []) (rest @ aft)" using assms(1) by simp
  ultimately obtain sub' where "discard (pb_read sub True (bytes_left sub)) = (Some (), sub')"
    "delivers cb holds sub' [] (rest @ aft)" "i_errmsg sub' = i_errmsg sub" by (rule takesE)
  then show ?thesis
    using assms(1-3) left
    by (cases "bytes_left sub = 0") (auto simp: pb_close_string_substream_def delivers_def)
qed

end

section \<open>Round trips through memory\<close>

text \<open>
  An encoder step on a fresh buffer stream, then a decoder on the bytes it wrote: \<open>out\<close> is
  the buffer afterwards, \<open>n\<close> the number of bytes written.
\<close>

definition written_and_read ::
  "bytes \<Rightarrow> (unit pb_ostream \<Rightarrow> bool \<times> unit pb_ostream) \<Rightarrow>
     (unit pb_istream \<Rightarrow> (unit pb_istream, 'a) outcome) \<Rightarrow> nat \<Rightarrow> 'a \<Rightarrow> bool" where
  "written_and_read dest f g n v \<longleftrightarrow>
     (\<exists>s out s'. f (pb_ostream_from_buffer dest (of_nat (length dest))) = (True, s) \<and>
        o_state s = OutBuf out n \<and> bytes_written s = of_nat n \<and>
        length out = length dest \<and> drop n out = drop n dest \<and>
        g (pb_istream_from_buffer out (of_nat n)) = (Some v, s') \<and> bytes_left s' = 0)"

lemma written_and_readI:
  assumes "mem.emit (\<lambda>s. Some (f s)) bs" "membuf.gets g bs v"
    and "length bs \<le> length dest" "length dest < 2 ^ 64"
  shows "written_and_read dest f g (length bs) v"
proof -
  let ?o = "pb_ostream_from_buffer dest (of_nat (length dest)) :: unit pb_ostream"
  let ?out = "bs @ drop (length bs) dest"
  have "ready Buf_write buf_ok ?o" "fits ?o (length bs)"
    using assms(3,4) by (simp_all add: ready_def fits_def pb_ostream_from_buffer_def buf_ok_def unat_of_nat)
  then have "Some (f ?o) = Some (True, advance buf_put ?o bs)"
    by (rule emits_okD [OF assms(1)])
  then have f: "f ?o = (True, advance buf_put ?o bs)" by simp
  have "delivers Buf_read buf_holds (pb_istream_from_buffer ?out (of_nat (length bs))) (bs @ [])
      (drop (length bs) dest)"
    using assms(3,4) by (simp add: delivers_def pb_istream_from_buffer_def buf_holds_def unat_of_nat)
  with assms(2) obtain s' where g: "g (pb_istream_from_buffer ?out (of_nat (length bs))) = (Some v, s')"
    and d: "delivers Buf_read buf_holds s' [] (drop (length bs) dest)" by (rule takesE)
  have "bytes_left s' = 0" using d by (simp add: delivers_def unat_eq_zero)
  then show ?thesis
    unfolding written_and_read_def
    using f g assms(3)
    by (intro exI [of _ "advance buf_put ?o bs"] exI [of _ ?out] exI [of _ s'])
       (simp add: advance_def pb_ostream_from_buffer_def)
qed

text \<open>C18. Every 64-bit value written by \<open>pb_encode_varint\<close> into a buffer of at least ten
  bytes is read back unchanged by \<open>pb_decode_varint\<close>; between one and ten bytes are written,
  the rest of the buffer is untouched and the decoder consumes exactly the bytes written.\<close>

theorem varint_roundtrip:
  assumes "10 \<le> length dest" "length dest < 2 ^ 64"
  shows "\<exists>n. 1 \<le> n \<and> n \<le> 10 \<and>
           written_and_read dest (\<lambda>s. pb_encode_varint s v) pb_decode_varint n v"
  using written_and_readI [OF mem.encode_varint_emits membuf.decode_varint_takes, of v dest]
    assms length_varint_enc [of v] varint_enc_not_Nil [of v]
  by (intro exI [of _ "length (varint_enc v)"]) (auto simp: Suc_le_eq)

theorem varint_roundtrip_witness:
  "\<exists>n. 1 \<le> n \<and> n \<le> 10 \<and>
     written_and_read (replicate 10 0) (\<lambda>s. pb_encode_varint s 300) pb_decode_varint n 300"
  by (rule varint_roundtrip) simp_all

text \<open>Every \<open>int64_t\<close>, negative values included, survives the zigzag encoding of
  \<open>pb_encode_svarint\<close> and the decoding of \<open>pb_decode_svarint\<close>, in at most ten bytes.\<close>

lemma svarint_roundtrip:
  assumes "10 \<le> length dest" "length dest < 2 ^ 64"
  shows "\<exists>n \<le> 10. written_and_read dest (\<lambda>s. pb_encode_svarint s v) pb_decode_svarint n v"
  using written_and_readI [OF mem.encode_svarint_emits membuf.decode_svarint_takes, of v dest]
    assms length_varint_enc [of "zigzag v"]
  by (intro exI [of _ "length (varint_enc (zigzag v))"]) auto

lemma svarint_roundtrip_instance:
  "\<exists>n \<le> 10. written_and_read (replicate 10 0) (\<lambda>s. pb_encode_svarint s (- 3)) pb_decode_svarint n (- 3)"
  by (rule svarint_roundtrip) simp_all

text \<open>\<open>pb_encode_fixed32\<close> and \<open>pb_encode_fixed64\<close> write exactly four and eight bytes
  that \<open>pb_decode_fixed32\<close> and \<open>pb_decode_fixed64\<close> read back as the same word.\<close>

lemma fixed_roundtrip:
  assumes "8 \<le> length dest" "length dest < 2 ^ 64"
  shows "written_and_read dest (\<lambda>s. pb_encode_fixed32 s v) pb_decode_fixed32 4 v \<and>
         written_and_read dest (\<lambda>s. pb_encode_fixed64 s w) pb_decode_fixed64 8 w"
  using written_and_readI [OF mem.encode_fixed32_emits membuf.decode_fixed32_takes, of v dest]
    written_and_readI [OF mem.encode_fixed64_emits membuf.decode_fixed64_takes, of w dest] assms
  by simp

lemma fixed_roundtrip_instance:
  "written_and_read (replicate 8 7) (\<lambda>s. pb_encode_fixed32 s 0x01020304) pb_decode_fixed32 4 0x01020304 \<and>
   written_and_read (replicate 8 7) (\<lambda>s. pb_encode_fixed64 s 5) pb_decode_fixed64 8 5"
  by (rule fixed_roundtrip) simp_all

section \<open>Records on a buffer\<close>

text \<open>
  A memory stream over all of \<open>bs\<close>.
\<close>

definition on_bytes :: "bytes \<Rightarrow> unit pb_istream" where
  "on_bytes bs = pb_istream_from_buffer bs (of_nat (length bs))"

lemma on_bytes_delivers:
  "length bs < 2 ^ 64 \<Longrightarrow> delivers Buf_read buf_holds (on_bytes bs) bs []"
  by (simp add: on_bytes_def delivers_def pb_istream_from_buffer_def buf_holds_def unat_of_nat)

text \<open>C19. A field of any wire type is skipped exactly: from a stream that starts with the
  tag of field \<open>num\<close> and a payload of wire type \<open>wt\<close> (a varint in any, also non-minimal, form;
  four or eight bytes; a length and that many bytes), \<open>pb_decode_tag\<close> returns the field number
  and wire type, and \<open>pb_skip_field\<close> then leaves the stream at the first byte behind the
  payload with the budget reduced by the record's length.\<close>

theorem tag_then_skip:
  assumes "payload wt pay" "0 < unat num" "unat num < 2 ^ 29"
    and "rec = varint_enc (tag_word wt num) @ pay" "length (rec @ rest) < 2 ^ 64"
  shows "\<exists>s1 s2. pb_decode_tag (on_bytes (rec @ rest)) = ((True, wt, num, False), s1) \<and>
           pb_skip_field s1 wt = (Some (), s2) \<and>
           i_state s2 = BufPtr rest \<and> bytes_left s2 = of_nat (length rest) \<and> i_errmsg s2 = None"
proof -
  let ?s = "on_bytes (rec @ rest)"
  have d: "delivers Buf_read buf_holds ?s (varint_enc (tag_word wt num) @ (pay @ rest)) []"
    using on_bytes_delivers [of "rec @ rest"] assms(4,5) by simp
  have "unat wt < 8" using assms(1) by cases simp_all
  moreover have "num \<noteq> 0" using assms(2) by auto
  ultimately obtain s1 where s1: "pb_decode_tag ?s = ((True, wt, num, False), s1)"
    "delivers Buf_read buf_holds s1 (pay @ rest) []" "i_errmsg s1 = i_errmsg ?s"
    using membuf.decode_tag_takes [OF _ assms(3) _ d] by blast
  from membuf.skip_field_takes [OF assms(1)] s1(2) obtain s2
    where s2: "pb_skip_field s1 wt = (Some (), s2)" "delivers Buf_read buf_holds s2 rest []"
      "i_errmsg s2 = i_errmsg s1" by (rule takesE)
  have "i_state s2 = BufPtr rest" "bytes_left s2 = of_nat (length rest)"
    using s2(2) by (auto simp: delivers_def buf_holds_def intro: word_eq_of_natI)
  then show ?thesis
    using s1 s2 by (simp add: on_bytes_def pb_istream_from_buffer_def)
qed

theorem tag_then_skip_witness:
  "\<exists>s1 s2. pb_decode_tag (on_bytes [0x12, 2, 65, 66, 9]) = ((True, 2, 2, False), s1) \<and>
     pb_skip_field s1 2 = (Some (), s2) \<and> i_state s2 = BufPtr [9] \<and> bytes_left s2 = 1"
proof -
  have t: "varint_enc (tag_word 2 2) = [0x12]"
    by (simp add: tag_word_def varint_enc_small)
  have l: "varint_enc (of_nat (length [65, 66 :: u8])) = [2]"
    by (simp add: varint_enc_small)
  have "payload 2 ([2] @ [65, 66])"
    using pay_string [of "[65, 66]"] l by simp
  from tag_then_skip [OF this, of 2 "[0x12, 2, 65, 66]" "[9]"] t show ?thesis
    by auto
qed

text \<open>C20. A length-delimited field bounds what its reader can consume: after
  \<open>pb_make_string_substream\<close> on a field of \<open>bs\<close> the substream ends with \<open>bs\<close>, and
  \<open>pb_close_string_substream\<close>, applied to whatever suffix \<open>left\<close> of \<open>bs\<close> the reader has not
  consumed, leaves the parent at the first byte behind the field, with the substream's error
  message.\<close>

theorem substream_brackets_field:
  assumes "length bs < 2 ^ 32" "length (len @ bs @ rest) < 2 ^ 64"
    and "len = varint_enc (of_nat (length bs))" "bs = seen @ left"
  shows "\<exists>s1 sub. pb_make_string_substream (on_bytes (len @ bs @ rest)) = (Some sub, s1) \<and>
           i_state sub = BufPtr (bs @ rest) \<and> bytes_left sub = of_nat (length bs) \<and>
           (\<exists>s2. pb_close_string_substream s1
                   (sub\<lparr>i_state := BufPtr (left @ rest), bytes_left := of_nat (length left), i_errmsg := e\<rparr>)
                 = (Some (), s2) \<and>
               i_state s2 = BufPtr rest \<and> bytes_left s2 = of_nat (length rest) \<and> i_errmsg s2 = e)"
proof -
  let ?s = "on_bytes (len @ bs @ rest)"
  have "delivers Buf_read buf_holds ?s (varint_enc (of_nat (length bs)) @ bs @ rest) []"
    using on_bytes_delivers [of "len @ bs @ rest"] assms(2,3) by simp
  from membuf.make_substream_takes [OF assms(1) this] obtain s1 sub
    where mk: "pb_make_string_substream ?s = (Some sub, s1)"
      "delivers Buf_read buf_holds sub bs (rest @ [])" "unat (bytes_left s1) = length rest"
      "i_callback s1 = Buf_read" by blast
  let ?sub = "sub\<lparr>i_state := BufPtr (left @ rest), bytes_left := of_nat (length left), i_errmsg := e\<rparr>"
  have small: "length left < 2 ^ 64" using assms(1,4) by simp
  have "delivers Buf_read buf_holds ?sub left (rest @ [])"
    using mk(2) small by (simp add: delivers_def buf_holds_def unat_of_nat)
  from membuf.close_substream_takes [OF this mk(4) mk(3) small] obtain s2
    where cl: "pb_close_string_substream s1 ?sub = (Some (), s2)"
      "delivers Buf_read buf_holds s2 rest []" "i_errmsg s2 = e" by auto
  show ?thesis
    using mk(1,2) cl by (auto simp: delivers_def buf_holds_def intro: word_eq_of_natI)
qed

theorem substream_brackets_field_witness:
  "\<exists>s1 sub. pb_make_string_substream (on_bytes ([2] @ [65, 66] @ [9])) = (Some sub, s1) \<and>
     i_state sub = BufPtr ([65, 66] @ [9]) \<and> bytes_left sub = of_nat (length [65 :: u8, 66]) \<and>
     (\<exists>s2. pb_close_string_substream s1
             (sub\<lparr>i_state := BufPtr ([66] @ [9]), bytes_left := of_nat (length [66 :: u8]), i_errmsg := None\<rparr>)
           = (Some (), s2) \<and>
         i_state s2 = BufPtr [9] \<and> bytes_left s2 = of_nat (length [9 :: u8]) \<and> i_errmsg s2 = None)"
  by (rule substream_brackets_field [where seen = "[65]"]) (simp_all add: varint_enc_small)

section \<open>Buffer safety\<close>

text \<open>
  \<open>advanced s s'\<close>: both are buffer streams, and the pointer of \<open>s'\<close> is the pointer of \<open>s\<close>
  moved over as many bytes as its budget has shrunk by.
\<close>

definition advanced :: "'u pb_istream \<Rightarrow> 'u pb_istream \<Rightarrow> bool" where
  "advanced s s' \<longleftrightarrow>
     i_callback s = Buf_read \<and> i_callback s' = Buf_read \<and>
     (\<exists>p k. i_state s = BufPtr p \<and> unat (bytes_left s) \<le> length p \<and> k \<le> unat (bytes_left s) \<and>
        i_state s' = BufPtr (drop k p) \<and> unat (bytes_left s') = unat (bytes_left s) - k)"

text \<open>A memory stream whose budget lies inside its buffer.\<close>

definition buffer_stream :: "'u pb_istream \<Rightarrow> bool" where
  "buffer_stream s \<longleftrightarrow> i_callback s = Buf_read \<and>
     (\<exists>p. i_state s = BufPtr p \<and> unat (bytes_left s) \<le> length p)"

lemma advanced_refl: "buffer_stream s \<Longrightarrow> advanced s s"
  by (force simp: advanced_def buffer_stream_def intro: exI [of _ 0])

lemma advanced_trans [trans]: "advanced s t \<Longrightarrow> advanced t u \<Longrightarrow> advanced s u"
  unfolding advanced_def by (force simp: drop_drop intro: exI [of _ "k + k'" for k k'])

lemma advanced_buffer: "advanced s t \<Longrightarrow> buffer_stream t"
  by (auto simp: advanced_def buffer_stream_def)

lemma advanced_errmsg [simp]: "advanced s (pb_set_error t m) \<longleftrightarrow> advanced s t"
  by (simp add: advanced_def pb_set_error_def)

lemma advanced_read:
  assumes "buffer_stream s" "n \<le> bytes_left s"
  shows "\<exists>bs s'. run_icallback s n = (Some bs, s') \<and> length bs = unat n \<and>
           advanced s (s'\<lparr>bytes_left := bytes_left s' - n\<rparr>)"
proof -
  obtain p where p: "i_callback s = Buf_read" "i_state s = BufPtr p" "unat (bytes_left s) \<le> length p"
    using assms(1) by (auto simp: buffer_stream_def)
  have "unat (bytes_left s - n) = unat (bytes_left s) - unat n"
    using assms(2) by (rule unat_minus_le)
  moreover have "unat n \<le> unat (bytes_left s)" using assms(2) by (simp add: word_le_nat_alt)
  ultimately show ?thesis
    using p by (auto simp: run_icallback_def buf_read_def Let_def advanced_def)
qed

lemma read_direct_adv: "buffer_stream s \<Longrightarrow> advanced s (snd (pb_read_direct s n))"
  using advanced_read [of s n] advanced_refl [of s]
  by (auto simp: pb_read_direct_def pb_return_error_def not_less)

lemma readbyte_adv: "buffer_stream s \<Longrightarrow> advanced s (snd (pb_readbyte s))"
  using advanced_read [of s 1] advanced_refl [of s]
  by (auto simp: pb_readbyte_def pb_return_error_def word_le_nat_alt Suc_le_eq)

lemma read_adv: "buffer_stream s \<Longrightarrow> advanced s (snd (pb_read s null n))"
  using read_direct_adv [of s n] advanced_refl [of s]
  by (auto simp: pb_read_def is_buf_read_def buffer_stream_def)

text \<open>The step rule for \<open>if (!f(stream, &x)) return false; g(x)\<close>.\<close>

lemma adv_then:
  assumes "advanced s (snd (f s))" "\<And>x s'. f s = (Some x, s') \<Longrightarrow> buffer_stream s' \<Longrightarrow> advanced s' (snd (g x s'))"
  shows "advanced s (snd (case f s of (None, s') \<Rightarrow> (None, s') | (Some x, s') \<Rightarrow> g x s'))"
proof (cases "f s")
  case (Pair r s')
  then show ?thesis
    using assms(1) assms(2) [of _ s'] advanced_buffer [of s s'] advanced_trans [of s s']
    by (cases r) auto
qed

lemma varint_loop_adv: "buffer_stream s \<Longrightarrow> advanced s (snd (varint_loop s b r))"
proof (induction s b r rule: varint_loop.induct)
  case (1 s b r)
  show ?case
  proof (cases "64 \<le> b")
    case True
    then show ?thesis
      using advanced_refl [OF "1.prems"] by (subst varint_loop.simps) (simp add: pb_return_error_def)
  next
    case False
    then show ?thesis
      by (subst varint_loop.simps, simp only: if_False, intro adv_then readbyte_adv "1.prems")
         (auto simp: Let_def intro: advanced_refl "1.IH" [OF False _ _ refl refl])
  qed
qed

lemma varint32_loop_adv: "buffer_stream s \<Longrightarrow> advanced s (snd (varint32_loop s b r))"
proof (induction s b r rule: varint32_loop.induct)
  case (1 s b r)
  show ?case
    by (subst varint32_loop.simps, intro adv_then readbyte_adv "1.prems")
       (auto simp: Let_def pb_return_error_def intro: advanced_refl "1.IH" [OF _ _ refl])
qed


lemma decode_varint_adv: "buffer_stream s \<Longrightarrow> advanced s (snd (pb_decode_varint s))"
  by (simp add: pb_decode_varint_def varint_loop_adv)

lemma decode_varint32_eof_adv: "buffer_stream s \<Longrightarrow> advanced s (snd (snd (pb_decode_varint32_eof s)))"
proof -
  assume s: "buffer_stream s"
  define K where "K = (\<lambda>(byte :: u8) (s' :: 'a pb_istream).
      if byte AND 0x80 = 0 then (Some (ucast byte :: u32), s')
      else case varint32_loop s' 7 (ucast (byte AND 0x7F)) of
             (None, s'') \<Rightarrow> (None, s'')
           | (Some x, s'') \<Rightarrow>
               (if fst (snd x) = 35 \<and> fst x AND 0x70 \<noteq> 0
                then pb_return_error s'' ''varint overflow'' else (Some (snd (snd x)), s'')))"
  have "snd (pb_decode_varint32_eof s) =
      (case pb_readbyte s of (None, s') \<Rightarrow> (None, s') | (Some b, s') \<Rightarrow> K b s')"
    by (auto simp: pb_decode_varint32_eof_def K_def split: prod.splits option.splits)
  moreover have "advanced s' (snd (K b s'))" if "buffer_stream s'" for b s'
  proof (cases "b AND 0x80 = 0")
    case True
    then show ?thesis using that by (simp add: K_def advanced_refl)
  next
    case False
    then show ?thesis
      unfolding K_def using that
      by (simp only: if_False, intro adv_then varint32_loop_adv)
         (auto simp: pb_return_error_def advanced_refl)
  qed
  ultimately show "advanced s (snd (snd (pb_decode_varint32_eof s)))"
    using adv_then [where f = pb_readbyte and g = K, OF readbyte_adv [OF s]] by simp
qed

lemma decode_varint32_adv: "buffer_stream s \<Longrightarrow> advanced s (snd (pb_decode_varint32 s))"
  by (simp add: pb_decode_varint32_def decode_varint32_eof_adv)

lemma snd_discard [simp]: "snd (discard r) = snd r"
  by (simp add: discard_def)

lemma skip_varint_adv: "buffer_stream s \<Longrightarrow> advanced s (snd (pb_skip_varint s))"
proof (induction s rule: pb_skip_varint.induct)
  case (1 s)
  show ?case
    by (subst pb_skip_varint.simps, intro adv_then read_adv "1.prems")
       (auto intro: advanced_refl "1.IH" [OF sym])
qed

lemma skip_string_adv: "buffer_stream s \<Longrightarrow> advanced s (snd (pb_skip_string s))"
  unfolding pb_skip_string_def
  by (intro adv_then decode_varint32_adv) (simp_all add: read_adv)

lemma skip_field_adv: "buffer_stream s \<Longrightarrow> advanced s (snd (pb_skip_field s wt))"
  by (auto simp: pb_skip_field_def pb_return_error_def skip_varint_adv skip_string_adv read_adv
      advanced_refl)

lemma raw_varint_loop_adv: "buffer_stream s \<Longrightarrow> advanced s (snd (raw_varint_loop s n m a))"
proof (induction s n m a rule: raw_varint_loop.induct)
  case (1 s n m a)
  show ?case
  proof (cases "m < n + 1")
    case True
    then show ?thesis using advanced_refl [OF "1.prems"] by (subst raw_varint_loop.simps) simp
  next
    case False
    then show ?thesis
      by (subst raw_varint_loop.simps, simp only: Let_def if_False, intro adv_then read_adv "1.prems")
         (auto intro: advanced_refl "1.IH" [OF refl False sym])
  qed
qed

lemma decode_tag_adv: "buffer_stream s \<Longrightarrow> advanced s (snd (pb_decode_tag s))"
  using decode_varint32_eof_adv [of s]
  by (auto simp: pb_decode_tag_def split: prod.splits option.splits)

text \<open>C5. Memory safety on arbitrary input: on a buffer stream whose budget lies inside its
  buffer, every reader of \<open>pb_decode.c\<close> (raw reads, single bytes, varints of both widths, tags,
  skipping, raw values) ends, whether it succeeds or fails, in a state whose pointer has moved
  over exactly the bytes taken from the budget, never more than the budget; so the pointer stays
  inside the buffer and pointer and budget stay in step.\<close>

theorem readers_stay_in_buffer:
  assumes "buffer_stream s"
  shows "advanced s (snd (pb_read s null n)) \<and> advanced s (snd (pb_readbyte s)) \<and>
         advanced s (snd (pb_decode_varint s)) \<and> advanced s (snd (pb_decode_varint32 s)) \<and>
         advanced s (snd (pb_decode_tag s)) \<and> advanced s (snd (pb_skip_field s wt)) \<and>
         advanced s (snd (read_raw_value s wt m))"
  using assms
  by (simp add: read_adv readbyte_adv decode_varint_adv decode_varint32_adv decode_tag_adv
      skip_field_adv read_raw_value_def raw_varint_loop_adv pb_return_error_def advanced_refl)

theorem readers_stay_in_buffer_witness:
  "advanced (on_bytes [0xFF, 0xFF]) (snd (pb_decode_varint (on_bytes [0xFF, 0xFF])))"
proof -
  have "buffer_stream (on_bytes [0xFF, 0xFF])"
    by (simp add: buffer_stream_def on_bytes_def pb_istream_from_buffer_def)
  from readers_stay_in_buffer [OF this] show ?thesis by blast
qed

section \<open>The 32-bit decoder on over-long input\<close>

text \<open>\<open>pb_decode_varint32\<close> means to reject values beyond 32 bits, but checks the bits above
  bit 31 in the fifth byte only when that byte is the last. The six bytes
  \<open>80 80 80 80 90 00\<close> encode \<open>2 ^ 32\<close> (the 64-bit decoder returns that value) and are accepted as
  0, while the five-byte form of the same number is rejected with "varint overflow".\<close>

lemma varint32_drops_high_bits:
  "fst (pb_decode_varint (on_bytes [0x80, 0x80, 0x80, 0x80, 0x90, 0x00])) = Some 0x100000000 \<and>
   fst (pb_decode_varint32 (on_bytes [0x80, 0x80, 0x80, 0x80, 0x90, 0x00])) = Some 0 \<and>
   fst (pb_decode_varint32 (on_bytes [0x80, 0x80, 0x80, 0x80, 0x10])) = None"
  by code_simp

text \<open>The position counter of \<open>pb_decode_varint32\<close> has eight bits and wraps: the 38 bytes
  \<open>81\<close>, 36 times \<open>80\<close>, \<open>7F\<close> are far longer than any varint, and the last byte is stored again at
  bit 3, so that the call succeeds with 1017; \<open>pb_decode_varint\<close> rejects the same bytes.\<close>

lemma varint32_position_wraps:
  "fst (pb_decode_varint32 (on_bytes (0x81 # replicate 36 0x80 @ [0x7F]))) = Some 1017 \<and>
   fst (pb_decode_varint (on_bytes (0x81 # replicate 36 0x80 @ [0x7F]))) = None"
  by code_simp

end
