(* ===== verification/PbEncodeProps.thy ===== *)
theory PbEncodeProps
  imports PbWire
begin

text \<open>
  The message encoder as a whole. Every step of \<open>pb_encode\<close> is \<open>steady\<close>: what it writes does
  not depend on the stream, so the sizing pass and the writing pass agree and a write stops
  inside the message it announces. The depth bound of the model is monotone, and enough for
  descriptors that do not nest in a cycle.
\<close>

section \<open>Steady steps\<close>

text \<open>User callbacks are asked to behave alike in the sizing pass and in the writing pass.\<close>

definition steady_callbacks ::
  "'u ocallback \<Rightarrow> ('u ostate \<Rightarrow> bool) \<Rightarrow> ('u ostate \<Rightarrow> bytes \<Rightarrow> 'u ostate) \<Rightarrow> 'u enc_env \<Rightarrow> bool" where
  "steady_callbacks cb ok put env \<longleftrightarrow>
     (\<forall>fn field a. \<exists>bs good. yields cb ok put (\<lambda>s. Some (enc_cb env fn s field a)) bs good) \<and>
     (\<forall>fn e. \<exists>bs good. yields cb ok put (\<lambda>s. Some (ext_cb env fn s e)) bs good)"

lemma iter_all_seq:
  "iter_all step it = seq_enc (step it)
     (\<lambda>s. case pb_field_iter_next it of (True, it') \<Rightarrow> iter_all step it' s | (False, it') \<Rightarrow> Some (True, s))"
  by (rule ext, subst iter_all.simps) (simp add: seq_enc_def)

context ostream_sink
begin

abbreviation stdy :: "'u enc_step \<Rightarrow> bool" where
  "stdy \<equiv> steady cb ok put"

lemma steadyI: "yields cb ok put f bs good \<Longrightarrow> stdy f"
  unfolding steady_def by blast

lemma steady_none: "stdy (\<lambda>s. None)"
  by (simp add: steady_def)

lemma fail_yields: "yields cb ok put (fail_enc msg) [] False"
  by (rule yieldsI) (simp_all add: fail_enc_def)

lemma steady_fail: "stdy (fail_enc msg)"
  by (rule steadyI [OF fail_yields])

lemma steady_done: "stdy done_enc" "stdy (\<lambda>s. Some (True, s))"
  by (rule steadyI emits_done emits_done_Some)+

lemma seq_sizing:
  "emit f a \<Longrightarrow> o_callback s = None \<Longrightarrow> o_errmsg s = None \<Longrightarrow>
   seq_enc f g s = g (advance put s a)"
  using emits_okD [of cb ok put f a s] by (simp add: seq_enc_def ready_def fits_def)

lemma steady_seq:
  assumes "stdy f" "stdy g"
  shows "stdy (seq_enc f g)"
proof -
  consider (emits) a where "emit f a" | (stops) a where "yields cb ok put f a False"
    | (nothing) "\<forall>s. o_callback s = None \<longrightarrow> o_errmsg s = None \<longrightarrow> f s = None"
  proof (cases "\<exists>bs good. yields cb ok put f bs good")
    case True
    then obtain bs good where "yields cb ok put f bs good" by blast
    then show ?thesis using that(1,2) by (cases good) auto
  next
    case False
    then show ?thesis using that(3) assms(1) unfolding steady_def by blast
  qed
  then show ?thesis
  proof cases
    case emits
    show ?thesis
    proof (cases "\<exists>bs good. yields cb ok put g bs good")
      case True
      then show ?thesis using yields_seq [OF emits] steadyI by blast
    next
      case False
      then have "\<forall>s. o_callback s = None \<longrightarrow> o_errmsg s = None \<longrightarrow> g s = None" using assms(2) by (auto simp: steady_def)
      then show ?thesis by (simp add: steady_def seq_sizing [OF emits])
    qed
  next
    case stops
    then show ?thesis by (rule steadyI [OF yields_stop])
  next
    case nothing
    then show ?thesis by (simp add: steady_def seq_enc_def)
  qed
qed

lemma steady_if: "(b \<Longrightarrow> stdy f) \<Longrightarrow> (\<not> b \<Longrightarrow> stdy g) \<Longrightarrow> stdy (if b then f else g)"
  by simp

lemma steady_if_app:
  "(b \<Longrightarrow> stdy f) \<Longrightarrow> (\<not> b \<Longrightarrow> stdy g) \<Longrightarrow> stdy (\<lambda>s. if b then f s else g s)"
  by (cases b) simp_all

lemma steady_option:
  "(\<And>i. x = Some i \<Longrightarrow> stdy (f i)) \<Longrightarrow> stdy (\<lambda>s. case x of None \<Rightarrow> None | Some i \<Rightarrow> f i s)"
  by (cases x) (simp_all add: steady_none)

lemma steady_next:
  "(\<And>i. r = (True, i) \<Longrightarrow> stdy (f i)) \<Longrightarrow> stdy (\<lambda>s. case r of (True, i) \<Rightarrow> f i s | (False, i) \<Rightarrow> Some (True, s))"
  by (cases r; cases "fst r") (simp_all add: steady_done)

lemma lift_eq: "lift_enc f = (\<lambda>s. Some (f s))"
  by (simp add: lift_enc_def fun_eq_iff)

lemma steady_tag: "stdy (lift_enc (\<lambda>s. pb_encode_tag s wt n))"
  unfolding lift_eq by (rule steadyI [OF encode_tag_emits])

lemma steady_tag_for_field: "stdy (lift_enc (\<lambda>s. pb_encode_tag_for_field s field))"
proof (cases "wiretype_of_ltype (PB_LTYPE (f_type field))")
  case None
  then show ?thesis
    using steady_fail [of "''invalid field type''"]
    by (simp add: lift_eq pb_encode_tag_for_field_def fail_enc_def [abs_def])
next
  case (Some wt)
  then show ?thesis using steady_tag by (simp add: lift_eq pb_encode_tag_for_field_def)
qed

lemma steady_string:
  "length buf = unat n \<Longrightarrow> stdy (lift_enc (\<lambda>s. pb_encode_string s buf n))"
  unfolding lift_eq by (rule steadyI [OF encode_string_emits]) simp_all

lemma steady_scalars:
  "stdy (lift_enc (\<lambda>s. pb_encode_varint s v))" "stdy (lift_enc (\<lambda>s. pb_encode_svarint s v))"
  "stdy (lift_enc (\<lambda>s. pb_encode_fixed32 s w))" "stdy (lift_enc (\<lambda>s. pb_encode_fixed64 s v))"
  unfolding lift_eq
  by (rule steadyI [OF encode_varint_emits] steadyI [OF encode_svarint_emits]
      steadyI [OF encode_fixed32_emits] steadyI [OF encode_fixed64_emits])+

lemma steady_basic_encoders:
  "stdy (pb_enc_bool env field src)" "stdy (pb_enc_varint env field src)"
  "stdy (pb_enc_uvarint env field src)" "stdy (pb_enc_svarint env field src)"
  "stdy (pb_enc_fixed32 env field src)" "stdy (pb_enc_fixed64 env field src)"
  "stdy (pb_enc_bytes env field src)" "stdy (pb_enc_string env field src)"
  "stdy (pb_enc_fixed_length_bytes env field src)"
  by (auto simp: pb_enc_bool_def pb_enc_varint_def pb_enc_uvarint_def pb_enc_svarint_def
      pb_enc_fixed32_def pb_enc_fixed64_def pb_enc_bytes_def pb_enc_string_def Let_def
      pb_enc_fixed_length_bytes_def steady_scalars steady_fail split: option.splits
      intro!: steady_string)

section \<open>Submessages\<close>

text \<open>A submessage is its length and then its bytes, whatever the stream.\<close>

lemma sizing_ready: "ready cb ok PB_OSTREAM_SIZING" "fits PB_OSTREAM_SIZING n"
  "bounded PB_OSTREAM_SIZING n"
  by (simp_all add: ready_def fits_def bounded_def PB_OSTREAM_SIZING_def)

lemma sizing_emits:
  "emit f bs \<Longrightarrow> f PB_OSTREAM_SIZING = Some (True, advance put PB_OSTREAM_SIZING bs)"
  by (rule emits_okD [OF _ sizing_ready(1,2)])

lemma sizing_written: "bytes_written (advance put PB_OSTREAM_SIZING bs) = of_nat (length bs)"
  by (simp add: bytes_written_advance PB_OSTREAM_SIZING_def)


lemma submessage_body_emits:
  assumes e: "emit f bs"
  shows "emit (\<lambda>s1. if o_callback s1 = None then Some (pb_write s1 [] (of_nat (length bs)))
               else if max_size s1 < bytes_written s1 + of_nat (length bs)
                    then Some (pb_return_oerror s1 ''stream full'')
               else
                 (case f \<lparr>o_callback = o_callback s1, o_state = o_state s1,
                          max_size = of_nat (length bs), bytes_written = 0, o_errmsg = None\<rparr> of
                    None \<Rightarrow> None
                  | Some (status, sub2) \<Rightarrow>
                      (let s2 = s1\<lparr>bytes_written := bytes_written s1 + bytes_written sub2,
                                  o_state := o_state sub2, o_errmsg := o_errmsg sub2\<rparr>
                       in if bytes_written sub2 \<noteq> of_nat (length bs)
                          then Some (pb_return_oerror s2 ''submsg size changed'')
                          else Some (status, s2)))) bs"
    (is "emit ?body bs")
proof -
  let ?n = "of_nat (length bs) :: u64"
  have full: "max_size s < bytes_written s + ?n \<longleftrightarrow> \<not> fits s (length bs)"
    if "ready cb ok s" "bounded s (length bs)" "o_callback s \<noteq> None" "bs \<noteq> []" for s :: "'u pb_ostream"
  proof -
    have "unat ?n = length bs" using that by (simp add: bounded_def unat_of_nat)
    then have "unat (bytes_written s + ?n) = unat (bytes_written s) + length bs"
      using that by (simp add: bounded_def unat_word_ariths)
    then show ?thesis using that by (simp add: fits_def word_less_nat_alt not_le)
  qed
  show ?thesis
  proof (rule yieldsI)
    fix s assume s: "ready cb ok s" "bounded s (length bs)" "fits s (length bs)"
    show "?body s = Some (True, advance put s bs)"
    proof (cases "o_callback s = None")
      case True
      then show ?thesis by (simp add: pb_write_def advance_def)
    next
      case False
      let ?sub = "\<lparr>o_callback = o_callback s, o_state = o_state s, max_size = ?n,
                   bytes_written = 0, o_errmsg = None\<rparr>"
      have "unat ?n = length bs" using s(2) False by (simp add: bounded_def unat_of_nat)
      then have "f ?sub = Some (True, advance put ?sub bs)"
        using s(1) False by (intro emits_okD [OF e]) (auto simp: ready_def fits_def)
      moreover have "\<not> max_size s < bytes_written s + ?n"
        using full [OF s(1,2) False] s(1,3) False by (cases "bs = []") (auto simp: ready_def)
      ultimately show ?thesis
        using s(1) False by (simp add: advance_def ready_def)
    qed
  next
    fix s assume s: "ready cb ok s" "bounded s (length bs)" "\<not> (True \<and> fits s (length bs))"
    then have "o_callback s \<noteq> None" "bs \<noteq> []" by (auto simp: fits_def)
    then show "stopped put s bs (?body s)"
      using s full [OF s(1,2)] by auto
  qed
qed

lemma submessage_yields:
  assumes e: "yields cb ok put (enc fs src) bs good"
  shows "yields cb ok put (pb_encode_submessage enc fs src)
           (if good then varint_enc (of_nat (length bs)) @ bs else []) good"
proof (cases good)
  case True
  then have e: "emit (enc fs src) bs" using e by simp
  show ?thesis
    using yields_seq [OF encode_varint_emits [of "of_nat (length bs)"] submessage_body_emits [OF e]] True
    by (simp add: pb_encode_submessage_def [abs_def] sizing_emits [OF e] sizing_written Let_def
        seq_enc_def [abs_def] cong: if_cong prod.case_cong bool.case_cong option.case_cong)
next
  case False
  then have "stopped put PB_OSTREAM_SIZING bs (enc fs src PB_OSTREAM_SIZING)"
    using yields_failD [OF e sizing_ready(1,3)] by simp
  then show ?thesis
    using False by (intro yieldsI) (auto simp: stopped_def pb_encode_submessage_def advance_nil)
qed

lemma steady_submessage: "stdy (enc fs src) \<Longrightarrow> stdy (pb_encode_submessage enc fs src)"
  unfolding steady_def
proof (elim disjE exE)
  assume n: "\<forall>s. o_callback s = None \<longrightarrow> o_errmsg s = None \<longrightarrow> enc fs src s = None"
  then have "enc fs src PB_OSTREAM_SIZING = None" by (simp add: PB_OSTREAM_SIZING_def)
  then show "(\<exists>bs good. yields cb ok put (pb_encode_submessage enc fs src) bs good) \<or>
      (\<forall>s. o_callback s = None \<longrightarrow> o_errmsg s = None \<longrightarrow> pb_encode_submessage enc fs src s = None)"
    by (simp add: pb_encode_submessage_def)
qed (blast dest: submessage_yields)

lemma steady_encoder:
  assumes "\<And>fs src. stdy (enc fs src)"
  shows "stdy (pb_encoder enc env field src)"
  by (simp add: pb_encoder_def Let_def steady_basic_encoders pb_enc_submessage_def steady_fail
      steady_submessage [OF assms] steady_none)

section \<open>Arrays\<close>

lemma steady_array_loop:
  assumes "\<And>p. stdy (f p)"
  shows "stdy (array_loop f p step n)"
proof (induction n arbitrary: p)
  case 0
  have "array_loop f p step 0 = (\<lambda>s. Some (True, s))" by (simp add: fun_eq_iff)
  then show ?case by (simp add: steady_done)
next
  case (Suc n)
  have "array_loop f p step (Suc n) = seq_enc (f p) (array_loop f (p + step) step n)"
    by (simp add: fun_eq_iff)
  then show ?case using steady_seq [OF assms Suc.IH] by simp
qed

text \<open>Items of a fixed size, as in a packed array of fixed-width numbers.\<close>

lemma array_loop_emits_fixed:
  assumes "\<And>p. \<exists>bs. emit (f p) bs \<and> length bs = k"
  shows "\<exists>bs. emit (array_loop f p step n) bs \<and> length bs = k * n"
proof (induction n arbitrary: p)
  case 0
  have "array_loop f p step 0 = (\<lambda>s. Some (True, s))" by (simp add: fun_eq_iff)
  then show ?case using emits_done_Some by (intro exI [of _ "[]"]) simp
next
  case (Suc n)
  obtain a where a: "emit (f p) a" "length a = k" using assms by blast
  obtain b where b: "emit (array_loop f (p + step) step n) b" "length b = k * n"
    using Suc.IH by blast
  have "array_loop f p step (Suc n) = seq_enc (f p) (array_loop f (p + step) step n)"
    by (simp add: fun_eq_iff)
  then show ?case using emits_seq [OF a(1) b(1)] a(2) b(2) by (intro exI [of _ "a @ b"]) simp
qed

lemma packed_items:
  assumes "emit (array_loop f p step n) bs" "sz = of_nat (length bs)"
  shows "emit (\<lambda>s. if o_callback s = None then Some (pb_write s [] sz)
                   else array_loop f p step n s) bs"
proof (rule yieldsI)
  fix s assume "ready cb ok s" "fits s (length bs)"
  then show "(if o_callback s = None then Some (pb_write s [] sz) else array_loop f p step n s) =
      Some (True, advance put s bs)"
    using emits_okD [OF assms(1)] by (simp add: pb_write_def advance_def assms(2))
next
  fix s assume "ready cb ok s" "bounded s (length bs)" "\<not> (True \<and> fits s (length bs))"
  then show "stopped put s bs (if o_callback s = None then Some (pb_write s [] sz)
      else array_loop f p step n s)"
    using yields_failD [OF assms(1)] by (auto simp: fits_def)
qed

lemma steady_packed_body:
  assumes "emit (array_loop f p step n) bs" "sz = of_nat (length bs)"
  shows "stdy (\<lambda>s. seq_enc (lift_enc (\<lambda>s. pb_encode_varint s sz))
                 (\<lambda>s. if o_callback s = None then Some (pb_write s [] sz)
                      else array_loop f p step n s) s)"
  using steady_seq [OF steady_scalars(1) steadyI [OF packed_items [OF assms]]]
  by simp

lemma steady_packed:
  assumes f: "\<And>p. stdy (f p)"
    and f32: "\<And>p. PB_LTYPE (f_type field) = PB_LTYPE_FIXED32 \<Longrightarrow> \<exists>bs. emit (f p) bs \<and> length bs = 4"
    and f64: "\<And>p. PB_LTYPE (f_type field) = PB_LTYPE_FIXED64 \<Longrightarrow> \<exists>bs. emit (f p) bs \<and> length bs = 8"
  shows "stdy (encode_packed f field p count)"
proof -
  let ?step = "ucast (data_size field) :: u64" and ?n = "unat count"
  let ?loop = "array_loop f p ?step ?n"
  let ?size = "packed_size f field p count"
  have fixed: "\<exists>bs. emit ?loop bs \<and> of_nat k * count = of_nat (length bs)"
    if "\<And>p. \<exists>bs. emit (f p) bs \<and> length bs = k" for k
  proof -
    have "\<exists>bs. emit ?loop bs \<and> length bs = k * ?n"
      by (rule array_loop_emits_fixed [OF that])
    then obtain bs where "emit ?loop bs" "length bs = k * ?n" by blast
    then show ?thesis by (intro exI [of _ bs]) simp
  qed
  consider (ok) bs where "?size = Some (True, of_nat (length bs))" "emit ?loop bs"
    | (bad) sz where "?size = Some (False, sz)" | (nothing) "?size = None"
  proof -
    consider (w4) "PB_LTYPE (f_type field) = PB_LTYPE_FIXED32"
      | (w8) "PB_LTYPE (f_type field) = PB_LTYPE_FIXED64"
      | (varying) "PB_LTYPE (f_type field) \<noteq> PB_LTYPE_FIXED32" "PB_LTYPE (f_type field) \<noteq> PB_LTYPE_FIXED64"
      by blast
    then show ?thesis
    proof cases
      case w4
      then obtain bs where "emit ?loop bs" "of_nat 4 * count = of_nat (length bs)"
        using fixed [of 4] f32 by blast
      then show ?thesis using w4 that(1) by (simp add: packed_size_def)
    next
      case w8
      then obtain bs where "emit ?loop bs" "of_nat 8 * count = of_nat (length bs)"
        using fixed [of 8] f64 by blast
      then show ?thesis using w8 that(1) by (simp add: packed_size_def)
    next
      case varying
      then have sz: "?size = map_option (\<lambda>(ok, sizestream). (ok, bytes_written sizestream))
          (?loop PB_OSTREAM_SIZING)"
        by (simp add: packed_size_def)
      show ?thesis
      proof (cases "?loop PB_OSTREAM_SIZING")
        case None
        then show ?thesis using sz that(3) by simp
      next
        case (Some r)
        then obtain bs good where y: "yields cb ok put ?loop bs good"
          using steady_array_loop [of f p ?step ?n, OF f]
          by (auto simp: steady_def PB_OSTREAM_SIZING_def)
        show ?thesis
        proof (cases good)
          case True
          then have e: "emit ?loop bs" using y by simp
          show ?thesis using sz e that(1) by (simp add: sizing_emits [OF e] sizing_written)
        next
          case False
          then have "stopped put PB_OSTREAM_SIZING bs (?loop PB_OSTREAM_SIZING)"
            using yields_failD [OF y sizing_ready(1,3)] by simp
          then show ?thesis using sz that(2) by (auto simp: stopped_def)
        qed
      qed
    qed
  qed
  then have "stdy (\<lambda>s. case ?size of None \<Rightarrow> None | Some (False, sz) \<Rightarrow> Some (False, s)
      | Some (True, sz) \<Rightarrow> seq_enc (lift_enc (\<lambda>s. pb_encode_varint s sz))
          (\<lambda>s. if o_callback s = None then Some (pb_write s [] sz) else ?loop s) s)"
  proof cases
    case ok
    then show ?thesis using steady_packed_body [OF ok(2) refl] by simp
  next
    case bad
    have "yields cb ok put (\<lambda>s. Some (False, s)) [] False"
      by (rule yieldsI) (simp_all add: stopped_nil)
    then show ?thesis using bad by (simp add: steadyI)
  next
    case nothing
    then show ?thesis by (simp add: steady_none)
  qed
  then show ?thesis
    unfolding encode_packed_def by (rule steady_seq [OF steady_tag])
qed

lemma steady_array:
  assumes e: "\<And>fs src. stdy (enc fs src)"
  shows "stdy (encode_array env field p count (pb_encoder enc env field))"
proof -
  let ?f = "pb_encoder enc env field"
  have f: "stdy (?f p)" for p by (rule steady_encoder [OF e])
  have w4: "\<exists>bs. emit (?f p) bs \<and> length bs = 4" if "PB_LTYPE (f_type field) = PB_LTYPE_FIXED32" for p
    using that encode_fixed32_emits
    by (auto simp: pb_encoder_def pb_enc_fixed32_def lift_eq intro!: exI [of _ "le_bytes 4 _"])
  have w8: "\<exists>bs. emit (?f p) bs \<and> length bs = 8" if "PB_LTYPE (f_type field) = PB_LTYPE_FIXED64" for p
    using that encode_fixed64_emits
    by (auto simp: pb_encoder_def pb_enc_fixed64_def lift_eq intro!: exI [of _ "le_bytes 8 _"])
  have item: "stdy (encode_unpacked_item env ?f field p)" for p
    unfolding encode_unpacked_item_def by (intro steady_seq steady_tag_for_field steady_if f)
  show ?thesis
    unfolding encode_array_def
    by (intro steady_if steady_done steady_fail steady_packed steady_array_loop item f w4 w8)
qed

section \<open>Fields and messages\<close>

lemma steady_basic_field:
  assumes e: "\<And>fs src. stdy (enc fs src)"
  shows "stdy (encode_basic_field chk enc env field p)"
proof -
  have one: "stdy (seq_enc (lift_enc (\<lambda>s. pb_encode_tag_for_field s field)) (pb_encoder enc env field q))"
    for q by (intro steady_seq steady_tag_for_field steady_encoder e)
  show ?thesis
    unfolding encode_basic_field_def Let_def
    by (intro steady_option steady_if_app one steady_array e steady_fail steady_done)
qed

lemma steady_callback_field:
  assumes "steady_callbacks cb ok put env"
  shows "stdy (encode_callback_field env field p)"
proof (cases "load64 (mem env) p = 0")
  case True
  then show ?thesis by (simp add: encode_callback_field_def [abs_def] steady_done)
next
  case False
  let ?fn = "load64 (mem env) p"
  obtain bs good where y: "yields cb ok put (\<lambda>s. Some (enc_cb env ?fn s field (p + 8))) bs good"
    using assms unfolding steady_callbacks_def by blast
  have eq: "encode_callback_field env field p s =
      (case enc_cb env ?fn s field (p + 8) of (False, s') \<Rightarrow> Some (pb_return_oerror s' ''callback error'')
       | (True, s') \<Rightarrow> Some (True, s'))" for s
    using False by (simp add: encode_callback_field_def)
  have "yields cb ok put (encode_callback_field env field p) bs good"
  proof (rule yieldsI)
    fix s assume "ready cb ok s" "good" "fits s (length bs)"
    then have "Some (enc_cb env ?fn s field (p + 8)) = Some (True, advance put s bs)"
      using y emits_okD [of cb ok put "\<lambda>s. Some (enc_cb env ?fn s field (p + 8))" bs s] by simp
    then show "encode_callback_field env field p s = Some (True, advance put s bs)" by (simp add: eq)
  next
    fix s assume "ready cb ok s" "bounded s (length bs)" "\<not> (good \<and> fits s (length bs))"
    then have "stopped put s bs (Some (enc_cb env ?fn s field (p + 8)))" by (rule yields_failD [OF y])
    then show "stopped put s bs (encode_callback_field env field p s)"
      by (auto simp: eq stopped_def pb_return_oerror_def pb_set_oerror_def)
  qed
  then show ?thesis by (rule steadyI)
qed

lemma steady_field:
  assumes "\<And>fs src. stdy (enc fs src)" "steady_callbacks cb ok put env"
  shows "stdy (encode_field chk enc env field p)"
  unfolding encode_field_def Let_def
  by (intro steady_if steady_basic_field steady_callback_field steady_fail assms)

lemma steady_extension_loop:
  assumes e: "\<And>fs src. stdy (enc fs src)" and c: "steady_callbacks cb ok put env"
  shows "stdy (extension_loop fuel chk enc env x)"
proof (induction fuel arbitrary: x)
  case 0
  have "extension_loop 0 chk enc env x = (if x = 0 then (\<lambda>s. Some (True, s)) else (\<lambda>s. None))"
    by (simp add: fun_eq_iff)
  then show ?case by (simp add: steady_done steady_none)
next
  case (Suc fuel)
  have "stdy (default_extension_encoder chk enc env x)"
    unfolding default_extension_encoder_def Let_def by (intro steady_if steady_field e c)
  moreover have "stdy (\<lambda>s. Some (ext_cb env fn s x))" for fn
    using c unfolding steady_callbacks_def steady_def by blast
  ultimately have "stdy (seq_enc (if load64 (mem env) (load64 (mem env) x + 8) \<noteq> 0
        then (\<lambda>s. Some (ext_cb env (load64 (mem env) (load64 (mem env) x + 8)) s x))
        else default_extension_encoder chk enc env x)
      (extension_loop fuel chk enc env (load64 (mem env) (x + 16))))"
    by (intro steady_seq steady_if Suc.IH)
  moreover have "extension_loop (Suc fuel) chk enc env x = (if x = 0 then (\<lambda>s. Some (True, s)) else \<dots>)"
    by (simp add: fun_eq_iff Let_def)
  ultimately show ?case by (simp add: steady_done)
qed

lemma steady_iter_all:
  assumes "\<And>it. stdy (step it)"
  shows "stdy (iter_all step it)"
proof (induction "length (it_start it) - it_pos it" arbitrary: it rule: less_induct)
  case less
  have "stdy (\<lambda>s. case pb_field_iter_next it of (True, it') \<Rightarrow> iter_all step it' s
      | (False, it') \<Rightarrow> Some (True, s))"
  proof (rule steady_next)
    fix it' assume "pb_field_iter_next it = (True, it')"
    then show "stdy (iter_all step it')" using next_true_advances [of it it'] by (intro less) auto
  qed
  then show ?case by (subst iter_all_seq) (rule steady_seq [OF assms])
qed

lemma steady_pb_encode: "steady_callbacks cb ok put env \<Longrightarrow> stdy (pb_encode depth env fs src)"
proof (induction depth arbitrary: fs src)
  case 0
  have "pb_encode 0 env fs src = (\<lambda>s. None)" by (simp add: fun_eq_iff)
  then show ?case by (simp add: steady_none)
next
  case (Suc depth)
  let ?step = "\<lambda>it. if PB_LTYPE (f_type (cur_field it)) = PB_LTYPE_EXTENSION
             then encode_extension_field depth (msg_is_default depth env) (pb_encode depth env) env (pData it)
             else encode_field (msg_is_default depth env) (pb_encode depth env) env (cur_field it) (pData it)"
  have "stdy (iter_all ?step it)" for it
    unfolding encode_extension_field_def
    by (intro steady_iter_all steady_if steady_extension_loop steady_field Suc)
  then have "stdy (\<lambda>s. case pb_field_iter_begin fs src of (True, it) \<Rightarrow> iter_all ?step it s
      | (False, it) \<Rightarrow> Some (True, s))"
    by (rule steady_next)
  moreover have "pb_encode (Suc depth) env fs src = (\<lambda>s. case pb_field_iter_begin fs src of
      (True, it) \<Rightarrow> iter_all ?step it s | (False, it) \<Rightarrow> Some (True, s))"
    by (rule ext) (simp only: pb_encode.simps)
  ultimately show ?case by simp
qed

end
section \<open>Sizing and writing agree\<close>

lemma yields_buffer:
  fixes f :: "'u enc_step"
  assumes y: "yields Buf_write buf_ok buf_put f bs good" and n: "length bs < 2 ^ 64"
    and cap: "unat cap \<le> length buf"
  shows "\<exists>st p. f (pb_ostream_from_buffer buf cap) = Some (good \<and> length bs \<le> unat cap, st) \<and>
           prefix p bs \<and> length p \<le> unat cap \<and> (good \<and> length bs \<le> unat cap \<longrightarrow> p = bs) \<and>
           o_state st = OutBuf (p @ drop (length p) buf) (length p)"
proof -
  let ?s = "pb_ostream_from_buffer buf cap :: 'u pb_ostream"
  have r: "ready Buf_write buf_ok ?s" and b: "bounded ?s (length bs)"
    and fit: "fits ?s k \<longleftrightarrow> k \<le> unat cap" for k
    using n by (auto simp: ready_def bounded_def fits_def pb_ostream_from_buffer_def buf_ok_def)
  have st: "o_state (advance buf_put ?s p) = OutBuf (p @ drop (length p) buf) (length p)" for p
    by (simp add: advance_def pb_ostream_from_buffer_def)
  show ?thesis
  proof (cases "good \<and> length bs \<le> unat cap")
    case True
    then have "f ?s = Some (True, advance buf_put ?s bs)"
      using emits_okD [OF _ r, of buf_put f bs] y fit by simp
    then show ?thesis using True st by auto
  next
    case False
    then have "stopped buf_put ?s bs (f ?s)" using yields_failD [OF y r b] fit by blast
    then show ?thesis using False st fit by (auto simp: stopped_def)
  qed
qed

lemma get_encoded_size_steady:
  assumes "steady_callbacks Buf_write buf_ok buf_put env"
    and "pb_get_encoded_size depth env fs src = Some r"
  shows "\<exists>bs. yields Buf_write buf_ok buf_put (pb_encode depth env fs src) bs (r \<noteq> None) \<and>
           (\<forall>n. r = Some n \<longrightarrow> n = of_nat (length bs))"
proof -
  obtain bs good where y: "yields Buf_write buf_ok buf_put (pb_encode depth env fs src) bs good"
    using mem.steady_pb_encode [OF assms(1), of depth fs src] assms(2)
    by (auto simp: steady_def pb_get_encoded_size_def PB_OSTREAM_SIZING_def)
  show ?thesis
  proof (cases good)
    case True
    then have y: "emits Buf_write buf_ok buf_put (pb_encode depth env fs src) bs" using y by simp
    then have "r = Some (of_nat (length bs))"
      using assms(2) mem.sizing_emits [OF y]
      by (simp add: pb_get_encoded_size_def mem.sizing_written)
    then show ?thesis using y by auto
  next
    case False
    then have "stopped buf_put PB_OSTREAM_SIZING bs (pb_encode depth env fs src PB_OSTREAM_SIZING)"
      using yields_failD [OF y mem.sizing_ready(1,3)] by simp
    then have "r = None"
      using assms(2) by (auto simp: pb_get_encoded_size_def stopped_def)
    then show ?thesis using y False by auto
  qed
qed

text \<open>C1. The size computed by \<open>pb_get_encoded_size\<close> is the size \<open>pb_encode\<close> writes: for each
  message there is one byte string, of that length, such that \<open>pb_encode\<close> into any buffer
  succeeds exactly if the message has no encoding error and the string fits, the buffer then
  begins with the string, and otherwise it begins with a prefix of the string that fits;
  no byte after that prefix, so none outside the buffer, is touched. Callbacks may be any that
  behave alike in both passes; sizes stay below \<open>2 ^ 64\<close>.\<close>

theorem encode_matches_encoded_size:
  assumes "steady_callbacks Buf_write buf_ok buf_put env"
    and "pb_get_encoded_size depth env fs src = Some r"
  shows "\<exists>bs. (\<forall>n. r = Some n \<longrightarrow> n = of_nat (length bs)) \<and>
    (length bs < 2 ^ 64 \<longrightarrow> (\<forall>buf cap. unat cap \<le> length buf \<longrightarrow>
       (\<exists>st p. pb_encode depth env fs src (pb_ostream_from_buffer buf cap) =
                  Some (r \<noteq> None \<and> length bs \<le> unat cap, st) \<and>
                prefix p bs \<and> length p \<le> unat cap \<and>
                (r \<noteq> None \<and> length bs \<le> unat cap \<longrightarrow> p = bs) \<and>
                o_state st = OutBuf (p @ drop (length p) buf) (length p))))"
proof -
  obtain bs where y: "yields Buf_write buf_ok buf_put (pb_encode depth env fs src) bs (r \<noteq> None)"
    and n: "\<forall>n. r = Some n \<longrightarrow> n = of_nat (length bs)"
    using get_encoded_size_steady [OF assms] by blast
  show ?thesis
    by (rule exI [of _ bs]) (intro conjI allI impI n [rule_format] yields_buffer [OF y])
qed

definition quiet_env :: "(u64 \<Rightarrow> u8) \<Rightarrow> nat enc_env" where
  "quiet_env m =
     \<lparr>mem = m, ftab = (\<lambda>a. example_fields),
      enc_cb = (\<lambda>fn s field a. pb_encode_varint s 5),
      ext_cb = (\<lambda>fn s e. pb_encode_varint s 6)\<rparr>"

lemma quiet_env_steady: "steady_callbacks Buf_write buf_ok buf_put (quiet_env m)"
  using mem.encode_varint_emits by (auto simp: steady_callbacks_def quiet_env_def)

theorem encode_matches_encoded_size_witness:
  "\<exists>bs :: bytes. of_nat (length bs) = (11 :: u64) \<and> (length bs < 2 ^ 64 \<longrightarrow>
     (\<exists>st. pb_encode 1 (quiet_env (\<lambda>a. 0)) example_fields 1000
             (pb_ostream_from_buffer (replicate 20 0) 20) = Some (length bs \<le> 20, st)))"
proof -
  have size: "pb_get_encoded_size 1 (quiet_env (\<lambda>a. 0)) example_fields 1000 = Some (Some 11)"
    by code_simp
  note w = encode_matches_encoded_size [OF quiet_env_steady size]
  from w obtain bs where n: "\<forall>n. Some (11 :: u64) = Some n \<longrightarrow> n = of_nat (length bs)"
    and all: "length bs < 2 ^ 64 \<longrightarrow> (\<forall>buf cap. unat cap \<le> length buf \<longrightarrow>
       (\<exists>st p. pb_encode 1 (quiet_env (\<lambda>a. 0)) example_fields 1000 (pb_ostream_from_buffer buf cap) =
                  Some (Some (11 :: u64) \<noteq> None \<and> length bs \<le> unat cap, st) \<and>
                prefix p bs \<and> length p \<le> unat cap \<and>
                (Some (11 :: u64) \<noteq> None \<and> length bs \<le> unat cap \<longrightarrow> p = bs) \<and>
                o_state st = OutBuf (p @ drop (length p) buf) (length p)))"
    by (elim exE conjE) (rule that)
  show ?thesis
  proof (intro exI [of _ bs] conjI impI)
    assume "length bs < 2 ^ 64"
    with all have "unat (20 :: u64) \<le> length (replicate 20 (0 :: u8)) \<Longrightarrow>
      \<exists>st. pb_encode 1 (quiet_env (\<lambda>a. 0)) example_fields 1000
             (pb_ostream_from_buffer (replicate 20 0) 20) =
           Some (Some (11 :: u64) \<noteq> None \<and> length bs \<le> unat (20 :: u64), st)" by blast
    then show "\<exists>st. pb_encode 1 (quiet_env (\<lambda>a. 0)) example_fields 1000
             (pb_ostream_from_buffer (replicate 20 0) 20) = Some (length bs \<le> 20, st)" by (simp del: pb_encode.simps)
  qed (use n in simp)
qed

text \<open>C17. \<open>pb_encode_delimited\<close> (and likewise \<open>pb_enc_submessage\<close> behind its tag) frames a
  message: if the message of a sizing pass is \<open>bs\<close>, so that the size is \<open>length bs\<close>, the
  delimited form into a buffer with room is the varint of that length followed by \<open>bs\<close>, the
  very bytes that \<open>pb_encode\<close> writes.\<close>

theorem delimited_frames_message:
  assumes "steady_callbacks Buf_write buf_ok buf_put env"
    and "pb_get_encoded_size depth env fs src = Some (Some n)"
  shows "\<exists>bs. n = of_nat (length bs) \<and>
    (\<forall>buf cap. length (varint_enc n @ bs) \<le> unat cap \<longrightarrow> unat cap \<le> length buf \<longrightarrow>
       (\<exists>st. pb_encode depth env fs src (pb_ostream_from_buffer buf cap) = Some (True, st) \<and>
             o_state st = OutBuf (bs @ drop (length bs) buf) (length bs)) \<and>
       (\<exists>st. pb_encode_delimited depth env fs src (pb_ostream_from_buffer buf cap) = Some (True, st) \<and>
             (let out = varint_enc n @ bs in
              o_state st = OutBuf (out @ drop (length out) buf) (length out))))"
proof -
  obtain bs where e: "emits Buf_write buf_ok buf_put (pb_encode depth env fs src) bs"
    and n: "n = of_nat (length bs)"
    using get_encoded_size_steady [OF assms] by auto
  have d: "emits Buf_write buf_ok buf_put (pb_encode_delimited depth env fs src) (varint_enc n @ bs)"
    using mem.submessage_yields [where enc = "pb_encode depth env" and fs = fs and src = src, OF e] by (simp add: pb_encode_delimited_def n)
  show ?thesis
  proof (intro exI [of _ bs] conjI n allI impI)
    fix buf :: bytes and cap :: u64
    assume len: "length (varint_enc n @ bs) \<le> unat cap" and cap: "unat cap \<le> length buf"
    have big: "length (varint_enc n @ bs) < 2 ^ 64" by (rule le_less_trans [OF len]) (simp add: unat_u64_lt [simplified])
    have "length bs \<le> unat cap" "length bs < 2 ^ 64" using len big by simp_all
    then show "\<exists>st. pb_encode depth env fs src (pb_ostream_from_buffer buf cap) = Some (True, st) \<and>
             o_state st = OutBuf (bs @ drop (length bs) buf) (length bs)"
      using yields_buffer [OF e _ cap] by auto
    show "\<exists>st. pb_encode_delimited depth env fs src (pb_ostream_from_buffer buf cap) = Some (True, st) \<and>
             (let out = varint_enc n @ bs in
              o_state st = OutBuf (out @ drop (length out) buf) (length out))"
      using yields_buffer [OF d big cap] len by (auto simp: Let_def)
  qed
qed

theorem delimited_frames_message_witness:
  "\<exists>bs. (11 :: u64) = of_nat (length bs) \<and>
    (\<forall>buf cap. length (varint_enc 11 @ bs) \<le> unat cap \<longrightarrow> unat cap \<le> length buf \<longrightarrow>
       (\<exists>st. pb_encode 1 (quiet_env (\<lambda>a. 0)) example_fields 1000 (pb_ostream_from_buffer buf cap) =
               Some (True, st)))"
proof -
  have size: "pb_get_encoded_size 1 (quiet_env (\<lambda>a. 0)) example_fields 1000 = Some (Some 11)"
    by code_simp
  from delimited_frames_message [OF quiet_env_steady size] show ?thesis by blast
qed

end
