(* ===== verification/PbDecodeProps.thy ===== *)
theory PbDecodeProps
  imports PbDecodeMsg PbStreamProps PbEncodeProps
begin

text \<open>
  What the field decoders of \<open>pb_decode.c\<close> do to the memory: which integers a member of
  each width accepts and what is stored for them, an encoded scalar field decodes to the value it came from, static fields stay
  inside their \<open>data_size\<close>, and allocations have the size that was asked for.
\<close>

section \<open>Integers of every width\<close>

lemma ucast_via_iff:
  fixes v :: u64
  assumes "LENGTH('a::len) \<le> 64"
  shows "ucast (ucast v :: 'a word) = v \<longleftrightarrow> unat v < 2 ^ LENGTH('a)"
proof -
  have "ucast (ucast v :: 'a word) = take_bit LENGTH('a) v"
    by (rule bit_word_eqI) (auto simp: bit_simps)
  then have "ucast (ucast v :: 'a word) = v \<longleftrightarrow> take_bit LENGTH('a) (unat v) = unat v"
    by (simp add: word_unat_eq_iff unsigned_take_bit_eq)
  then show ?thesis by (simp add: take_bit_nat_eq_self_iff)
qed

lemma scast_via_iff:
  fixes v :: u64
  assumes "LENGTH('a::len) = Suc n" "Suc n \<le> 64"
  shows "scast (ucast v :: 'a word) = v \<longleftrightarrow> - (2 ^ n) \<le> sint v \<and> sint v < 2 ^ n"
proof -
  have b: "bit (scast (ucast v :: 'a word) :: u64) k \<longleftrightarrow> bit v (min k n)" if "k < 64" for k
    using that assms by (auto simp: bit_simps min_def)
  have "scast (ucast v :: 'a word) = v \<longleftrightarrow> signed_take_bit n (sint v) = sint v"
  proof
    assume eq: "scast (ucast v :: 'a word) = v"
    show "signed_take_bit n (sint v) = sint v"
    proof (rule bit_eqI)
      fix k
      show "bit (signed_take_bit n (sint v)) k = bit (sint v) k"
      proof (cases "k < 64")
        case True
        then show ?thesis using b [of k] eq assms
          by (auto simp: bit_signed_take_bit_iff bit_sint_iff min.commute)
      next
        case False
        then have "\<not> bit v k" by (auto dest: bit_imp_le_length)
        then show ?thesis using False b [of 63] eq assms
          by (auto simp: bit_signed_take_bit_iff bit_sint_iff min_def)
      qed
    qed
  next
    assume eq: "signed_take_bit n (sint v) = sint v"
    show "scast (ucast v :: 'a word) = v"
    proof (rule bit_word_eqI)
      fix k assume k: "k < LENGTH(64)"
      have "bit (signed_take_bit n (sint v)) k = bit (sint v) k" using eq by simp
      then show "bit (scast (ucast v :: 'a word) :: u64) k = bit v k"
        using k b assms by (auto simp: bit_signed_take_bit_iff bit_sint_iff min_def)
    qed
  qed
  then show ?thesis by (simp add: signed_take_bit_int_eq_self_iff)
qed

text \<open>The widths of the integer members of a struct.\<close>

definition int_size :: "u32 \<Rightarrow> bool" where
  "int_size sz \<longleftrightarrow> sz = 1 \<or> sz = 2 \<or> sz = 4 \<or> sz = 8"

definition fits_unsigned :: "u32 \<Rightarrow> u64 \<Rightarrow> bool" where
  "fits_unsigned sz v \<longleftrightarrow> int_size sz \<and> unat v < 2 ^ (8 * unat sz)"

definition fits_signed :: "u32 \<Rightarrow> u64 \<Rightarrow> bool" where
  "fits_signed sz v \<longleftrightarrow>
     int_size sz \<and> - (2 ^ (8 * unat sz - 1)) \<le> sint v \<and> sint v < 2 ^ (8 * unat sz - 1)"

lemma sint_u64: "- 9223372036854775808 \<le> sint (v :: u64)" "sint (v :: u64) < 9223372036854775808"
  using sint_greater_eq [of v] sint_less [of v] by simp_all

lemma clamp_unsigned_spec:
  "clamp_unsigned sz v = None \<longleftrightarrow> \<not> int_size sz"
  "clamp_unsigned sz v = Some c \<Longrightarrow> c = v \<longleftrightarrow> fits_unsigned sz v"
  using ucast_via_iff [of v, where 'a = 8] ucast_via_iff [of v, where 'a = 16]
    ucast_via_iff [of v, where 'a = 32]
  by (auto simp: clamp_unsigned_def fits_unsigned_def int_size_def split: if_splits)

lemma clamp_signed_spec:
  "clamp_signed sz v = None \<longleftrightarrow> \<not> int_size sz"
  "clamp_signed sz v = Some c \<Longrightarrow> c = v \<longleftrightarrow> fits_signed sz v"
  using scast_via_iff [of 7 v, where 'a = 8] scast_via_iff [of 15 v, where 'a = 16]
    scast_via_iff [of 31 v, where 'a = 32] sint_u64 [of v]
  by (auto simp: clamp_signed_def fits_signed_def int_size_def split: if_splits)

text \<open>What was stored is what the encoder's loads read.\<close>

lemma load_stored_unsigned:
  assumes "fits_unsigned sz v"
  shows "load_unsigned (store_bytes m a (word_bytes (unat sz) v)) sz a = Some v"
  using assms ucast_via_iff [of v, where 'a = 8] ucast_via_iff [of v, where 'a = 16]
    ucast_via_iff [of v, where 'a = 32]
  by (auto simp: fits_unsigned_def int_size_def load_unsigned_def load_word_bytes [simplified])

lemma load_stored_signed:
  assumes "fits_signed sz v"
  shows "load_signed (store_bytes m a (word_bytes (unat sz) v)) sz a = Some v"
  using assms scast_via_iff [of 7 v, where 'a = 8] scast_via_iff [of 15 v, where 'a = 16]
    scast_via_iff [of 31 v, where 'a = 32]
  by (auto simp: fits_signed_def int_size_def load_signed_def load_word_bytes [simplified])

text \<open>The memory after a step differs from the one before at most inside the area.\<close>

definition writes_within :: "u64 \<Rightarrow> nat \<Rightarrow> 'u dstate \<Rightarrow> 'u dstate \<Rightarrow> bool" where
  "writes_within a n \<sigma> \<sigma>' \<longleftrightarrow> (\<forall>x. x \<notin> area a n \<longrightarrow> d_mem \<sigma>' x = d_mem \<sigma> x) \<and> d_blocks \<sigma>' = d_blocks \<sigma>"

lemma store_clamped_spec:
  assumes none: "\<And>v. clamp (data_size field) v = None \<longleftrightarrow> \<not> int_size (data_size field)"
    and some: "\<And>v c. clamp (data_size field) v = Some c \<Longrightarrow> c = v \<longleftrightarrow> okv v"
    and int: "\<And>v. okv v \<Longrightarrow> int_size (data_size field)"
  shows "\<exists>\<sigma>'. store_clamped clamp field dest v \<sigma> = Some (okv v, \<sigma>') \<and>
           writes_within dest (unat (data_size field)) \<sigma> \<sigma>' \<and>
           (okv v \<longrightarrow> d_strm \<sigma>' = d_strm \<sigma> \<and>
              d_mem \<sigma>' = store_bytes (d_mem \<sigma>) dest (word_bytes (unat (data_size field)) v))"
proof (cases "clamp (data_size field) v")
  case None
  then have "\<not> okv v" using none int by blast
  then show ?thesis by (simp add: store_clamped_def None dec_err_def writes_within_def)
next
  case (Some c)
  then show ?thesis
    using some [OF Some]
    by (auto simp: store_clamped_def seq_dec_def upd_mem_def dec_err_def dec_ok_def writes_within_def
        store_bytes_outside)
qed

lemma store_signed_spec:
  "\<exists>\<sigma>'. store_clamped clamp_signed field dest v \<sigma> = Some (fits_signed (data_size field) v, \<sigma>') \<and>
     writes_within dest (unat (data_size field)) \<sigma> \<sigma>' \<and>
     (fits_signed (data_size field) v \<longrightarrow> d_strm \<sigma>' = d_strm \<sigma> \<and>
        load_signed (d_mem \<sigma>') (data_size field) dest = Some v)"
proof -
  have "\<exists>\<sigma>'. store_clamped clamp_signed field dest v \<sigma> = Some (fits_signed (data_size field) v, \<sigma>') \<and>
     writes_within dest (unat (data_size field)) \<sigma> \<sigma>' \<and>
     (fits_signed (data_size field) v \<longrightarrow> d_strm \<sigma>' = d_strm \<sigma> \<and>
        d_mem \<sigma>' = store_bytes (d_mem \<sigma>) dest (word_bytes (unat (data_size field)) v))"
    by (rule store_clamped_spec) (auto simp: clamp_signed_spec fits_signed_def)
  then show ?thesis using load_stored_signed by fastforce
qed

lemma unsigned_field_shape:
  assumes "pb_decode_varint (d_strm \<sigma>) = (Some v, s')"
  shows "\<exists>\<sigma>'. pb_dec_uvarint field dest \<sigma> = Some (fits_unsigned (data_size field) v, \<sigma>') \<and>
           writes_within dest (unat (data_size field)) \<sigma> \<sigma>' \<and>
           (fits_unsigned (data_size field) v \<longrightarrow>
              load_unsigned (d_mem \<sigma>') (data_size field) dest = Some v \<and> d_strm \<sigma>' = s')"
proof -
  have "\<exists>\<sigma>'. store_clamped clamp_unsigned field dest v (\<sigma>\<lparr>d_strm := s'\<rparr>) =
             Some (fits_unsigned (data_size field) v, \<sigma>') \<and>
           writes_within dest (unat (data_size field)) (\<sigma>\<lparr>d_strm := s'\<rparr>) \<sigma>' \<and>
           (fits_unsigned (data_size field) v \<longrightarrow> d_strm \<sigma>' = d_strm (\<sigma>\<lparr>d_strm := s'\<rparr>) \<and>
              d_mem \<sigma>' = store_bytes (d_mem (\<sigma>\<lparr>d_strm := s'\<rparr>)) dest (word_bytes (unat (data_size field)) v))"
    by (rule store_clamped_spec) (auto simp: clamp_unsigned_spec fits_unsigned_def)
  then show ?thesis
    using assms load_stored_unsigned [of "data_size field" v]
    by (auto simp: pb_dec_uvarint_def with_read_def writes_within_def)
qed

lemma signed_field_shape:
  assumes "pb_decode_varint (d_strm \<sigma>) = (Some v, s')"
    and "w = (if data_size field = 8 then v else scast (ucast v :: u32))"
  shows "(\<exists>\<sigma>'. pb_dec_varint field dest \<sigma> = Some (fits_signed (data_size field) w, \<sigma>') \<and>
           writes_within dest (unat (data_size field)) \<sigma> \<sigma>' \<and>
           (fits_signed (data_size field) w \<longrightarrow>
              load_signed (d_mem \<sigma>') (data_size field) dest = Some w \<and> d_strm \<sigma>' = s')) \<and>
         (\<exists>\<sigma>'. pb_dec_svarint field dest \<sigma> = Some (fits_signed (data_size field) (unzigzag v), \<sigma>') \<and>
           writes_within dest (unat (data_size field)) \<sigma> \<sigma>' \<and>
           (fits_signed (data_size field) (unzigzag v) \<longrightarrow>
              load_signed (d_mem \<sigma>') (data_size field) dest = Some (unzigzag v) \<and> d_strm \<sigma>' = s'))"
proof (rule conjI)
  note stored = store_signed_spec [of field dest _ "\<sigma>\<lparr>d_strm := s'\<rparr>"]
  show "\<exists>\<sigma>'. pb_dec_varint field dest \<sigma> = Some (fits_signed (data_size field) w, \<sigma>') \<and>
           writes_within dest (unat (data_size field)) \<sigma> \<sigma>' \<and>
           (fits_signed (data_size field) w \<longrightarrow>
              load_signed (d_mem \<sigma>') (data_size field) dest = Some w \<and> d_strm \<sigma>' = s')"
    using assms(1) stored [of w]
    by (auto simp: pb_dec_varint_def with_read_def writes_within_def Let_def assms(2) split: if_splits)
  have "pb_decode_svarint (d_strm \<sigma>) = (Some (unzigzag v), s')"
    using assms(1) by (simp add: pb_decode_svarint_def unzigzag_def)
  then show "\<exists>\<sigma>'. pb_dec_svarint field dest \<sigma> = Some (fits_signed (data_size field) (unzigzag v), \<sigma>') \<and>
           writes_within dest (unat (data_size field)) \<sigma> \<sigma>' \<and>
           (fits_signed (data_size field) (unzigzag v) \<longrightarrow>
              load_signed (d_mem \<sigma>') (data_size field) dest = Some (unzigzag v) \<and> d_strm \<sigma>' = s')"
    using stored [of "unzigzag v"]
    by (auto simp: pb_dec_svarint_def with_read_def writes_within_def)
qed

text \<open>C23. No unsigned integer is truncated silently: when the varint \<open>v\<close> has been read, an unsigned field
  of 1, 2, 4 or 8 bytes accepts it exactly if it is below \<open>2 ^ (8 * data_size)\<close>, and then the
  struct member holds \<open>v\<close>, as the encoder's load reads it; any other value or size is an error.
  Either way nothing outside the member is written.\<close>

theorem unsigned_field_exact:
  assumes "pb_decode_varint (d_strm \<sigma>) = (Some v, s')"
  shows "\<exists>\<sigma>'. pb_dec_uvarint field dest \<sigma> = Some (fits_unsigned (data_size field) v, \<sigma>') \<and>
           writes_within dest (unat (data_size field)) \<sigma> \<sigma>' \<and>
           (fits_unsigned (data_size field) v \<longrightarrow>
              load_unsigned (d_mem \<sigma>') (data_size field) dest = Some v \<and> d_strm \<sigma>' = s')"
  using assms by (rule unsigned_field_shape)

text \<open>The low 32 bits of a value that fits into at most 32 bits are all of it.\<close>

lemma low_half:
  fixes v :: u64
  shows "fits_signed 4 v \<Longrightarrow> scast (ucast v :: u32) = v" "fits_signed 4 (scast (ucast v :: u32))"
proof -
  have c: "clamp_signed 4 x = Some (scast (ucast x :: u32))" for x by (simp add: clamp_signed_def)
  show "fits_signed 4 v \<Longrightarrow> scast (ucast v :: u32) = v" using clamp_signed_spec(2) [OF c] by blast
  show "fits_signed 4 (scast (ucast v :: u32))"
  proof -
    have "ucast (scast (ucast v :: u32) :: u64) = (ucast v :: u32)"
      by (rule bit_word_eqI) (simp add: bit_ucast_iff bit_signed_iff)
    then show ?thesis using clamp_signed_spec(2) [OF c, of "scast (ucast v :: u32)"] by simp
  qed
qed

lemma fits_signed_4: "fits_signed sz v \<Longrightarrow> sz \<noteq> 8 \<Longrightarrow> fits_signed 4 v"
  by (auto simp: fits_signed_def int_size_def)

text \<open>C24. The signed types. A zigzag field accepts exactly the values that fit into its member and stores them.
  A plain signed field of less than 64 bits first cuts the varint to its low 32 bits, read as two's
  complement (so that negative values may come as five bytes or as ten), accepts exactly what then fits,
  and stores it. A value that fits is thus stored as it is; one that does not fit is an error for
  members of 8 and 16 bits only if its low 32 bits do not fit, and never for members of 32 bits.\<close>

theorem signed_field_exact:
  assumes "pb_decode_varint (d_strm \<sigma>) = (Some v, s')"
    and "w = (if data_size field = 8 then v else scast (ucast v :: u32))"
  shows "(\<exists>\<sigma>'. pb_dec_varint field dest \<sigma> = Some (fits_signed (data_size field) w, \<sigma>') \<and>
           writes_within dest (unat (data_size field)) \<sigma> \<sigma>' \<and>
           (fits_signed (data_size field) w \<longrightarrow>
              load_signed (d_mem \<sigma>') (data_size field) dest = Some w \<and> d_strm \<sigma>' = s')) \<and>
         (fits_signed (data_size field) v \<longrightarrow> w = v) \<and> (data_size field = 4 \<longrightarrow> fits_signed (data_size field) w) \<and>
         (\<exists>\<sigma>'. pb_dec_svarint field dest \<sigma> = Some (fits_signed (data_size field) (unzigzag v), \<sigma>') \<and>
           writes_within dest (unat (data_size field)) \<sigma> \<sigma>' \<and>
           (fits_signed (data_size field) (unzigzag v) \<longrightarrow>
              load_signed (d_mem \<sigma>') (data_size field) dest = Some (unzigzag v) \<and> d_strm \<sigma>' = s'))"
proof (intro conjI impI)
  show "w = v" if "fits_signed (data_size field) v"
    using low_half(1) [OF fits_signed_4 [OF that]] by (simp add: assms(2))
  show "fits_signed (data_size field) w" if "data_size field = 4"
    using low_half(2) [of v] that by (simp add: assms(2))
qed (rule signed_field_shape [OF assms, THEN conjunct1], rule signed_field_shape [OF assms, THEN conjunct2])

definition mem_state :: "bytes \<Rightarrow> unit dstate" where
  "mem_state bs = \<lparr>d_strm = on_bytes bs, d_mem = (\<lambda>x. 0), d_blocks = (\<lambda>x. None)\<rparr>"

definition int_field :: "u8 \<Rightarrow> u32 \<Rightarrow> pb_field" where
  "int_field ty sz =
     \<lparr>f_tag = 1, f_type = ty, data_offset = 0, size_offset = 0, data_size = sz, array_size = 0, f_ptr = 0\<rparr>"

theorem unsigned_field_exact_witness:
  "\<exists>\<sigma>'. pb_dec_uvarint (int_field 2 2) 1000 (mem_state [0xAC, 0x02]) = Some (True, \<sigma>') \<and>
         load_unsigned (d_mem \<sigma>') 2 1000 = Some 300"
proof -
  have "fst (pb_decode_varint (on_bytes [0xAC, 0x02])) = Some 300" by code_simp
  then obtain s' where "pb_decode_varint (d_strm (mem_state [0xAC, 0x02])) = (Some 300, s')"
    by (cases "pb_decode_varint (on_bytes [0xAC, 0x02])") (simp add: mem_state_def)
  from unsigned_field_exact [OF this, of "int_field 2 2" 1000] show ?thesis
    by (auto simp: int_field_def fits_unsigned_def int_size_def)
qed

theorem signed_field_exact_witness:
  "\<exists>\<sigma>'. pb_dec_svarint (int_field 3 1) 1000 (mem_state [0x03]) = Some (True, \<sigma>') \<and>
         load_signed (d_mem \<sigma>') 1 1000 = Some (- 2)"
proof -
  have "fst (pb_decode_varint (on_bytes [0x03])) = Some 3" by code_simp
  then obtain s' where s: "pb_decode_varint (d_strm (mem_state [0x03])) = (Some 3, s')"
    by (cases "pb_decode_varint (on_bytes [0x03])") (simp add: mem_state_def)
  have "unzigzag 3 = - 2" by code_simp
  moreover have "fits_signed 1 (- 2)" by (simp add: fits_signed_def int_size_def)
  ultimately show ?thesis
    using signed_field_exact [OF s refl, of "int_field 3 1" 1000]
    by (auto simp: int_field_def)
qed

section \<open>Allocation\<close>

text \<open>C25. \<open>allocate_field\<close> never allocates less than it was asked for: if it succeeds, the two
  sizes are positive, their product does not overflow, the block now registered under the
  pointer it has stored has exactly \<open>array_size * data_size\<close> bytes, and the stream is
  untouched. The overflow test skips the division for small sizes; that shortcut is sound.\<close>

theorem allocate_field_exact:
  assumes "allocate_field env p dsize asize \<sigma> = Some (True, \<sigma>')"
  shows "0 < unat dsize \<and> 0 < unat asize \<and> unat asize * unat dsize < 2 ^ 64 \<and>
         load64 (d_mem \<sigma>') p \<noteq> 0 \<and>
         d_blocks \<sigma>' (load64 (d_mem \<sigma>') p) = Some (of_nat (unat asize * unat dsize)) \<and>
         d_strm \<sigma>' = d_strm \<sigma>"
proof -
  have nz: "dsize \<noteq> 0" "asize \<noteq> 0"
    and guard: "\<not> ((2 ^ 32 \<le> dsize \<or> 2 ^ 32 \<le> asize) \<and> - 1 div asize < dsize)"
    using assms by (auto simp: allocate_field_def dec_err_def split: if_splits)
  have pos: "0 < unat dsize" "0 < unat asize"
    using nz by (auto simp: unat_gt_0)
  have prod: "unat asize * unat dsize < 2 ^ 64"
  proof (cases "2 ^ 32 \<le> dsize \<or> 2 ^ 32 \<le> asize")
    case False
    then have "unat dsize < 2 ^ 32" "unat asize < 2 ^ 32"
      by (simp_all add: word_less_nat_alt not_le)
    then have "unat asize * unat dsize < 2 ^ 32 * 2 ^ 32"
      by (intro mult_strict_mono) simp_all
    then show ?thesis by simp
  next
    case True
    then have "dsize \<le> - 1 div asize" using guard by auto
    then have "unat dsize \<le> (2 ^ 64 - 1) div unat asize"
      by (simp add: word_le_nat_alt unat_div unsigned_minus_1_eq_mask mask_eq_exp_minus_1)
    then have "unat asize * unat dsize \<le> 2 ^ 64 - 1"
      using pos(2) by (simp add: less_eq_div_iff_mult_less_eq mult.commute)
    then show ?thesis by simp
  qed
  obtain ptr m blocks where r: "pb_realloc (d_alloc env) (d_mem \<sigma>, d_blocks \<sigma>)
      (load64 (d_mem \<sigma>) p) (asize * dsize) = (ptr, m, blocks)"
    by (cases "pb_realloc (d_alloc env) (d_mem \<sigma>, d_blocks \<sigma>) (load64 (d_mem \<sigma>) p) (asize * dsize)")
  then have ok: "ptr \<noteq> 0" "\<sigma>' = \<sigma>\<lparr>d_mem := store64 m p ptr, d_blocks := blocks\<rparr>"
    using assms nz guard by (auto simp: allocate_field_def dec_err_def split: if_splits)
  then have "blocks ptr = Some (asize * dsize)"
    using r by (auto simp: pb_realloc_def Let_def split: if_splits)
  moreover have "of_nat (unat asize * unat dsize) = asize * dsize" by simp
  ultimately show ?thesis
    using pos prod ok by simp
qed

definition bump_env :: "unit dec_env" where
  "bump_env =
     \<lparr>d_ftab = (\<lambda>a. []), dec_cb = (\<lambda>fn f a \<sigma>. (True, \<sigma>)), ext_dec = (\<lambda>fn e t w \<sigma>. (True, \<sigma>)),
      d_alloc = (\<lambda>blocks old n. 0x5000), d_local = (\<lambda>d. 0x9000)\<rparr>"

theorem allocate_field_exact_witness:
  "\<exists>\<sigma>'. allocate_field bump_env 1000 8 3 (mem_state []) = Some (True, \<sigma>') \<and>
         d_blocks \<sigma>' (load64 (d_mem \<sigma>') 1000) = Some 24"
proof -
  have "\<exists>\<sigma>'. allocate_field bump_env 1000 8 3 (mem_state []) = Some (True, \<sigma>')"
    by (simp add: allocate_field_def pb_realloc_def bump_env_def Let_def)
  then obtain \<sigma>' where "allocate_field bump_env 1000 8 3 (mem_state []) = Some (True, \<sigma>')" by blast
  from allocate_field_exact [OF this] this show ?thesis by auto
qed

section \<open>Static fields stay inside their members\<close>

lemma run_icallback_length:
  assumes "run_icallback s n = (Some bs, s')"
  shows "length bs = unat n"
proof -
  obtain ok buf st where e: "(case i_callback s of Buf_read \<Rightarrow> buf_read (i_state s) n
      | User_read f \<Rightarrow> f (i_state s) n) = (ok, buf, st)" by (metis prod_cases3)
  have "bs = map buf [0..<unat n]"
    using assms unfolding run_icallback_def e by (simp split: if_splits)
  then show ?thesis by simp
qed

lemma pb_read_length:
  assumes "pb_read s False n = (Some bs, s')"
  shows "length bs = unat n"
proof (cases "run_icallback s n")
  case (Pair r s1)
  then show ?thesis
    using assms run_icallback_length [of s n bs s1]
    by (cases r) (auto simp: pb_read_def pb_read_direct_def pb_return_error_def split: if_splits)
qed

lemma area_shift:
  assumes "x \<in> area (a + of_nat k) n" "k + n < 2 ^ 64"
  shows "x \<in> area a (k + n)"
proof -
  obtain y where y: "x = (a + of_nat k) + y" by (metis add_diff_cancel_left' diff_add_cancel add.commute)
  have "unat (of_nat k + y) = k + unat y"
    using assms by (simp add: y area_def unat_word_ariths unat_of_nat)
  then have "unat (x - a) = unat (x - (a + of_nat k)) + k" by (simp add: y add.assoc)
  then show ?thesis using assms by (simp add: area_def)
qed

lemma writes_refl [simp]: "writes_within a n \<sigma> \<sigma>"
  by (simp add: writes_within_def)

lemma writes_strm [simp]:
  "writes_within a n (\<sigma>\<lparr>d_strm := s\<rparr>) \<sigma>' \<longleftrightarrow> writes_within a n \<sigma> \<sigma>'"
  "writes_within a n \<sigma> (\<sigma>'\<lparr>d_strm := s\<rparr>) \<longleftrightarrow> writes_within a n \<sigma> \<sigma>'"
  by (simp_all add: writes_within_def)

lemma writes_trans:
  "writes_within a n \<sigma> \<sigma>1 \<Longrightarrow> writes_within a n \<sigma>1 \<sigma>2 \<Longrightarrow> writes_within a n \<sigma> \<sigma>2"
  by (simp add: writes_within_def)

text \<open>A step confined to an area, whatever it returns.\<close>

definition confined :: "u64 \<Rightarrow> nat \<Rightarrow> 'u dec_step \<Rightarrow> bool" where
  "confined a n f \<longleftrightarrow> (\<forall>\<sigma> ok \<sigma>'. f \<sigma> = Some (ok, \<sigma>') \<longrightarrow> writes_within a n \<sigma> \<sigma>')"

lemma confined_simps [simp]: "confined a n (dec_err msg)" "confined a n dec_ok" "confined a n (\<lambda>\<sigma>. None)"
  by (auto simp: confined_def dec_err_def dec_ok_def)

lemma confined_seq: "confined a n f \<Longrightarrow> confined a n g \<Longrightarrow> confined a n (seq_dec f g)"
  unfolding confined_def seq_dec_def
  by (auto split: option.splits prod.splits bool.splits) (blast intro: writes_trans)+

lemma confined_read:
  "(\<And>x s s'. rd s = (Some x, s') \<Longrightarrow> confined a n (k x)) \<Longrightarrow> confined a n (with_read rd k)"
  unfolding confined_def with_read_def
  by (fastforce split: option.splits prod.splits)

lemma confined_upd: "(\<And>m x. x \<notin> area a n \<Longrightarrow> f m x = m x) \<Longrightarrow> confined a n (upd_mem f)"
  by (auto simp: confined_def upd_mem_def writes_within_def)

lemma confined_store:
  assumes "\<And>m x. x \<notin> area b k \<Longrightarrow> f m x = m x" "k \<le> n"
  shows "confined b n (upd_mem f)"
  using assms area_mono [OF assms(2), of b] by (intro confined_upd) blast

lemma confined_read_into:
  assumes "k + unat c \<le> n" "n < 2 ^ 64"
  shows "confined a n (read_into (a + of_nat k) c)"
  unfolding read_into_def
proof (rule confined_read)
  fix bs s s' assume r: "pb_read s (a + of_nat k = 0) c = (Some bs, s')"
  show "confined a n (upd_mem (\<lambda>m. if a + of_nat k = 0 then m else store_bytes m (a + of_nat k) bs))"
  proof (rule confined_upd)
    fix m x assume x: "x \<notin> area a n"
    show "(if a + of_nat k = 0 then m else store_bytes m (a + of_nat k) bs) x = m x"
    proof (cases "a + of_nat k = 0")
      case False
      then have "length bs = unat c" using pb_read_length r by auto
      moreover have "x \<notin> area (a + of_nat k) (unat c)"
        using area_shift [of x a k "unat c"] area_mono [of "k + unat c" n a] assms x by auto
      ultimately show ?thesis using False by (simp add: store_bytes_outside)
    qed simp
  qed
qed

lemma confined_clamped:
  assumes "\<And>c. clamp (data_size field) v = Some c \<Longrightarrow> int_size (data_size field)"
  shows "confined dest (unat (data_size field)) (store_clamped clamp field dest v)"
proof (cases "clamp (data_size field) v")
  case None
  then show ?thesis by (simp add: store_clamped_def)
next
  case (Some c)
  have "confined dest (unat (data_size field))
      (upd_mem (\<lambda>m. store_bytes m dest (word_bytes (unat (data_size field)) c)))"
    by (rule confined_upd) (simp add: store_bytes_outside)
  then show ?thesis using Some by (auto simp: store_clamped_def intro: confined_seq)
qed

lemma unat_u32_size [simp]: "unat (ucast (v :: u32) :: u64) = unat v"
  by (simp add: unsigned_ucast_eq take_bit_word_eq_self)

lemma alloc_bytes_le:
  "ucast (dsz :: u32) \<ge> PB_BYTES_ARRAY_T_ALLOCSIZE sz \<Longrightarrow> 4 + unat sz \<le> unat dsz"
proof -
  have "unat sz + 4 < 18446744073709551616" using unat_u32_lt [of sz] by linarith
  then have "unat (PB_BYTES_ARRAY_T_ALLOCSIZE sz) = unat sz + 4"
    by (simp add: PB_BYTES_ARRAY_T_ALLOCSIZE_def unat_word_ariths)
  then show "ucast dsz \<ge> PB_BYTES_ARRAY_T_ALLOCSIZE sz \<Longrightarrow> 4 + unat sz \<le> unat dsz"
    by (simp add: word_le_nat_alt)
qed

lemma alloc_string_le:
  assumes "\<not> (ucast ((sz :: u32) + 1) :: u64) < ucast sz" "\<not> ucast (dsz :: u32) < (ucast (sz + 1) :: u64)"
  shows "unat sz + 1 \<le> unat dsz"
proof -
  have le: "unat sz \<le> unat (sz + 1)" "unat (sz + 1) \<le> unat dsz"
    using assms by (simp_all add: word_less_nat_alt not_less)
  have "unat (sz + 1) = (unat sz + 1) mod 2 ^ 32" by (simp add: unat_word_ariths)
  moreover have "unat sz < 2 ^ 32" using unat_u32_lt [of sz] by simp
  ultimately have "unat (sz + 1) = unat sz + 1"
    using le(1) by (cases "unat sz + 1 = 2 ^ 32") simp_all
  then show ?thesis using le(2) by simp
qed

lemma u32_below_u64: "unat (v :: u32) < 2 ^ 64"
  by (rule less_trans [OF unat_u32_lt]) simp

lemma confined_fill_bytes:
  assumes "4 + unat sz \<le> unat (dsz :: u32)"
  shows "confined dest (unat dsz) (fill_bytes sz dest)"
  unfolding fill_bytes_def
proof (rule confined_seq)
  show "confined dest (unat dsz) (upd_mem (\<lambda>m. store32 m dest sz))"
    by (rule confined_store [where k = 4]) (use assms in \<open>simp_all add: stores_outside\<close>)
  show "confined dest (unat dsz) (read_into (dest + 4) (ucast sz))"
    using confined_read_into [of 4 "ucast sz" "unat dsz" dest] assms u32_below_u64 [of dsz] by simp
qed

lemma confined_fill_string:
  assumes "unat sz + 1 \<le> unat (dsz :: u32)"
  shows "confined dest (unat dsz) (fill_string sz dest)"
  unfolding confined_def
proof (intro allI impI)
  fix \<sigma> ok \<sigma>' assume "fill_string sz dest \<sigma> = Some (ok, \<sigma>')"
  then obtain \<sigma>1 where r: "read_into dest (ucast sz) \<sigma> = Some (ok, \<sigma>1)"
    and eq: "\<sigma>' = \<sigma>1\<lparr>d_mem := store8 (d_mem \<sigma>1) (dest + ucast sz) 0\<rparr>"
    by (auto simp: fill_string_def split: option.splits prod.splits)
  have "confined dest (unat dsz) (read_into (dest + of_nat 0) (ucast sz))"
    by (rule confined_read_into) (use assms u32_below_u64 [of dsz] in simp_all)
  then have "writes_within dest (unat dsz) \<sigma> \<sigma>1"
    using r unfolding confined_def by auto
  moreover have "dest + ucast sz \<in> area dest (unat dsz)"
    using assms by (simp add: area_def)
  then have "writes_within dest (unat dsz) \<sigma>1 \<sigma>'"
    by (auto simp: eq writes_within_def store8_def)
  ultimately show "writes_within dest (unat dsz) \<sigma> \<sigma>'" by (rule writes_trans)
qed

lemma confined_static_bytes:
  assumes "PB_ATYPE (f_type field) \<noteq> PB_ATYPE_POINTER"
  shows "confined dest (unat (data_size field)) (pb_dec_bytes env field dest)"
    and "confined dest (unat (data_size field)) (pb_dec_string env field dest)"
proof -
  show "confined dest (unat (data_size field)) (pb_dec_bytes env field dest)"
    unfolding pb_dec_bytes_def Let_def
    using assms by (intro confined_read) (auto simp: not_less intro!: confined_fill_bytes alloc_bytes_le)
  show "confined dest (unat (data_size field)) (pb_dec_string env field dest)"
    unfolding pb_dec_string_def Let_def
    using assms by (intro confined_read) (auto intro!: confined_fill_string alloc_string_le)
qed

lemma confined_fixed_length:
  "confined dest (unat (data_size field)) (pb_dec_fixed_length_bytes field dest)"
proof -
  have "confined dest (unat (data_size field)) (read_into (dest + of_nat 0) (ucast (data_size field)))"
    by (rule confined_read_into) (use u32_below_u64 [of "data_size field"] in simp_all)
  moreover have "confined dest (unat (data_size field))
      (upd_mem (\<lambda>m. mem_set m dest 0 (unat (data_size field))))"
    by (rule confined_upd) (simp add: stores_outside)
  ultimately show ?thesis
    unfolding pb_dec_fixed_length_bytes_def by (intro confined_read) auto
qed

lemma confined_integers:
  "confined dest (unat (data_size field)) (pb_dec_varint field dest)"
  "confined dest (unat (data_size field)) (pb_dec_uvarint field dest)"
  "confined dest (unat (data_size field)) (pb_dec_svarint field dest)"
  unfolding pb_dec_varint_def pb_dec_uvarint_def pb_dec_svarint_def Let_def
  by (intro confined_read confined_clamped; auto simp: clamp_signed_def clamp_unsigned_def int_size_def
      split: if_splits)+

lemma confined_fixed:
  "1 \<le> n \<Longrightarrow> confined dest n (pb_dec_bool field dest)"
  "4 \<le> n \<Longrightarrow> confined dest n (pb_dec_fixed32 field dest)"
  "8 \<le> n \<Longrightarrow> confined dest n (pb_dec_fixed64 field dest)"
proof -
  show "1 \<le> n \<Longrightarrow> confined dest n (pb_dec_bool field dest)"
    unfolding pb_dec_bool_def
    by (intro confined_read confined_store [where k = 1]) (simp_all add: store_bool_def stores_outside)
  show "4 \<le> n \<Longrightarrow> confined dest n (pb_dec_fixed32 field dest)"
    unfolding pb_dec_fixed32_def
    by (intro confined_read confined_store [where k = 4]) (simp_all add: stores_outside)
  show "8 \<le> n \<Longrightarrow> confined dest n (pb_dec_fixed64 field dest)"
    unfolding pb_dec_fixed64_def
    by (intro confined_read confined_store [where k = 8]) (simp_all add: stores_outside)
qed

text \<open>C4. Memory safety of static fields on hostile input: whatever the stream delivers, and
  whether decoding succeeds or fails, the decoder of a static field that is not a submessage
  writes no byte outside the \<open>data_size\<close> bytes of its member and leaves the heap alone. Lengths
  on the wire are checked before anything is stored, without wrapping; the terminator of a
  string has its place. (The fixed types do not check \<open>data_size\<close>, which the generated
  descriptors set to the size of the type.)\<close>

theorem static_field_in_bounds:
  assumes "pb_decoder calls env field dest \<sigma> = Some (ok, \<sigma>')"
    and "PB_ATYPE (f_type field) \<noteq> PB_ATYPE_POINTER"
    and "PB_LTYPE (f_type field) \<noteq> PB_LTYPE_SUBMESSAGE"
    and "PB_LTYPE (f_type field) = PB_LTYPE_BOOL \<longrightarrow> 1 \<le> data_size field"
    and "PB_LTYPE (f_type field) = PB_LTYPE_FIXED32 \<longrightarrow> 4 \<le> data_size field"
    and "PB_LTYPE (f_type field) = PB_LTYPE_FIXED64 \<longrightarrow> 8 \<le> data_size field"
  shows "(\<forall>x. x \<notin> area dest (unat (data_size field)) \<longrightarrow> d_mem \<sigma>' x = d_mem \<sigma> x) \<and>
         d_blocks \<sigma>' = d_blocks \<sigma>"
proof -
  have "confined dest (unat (data_size field)) (pb_decoder calls env field dest)"
    unfolding pb_decoder_def Let_def
    using assms(2-) confined_integers confined_fixed_length confined_static_bytes [OF assms(2)]
    by (auto simp: word_le_nat_alt intro!: confined_fixed)
  then show ?thesis using assms(1) by (simp add: confined_def writes_within_def)
qed

definition leaf_calls :: "unit dec_calls" where
  "leaf_calls = \<lparr>c_decode = (\<lambda>fs a \<sigma>. None), c_noinit = (\<lambda>fs a \<sigma>. None),
                 c_defaults = (\<lambda>fs a m. Some m), c_release_field = (\<lambda>it h. Some h)\<rparr>"

theorem static_field_in_bounds_witness:
  "\<exists>\<sigma>'. pb_decoder leaf_calls bump_env (int_field 0x07 4) 1000 (mem_state [3, 65, 66, 67]) = Some (True, \<sigma>') \<and>
         d_mem \<sigma>' 1004 = 0"
proof -
  have "map_option fst (pb_decoder leaf_calls bump_env (int_field 0x07 4) 1000 (mem_state [3, 65, 66, 67])) =
      Some True" by code_simp
  then obtain \<sigma>' where r: "pb_decoder leaf_calls bump_env (int_field 0x07 4) 1000 (mem_state [3, 65, 66, 67]) =
      Some (True, \<sigma>')" by auto
  have "(1004 :: u64) \<notin> area 1000 (unat (4 :: u32))" by (simp add: area_def)
  then show ?thesis
    using static_field_in_bounds [OF r] r
    by (auto simp: int_field_def PB_ATYPE_def PB_LTYPE_def mem_state_def)
qed

end
