(* ===== verification/PbRoundTrip.thy ===== *)
theory PbRoundTrip
  imports PbDecodeProps
begin

text \<open>
  From struct to struct: what \<open>pb_encode.c\<close> writes for a field is what \<open>pb_decode.c\<close>
  stores back.
\<close>

section \<open>Scalar fields\<close>

text \<open>The value of a scalar member, by the type of its field.\<close>

definition member_value :: "pb_field \<Rightarrow> (u64 \<Rightarrow> u8) \<Rightarrow> u64 \<Rightarrow> u64 option" where
  "member_value field m a =
     (let l = PB_LTYPE (f_type field) in
      if l = PB_LTYPE_BOOL then Some (of_bool (safe_read_bool m a))
      else if l = PB_LTYPE_VARINT \<or> l = PB_LTYPE_SVARINT then load_signed m (data_size field) a
      else if l = PB_LTYPE_UVARINT then load_unsigned m (data_size field) a
      else if l = PB_LTYPE_FIXED32 then Some (ucast (load32 m a))
      else if l = PB_LTYPE_FIXED64 then Some (load64 m a)
      else None)"

lemma load_unsigned_fits: "load_unsigned m sz a = Some v \<Longrightarrow> fits_unsigned sz v"
  by (auto simp: load_unsigned_def fits_unsigned_def int_size_def unat_ucast_le less_le_trans [OF unsigned_less]
      split: if_splits)

lemma scast_range:
  fixes w :: "'a::len word"
  assumes "LENGTH('a) = Suc n" "Suc n \<le> 64"
  shows "- (2 ^ n) \<le> sint (scast w :: u64) \<and> sint (scast w :: u64) < 2 ^ n"
proof -
  have "(ucast (scast w :: u64) :: 'a word) = w"
    using assms by (intro bit_word_eqI) (auto simp: bit_simps)
  then show ?thesis using scast_via_iff [of n "scast w", where 'a = 'a] assms by simp
qed

lemma load_signed_fits: "load_signed m sz a = Some v \<Longrightarrow> fits_signed sz v"
  using scast_range [of 7, where 'a = 8] scast_range [of 15, where 'a = 16]
    scast_range [of 31, where 'a = 32] sint_u64
  by (fastforce simp: load_signed_def fits_signed_def int_size_def split: if_splits)

text \<open>Sign extension through 32 bits changes no value of at most 32 bits.\<close>

lemma fits_signed_32:
  assumes "fits_signed sz v" "sz \<noteq> 8"
  shows "scast (ucast v :: u32) = v"
proof -
  have "- (2 ^ 31) \<le> sint v \<and> sint v < 2 ^ 31"
    using assms by (auto simp: fits_signed_def int_size_def)
  then show ?thesis using scast_via_iff [of 31 v, where 'a = 32] by simp
qed

text \<open>What a step of the decoder does on the bytes of a field: it succeeds, consumes exactly these,
  and leaves the value \<open>v\<close> in the member.\<close>

definition stores_value ::
  "pb_field \<Rightarrow> u64 \<Rightarrow> 'u dec_step \<Rightarrow> bytes \<Rightarrow> u64 \<Rightarrow> bool" where
  "stores_value field dest f bs v \<longleftrightarrow>
     (\<forall>\<sigma> rest aft. delivers Buf_read buf_holds (d_strm \<sigma>) (bs @ rest) aft \<longrightarrow>
        (\<exists>\<sigma>'. f \<sigma> = Some (True, \<sigma>') \<and> member_value field (d_mem \<sigma>') dest = Some v \<and>
              delivers Buf_read buf_holds (d_strm \<sigma>') rest aft \<and>
              i_errmsg (d_strm \<sigma>') = i_errmsg (d_strm \<sigma>)))"

lemma stores_valueI:
  fixes f :: "'u dec_step" and rd :: "'u pb_istream \<Rightarrow> ('u pb_istream, 'a) outcome"
  assumes t: "membuf.gets rd bs x"
    and k: "\<And>\<sigma> s'. rd (d_strm \<sigma>) = (Some x, s') \<Longrightarrow>
      \<exists>\<sigma>'. f \<sigma> = Some (True, \<sigma>') \<and> member_value field (d_mem \<sigma>') dest = Some v \<and> d_strm \<sigma>' = s'"
  shows "stores_value field dest f bs v"
  unfolding stores_value_def
proof (intro allI impI)
  fix \<sigma> :: "'u dstate" and rest aft
  assume "delivers Buf_read buf_holds (d_strm \<sigma>) (bs @ rest) aft"
  from t this obtain s' where "rd (d_strm \<sigma>) = (Some x, s')" "delivers Buf_read buf_holds s' rest aft"
    "i_errmsg s' = i_errmsg (d_strm \<sigma>)" by (rule takesE)
  then show "\<exists>\<sigma>'. f \<sigma> = Some (True, \<sigma>') \<and> member_value field (d_mem \<sigma>') dest = Some v \<and>
        delivers Buf_read buf_holds (d_strm \<sigma>') rest aft \<and> i_errmsg (d_strm \<sigma>') = i_errmsg (d_strm \<sigma>)"
    using k [of \<sigma> s'] by auto
qed

lemma bool_field:
  assumes "PB_LTYPE (f_type field) = PB_LTYPE_BOOL" "member_value field m src = Some v"
  shows "stores_value field dest (pb_dec_bool field dest) (varint_enc (if safe_read_bool m src then 1 else 0)) v"
proof -
  let ?b = "safe_read_bool m src"
  have t: "membuf.gets pb_decode_varint32 (varint_enc (if ?b then 1 else 0)) (of_bool ?b)"
    using membuf.decode_varint32_takes [of "of_bool ?b"] by (cases ?b) simp_all
  have v: "v = of_bool ?b" using assms by (simp add: member_value_def)
  show ?thesis
    by (rule stores_valueI [OF t])
       (simp add: pb_dec_bool_def with_read_def upd_mem_def member_value_def assms(1) v)
qed

lemma integer_field:
  assumes "PB_LTYPE (f_type field) = PB_LTYPE_VARINT \<or> PB_LTYPE (f_type field) = PB_LTYPE_UVARINT"
    and "member_value field m src = Some v"
  shows "stores_value field dest
           (if PB_LTYPE (f_type field) = PB_LTYPE_VARINT then pb_dec_varint field dest
            else pb_dec_uvarint field dest) (varint_enc v) v"
proof (rule stores_valueI [OF membuf.decode_varint_takes [of v]])
  fix \<sigma> :: "'a dstate" and s' assume r: "pb_decode_varint (d_strm \<sigma>) = (Some v, s')"
  show "\<exists>\<sigma>'. (if PB_LTYPE (f_type field) = PB_LTYPE_VARINT then pb_dec_varint field dest
            else pb_dec_uvarint field dest) \<sigma> = Some (True, \<sigma>') \<and>
          member_value field (d_mem \<sigma>') dest = Some v \<and> d_strm \<sigma>' = s'"
  proof (cases "PB_LTYPE (f_type field) = PB_LTYPE_VARINT")
    case True
    then have f: "fits_signed (data_size field) v"
      using assms(2) load_signed_fits by (auto simp: member_value_def)
    then have w: "(if data_size field = 8 then v else scast (ucast v :: u32)) = v"
      using fits_signed_32 by auto
    show ?thesis
      using conjunct1 [OF signed_field_shape [OF r w [symmetric], of dest]] f True
      by (auto simp: member_value_def)
  next
    case False
    then have "fits_unsigned (data_size field) v"
      using assms load_unsigned_fits by (auto simp: member_value_def)
    then show ?thesis
      using unsigned_field_shape [OF r, of field dest] False assms(1)
      by (auto simp: member_value_def)
  qed
qed

lemma svarint_field:
  assumes "PB_LTYPE (f_type field) = PB_LTYPE_SVARINT" "member_value field m src = Some v"
  shows "stores_value field dest (pb_dec_svarint field dest) (varint_enc (zigzag v)) v"
proof (rule stores_valueI [OF membuf.decode_svarint_takes [of v]])
  fix \<sigma> :: "'a dstate" and s' assume r: "pb_decode_svarint (d_strm \<sigma>) = (Some v, s')"
  have f: "fits_signed (data_size field) v"
    using assms load_signed_fits by (auto simp: member_value_def)
  then obtain \<sigma>' where "store_clamped clamp_signed field dest v (\<sigma>\<lparr>d_strm := s'\<rparr>) = Some (True, \<sigma>')"
    "d_strm \<sigma>' = s'" "load_signed (d_mem \<sigma>') (data_size field) dest = Some v"
    using store_signed_spec [of field dest v "\<sigma>\<lparr>d_strm := s'\<rparr>"] by auto
  then show "\<exists>\<sigma>'. pb_dec_svarint field dest \<sigma> = Some (True, \<sigma>') \<and>
          member_value field (d_mem \<sigma>') dest = Some v \<and> d_strm \<sigma>' = s'"
    using r assms(1) by (simp add: pb_dec_svarint_def with_read_def member_value_def)
qed

lemma fixed_fields:
  "PB_LTYPE (f_type field) = PB_LTYPE_FIXED32 \<Longrightarrow>
     stores_value field dest (pb_dec_fixed32 field dest) (le_bytes 4 (ucast (w :: u32))) (ucast w)"
  "PB_LTYPE (f_type field) = PB_LTYPE_FIXED64 \<Longrightarrow>
     stores_value field dest (pb_dec_fixed64 field dest) (le_bytes 8 v) v"
  by (rule stores_valueI [OF membuf.decode_fixed32_takes [of w]],
      simp add: pb_dec_fixed32_def with_read_def upd_mem_def member_value_def)
     (rule stores_valueI [OF membuf.decode_fixed64_takes [of v]],
      simp add: pb_dec_fixed64_def with_read_def upd_mem_def member_value_def)

lemma u8_upto_5: "(l :: u8) \<le> 5 \<Longrightarrow> l = 0 \<or> l = 1 \<or> l = 2 \<or> l = 3 \<or> l = 4 \<or> l = 5"
proof -
  assume "l \<le> 5"
  then have "unat l \<le> 5" by (simp add: word_le_nat_alt)
  then have "unat l = 0 \<or> unat l = 1 \<or> unat l = 2 \<or> unat l = 3 \<or> unat l = 4 \<or> unat l = 5"
    by linarith
  then show ?thesis by (simp add: word_unat_eq_iff)
qed

lemma scalar_field_wire:
  fixes env :: "'u enc_env" and denv :: "'v dec_env"
  assumes "PB_LTYPE (f_type field) \<le> PB_LTYPE_LAST_PACKABLE" "member_value field (mem env) src = Some v"
  shows "\<exists>bs. 1 \<le> length bs \<and> length bs \<le> 10 \<and>
           mem.emit (pb_encoder enc env field src) bs \<and>
           stores_value field dest (pb_decoder calls denv field dest) bs v"
proof -
  have len: "1 \<le> length (varint_enc u) \<and> length (varint_enc u) \<le> 10" for u
    using length_varint_enc [of u] by (simp add: Suc_le_eq)
  consider (bool) "PB_LTYPE (f_type field) = 0" | (int) "PB_LTYPE (f_type field) = 1 \<or> PB_LTYPE (f_type field) = 2"
    | (svarint) "PB_LTYPE (f_type field) = 3" | (f32) "PB_LTYPE (f_type field) = 4"
    | (f64) "PB_LTYPE (f_type field) = 5"
    using u8_upto_5 [OF assms(1)] by blast
  then show ?thesis
  proof cases
    case bool
    let ?b = "if safe_read_bool (mem env) src then 1 else 0"
    have "mem.emit (pb_encoder enc env field src) (varint_enc ?b)"
      using mem.encode_varint_emits [of ?b] bool
      by (simp add: pb_encoder_def pb_enc_bool_def lift_enc_def [abs_def])
    moreover have "stores_value field dest (pb_decoder calls denv field dest) (varint_enc ?b) v"
      using bool_field [OF bool assms(2), of dest] bool by (simp add: pb_decoder_def)
    ultimately show ?thesis using len by blast
  next
    case int
    have "mem.emit (pb_encoder enc env field src) (varint_enc v)"
      using mem.encode_varint_emits [of v] int assms(2)
      by (auto simp: pb_encoder_def pb_enc_varint_def pb_enc_uvarint_def lift_enc_def [abs_def]
          member_value_def)
    moreover have "stores_value field dest (pb_decoder calls denv field dest) (varint_enc v) v"
      using integer_field [OF int assms(2), of dest] int
      by (auto simp: pb_decoder_def split: if_splits)
    ultimately show ?thesis using len by blast
  next
    case svarint
    have "mem.emit (pb_encoder enc env field src) (varint_enc (zigzag v))"
      using mem.encode_svarint_emits [of v] svarint assms(2)
      by (auto simp: pb_encoder_def pb_enc_svarint_def lift_enc_def [abs_def] member_value_def)
    moreover have "stores_value field dest (pb_decoder calls denv field dest) (varint_enc (zigzag v)) v"
      using svarint_field [OF svarint assms(2), of dest] svarint by (simp add: pb_decoder_def)
    ultimately show ?thesis using len by blast
  next
    case f32
    let ?w = "load32 (mem env) src"
    have "mem.emit (pb_encoder enc env field src) (le_bytes 4 (ucast ?w))"
      using mem.encode_fixed32_emits [of ?w] f32
      by (simp add: pb_encoder_def pb_enc_fixed32_def lift_enc_def [abs_def])
    moreover have "stores_value field dest (pb_decoder calls denv field dest) (le_bytes 4 (ucast ?w)) v"
      using fixed_fields(1) [OF f32, of dest ?w] f32 assms(2) by (simp add: pb_decoder_def member_value_def)
    ultimately show ?thesis by (intro exI [of _ "le_bytes 4 (ucast ?w)"]) simp
  next
    case f64
    have "mem.emit (pb_encoder enc env field src) (le_bytes 8 v)"
      using mem.encode_fixed64_emits [of v] f64 assms(2)
      by (simp add: pb_encoder_def pb_enc_fixed64_def lift_enc_def [abs_def] member_value_def)
    moreover have "stores_value field dest (pb_decoder calls denv field dest) (le_bytes 8 v) v"
      using fixed_fields(2) [OF f64, of dest v] f64 by (simp add: pb_decoder_def)
    ultimately show ?thesis by (intro exI [of _ "le_bytes 8 v"]) simp
  qed
qed

text \<open>C2. Scalar fields survive the wire. For every type up to \<open>PB_LTYPE_FIXED64\<close> and every
  width of its member, the encoder emits one to ten bytes for the value, on any buffer with
  room, and the decoder of the same descriptor, on those bytes followed by anything, succeeds,
  stores the same value (a boolean as 0 or 1) and consumes exactly those bytes.\<close>

theorem scalar_field_roundtrip:
  fixes env :: "'u enc_env" and denv :: "unit dec_env"
  assumes "PB_LTYPE (f_type field) \<le> PB_LTYPE_LAST_PACKABLE"
    and "member_value field (mem env) src = Some v"
  shows "\<exists>bs. 1 \<le> length bs \<and> length bs \<le> 10 \<and>
    (\<forall>buf cap. length bs \<le> unat cap \<longrightarrow> unat cap \<le> length buf \<longrightarrow>
       (\<exists>st. pb_encoder enc env field src (pb_ostream_from_buffer buf cap) = Some (True, st) \<and>
             o_state st = OutBuf (bs @ drop (length bs) buf) (length bs))) \<and>
    (\<forall>\<sigma> rest. d_strm \<sigma> = on_bytes (bs @ rest) \<longrightarrow> length (bs @ rest) < 2 ^ 64 \<longrightarrow>
       (\<exists>\<sigma>'. pb_decoder calls denv field dest \<sigma> = Some (True, \<sigma>') \<and>
             member_value field (d_mem \<sigma>') dest = Some v \<and>
             i_state (d_strm \<sigma>') = BufPtr rest \<and> bytes_left (d_strm \<sigma>') = of_nat (length rest)))"
proof -
  obtain bs where len: "1 \<le> length bs" "length bs \<le> 10"
    and e: "mem.emit (pb_encoder enc env field src) bs"
    and d: "stores_value field dest (pb_decoder calls denv field dest) bs v"
    using scalar_field_wire [OF assms, of enc dest calls denv] by blast
  have enc: "\<exists>st. pb_encoder enc env field src (pb_ostream_from_buffer buf cap) = Some (True, st) \<and>
         o_state st = OutBuf (bs @ drop (length bs) buf) (length bs)"
    if "length bs \<le> unat cap" "unat cap \<le> length buf" for buf and cap :: u64
    using yields_buffer [OF e _ that(2)] that(1) len by auto
  have dec: "\<exists>\<sigma>'. pb_decoder calls denv field dest \<sigma> = Some (True, \<sigma>') \<and>
         member_value field (d_mem \<sigma>') dest = Some v \<and>
         i_state (d_strm \<sigma>') = BufPtr rest \<and> bytes_left (d_strm \<sigma>') = of_nat (length rest)"
    if "d_strm \<sigma> = on_bytes (bs @ rest)" "length (bs @ rest) < 2 ^ 64" for \<sigma> rest
  proof -
    have "delivers Buf_read buf_holds (d_strm \<sigma>) (bs @ rest) []"
      using on_bytes_delivers [OF that(2)] that(1) by simp
    then obtain \<sigma>' where "pb_decoder calls denv field dest \<sigma> = Some (True, \<sigma>')"
      "member_value field (d_mem \<sigma>') dest = Some v" "delivers Buf_read buf_holds (d_strm \<sigma>') rest []"
      using d unfolding stores_value_def by blast
    then show ?thesis by (auto simp: delivers_def buf_holds_def intro: word_eq_of_natI)
  qed
  show ?thesis using len enc dec by blast
qed

theorem scalar_field_roundtrip_witness:
  "\<exists>bs. length bs \<le> 10 \<and>
    (\<exists>st. pb_encoder (\<lambda>fs a. done_enc) (quiet_env (\<lambda>a. 0xFF)) (int_field 0x01 4) 0
            (pb_ostream_from_buffer (replicate 10 0) 10) = Some (True, st)) \<and>
    (\<exists>\<sigma>'. pb_decoder leaf_calls bump_env (int_field 0x01 4) 1000 (mem_state bs) = Some (True, \<sigma>') \<and>
          member_value (int_field 0x01 4) (d_mem \<sigma>') 1000 = Some (- 1))"
proof -
  have v: "member_value (int_field 0x01 4) (mem (quiet_env (\<lambda>a. 0xFF))) 0 = Some (- 1)" by code_simp
  have l: "PB_LTYPE (f_type (int_field 0x01 4)) \<le> PB_LTYPE_LAST_PACKABLE" by code_simp
  obtain bs where bs: "length bs \<le> 10"
    and e: "\<forall>buf cap. length bs \<le> unat cap \<longrightarrow> unat cap \<le> length buf \<longrightarrow>
       (\<exists>st. pb_encoder (\<lambda>fs a. done_enc) (quiet_env (\<lambda>a. 0xFF)) (int_field 0x01 4) 0
               (pb_ostream_from_buffer buf cap) = Some (True, st) \<and>
             o_state st = OutBuf (bs @ drop (length bs) buf) (length bs))"
    and d: "\<forall>\<sigma> rest. d_strm \<sigma> = on_bytes (bs @ rest) \<longrightarrow> length (bs @ rest) < 2 ^ 64 \<longrightarrow>
       (\<exists>\<sigma>'. pb_decoder leaf_calls bump_env (int_field 0x01 4) 1000 \<sigma> = Some (True, \<sigma>') \<and>
             member_value (int_field 0x01 4) (d_mem \<sigma>') 1000 = Some (- 1) \<and>
             i_state (d_strm \<sigma>') = BufPtr rest \<and> bytes_left (d_strm \<sigma>') = of_nat (length rest))"
    using scalar_field_roundtrip [OF l v, of "\<lambda>fs a. done_enc" leaf_calls bump_env 1000] by blast
  have "\<exists>st. pb_encoder (\<lambda>fs a. done_enc) (quiet_env (\<lambda>a. 0xFF)) (int_field 0x01 4) 0
            (pb_ostream_from_buffer (replicate 10 0) 10) = Some (True, st)"
    using e [rule_format, of 10 "replicate 10 0"] bs by auto
  moreover have "\<exists>\<sigma>'. pb_decoder leaf_calls bump_env (int_field 0x01 4) 1000 (mem_state bs) = Some (True, \<sigma>') \<and>
          member_value (int_field 0x01 4) (d_mem \<sigma>') 1000 = Some (- 1)"
    using d [rule_format, of "mem_state bs" "[]"] bs by (auto simp: mem_state_def)
  ultimately show ?thesis using bs by blast
qed

end
