(* ===== verification/PbUnknown.thy ===== *)
theory PbUnknown
  imports PbRoundTrip
begin

text \<open>
  The message loop of \<open>pb_decode_noinit\<close>: fields the descriptor does not know are skipped
  without effect, and a message lacks no required field when it is accepted.
\<close>

section \<open>The iterator after a search\<close>

definition sane :: "pb_field list \<Rightarrow> u64 \<Rightarrow> pb_field_iter \<Rightarrow> bool" where
  "sane fs d it \<longleftrightarrow> it_start it = fs \<and> dest_struct it = d \<and> it_pos it < length fs"

lemma sane_next: "fields_wf fs \<Longrightarrow> sane fs d it \<Longrightarrow> sane fs d (snd (pb_field_iter_next it))"
  by (auto simp: sane_def next_pos)

lemma find_loop_sane:
  "find_loop fuel first w it = Some (b, it') \<Longrightarrow> fields_wf fs \<Longrightarrow> sane fs d it \<Longrightarrow> sane fs d it'"
proof (induction fuel arbitrary: it)
  case (Suc fuel)
  then show ?case
    using sane_next [OF Suc.prems(2,3)] by (auto simp: Let_def split: if_splits)
qed simp

lemma iter_find_sane:
  "pb_field_iter_find it t = Some (b, it') \<Longrightarrow> fields_wf fs \<Longrightarrow> sane fs d it \<Longrightarrow> sane fs d it'"
  unfolding pb_field_iter_find_def by (rule find_loop_sane)

text \<open>A search that fails has gone round the array, so its iterator is a canonical one.\<close>

lemma find_loop_round:
  assumes "fields_wf fs" "first < length fs"
  shows "sane fs d it \<Longrightarrow> first \<le> it_pos it \<Longrightarrow> length fs - it_pos it + first \<le> fuel \<Longrightarrow>
         find_loop fuel first w it = Some (b, it') \<Longrightarrow> \<not> b \<Longrightarrow> it' = iter_at fs d first"
proof (induction fuel arbitrary: it)
  case (Suc fuel)
  note it = Suc.prems(1)
  let ?nxt = "snd (pb_field_iter_next it)"
  have nw: "\<not> w (cur_field it)" using Suc.prems(4,5) by (auto split: if_splits)
  show ?case
  proof (cases "Suc (it_pos it) < length fs")
    case True
    then have p: "it_pos ?nxt = Suc (it_pos it)"
      using it assms(1) by (simp add: sane_def next_pos)
    then have "find_loop fuel first w ?nxt = Some (b, it')"
      using Suc.prems(2,4) nw by (simp add: Let_def)
    then show ?thesis
      using Suc.IH [OF sane_next [OF assms(1) it]] Suc.prems(2,3,5) p True by simp
  next
    case False
    then have p: "Suc (it_pos it) = length fs" using it by (auto simp: sane_def)
    have n: "?nxt = iter_at fs d 0"
      using it assms(1) next_wrap [of it] p by (simp add: sane_def iter_at.simps)
    have z: "it_pos (iter_at fs d 0) = 0"
      using assms by (intro iter_at_pos) auto
    show ?thesis
    proof (cases "first = 0")
      case True
      then show ?thesis using Suc.prems(4) nw n z by (simp add: Let_def)
    next
      case nz: False
      then have f: "find_loop fuel first w (iter_at fs d 0) = Some (b, it')"
        using Suc.prems(4) nw n z by (simp add: Let_def)
      have "length (visit_order first 0 (length fs)) \<le> fuel"
        using Suc.prems(3) nz p by (simp add: visit_order_def)
      then have "find_loop fuel first w (iter_at fs d 0) =
          Some (find_result w fs d first (visit_order first 0 (length fs)))"
        using assms by (intro find_loop_enough) auto
      then show ?thesis using f Suc.prems(5) by (auto simp: find_result_def split: option.splits)
    qed
  qed
qed simp

lemma iter_find_fails:
  assumes "fields_wf fs" "sane fs d it" "pb_field_iter_find it t = Some (False, it')"
  shows "it' = iter_at fs d (it_pos it)"
  using find_loop_round [OF assms(1) _ assms(2), of "it_pos it" "length fs + 1" "wanted_tag t" False it']
    assms(2,3)
  by (simp add: pb_field_iter_find_def sane_def del: find_loop.simps)

text \<open>Messages without an extension range.\<close>

definition no_extensions :: "pb_field list \<Rightarrow> bool" where
  "no_extensions fs \<longleftrightarrow> fields_wf fs \<and> fs \<noteq> [] \<and> (\<forall>f \<in> set fs. \<not> is_extension f)"

lemma find_no_extension:
  assumes "no_extensions fs" "k < length fs"
  shows "find_extension_field (iter_at fs d k) = Some (False, iter_at fs d k)"
proof -
  have wf: "fields_wf fs" using assms by (simp add: no_extensions_def)
  have "find_loop (length fs + 1) k is_extension (iter_at fs d k) =
      Some (find_result is_extension fs d k (visit_order k k (length fs)))"
    by (rule find_loop_enough [OF wf]) (use assms in \<open>simp_all add: visit_order_def\<close>)
  moreover have "find (\<lambda>i. is_extension (fs ! i)) (visit_order k k (length fs)) = None"
    using assms by (auto simp: find_None_iff no_extensions_def visit_order_def)
  ultimately show ?thesis
    using iter_at_pos [OF wf assms(2), of d] by (simp add: find_extension_field_def find_result_def)
qed

section \<open>The start of the extension range does not matter without extensions\<close>

definition strip :: "locals \<Rightarrow> locals" where
  "strip L = L\<lparr>l_ext_start := 0\<rparr>"

definition stripped :: "'u loop_res \<Rightarrow> 'u loop_res" where
  "stripped r = map_option (\<lambda>(ok, L, \<sigma>). (ok, strip L, \<sigma>)) r"

definition plain :: "pb_field list \<Rightarrow> u64 \<Rightarrow> locals \<Rightarrow> bool" where
  "plain fs d L \<longleftrightarrow> sane fs d (l_iter L) \<and> (l_ext_start L = 0 \<or> l_ext_start L = - 1)"

lemma skip_unknown_strip: "stripped (skip_unknown wt L \<sigma>) = skip_unknown wt (strip L) \<sigma>"
  by (auto simp: stripped_def skip_unknown_def option.map_comp intro!: option.map_cong0)

lemma decode_unknown_plain:
  assumes "no_extensions fs" "l_iter L = iter_at fs d k" "k < length fs"
    and "l_ext_start L = 0 \<or> l_ext_start L = - 1" "tag \<noteq> - 1"
  shows "\<exists>e. (e = 0 \<or> e = - 1) \<and>
           decode_unknown fuel calls env wt tag L \<sigma> = skip_unknown wt (L\<lparr>l_ext_start := e\<rparr>) \<sigma>"
proof -
  have max: "\<not> (- 1 :: u32) \<le> tag" using assms(5) by (simp add: word_order.extremum_unique)
  have none: "find_extension_field (l_iter L) = Some (False, l_iter L)"
    using find_no_extension [OF assms(1,3)] by (simp add: assms(2))
  show ?thesis
  proof (cases "l_ext_start L = 0")
    case True
    then show ?thesis
      using max by (intro exI [of _ "- 1"]) (simp add: decode_unknown_def none Let_def)
  next
    case False
    then have m: "l_ext_start L = - 1" using assms(4) by blast
    then have eq: "L\<lparr>l_ext_start := - 1\<rparr> = L" by (cases L) simp
    have "decode_unknown fuel calls env wt tag L \<sigma> = skip_unknown wt (L\<lparr>l_ext_start := - 1\<rparr>) \<sigma>"
      unfolding eq using max by (simp add: decode_unknown_def m)
    then show ?thesis by blast
  qed
qed

lemma mark_strip [simp]:
  "l_iter (strip L) = l_iter L" "l_seen (strip L) = l_seen L" "l_fixed (strip L) = l_fixed L"
  "strip (L\<lparr>l_ext_start := e\<rparr>) = strip L" "strip (strip L) = strip L"
  "strip (L\<lparr>l_iter := it\<rparr>) = (strip L)\<lparr>l_iter := it\<rparr>"
  by (simp_all add: strip_def)

lemma complete_ext [simp]:
  "fixed_count_complete slot (L\<lparr>l_ext_start := e\<rparr>) \<sigma> = fixed_count_complete slot L \<sigma>"
  by (simp add: fixed_count_complete_def cong: option.case_cong)

lemma decode_known_strip:
  "stripped (decode_known calls env slot wt L \<sigma>) = decode_known calls env slot wt (strip L) \<sigma>"
  unfolding decode_known_def Let_def stripped_def
  by (auto simp: option.map_comp o_def split_def strip_def intro!: option.map_cong0)

lemma decode_one_strip:
  assumes "no_extensions fs" "plain fs d L" "tag \<noteq> - 1"
  shows "stripped (decode_one fuel calls env slot wt tag L \<sigma>) =
           (case pb_field_iter_find (l_iter L) tag of
              None \<Rightarrow> None
            | Some (False, it) \<Rightarrow> skip_unknown wt (strip L\<lparr>l_iter := it\<rparr>) \<sigma>
            | Some (True, it) \<Rightarrow> decode_known calls env slot wt (strip L\<lparr>l_iter := it\<rparr>) \<sigma>)"
proof (cases "pb_field_iter_find (l_iter L) tag")
  case None
  then show ?thesis by (simp add: decode_one_def stripped_def)
next
  case (Some r)
  obtain found it where r: "r = (found, it)" by (cases r)
  show ?thesis
  proof (cases found)
    case True
    then show ?thesis
      by (simp add: decode_one_def Some r decode_known_strip)
  next
    case False
    have wf: "fields_wf fs" and s: "sane fs d (l_iter L)"
      using assms by (simp_all add: no_extensions_def plain_def)
    have "it = iter_at fs d (it_pos (l_iter L))" "it_pos (l_iter L) < length fs"
      using iter_find_fails [OF wf s, of tag it] Some r False s by (auto simp: sane_def)
    then obtain e where "decode_unknown fuel calls env wt tag (L\<lparr>l_iter := it\<rparr>) \<sigma> =
        skip_unknown wt ((L\<lparr>l_iter := it\<rparr>)\<lparr>l_ext_start := e\<rparr>) \<sigma>"
      using decode_unknown_plain [OF assms(1), of "L\<lparr>l_iter := it\<rparr>" d "it_pos (l_iter L)" tag fuel calls env wt \<sigma>]
        assms(2,3) by (auto simp: plain_def)
    then show ?thesis
      using False by (simp add: decode_one_def Some r skip_unknown_strip)
  qed
qed

text \<open>The loop keeps the iterator in the message, and the extension start at 0 or the maximum.\<close>

lemma union_sane:
  "pb_release_union_field calls it \<sigma> = Some (ok, it', \<sigma>') \<Longrightarrow> fields_wf fs \<Longrightarrow> sane fs d it \<Longrightarrow> sane fs d it'"
  by (auto simp: pb_release_union_field_def with_iter_def Let_def dest: iter_find_sane
      split: if_splits option.splits prod.splits bool.splits)

lemma decode_field_sane:
  "decode_field calls env wt it \<sigma> = Some (ok, it', \<sigma>') \<Longrightarrow> fields_wf fs \<Longrightarrow> sane fs d it \<Longrightarrow> sane fs d it'"
  by (auto simp: decode_field_def with_iter_def dest: union_sane
      split: if_splits option.splits prod.splits bool.splits)

lemma skip_unknown_plain:
  "skip_unknown wt L \<sigma> = Some (ok, L', \<sigma>') \<Longrightarrow> L' = L"
  by (auto simp: skip_unknown_def)

lemma decode_known_plain:
  assumes "decode_known calls env slot wt L \<sigma> = Some (ok, L', \<sigma>')" "fields_wf fs" "plain fs d L"
  shows "plain fs d L'"
proof -
  let ?it = "l_iter L"
  let ?fixed = "PB_HTYPE (f_type (cur_field ?it)) = PB_HTYPE_REPEATED \<and> pSize ?it = pData ?it"
  have "sane fs d (if ?fixed then ?it\<lparr>pSize := slot\<rparr> else ?it)"
    using assms(3) by (auto simp: plain_def sane_def)
  then show ?thesis
    using assms(1,3) decode_field_sane [OF _ assms(2), of calls env wt _ _ ok _ \<sigma>' d]
    by (auto simp: decode_known_def Let_def plain_def split: if_splits)
qed

lemma decode_one_plain:
  assumes "decode_one fuel calls env slot wt tag L \<sigma> = Some (ok, L', \<sigma>')"
    and "no_extensions fs" "plain fs d L" "tag \<noteq> - 1"
  shows "plain fs d L'"
proof -
  have wf: "fields_wf fs" and s: "sane fs d (l_iter L)"
    using assms(2,3) by (simp_all add: no_extensions_def plain_def)
  obtain found it where f: "pb_field_iter_find (l_iter L) tag = Some (found, it)"
    using assms(1) by (auto simp: decode_one_def split: option.splits)
  have it: "sane fs d it" using iter_find_sane [OF f wf s] .
  then have p: "plain fs d (L\<lparr>l_iter := it\<rparr>)" using assms(3) by (simp add: plain_def)
  show ?thesis
  proof (cases found)
    case True
    then show ?thesis
      using decode_known_plain [OF _ wf p] assms(1) by (simp add: decode_one_def f)
  next
    case False
    then have "it = iter_at fs d (it_pos (l_iter L))" "it_pos (l_iter L) < length fs"
      using iter_find_fails [OF wf s, of tag it] f s by (auto simp: sane_def)
    then obtain e where e: "e = 0 \<or> e = - 1" "decode_unknown fuel calls env wt tag (L\<lparr>l_iter := it\<rparr>) \<sigma> =
        skip_unknown wt ((L\<lparr>l_iter := it\<rparr>)\<lparr>l_ext_start := e\<rparr>) \<sigma>"
      using decode_unknown_plain [OF assms(2), of "L\<lparr>l_iter := it\<rparr>" d "it_pos (l_iter L)" tag fuel calls env wt \<sigma>]
        assms(3,4) by (auto simp: plain_def)
    then have "L' = L\<lparr>l_iter := it, l_ext_start := e\<rparr>"
      using assms(1) False skip_unknown_plain by (simp add: decode_one_def f)
    then show ?thesis using it e(1) by (simp add: plain_def)
  qed
qed

lemma decoded_tag_small:
  "pb_decode_tag s = ((True, wt, tag, eof), s') \<Longrightarrow> tag \<noteq> - 1"
proof -
  assume "pb_decode_tag s = ((True, wt, tag, eof), s')"
  then obtain w :: u32 where "tag = drop_bit 3 w"
    by (auto simp: pb_decode_tag_def split: prod.splits option.splits if_splits)
  then have "\<not> bit tag 31" by (auto simp: bit_simps dest: bit_imp_le_length)
  then show "tag \<noteq> - 1" by (auto simp: bit_simps)
qed

section \<open>The loop\<close>

lemma stripped_cases:
  assumes "stripped r = stripped r'"
  shows "(r = None \<and> r' = None) \<or>
    (\<exists>ok L L' \<sigma>. r = Some (ok, L, \<sigma>) \<and> r' = Some (ok, L', \<sigma>) \<and> strip L = strip L')"
  using assms by (cases r; cases r') (auto simp: stripped_def)

lemma noinit_loop_strip:
  assumes ne: "no_extensions fs"
  shows "plain fs d L \<Longrightarrow> plain fs d L' \<Longrightarrow> strip L = strip L' \<Longrightarrow>
    stripped (noinit_loop n (decode_one fuel calls env slot) L \<sigma>) =
    stripped (noinit_loop n (decode_one fuel calls env slot) L' \<sigma>)"
proof (induction n arbitrary: L L' \<sigma> rule: less_induct)
  case (less n)
  note p = less.prems
  let ?one = "decode_one fuel calls env slot"
  show ?case
  proof (cases "bytes_left (d_strm \<sigma>) = 0")
    case True
    then show ?thesis using p(3) by (simp add: noinit_loop.simps [of n] stripped_def)
  next
    case left: False
    obtain ok wt tag eof s' where tag: "pb_decode_tag (d_strm \<sigma>) = ((ok, wt, tag, eof), s')"
      by (cases "pb_decode_tag (d_strm \<sigma>)") auto
    show ?thesis
    proof (cases ok)
      case False
      then show ?thesis using p(3) left tag
        by (simp add: noinit_loop.simps [of n] stripped_def)
    next
      case True
      then have t: "tag \<noteq> - 1" using decoded_tag_small [of "d_strm \<sigma>" wt tag eof s'] tag by simp
      let ?\<sigma> = "\<sigma>\<lparr>d_strm := s'\<rparr>"
      have it: "l_iter L = l_iter L'" using arg_cong [OF p(3), of l_iter] by simp
      have cs: "stripped (?one wt tag L ?\<sigma>) = stripped (?one wt tag L' ?\<sigma>)"
        unfolding decode_one_strip [OF ne p(1) t] decode_one_strip [OF ne p(2) t] p(3) it by (rule refl)
      from stripped_cases [OF cs] show ?thesis
      proof (elim disjE exE conjE)
        assume "?one wt tag L ?\<sigma> = None" "?one wt tag L' ?\<sigma> = None"
        then show ?thesis using True left tag by (simp add: noinit_loop.simps [of n])
      next
        fix r M \<sigma>1 M'
        assume some: "?one wt tag L ?\<sigma> = Some (r, M, \<sigma>1)"
            "?one wt tag L' ?\<sigma> = Some (r, M', \<sigma>1)" "strip M = strip M'"
        have m: "plain fs d M" "plain fs d M'"
          using decode_one_plain [OF some(1) ne p(1) t] decode_one_plain [OF some(2) ne p(2) t] by auto
        show ?thesis
        proof (cases n)
          case 0
          then show ?thesis using True left tag some
            by (cases r) (simp_all add: noinit_loop.simps [of 0] stripped_def)
        next
          case (Suc k)
          then show ?thesis using True left tag some less.IH [of k, OF _ m some(3)]
            by (cases r) (simp_all add: noinit_loop.simps [of "Suc k"] stripped_def)
        qed
      qed
    qed
  qed
qed

lemma noinit_loop_fuel:
  "noinit_loop n one L \<sigma> = Some r \<Longrightarrow> n \<le> k \<Longrightarrow> noinit_loop k one L \<sigma> = Some r"
proof (induction n arbitrary: k L \<sigma>)
  case 0
  then show ?case
    by (subst noinit_loop.simps, subst (asm) noinit_loop.simps)
       (auto split: if_splits prod.splits bool.splits option.splits)
next
  case (Suc n)
  then obtain j where k: "k = Suc j" "n \<le> j" by (cases k) auto
  show ?case
    using Suc.prems(1) Suc.IH [OF _ k(2)] unfolding k(1)
    by (subst noinit_loop.simps, subst (asm) noinit_loop.simps)
       (auto split: if_splits prod.splits bool.splits option.splits)
qed

text \<open>The first field of the stream is unknown: the loop goes on behind it.\<close>

lemma find_absent:
  assumes "fields_wf fs" "fs \<noteq> []" "num \<notin> f_tag ` set fs"
  shows "pb_field_iter_find (iter_at fs d 0) num = Some (False, iter_at fs d 0)"
proof -
  have "find_loop (length fs + 1) 0 (wanted_tag num) (iter_at fs d 0) =
      Some (find_result (wanted_tag num) fs d 0 (visit_order 0 0 (length fs)))"
    by (rule find_loop_enough) (use assms in \<open>simp_all add: visit_order_def\<close>)
  moreover have "find (\<lambda>i. wanted_tag num (fs ! i)) (visit_order 0 0 (length fs)) = None"
    using assms by (auto simp: find_None_iff wanted_tag_def visit_order_def)
  ultimately show ?thesis
    using assms by (simp add: pb_field_iter_find_def find_result_def iter_at_pos)
qed

lemma skip_record:
  assumes "payload wt pay" "0 < unat num" "unat num < 2 ^ 29"
    and "rec = varint_enc (tag_word wt num) @ pay" "length (rec @ rest) < 2 ^ 64"
  shows "\<exists>s1. pb_decode_tag (on_bytes (rec @ rest)) = ((True, wt, num, False), s1) \<and>
           pb_skip_field s1 wt = (Some (), on_bytes rest)"
proof -
  let ?s = "on_bytes (rec @ rest)"
  have d: "delivers Buf_read buf_holds ?s (varint_enc (tag_word wt num) @ (pay @ rest)) []"
    using on_bytes_delivers [of "rec @ rest"] assms(4,5) by simp
  have "unat wt < 8" using assms(1) by cases simp_all
  moreover have "num \<noteq> 0" using assms(2) by auto
  ultimately obtain s1 where s1: "pb_decode_tag ?s = ((True, wt, num, False), s1)"
    "delivers Buf_read buf_holds s1 (pay @ rest) []" "i_errmsg s1 = i_errmsg ?s"
    using membuf.decode_tag_takes [OF _ assms(3) _ d] by blast
  from membuf.skip_field_takes [OF assms(1)] s1(2) obtain s2
    where s2: "pb_skip_field s1 wt = (Some (), s2)" "delivers Buf_read buf_holds s2 rest []"
      "i_errmsg s2 = i_errmsg s1" by (rule takesE)
  have "i_state s2 = BufPtr rest" "bytes_left s2 = of_nat (length rest)" "i_callback s2 = Buf_read"
    using s2(2) by (auto simp: delivers_def buf_holds_def intro: word_eq_of_natI)
  then have "s2 = on_bytes rest"
    using s2(3) s1(3) by (cases s2) (simp add: on_bytes_def pb_istream_from_buffer_def)
  then show ?thesis using s1(1) s2(1) by blast
qed

lemma noinit_skips:
  fixes env :: "unit dec_env"
  assumes ne: "no_extensions fs" and new: "num \<notin> f_tag ` set fs"
    and pay: "payload wt pay" and num: "0 < unat num" "unat num < 2 ^ 29"
    and rec: "rec = varint_enc (tag_word wt num) @ pay" "length (rec @ rest) < 2 ^ 64"
    and ok: "decode_noinit fuel calls env slot fs d (\<sigma>\<lparr>d_strm := on_bytes rest\<rparr>) = Some r"
  shows "decode_noinit fuel calls env slot fs d (\<sigma>\<lparr>d_strm := on_bytes (rec @ rest)\<rparr>) = Some r"
proof -
  define L where "L = \<lparr>l_iter = iter_at fs d 0, l_ext_start = 0, l_fixed = None, l_seen = [0, 0]\<rparr>"
  define \<tau> where "\<tau> = \<sigma>\<lparr>d_mem := store32 (d_mem \<sigma>) slot 0\<rparr>"
  let ?one = "decode_one fuel calls env slot"
  let ?in = "\<lambda>bs. \<tau>\<lparr>d_strm := on_bytes bs\<rparr>"
  have wf: "fields_wf fs" and "fs \<noteq> []" using ne by (simp_all add: no_extensions_def)
  then have pL: "plain fs d L" using iter_at_pos [OF wf, of 0 d]
    by (simp add: plain_def sane_def L_def)
  obtain s1 where s1: "pb_decode_tag (on_bytes (rec @ rest)) = ((True, wt, num, False), s1)"
    and skip: "pb_skip_field s1 wt = (Some (), on_bytes rest)"
    using skip_record [OF pay num rec] by blast
  have t: "num \<noteq> - 1" using decoded_tag_small [OF s1] .
  have find: "pb_field_iter_find (l_iter L) num = Some (False, iter_at fs d 0)"
    using find_absent [OF wf \<open>fs \<noteq> []\<close> new] by (simp add: L_def)
  have "stripped (?one wt num L (\<tau>\<lparr>d_strm := s1\<rparr>)) = Some (True, strip L, ?in rest)"
    by (simp add: decode_one_strip [OF ne pL t] find)
       (simp add: skip_unknown_def with_read_def skip dec_ok_def L_def strip_def)
  then obtain M where M: "?one wt num L (\<tau>\<lparr>d_strm := s1\<rparr>) = Some (True, M, ?in rest)"
    "strip M = strip L" by (auto simp: stripped_def)
  have pM: "plain fs d M" by (rule decode_one_plain [OF M(1) ne pL t])
  have left: "bytes_left (on_bytes xs) = of_nat (length xs)" for xs
    by (simp add: on_bytes_def pb_istream_from_buffer_def)
  have un: "unat (of_nat (length xs) :: u64) = length xs" if "length xs < 2 ^ 64" for xs :: bytes
    using that by (simp add: unat_of_nat)
  have n: "unat (bytes_left (on_bytes (rec @ rest))) = length rec + length rest"
    "unat (bytes_left (on_bytes rest)) = length rest"
    using un [OF rec(2)] un [of rest] rec(2) by (simp_all add: left)
  have "0 < length rec" by (simp add: rec(1))
  then obtain k where k: "length rec + length rest = Suc k" "length rest \<le> k"
    by (cases "length rec") auto
  have left0: "bytes_left (on_bytes (rec @ rest)) \<noteq> 0" using n(1) k(1) by auto
  have first: "noinit_loop (Suc k) ?one L (?in (rec @ rest)) = noinit_loop k ?one M (?in rest)"
    by (subst noinit_loop.simps) (simp add: s1 M(1) left0 del: length_append)
  have start: "decode_noinit fuel calls env slot fs d (\<sigma>\<lparr>d_strm := s\<rparr>) =
      (case noinit_loop (unat (bytes_left s)) ?one L (\<tau>\<lparr>d_strm := s\<rparr>) of
           None \<Rightarrow> None
         | Some (False, L', \<sigma>') \<Rightarrow> Some (False, \<sigma>')
         | Some (True, L', \<sigma>') \<Rightarrow>
             if \<not> fixed_count_complete slot L' \<sigma>'
             then dec_err ''wrong size for fixed count field'' \<sigma>'
             else if \<not> all_required_seen (required_count (l_iter L')) (l_seen L')
             then dec_err ''missing required field'' \<sigma>'
             else Some (True, \<sigma>'))" for s
    by (cases \<sigma>) (simp add: decode_noinit_def L_def \<tau>_def iter_at.simps)
  show ?thesis
  proof (cases "noinit_loop (length rest) ?one L (?in rest)")
    case None
    then show ?thesis using ok by (simp add: start n)
  next
    case (Some x)
    obtain b L1 \<sigma>1 where x: "x = (b, L1, \<sigma>1)" by (cases x)
    have "noinit_loop k ?one L (?in rest) = Some (b, L1, \<sigma>1)"
      using noinit_loop_fuel [OF Some k(2)] by (simp add: x)
    then obtain L2 where L2: "noinit_loop k ?one M (?in rest) = Some (b, L2, \<sigma>1)" "strip L2 = strip L1"
      using stripped_cases [OF noinit_loop_strip [OF ne pM pL M(2), of k fuel calls env slot "?in rest"]]
      by auto
    have same: "l_iter L2 = l_iter L1" "l_seen L2 = l_seen L1" "l_fixed L2 = l_fixed L1"
      using arg_cong [OF L2(2), of l_iter] arg_cong [OF L2(2), of l_seen] arg_cong [OF L2(2), of l_fixed]
      by simp_all
    have "fixed_count_complete slot L2 \<sigma>1 = fixed_count_complete slot L1 \<sigma>1"
      unfolding fixed_count_complete_def same by (rule refl)
    then show ?thesis
      using ok Some L2(1) by (simp add: start n k(1) first x same split: bool.splits if_splits)
  qed
qed

text \<open>C3. Forward compatibility: a message that starts with a field the descriptor does not know
  (any number, any wire type, any payload, canonical or not) decodes exactly like the message
  without it, with the same return value, memory, heap and stream, for every descriptor without
  extensions and whatever follows.\<close>

theorem unknown_field_skipped:
  fixes env :: "unit dec_env"
  assumes "no_extensions fs" "num \<notin> f_tag ` set fs"
    and "payload wt pay" "0 < unat num" "unat num < 2 ^ 29"
    and "rec = varint_enc (tag_word wt num) @ pay" "length (rec @ rest) < 2 ^ 64"
    and "pb_decode_noinit depth env fs dest (\<sigma>\<lparr>d_strm := on_bytes rest\<rparr>) = Some r"
  shows "pb_decode_noinit depth env fs dest (\<sigma>\<lparr>d_strm := on_bytes (rec @ rest)\<rparr>) = Some r"
  using assms(8) noinit_skips [OF assms(1-7)] by (cases depth) simp_all

definition two_fields :: "pb_field list" where
  "two_fields =
     [\<lparr>f_tag = 1, f_type = 0x02, data_offset = 0, size_offset = 0,
       data_size = 1, array_size = 0, f_ptr = 0\<rparr>]"

theorem unknown_field_skipped_witness:
  "map_option fst (pb_decode_noinit 1 bump_env two_fields 1000 (mem_state [0x12, 2, 65, 66, 0x08, 7])) =
     Some True"
proof -
  let ?in = "\<lambda>bs. (mem_state [])\<lparr>d_strm := on_bytes bs\<rparr>"
  have t: "varint_enc (tag_word 2 2) = [0x12]"
    by (simp add: tag_word_def varint_enc_small)
  have l: "varint_enc (of_nat (length [65, 66 :: u8])) = [2]"
    by (simp add: varint_enc_small)
  have pay: "payload 2 ([2] @ [65, 66])"
    using pay_string [of "[65, 66]"] l by simp
  have ne: "no_extensions two_fields"
    by (simp add: no_extensions_def two_fields_def fields_wf_def is_extension_def PB_LTYPE_def)
  have "map_option fst (pb_decode_noinit 1 bump_env two_fields 1000 (?in [0x08, 7])) = Some True"
    by code_simp
  then obtain \<sigma>' where "pb_decode_noinit 1 bump_env two_fields 1000 (?in [0x08, 7]) = Some (True, \<sigma>')"
    by auto
  from unknown_field_skipped [OF ne _ pay _ _ _ _ this, of 2 "[0x12, 2, 65, 66]"] t
  show ?thesis by (simp add: two_fields_def mem_state_def)
qed

section \<open>Required fields\<close>

definition is_required :: "pb_field \<Rightarrow> bool" where
  "is_required f \<longleftrightarrow> PB_HTYPE (f_type f) = PB_HTYPE_REQUIRED"

lemma required_index_at:
  assumes "fields_wf fs"
  shows "k < length fs \<Longrightarrow>
    required_field_index (iter_at fs d k) = of_nat (length (filter is_required (take k fs)))"
proof (induction k)
  case 0
  then show ?case by (simp add: iter_at.simps pb_field_iter_begin_def Let_def)
next
  case (Suc k)
  then have k: "k < length fs" by simp
  have "required_field_index (iter_at fs d (Suc k)) =
      (if is_required (fs ! k) then required_field_index (iter_at fs d k) + 1
       else required_field_index (iter_at fs d k))"
    using assms Suc.prems k
    by (auto simp: iter_at.simps(2) pb_field_iter_next_def Let_def iter_at_pos fields_wf_def
        inside_union_def is_required_def)
  then show ?case using Suc.IH [OF k] k by (simp add: take_Suc_conv_app_nth)
qed

lemma seek_end_at:
  assumes "fields_wf fs"
  shows "k < length fs \<Longrightarrow>
    seek_end (iter_at fs d k) =
      (required_field_index (iter_at fs d (length fs - 1)), f_type (fs ! (length fs - 1)), iter_at fs d 0)"
proof (induction "length fs - k" arbitrary: k)
  case (Suc n)
  show ?case
  proof (cases "Suc k < length fs")
    case True
    then have "seek_end (iter_at fs d k) = seek_end (iter_at fs d (Suc k))"
      using next_iter_at [OF assms, of k d] by (subst seek_end.simps) simp
    then show ?thesis using Suc.hyps(1) [of "Suc k"] Suc.hyps(2) True by simp
  next
    case False
    then have "k = length fs - 1" using Suc.prems by simp
    then show ?thesis
      using next_iter_at [OF assms Suc.prems, of d] False assms Suc.prems
      by (subst seek_end.simps) simp
  qed
qed simp

lemma required_count_spec:
  assumes "fields_wf fs" "fs \<noteq> []" "length fs < 2 ^ 32"
  shows "required_count (iter_at fs d 0) = of_nat (min 64 (length (filter is_required fs)))"
proof -
  let ?r = "length (filter is_required fs)"
  have "filter is_required fs = filter is_required (butlast fs) @ filter is_required [last fs]"
    by (metis append_butlast_last_id filter_append assms(2))
  then have split: "?r = length (filter is_required (take (length fs - 1) fs)) +
      (if is_required (fs ! (length fs - 1)) then 1 else 0)"
    using assms(2) by (simp add: butlast_conv_take last_conv_nth)
  have "f_tag (cur_field (iter_at fs d 0)) \<noteq> 0"
    using assms(1,2) by (simp add: fields_wf_def)
  then have "required_count (iter_at fs d 0) = (if 64 < (of_nat ?r :: u32) then 64 else of_nat ?r)"
    using seek_end_at [OF assms(1), of 0 d] required_index_at [OF assms(1), of "length fs - 1" d] assms(2) split
    by (auto simp: required_count_def is_required_def)
  moreover have "?r < 2 ^ 32" using assms(3) length_filter_le [of is_required fs] by linarith
  then have "unat (of_nat ?r :: u32) = ?r" by (simp add: unat_of_nat)
  ultimately show ?thesis by (auto simp: word_less_nat_alt min_def)
qed

lemma none_seen:
  assumes "n \<le> 64"
  shows "all_required_seen (of_nat n) [0, 0] \<longleftrightarrow> n = 0"
proof -
  have un: "unat (of_nat n :: u32) = n" using assms by (simp add: unat_of_nat)
  have words: "unat (drop_bit 5 (of_nat n :: u32)) = n div 32"
    by (simp add: unat_drop_bit_div un)
  show ?thesis
  proof (cases "n < 32")
    case True
    have "(of_nat n :: u32) AND 31 = take_bit 5 (of_nat n)"
      by (simp add: take_bit_eq_mask mask_eq_exp_minus_1)
    also have "\<dots> = of_nat n"
      using True by (simp add: word_unat_eq_iff unsigned_take_bit_eq un take_bit_nat_eq_self_iff)
    finally have m: "(of_nat n :: u32) AND 31 = of_nat n" .
    have "drop_bit (32 - n) (- 1 :: u32) \<noteq> 0" if "0 < n"
    proof -
      have "bit (drop_bit (32 - n) (- 1 :: u32)) 0" using that by (simp add: bit_simps)
      then show ?thesis by auto
    qed
    moreover have "(of_nat n :: u32) = 0 \<longleftrightarrow> n = 0"
      by (simp add: word_unat_eq_iff un)
    ultimately show ?thesis
      using True by (auto simp: all_required_seen_def words m un)
  next
    case False
    then have "0 \<in> set [0..<n div 32]" by auto
    then have "\<not> list_all (\<lambda>i. [0, 0 :: u32] ! i = - 1) [0..<n div 32]"
      unfolding list_all_iff by (auto intro!: bexI [of _ 0])
    then show ?thesis using False by (simp add: all_required_seen_def words)
  qed
qed

text \<open>C16. Required fields cannot be missed: at the end of the input with nothing decoded, a message
  of any well-formed descriptor is accepted exactly if the descriptor has no required field;
  otherwise the error is "missing required field". The count the code makes by running the
  iterator to the end of the array, with its correction for the last entry and its cap of 64,
  is the number of required fields.\<close>

theorem missing_required_field:
  assumes "fields_wf fs" "fs \<noteq> []" "length fs < 2 ^ 32" "bytes_left (d_strm \<sigma>) = 0"
  shows "pb_decode_noinit (Suc depth) env fs dest \<sigma> =
    (let \<sigma>0 = \<sigma>\<lparr>d_mem := store32 (d_mem \<sigma>) (d_local env depth) 0\<rparr> in
     if \<exists>f \<in> set fs. PB_HTYPE (f_type f) = PB_HTYPE_REQUIRED
     then Some (False, \<sigma>0\<lparr>d_strm := pb_set_error (d_strm \<sigma>) ''missing required field''\<rparr>)
     else Some (True, \<sigma>0))"
proof -
  let ?n = "length (filter is_required fs)"
  have "min 64 ?n = 0 \<longleftrightarrow> ?n = 0" by (cases "filter is_required fs") (simp_all add: min_def)
  also have "\<dots> \<longleftrightarrow> (\<forall>f \<in> set fs. \<not> is_required f)" by (simp add: filter_empty_conv)
  finally have "all_required_seen (required_count (iter_at fs dest 0)) [0, 0] \<longleftrightarrow>
      (\<forall>f \<in> set fs. \<not> is_required f)"
    using none_seen [of "min 64 ?n"] by (simp only: required_count_spec [OF assms(1-3)] min.cobounded1)
  then show ?thesis
    using assms(4)
    by (simp add: decode_noinit_def noinit_loop.simps [of 0] fixed_count_complete_def Let_def dec_err_def
        is_required_def iter_at.simps(1))
qed

theorem missing_required_field_witness:
  "pb_decode_noinit 1 bump_env example_fields 1000 (mem_state []) =
     Some (False, (mem_state [])\<lparr>d_mem := store32 (\<lambda>x. 0) 0x9000 0,
                                 d_strm := pb_set_error (on_bytes []) ''missing required field''\<rparr>)"
  using missing_required_field [of example_fields "mem_state []" 0 bump_env 1000]
  by (simp add: example_fields_def fields_wf_def mem_state_def on_bytes_def pb_istream_from_buffer_def
      PB_HTYPE_def bump_env_def)

end
