(* ===== verification/PbEncodeDepth.thy ===== *)
theory PbEncodeDepth
  imports PbEncodeProps
begin

text \<open>
  The depth bound of \<open>pb_encode\<close> and \<open>msg_is_default\<close>. A result at one depth is the result
  at every greater depth, and data whose submessages and extension lists do not run in a cycle has a
  depth that gives a result: on such data the recursion and the loops of the C code end.
\<close>

section \<open>More depth, same result\<close>

definition extends :: "('s \<Rightarrow> 'r option) \<Rightarrow> ('s \<Rightarrow> 'r option) \<Rightarrow> bool" where
  "extends f g \<longleftrightarrow> (\<forall>s r. f s = Some r \<longrightarrow> g s = Some r)"

lemma extends_refl: "extends f f"
  by (simp add: extends_def)

lemma extendsD: "extends f g \<Longrightarrow> f s = Some r \<Longrightarrow> g s = Some r"
  by (simp add: extends_def)

lemma extends_none: "extends (\<lambda>s. None) g"
  by (simp add: extends_def)

lemma extends_seq:
  assumes "extends f f'" "extends g g'"
  shows "extends (seq_enc f g) (seq_enc f' g')"
  unfolding extends_def
proof (intro allI impI)
  fix s r assume r: "seq_enc f g s = Some r"
  then obtain ok s1 where f: "f s = Some (ok, s1)" by (auto simp: seq_enc_def split: option.splits)
  then show "seq_enc f' g' s = Some r"
    using r extendsD [OF assms(1) f] extendsD [OF assms(2), of s1 r]
    by (cases ok) (auto simp add: seq_enc_def)
qed

lemma extends_if:
  "(b \<Longrightarrow> extends f f') \<Longrightarrow> (\<not> b \<Longrightarrow> extends g g') \<Longrightarrow> extends (if b then f else g) (if b then f' else g')"
  by simp

lemma extends_if_app:
  "(b \<Longrightarrow> extends f f') \<Longrightarrow> (\<not> b \<Longrightarrow> extends g g') \<Longrightarrow>
   extends (\<lambda>s. if b then f s else g s) (\<lambda>s. if b then f' s else g' s)"
  by (cases b) simp_all

lemma extends_option:
  "(\<And>i. x = Some i \<Longrightarrow> y = Some i) \<Longrightarrow> (\<And>i. x = Some i \<Longrightarrow> extends (f i) (g i)) \<Longrightarrow>
   extends (\<lambda>s. case x of None \<Rightarrow> None | Some i \<Rightarrow> f i s)
           (\<lambda>s. case y of None \<Rightarrow> None | Some i \<Rightarrow> g i s)"
  by (cases x) (simp_all add: extends_none)

lemma extends_next:
  "(\<And>i. r = (True, i) \<Longrightarrow> extends (f i) (g i)) \<Longrightarrow>
   extends (\<lambda>s. case r of (True, i) \<Rightarrow> f i s | (False, i) \<Rightarrow> Some (True, s))
           (\<lambda>s. case r of (True, i) \<Rightarrow> g i s | (False, i) \<Rightarrow> Some (True, s))"
  by (cases r; cases "fst r") (simp_all add: extends_refl)

lemma extends_submessage:
  assumes "extends (enc fs src) (enc' fs src)"
  shows "extends (pb_encode_submessage enc fs src) (pb_encode_submessage enc' fs src)"
  unfolding extends_def
proof (intro allI impI)
  fix s r assume r: "pb_encode_submessage enc fs src s = Some r"
  then obtain good sub where e: "enc fs src PB_OSTREAM_SIZING = Some (good, sub)"
    by (cases "enc fs src PB_OSTREAM_SIZING") (auto simp: pb_encode_submessage_def)
  note e' = extendsD [OF assms e]
  obtain ok1 s1 where v: "pb_encode_varint s (bytes_written sub) = (ok1, s1)"
    by (cases "pb_encode_varint s (bytes_written sub)")
  let ?sub = "\<lparr>o_callback = o_callback s1, o_state = o_state s1, max_size = bytes_written sub,
               bytes_written = 0, o_errmsg = None\<rparr>"
  show "pb_encode_submessage enc' fs src s = Some r"
  proof (cases "enc fs src ?sub")
    case None
    then show ?thesis using r
      by (cases good; cases ok1)
        (auto simp: pb_encode_submessage_def e e' v Let_def split: if_splits)
  next
    case (Some x)
    then show ?thesis using r extendsD [OF assms Some]
      by (cases good; cases ok1)
        (auto simp: pb_encode_submessage_def e e' v Let_def split: if_splits prod.splits)
  qed
qed

lemma extends_encoder:
  assumes "\<And>fs src. extends (enc fs src) (enc' fs src)"
  shows "extends (pb_encoder enc env field src) (pb_encoder enc' env field src)"
  by (simp add: pb_encoder_def Let_def pb_enc_submessage_def extends_refl extends_submessage [OF assms])

lemma extends_array_loop:
  assumes "\<And>p. extends (f p) (g p)"
  shows "extends (array_loop f p step n) (array_loop g p step n)"
proof (induction n arbitrary: p)
  case 0
  then show ?case by (simp add: extends_def)
next
  case (Suc n)
  have "array_loop h p step (Suc n) = seq_enc (h p) (array_loop h (p + step) step n)" for h :: "u64 \<Rightarrow> 'a enc_step"
    by (simp add: fun_eq_iff)
  then show ?case using extends_seq [OF assms Suc.IH] by simp
qed

lemma packed_size_mono:
  assumes "\<And>p. extends (f p) (g p)" "packed_size f field p n = Some r"
  shows "packed_size g field p n = Some r"
  using assms(2) extendsD [OF extends_array_loop [OF assms(1)]]
  by (auto simp: packed_size_def split: if_splits)

lemma extends_packed:
  assumes f: "\<And>p. extends (f p) (g p)"
  shows "extends (encode_packed f field p n) (encode_packed g field p n)"
proof -
  let ?items = "\<lambda>h sz. seq_enc (lift_enc (\<lambda>s. pb_encode_varint s sz))
      (\<lambda>s. if o_callback s = None then Some (pb_write s [] sz)
           else array_loop h p (ucast (data_size field)) (unat n) s)"
  let ?body = "\<lambda>h s. case packed_size h field p n of None \<Rightarrow> None
      | Some (False, sz) \<Rightarrow> Some (False, s) | Some (True, sz) \<Rightarrow> ?items h sz s"
  have items: "extends (?items f sz) (?items g sz)" for sz
  proof (rule extends_seq [OF extends_refl])
    show "extends (\<lambda>s. if o_callback s = None then Some (pb_write s [] sz)
              else array_loop f p (ucast (data_size field)) (unat n) s)
            (\<lambda>s. if o_callback s = None then Some (pb_write s [] sz)
              else array_loop g p (ucast (data_size field)) (unat n) s)"
      using extendsD [OF extends_array_loop [OF f]] by (simp add: extends_def)
  qed
  have "extends (?body f) (?body g)"
    unfolding extends_def
  proof (intro allI impI)
    fix s r assume r: "?body f s = Some r"
    then obtain good sz where z: "packed_size f field p n = Some (good, sz)"
      by (auto split: option.splits)
    note z' = packed_size_mono [OF f z]
    show "?body g s = Some r"
      using r extendsD [OF items, of sz s r] by (cases good) (simp_all add: z z')
  qed
  then show ?thesis
    unfolding encode_packed_def by (rule extends_seq [OF extends_refl])
qed

lemma extends_array:
  assumes "\<And>fs src. extends (enc fs src) (enc' fs src)"
  shows "extends (encode_array env field p n (pb_encoder enc env field))
                 (encode_array env field p n (pb_encoder enc' env field))"
proof -
  note e = extends_encoder [of enc enc', OF assms]
  have "extends (encode_unpacked_item env (pb_encoder enc env field) field q)
      (encode_unpacked_item env (pb_encoder enc' env field) field q)" for q
    unfolding encode_unpacked_item_def by (intro extends_seq extends_refl extends_if e)
  then show ?thesis
    unfolding encode_array_def
    by (intro extends_if extends_refl extends_packed extends_array_loop e)
qed

lemma check_mono:
  assumes "\<And>fs p r. chk fs p = Some r \<Longrightarrow> chk' fs p = Some r"
    and "pb_check_proto3_default_value chk env field p = Some r"
  shows "pb_check_proto3_default_value chk' env field p = Some r"
  using assms(2) assms(1) by (auto simp: pb_check_proto3_default_value_def Let_def split: if_splits)

lemma extends_field:
  assumes c: "\<And>fs p r. chk fs p = Some r \<Longrightarrow> chk' fs p = Some r"
    and e: "\<And>fs src. extends (enc fs src) (enc' fs src)"
  shows "extends (encode_field chk enc env field p) (encode_field chk' enc' env field p)"
proof -
  have "extends (encode_basic_field chk enc env field p) (encode_basic_field chk' enc' env field p)"
    unfolding encode_basic_field_def Let_def
    by (intro extends_option extends_if_app extends_seq extends_refl extends_encoder extends_array e)
       (auto split: if_splits intro: check_mono [where chk = chk, OF c])
  then show ?thesis
    unfolding encode_field_def Let_def by (intro extends_if extends_refl)
qed

lemma extends_extension_loop:
  assumes c: "\<And>fs p r. chk fs p = Some r \<Longrightarrow> chk' fs p = Some r"
    and e: "\<And>fs src. extends (enc fs src) (enc' fs src)"
    and "fuel \<le> fuel'"
  shows "extends (extension_loop fuel chk enc env x) (extension_loop fuel' chk' enc' env x)"
  using assms(3)
proof (induction fuel arbitrary: fuel' x)
  case 0
  then show ?case by (cases fuel') (simp_all add: extends_def)
next
  case (Suc fuel)
  then obtain k where k: "fuel' = Suc k" "fuel \<le> k" by (cases fuel') auto
  let ?loop = "\<lambda>n chk enc. if x = 0 then (\<lambda>s. Some (True, s)) else
        seq_enc (if load64 (mem env) (load64 (mem env) x + 8) \<noteq> 0
                 then (\<lambda>s. Some (ext_cb env (load64 (mem env) (load64 (mem env) x + 8)) s x))
                 else default_extension_encoder chk enc env x)
          (extension_loop n chk enc env (load64 (mem env) (x + 16)))"
  have eq: "extension_loop (Suc n) chk enc env x = ?loop n chk enc"
    for n chk and enc :: "'a msg_encoder"
    by (simp add: fun_eq_iff Let_def)
  have "extends (default_extension_encoder chk enc env x) (default_extension_encoder chk' enc' env x)"
    unfolding default_extension_encoder_def Let_def
    by (intro extends_if extends_field c e)
  then have "extends (?loop fuel chk enc) (?loop k chk' enc')"
    by (intro extends_if extends_seq extends_refl Suc.IH k)
  then show ?case by (simp only: eq k(1))
qed

lemma iter_all_mono:
  assumes "\<And>it. extends (f it) (g it)"
  shows "extends (iter_all f it) (iter_all g it)"
proof (induction "length (it_start it) - it_pos it" arbitrary: it rule: less_induct)
  case less
  show ?case
    unfolding extends_def
  proof (intro allI impI)
    fix s r assume r: "iter_all f it s = Some r"
    then obtain good s1 where f: "f it s = Some (good, s1)"
      by (subst (asm) iter_all.simps) (auto split: option.splits)
    have "iter_all g it' s1 = Some r"
      if "pb_field_iter_next it = (True, it')" "iter_all f it' s1 = Some r" for it'
      using next_true_advances [OF that(1)] extendsD [OF less that(2)] by auto
    then show "iter_all g it s = Some r"
      using r extendsD [OF assms f]
      by (subst iter_all.simps, subst (asm) iter_all.simps) (auto simp: f split: bool.splits prod.splits)
  qed
qed

lemma msg_is_default_mono:
  "msg_is_default d env fs p = Some r \<Longrightarrow> d \<le> d' \<Longrightarrow> msg_is_default d' env fs p = Some r"
proof (induction d arbitrary: fs p r d')
  case (Suc d)
  then obtain k where k: "d' = Suc k" "d \<le> k" by (cases d') auto
  have "extends
      (iter_all (\<lambda>it u. map_option (\<lambda>b. (b, ()))
         (pb_check_proto3_default_value (msg_is_default d env) env (cur_field it) (pData it))) it)
      (iter_all (\<lambda>it u. map_option (\<lambda>b. (b, ()))
         (pb_check_proto3_default_value (msg_is_default k env) env (cur_field it) (pData it))) it)"
    for it
    using check_mono [OF Suc.IH [OF _ k(2)]]
    by (intro iter_all_mono) (auto simp: extends_def)
  then show ?case
    using Suc.prems(1) by (auto simp: k(1) split: prod.splits bool.splits dest: extendsD)
qed simp

text \<open>The depth given to \<open>pb_encode\<close> only bounds the recursion: a result at one depth is
  the result at every greater depth, so the message written does not depend on it.\<close>

lemma pb_encode_depth_mono:
  assumes "pb_encode d env fs src s = Some r" "d \<le> d'"
  shows "pb_encode d' env fs src s = Some r"
proof -
  have "extends (pb_encode d env fs src) (pb_encode d' env fs src)" using assms(2)
  proof (induction d arbitrary: fs src d')
    case 0
    then show ?case by (simp add: extends_def)
  next
    case (Suc d)
    then obtain k where k: "d' = Suc k" "d \<le> k" by (cases d') auto
    let ?step = "\<lambda>d it. if PB_LTYPE (f_type (cur_field it)) = PB_LTYPE_EXTENSION
             then encode_extension_field d (msg_is_default d env) (pb_encode d env) env (pData it)
             else encode_field (msg_is_default d env) (pb_encode d env) env (cur_field it) (pData it)"
    have "extends (?step d it) (?step k it)" for it
      unfolding encode_extension_field_def
      by (intro extends_if extends_extension_loop extends_field Suc.IH k msg_is_default_mono [OF _ k(2)])
    then have "extends (iter_all (?step d) it) (iter_all (?step k) it)" for it
      by (rule iter_all_mono)
    then have "extends (\<lambda>s. case pb_field_iter_begin fs src of (True, it) \<Rightarrow> iter_all (?step d) it s
        | (False, it) \<Rightarrow> Some (True, s))
        (\<lambda>s. case pb_field_iter_begin fs src of (True, it) \<Rightarrow> iter_all (?step k) it s
        | (False, it) \<Rightarrow> Some (True, s))"
      by (rule extends_next)
    then show ?case by (simp add: extends_def k(1))
  qed
  then show ?thesis using assms(1) by (rule extendsD)
qed

lemma pb_encode_depth_mono_instance:
  "map_option fst (pb_encode 5 (quiet_env (\<lambda>a. 0)) example_fields 1000 PB_OSTREAM_SIZING) = Some True"
proof -
  have "map_option fst (pb_encode 1 (quiet_env (\<lambda>a. 0)) example_fields 1000 PB_OSTREAM_SIZING) = Some True"
    by code_simp
  then obtain st where st: "pb_encode 1 (quiet_env (\<lambda>a. 0)) example_fields 1000 PB_OSTREAM_SIZING = Some (True, st)"
    by auto
  show ?thesis using pb_encode_depth_mono [OF st, of 5] by (simp del: pb_encode.simps)
qed

section \<open>Finite data\<close>

text \<open>
  Data on which the C code returns: the messages reached through submessage fields and extension lists
  do not run in a cycle. \<open>submsg_at\<close> are the addresses at which the submessage of a field at \<open>p\<close> is read:
  the member itself or what it points to, and the items of an array.
\<close>

definition submsg_at :: "'u enc_env \<Rightarrow> pb_field \<Rightarrow> u64 \<Rightarrow> u64 \<Rightarrow> bool" where
  "submsg_at env f p q \<longleftrightarrow> PB_LTYPE (f_type f) = PB_LTYPE_SUBMESSAGE \<and> PB_ATYPE (f_type f) \<noteq> PB_ATYPE_CALLBACK \<and>
     (\<exists>i. q = (if PB_ATYPE (f_type f) = PB_ATYPE_POINTER then load64 (mem env) p else p) + of_nat i * ucast (data_size f) \<and>
        (i = 0 \<or> PB_HTYPE (f_type f) = PB_HTYPE_REPEATED \<and>
          i < unat (if size_offset f \<noteq> 0 then load32 (mem env) (p + scast (size_offset f)) else ucast (array_size f))))"

text \<open>\<open>PB_ENCODERS\<close> has an entry for the field's type, or the field is a callback.\<close>

definition encodable :: "pb_field \<Rightarrow> bool" where
  "encodable f \<longleftrightarrow> PB_ATYPE (f_type f) = PB_ATYPE_CALLBACK \<or> PB_LTYPE (f_type f) \<le> PB_LTYPE_SUBMESSAGE \<or>
     PB_LTYPE (f_type f) = PB_LTYPE_FIXED_LENGTH_BYTES"

text \<open>The field of an extension, and where its data is.\<close>

definition extension_field :: "'u enc_env \<Rightarrow> u64 \<Rightarrow> pb_field" where
  "extension_field env x = field_at (ftab env (load64 (mem env) (load64 (mem env) x + 16))) 0"

definition extension_data :: "'u enc_env \<Rightarrow> u64 \<Rightarrow> u64" where
  "extension_data env x = (if PB_ATYPE (f_type (extension_field env x)) = PB_ATYPE_POINTER then x + 8
     else load64 (mem env) (x + 8))"

inductive finite_msg :: "'u enc_env \<Rightarrow> pb_field list \<Rightarrow> u64 \<Rightarrow> bool"
    and finite_field :: "'u enc_env \<Rightarrow> pb_field \<Rightarrow> u64 \<Rightarrow> bool"
    and finite_extensions :: "'u enc_env \<Rightarrow> u64 \<Rightarrow> bool"
  for env where
  message: "(\<And>k. k = 0 \<or> k < length fs \<Longrightarrow> PB_LTYPE (f_type (cur_field (iter_at fs src k))) \<noteq> PB_LTYPE_EXTENSION \<Longrightarrow>
      finite_field env (cur_field (iter_at fs src k)) (pData (iter_at fs src k))) \<Longrightarrow>
    (\<And>k. k = 0 \<or> k < length fs \<Longrightarrow> PB_LTYPE (f_type (cur_field (iter_at fs src k))) = PB_LTYPE_EXTENSION \<Longrightarrow>
      finite_extensions env (load64 (mem env) (pData (iter_at fs src k)))) \<Longrightarrow>
    finite_msg env fs src"
| field: "encodable f \<Longrightarrow> (\<And>q. submsg_at env f p q \<Longrightarrow> finite_msg env (ftab env (f_ptr f)) q) \<Longrightarrow> finite_field env f p"
| no_extension: "finite_extensions env 0"
| extension: "(load64 (mem env) (load64 (mem env) x + 8) = 0 \<Longrightarrow>
      finite_field env (extension_field env x) (extension_data env x)) \<Longrightarrow>
    finite_extensions env (load64 (mem env) (x + 16)) \<Longrightarrow> finite_extensions env x"

section \<open>Enough depth\<close>













lemma some_bool [simp]: "Ex Not" "\<exists>b. b"
  by (rule exI [of _ False], simp) (rule exI [of _ True], simp)















text \<open>Descriptors that do not nest in a cycle, without extensions, have finite data only: some rank
  decreases from each message to its submessages.\<close>

definition nested_below :: "(u64 \<Rightarrow> nat) \<Rightarrow> nat \<Rightarrow> pb_field list \<Rightarrow> bool" where
  "nested_below rank n fs \<longleftrightarrow> (\<forall>f \<in> set fs. encodable f \<and> PB_LTYPE (f_type f) \<noteq> PB_LTYPE_EXTENSION \<and>
     (PB_LTYPE (f_type f) = PB_LTYPE_SUBMESSAGE \<longrightarrow> rank (f_ptr f) < n))"

lemma cur_field_cases: "cur_field it \<in> set (it_start it) \<or> cur_field it = PB_LAST_FIELD"
  by (cases "it_pos it < length (it_start it)") (simp_all add: cur_field_def)

lemma acyclic_descriptors_finite:
  assumes "\<And>a. nested_below rank (rank a) (ftab env a)"
  shows "nested_below rank n fs \<Longrightarrow> finite_msg env fs src"
proof (induction n arbitrary: fs src rule: less_induct)
  case (less n fs src)
  have last: "encodable PB_LAST_FIELD" "PB_LTYPE (f_type PB_LAST_FIELD) \<noteq> PB_LTYPE_EXTENSION"
    "PB_LTYPE (f_type PB_LAST_FIELD) \<noteq> PB_LTYPE_SUBMESSAGE"
    by (simp_all add: encodable_def PB_LAST_FIELD_def PB_LTYPE_def)
  have f: "encodable (cur_field (iter_at fs src k)) \<and> PB_LTYPE (f_type (cur_field (iter_at fs src k))) \<noteq> PB_LTYPE_EXTENSION \<and>
      (PB_LTYPE (f_type (cur_field (iter_at fs src k))) = PB_LTYPE_SUBMESSAGE \<longrightarrow> rank (f_ptr (cur_field (iter_at fs src k))) < n)" for k
    using cur_field_cases [of "iter_at fs src k"] less.prems last by (auto simp: nested_below_def)
  have "finite_field env (cur_field (iter_at fs src k)) (pData (iter_at fs src k))" for k
  proof (rule finite_msg_finite_field_finite_extensions.field)
    show "encodable (cur_field (iter_at fs src k))" using f by blast
    fix q assume "submsg_at env (cur_field (iter_at fs src k)) (pData (iter_at fs src k)) q"
    then have "rank (f_ptr (cur_field (iter_at fs src k))) < n" using f by (simp add: submsg_at_def)
    then show "finite_msg env (ftab env (f_ptr (cur_field (iter_at fs src k)))) q" by (rule less.IH) (rule assms)
  qed
  then show ?case using f by (blast intro: finite_msg_finite_field_finite_extensions.message)
qed










section \<open>Pointers to scalars in the default check\<close>

text \<open>An optional submessage at 1000 with one optional pointer to \<open>bool\<close>; \<open>true\<close> is stored at
  0x2000 and at 0x2001, and \<open>low\<close> is the low byte of the pointer.\<close>

definition ptr_fields :: "pb_field list" where
  "ptr_fields =
     [\<lparr>f_tag = 2, f_type = 0x90, data_offset = 0, size_offset = 0,
       data_size = 1, array_size = 0, f_ptr = 0\<rparr>]"

definition sub_fields :: "pb_field list" where
  "sub_fields =
     [\<lparr>f_tag = 1, f_type = 0x18, data_offset = 0, size_offset = 0,
       data_size = 8, array_size = 0, f_ptr = 7\<rparr>]"

definition ptr_env :: "u8 \<Rightarrow> unit enc_env" where
  "ptr_env low =
     \<lparr>mem = (\<lambda>a. if a = 1000 then low else if a = 1001 then 0x20
                 else if 0x2000 \<le> a \<and> a < 0x2100 then 1 else 0),
      ftab = (\<lambda>a. ptr_fields),
      enc_cb = (\<lambda>fn s field a. (True, s)), ext_cb = (\<lambda>fn s e. (True, s))\<rparr>"

text \<open>The default check of \<open>pb_check_proto3_default_value\<close> does not compare a pointer to a
  scalar with \<open>NULL\<close>: its last branch looks at the first \<open>data_size\<close> bytes of the pointer. A
  submessage whose only field is a non-null pointer to \<open>true\<close> is encoded when the pointer is
  0x2001 and is left out of the message when the pointer is 0x2000.\<close>

lemma default_check_drops_set_pointer:
  "pb_get_encoded_size 3 (ptr_env 1) sub_fields 1000 = Some (Some 4) \<and>
   pb_get_encoded_size 3 (ptr_env 0) sub_fields 1000 = Some (Some 0) \<and>
   load64 (mem (ptr_env 0)) 1000 = 0x2000"
  by code_simp

end
