(* ===== verification/Outcome.thy ===== *)
theory Outcome
  imports Prelude
begin

text \<open>
  Sequencing of fallible operations on a state, for the byte-string components: the C pattern
  \<open>if (!f(s, &x)) return 0; ...\<close>. A failing call leaves the state where it stopped.
\<close>

definition bindo :: "('s \<Rightarrow> ('s, 'a) outcome) \<Rightarrow> ('a \<Rightarrow> 's \<Rightarrow> ('s, 'b) outcome) \<Rightarrow> 's \<Rightarrow> ('s, 'b) outcome" where
  "bindo f g s = (case f s of (None, s') \<Rightarrow> (None, s') | (Some v, s') \<Rightarrow> g v s')"

definition reto :: "'a \<Rightarrow> 's \<Rightarrow> ('s, 'a) outcome" where
  "reto v s = (Some v, s)"

definition failo :: "'s \<Rightarrow> ('s, 'a) outcome" where
  "failo s = (None, s)"

definition requireo :: "bool \<Rightarrow> 's \<Rightarrow> ('s, unit) outcome" where
  "requireo c s = (if c then Some () else None, s)"

lemma outcome_simps [simp]:
  "reto v s = (Some v, s)" "failo s = (None, s)"
  "requireo c s = (if c then Some () else None, s)"
  by (simp_all add: reto_def failo_def requireo_def)

lemma bindo_Some [simp]: "f s = (Some v, s') \<Longrightarrow> bindo f g s = g v s'"
  by (simp add: bindo_def)

lemma bindo_None [simp]: "f s = (None, s') \<Longrightarrow> bindo f g s = (None, s')"
  by (simp add: bindo_def)

lemma bindo_eq_Some_iff:
  "bindo f g s = (Some v, s'') \<longleftrightarrow> (\<exists>u s'. f s = (Some u, s') \<and> g u s' = (Some v, s''))"
  by (auto simp: bindo_def split: prod.splits option.splits)

lemma bindo_cong [fundef_cong]:
  "f s = f' s' \<Longrightarrow> (\<And>v t. f' s' = (Some v, t) \<Longrightarrow> g v t = g' v t) \<Longrightarrow> bindo f g s = bindo f' g' s'"
  by (auto simp: bindo_def split: prod.splits option.splits)

lemma bindo_assoc: "bindo (bindo f g) h = bindo f (\<lambda>v. bindo (g v) h)"
  by (rule ext) (auto simp: bindo_def split: prod.splits option.splits)

lemma bindo_reto [simp]: "bindo (reto v) g = g v" "bindo f reto = f"
  by (rule ext, auto simp: bindo_def split: prod.splits option.splits)+

end
