(* ===== verification/Cbs.thy ===== *)
theory Cbs
  imports Outcome
begin

text \<open>
  \<open>crypto/bytestring/cbs.c\<close>: the byte-string reader of BoringSSL and its DER parser. A \<open>CBS\<close> is a
  pointer and a length; the model is the list of the bytes it delimits, so that \<open>CBS_data\<close> is
  the list and \<open>CBS_len\<close> its length. A parser that fails leaves the \<open>CBS\<close> where it stopped.
\<close>

type_synonym CBS = bytes

definition CBS_len :: "CBS \<Rightarrow> u64" where
  "CBS_len cbs = of_nat (length cbs)"

section \<open>Elementary readers\<close>

definition cbs_get :: "u64 \<Rightarrow> CBS \<Rightarrow> (CBS, bytes) outcome" where
  "cbs_get n cbs =
     (if CBS_len cbs < n then (None, cbs) else (Some (take (unat n) cbs), drop (unat n) cbs))"

definition CBS_skip :: "u64 \<Rightarrow> CBS \<Rightarrow> (CBS, unit) outcome" where
  "CBS_skip n = bindo (cbs_get n) (\<lambda>dummy. reto ())"

text \<open>
  \<open>OPENSSL_memdup\<close> and \<open>OPENSSL_strndup\<close> of \<open>crypto/mem.c\<close>; \<open>malloc n\<close> says whether the allocator
  returns a block of \<open>n\<close> bytes. \<open>null\<close> tells a null data pointer, possible for an empty \<open>CBS\<close>.
\<close>

definition OPENSSL_memdup :: "(u64 \<Rightarrow> bool) \<Rightarrow> bytes \<Rightarrow> bytes option" where
  "OPENSSL_memdup malloc bs = (if bs = [] then None else if malloc (CBS_len bs) then Some bs else None)"

fun OPENSSL_strnlen :: "bytes \<Rightarrow> nat" where
  "OPENSSL_strnlen [] = 0"
| "OPENSSL_strnlen (b # bs) = (if b = 0 then 0 else Suc (OPENSSL_strnlen bs))"

definition OPENSSL_strndup :: "(u64 \<Rightarrow> bool) \<Rightarrow> bool \<Rightarrow> bytes \<Rightarrow> bytes option" where
  "OPENSSL_strndup malloc null str =
     (let n = OPENSSL_strnlen str; alloc_size = (of_nat n :: u64) + 1 in
      if null \<or> alloc_size < of_nat n \<or> \<not> malloc alloc_size then None
      else Some (take n str @ [0]))"

text \<open>\<open>CBS_stow\<close>: the return value and the copy (\<open>None\<close> is the null pointer).\<close>

definition CBS_stow :: "(u64 \<Rightarrow> bool) \<Rightarrow> CBS \<Rightarrow> bool \<times> bytes option" where
  "CBS_stow malloc cbs =
     (if CBS_len cbs = 0 then (True, None)
      else case OPENSSL_memdup malloc cbs of None \<Rightarrow> (False, None) | Some p \<Rightarrow> (True, Some p))"

definition CBS_strdup :: "(u64 \<Rightarrow> bool) \<Rightarrow> bool \<Rightarrow> CBS \<Rightarrow> bytes option" where
  "CBS_strdup malloc null cbs = OPENSSL_strndup malloc null cbs"

definition CBS_contains_zero_byte :: "CBS \<Rightarrow> bool" where
  "CBS_contains_zero_byte cbs \<longleftrightarrow> 0 \<in> set cbs"

text \<open>The constant-time comparison of \<open>crypto/mem.c\<close>; the loop reads \<open>len\<close> bytes of both.\<close>

definition CRYPTO_memcmp :: "bytes \<Rightarrow> bytes \<Rightarrow> nat \<Rightarrow> u8" where
  "CRYPTO_memcmp a b len = fold (\<lambda>i x. x OR (a ! i XOR b ! i)) [0..<len] 0"

definition CBS_mem_equal :: "CBS \<Rightarrow> bytes \<Rightarrow> bool" where
  "CBS_mem_equal cbs data \<longleftrightarrow>
     (if CBS_len data \<noteq> CBS_len cbs then False else CRYPTO_memcmp cbs data (length data) = 0)"

definition be_word :: "bytes \<Rightarrow> u64" where
  "be_word data = foldl (\<lambda>result b. push_bit 8 result OR ucast b) 0 data"

definition cbs_get_u :: "u64 \<Rightarrow> CBS \<Rightarrow> (CBS, u64) outcome" where
  "cbs_get_u len = bindo (cbs_get len) (\<lambda>data. reto (be_word data))"

definition CBS_get_u8 :: "CBS \<Rightarrow> (CBS, u8) outcome" where
  "CBS_get_u8 = bindo (cbs_get 1) (\<lambda>v. reto (v ! 0))"

definition CBS_get_u16 :: "CBS \<Rightarrow> (CBS, u16) outcome" where
  "CBS_get_u16 = bindo (cbs_get_u 2) (\<lambda>v. reto (ucast v))"

definition CBS_get_u24 :: "CBS \<Rightarrow> (CBS, u32) outcome" where
  "CBS_get_u24 = bindo (cbs_get_u 3) (\<lambda>v. reto (ucast v))"

definition CBS_get_u32 :: "CBS \<Rightarrow> (CBS, u32) outcome" where
  "CBS_get_u32 = bindo (cbs_get_u 4) (\<lambda>v. reto (ucast v))"

definition CBS_get_u64 :: "CBS \<Rightarrow> (CBS, u64) outcome" where
  "CBS_get_u64 = cbs_get_u 8"

text \<open>The byte swaps of \<open>crypto/internal.h\<close>.\<close>

definition CRYPTO_bswap2 :: "u16 \<Rightarrow> u16" where
  "CRYPTO_bswap2 x = drop_bit 8 x OR push_bit 8 x"

definition CRYPTO_bswap4 :: "u32 \<Rightarrow> u32" where
  "CRYPTO_bswap4 y =
     (let x = drop_bit 16 y OR push_bit 16 y
      in drop_bit 8 (x AND 0xFF00FF00) OR push_bit 8 (x AND 0x00FF00FF))"

definition CRYPTO_bswap8 :: "u64 \<Rightarrow> u64" where
  "CRYPTO_bswap8 x =
     ucast (CRYPTO_bswap4 (ucast (drop_bit 32 x))) OR push_bit 32 (ucast (CRYPTO_bswap4 (ucast x)))"

definition CBS_get_u16le :: "CBS \<Rightarrow> (CBS, u16) outcome" where
  "CBS_get_u16le = bindo CBS_get_u16 (\<lambda>v. reto (CRYPTO_bswap2 v))"

definition CBS_get_u32le :: "CBS \<Rightarrow> (CBS, u32) outcome" where
  "CBS_get_u32le = bindo CBS_get_u32 (\<lambda>v. reto (CRYPTO_bswap4 v))"

definition CBS_get_u64le :: "CBS \<Rightarrow> (CBS, u64) outcome" where
  "CBS_get_u64le = bindo (cbs_get_u 8) (\<lambda>v. reto (CRYPTO_bswap8 v))"

definition CBS_get_last_u8 :: "CBS \<Rightarrow> (CBS, u8) outcome" where
  "CBS_get_last_u8 cbs =
     (if CBS_len cbs = 0 then (None, cbs) else (Some (cbs ! (length cbs - 1)), take (length cbs - 1) cbs))"

definition CBS_get_bytes :: "u64 \<Rightarrow> CBS \<Rightarrow> (CBS, CBS) outcome" where
  "CBS_get_bytes len = bindo (cbs_get len) (\<lambda>v. reto v)"

definition CBS_copy_bytes :: "u64 \<Rightarrow> CBS \<Rightarrow> (CBS, bytes) outcome" where
  "CBS_copy_bytes len = bindo (cbs_get len) (\<lambda>v. reto v)"

definition cbs_get_length_prefixed :: "u64 \<Rightarrow> CBS \<Rightarrow> (CBS, CBS) outcome" where
  "cbs_get_length_prefixed len_len = bindo (cbs_get_u len_len) (\<lambda>len. CBS_get_bytes len)"

definition CBS_get_u8_length_prefixed :: "CBS \<Rightarrow> (CBS, CBS) outcome" where
  "CBS_get_u8_length_prefixed = cbs_get_length_prefixed 1"

definition CBS_get_u16_length_prefixed :: "CBS \<Rightarrow> (CBS, CBS) outcome" where
  "CBS_get_u16_length_prefixed = cbs_get_length_prefixed 2"

definition CBS_get_u24_length_prefixed :: "CBS \<Rightarrow> (CBS, CBS) outcome" where
  "CBS_get_u24_length_prefixed = cbs_get_length_prefixed 3"

section \<open>Tags and lengths\<close>

text \<open>The loop of \<open>parse_base128_integer\<close>, entered with the value \<open>v\<close> read so far.\<close>

fun base128_loop :: "u64 \<Rightarrow> CBS \<Rightarrow> (CBS, u64) outcome" where
  "base128_loop v [] = (None, [])"
| "base128_loop v (b # cbs) =
     (if drop_bit (64 - 7) v \<noteq> 0 then (None, cbs)
      else if v = 0 \<and> b = 0x80 then (None, cbs)
      else let v' = push_bit 7 v OR ucast (b AND 0x7F)
           in if b AND 0x80 \<noteq> 0 then base128_loop v' cbs else (Some v', cbs))"

definition parse_base128_integer :: "CBS \<Rightarrow> (CBS, u64) outcome" where
  "parse_base128_integer = base128_loop 0"

abbreviation (input) CBS_ASN1_TAG_SHIFT :: nat where "CBS_ASN1_TAG_SHIFT \<equiv> 24"
abbreviation (input) CBS_ASN1_CONSTRUCTED :: u32 where "CBS_ASN1_CONSTRUCTED \<equiv> 0x20000000"
abbreviation (input) CBS_ASN1_TAG_NUMBER_MASK :: u32 where "CBS_ASN1_TAG_NUMBER_MASK \<equiv> 0x1FFFFFFF"
abbreviation (input) CBS_ASN1_BOOLEAN :: u32 where "CBS_ASN1_BOOLEAN \<equiv> 1"
abbreviation (input) CBS_ASN1_INTEGER :: u32 where "CBS_ASN1_INTEGER \<equiv> 2"
abbreviation (input) CBS_ASN1_OCTETSTRING :: u32 where "CBS_ASN1_OCTETSTRING \<equiv> 4"

definition parse_asn1_tag :: "CBS \<Rightarrow> (CBS, u32) outcome" where
  "parse_asn1_tag =
     bindo CBS_get_u8 (\<lambda>tag_byte.
       let tag = push_bit CBS_ASN1_TAG_SHIFT (ucast tag_byte AND 0xE0 :: u32);
           tag_number = (ucast tag_byte AND 0x1F :: u32)
       in if tag_number = 0x1F
          then bindo parse_base128_integer (\<lambda>v.
                 bindo (requireo (\<not> (ucast CBS_ASN1_TAG_NUMBER_MASK < v \<or> v < 0x1F))) (\<lambda>_.
                   reto (tag OR ucast v)))
          else reto (tag OR tag_number))"

text \<open>
  The length octets: from the byte after the tag, the length of the whole element and of
  its header. \<open>header_len\<close> counts the tag and the first length octet.
\<close>

definition asn1_element_length :: "bool \<Rightarrow> u32 \<Rightarrow> u64 \<Rightarrow> u8 \<Rightarrow> CBS \<Rightarrow> (u64 \<times> u64) option" where
  "asn1_element_length ber_ok tag header_len length_byte header =
     (if length_byte AND 0x80 = 0 then Some (ucast length_byte + header_len, header_len)
      else let num_bytes = (ucast (length_byte AND 0x7F) :: u64) in
        if ber_ok \<and> tag AND CBS_ASN1_CONSTRUCTED \<noteq> 0 \<and> num_bytes = 0
        then Some (header_len, header_len)
        else if num_bytes = 0 \<or> 4 < num_bytes then None
        else case fst (cbs_get_u num_bytes header) of
               None \<Rightarrow> None
             | Some len64 \<Rightarrow>
                 if len64 < 128 then None
                 else if drop_bit (unat ((num_bytes - 1) * 8)) len64 = 0 then None
                 else if len64 + header_len + num_bytes < len64 then None
                 else Some (len64 + (header_len + num_bytes), header_len + num_bytes))"

text \<open>\<open>*out\<close>, \<open>*out_tag\<close> and \<open>*out_header_len\<close>; the local \<open>header\<close> is a copy of \<open>*cbs\<close>.\<close>

definition cbs_get_any_asn1_element :: "bool \<Rightarrow> CBS \<Rightarrow> (CBS, CBS \<times> u32 \<times> u64) outcome" where
  "cbs_get_any_asn1_element ber_ok cbs =
     (case bindo parse_asn1_tag (\<lambda>tag. bindo CBS_get_u8 (\<lambda>length_byte. reto (tag, length_byte))) cbs of
        (None, _) \<Rightarrow> (None, cbs)
      | (Some (tag, length_byte), header) \<Rightarrow>
          (case asn1_element_length ber_ok tag (CBS_len cbs - CBS_len header) length_byte header of
             None \<Rightarrow> (None, cbs)
           | Some (len, header_len) \<Rightarrow>
               bindo (CBS_get_bytes len) (\<lambda>out. reto (out, tag, header_len)) cbs))"

definition CBS_get_any_asn1_element :: "CBS \<Rightarrow> (CBS, CBS \<times> u32 \<times> u64) outcome" where
  "CBS_get_any_asn1_element = cbs_get_any_asn1_element False"

definition CBS_get_any_ber_asn1_element :: "CBS \<Rightarrow> (CBS, CBS \<times> u32 \<times> u64) outcome" where
  "CBS_get_any_ber_asn1_element = cbs_get_any_asn1_element True"

text \<open>\<open>CBS_skip(out, header_len)\<close> on the element read: its failure is an assertion.\<close>

definition skip_header :: "u64 \<Rightarrow> CBS \<Rightarrow> 's \<Rightarrow> ('s, CBS) outcome" where
  "skip_header header_len out s =
     (case CBS_skip header_len out of (None, _) \<Rightarrow> (None, s) | (Some _, out') \<Rightarrow> (Some out', s))"

definition CBS_get_any_asn1 :: "CBS \<Rightarrow> (CBS, CBS \<times> u32) outcome" where
  "CBS_get_any_asn1 =
     bindo CBS_get_any_asn1_element (\<lambda>(out, tag, header_len).
       bindo (skip_header header_len out) (\<lambda>out'. reto (out', tag)))"

definition cbs_get_asn1 :: "u32 \<Rightarrow> bool \<Rightarrow> CBS \<Rightarrow> (CBS, CBS) outcome" where
  "cbs_get_asn1 tag_value skip =
     bindo CBS_get_any_asn1_element (\<lambda>(out, tag, header_len).
       bindo (requireo (tag = tag_value)) (\<lambda>_.
         if skip then skip_header header_len out else reto out))"

definition CBS_get_asn1 :: "u32 \<Rightarrow> CBS \<Rightarrow> (CBS, CBS) outcome" where
  "CBS_get_asn1 tag_value = cbs_get_asn1 tag_value True"

definition CBS_get_asn1_element :: "u32 \<Rightarrow> CBS \<Rightarrow> (CBS, CBS) outcome" where
  "CBS_get_asn1_element tag_value = cbs_get_asn1 tag_value False"

definition CBS_peek_asn1_tag :: "u32 \<Rightarrow> CBS \<Rightarrow> bool" where
  "CBS_peek_asn1_tag tag_value cbs \<longleftrightarrow>
     (if CBS_len cbs < 1 then False else fst (parse_asn1_tag cbs) = Some tag_value)"

section \<open>Values\<close>

text \<open>The accumulation loop of \<open>CBS_get_asn1_uint64\<close>.\<close>

fun uint64_loop :: "u64 \<Rightarrow> bytes \<Rightarrow> u64 option" where
  "uint64_loop out [] = Some out"
| "uint64_loop out (b # data) =
     (if drop_bit 56 out \<noteq> 0 then None else uint64_loop (push_bit 8 out OR ucast b) data)"

definition asn1_uint64_value :: "bytes \<Rightarrow> u64 option" where
  "asn1_uint64_value data =
     (if length data = 0 then None
      else if data ! 0 AND 0x80 \<noteq> 0 then None
      else if data ! 0 = 0 \<and> 1 < length data \<and> data ! 1 AND 0x80 = 0 then None
      else uint64_loop 0 data)"

definition CBS_get_asn1_uint64 :: "CBS \<Rightarrow> (CBS, u64) outcome" where
  "CBS_get_asn1_uint64 =
     bindo (CBS_get_asn1 CBS_ASN1_INTEGER) (\<lambda>data cbs. (asn1_uint64_value data, cbs))"

text \<open>
  The union of \<open>CBS_get_asn1_int64\<close>: eight bytes in memory order (least significant first),
  filled with the sign, then overwritten by the value's bytes from its last.
\<close>

definition asn1_int64_value :: "bytes \<Rightarrow> u64 option" where
  "asn1_int64_value data =
     (let len = length data in
      if len = 0 \<or> 8 < len then None
      else if 1 < len \<and> data ! 0 = 0 \<and> data ! 1 AND 0x80 = 0 then None
      else if 1 < len \<and> data ! 0 = 0xFF \<and> data ! 1 AND 0x80 \<noteq> 0 then None
      else let fill = (if data ! 0 AND 0x80 \<noteq> 0 then 0xFF else 0 :: u8);
               ubytes = fold (\<lambda>i u. u[i := data ! (len - i - 1)]) [0..<len] (replicate 8 fill)
           in Some (be_word (rev ubytes)))"

definition CBS_get_asn1_int64 :: "CBS \<Rightarrow> (CBS, u64) outcome" where
  "CBS_get_asn1_int64 =
     bindo (CBS_get_asn1 CBS_ASN1_INTEGER) (\<lambda>data cbs. (asn1_int64_value data, cbs))"

definition CBS_get_asn1_bool :: "CBS \<Rightarrow> (CBS, bool) outcome" where
  "CBS_get_asn1_bool =
     bindo (CBS_get_asn1 CBS_ASN1_BOOLEAN) (\<lambda>bs.
       bindo (requireo (CBS_len bs = 1)) (\<lambda>_.
         let value = bs ! 0
         in bindo (requireo (value = 0 \<or> value = 0xFF)) (\<lambda>_. reto (value \<noteq> 0))))"

definition CBS_get_optional_asn1 :: "u32 \<Rightarrow> CBS \<Rightarrow> (CBS, CBS option) outcome" where
  "CBS_get_optional_asn1 tag cbs =
     (if CBS_peek_asn1_tag tag cbs
      then bindo (CBS_get_asn1 tag) (\<lambda>out. reto (Some out)) cbs
      else (Some None, cbs))"

text \<open>A parser on the local \<open>child\<close> that must consume all of it.\<close>

definition parse_all :: "(CBS \<Rightarrow> (CBS, 'a) outcome) \<Rightarrow> CBS \<Rightarrow> 's \<Rightarrow> ('s, 'a) outcome" where
  "parse_all f child s =
     (case f child of
        (None, _) \<Rightarrow> (None, s)
      | (Some v, child') \<Rightarrow> (if CBS_len child' \<noteq> 0 then None else Some v, s))"

definition CBS_get_optional_asn1_octet_string :: "u32 \<Rightarrow> CBS \<Rightarrow> (CBS, CBS \<times> bool) outcome" where
  "CBS_get_optional_asn1_octet_string tag =
     bindo (CBS_get_optional_asn1 tag) (\<lambda>child.
       case child of
         Some c \<Rightarrow> bindo (parse_all (CBS_get_asn1 CBS_ASN1_OCTETSTRING) c) (\<lambda>out. reto (out, True))
       | None \<Rightarrow> reto ([], False))"

definition CBS_get_optional_asn1_uint64 :: "u32 \<Rightarrow> u64 \<Rightarrow> CBS \<Rightarrow> (CBS, u64) outcome" where
  "CBS_get_optional_asn1_uint64 tag default_value =
     bindo (CBS_get_optional_asn1 tag) (\<lambda>child.
       case child of
         Some c \<Rightarrow> parse_all CBS_get_asn1_uint64 c
       | None \<Rightarrow> reto default_value)"

definition CBS_get_optional_asn1_bool :: "u32 \<Rightarrow> bool \<Rightarrow> CBS \<Rightarrow> (CBS, bool) outcome" where
  "CBS_get_optional_asn1_bool tag default_value =
     bindo (CBS_get_optional_asn1 tag) (\<lambda>child.
       case child of
         Some c \<Rightarrow>
           (\<lambda>s. case CBS_get_asn1 CBS_ASN1_BOOLEAN c of
                  (None, _) \<Rightarrow> (None, s)
                | (Some child2, c') \<Rightarrow>
                    (if CBS_len child2 \<noteq> 1 \<or> CBS_len c' \<noteq> 0 then None
                     else let boolean = child2 ! 0
                          in if boolean = 0 then Some False
                             else if boolean = 0xFF then Some True else None, s))
       | None \<Rightarrow> reto default_value)"

definition CBS_is_valid_asn1_bitstring :: "CBS \<Rightarrow> bool" where
  "CBS_is_valid_asn1_bitstring cbs =
     (case CBS_get_u8 cbs of
        (None, _) \<Rightarrow> False
      | (Some num_unused_bits, cin) \<Rightarrow>
          if 7 < num_unused_bits then False
          else if num_unused_bits = 0 then True
          else (case CBS_get_last_u8 cin of
                  (None, _) \<Rightarrow> False
                | (Some lastb, _) \<Rightarrow>
                    lastb AND (push_bit (unat num_unused_bits) 1 - 1) = 0))"

definition CBS_asn1_bitstring_has_bit :: "CBS \<Rightarrow> u32 \<Rightarrow> bool" where
  "CBS_asn1_bitstring_has_bit cbs b \<longleftrightarrow>
     (if \<not> CBS_is_valid_asn1_bitstring cbs then False
      else let byte_num = drop_bit 3 b + 1; bit_num = 7 - (b AND 7)
           in (ucast byte_num :: u64) < CBS_len cbs \<and>
              cbs ! unat byte_num AND push_bit (unat bit_num) 1 \<noteq> 0)"

end
