(* ===== verification/Cbb.thy ===== *)
theory Cbb
  imports Cbs
begin

text \<open>
  \<open>crypto/bytestring/cbb.c\<close>: the byte-string builder of BoringSSL. The \<open>CBB\<close> objects that share a
  buffer form a chain, each with at most one open child; the model keeps the buffer and the
  chain of children in one state, outermost first, and an operation on the \<open>CBB\<close> at depth \<open>h\<close>
  (0 is the top-level object) takes \<open>h\<close>. A depth beyond the chain is a \<open>CBB\<close> whose \<open>base\<close> has
  been cleared, on which every operation fails.
\<close>

record cbb_buffer =
  b_buf :: bytes
  b_len :: u64
  b_cap :: u64
  can_resize :: bool
  b_error :: bool

record cbb_child =
  c_offset :: u64
  pending_len_len :: u8
  pending_is_asn1 :: bool

record CBB =
  c_base :: "cbb_buffer option"
  c_chain :: "cbb_child list"

text \<open>The allocator: which sizes it grants, and the bytes found in fresh memory.\<close>

record cbb_env =
  grants :: "u64 \<Rightarrow> bool"
  fresh :: "nat \<Rightarrow> u8"

definition CBB_zero :: CBB where
  "CBB_zero = \<lparr>c_base = None, c_chain = []\<rparr>"

definition cbb_init :: "bytes \<Rightarrow> u64 \<Rightarrow> CBB \<Rightarrow> CBB" where
  "cbb_init buf cap cbb =
     cbb\<lparr>c_base := Some \<lparr>b_buf = buf, b_len = 0, b_cap = cap, can_resize = True, b_error = False\<rparr>\<rparr>"

text \<open>\<open>base_ok\<close> is whether the allocation of the \<open>cbb_buffer_st\<close> itself succeeds.\<close>

definition CBB_init :: "cbb_env \<Rightarrow> bool \<Rightarrow> u64 \<Rightarrow> CBB option" where
  "CBB_init env base_ok initial_capacity =
     (if 0 < initial_capacity \<and> \<not> grants env initial_capacity then None
      else if \<not> base_ok then None
      else Some (cbb_init (map (fresh env) [0..<unat initial_capacity]) initial_capacity CBB_zero))"

definition CBB_init_fixed :: "bool \<Rightarrow> bytes \<Rightarrow> u64 \<Rightarrow> CBB option" where
  "CBB_init_fixed base_ok buf len =
     (if \<not> base_ok then None
      else let cbb = cbb_init buf len CBB_zero
           in Some (cbb\<lparr>c_base := map_option (\<lambda>b. b\<lparr>can_resize := False\<rparr>) (c_base cbb)\<rparr>))"

definition CBB_cleanup :: "CBB \<Rightarrow> CBB" where
  "CBB_cleanup cbb = cbb\<lparr>c_base := None\<rparr>"

section \<open>The buffer\<close>

text \<open>An operation on the shared buffer; a null \<open>base\<close> makes it fail.\<close>

definition on_base :: "(cbb_buffer \<Rightarrow> (cbb_buffer, 'a) outcome) \<Rightarrow> CBB \<Rightarrow> (CBB, 'a) outcome" where
  "on_base f cbb =
     (case c_base cbb of
        None \<Rightarrow> (None, cbb)
      | Some b \<Rightarrow> (case f b of (r, b') \<Rightarrow> (r, cbb\<lparr>c_base := Some b'\<rparr>)))"

definition buffer_err :: "cbb_buffer \<Rightarrow> (cbb_buffer, 'a) outcome" where
  "buffer_err base = (None, base\<lparr>b_error := True\<rparr>)"

text \<open>\<open>OPENSSL_realloc\<close> to a larger size keeps the old contents; the rest is fresh memory.\<close>

definition grow :: "cbb_env \<Rightarrow> u64 \<Rightarrow> bytes \<Rightarrow> bytes" where
  "grow env n buf = buf @ map (fresh env) [length buf..<unat n]"

text \<open>The result is the offset of \<open>*out\<close> in the buffer.\<close>

definition cbb_buffer_reserve :: "cbb_env \<Rightarrow> u64 \<Rightarrow> cbb_buffer \<Rightarrow> (cbb_buffer, nat) outcome" where
  "cbb_buffer_reserve env len base =
     (let newlen = b_len base + len in
      if newlen < b_len base then buffer_err base
      else if b_cap base < newlen then
        (let newcap = b_cap base * 2 in
         if \<not> can_resize base then buffer_err base
         else let newcap = (if newcap < b_cap base \<or> newcap < newlen then newlen else newcap)
              in if \<not> grants env newcap then buffer_err base
                 else (Some (unat (b_len base)),
                       base\<lparr>b_buf := grow env newcap (b_buf base), b_cap := newcap\<rparr>))
      else (Some (unat (b_len base)), base))"

definition cbb_buffer_add :: "cbb_env \<Rightarrow> u64 \<Rightarrow> cbb_buffer \<Rightarrow> (cbb_buffer, nat) outcome" where
  "cbb_buffer_add env len =
     bindo (cbb_buffer_reserve env len) (\<lambda>out base. (Some out, base\<lparr>b_len := b_len base + len\<rparr>))"

text \<open>
  The loop that stores \<open>v\<close> big-endian from the last of \<open>n\<close> bytes at \<open>p\<close> down; the second
  result is what is left of \<open>v\<close>.
\<close>

fun store_be :: "nat \<Rightarrow> nat \<Rightarrow> u64 \<Rightarrow> bytes \<Rightarrow> bytes \<times> u64" where
  "store_be 0 p v buf = (buf, v)"
| "store_be (Suc i) p v buf = store_be i p (drop_bit 8 v) (buf[p + i := ucast v])"

definition cbb_buffer_add_u :: "cbb_env \<Rightarrow> u64 \<Rightarrow> nat \<Rightarrow> cbb_buffer \<Rightarrow> (cbb_buffer, unit) outcome" where
  "cbb_buffer_add_u env v len_len base =
     (if len_len = 0 then (Some (), base)
      else bindo (cbb_buffer_add env (of_nat len_len)) (\<lambda>p base.
             case store_be len_len p v (b_buf base) of
               (buf, rest) \<Rightarrow>
                 if rest \<noteq> 0 then (None, base\<lparr>b_buf := buf, b_error := True\<rparr>)
                 else (Some (), base\<lparr>b_buf := buf\<rparr>)) base)"

section \<open>Flushing\<close>

definition cbb_fail :: "CBB \<Rightarrow> (CBB, 'a) outcome" where
  "cbb_fail cbb = (None, cbb\<lparr>c_base := map_option (\<lambda>b. b\<lparr>b_error := True\<rparr>) (c_base cbb)\<rparr>)"

text \<open>The number of length octets of an element with \<open>len\<close> bytes, and the first of them.\<close>

definition asn1_len_len :: "u64 \<Rightarrow> nat \<times> u8" where
  "asn1_len_len len =
     (if 0xFFFFFF < len then (5, 0x80 OR 4)
      else if 0xFFFF < len then (4, 0x80 OR 3)
      else if 0xFF < len then (3, 0x80 OR 2)
      else if 0x7F < len then (2, 0x80 OR 1)
      else (1, ucast len))"

text \<open>\<open>OPENSSL_memmove(buf + start + extra, buf + start, len)\<close>.\<close>

definition move_up :: "nat \<Rightarrow> nat \<Rightarrow> nat \<Rightarrow> bytes \<Rightarrow> bytes" where
  "move_up start extra len buf =
     take (start + extra) buf @ take len (drop start buf) @ drop (start + extra + len) buf"

text \<open>
  Writing the length prefix of \<open>child\<close>, whose contents start at \<open>child_start\<close>. In the ASN.1
  case the contents are first moved to make room for more than one octet.
\<close>

definition flush_prefix :: "cbb_env \<Rightarrow> cbb_child \<Rightarrow> u64 \<Rightarrow> cbb_buffer \<Rightarrow> (cbb_buffer, unit) outcome" where
  "flush_prefix env child child_start base =
     (let len = b_len base - child_start;
          off = unat (c_offset child);
          finish = (\<lambda>n p len base. case store_be n p len (b_buf base) of
                      (buf, rest) \<Rightarrow> if rest \<noteq> 0 then buffer_err (base\<lparr>b_buf := buf\<rparr>)
                                     else (Some (), base\<lparr>b_buf := buf\<rparr>))
      in if pending_is_asn1 child then
           (if 0xFFFFFFFE < len then buffer_err base
            else case asn1_len_len len of (len_len, initial_length_byte) \<Rightarrow>
              let len' = (if len_len = 1 then 0 else len) in
              bindo (if len_len \<noteq> 1
                     then bindo (cbb_buffer_add env (of_nat (len_len - 1))) (\<lambda>_ base.
                            (Some (), base\<lparr>b_buf := move_up (unat child_start) (len_len - 1) (unat len') (b_buf base)\<rparr>))
                     else reto ())
                (\<lambda>_ base. finish (len_len - 1) (Suc off) len'
                            (base\<lparr>b_buf := (b_buf base)[off := initial_length_byte]\<rparr>)) base)
         else finish (unat (pending_len_len child)) off len base)"

text \<open>\<open>CBB_flush\<close> on the \<open>CBB\<close> at depth \<open>h\<close>: the deeper children are flushed first.\<close>

function CBB_flush :: "cbb_env \<Rightarrow> nat \<Rightarrow> CBB \<Rightarrow> (CBB, unit) outcome" where
  "CBB_flush env h cbb =
     (case c_base cbb of
        None \<Rightarrow> (None, cbb)
      | Some base \<Rightarrow>
          if length (c_chain cbb) < h \<or> b_error base then (None, cbb)
          else if length (c_chain cbb) = h \<or> pending_len_len (c_chain cbb ! h) = 0 then (Some (), cbb)
          else let child = c_chain cbb ! h;
                   child_start = c_offset child + ucast (pending_len_len child) in
            (case CBB_flush env (Suc h) cbb of
               (None, cbb') \<Rightarrow> cbb_fail cbb'
             | (Some _, cbb') \<Rightarrow>
                 (case c_base cbb' of
                    None \<Rightarrow> (None, cbb')
                  | Some base' \<Rightarrow>
                      if child_start < c_offset child \<or> b_len base' < child_start then cbb_fail cbb'
                      else (case flush_prefix env child child_start base' of
                              (None, b) \<Rightarrow> cbb_fail (cbb'\<lparr>c_base := Some b\<rparr>)
                            | (Some _, b) \<Rightarrow>
                                (Some (), cbb'\<lparr>c_base := Some b, c_chain := take h (c_chain cbb')\<rparr>)))))"
  by pat_completeness auto
termination
  by (relation "measure (\<lambda>(env, h, cbb). length (c_chain cbb) - h)") auto

declare CBB_flush.simps [simp del]

text \<open>What most operations do: flush, then work on the buffer.\<close>

definition flushed :: "cbb_env \<Rightarrow> nat \<Rightarrow> (cbb_buffer \<Rightarrow> (cbb_buffer, 'a) outcome) \<Rightarrow> CBB \<Rightarrow> (CBB, 'a) outcome" where
  "flushed env h f = bindo (CBB_flush env h) (\<lambda>_. on_base f)"

text \<open>
  \<open>CBB_finish\<close>: the data and its length; \<open>outs\<close> is whether both output pointers are given, which
  only a fixed buffer may omit.
\<close>

definition CBB_finish :: "cbb_env \<Rightarrow> nat \<Rightarrow> bool \<Rightarrow> CBB \<Rightarrow> (CBB, bytes \<times> u64) outcome" where
  "CBB_finish env h outs cbb =
     (if h \<noteq> 0 then (None, cbb)
      else bindo (CBB_flush env h) (\<lambda>_ cbb.
             case c_base cbb of
               None \<Rightarrow> (None, cbb)
             | Some base \<Rightarrow>
                 if can_resize base \<and> \<not> outs then (None, cbb)
                 else (Some (b_buf base, b_len base), CBB_cleanup cbb)) cbb)"

text \<open>The start of a \<open>CBB\<close>'s own data; defined when it has no open child.\<close>

definition data_start :: "nat \<Rightarrow> CBB \<Rightarrow> u64" where
  "data_start h cbb =
     (if h = 0 then 0
      else let c = c_chain cbb ! (h - 1) in c_offset c + ucast (pending_len_len c))"

definition CBB_data :: "nat \<Rightarrow> CBB \<Rightarrow> bytes" where
  "CBB_data h cbb = (case c_base cbb of None \<Rightarrow> [] | Some b \<Rightarrow> drop (unat (data_start h cbb)) (b_buf b))"

definition CBB_len :: "nat \<Rightarrow> CBB \<Rightarrow> u64" where
  "CBB_len h cbb = (case c_base cbb of None \<Rightarrow> 0 | Some b \<Rightarrow> b_len b - data_start h cbb)"

section \<open>Appending\<close>

definition CBB_add_bytes :: "cbb_env \<Rightarrow> nat \<Rightarrow> bytes \<Rightarrow> CBB \<Rightarrow> (CBB, unit) outcome" where
  "CBB_add_bytes env h data =
     flushed env h (bindo (cbb_buffer_add env (of_nat (length data))) (\<lambda>dest base.
       (Some (), base\<lparr>b_buf := put_bytes dest data (b_buf base)\<rparr>)))"

definition CBB_add_space :: "cbb_env \<Rightarrow> nat \<Rightarrow> u64 \<Rightarrow> CBB \<Rightarrow> (CBB, nat) outcome" where
  "CBB_add_space env h len = flushed env h (cbb_buffer_add env len)"

definition CBB_reserve :: "cbb_env \<Rightarrow> nat \<Rightarrow> u64 \<Rightarrow> CBB \<Rightarrow> (CBB, nat) outcome" where
  "CBB_reserve env h len = flushed env h (cbb_buffer_reserve env len)"

definition CBB_did_write :: "nat \<Rightarrow> u64 \<Rightarrow> CBB \<Rightarrow> (CBB, unit) outcome" where
  "CBB_did_write h len cbb =
     on_base (\<lambda>base. let newlen = b_len base + len
                     in if h < length (c_chain cbb) \<or> newlen < b_len base \<or> b_cap base < newlen
                        then (None, base) else (Some (), base\<lparr>b_len := newlen\<rparr>)) cbb"

definition CBB_add_u8 :: "cbb_env \<Rightarrow> nat \<Rightarrow> u8 \<Rightarrow> CBB \<Rightarrow> (CBB, unit) outcome" where
  "CBB_add_u8 env h v = flushed env h (cbb_buffer_add_u env (ucast v) 1)"

definition CBB_add_u16 :: "cbb_env \<Rightarrow> nat \<Rightarrow> u16 \<Rightarrow> CBB \<Rightarrow> (CBB, unit) outcome" where
  "CBB_add_u16 env h v = flushed env h (cbb_buffer_add_u env (ucast v) 2)"

definition CBB_add_u24 :: "cbb_env \<Rightarrow> nat \<Rightarrow> u32 \<Rightarrow> CBB \<Rightarrow> (CBB, unit) outcome" where
  "CBB_add_u24 env h v = flushed env h (cbb_buffer_add_u env (ucast v) 3)"

definition CBB_add_u32 :: "cbb_env \<Rightarrow> nat \<Rightarrow> u32 \<Rightarrow> CBB \<Rightarrow> (CBB, unit) outcome" where
  "CBB_add_u32 env h v = flushed env h (cbb_buffer_add_u env (ucast v) 4)"

definition CBB_add_u64 :: "cbb_env \<Rightarrow> nat \<Rightarrow> u64 \<Rightarrow> CBB \<Rightarrow> (CBB, unit) outcome" where
  "CBB_add_u64 env h v = flushed env h (cbb_buffer_add_u env v 8)"

definition CBB_add_u16le :: "cbb_env \<Rightarrow> nat \<Rightarrow> u16 \<Rightarrow> CBB \<Rightarrow> (CBB, unit) outcome" where
  "CBB_add_u16le env h v = CBB_add_u16 env h (CRYPTO_bswap2 v)"

definition CBB_add_u32le :: "cbb_env \<Rightarrow> nat \<Rightarrow> u32 \<Rightarrow> CBB \<Rightarrow> (CBB, unit) outcome" where
  "CBB_add_u32le env h v = CBB_add_u32 env h (CRYPTO_bswap4 v)"

definition CBB_add_u64le :: "cbb_env \<Rightarrow> nat \<Rightarrow> u64 \<Rightarrow> CBB \<Rightarrow> (CBB, unit) outcome" where
  "CBB_add_u64le env h v = CBB_add_u64 env h (CRYPTO_bswap8 v)"

definition CBB_discard_child :: "nat \<Rightarrow> CBB \<Rightarrow> CBB" where
  "CBB_discard_child h cbb =
     (if length (c_chain cbb) \<le> h then cbb
      else cbb\<lparr>c_base := map_option (\<lambda>b. b\<lparr>b_len := c_offset (c_chain cbb ! h)\<rparr>) (c_base cbb),
               c_chain := take h (c_chain cbb)\<rparr>)"

section \<open>Length prefixes and elements\<close>

text \<open>The new child of the \<open>CBB\<close> at depth \<open>h\<close>, which has none after a flush, is at depth \<open>h + 1\<close>.\<close>

definition open_child :: "nat \<Rightarrow> cbb_child \<Rightarrow> CBB \<Rightarrow> (CBB, unit) outcome" where
  "open_child h c cbb = (Some (), cbb\<lparr>c_chain := take h (c_chain cbb) @ [c]\<rparr>)"

definition cbb_add_length_prefixed :: "cbb_env \<Rightarrow> nat \<Rightarrow> nat \<Rightarrow> CBB \<Rightarrow> (CBB, unit) outcome" where
  "cbb_add_length_prefixed env h len_len =
     bindo (flushed env h (bindo (cbb_buffer_add env (of_nat len_len)) (\<lambda>p base.
              (Some (of_nat p), base\<lparr>b_buf := put_bytes p (replicate len_len 0) (b_buf base)\<rparr>))))
       (\<lambda>offset. open_child h \<lparr>c_offset = offset, pending_len_len = of_nat len_len, pending_is_asn1 = False\<rparr>)"

definition CBB_add_u8_length_prefixed :: "cbb_env \<Rightarrow> nat \<Rightarrow> CBB \<Rightarrow> (CBB, unit) outcome" where
  "CBB_add_u8_length_prefixed env h = cbb_add_length_prefixed env h 1"

definition CBB_add_u16_length_prefixed :: "cbb_env \<Rightarrow> nat \<Rightarrow> CBB \<Rightarrow> (CBB, unit) outcome" where
  "CBB_add_u16_length_prefixed env h = cbb_add_length_prefixed env h 2"

definition CBB_add_u24_length_prefixed :: "cbb_env \<Rightarrow> nat \<Rightarrow> CBB \<Rightarrow> (CBB, unit) outcome" where
  "CBB_add_u24_length_prefixed env h = cbb_add_length_prefixed env h 3"

fun add_all_u8 :: "cbb_env \<Rightarrow> nat \<Rightarrow> bytes \<Rightarrow> CBB \<Rightarrow> (CBB, unit) outcome" where
  "add_all_u8 env h [] = reto ()"
| "add_all_u8 env h (b # bs) = bindo (CBB_add_u8 env h b) (\<lambda>_. add_all_u8 env h bs)"

function septets :: "u64 \<Rightarrow> nat" where
  "septets copy = (if copy = 0 then 0 else Suc (septets (drop_bit 7 copy)))"
  by pat_completeness auto
termination
  by (relation "measure unat") (simp_all add: unat_drop_bit_eq drop_bit_nat_less)

declare septets.simps [simp del]

definition base128_byte :: "u64 \<Rightarrow> nat \<Rightarrow> u8" where
  "base128_byte v i =
     (let byte = ucast (drop_bit (7 * i) v AND 0x7F) in if i \<noteq> 0 then byte OR 0x80 else byte)"

definition add_base128_integer :: "cbb_env \<Rightarrow> nat \<Rightarrow> u64 \<Rightarrow> CBB \<Rightarrow> (CBB, unit) outcome" where
  "add_base128_integer env h v =
     (let len_len = (if septets v = 0 then 1 else septets v)
      in add_all_u8 env h (map (base128_byte v) (rev [0..<len_len])))"

definition CBB_add_asn1 :: "cbb_env \<Rightarrow> nat \<Rightarrow> u32 \<Rightarrow> CBB \<Rightarrow> (CBB, unit) outcome" where
  "CBB_add_asn1 env h tag =
     bindo (CBB_flush env h) (\<lambda>_.
       let tag_bits = (ucast (drop_bit CBS_ASN1_TAG_SHIFT tag) AND 0xE0 :: u8);
           tag_number = tag AND CBS_ASN1_TAG_NUMBER_MASK
       in bindo (if 0x1F \<le> tag_number
                 then bindo (CBB_add_u8 env h (tag_bits OR 0x1F)) (\<lambda>_. add_base128_integer env h (ucast tag_number))
                 else CBB_add_u8 env h (tag_bits OR ucast tag_number)) (\<lambda>_ cbb.
            let offset = (case c_base cbb of Some b \<Rightarrow> b_len b | None \<Rightarrow> 0) in
            bindo (CBB_add_u8 env h 0) (\<lambda>_.
              open_child h \<lparr>c_offset = offset, pending_len_len = 1, pending_is_asn1 = True\<rparr>) cbb))"

text \<open>The bytes \<open>CBB_add_asn1_uint64\<close> puts into its child, in the order of its loop.\<close>

fun uint64_bytes :: "bool \<Rightarrow> bytes \<Rightarrow> bytes" where
  "uint64_bytes started [] = (if started then [] else [0])"
| "uint64_bytes started (byte # rest) =
     (if \<not> started then
        (if byte = 0 then uint64_bytes False rest
         else (if byte AND 0x80 \<noteq> 0 then [0] else []) @ byte # uint64_bytes True rest)
      else byte # uint64_bytes True rest)"

definition CBB_add_asn1_uint64 :: "cbb_env \<Rightarrow> nat \<Rightarrow> u64 \<Rightarrow> CBB \<Rightarrow> (CBB, unit) outcome" where
  "CBB_add_asn1_uint64 env h value =
     bindo (CBB_add_asn1 env h CBS_ASN1_INTEGER) (\<lambda>_.
       bindo (add_all_u8 env (Suc h)
                (uint64_bytes False (map (\<lambda>i. ucast (drop_bit (8 * (7 - i)) value AND 0xFF)) [0..<8])))
         (\<lambda>_. CBB_flush env h))"

text \<open>The index of the first byte \<open>CBB_add_asn1_int64\<close> keeps of a negative number.\<close>

fun int64_start :: "bytes \<Rightarrow> nat \<Rightarrow> nat" where
  "int64_start u 0 = 0"
| "int64_start u (Suc i) =
     (if u ! Suc i = 0xFF \<and> u ! i AND 0x80 \<noteq> 0 then int64_start u i else Suc i)"

definition CBB_add_asn1_int64 :: "cbb_env \<Rightarrow> nat \<Rightarrow> u64 \<Rightarrow> CBB \<Rightarrow> (CBB, unit) outcome" where
  "CBB_add_asn1_int64 env h value =
     (if 0 \<le> sint value then CBB_add_asn1_uint64 env h value
      else let u = map (\<lambda>i. ucast (drop_bit (8 * i) value)) [0..<8]; start = int64_start u 7
           in bindo (CBB_add_asn1 env h CBS_ASN1_INTEGER) (\<lambda>_.
                bindo (add_all_u8 env (Suc h) (map ((!) u) (rev [0..<Suc start]))) (\<lambda>_. CBB_flush env h)))"

definition CBB_add_asn1_octet_string :: "cbb_env \<Rightarrow> nat \<Rightarrow> bytes \<Rightarrow> CBB \<Rightarrow> (CBB, unit) outcome" where
  "CBB_add_asn1_octet_string env h data =
     bindo (CBB_add_asn1 env h CBS_ASN1_OCTETSTRING) (\<lambda>_.
       bindo (CBB_add_bytes env (Suc h) data) (\<lambda>_. CBB_flush env h))"

definition CBB_add_asn1_bool :: "cbb_env \<Rightarrow> nat \<Rightarrow> bool \<Rightarrow> CBB \<Rightarrow> (CBB, unit) outcome" where
  "CBB_add_asn1_bool env h value =
     bindo (CBB_add_asn1 env h CBS_ASN1_BOOLEAN) (\<lambda>_.
       bindo (CBB_add_u8 env (Suc h) (if value then 0xFF else 0)) (\<lambda>_. CBB_flush env h))"

end
