(* ===== verification/CbsDer.thy ===== *)
theory CbsDer
  imports Cbs
begin

text \<open>
  The DER encoding as a specification, and the parser of \<open>cbs.c\<close> as its exact inverse: what
  \<open>CBS_get_any_asn1\<close> accepts is the one encoding of its tag and contents.
\<close>

section \<open>Big-endian integers\<close>

fun be_bytes :: "nat \<Rightarrow> u64 \<Rightarrow> bytes" where
  "be_bytes 0 v = []"
| "be_bytes (Suc n) v = be_bytes n (drop_bit 8 v) @ [ucast v]"

lemma length_be_bytes [simp]: "length (be_bytes n v) = n"
  by (induction n arbitrary: v) simp_all

lemma be_word_Nil [simp]: "be_word [] = 0"
  by (simp add: be_word_def)

lemma be_word_snoc [simp]: "be_word (bs @ [b]) = push_bit 8 (be_word bs) OR ucast b"
  by (simp add: be_word_def)

lemma drop_drop: "drop_bit m (drop_bit n (v :: u64)) = drop_bit (m + n) v"
  by (simp add: ac_simps)

lemma drop_bit_shift_or:
  "drop_bit 8 (push_bit 8 w OR ucast (b :: u8)) = (w :: u64) \<longleftrightarrow> drop_bit 56 w = 0"
proof
  assume eq: "drop_bit 8 (push_bit 8 w OR ucast b) = w"
  show "drop_bit 56 w = 0"
  proof (rule bit_word_eqI)
    fix n assume "n < LENGTH(64)"
    have "bit w (56 + n) = bit (drop_bit 8 (push_bit 8 w OR (ucast b :: u64))) (56 + n)" by (simp only: eq)
    then show "bit (drop_bit 56 w) n = bit (0 :: u64) n"
      by (simp add: bit_simps bit_imp_le_length)
  qed
next
  assume z: "drop_bit 56 w = 0"
  have hi: "n < 56" if "bit w n" for n
  proof (rule ccontr)
    assume "\<not> n < 56"
    then have "bit w n = bit (drop_bit 56 w) (n - 56)" by (simp add: bit_simps)
    then show False using z that by simp
  qed
  show "drop_bit 8 (push_bit 8 w OR ucast b) = w"
    by (intro bit_word_eqI) (auto simp: bit_simps dest: hi dest!: bit_imp_le_length [of b])
qed

lemma ucast_shift_or: "ucast (push_bit 8 w OR ucast (b :: u8) :: u64) = b"
  by (rule bit_word_eqI) (auto simp: bit_simps)

lemma shift_or_drop: "push_bit 8 (drop_bit 8 v) OR ucast (ucast v :: u8) = (v :: u64)"
  by (rule bit_word_eqI) (auto simp: bit_simps)

lemma drop_shift_or:
  "8 \<le> k \<Longrightarrow> drop_bit k (push_bit 8 w OR ucast (b :: u8)) = (0 :: u64) \<longleftrightarrow> drop_bit (k - 8) w = 0 \<or>
     drop_bit k (push_bit 8 w OR ucast b) = (0 :: u64)"
proof -
  assume k: "8 \<le> k"
  have "drop_bit k (push_bit 8 w OR ucast b) = 0" if z: "drop_bit (k - 8) w = (0 :: u64)"
  proof (rule bit_word_eqI)
    fix n assume "n < LENGTH(64)"
    have "bit (drop_bit (k - 8) w) n = bit (0 :: u64) n" by (simp only: z)
    then show "bit (drop_bit k (push_bit 8 w OR (ucast b :: u64))) n = bit (0 :: u64) n"
      using k by (auto simp: bit_simps bit_imp_le_length add.commute dest: bit_imp_le_length)
  qed
  then show ?thesis by blast
qed

lemma be_word_bound: "length bs \<le> 8 \<Longrightarrow> drop_bit (8 * length bs) (be_word bs) = 0"
proof (induction bs rule: rev_induct)
  case (snoc b bs)
  then show ?case by (subst be_word_snoc, subst drop_shift_or) (simp_all add: algebra_simps)
qed simp

lemma be_bytes_word: "length bs \<le> 8 \<Longrightarrow> be_bytes (length bs) (be_word bs) = bs"
proof (induction bs rule: rev_induct)
  case (snoc b bs)
  have "drop_bit (8 * length bs) (be_word bs) = 0" using snoc.prems by (intro be_word_bound) simp
  then have "drop_bit (56 - 8 * length bs) (drop_bit (8 * length bs) (be_word bs)) = 0" by simp
  then have "drop_bit 56 (be_word bs) = 0" using snoc.prems by simp
  then have "be_bytes (length bs) (drop_bit 8 (push_bit 8 (be_word bs) OR ucast b)) = bs"
    using snoc by (simp only: drop_bit_shift_or [THEN iffD2]) simp
  then show ?case
    by (simp only: length_append_singleton be_bytes.simps be_word_snoc ucast_shift_or)
qed simp

lemma be_word_bytes: "drop_bit (8 * n) v = 0 \<Longrightarrow> be_word (be_bytes n v) = v"
proof (induction n arbitrary: v)
  case (Suc n)
  then have "be_word (be_bytes n (drop_bit 8 v)) = drop_bit 8 v" by (simp add: algebra_simps)
  then show ?case by (simp add: shift_or_drop)
qed simp

text \<open>The number of octets of a value without leading zeros.\<close>

function octets :: "u64 \<Rightarrow> nat" where
  "octets v = (if v = 0 then 0 else Suc (octets (drop_bit 8 v)))"
  by pat_completeness auto
termination
  by (relation "measure unat") (simp_all add: unat_drop_bit_eq drop_bit_nat_less)

declare octets.simps [simp del]

lemma octets_0 [simp]: "octets 0 = 0"
  by (simp add: octets.simps)

lemma octets_pos: "v \<noteq> 0 \<Longrightarrow> octets v = Suc (octets (drop_bit 8 v))"
  by (simp add: octets.simps)

lemma octets_eqI:
  "drop_bit (8 * k) v \<noteq> 0 \<Longrightarrow> drop_bit (8 * Suc k) v = 0 \<Longrightarrow> octets v = Suc k"
proof (induction k arbitrary: v)
  case 0
  then show ?case by (simp add: octets_pos)
next
  case (Suc k)
  then have "v \<noteq> 0" by auto
  moreover have "octets (drop_bit 8 v) = Suc k" using Suc by (intro Suc.IH) (simp_all add: algebra_simps)
  ultimately show ?case by (simp add: octets_pos)
qed

lemma octets_drop: "drop_bit (8 * octets v) v = 0"
proof (induction v rule: octets.induct)
  case (1 v)
  then show ?case by (cases "v = 0") (simp_all add: octets_pos algebra_simps)
qed

lemma octets_minimal: "v \<noteq> 0 \<Longrightarrow> drop_bit (8 * (octets v - 1)) v \<noteq> 0"
proof (induction v rule: octets.induct)
  case (1 v)
  show ?case
  proof (cases "drop_bit 8 v = 0")
    case True
    then show ?thesis using 1(2) by (simp add: octets_pos)
  next
    case False
    then have "drop_bit (8 * (octets (drop_bit 8 v) - 1)) (drop_bit 8 v) \<noteq> 0" using 1 by blast
    moreover have "octets (drop_bit 8 v) \<noteq> 0" using False by (simp add: octets_pos)
    ultimately show ?thesis using 1(2) by (simp add: octets_pos algebra_simps)
  qed
qed

lemma octets_le: "drop_bit (8 * k) v = 0 \<Longrightarrow> octets v \<le> k"
proof (rule ccontr)
  assume z: "drop_bit (8 * k) v = 0" and "\<not> octets v \<le> k"
  then have "v \<noteq> 0" and le: "8 * k \<le> 8 * (octets v - 1)" by auto
  have "drop_bit (8 * (octets v - 1) - 8 * k) (drop_bit (8 * k) v) = 0" using z by simp
  then have "drop_bit (8 * (octets v - 1)) v = 0" using le by simp
  then show False using octets_minimal [OF \<open>v \<noteq> 0\<close>] by simp
qed

section \<open>Base-128 integers\<close>

text \<open>The leading septets of \<open>v\<close>, each with the continuation bit, and the whole encoding.\<close>

function base128_hi :: "u64 \<Rightarrow> bytes" where
  "base128_hi v =
     (if v = 0 then [] else base128_hi (drop_bit 7 v) @ [ucast (v AND 0x7F) OR 0x80])"
  by pat_completeness auto
termination
  by (relation "measure unat") (simp_all add: unat_drop_bit_eq drop_bit_nat_less)

declare base128_hi.simps [simp del]

definition base128 :: "u64 \<Rightarrow> bytes" where
  "base128 v = base128_hi (drop_bit 7 v) @ [ucast (v AND 0x7F)]"

lemma base128_hi_0 [simp]: "base128_hi 0 = []"
  by (simp add: base128_hi.simps)

lemma base128_hi_pos: "v \<noteq> 0 \<Longrightarrow> base128_hi v = base128_hi (drop_bit 7 v) @ [ucast (v AND 0x7F) OR 0x80]"
  by (simp add: base128_hi.simps)

lemma septet_low: "(ucast (v AND 0x7F) OR 0x80 :: u8) AND 0x7F = ucast ((v :: u64) AND 0x7F)"
  by (rule bit_word_eqI) (auto simp: bit_simps bit_consts)

lemma septet_low': "(ucast ((v :: u64) AND 0x7F) :: u8) AND 0x7F = ucast (v AND 0x7F)"
  by (rule bit_word_eqI) (auto simp: bit_simps bit_consts)

lemma septet_more: "(ucast ((v :: u64) AND 0x7F) OR 0x80 :: u8) AND 0x80 \<noteq> 0"
  by (simp add: u8_and_0x80_eq_0 bit_simps bit_consts)

lemma septet_last: "(ucast ((v :: u64) AND 0x7F) :: u8) AND 0x80 = 0"
  by (simp add: u8_and_0x80_eq_0 bit_simps bit_consts)

lemma septet_join: "push_bit 7 (drop_bit 7 v) OR ucast (ucast (v AND 0x7F) :: u8) = (v :: u64)"
proof (rule bit_word_eqI)
  fix n assume "n < LENGTH(64)"
  then show "bit (push_bit 7 (drop_bit 7 v) OR ucast (ucast (v AND 0x7F) :: u8)) n = bit v n"
    by (cases "n < 7") (simp_all add: bit_simps bit_consts)
qed

lemma drop_57_7: "drop_bit 57 (drop_bit 7 (v :: u64)) = 0"
  by (rule bit_word_eqI) (auto simp: bit_simps dest: bit_imp_le_length)

lemma septet_not_0x80: "drop_bit 7 v = 0 \<Longrightarrow> v \<noteq> 0 \<Longrightarrow> (ucast ((v :: u64) AND 0x7F) OR 0x80 :: u8) \<noteq> 0x80"
proof
  assume z: "drop_bit 7 v = 0" "v \<noteq> 0" and eq: "(ucast (v AND 0x7F) OR 0x80 :: u8) = 0x80"
  have "(ucast (v AND 0x7F) OR 0x80 :: u8) AND 0x7F = 0" using eq by simp
  then have "(ucast (v AND 0x7F) :: u8) = 0" by (simp only: septet_low)
  then have "push_bit 7 (drop_bit 7 v) OR ucast (ucast (v AND 0x7F) :: u8) = 0" using z(1) by simp
  then show False using z(2) by (simp only: septet_join)
qed

lemma base128_loop_step:
  "drop_bit 57 v = 0 \<Longrightarrow> v \<noteq> 0 \<or> b \<noteq> 0x80 \<Longrightarrow>
     base128_loop v (b # cbs) =
       (if b AND 0x80 \<noteq> 0 then base128_loop (push_bit 7 v OR ucast (b AND 0x7F)) cbs
        else (Some (push_bit 7 v OR ucast (b AND 0x7F)), cbs))"
  by (auto simp: Let_def)

declare base128_loop.simps(2) [simp del]

lemma base128_loop_hi: "base128_loop 0 (base128_hi v @ cbs) = base128_loop v cbs"
proof (induction v arbitrary: cbs rule: base128_hi.induct)
  case (1 v)
  show ?case
  proof (cases "v = 0")
    case False
    have "base128_loop 0 (base128_hi v @ cbs) =
          base128_loop (drop_bit 7 v) ((ucast (v AND 0x7F) OR 0x80) # cbs)"
      using 1 [OF False] False by (simp add: base128_hi_pos)
    also have "\<dots> = base128_loop v cbs"
      using septet_not_0x80 [of v] False
      by (subst base128_loop_step [OF drop_57_7]) (auto simp only: septet_low septet_join septet_more if_True not_False_eq_True)
    finally show ?thesis .
  qed simp
qed

lemma base128_loop_last:
  "base128_loop (drop_bit 7 v) (ucast (v AND 0x7F) # cbs) = (Some v, cbs)"
proof -
  have "(ucast (v AND 0x7F) :: u8) \<noteq> 0x80"
  proof
    assume "(ucast (v AND 0x7F) :: u8) = 0x80"
    then have "(ucast (v AND 0x7F) :: u8) AND 0x80 = 0x80" by simp
    then show False using septet_last [of v] by simp
  qed
  then show ?thesis
    by (subst base128_loop_step [OF drop_57_7]) (simp_all only: septet_low' septet_join septet_last, simp_all)
qed

lemma base128_parse: "parse_base128_integer (base128 v @ cbs) = (Some v, cbs)"
  by (simp add: parse_base128_integer_def base128_def base128_loop_hi base128_loop_last)

lemma shift7_drop:
  assumes "drop_bit 57 v = 0"
  shows "drop_bit 7 (push_bit 7 v OR ucast (b AND 0x7F :: u8)) = (v :: u64)"
proof -
  have hi: "n < 57" if "bit v n" for n
  proof (rule ccontr)
    assume "\<not> n < 57"
    then have "bit v n = bit (drop_bit 57 v) (n - 57)" by (simp add: bit_simps)
    then show False using assms that by simp
  qed
  show ?thesis by (intro bit_word_eqI) (auto simp: bit_simps bit_consts dest: hi)
qed

lemma shift7_low: "ucast ((push_bit 7 (v :: u64) OR ucast (b AND 0x7F :: u8)) AND 0x7F) = b AND 0x7F"
  by (rule bit_word_eqI) (auto simp: bit_simps bit_consts)

lemma u8_top: "b AND 0x80 \<noteq> 0 \<Longrightarrow> (b AND 0x7F) OR 0x80 = (b :: u8)"
  by (rule bit_word_eqI) (auto simp: u8_and_0x80_eq_0 bit_simps bit_consts)

lemma u8_no_top: "b AND 0x80 = 0 \<Longrightarrow> b AND 0x7F = (b :: u8)"
proof (rule bit_word_eqI)
  fix n assume "b AND 0x80 = 0" "n < LENGTH(8)"
  then show "bit (b AND 0x7F) n = bit b n"
    by (cases "n = 7") (auto simp: u8_and_0x80_eq_0 bit_simps bit_consts)
qed

lemma base128_loop_Some:
  "base128_loop v cbs = (Some w, rest) \<Longrightarrow> base128_hi v @ cbs = base128 w @ rest"
proof (induction v cbs rule: base128_loop.induct)
  case (2 v b cbs)
  define v' where "v' = push_bit 7 v OR ucast (b AND 0x7F)"
  have v: "drop_bit 57 v = 0" "v \<noteq> 0 \<or> b \<noteq> 0x80"
    using "2.prems" by (auto simp: base128_loop.simps split: if_splits)
  have parts: "drop_bit 7 v' = v" "ucast (v' AND 0x7F) = b AND 0x7F"
    unfolding v'_def using v(1) by (simp_all only: shift7_drop shift7_low)
  show ?case
  proof (cases "b AND 0x80 = 0")
    case True
    then have "w = v'" "rest = cbs" using "2.prems" by (simp_all add: v'_def base128_loop_step [OF v])
    moreover have "base128 v' = base128_hi v @ [b]"
      using parts True by (simp only: base128_def u8_no_top)
    ultimately show ?thesis by simp
  next
    case False
    then have "base128_loop v' cbs = (Some w, rest)"
      using "2.prems" by (simp add: v'_def base128_loop_step [OF v])
    then have "base128_hi v' @ cbs = base128 w @ rest"
      using "2.IH" [OF _ _ refl] v False by (auto simp: v'_def)
    moreover have "base128_hi v' = base128_hi v @ [b]"
    proof -
      have "v' \<noteq> 0"
      proof
        assume z: "v' = 0"
        then have "b AND 0x7F = 0" "v = 0" using parts by simp_all
        then show False using v(2) u8_top [OF False] by simp
      qed
      then have "base128_hi v' = base128_hi (drop_bit 7 v') @ [ucast (v' AND 0x7F) OR 0x80]"
        by (rule base128_hi_pos)
      then show ?thesis by (simp only: parts u8_top [OF False])
    qed
    ultimately show ?thesis by simp
  qed
qed simp

lemma parse_base128_iff: "parse_base128_integer cbs = (Some v, rest) \<longleftrightarrow> cbs = base128 v @ rest"
  using base128_loop_Some [of 0 cbs v rest] base128_parse by (auto simp: parse_base128_integer_def)

lemma length_base128_hi: "drop_bit (7 * k) v = 0 \<Longrightarrow> length (base128_hi v) \<le> k"
proof (induction k arbitrary: v)
  case (Suc k)
  then have "length (base128_hi (drop_bit 7 v)) \<le> k" by (intro Suc.IH) (simp add: algebra_simps)
  then show ?case by (cases "v = 0") (simp_all add: base128_hi_pos)
qed simp

lemma length_base128: "1 \<le> length (base128 v)" "length (base128 v) \<le> 11"
proof -
  have "drop_bit (7 * 10) (drop_bit 7 v) = 0"
    by (rule bit_word_eqI) (auto simp: bit_simps dest: bit_imp_le_length)
  then have "length (base128_hi (drop_bit 7 v)) \<le> 10" by (rule length_base128_hi)
  then show "1 \<le> length (base128 v)" "length (base128 v) \<le> 11" by (simp_all add: base128_def)
qed

section \<open>Tags\<close>

lemma bit_int_0xE0: "bit (0xE0::int) n \<longleftrightarrow> 5 \<le> n \<and> n < 8"
proof -
  have e: "(0xE0::int) = push_bit 5 7" by simp
  show ?thesis by (simp only: e bit_push_bit_iff) (auto simp: bit_consts)
qed

lemma bit_int_tag_mask: "bit (0x1FFFFFFF::int) n \<longleftrightarrow> n < 29"
  by (rule bit_int_mask_iff) (simp add: mask_eq_exp_minus_1)

lemma bit_int_class_mask: "bit (0xE0000000::int) n \<longleftrightarrow> 29 \<le> n \<and> n < 32"
proof -
  have e: "(0xE0000000::int) = push_bit 29 7" by simp
  show ?thesis by (simp only: e bit_push_bit_iff) (auto simp: bit_consts)
qed

lemmas tag_bits = bit_simps bit_consts bit_int_0xE0 bit_int_tag_mask bit_int_class_mask

definition der_tag :: "u32 \<Rightarrow> bytes" where
  "der_tag tag =
     (let bits = ucast (drop_bit 24 tag) AND 0xE0; num = tag AND 0x1FFFFFFF
      in if num < 0x1F then [bits OR ucast num] else (bits OR 0x1F) # base128 (ucast num))"

lemma tag_split:
  assumes "x AND 0xE0 = (0 :: u8)"
  shows "push_bit 24 (ucast ((ucast (drop_bit 24 tag) AND 0xE0) OR x) AND 0xE0) OR (tag AND 0x1FFFFFFF) = (tag :: u32)"
proof (rule bit_word_eqI)
  fix n assume n: "n < LENGTH(32)"
  have "\<not> bit x k" if "5 \<le> k" for k
  proof
    assume "bit x k"
    then have "bit (x AND 0xE0) k" using that bit_imp_le_length [of x k] by (simp add: tag_bits)
    then show False using assms by simp
  qed
  then show "bit (push_bit 24 (ucast ((ucast (drop_bit 24 tag) AND 0xE0) OR x) AND 0xE0) OR
      (tag AND 0x1FFFFFFF)) n = bit tag n"
    using n by (cases "n < 24") (auto simp: tag_bits)
qed

lemma tag_join:
  assumes "unat (n :: u32) < 2 ^ 29"
  shows "(ucast (drop_bit 24 (push_bit 24 (ucast (b :: u8) AND 0xE0) OR n)) AND 0xE0 :: u8) = b AND 0xE0"
    and "(push_bit 24 (ucast b AND 0xE0) OR n) AND 0x1FFFFFFF = n"
proof -
  have n: "k < 29" if "bit n k" for k using bit_bound [OF assms that] .
  show "(ucast (drop_bit 24 (push_bit 24 (ucast (b :: u8) AND 0xE0) OR n)) AND 0xE0 :: u8) = b AND 0xE0"
    by (rule bit_word_eqI) (auto simp: tag_bits dest: n)
  show "(push_bit 24 (ucast b AND 0xE0) OR n) AND 0x1FFFFFFF = n"
    by (rule bit_word_eqI) (auto simp: tag_bits dest: n)
qed

lemma byte_split: "(b AND 0xE0) OR (b AND 0x1F) = (b :: u8)"
  by (rule bit_word_eqI) (auto simp: tag_bits)

lemma low5: "(ucast (((ucast (t :: u32)) AND 0xE0) OR x :: u8) AND 0x1F :: u32) = ucast (x AND 0x1F)"
  by (rule bit_word_eqI) (auto simp: tag_bits)

lemma unat_CBS_len: "length cbs < 2 ^ 64 \<Longrightarrow> unat (CBS_len cbs) = length cbs"
  by (simp add: CBS_len_def unsigned_of_nat take_bit_nat_eq_self)

lemma cbs_get_eq:
  "length cbs < 2 ^ 64 \<Longrightarrow> cbs_get n cbs =
     (if length cbs < unat n then (None, cbs) else (Some (take (unat n) cbs), drop (unat n) cbs))"
  by (simp add: cbs_get_def word_less_nat_alt unat_CBS_len)

lemma len_pos: "length cbs < 2 ^ 64 \<Longrightarrow> CBS_len cbs = 0 \<longleftrightarrow> cbs = []"
proof -
  assume "length cbs < 2 ^ 64"
  then have "unat (CBS_len cbs) = length cbs" by (simp add: CBS_len_def unat_of_nat)
  then show ?thesis by (simp flip: unat_eq_zero)
qed

lemma CBS_get_u8_simps [simp]:
  "CBS_get_u8 [] = (None, [])"
  "length cbs < 2 ^ 64 - 1 \<Longrightarrow> CBS_get_u8 (b # cbs) = (Some b, cbs)"
  by (simp_all add: CBS_get_u8_def cbs_get_eq bindo_def)

lemma num_lt: "unat (tag AND 0x1FFFFFFF :: u32) < 2 ^ 29"
proof -
  have "tag AND 0x1FFFFFFF \<le> (0x1FFFFFFF :: u32)" by (rule word_and_le1)
  then show ?thesis by (simp add: word_le_nat_alt)
qed

lemma parse_tag_der:
  assumes "length (der_tag tag @ rest) < 2 ^ 64"
  shows "parse_asn1_tag (der_tag tag @ rest) = (Some tag, rest)"
proof -
  let ?bits = "ucast (drop_bit 24 tag) AND 0xE0 :: u8" and ?num = "tag AND 0x1FFFFFFF"
  show ?thesis
  proof (cases "?num < 0x1F")
    case True
    then have n5: "unat ?num < 2 ^ 5" by (simp add: word_less_nat_alt)
    have low: "k < 5" if "bit tag k" "k < 29" for k
      using bit_bound [OF n5, of k] that by (simp add: tag_bits bit_imp_le_length)
    have x: "ucast ?num AND 0xE0 = (0 :: u8)"
      by (rule bit_word_eqI) (auto simp: tag_bits dest: low)
    have y: "ucast (ucast ?num AND 0x1F :: u8) = ?num"
      by (rule bit_word_eqI) (auto simp: tag_bits dest: low)
    have "?num \<noteq> 0x1F" using True by auto
    then show ?thesis
      using assms True
      by (simp add: parse_asn1_tag_def der_tag_def Let_def low5 y)
        (use tag_split [OF x, of tag] in simp)
  next
    case False
    have x: "0x1F AND 0xE0 = (0 :: u8)" by simp
    have ub: "unat ?num < 2 ^ 29" by (rule num_lt)
    have v: "unat (ucast ?num :: u64) = unat ?num" by simp
    have "\<not> (ucast (0x1FFFFFFF :: u32) < (ucast ?num :: u64) \<or> (ucast ?num :: u64) < 0x1F)"
      using ub False by (simp add: word_less_nat_alt v)
    moreover have "ucast (ucast ?num :: u64) = ?num"
      by (rule bit_word_eqI) (auto simp: bit_simps)
    ultimately show ?thesis
      using assms False
      by (simp add: parse_asn1_tag_def der_tag_def Let_def low5 base128_parse)
        (use tag_split [OF x, of tag] in simp)
  qed
qed

lemma der_tag_join:
  assumes "unat n < 2 ^ 29"
  shows "der_tag (push_bit 24 (ucast b AND 0xE0) OR n) =
    (if n < 0x1F then [(b AND 0xE0) OR ucast n] else ((b AND 0xE0) OR 0x1F) # base128 (ucast n))"
  unfolding der_tag_def Let_def tag_join(1) [OF assms] tag_join(2) [OF assms] ..

lemma parse_tag_Some:
  assumes "parse_asn1_tag cbs = (Some tag, rest)" "length cbs < 2 ^ 64"
  shows "cbs = der_tag tag @ rest"
proof (cases cbs)
  case Nil
  then show ?thesis using assms(1) by (simp add: parse_asn1_tag_def bindo_def)
next
  case (Cons b cs)
  let ?num = "ucast b AND 0x1F :: u32"
  have u8: "CBS_get_u8 cbs = (Some b, cs)" using Cons assms(2) by simp
  have num: "unat ?num < 2 ^ 5"
  proof -
    have "?num \<le> 0x1F" by (rule word_and_le1)
    then show ?thesis by (simp add: word_le_nat_alt)
  qed
  have low: "ucast ?num = b AND 0x1F" by (rule bit_word_eqI) (auto simp: tag_bits)
  show ?thesis
  proof (cases "?num = 0x1F")
    case False
    then have "tag = push_bit 24 (ucast b AND 0xE0) OR ?num" "rest = cs"
      using assms(1) u8 by (simp_all add: parse_asn1_tag_def Let_def)
    moreover have "?num < 0x1F" using num False
      by (metis le_less linorder_not_le word_and_le1)
    moreover have "unat ?num < 2 ^ 29" using num by simp
    ultimately have "der_tag tag = [b]"
      by (simp only: der_tag_join low byte_split if_True)
    then show ?thesis using Cons \<open>rest = cs\<close> by simp
  next
    case True
    then obtain v where p: "parse_base128_integer cs = (Some v, rest)"
      and v: "\<not> (ucast (0x1FFFFFFF :: u32) < v \<or> v < 0x1F)"
      and tag: "tag = push_bit 24 (ucast b AND 0xE0) OR ucast v"
      using assms(1) u8 by (auto simp: parse_asn1_tag_def Let_def bindo_eq_Some_iff split: if_splits)
    have uv: "unat v < 2 ^ 29" "0x1F \<le> unat v" using v by (simp_all add: word_less_nat_alt word_le_nat_alt)
    have u32: "unat (ucast v :: u32) = unat v"
      using uv by (simp add: unsigned_ucast_eq take_bit_nat_eq_self)
    have bck: "ucast (ucast v :: u32) = v"
      by (rule word_unat_eq_iff [THEN iffD2]) (simp add: u32)
    have "\<not> ucast v < (0x1F :: u32)" using uv u32 by (simp add: word_less_nat_alt)
    moreover have "b AND 0x1F = 0x1F"
      by (simp only: low [symmetric] True) simp
    moreover from this have "(b AND 0xE0) OR 0x1F = b" using byte_split [of b] by simp
    moreover have "unat (ucast v :: u32) < 2 ^ 29" using uv u32 by simp
    ultimately have "der_tag tag = b # base128 v"
      by (simp only: tag der_tag_join bck if_False)
    then show ?thesis using Cons p by (simp add: parse_base128_iff)
  qed
qed

end
