(* ===== verification/CbsElement.thy ===== *)
theory CbsElement
  imports CbsDer
begin

text \<open>
  DER elements: the length octets, the whole element, and the exact characterisation of the
  element and value parsers of \<open>cbs.c\<close> by the encoding.
\<close>

definition der_length :: "u64 \<Rightarrow> bytes" where
  "der_length n = (if n < 128 then [ucast n] else (0x80 OR of_nat (octets n)) # be_bytes (octets n) n)"

definition der_header :: "u32 \<Rightarrow> bytes \<Rightarrow> bytes" where
  "der_header tag content = der_tag tag @ der_length (of_nat (length content))"

definition der :: "u32 \<Rightarrow> bytes \<Rightarrow> bytes" where
  "der tag content = der_header tag content @ content"

lemma cbs_get_u_eq:
  "length cbs < 2 ^ 64 \<Longrightarrow> cbs_get_u n cbs =
     (if length cbs < unat n then (None, cbs) else (Some (be_word (take (unat n) cbs)), drop (unat n) cbs))"
  by (simp add: cbs_get_u_def cbs_get_eq bindo_def)

lemma unat_lt_drop: "unat (v :: u64) < 2 ^ k \<longleftrightarrow> drop_bit k v = 0"
  by (simp only: drop_bit_eq_0_iff)

lemma octets_u32: "unat n < 2 ^ 32 \<Longrightarrow> octets n \<le> 4"
  using unat_lt_drop [of n 32] by (intro octets_le) simp

lemma length_der_length: "unat n < 2 ^ 32 \<Longrightarrow> 1 \<le> length (der_length n) \<and> length (der_length n) \<le> 5"
  using octets_u32 [of n] by (auto simp: der_length_def)

lemma length_der_tag: "1 \<le> length (der_tag tag) \<and> length (der_tag tag) \<le> 12"
  using length_base128 by (auto simp: der_tag_def Let_def)

lemma long_form_byte:
  assumes "k \<le> 4"
  shows "(0x80 OR of_nat k :: u8) AND 0x80 \<noteq> 0" "ucast ((0x80 OR of_nat k :: u8) AND 0x7F) = (of_nat k :: u64)"
proof -
  have "k = 0 \<or> k = 1 \<or> k = 2 \<or> k = 3 \<or> k = 4" using assms by linarith
  then show "(0x80 OR of_nat k :: u8) AND 0x80 \<noteq> 0" "ucast ((0x80 OR of_nat k :: u8) AND 0x7F) = (of_nat k :: u64)"
    by auto
qed

lemma short_form_byte:
  assumes "n < 128"
  shows "(ucast (n :: u64) :: u8) AND 0x80 = 0" "ucast (ucast n :: u8) = n"
proof -
  have n: "k < 7" if "bit n k" for k
    using bit_bound [of n 7 k] that assms by (simp add: word_less_nat_alt)
  show "(ucast (n :: u64) :: u8) AND 0x80 = 0"
    by (auto simp: u8_and_0x80_eq_0 bit_simps dest: n)
  show "ucast (ucast n :: u8) = n"
    by (rule bit_word_eqI) (auto simp: bit_simps dest: n)
qed

lemma element_length_der:
  assumes "unat n < 2 ^ 32" "unat hl < 2 ^ 32" "der_length n = b # lb" "length (lb @ h) < 2 ^ 64"
  shows "asn1_element_length False tag hl b (lb @ h) =
           Some (n + (hl + of_nat (length lb)), hl + of_nat (length lb))"
proof (cases "n < 128")
  case True
  then show ?thesis
    using assms(3) short_form_byte [OF True] by (auto simp: der_length_def asn1_element_length_def)
next
  case False
  define k where "k = octets n"
  have k: "k \<le> 4" using assms(1) by (simp add: k_def octets_u32)
  have b: "b = 0x80 OR of_nat k" "lb = be_bytes k n"
    using assms(3) False by (auto simp: der_length_def k_def)
  have "n \<noteq> 0" using False by auto
  then have k0: "k \<noteq> 0" by (simp add: k_def octets_pos)
  have uk: "unat (of_nat k :: u64) = k" using k by (simp add: unsigned_of_nat take_bit_nat_eq_self)
  have "unat ((of_nat k - 1 :: u64) * 8) = (k - 1) * 8"
  proof -
    have "k = 1 \<or> k = 2 \<or> k = 3 \<or> k = 4" using k k0 by linarith
    then show ?thesis by auto
  qed
  then have min: "drop_bit (unat ((of_nat k - 1 :: u64) * 8)) n \<noteq> 0"
    using octets_minimal [OF \<open>n \<noteq> 0\<close>] by (simp add: k_def mult.commute)
  have get: "cbs_get_u (of_nat k) (lb @ h) = (Some n, h)"
    using assms(4) uk octets_drop [of n] by (simp add: cbs_get_u_eq b k_def be_word_bytes)
  have "unat (n + hl + of_nat k) = unat n + unat hl + k"
    using assms(1,2) k uk by (simp add: unat_add_lem [THEN iffD1])
  then have "\<not> n + hl + of_nat k < n" by (simp add: word_less_nat_alt)
  moreover have "(of_nat k :: u64) \<noteq> 0" "\<not> (4 :: u64) < of_nat k"
    using k k0 uk by (metis unat_0, simp add: word_less_nat_alt)
  ultimately show ?thesis
    using False min get long_form_byte [OF k] b k by (simp add: asn1_element_length_def Let_def)
qed

lemma element_length_Some:
  assumes "asn1_element_length False tag hl b h = Some (len, hl')" "length h < 2 ^ 64" "unat hl < 2 ^ 32"
  shows "\<exists>n lb h'. der_length n = b # lb \<and> h = lb @ h' \<and> unat n < 2 ^ 32 \<and>
           len = n + (hl + of_nat (length lb)) \<and> hl' = hl + of_nat (length lb)"
proof (cases "b AND 0x80 = 0")
  case True
  then have "ucast b < (128 :: u64)"
  proof -
    have "b AND 0x7F \<le> (0x7F :: u8)" by (rule word_and_le1)
    then show ?thesis using u8_no_top [OF True] by (simp add: word_less_nat_alt word_le_nat_alt)
  qed
  moreover have "ucast (ucast b :: u64) = b" by (rule bit_word_eqI) (auto simp: bit_simps)
  ultimately have "der_length (ucast b) = [b]" by (simp add: der_length_def)
  moreover have "len = ucast b + hl" "hl' = hl"
    using assms(1) True by (auto simp: asn1_element_length_def)
  moreover have "unat (ucast b :: u64) < 2 ^ 32"
    by (simp only: unat_ucast_u8_u64) (rule less_trans [OF unat_u8_lt], simp)
  moreover have "hl + of_nat (length ([] :: bytes)) = hl" by simp
  ultimately show ?thesis
    by - (rule exI [of _ "ucast b"], rule exI [of _ "[]"], rule exI [of _ h], simp only: append_Nil simp_thms)
next
  case False
  define nb where "nb = (ucast (b AND 0x7F) :: u64)"
  obtain r h' where r: "cbs_get_u nb h = (r, h')" by fastforce
  have el: "(if nb = 0 \<or> 4 < nb then None
      else case r of None \<Rightarrow> None
           | Some n \<Rightarrow> if n < 128 then None else if drop_bit (unat ((nb - 1) * 8)) n = 0 then None
                     else if n + hl + nb < n then None else Some (n + (hl + nb), hl + nb)) = Some (len, hl')"
    using assms(1) unfolding asn1_element_length_def Let_def nb_def [symmetric] r
    by (simp only: False if_False fst_conv simp_thms)
  then obtain n where n': "r = Some n" by (auto split: if_splits option.splits)
  then have get: "cbs_get_u nb h = (Some n, h')"
    and nb: "nb \<noteq> 0" "\<not> 4 < nb"
    and n: "\<not> n < 128" "drop_bit (unat ((nb - 1) * 8)) n \<noteq> 0"
    and len: "len = n + (hl + nb)" "hl' = hl + nb"
    using el r by (auto split: if_splits)
  define k where "k = unat nb"
  have "k \<noteq> 0" "k \<le> 4" using nb by (simp_all add: k_def word_less_nat_alt unat_eq_0)
  then have k: "k = 1 \<or> k = 2 \<or> k = 3 \<or> k = 4" by linarith
  have nbk: "nb = of_nat k" by (simp add: k_def)
  have h: "k \<le> length h" "n = be_word (take k h)"
    using get assms(2) by (auto simp: cbs_get_u_eq k_def split: if_splits)
  have "unat ((nb - 1) * 8) = 8 * (k - 1)" using k nbk by auto
  then have "drop_bit (8 * (k - 1)) n \<noteq> 0" using n(2) by simp
  moreover have hi: "drop_bit (8 * k) n = 0"
    using be_word_bound [of "take k h"] h k by auto
  ultimately have "octets n = Suc (k - 1)" using \<open>k \<noteq> 0\<close> by (intro octets_eqI) simp_all
  then have oct: "octets n = k" using \<open>k \<noteq> 0\<close> by simp
  have "be_bytes k n = take k h" using be_bytes_word [of "take k h"] h k by auto
  moreover have "b = 0x80 OR of_nat k"
  proof -
    have "unat (b AND 0x7F) = k" by (simp add: k_def nb_def)
    then have "b AND 0x7F = of_nat k" by (rule word_eq_of_natI)
    then show ?thesis using u8_top [OF False] by (simp add: or.commute)
  qed
  ultimately have "der_length n = b # take k h" using n(1) oct by (simp add: der_length_def)
  moreover have "unat n < 2 ^ 32"
  proof -
    have "unat n < 2 ^ (8 * k)" using hi by (simp only: unat_lt_drop)
    also have "(2::nat) ^ (8 * k) \<le> 2 ^ 32" using k by (intro power_increasing) auto
    finally show ?thesis .
  qed
  moreover have "length (take k h) = k" using h by simp
  ultimately show ?thesis using len nbk
    by - (rule exI [of _ n], rule exI [of _ "take k h"], rule exI [of _ "drop k h"], simp)
qed

section \<open>Elements\<close>

lemma header_len_eq:
  "length (der_tag tag @ b # h) < 2 ^ 64 \<Longrightarrow>
     CBS_len (der_tag tag @ b # h) - CBS_len h = of_nat (length (der_tag tag) + 1)"
  by (simp add: CBS_len_def)

lemma small_of_nat: "n < 2 ^ 32 \<Longrightarrow> unat (of_nat n :: u64) = n"
  by (simp add: unsigned_of_nat take_bit_nat_eq_self)

lemma element_der:
  assumes "length content < 2 ^ 32" "length (der tag content @ rest) < 2 ^ 64"
  shows "CBS_get_any_asn1_element (der tag content @ rest) =
           (Some (der tag content, tag, of_nat (length (der_header tag content))), rest)"
proof -
  let ?n = "of_nat (length content) :: u64"
  have n: "unat ?n = length content" using assms(1) by (rule small_of_nat)
  then have n32: "unat ?n < 2 ^ 32" using assms(1) by simp
  obtain b lb where lb: "der_length ?n = b # lb"
    using length_der_length [OF n32] by (cases "der_length ?n") auto
  let ?h = "lb @ content @ rest"
  have cbs: "der tag content @ rest = der_tag tag @ b # ?h"
    by (simp add: der_def der_header_def lb)
  have len: "length (der_tag tag @ b # ?h) < 2 ^ 64" using assms(2) cbs by simp
  have tag: "parse_asn1_tag (der_tag tag @ b # ?h) = (Some tag, b # ?h)"
    using len by (intro parse_tag_der)
  have hl: "unat (of_nat (length (der_tag tag) + 1) :: u64) < 2 ^ 32"
    using length_der_tag [of tag] by (subst small_of_nat) auto
  have el: "asn1_element_length False tag (of_nat (length (der_tag tag) + 1)) b ?h =
      Some (?n + of_nat (length (der_header tag content)), of_nat (length (der_header tag content)))"
    using element_length_der [OF n32 hl lb, of "content @ rest" tag] len
    by (simp add: der_header_def lb algebra_simps)
  have tot: "unat (?n + of_nat (length (der_header tag content))) = length (der tag content)"
  proof -
    have "?n + of_nat (length (der_header tag content)) = of_nat (length (der tag content))"
      by (simp add: der_def algebra_simps)
    then show ?thesis using assms(2) by (simp add: unsigned_of_nat take_bit_nat_eq_self)
  qed
  have "CBS_get_bytes (?n + of_nat (length (der_header tag content))) (der tag content @ rest) =
      (Some (der tag content), rest)"
    using assms(2) tot by (simp add: CBS_get_bytes_def cbs_get_eq bindo_def)
  then show ?thesis
    using tag len el header_len_eq [OF len] unfolding CBS_get_any_asn1_element_def
    by (simp add: cbs_get_any_asn1_element_def cbs)
qed

lemma element_Some:
  assumes "CBS_get_any_asn1_element cbs = (Some (out, tag, hl), rest)" "length cbs < 2 ^ 64"
  shows "\<exists>content. cbs = out @ rest \<and> out = der tag content \<and> length content < 2 ^ 32 \<and>
           hl = of_nat (length (der_header tag content))"
proof -
  obtain b h len where
    p: "bindo parse_asn1_tag (\<lambda>tag. bindo CBS_get_u8 (\<lambda>lb. reto (tag, lb))) cbs = (Some (tag, b), h)"
    and el: "asn1_element_length False tag (CBS_len cbs - CBS_len h) b h = Some (len, hl)"
    and get: "CBS_get_bytes len cbs = (Some out, rest)"
    using assms(1) unfolding CBS_get_any_asn1_element_def cbs_get_any_asn1_element_def
    by (auto simp: bindo_eq_Some_iff split: prod.splits option.splits)
  obtain h1 where h1: "parse_asn1_tag cbs = (Some tag, h1)" "CBS_get_u8 h1 = (Some b, h)"
    using p by (auto simp: bindo_eq_Some_iff)
  have c1: "cbs = der_tag tag @ h1" using parse_tag_Some [OF h1(1) assms(2)] .
  then have "length h1 < 2 ^ 64 - 1" using assms(2) length_der_tag [of tag] by simp
  then have c2: "h1 = b # h" using h1(2) by (cases h1) auto
  have cbs: "cbs = der_tag tag @ b # h" using c1 c2 by simp
  have hl0: "CBS_len cbs - CBS_len h = of_nat (length (der_tag tag) + 1)"
    using header_len_eq assms(2) unfolding cbs by blast
  have "unat (of_nat (length (der_tag tag) + 1) :: u64) < 2 ^ 32"
    using length_der_tag [of tag] by (subst small_of_nat) auto
  then obtain n lb h' where n: "der_length n = b # lb" "h = lb @ h'" "unat n < 2 ^ 32"
    and len: "len = n + (of_nat (length (der_tag tag) + 1) + of_nat (length lb))"
    and hl: "hl = of_nat (length (der_tag tag) + 1) + of_nat (length lb)"
    using element_length_Some [OF el [unfolded hl0]] assms(2) cbs by auto
  let ?k = "length (der_tag tag) + 1 + length lb"
  have k: "?k < 20" using length_der_tag [of tag] length_der_length [OF n(3)] n(1) by auto
  have ul: "unat len = unat n + ?k"
  proof -
    have e: "len = of_nat (unat n + ?k)" using len by simp
    have "unat n + ?k < 2 ^ 64" using n(3) k by simp
    then show ?thesis unfolding e by (subst unsigned_of_nat, subst take_bit_nat_eq_self) simp_all
  qed
  have got: "unat len \<le> length cbs" "out = take (unat len) cbs" "rest = drop (unat len) cbs"
    using get assms(2) by (auto simp: CBS_get_bytes_def cbs_get_eq split: if_splits)
  let ?c = "take (unat n) h'"
  have lc: "length ?c = unat n" using got(1) ul n(2) cbs by simp
  have out: "out = der_tag tag @ b # lb @ ?c" using got(2) ul n(2) cbs by simp
  have nc: "of_nat (length ?c) = n" using lc by simp
  have "out = der tag ?c" using out n(1) nc by (simp add: der_def der_header_def)
  moreover have "hl = of_nat (length (der_header tag ?c))"
    using hl n(1) nc by (simp add: der_header_def)
  moreover have "cbs = out @ rest" using got by simp
  ultimately show ?thesis using lc n(3) by metis
qed

lemma skip_header_der:
  assumes "length (der tag content) < 2 ^ 64"
  shows "skip_header (of_nat (length (der_header tag content))) (der tag content) s = (Some content, s)"
proof -
  have "length (der_header tag content) < 2 ^ 64" using assms by (simp add: der_def)
  then have "unat (of_nat (length (der_header tag content)) :: u64) = length (der_header tag content)"
    by (simp add: unsigned_of_nat take_bit_nat_eq_self)
  then show ?thesis
    using assms by (simp add: skip_header_def CBS_skip_def cbs_get_eq bindo_def der_def)
qed

lemma skip_header_Some:
  "skip_header hl out s = (Some c, s') \<longleftrightarrow> CBS_skip hl out = (Some (), c) \<and> s' = s"
  by (auto simp: skip_header_def split: prod.splits option.splits)

lemma get_any_asn1_iff:
  assumes "length cbs < 2 ^ 64"
  shows "CBS_get_any_asn1 cbs = (Some (content, tag), rest) \<longleftrightarrow>
           cbs = der tag content @ rest \<and> length content < 2 ^ 32"
proof
  assume "CBS_get_any_asn1 cbs = (Some (content, tag), rest)"
  then obtain out hl where e: "CBS_get_any_asn1_element cbs = (Some (out, tag, hl), rest)"
    and s: "skip_header hl out rest = (Some content, rest)"
    by (auto simp: CBS_get_any_asn1_def bindo_eq_Some_iff skip_header_Some)
  obtain c where c: "cbs = out @ rest" "out = der tag c" "length c < 2 ^ 32"
    "hl = of_nat (length (der_header tag c))"
    using element_Some [OF e assms] by blast
  then have "length (der tag c) < 2 ^ 64" using assms by simp
  then have "c = content" using s skip_header_der [of tag c rest] c by simp
  then show "cbs = der tag content @ rest \<and> length content < 2 ^ 32" using c by simp
next
  assume c: "cbs = der tag content @ rest \<and> length content < 2 ^ 32"
  then have "length (der tag content) < 2 ^ 64" using assms by simp
  then show "CBS_get_any_asn1 cbs = (Some (content, tag), rest)"
    using c assms element_der [of content tag rest] skip_header_der [of tag content rest]
    by (simp add: CBS_get_any_asn1_def)
qed

lemma get_asn1_iff:
  assumes "length cbs < 2 ^ 64"
  shows "CBS_get_asn1 tag cbs = (Some content, rest) \<longleftrightarrow>
           cbs = der tag content @ rest \<and> length content < 2 ^ 32"
proof -
  have "CBS_get_asn1 tag cbs = (Some content, rest) \<longleftrightarrow>
        CBS_get_any_asn1 cbs = (Some (content, tag), rest)"
    by (auto simp: CBS_get_asn1_def cbs_get_asn1_def CBS_get_any_asn1_def bindo_eq_Some_iff
        skip_header_Some)
  then show ?thesis using get_any_asn1_iff [OF assms] by simp
qed

section \<open>Integers\<close>

definition be_min :: "u64 \<Rightarrow> bytes" where
  "be_min v = be_bytes (octets v) v"

text \<open>The contents of an INTEGER with a non-negative value.\<close>

definition uint_content :: "u64 \<Rightarrow> bytes" where
  "uint_content v =
     (if v = 0 then [0] else if hd (be_min v) AND 0x80 \<noteq> 0 then 0 # be_min v else be_min v)"

lemma be_min_0 [simp]: "be_min 0 = []"
  by (simp add: be_min_def)

lemma be_min_pos: "v \<noteq> 0 \<Longrightarrow> be_min v = be_min (drop_bit 8 v) @ [ucast v]"
  by (simp add: be_min_def octets_pos)

lemma be_min_shift:
  assumes "drop_bit 56 a = 0" "a \<noteq> 0 \<or> b \<noteq> 0"
  shows "be_min (push_bit 8 a OR ucast b) = be_min a @ [b]"
proof -
  let ?v = "push_bit 8 a OR ucast b :: u64"
  have d: "drop_bit 8 ?v = a" using assms(1) by (simp only: drop_bit_shift_or)
  have "?v \<noteq> 0"
  proof
    assume "?v = 0"
    moreover from this have "a = 0" using d by simp
    ultimately have "ucast b = (0 :: u64)" by simp
    then have "unat (ucast b :: u64) = 0" by simp
    then show False using assms(2) \<open>a = 0\<close> by (simp add: unat_eq_0)
  qed
  then have "be_min ?v = be_min (drop_bit 8 ?v) @ [ucast ?v]" by (rule be_min_pos)
  then show ?thesis by (simp only: d ucast_shift_or)
qed

lemma be_min_hd: "v \<noteq> 0 \<Longrightarrow> be_min v \<noteq> [] \<and> hd (be_min v) \<noteq> 0"
proof (induction v rule: octets.induct)
  case (1 v)
  show ?case
  proof (cases "drop_bit 8 v = 0")
    case True
    have "(ucast v :: u8) \<noteq> 0"
      using shift_or_drop [of v] True 1(2) by auto
    then show ?thesis using 1(2) True by (simp add: be_min_pos)
  next
    case False
    then have "be_min (drop_bit 8 v) \<noteq> [] \<and> hd (be_min (drop_bit 8 v)) \<noteq> 0" using 1 by blast
    then show ?thesis unfolding be_min_pos [OF 1(2)] by (simp add: hd_append)
  qed
qed

lemma uint64_loop_append:
  "uint64_loop a (xs @ ys) = (case uint64_loop a xs of None \<Rightarrow> None | Some a' \<Rightarrow> uint64_loop a' ys)"
  by (induction a xs rule: uint64_loop.induct) auto

lemma uint64_loop_be_min: "uint64_loop 0 (be_min v) = Some v"
proof (induction v rule: octets.induct)
  case (1 v)
  show ?case
  proof (cases "v = 0")
    case False
    have "drop_bit 56 (drop_bit 8 v) = 0"
      by (rule bit_word_eqI) (auto simp: bit_simps dest: bit_imp_le_length)
    then show ?thesis
      using 1 [OF False] False by (simp add: be_min_pos uint64_loop_append shift_or_drop)
  qed simp
qed

lemma uint64_loop_Some:
  "uint64_loop a data = Some v \<Longrightarrow> a \<noteq> 0 \<or> (data \<noteq> [] \<longrightarrow> hd data \<noteq> 0) \<Longrightarrow> be_min v = be_min a @ data"
proof (induction a data rule: uint64_loop.induct)
  case (2 a b data)
  then have a: "drop_bit 56 a = 0" "uint64_loop (push_bit 8 a OR ucast b) data = Some v"
    by (auto split: if_splits)
  have nz: "a \<noteq> 0 \<or> b \<noteq> 0" using 2(3) by auto
  have m: "be_min (push_bit 8 a OR ucast b) = be_min a @ [b]" using a(1) nz by (rule be_min_shift)
  then have "push_bit 8 a OR ucast b \<noteq> 0" by auto
  then have "be_min v = be_min (push_bit 8 a OR ucast b) @ data"
    using 2 a by (auto split: if_splits)
  then show ?case using m by simp
qed simp

lemma asn1_uint64_value_iff: "asn1_uint64_value data = Some v \<longleftrightarrow> data = uint_content v"
proof
  assume a: "asn1_uint64_value data = Some v"
  then obtain d ds where data: "data = d # ds" by (cases data) (auto simp: asn1_uint64_value_def)
  have loop: "uint64_loop 0 data = Some v" and top: "d AND 0x80 = 0"
    and lead: "\<not> (d = 0 \<and> ds \<noteq> [] \<and> hd ds AND 0x80 = 0)"
    using a data by (auto simp: asn1_uint64_value_def hd_conv_nth split: if_splits)
  show "data = uint_content v"
  proof (cases "d = 0")
    case False
    then have m: "be_min v = data" using uint64_loop_Some [OF loop] data by simp
    then have "v \<noteq> 0" using data by auto
    then show ?thesis using m top data by (simp add: uint_content_def)
  next
    case True
    have loop': "uint64_loop 0 ds = Some v" using loop data True by simp
    show ?thesis
    proof (cases ds)
      case Nil
      then show ?thesis using loop' data True by (simp add: uint_content_def)
    next
      case (Cons e es)
      then have e: "e AND 0x80 \<noteq> 0" using lead True by simp
      then have "e \<noteq> 0" by auto
      then have "be_min v = ds" using uint64_loop_Some [OF loop'] Cons by simp
      moreover from this have "v \<noteq> 0" using Cons by auto
      ultimately show ?thesis using e Cons data True by (simp add: uint_content_def)
    qed
  qed
next
  assume d: "data = uint_content v"
  show "asn1_uint64_value data = Some v"
  proof (cases "v = 0")
    case True
    then show ?thesis using d by (simp add: uint_content_def asn1_uint64_value_def)
  next
    case False
    then obtain e es where e: "be_min v = e # es" "e \<noteq> 0"
      using be_min_hd [OF False] by (cases "be_min v") auto
    have loop: "uint64_loop 0 (e # es) = Some v" using uint64_loop_be_min [of v] e by simp
    then show ?thesis
      using d e False by (auto simp: uint_content_def asn1_uint64_value_def)
  qed
qed

lemma get_asn1_uint64_iff:
  assumes "length cbs < 2 ^ 64"
  shows "CBS_get_asn1_uint64 cbs = (Some v, rest) \<longleftrightarrow> cbs = der 2 (uint_content v) @ rest"
proof -
  have short: "length (uint_content v) < 2 ^ 32"
  proof -
    have "octets v \<le> 8"
      by (rule octets_le, rule bit_word_eqI) (auto simp: bit_simps dest: bit_imp_le_length)
    then show ?thesis by (simp add: uint_content_def be_min_def)
  qed
  have "CBS_get_asn1_uint64 cbs = (Some v, rest) \<longleftrightarrow>
        CBS_get_asn1 2 cbs = (Some (uint_content v), rest)"
    by (auto simp: CBS_get_asn1_uint64_def bindo_def asn1_uint64_value_iff split: prod.splits option.splits)
  then show ?thesis using get_asn1_iff [OF assms] short by simp
qed

lemma get_asn1_bool_iff:
  assumes "length cbs < 2 ^ 64"
  shows "CBS_get_asn1_bool cbs = (Some v, rest) \<longleftrightarrow> cbs = der 1 [if v then 0xFF else 0] @ rest"
proof -
  have "CBS_get_asn1_bool cbs = (Some v, rest) \<longleftrightarrow>
        CBS_get_asn1 1 cbs = (Some [if v then 0xFF else 0], rest)"
  proof
    assume "CBS_get_asn1_bool cbs = (Some v, rest)"
    then obtain bs r where g0: "CBS_get_asn1 1 cbs = (Some bs, r)"
      and k: "bindo (requireo (CBS_len bs = 1)) (\<lambda>_. let value = bs ! 0
         in bindo (requireo (value = 0 \<or> value = 0xFF)) (\<lambda>_. reto (value \<noteq> 0))) r = (Some v, rest)"
      unfolding CBS_get_asn1_bool_def bindo_eq_Some_iff [of "CBS_get_asn1 1"] by blast
    have l: "CBS_len bs = 1" and g: "CBS_get_asn1 1 cbs = (Some bs, rest)"
      and v: "bs ! 0 = 0 \<or> bs ! 0 = 0xFF" "v \<longleftrightarrow> bs ! 0 \<noteq> 0"
      using k g0 by (simp_all add: bindo_def Let_def split: if_splits)
    have "cbs = der 1 bs @ rest" using get_asn1_iff [OF assms] g by blast
    then have "length bs < 2 ^ 64" using assms by (simp add: der_def)
    then have "length bs = 1" using l unat_CBS_len [of bs] by simp
    then show "CBS_get_asn1 1 cbs = (Some [if v then 0xFF else 0], rest)"
      using g v by (cases bs) auto
  next
    assume "CBS_get_asn1 1 cbs = (Some [if v then 0xFF else 0], rest)"
    then show "CBS_get_asn1_bool cbs = (Some v, rest)"
      unfolding CBS_get_asn1_bool_def by (cases v) (simp_all add: Let_def CBS_len_def)
  qed
  then show ?thesis using get_asn1_iff [OF assms] by simp
qed

section \<open>The parsers are exact\<close>

text \<open>C8. \<open>CBS_get_any_asn1\<close> accepts exactly the DER encodings: it succeeds with a tag and contents
  precisely if the input starts with the one DER encoding of them (minimal tag number, which may be
  of several bytes, minimal length, contents below \<open>2 ^ 32\<close> bytes), and leaves exactly what follows. So no two different
  inputs parse to the same element, no encoding is refused, and nothing is read beyond it.\<close>

theorem any_asn1_accepts_exactly_der:
  assumes "length cbs < 2 ^ 64"
  shows "CBS_get_any_asn1 cbs = (Some (content, tag), rest) \<longleftrightarrow>
           cbs = der tag content @ rest \<and> length content < 2 ^ 32"
  using assms by (rule get_any_asn1_iff)

theorem any_asn1_accepts_exactly_der_witness:
  "CBS_get_any_asn1 ([0x30, 2, 7, 8] @ [9]) = (Some ([7, 8], 0x20000010), [9])"
proof -
  have "[0x30, 2, 7, 8] = der 0x20000010 [7, 8]"
    by (simp add: der_def der_header_def der_tag_def der_length_def Let_def)
  then have e: "[0x30, 2, 7, 8] @ [9] = der 0x20000010 [7, 8] @ [9]" by simp
  show ?thesis by (rule any_asn1_accepts_exactly_der [THEN iffD2, OF _ conjI [OF e]]) simp_all
qed

text \<open>C26. \<open>CBS_get_asn1_uint64\<close> and \<open>CBS_get_asn1_bool\<close> accept exactly the DER form of their values:
  an INTEGER with the shortest big-endian contents, with a zero octet in front only where the
  sign bit needs it (negative, empty, padded and too large contents are refused), and a BOOLEAN
  with the single octet \<open>00\<close> or \<open>FF\<close>.\<close>

theorem asn1_values_exact:
  assumes "length cbs < 2 ^ 64"
  shows "(CBS_get_asn1_uint64 cbs = (Some v, rest) \<longleftrightarrow> cbs = der 2 (uint_content v) @ rest) \<and>
         (CBS_get_asn1_bool cbs = (Some t, rest) \<longleftrightarrow> cbs = der 1 [if t then 0xFF else 0] @ rest)"
  using get_asn1_uint64_iff [OF assms] get_asn1_bool_iff [OF assms] by blast

theorem asn1_values_exact_witness:
  "CBS_get_asn1_uint64 [2, 2, 0, 0x80, 5] = (Some 128, [5]) \<and> CBS_get_asn1_bool [1, 1, 0xFF] = (Some True, [])"
proof -
  have a: "[2, 2, 0, 0x80, 5] = der 2 (uint_content 128) @ [5]" by code_simp
  have b: "[1, 1, 0xFF] = der 1 [if True then 0xFF else 0] @ []" by code_simp
  have "CBS_get_asn1_uint64 [2, 2, 0, 0x80, 5] = (Some 128, [5])"
    by (rule asn1_values_exact [THEN conjunct1, THEN iffD2, OF _ a]) simp
  moreover have "CBS_get_asn1_bool [1, 1, 0xFF] = (Some True, [])"
    by (rule asn1_values_exact [THEN conjunct2, THEN iffD2, OF _ b]) simp
  ultimately show ?thesis by blast
qed

end
