(* ===== verification/CbbSpec.thy ===== *)
theory CbbSpec
  imports Cbb CbsElement
begin

text \<open>
  What the byte-string builder promises. The abstract state of a chain of \<open>CBB\<close> objects is the
  bytes of the top-level object and, for each open child, its kind of prefix and its own bytes;
  closing a child appends its prefix and its bytes to its parent. \<open>cbb_holds\<close> relates it to the
  concrete buffer with its placeholders and offsets.
\<close>

datatype prefix_kind = Plain nat | Asn1

type_synonym frames = "(prefix_kind \<times> bytes) list"

fun hole :: "prefix_kind \<Rightarrow> nat" where
  "hole (Plain n) = n"
| "hole Asn1 = 1"

fun kind_ok :: "prefix_kind \<Rightarrow> bool" where
  "kind_ok (Plain n) \<longleftrightarrow> 1 \<le> n \<and> n \<le> 3"
| "kind_ok Asn1 \<longleftrightarrow> True"

text \<open>Which contents a prefix can describe, and the prefix.\<close>

fun prefix_ok :: "prefix_kind \<Rightarrow> nat \<Rightarrow> bool" where
  "prefix_ok (Plain n) len \<longleftrightarrow> len < 256 ^ n"
| "prefix_ok Asn1 len \<longleftrightarrow> len \<le> 0xFFFFFFFE"

fun prefix_bytes :: "prefix_kind \<Rightarrow> nat \<Rightarrow> bytes" where
  "prefix_bytes (Plain n) len = be_bytes n (of_nat len)"
| "prefix_bytes Asn1 len = der_length (of_nat len)"

definition close_frame :: "prefix_kind \<times> bytes \<Rightarrow> bytes" where
  "close_frame f = prefix_bytes (fst f) (length (snd f)) @ snd f"

text \<open>The bytes that a list of nested frames closes to, and whether all of them can be closed.\<close>

fun close_all :: "frames \<Rightarrow> bytes" where
  "close_all [] = []"
| "close_all ((k, d) # fs) = close_frame (k, d @ close_all fs)"

fun closable :: "frames \<Rightarrow> bool" where
  "closable [] \<longleftrightarrow> True"
| "closable ((k, d) # fs) \<longleftrightarrow> closable fs \<and> prefix_ok k (length (d @ close_all fs))"

text \<open>The buffer's contents while frames are open, and the chain of children.\<close>

fun open_bytes :: "frames \<Rightarrow> bytes" where
  "open_bytes [] = []"
| "open_bytes ((k, d) # fs) = replicate (hole k) 0 @ d @ open_bytes fs"

fun chain_of :: "nat \<Rightarrow> frames \<Rightarrow> cbb_child list" where
  "chain_of p [] = []"
| "chain_of p ((k, d) # fs) =
     \<lparr>c_offset = of_nat p, pending_len_len = of_nat (hole k), pending_is_asn1 = (k = Asn1)\<rparr>
       # chain_of (p + hole k + length d) fs"

text \<open>A buffer in order, and room for \<open>n\<close> more bytes in it.\<close>

definition buffer_ok :: "cbb_buffer \<Rightarrow> bool" where
  "buffer_ok b \<longleftrightarrow> length (b_buf b) = unat (b_cap b) \<and> b_len b \<le> b_cap b \<and> \<not> b_error b"

definition room :: "cbb_env \<Rightarrow> nat \<Rightarrow> cbb_buffer \<Rightarrow> bool" where
  "room env n b \<longleftrightarrow>
     unat (b_len b) + n \<le> unat (b_cap b) \<or>
     can_resize b \<and> (\<forall>k. grants env k) \<and> unat (b_len b) + n < 2 ^ 64"

definition written :: "cbb_buffer \<Rightarrow> bytes" where
  "written b = take (unat (b_len b)) (b_buf b)"

text \<open>
  The innermost open \<open>CBB\<close> of the chain described by \<open>fs\<close> has the additional bytes \<open>x\<close>; the
  buffer has room for \<open>n\<close> more.
\<close>

definition cbb_holds :: "cbb_env \<Rightarrow> nat \<Rightarrow> CBB \<Rightarrow> bytes \<Rightarrow> frames \<Rightarrow> bytes \<Rightarrow> bool" where
  "cbb_holds env n cbb root fs x \<longleftrightarrow>
     (\<exists>b. c_base cbb = Some b \<and> buffer_ok b \<and> room env n b \<and>
          written b = root @ open_bytes fs @ x \<and> c_chain cbb = chain_of (length root) fs \<and>
          (\<forall>f \<in> set fs. kind_ok (fst f)))"

section \<open>The buffer\<close>

lemma length_written: "buffer_ok b \<Longrightarrow> length (written b) = unat (b_len b)"
  by (simp add: written_def buffer_ok_def word_le_nat_alt)

lemma room_mono: "room env n b \<Longrightarrow> m \<le> n \<Longrightarrow> room env m b"
  by (auto simp: room_def)

text \<open>A successful \<open>cbb_buffer_add\<close>: what was written stays, \<open>k\<close> bytes are appended.\<close>

definition extends_by :: "nat \<Rightarrow> cbb_buffer \<Rightarrow> cbb_buffer \<Rightarrow> bool" where
  "extends_by k b b' \<longleftrightarrow>
     buffer_ok b' \<and> unat (b_len b') = unat (b_len b) + k \<and> can_resize b' = can_resize b \<and>
     take (unat (b_len b)) (b_buf b') = written b"

lemma buffer_add:
  assumes "buffer_ok b" "room env (k + n) b" "k < 2 ^ 64"
  shows "\<exists>b'. cbb_buffer_add env (of_nat k) b = (Some (unat (b_len b)), b') \<and> extends_by k b b' \<and> room env n b'"
proof -
  let ?k = "of_nat k :: u64" and ?new = "b_len b + of_nat k"
  have uk: "unat ?k = k" using assms(3) by (simp add: unsigned_of_nat take_bit_nat_eq_self)
  have lt: "unat (b_len b) + k < 2 ^ 64"
  proof (cases "unat (b_len b) + (k + n) \<le> unat (b_cap b)")
    case True
    then have "unat (b_len b) + k \<le> unat (b_cap b)" by simp
    also have "\<dots> < 2 ^ 64" by simp
    finally show ?thesis .
  next
    case False
    then show ?thesis using assms(2) by (simp add: room_def)
  qed
  have un: "unat ?new = unat (b_len b) + k"
    using lt uk by (simp add: unat_add_lem [THEN iffD1])
  have nov: "\<not> ?new < b_len b" using un by (simp add: word_less_nat_alt)
  have lb: "length (b_buf b) = unat (b_cap b)" "unat (b_len b) \<le> unat (b_cap b)" "\<not> b_error b"
    using assms(1) by (auto simp: buffer_ok_def word_le_nat_alt)
  show ?thesis
  proof (cases "b_cap b < ?new")
    case False
    then have "cbb_buffer_reserve env ?k b = (Some (unat (b_len b)), b)"
      using nov by (simp add: cbb_buffer_reserve_def Let_def)
    then have "cbb_buffer_add env ?k b = (Some (unat (b_len b)), b\<lparr>b_len := ?new\<rparr>)"
      by (simp add: cbb_buffer_add_def)
    moreover have "extends_by k b (b\<lparr>b_len := ?new\<rparr>)" "room env n (b\<lparr>b_len := ?new\<rparr>)"
      using False un lb assms(2)
      by (auto simp: extends_by_def buffer_ok_def written_def room_def word_less_nat_alt word_le_nat_alt)
    ultimately show ?thesis by blast
  next
    case True
    then have big: "unat (b_cap b) < unat (b_len b) + k" using un by (simp add: word_less_nat_alt)
    then have res: "can_resize b" "\<forall>k. grants env k" "unat (b_len b) + (k + n) < 2 ^ 64"
      using assms(2) by (auto simp: room_def)
    define cap' where "cap' = (if b_cap b * 2 < b_cap b \<or> b_cap b * 2 < ?new then ?new else b_cap b * 2)"
    have cap': "?new \<le> cap'" by (auto simp: cap'_def)
    then have cap'_n: "unat (b_len b) + k \<le> unat cap'" using un by (simp add: word_le_nat_alt)
    let ?b = "b\<lparr>b_buf := grow env cap' (b_buf b), b_cap := cap', b_len := ?new\<rparr>"
    have "cbb_buffer_add env ?k b = (Some (unat (b_len b)), ?b)"
      using True nov res
      by (simp add: cbb_buffer_add_def cbb_buffer_reserve_def Let_def cap'_def)
    moreover have "extends_by k b ?b"
      using lb un cap' cap'_n big by (auto simp: extends_by_def buffer_ok_def grow_def written_def)
    moreover have "room env n ?b" using res un by (simp add: room_def)
    ultimately show ?thesis by blast
  qed
qed

lemma extends_split:
  assumes "buffer_ok b" "extends_by k b b'"
  shows "\<exists>x. length x = k \<and> written b' = written b @ x \<and>
             b_buf b' = written b @ x @ drop (unat (b_len b) + k) (b_buf b')"
proof -
  let ?x = "take k (drop (unat (b_len b)) (b_buf b'))"
  have l: "unat (b_len b) + k \<le> length (b_buf b')"
    using assms(2) by (auto simp: extends_by_def buffer_ok_def word_le_nat_alt)
  have e: "written b = take (unat (b_len b)) (b_buf b')" using assms(2) by (simp add: extends_by_def)
  have t: "take (unat (b_len b) + k) (b_buf b') = written b @ ?x" by (simp add: take_add e)
  then have "b_buf b' = (written b @ ?x) @ drop (unat (b_len b) + k) (b_buf b')"
    by (metis append_take_drop_id)
  moreover have "written b' = written b @ ?x"
    using assms(2) t by (simp add: written_def [of b'] extends_by_def)
  ultimately show ?thesis using l by (intro exI [of _ ?x]) simp
qed

lemma store_be_spec:
  "p + n \<le> length buf \<Longrightarrow>
     store_be n p v buf = (take p buf @ be_bytes n v @ drop (p + n) buf, drop_bit (8 * n) v)"
proof (induction n arbitrary: v buf)
  case (Suc n)
  have "take (p + n) (buf[p + n := ucast v]) = take (p + n) buf" by simp
  moreover have "drop (p + n) (buf[p + n := ucast v]) = ucast v # drop (p + Suc n) buf"
    using Suc.prems by (simp add: drop_update_swap Cons_nth_drop_Suc [symmetric])
  ultimately show ?case
    using Suc by (simp add: ac_simps take_update_swap list_update_beyond)
qed simp

lemma buffer_add_u:
  assumes "buffer_ok b" "room env (k + n) b" "1 \<le> k" "k \<le> 8" "drop_bit (8 * k) v = 0"
  shows "\<exists>b'. cbb_buffer_add_u env v k b = (Some (), b') \<and> buffer_ok b' \<and> room env n b' \<and>
              can_resize b' = can_resize b \<and> written b' = written b @ be_bytes k v"
proof -
  obtain b1 where b1: "cbb_buffer_add env (of_nat k) b = (Some (unat (b_len b)), b1)"
    "extends_by k b b1" "room env n b1"
    using buffer_add [OF assms(1,2)] assms(4) by auto
  obtain x where x: "length x = k" "written b1 = written b @ x"
    "b_buf b1 = written b @ x @ drop (unat (b_len b) + k) (b_buf b1)"
    using extends_split [OF assms(1) b1(2)] by blast
  let ?p = "unat (b_len b)"
  have lw: "length (written b) = ?p" using assms(1) by (rule length_written)
  have ok1: "buffer_ok b1" and len1: "unat (b_len b1) = ?p + k" and rs: "can_resize b1 = can_resize b"
    using b1(2) by (auto simp: extends_by_def)
  have pk: "?p + k \<le> length (b_buf b1)" using ok1 len1 by (auto simp: buffer_ok_def word_le_nat_alt)
  have tk: "take ?p (b_buf b1) = written b" using b1(2) by (simp add: extends_by_def)
  have st: "store_be k ?p v (b_buf b1) = (written b @ be_bytes k v @ drop (?p + k) (b_buf b1), 0)"
    using store_be_spec [OF pk, of v] assms(5) tk by simp
  let ?b = "b1\<lparr>b_buf := written b @ be_bytes k v @ drop (?p + k) (b_buf b1)\<rparr>"
  have "cbb_buffer_add_u env v k b = (Some (), ?b)"
    using assms(3) b1(1) st by (simp add: cbb_buffer_add_u_def)
  moreover have "buffer_ok ?b" using ok1 lw pk by (simp add: buffer_ok_def)
  moreover have "room env n ?b" using b1(3) by (simp add: room_def)
  moreover have "written ?b = written b @ be_bytes k v" using lw len1 by (simp add: written_def)
  ultimately show ?thesis using rs by auto
qed

section \<open>Writing a prefix\<close>

lemma octets_between:
  assumes "256 ^ k \<le> unat v" "unat v < 256 ^ Suc k"
  shows "octets v = Suc k"
proof (rule octets_eqI)
  have e: "(256::nat) ^ m = 2 ^ (8 * m)" for m by (simp add: power_mult)
  show "drop_bit (8 * k) v \<noteq> 0" using assms(1) by (simp only: drop_bit_eq_0_iff e not_less)
  show "drop_bit (8 * Suc k) v = 0" using assms(2) by (simp only: drop_bit_eq_0_iff e)
qed

lemma asn1_len_len_der:
  assumes "unat len \<le> 0xFFFFFFFE"
  shows "\<exists>b. asn1_len_len len = (length (der_length len), b) \<and>
             der_length len = b # be_bytes (length (der_length len) - 1) len"
proof (cases "len < 128")
  case True
  then have "\<not> 0x7F < len" "\<not> 0xFF < len" "\<not> 0xFFFF < len" "\<not> 0xFFFFFF < len"
    by (auto simp: word_less_nat_alt)
  then show ?thesis using True by (simp add: asn1_len_len_def der_length_def)
next
  case False
  then have big: "0x7F < unat len" by (simp add: word_less_nat_alt)
  consider "unat len < 256" | "256 \<le> unat len \<and> unat len < 65536"
    | "65536 \<le> unat len \<and> unat len < 16777216" | "16777216 \<le> unat len" by linarith
  then show ?thesis
  proof cases
    case 1
    then show ?thesis using False big octets_between [of 0 len]
      by (simp add: asn1_len_len_def der_length_def word_less_nat_alt)
  next
    case 2
    then show ?thesis using False octets_between [of 1 len]
      by (simp add: asn1_len_len_def der_length_def word_less_nat_alt)
  next
    case 3
    then show ?thesis using False octets_between [of 2 len]
      by (simp add: asn1_len_len_def der_length_def word_less_nat_alt)
  next
    case 4
    then show ?thesis using False octets_between [of 3 len] assms
      by (simp add: asn1_len_len_def der_length_def word_less_nat_alt)
  qed
qed

lemma move_up_spec:
  assumes "length pre = start" "length x = extra" "length d = len"
  shows "\<exists>y. length y = extra \<and> move_up start extra len (pre @ d @ x @ rest) = pre @ y @ d @ rest"
proof -
  have "move_up start extra len (pre @ d @ x @ rest) = pre @ take extra (d @ x @ rest) @ d @ rest"
    using assms by (simp add: move_up_def)
  then show ?thesis using assms by (intro exI [of _ "take extra (d @ x @ rest)"]) simp
qed

text \<open>The bytes a prefix needs beyond its placeholder.\<close>

definition extra :: "prefix_kind \<Rightarrow> nat \<Rightarrow> nat" where
  "extra k len = length (prefix_bytes k len) - hole k"

lemma length_prefix: "prefix_ok k len \<Longrightarrow> length (prefix_bytes k len) = hole k + extra k len"
proof (cases k)
  case Asn1
  assume "prefix_ok k len"
  then have "1 \<le> length (der_length (of_nat len))"
    using Asn1 length_der_length [of "of_nat len"] by (simp add: small_of_nat)
  then show ?thesis using Asn1 by (simp add: extra_def)
qed (simp add: extra_def)

definition child_of :: "nat \<Rightarrow> prefix_kind \<Rightarrow> cbb_child" where
  "child_of p k = \<lparr>c_offset = of_nat p, pending_len_len = of_nat (hole k), pending_is_asn1 = (k = Asn1)\<rparr>"

lemma child_of_sel [simp]:
  "c_offset (child_of p k) = of_nat p" "pending_len_len (child_of p k) = of_nat (hole k)"
  by (simp_all add: child_of_def)

lemma hole_word: "kind_ok k \<Longrightarrow> unat (of_nat (hole k) :: u8) = hole k"
  by (cases k) (auto simp: unsigned_of_nat take_bit_nat_eq_self)

lemma flush_prefix_plain:
  assumes "buffer_ok b" "written b = pre @ replicate m 0 @ d" "1 \<le> m" "m \<le> 3"
  shows "flush_prefix env (child_of (length pre) (Plain m)) (of_nat (length pre + m)) b =
    (if length d < 256 ^ m
     then (Some (), b\<lparr>b_buf := pre @ be_bytes m (of_nat (length d)) @ d @ drop (unat (b_len b)) (b_buf b)\<rparr>)
     else buffer_err (b\<lparr>b_buf := pre @ be_bytes m (of_nat (length d)) @ d @ drop (unat (b_len b)) (b_buf b)\<rparr>))"
proof -
  let ?p = "length pre"
  have len: "unat (b_len b) = ?p + m + length d"
    using length_written [OF assms(1)] assms(2) by simp
  then have bl: "b_len b = of_nat (?p + m + length d)" by (rule word_eq_of_natI)
  have lt: "?p + m + length d < 2 ^ 64" using len unat_u64_lt [of "b_len b"] by simp
  have d: "b_len b - of_nat (?p + m) = of_nat (length d)" "unat (of_nat (length d) :: u64) = length d"
    using lt by (simp_all add: bl unsigned_of_nat take_bit_nat_eq_self)
  have up: "unat (of_nat ?p :: u64) = ?p" "unat (of_nat m :: u8) = m"
    using lt assms(4) by (simp_all add: unsigned_of_nat take_bit_nat_eq_self)
  define r where "r = drop (unat (b_len b)) (b_buf b)"
  have "b_buf b = written b @ r" by (simp add: written_def r_def)
  then have buf: "b_buf b = pre @ replicate m 0 @ d @ r" by (simp add: assms(2))
  have fit: "?p + m \<le> length (b_buf b)" by (simp add: buf)
  have "take ?p (b_buf b) = pre" "drop (?p + m) (b_buf b) = d @ r" by (simp_all add: buf)
  then have st: "store_be m ?p (of_nat (length d)) (b_buf b) =
      (pre @ be_bytes m (of_nat (length d)) @ d @ r, drop_bit (8 * m) (of_nat (length d)))"
    using store_be_spec [OF fit] by simp
  have "drop_bit (8 * m) (of_nat (length d) :: u64) = 0 \<longleftrightarrow> length d < 256 ^ m"
    using d(2) by (simp add: drop_bit_eq_0_iff power_mult)
  then show ?thesis
    using d(1) up st by (simp add: flush_prefix_def child_of_def Let_def r_def [symmetric])
qed

lemma flush_prefix_asn1:
  assumes "buffer_ok b" "written b = pre @ [0] @ d" "length d \<le> 0xFFFFFFFE"
    and "room env (extra Asn1 (length d) + n) b"
  shows "\<exists>b'. flush_prefix env (child_of (length pre) Asn1) (of_nat (length pre + 1)) b = (Some (), b') \<and>
              buffer_ok b' \<and> room env n b' \<and> can_resize b' = can_resize b \<and>
              written b' = pre @ der_length (of_nat (length d)) @ d"
proof -
  let ?p = "length pre" and ?len = "of_nat (length d) :: u64"
  have len: "unat (b_len b) = ?p + 1 + length d"
    using length_written [OF assms(1)] assms(2) by simp
  then have bl: "b_len b = of_nat (?p + 1 + length d)" by (rule word_eq_of_natI)
  have lt: "?p + 1 + length d < 2 ^ 64" using len unat_u64_lt [of "b_len b"] by simp
  have d: "b_len b - of_nat (?p + 1) = ?len" "unat ?len = length d"
    using lt by (simp_all add: bl unsigned_of_nat take_bit_nat_eq_self)
  have up: "unat (of_nat ?p :: u64) = ?p" "unat (of_nat (?p + 1) :: u64) = ?p + 1"
    using lt by (simp_all add: unsigned_of_nat take_bit_nat_eq_self del: of_nat_Suc of_nat_add)
  obtain i where i: "asn1_len_len ?len = (length (der_length ?len), i)"
    "der_length ?len = i # be_bytes (length (der_length ?len) - 1) ?len"
    using asn1_len_len_der [of ?len] assms(3) d by auto
  define e where "e = length (der_length ?len) - 1"
  have "length (der_length ?len) = Suc e" by (subst i(2)) (simp add: e_def)
  then have e: "length (der_length ?len) = Suc e" "der_length ?len = i # be_bytes e ?len" "extra Asn1 (length d) = e"
    using i(2) by (simp_all add: extra_def)
  have e4: "e \<le> 4" using length_der_length [of ?len] assms(3) d e(1) by simp
  have notbig: "\<not> 0xFFFFFFFE < ?len" using assms(3) d by (simp add: word_less_nat_alt)
  define r where "r = drop (unat (b_len b)) (b_buf b)"
  have "b_buf b = written b @ r" by (simp add: written_def r_def)
  then have buf: "b_buf b = pre @ [0] @ d @ r" by (simp add: assms(2))
  show ?thesis
  proof (cases "e = 0")
    case True
    let ?b = "b\<lparr>b_buf := pre @ i # d @ r\<rparr>"
    have "flush_prefix env (child_of ?p Asn1) (of_nat (?p + 1)) b = (Some (), ?b)"
      using True d(1) up notbig i(1) e(1) buf
      by (simp add: flush_prefix_def child_of_def Let_def)
    moreover have "buffer_ok ?b" using assms(1) buf by (simp add: buffer_ok_def)
    moreover have "room env n ?b" using assms(4) True e(3) by (simp add: room_def)
    moreover have "written ?b = pre @ der_length ?len @ d"
      using True e(2) len by (simp add: written_def)
    ultimately show ?thesis by auto
  next
    case False
    obtain b1 where b1: "cbb_buffer_add env (of_nat e) b = (Some (unat (b_len b)), b1)"
      "extends_by e b b1" "room env n b1"
      using buffer_add [OF assms(1), of env e n] assms(4) e(3) e4 by auto
    obtain x where x: "length x = e" "written b1 = written b @ x"
      "b_buf b1 = written b @ x @ drop (unat (b_len b) + e) (b_buf b1)"
      using extends_split [OF assms(1) b1(2)] by blast
    define r1 where "r1 = drop (unat (b_len b) + e) (b_buf b1)"
    have ok1: "buffer_ok b1" and len1: "unat (b_len b1) = ?p + 1 + length d + e"
      and rs: "can_resize b1 = can_resize b" using b1(2) len by (auto simp: extends_by_def)
    have "b_buf b1 = (pre @ [0]) @ d @ x @ r1"
      using x(3) assms(2) unfolding r1_def by simp
    then obtain y where y: "length y = e" "move_up (?p + 1) e (length d) (b_buf b1) = (pre @ [0]) @ y @ d @ r1"
      using move_up_spec [of "pre @ [0]" "?p + 1" x e d "length d" r1] x(1) by auto
    have st: "store_be e (Suc ?p) ?len ((pre @ [0] @ y @ d @ r1)[?p := i]) =
        (pre @ i # be_bytes e ?len @ d @ r1, 0)"
    proof -
      have "drop_bit (8 * e) ?len = 0"
      proof -
        have "octets ?len = e"
          using e(1) False by (auto simp: der_length_def split: if_splits)
        then show ?thesis using octets_drop [of ?len] by simp
      qed
      then show ?thesis using store_be_spec [of "Suc ?p" e "pre @ i # y @ d @ r1" ?len] y(1) by simp
    qed
    let ?b = "b1\<lparr>b_buf := pre @ i # be_bytes e ?len @ d @ r1\<rparr>"
    have "flush_prefix env (child_of ?p Asn1) (of_nat (?p + 1)) b = (Some (), ?b)"
      using False d up notbig i(1) e(1) b1(1) y(2) st
      by (simp add: flush_prefix_def child_of_def Let_def)
    moreover have "buffer_ok ?b"
    proof -
      have "length (pre @ i # be_bytes e ?len @ d @ r1) = length (b_buf b1)"
        using \<open>b_buf b1 = (pre @ [0]) @ d @ x @ r1\<close> x(1) by simp
      then show ?thesis using ok1 unfolding buffer_ok_def by simp
    qed
    moreover have "room env n ?b" using b1(3) by (simp add: room_def)
    moreover have "written ?b = pre @ der_length ?len @ d"
      using e(2) len1 by (simp add: written_def)
    ultimately show ?thesis using rs by auto
  qed
qed

section \<open>Flushing\<close>

fun need :: "frames \<Rightarrow> nat" where
  "need [] = 0"
| "need ((k, d) # fs) = need fs + extra k (length (d @ close_all fs))"

lemma open_bytes_append: "open_bytes (fs @ gs) = open_bytes fs @ open_bytes gs"
  by (induction fs rule: open_bytes.induct) simp_all

lemma chain_of_append: "chain_of p (fs @ gs) = chain_of p fs @ chain_of (p + length (open_bytes fs)) gs"
  by (induction p fs rule: chain_of.induct) (simp_all add: ac_simps)

lemma length_chain_of [simp]: "length (chain_of p fs) = length fs"
  by (induction p fs rule: chain_of.induct) simp_all

text \<open>One step: the innermost child, with its own bytes complete, gets its prefix.\<close>

lemma close_innermost:
  assumes h: "cbb_holds env (extra k (length d) + n) cbb root (pre @ [(k, d0)]) d1" and d: "d = d0 @ d1"
  shows "\<exists>b. c_base cbb = Some b \<and>
     (let p = length root + length (open_bytes pre); start = of_nat p + ucast (of_nat (hole k) :: u8)
      in \<not> start < (of_nat p :: u64) \<and> \<not> b_len b < start \<and>
         (if prefix_ok k (length d)
          then \<exists>b'. flush_prefix env (child_of p k) start b = (Some (), b') \<and>
                 cbb_holds env n (cbb\<lparr>c_base := Some b', c_chain := take (length pre) (c_chain cbb)\<rparr>)
                   root pre (close_frame (k, d))
          else fst (flush_prefix env (child_of p k) start b) = None))"
proof -
  obtain b where b: "c_base cbb = Some b" "buffer_ok b" "room env (extra k (length d) + n) b"
    "written b = (root @ open_bytes pre) @ replicate (hole k) 0 @ d"
    "c_chain cbb = chain_of (length root) (pre @ [(k, d0)])"
    "\<forall>f \<in> set pre. kind_ok (fst f)" "kind_ok k"
    using h d by (auto simp: cbb_holds_def open_bytes_append)
  let ?p = "length (root @ open_bytes pre)"
  have len: "unat (b_len b) = ?p + hole k + length d"
    using length_written [OF b(2)] b(4) by simp
  have lt: "?p + hole k + length d < 2 ^ 64" using len unat_u64_lt [of "b_len b"] by simp
  have start: "of_nat ?p + ucast (of_nat (hole k) :: u8) = (of_nat (?p + hole k) :: u64)"
  proof -
    have "ucast (of_nat (hole k) :: u8) = (of_nat (hole k) :: u64)"
      using hole_word [OF b(7)] by (intro word_eq_of_natI) simp
    then show ?thesis by simp
  qed
  have us: "unat (of_nat (?p + hole k) :: u64) = ?p + hole k" "unat (of_nat ?p :: u64) = ?p"
    using lt by (simp_all add: unsigned_of_nat take_bit_nat_eq_self del: of_nat_add)
  have checks: "\<not> of_nat (?p + hole k) < (of_nat ?p :: u64)" "\<not> b_len b < of_nat (?p + hole k)"
    using us len by (simp_all add: word_less_nat_alt del: of_nat_add)
  have tk: "take (length pre) (c_chain cbb) = chain_of (length root) pre"
    by (simp add: b(5) chain_of_append)
  have "if prefix_ok k (length d)
        then \<exists>b'. flush_prefix env (child_of ?p k) (of_nat (?p + hole k)) b = (Some (), b') \<and>
               buffer_ok b' \<and> room env n b' \<and> written b' = (root @ open_bytes pre) @ close_frame (k, d)
        else fst (flush_prefix env (child_of ?p k) (of_nat (?p + hole k)) b) = None"
  proof (cases k)
    case (Plain m)
    then have m: "1 \<le> m" "m \<le> 3" using b(7) by auto
    let ?b = "b\<lparr>b_buf := (root @ open_bytes pre) @ be_bytes m (of_nat (length d)) @ d @
        drop (unat (b_len b)) (b_buf b)\<rparr>"
    have "buffer_ok ?b"
    proof -
      have "length (b_buf ?b) = length (written b @ drop (unat (b_len b)) (b_buf b))"
        using b(4) Plain by simp
      then have "length (b_buf ?b) = length (b_buf b)" by (simp add: written_def)
      then show ?thesis using b(2) unfolding buffer_ok_def by simp
    qed
    moreover have "room env n ?b" using b(3) by (auto simp: room_def)
    moreover have "written ?b = (root @ open_bytes pre) @ close_frame (k, d)"
      using len Plain by (simp add: written_def close_frame_def)
    ultimately show ?thesis
      using flush_prefix_plain [OF b(2) _ m, of "root @ open_bytes pre" d env] b(4) Plain
      by (simp add: buffer_err_def)
  next
    case Asn1
    show ?thesis
    proof (cases "length d \<le> 0xFFFFFFFE")
      case True
      then show ?thesis
        using flush_prefix_asn1 [OF b(2), of "root @ open_bytes pre" d env n] b(3,4) Asn1
        by (auto simp: close_frame_def)
    next
      case False
      have "b_len b - of_nat (?p + 1) = of_nat (length d)" "unat (of_nat (length d) :: u64) = length d"
        using lt Asn1 word_eq_of_natI [OF len] by (simp_all add: unsigned_of_nat take_bit_nat_eq_self)
      then have "0xFFFFFFFE < b_len b - of_nat (?p + 1)" using False by (simp add: word_less_nat_alt)
      then show ?thesis using False Asn1 us
        by (simp add: flush_prefix_def child_of_def Let_def buffer_err_def)
    qed
  qed
  then show ?thesis
    using b checks start tk by (auto simp: Let_def cbb_holds_def)
qed

lemma holds_chain:
  "cbb_holds env n cbb root fs x \<Longrightarrow> c_chain cbb = chain_of (length root) fs"
  by (auto simp: cbb_holds_def)

lemma holds_room_mono:
  "cbb_holds env n cbb root fs x \<Longrightarrow> m \<le> n \<Longrightarrow> cbb_holds env m cbb root fs x"
  by (auto simp: cbb_holds_def intro: room_mono)

lemma CBB_flush_done:
  "cbb_holds env n cbb root fs x \<Longrightarrow> CBB_flush env (length fs) cbb = (Some (), cbb)"
  by (auto simp: cbb_holds_def buffer_ok_def CBB_flush.simps)

lemma CBB_flush_step:
  assumes "cbb_holds env n cbb root (pre @ (k, d) # post) x"
  shows "CBB_flush env (length pre) cbb =
    (let child = child_of (length root + length (open_bytes pre)) k;
         child_start = c_offset child + ucast (pending_len_len child)
     in case CBB_flush env (Suc (length pre)) cbb of
          (None, cbb') \<Rightarrow> cbb_fail cbb'
        | (Some _, cbb') \<Rightarrow>
            (case c_base cbb' of
               None \<Rightarrow> (None, cbb')
             | Some b \<Rightarrow>
                 if child_start < c_offset child \<or> b_len b < child_start then cbb_fail cbb'
                 else (case flush_prefix env child child_start b of
                         (None, b) \<Rightarrow> cbb_fail (cbb'\<lparr>c_base := Some b\<rparr>)
                       | (Some _, b) \<Rightarrow>
                           (Some (), cbb'\<lparr>c_base := Some b, c_chain := take (length pre) (c_chain cbb')\<rparr>))))"
proof -
  obtain b where b: "c_base cbb = Some b" "\<not> b_error b" "kind_ok k"
    "c_chain cbb = chain_of (length root) (pre @ (k, d) # post)"
    using assms by (auto simp: cbb_holds_def buffer_ok_def)
  have c: "c_chain cbb ! length pre = child_of (length root + length (open_bytes pre)) k"
    by (simp add: b(4) chain_of_append nth_append child_of_def [of _ k])
  have "pending_len_len (c_chain cbb ! length pre) \<noteq> 0"
    using hole_word [OF b(3)] b(3) by (cases k) (auto simp: c)
  moreover have "length (c_chain cbb) > length pre" by (simp add: b(4))
  ultimately show ?thesis
    using b(1,2) unfolding CBB_flush.simps [of env "length pre"] c Let_def by simp
qed

lemma flush_frames:
  "cbb_holds env (need fs + n) cbb root (pre @ fs) [] \<Longrightarrow>
     (if closable fs
      then \<exists>cbb'. CBB_flush env (length pre) cbb = (Some (), cbb') \<and> cbb_holds env n cbb' root pre (close_all fs)
      else fst (CBB_flush env (length pre) cbb) = None)"
proof (induction fs arbitrary: pre n)
  case Nil
  then show ?case using CBB_flush_done [OF Nil] by (auto simp: cbb_holds_def)
next
  case (Cons f fs)
  obtain k d where f: "f = (k, d)" by force
  let ?d = "d @ close_all fs"
  have h: "cbb_holds env (need fs + (extra k (length ?d) + n)) cbb root ((pre @ [(k, d)]) @ fs) []"
    using Cons.prems f by (simp add: ac_simps)
  note step = CBB_flush_step [OF Cons.prems [unfolded f]]
  show ?case
  proof (cases "closable fs")
    case False
    then have "fst (CBB_flush env (Suc (length pre)) cbb) = None" using Cons.IH [OF h] by simp
    then show ?thesis using False f step
      by (cases "CBB_flush env (Suc (length pre)) cbb") (simp add: cbb_fail_def Let_def)
  next
    case True
    then obtain cbb1 where c1: "CBB_flush env (Suc (length pre)) cbb = (Some (), cbb1)"
      and h1: "cbb_holds env (extra k (length ?d) + n) cbb1 root (pre @ [(k, d)]) (close_all fs)"
      using Cons.IH [OF h] by auto
    show ?thesis
      using close_innermost [OF h1 refl] step c1 True f
      by (auto simp: Let_def cbb_fail_def split: if_splits prod.splits option.splits)
  qed
qed

end
