(* ===== verification/CbbDer.thy ===== *)
theory CbbDer
  imports CbbSpec
begin

text \<open>
  The appending operations of \<open>cbb.c\<close> on the abstract state, and the DER elements they write,
  which the parser of \<open>cbs.c\<close> reads back.
\<close>

lemma flushed_innermost:
  assumes "cbb_holds env n cbb root fs x" "c_base cbb = Some b" "f b = (r, b')"
  shows "flushed env (length fs) f cbb = (r, cbb\<lparr>c_base := Some b'\<rparr>)"
  using CBB_flush_done [OF assms(1)] assms(2,3) by (simp add: flushed_def on_base_def)

text \<open>Appending, as one lemma for every operation: the buffer operation appends \<open>bs\<close>.\<close>

lemma appends:
  assumes "cbb_holds env m cbb root fs x"
    and "\<And>b. c_base cbb = Some b \<Longrightarrow> buffer_ok b \<Longrightarrow> room env m b \<Longrightarrow>
           \<exists>b'. f b = (Some r, b') \<and> buffer_ok b' \<and> room env n b' \<and> written b' = written b @ bs"
  shows "\<exists>cbb'. flushed env (length fs) f cbb = (Some r, cbb') \<and> cbb_holds env n cbb' root fs (x @ bs)"
proof -
  obtain b where b: "c_base cbb = Some b" "buffer_ok b" "room env m b" "written b = root @ open_bytes fs @ x"
    "c_chain cbb = chain_of (length root) fs" "\<forall>f \<in> set fs. kind_ok (fst f)"
    using assms(1) by (auto simp: cbb_holds_def)
  obtain b' where b': "f b = (Some r, b')" "buffer_ok b'" "room env n b'" "written b' = written b @ bs"
    using assms(2) [OF b(1-3)] by blast
  show ?thesis
    using flushed_innermost [where f = f, OF assms(1) b(1) b'(1)] b b' by (auto simp: cbb_holds_def)
qed

lemma add_u:
  assumes "cbb_holds env (k + n) cbb root fs x" "1 \<le> k" "k \<le> 8" "drop_bit (8 * k) v = 0"
  shows "\<exists>cbb'. flushed env (length fs) (cbb_buffer_add_u env v k) cbb = (Some (), cbb') \<and>
                cbb_holds env n cbb' root fs (x @ be_bytes k v)"
  using buffer_add_u [OF _ _ assms(2-4)] by (intro appends [OF assms(1)]) blast

lemma add_u8:
  assumes "cbb_holds env (Suc n) cbb root fs x"
  shows "\<exists>cbb'. CBB_add_u8 env (length fs) v cbb = (Some (), cbb') \<and> cbb_holds env n cbb' root fs (x @ [v])"
proof -
  have "drop_bit (8 * 1) (ucast v :: u64) = 0" by (simp add: drop_bit_eq_0_iff)
  moreover have "be_bytes 1 (ucast v) = [v]" by (simp add: eval_nat_numeral) (rule bit_word_eqI, auto simp: bit_simps)
  ultimately show ?thesis
    using add_u [of env 1 n cbb root fs x "ucast v"] assms by (simp add: CBB_add_u8_def)
qed

lemma add_all:
  "cbb_holds env (length bs + n) cbb root fs x \<Longrightarrow>
     \<exists>cbb'. add_all_u8 env (length fs) bs cbb = (Some (), cbb') \<and> cbb_holds env n cbb' root fs (x @ bs)"
proof (induction bs arbitrary: cbb x)
  case (Cons b bs)
  then obtain c1 where c1: "CBB_add_u8 env (length fs) b cbb = (Some (), c1)"
    "cbb_holds env (length bs + n) c1 root fs (x @ [b])"
    using add_u8 [of env "length bs + n" cbb root fs x b] by auto
  from Cons.IH [OF c1(2)] c1(1) show ?case by auto
qed auto

lemma add_bytes:
  assumes "cbb_holds env (length data + n) cbb root fs x" "length data < 2 ^ 64"
  shows "\<exists>cbb'. CBB_add_bytes env (length fs) data cbb = (Some (), cbb') \<and>
                cbb_holds env n cbb' root fs (x @ data)"
  unfolding CBB_add_bytes_def
proof (intro appends [OF assms(1)])
  fix b assume b: "buffer_ok b" "room env (length data + n) b"
  obtain b1 where b1: "cbb_buffer_add env (of_nat (length data)) b = (Some (unat (b_len b)), b1)"
    "extends_by (length data) b b1" "room env n b1"
    using buffer_add [OF b assms(2)] by blast
  obtain y where y: "length y = length data" "written b1 = written b @ y"
    "b_buf b1 = written b @ y @ drop (unat (b_len b) + length data) (b_buf b1)"
    using extends_split [OF b(1) b1(2)] by blast
  define r where "r = drop (unat (b_len b) + length data) (b_buf b1)"
  have bf: "b_buf b1 = written b @ y @ r" using y(3) by (simp add: r_def)
  have lw: "length (written b) = unat (b_len b)" using b(1) by (rule length_written)
  have put: "put_bytes (unat (b_len b)) data (b_buf b1) = written b @ data @ r"
    using lw y(1) by (simp add: put_bytes_def bf)
  let ?b = "b1\<lparr>b_buf := written b @ data @ r\<rparr>"
  have ok1: "buffer_ok b1" "unat (b_len b1) = unat (b_len b) + length data"
    using b1(2) by (auto simp: extends_by_def)
  have "length (written b @ data @ r) = length (b_buf b1)" using y(1) by (simp add: bf)
  then have "buffer_ok ?b" using ok1(1) unfolding buffer_ok_def by simp
  moreover have "room env n ?b" using b1(3) by (simp add: room_def)
  moreover have "written ?b = written b @ data" using ok1(2) lw by (simp add: written_def [of ?b])
  ultimately show "\<exists>b'. bindo (cbb_buffer_add env (of_nat (length data)))
          (\<lambda>dest base. (Some (), base\<lparr>b_buf := put_bytes dest data (b_buf base)\<rparr>)) b = (Some (), b') \<and>
        buffer_ok b' \<and> room env n b' \<and> written b' = written b @ data"
    using b1(1) put by auto
qed

section \<open>Opening a child\<close>

text \<open>The bytes of the innermost object can be counted with its frame.\<close>

lemma absorb:
  "\<exists>root' fs'. length fs' = length fs \<and>
     (\<forall>n cbb y. cbb_holds env n cbb root' fs' y \<longleftrightarrow> cbb_holds env n cbb root fs (x @ y))"
proof (cases fs rule: rev_cases)
  case Nil
  then show ?thesis
    by (intro exI [of _ "root @ x"] exI [of _ "[]"]) (simp add: cbb_holds_def)
next
  case (snoc gs f)
  obtain k d where f: "f = (k, d)" by force
  show ?thesis
    by (intro exI [of _ root] exI [of _ "gs @ [(k, d @ x)]"])
      (simp add: snoc f cbb_holds_def open_bytes_append chain_of_append)
qed

lemma open_innermost:
  assumes "cbb_holds env n cbb root fs (replicate (hole k) 0)" "kind_ok k"
    and "off = of_nat (length root + length (open_bytes fs))"
  shows "cbb_holds env n (snd (open_child (length fs)
           \<lparr>c_offset = off, pending_len_len = of_nat (hole k), pending_is_asn1 = (k = Asn1)\<rparr> cbb))
           root (fs @ [(k, [])]) []"
  using assms by (auto simp: cbb_holds_def open_child_def open_bytes_append chain_of_append)

lemma holds_len:
  "cbb_holds env n cbb root fs x \<Longrightarrow>
     \<exists>b. c_base cbb = Some b \<and> b_len b = of_nat (length root + length (open_bytes fs) + length x)"
proof -
  assume "cbb_holds env n cbb root fs x"
  then obtain b where b: "c_base cbb = Some b" "buffer_ok b" "written b = root @ open_bytes fs @ x"
    by (auto simp: cbb_holds_def)
  have "unat (b_len b) = length root + length (open_bytes fs) + length x"
    using length_written [OF b(2)] b(3) by simp
  then show ?thesis using b(1) word_eq_of_natI by blast
qed

section \<open>Tags\<close>

lemma septets_0 [simp]: "septets 0 = 0"
  by (simp add: septets.simps)

lemma septets_pos: "v \<noteq> 0 \<Longrightarrow> septets v = Suc (septets (drop_bit 7 v))"
  by (simp add: septets.simps)

lemma base128_hi_map:
  "base128_hi v = map (\<lambda>i. ucast (drop_bit (7 * i) v AND 0x7F) OR 0x80) (rev [0..<septets v])"
proof (induction v rule: base128_hi.induct)
  case (1 v)
  show ?case
  proof (cases "v = 0")
    case False
    have "[0..<Suc (septets (drop_bit 7 v))] = 0 # map Suc [0..<septets (drop_bit 7 v)]"
      by (simp add: upt_conv_Cons map_Suc_upt)
    then show ?thesis
      using 1 [OF False] False by (simp add: base128_hi_pos septets_pos rev_map [symmetric] comp_def add.commute)
  qed simp
qed

lemma base128_bytes:
  "map (base128_byte v) (rev [0..<if septets v = 0 then 1 else septets v]) = base128 v"
proof (cases "v = 0")
  case False
  have "[0..<septets v] = 0 # map Suc [0..<septets (drop_bit 7 v)]"
    using False by (simp add: septets_pos upt_conv_Cons map_Suc_upt)
  then show ?thesis
    using False by (simp add: septets_pos base128_def base128_hi_map rev_map [symmetric] comp_def
        base128_byte_def Let_def add.commute)
qed (simp add: base128_byte_def base128_def)

lemma add_base128:
  assumes "cbb_holds env (length (base128 v) + n) cbb root fs x"
  shows "\<exists>cbb'. add_base128_integer env (length fs) v cbb = (Some (), cbb') \<and>
                cbb_holds env n cbb' root fs (x @ base128 v)"
  using add_all [OF assms] unfolding add_base128_integer_def Let_def base128_bytes .

text \<open>The tag octets of \<open>CBB_add_asn1\<close>.\<close>

definition add_tag :: "cbb_env \<Rightarrow> nat \<Rightarrow> u32 \<Rightarrow> CBB \<Rightarrow> (CBB, unit) outcome" where
  "add_tag env h tag =
     (let tag_bits = (ucast (drop_bit 24 tag) AND 0xE0 :: u8); tag_number = tag AND 0x1FFFFFFF
      in if 0x1F \<le> tag_number
         then bindo (CBB_add_u8 env h (tag_bits OR 0x1F)) (\<lambda>_. add_base128_integer env h (ucast tag_number))
         else CBB_add_u8 env h (tag_bits OR ucast tag_number))"

lemma CBB_add_asn1_alt:
  "CBB_add_asn1 env h tag =
     bindo (CBB_flush env h) (\<lambda>_. bindo (add_tag env h tag) (\<lambda>_ cbb.
       bindo (CBB_add_u8 env h 0) (\<lambda>_.
         open_child h \<lparr>c_offset = (case c_base cbb of Some b \<Rightarrow> b_len b | None \<Rightarrow> 0),
                        pending_len_len = 1, pending_is_asn1 = True\<rparr>) cbb))"
  by (simp add: CBB_add_asn1_def add_tag_def Let_def)

lemma add_tag_der:
  assumes "cbb_holds env (length (der_tag tag) + n) cbb root fs x"
  shows "\<exists>cbb'. add_tag env (length fs) tag cbb = (Some (), cbb') \<and>
                cbb_holds env n cbb' root fs (x @ der_tag tag)"
proof (cases "tag AND 0x1FFFFFFF < 0x1F")
  case True
  then have "\<not> 0x1F \<le> tag AND 0x1FFFFFFF" by simp
  then show ?thesis
    using assms True add_u8 [of env n cbb root fs x]
    by (simp add: add_tag_def der_tag_def Let_def)
next
  case False
  then have ge: "0x1F \<le> tag AND 0x1FFFFFFF" by simp
  let ?b = "(ucast (drop_bit 24 tag) AND 0xE0) OR 0x1F :: u8" and ?v = "ucast (tag AND 0x1FFFFFFF) :: u64"
  have tag: "der_tag tag = ?b # base128 ?v" using False by (simp only: der_tag_def Let_def if_False)
  obtain c1 where c1: "CBB_add_u8 env (length fs) ?b cbb = (Some (), c1)"
    "cbb_holds env (length (base128 ?v) + n) c1 root fs (x @ [?b])"
    using add_u8 [of env "length (base128 ?v) + n" cbb root fs x ?b] assms tag by auto
  obtain c2 where c2: "add_base128_integer env (length fs) ?v c1 = (Some (), c2)"
    "cbb_holds env n c2 root fs ((x @ [?b]) @ base128 ?v)"
    using add_base128 [OF c1(2)] by blast
  have "add_tag env (length fs) tag cbb = (Some (), c2)"
    using c1(1) c2(1) ge by (simp only: add_tag_def Let_def if_True bindo_Some)
  then show ?thesis using c2(2) tag by simp
qed

section \<open>Elements\<close>

lemma add_asn1_opens:
  assumes "cbb_holds env (length (der_tag tag) + 1 + n) cbb root fs x"
  shows "\<exists>cbb' root' fs'. CBB_add_asn1 env (length fs) tag cbb = (Some (), cbb') \<and> length fs' = length fs \<and>
           cbb_holds env n cbb' root' (fs' @ [(Asn1, [])]) [] \<and>
           (\<forall>m c y. cbb_holds env m c root' fs' y \<longleftrightarrow> cbb_holds env m c root fs (x @ der_tag tag @ y))"
proof -
  obtain c1 where c1: "add_tag env (length fs) tag cbb = (Some (), c1)"
    "cbb_holds env (1 + n) c1 root fs (x @ der_tag tag)"
    using add_tag_der [of env tag "1 + n" cbb root fs x] assms by (auto simp: ac_simps)
  obtain root' fs' where a: "length fs' = length fs"
    "\<And>n cbb y. cbb_holds env n cbb root' fs' y \<longleftrightarrow> cbb_holds env n cbb root fs ((x @ der_tag tag) @ y)"
    using absorb [of fs env root "x @ der_tag tag"] by blast
  have h1: "cbb_holds env (Suc n) c1 root' fs' []" using c1(2) a(2) by simp
  obtain b where b: "c_base c1 = Some b" "b_len b = of_nat (length root' + length (open_bytes fs'))"
    using holds_len [OF h1] by auto
  obtain c2 where c2: "CBB_add_u8 env (length fs) 0 c1 = (Some (), c2)" "cbb_holds env n c2 root' fs' [0]"
    using add_u8 [OF h1, of 0] a(1) by auto
  have "cbb_holds env n (snd (open_child (length fs') \<lparr>c_offset = b_len b, pending_len_len = of_nat (hole Asn1),
      pending_is_asn1 = (Asn1 = Asn1)\<rparr> c2)) root' (fs' @ [(Asn1, [])]) []"
    using open_innermost [of env n c2 root' fs' Asn1 "b_len b"] c2(2) b(2) by simp
  moreover have "CBB_add_asn1 env (length fs) tag cbb = open_child (length fs')
      \<lparr>c_offset = b_len b, pending_len_len = of_nat (hole Asn1), pending_is_asn1 = (Asn1 = Asn1)\<rparr> c2"
    using CBB_flush_done [OF assms] c1(1) c2(1) b(1) a(1) by (simp add: CBB_add_asn1_alt)
  ultimately show ?thesis using a by (auto simp: open_child_def)
qed

text \<open>Opening a child for an element of given contents, and closing it again.\<close>

lemma open_element:
  assumes "cbb_holds env (length (der tag content) + n) cbb root fs x" "length content \<le> 0xFFFFFFFE"
  shows "\<exists>c1 root' fs' m. CBB_add_asn1 env (length fs) tag cbb = (Some (), c1) \<and> length fs' = Suc (length fs) \<and>
    cbb_holds env (length content + m) c1 root' fs' [] \<and>
    (\<forall>c2. cbb_holds env m c2 root' fs' content \<longrightarrow>
       (\<exists>c3. CBB_flush env (length fs) c2 = (Some (), c3) \<and> cbb_holds env n c3 root fs (x @ der tag content)))"
proof -
  have L: "length (der_length (of_nat (length content))) = Suc (extra Asn1 (length content))"
    using length_prefix [of Asn1 "length content"] assms(2) by simp
  have "cbb_holds env (length (der_tag tag) + 1 + (length content + (extra Asn1 (length content) + n))) cbb root fs x"
    using assms(1) L by (simp add: der_def der_header_def ac_simps)
  then obtain c1 root' fs' where c1: "CBB_add_asn1 env (length fs) tag cbb = (Some (), c1)" "length fs' = length fs"
    "cbb_holds env (length content + (extra Asn1 (length content) + n)) c1 root' (fs' @ [(Asn1, [])]) []"
    "\<And>m c y. cbb_holds env m c root' fs' y \<longleftrightarrow> cbb_holds env m c root fs (x @ der_tag tag @ y)"
    using add_asn1_opens by blast
  have "\<exists>c3. CBB_flush env (length fs) c2 = (Some (), c3) \<and> cbb_holds env n c3 root fs (x @ der tag content)"
    if "cbb_holds env (extra Asn1 (length content) + n) c2 root' (fs' @ [(Asn1, [])]) content" for c2
  proof -
    have "cbb_holds env (need [(Asn1, content)] + n) c2 root' (fs' @ [(Asn1, content)]) []"
      using that by (simp add: cbb_holds_def open_bytes_append chain_of_append)
    note flush = flush_frames [OF this]
    obtain c3 where c3: "CBB_flush env (length fs') c2 = (Some (), c3)"
      "cbb_holds env n c3 root' fs' (close_all [(Asn1, content)])"
      using flush assms(2) by auto
    then have "cbb_holds env n c3 root fs (x @ der tag content)"
      using c1(4) by (simp add: close_frame_def der_def der_header_def)
    then show ?thesis using c3(1) c1(2) by auto
  qed
  then show ?thesis using c1(1-3)
    by (intro exI [of _ c1] exI [of _ root'] exI [of _ "fs' @ [(Asn1, [])]"] exI [of _ "extra Asn1 (length content) + n"]) simp
qed

text \<open>An element whose contents are put into the child by \<open>body\<close>.\<close>

lemma add_element:
  assumes "cbb_holds env (length (der tag content) + n) cbb root fs x" "length content \<le> 0xFFFFFFFE"
    and body: "\<And>m c root' fs'. length fs' = Suc (length fs) \<Longrightarrow>
           cbb_holds env (length content + m) c root' fs' [] \<Longrightarrow>
           \<exists>c'. body c = (Some (), c') \<and> cbb_holds env m c' root' fs' content"
  shows "\<exists>cbb'. bindo (CBB_add_asn1 env (length fs) tag) (\<lambda>_. bindo body (\<lambda>_. CBB_flush env (length fs))) cbb =
                  (Some (), cbb') \<and> cbb_holds env n cbb' root fs (x @ der tag content)"
proof -
  obtain c1 root' fs' m where c1: "CBB_add_asn1 env (length fs) tag cbb = (Some (), c1)" "length fs' = Suc (length fs)"
    "cbb_holds env (length content + m) c1 root' fs' []"
    "\<forall>c2. cbb_holds env m c2 root' fs' content \<longrightarrow>
       (\<exists>c3. CBB_flush env (length fs) c2 = (Some (), c3) \<and> cbb_holds env n c3 root fs (x @ der tag content))"
    using open_element [OF assms(1,2)] by blast
  obtain c2 where "body c1 = (Some (), c2)" "cbb_holds env m c2 root' fs' content"
    using body [OF c1(2,3)] by blast
  then show ?thesis using c1(1,4) by auto
qed

section \<open>Values\<close>

lemma be_bytes_zero: "be_bytes n 0 = replicate n 0"
  by (induction n) (simp_all add: replicate_append_same)

lemma be_bytes_min: "octets v \<le> n \<Longrightarrow> be_bytes n v = replicate (n - octets v) 0 @ be_min v"
proof (induction n arbitrary: v)
  case 0
  then have "v = 0" using octets_pos [of v] by fastforce
  then show ?case by simp
next
  case (Suc n)
  show ?case
  proof (cases "v = 0")
    case True
    then show ?thesis by (simp only: be_bytes_zero) simp
  next
    case False
    then show ?thesis using Suc by (simp add: octets_pos be_min_pos)
  qed
qed

lemma octets_le_8: "octets v \<le> 8"
  by (rule octets_le, rule bit_word_eqI) (auto simp: bit_simps dest: bit_imp_le_length)

lemma uint64_bytes_True [simp]: "uint64_bytes True bs = bs"
  by (induction bs) simp_all

lemma uint64_bytes_zeros [simp]: "uint64_bytes False (replicate k 0 @ bs) = uint64_bytes False bs"
  by (induction k) simp_all

lemma be_bytes_8: "map (\<lambda>i. ucast (drop_bit (8 * (7 - i)) v AND 0xFF)) [0..<8] = be_bytes 8 v"
proof -
  have low: "(ucast (w AND 0xFF) :: u8) = ucast (w :: u64)" for w
    by (rule bit_word_eqI) (auto simp: bit_simps bit_consts)
  show ?thesis by (simp add: low upt_conv_Cons eval_nat_numeral)
qed

lemma uint64_bytes_content: "uint64_bytes False (be_bytes 8 v) = uint_content v"
proof (cases "v = 0")
  case True
  then show ?thesis using uint64_bytes_zeros [of 8 "[]"] by (simp add: be_bytes_zero uint_content_def)
next
  case False
  obtain e es where e: "be_min v = e # es" "e \<noteq> 0"
    using be_min_hd [OF False] by (cases "be_min v") auto
  show ?thesis
    by (simp only: be_bytes_min [OF octets_le_8] uint64_bytes_zeros) (simp add: e False uint_content_def)
qed

lemma length_uint_content: "length (uint_content v) \<le> 9"
  using octets_le_8 [of v] by (simp add: uint_content_def be_min_def)

lemma add_asn1_uint64_appends:
  assumes "cbb_holds env (length (der 2 (uint_content v)) + n) cbb root fs x"
  shows "\<exists>cbb'. CBB_add_asn1_uint64 env (length fs) v cbb = (Some (), cbb') \<and>
                cbb_holds env n cbb' root fs (x @ der 2 (uint_content v))"
  unfolding CBB_add_asn1_uint64_def be_bytes_8 uint64_bytes_content
proof (rule add_element [OF assms])
  show "length (uint_content v) \<le> 0xFFFFFFFE" using length_uint_content [of v] by simp
  fix m c root' and fs' :: frames
  assume "length fs' = Suc (length fs)" "cbb_holds env (length (uint_content v) + m) c root' fs' []"
  then show "\<exists>c'. add_all_u8 env (Suc (length fs)) (uint_content v) c = (Some (), c') \<and>
      cbb_holds env m c' root' fs' (uint_content v)"
    using add_all [of env "uint_content v" m c root' fs' "[]"] by simp
qed

lemma add_asn1_bool_appends:
  assumes "cbb_holds env (length (der 1 [if v then 0xFF else 0]) + n) cbb root fs x"
  shows "\<exists>cbb'. CBB_add_asn1_bool env (length fs) v cbb = (Some (), cbb') \<and>
                cbb_holds env n cbb' root fs (x @ der 1 [if v then 0xFF else 0])"
  unfolding CBB_add_asn1_bool_def
proof (rule add_element [OF assms])
  fix m c root' and fs' :: frames
  assume "length fs' = Suc (length fs)" "cbb_holds env (length [if v then 0xFF else 0 :: u8] + m) c root' fs' []"
  then show "\<exists>c'. CBB_add_u8 env (Suc (length fs)) (if v then 0xFF else 0) c = (Some (), c') \<and>
      cbb_holds env m c' root' fs' [if v then 0xFF else 0]"
    using add_u8 [of env m c root' fs' "[]" "if v then 0xFF else 0"] by simp
qed simp

lemma add_asn1_octet_string_appends:
  assumes "cbb_holds env (length (der 4 data) + n) cbb root fs x" "length data \<le> 0xFFFFFFFE"
  shows "\<exists>cbb'. CBB_add_asn1_octet_string env (length fs) data cbb = (Some (), cbb') \<and>
                cbb_holds env n cbb' root fs (x @ der 4 data)"
  unfolding CBB_add_asn1_octet_string_def
proof (rule add_element [OF assms])
  fix m c root' and fs' :: frames
  assume "length fs' = Suc (length fs)" "cbb_holds env (length data + m) c root' fs' []"
  then show "\<exists>c'. CBB_add_bytes env (Suc (length fs)) data c = (Some (), c') \<and>
      cbb_holds env m c' root' fs' data"
    using add_bytes [of env data m c root' fs' "[]"] assms(2) by simp
qed

section \<open>The builder and the parser together\<close>

text \<open>C15. \<open>CBB_flush\<close> refines closing the open children of the abstract builder, innermost first,
  whatever their number: if every child's length fits its prefix (1 to 3 bytes, or DER), the
  flush succeeds, the buffer holds each child's contents behind its finished length prefix, moved
  up where a DER length needs more than the reserved byte, nothing written before is changed
  and the chain ends at the flushed object; if some length does not fit, the flush fails.\<close>

theorem cbb_flush_refines:
  assumes "cbb_holds env (need fs + n) cbb root (pre @ fs) []"
  shows "if closable fs
         then \<exists>cbb'. CBB_flush env (length pre) cbb = (Some (), cbb') \<and>
                     cbb_holds env n cbb' root pre (close_all fs)
         else fst (CBB_flush env (length pre) cbb) = None"
  using assms by (rule flush_frames)

definition roomy :: cbb_env where
  "roomy = \<lparr>grants = (\<lambda>n. True), fresh = (\<lambda>i. 0)\<rparr>"

lemma init_holds:
  assumes "CBB_init env True cap = Some cbb" "\<forall>k. grants env k" "n < 2 ^ 64"
  shows "cbb_holds env n cbb [] [] []"
  using assms by (auto simp: CBB_init_def cbb_init_def CBB_zero_def cbb_holds_def buffer_ok_def room_def
      written_def)

lemma finish_holds:
  assumes "cbb_holds env n cbb root [] x"
  shows "\<exists>out len cbb'. CBB_finish env 0 True cbb = (Some (out, len), cbb') \<and> take (unat len) out = root @ x"
proof -
  obtain b where "c_base cbb = Some b" "written b = root @ x"
    using assms by (auto simp: cbb_holds_def)
  then show ?thesis
    using CBB_flush_done [OF assms] by (simp add: CBB_finish_def written_def)
qed

theorem cbb_flush_refines_witness:
  "\<exists>cbb. CBB_flush roomy 0 (snd (bindo (CBB_add_u16_length_prefixed roomy 0) (\<lambda>_. CBB_add_u8 roomy 1 7)
            (the (CBB_init roomy True 2)))) = (Some (), cbb) \<and>
         cbb_holds roomy 0 cbb [] [] [0, 1, 7]"
proof -
  let ?c = "snd (bindo (CBB_add_u16_length_prefixed roomy 0) (\<lambda>_. CBB_add_u8 roomy 1 7)
            (the (CBB_init roomy True 2)))"
  have c: "?c = \<lparr>c_base = Some \<lparr>b_buf = [0, 0, 7, 0], b_len = 3, b_cap = 4, can_resize = True, b_error = False\<rparr>,
      c_chain = [\<lparr>c_offset = 0, pending_len_len = 2, pending_is_asn1 = False\<rparr>]\<rparr>"
    by code_simp
  have z: "replicate 2 (0 :: u8) = [0, 0]" by (simp add: numeral_2_eq_2)
  have p: "be_bytes 2 1 = [0, 1]" by code_simp
  have "cbb_holds roomy (need [(Plain 2, [7])] + 0) ?c [] ([] @ [(Plain 2, [7])]) []"
    unfolding c by (simp add: cbb_holds_def buffer_ok_def room_def roomy_def written_def extra_def z)
  from cbb_flush_refines [OF this] show ?thesis by (simp add: close_frame_def p)
qed

text \<open>
  A client: a SEQUENCE of an INTEGER, a BOOLEAN and an OCTET STRING, written through nested
  builders and read with the parsers.
\<close>

definition write_record :: "cbb_env \<Rightarrow> u64 \<Rightarrow> bool \<Rightarrow> bytes \<Rightarrow> CBB \<Rightarrow> (CBB, bytes \<times> u64) outcome" where
  "write_record env v t data =
     bindo (bindo (CBB_add_asn1 env 0 0x20000010) (\<lambda>_.
       bindo (bindo (CBB_add_asn1_uint64 env 1 v) (\<lambda>_. bindo (CBB_add_asn1_bool env 1 t)
                (\<lambda>_. CBB_add_asn1_octet_string env 1 data))) (\<lambda>_. CBB_flush env 0)))
       (\<lambda>_. CBB_finish env 0 True)"

definition read_record :: "CBS \<Rightarrow> (CBS, u64 \<times> bool \<times> bytes) outcome" where
  "read_record =
     bindo (CBS_get_asn1 0x20000010) (parse_all
       (bindo CBS_get_asn1_uint64 (\<lambda>v. bindo CBS_get_asn1_bool (\<lambda>t. bindo (CBS_get_asn1 4) (\<lambda>data.
          reto (v, t, data))))))"

definition record_content :: "u64 \<Rightarrow> bool \<Rightarrow> bytes \<Rightarrow> bytes" where
  "record_content v t data = der 2 (uint_content v) @ der 1 [if t then 0xFF else 0] @ der 4 data"

lemma length_der_le: "length content < 2 ^ 32 \<Longrightarrow> length (der tag content) \<le> length content + 17"
  using length_der_tag [of tag] length_der_length [of "of_nat (length content)"]
  by (simp add: der_def der_header_def small_of_nat)

lemma record_content_short:
  "length data \<le> 0xFFFFFF00 \<Longrightarrow> length (record_content v t data) \<le> 0xFFFFFF00 + 61"
  using length_der_le [of "uint_content v" 2] length_der_le [of "[if t then 0xFF else 0]" 1]
    length_der_le [of data 4] length_uint_content [of v]
  by (simp add: record_content_def)

lemma write_record_body:
  assumes "length fs = 1" "cbb_holds env (length (record_content v t data) + m) c root fs []"
    and "length data \<le> 0xFFFFFF00"
  shows "\<exists>c'. bindo (CBB_add_asn1_uint64 env 1 v) (\<lambda>_. bindo (CBB_add_asn1_bool env 1 t)
                (\<lambda>_. CBB_add_asn1_octet_string env 1 data)) c = (Some (), c') \<and>
              cbb_holds env m c' root fs (record_content v t data)"
proof -
  have h: "cbb_holds env (length (der 2 (uint_content v)) +
      (length (der 1 [if t then 0xFF else 0]) + (length (der 4 data) + m))) c root fs []"
    using assms(2) by (simp add: record_content_def ac_simps)
  obtain c1 where c1: "CBB_add_asn1_uint64 env 1 v c = (Some (), c1)"
    "cbb_holds env (length (der 1 [if t then 0xFF else 0]) + (length (der 4 data) + m)) c1 root fs
       ([] @ der 2 (uint_content v))"
    using add_asn1_uint64_appends [OF h] assms(1) by auto
  obtain c2 where c2: "CBB_add_asn1_bool env 1 t c1 = (Some (), c2)"
    "cbb_holds env (length (der 4 data) + m) c2 root fs
       (([] @ der 2 (uint_content v)) @ der 1 [if t then 0xFF else 0])"
    using add_asn1_bool_appends [OF c1(2)] assms(1) by auto
  show ?thesis
    using add_asn1_octet_string_appends [OF c2(2)] c1(1) c2(1) assms(1,3)
    by (auto simp: record_content_def)
qed

lemma read_record_content:
  assumes "length data \<le> 0xFFFFFF00" "length (der 0x20000010 (record_content v t data) @ rest) < 2 ^ 64"
  shows "read_record (der 0x20000010 (record_content v t data) @ rest) = (Some (v, t, data), rest)"
proof -
  let ?c = "record_content v t data"
  have short: "length ?c < 2 ^ 32" using record_content_short [OF assms(1), of v t] by simp
  then have outer: "CBS_get_asn1 0x20000010 (der 0x20000010 ?c @ rest) = (Some ?c, rest)"
    using get_asn1_iff [OF assms(2)] by blast
  have len: "length ?c < 2 ^ 64" using short by simp
  have "CBS_get_asn1_uint64 ?c = (Some v, der 1 [if t then 0xFF else 0] @ der 4 data)"
    using get_asn1_uint64_iff [OF len] by (simp add: record_content_def)
  moreover have "CBS_get_asn1_bool (der 1 [if t then 0xFF else 0] @ der 4 data) = (Some t, der 4 data)"
    by (rule get_asn1_bool_iff [THEN iffD2]) (use len in \<open>simp_all add: record_content_def\<close>)
  moreover have "CBS_get_asn1 4 (der 4 data) = (Some data, [])"
    by (rule get_asn1_iff [THEN iffD2]) (use len assms(1) in \<open>simp_all add: record_content_def\<close>)
  ultimately show ?thesis
    using outer by (simp add: read_record_def parse_all_def CBS_len_def)
qed

text \<open>C7. What the builder writes the parser reads: with memory available, a SEQUENCE of any 64-bit
  INTEGER, any BOOLEAN and any OCTET STRING of up to \<open>0xFFFFFF00\<close> bytes, written through nested
  \<open>CBB\<close> objects on a resizable buffer of any initial capacity and finished, is parsed by \<open>CBS\<close> to
  the same three values, with nothing left over.\<close>

theorem der_record_roundtrip:
  assumes "\<forall>k. grants env k" "length data \<le> 0xFFFFFF00" "CBB_init env True cap = Some cbb"
  shows "\<exists>out len cbb'. write_record env v t data cbb = (Some (out, len), cbb') \<and>
           read_record (take (unat len) out) = (Some (v, t, data), [])"
proof -
  let ?c = "record_content v t data" and ?tag = "0x20000010 :: u32"
  have short: "length ?c \<le> 0xFFFFFFFE" using record_content_short [OF assms(2), of v t] by simp
  then have dl: "length (der ?tag ?c) < 2 ^ 64" using length_der_le [of ?c ?tag] by simp
  then have h0: "cbb_holds env (length (der ?tag ?c) + 0) cbb [] [] []"
    using init_holds [OF assms(3,1)] by simp
  let ?body = "bindo (CBB_add_asn1_uint64 env 1 v) (\<lambda>_. bindo (CBB_add_asn1_bool env 1 t)
      (\<lambda>_. CBB_add_asn1_octet_string env 1 data))"
  have body: "\<exists>c'. ?body c = (Some (), c') \<and> cbb_holds env m c' root' fs' ?c"
    if "length fs' = Suc (length ([] :: frames))" "cbb_holds env (length ?c + m) c root' fs' []" for m c root' fs'
    using write_record_body [OF _ that(2) assms(2)] that(1) by simp
  obtain c1 where c1: "bindo (CBB_add_asn1 env 0 ?tag) (\<lambda>_. bindo ?body (\<lambda>_. CBB_flush env 0)) cbb =
      (Some (), c1)" "cbb_holds env 0 c1 [] [] ([] @ der ?tag ?c)"
    using add_element [where body = ?body, OF h0 short body] by auto
  obtain out len c2 where c2: "CBB_finish env 0 True c1 = (Some (out, len), c2)"
    "take (unat len) out = der ?tag ?c"
    using finish_holds [OF c1(2)] by auto
  have "read_record (der ?tag ?c) = (Some (v, t, data), [])"
    using read_record_content [OF assms(2), of v t "[]"] dl by simp
  then show ?thesis using c1(1) c2 unfolding write_record_def by auto
qed

theorem der_record_roundtrip_witness:
  "\<exists>out len cbb'. write_record roomy 300 True [1, 2, 3] (the (CBB_init roomy True 4)) = (Some (out, len), cbb') \<and>
     read_record (take (unat len) out) = (Some (300, True, [1, 2, 3]), [])"
  by (rule der_record_roundtrip [of roomy _ 4]) (simp_all add: roomy_def CBB_init_def)

end
