(* ===== verification/Comparator.thy ===== *)
theory Comparator
  imports Prelude "HOL-Library.Multiset"
begin

text \<open>
  The contract of C comparison functions, as \<open>qsort\<close> and the sorted containers rely on it: a total
  preorder by sign. What the clients need is proved once in the locale; the comparison functions of the
  modelled code are its interpretations.
\<close>

definition ascending :: "('a \<Rightarrow> 'a \<Rightarrow> int) \<Rightarrow> 'a list \<Rightarrow> bool" where
  "ascending cmp xs = sorted_wrt (\<lambda>x y. cmp x y \<le> 0) xs"

lemma ascending_nth: "ascending cmp xs \<Longrightarrow> i < j \<Longrightarrow> j < length xs \<Longrightarrow> cmp (xs ! i) (xs ! j) \<le> 0"
  unfolding ascending_def by (rule sorted_wrt_nth_less)

lemma ascending_simps [simp]:
  "ascending cmp []" "ascending cmp (x # xs) \<longleftrightarrow> (\<forall>y\<in>set xs. cmp x y \<le> 0) \<and> ascending cmp xs"
  by (simp_all add: ascending_def)

lemma ascending_append:
  "ascending cmp (xs @ ys) \<longleftrightarrow> ascending cmp xs \<and> ascending cmp ys \<and> (\<forall>x\<in>set xs. \<forall>y\<in>set ys. cmp x y \<le> 0)"
  by (simp add: ascending_def sorted_wrt_append)

lemma ascending_drop_nth: "ascending cmp xs \<Longrightarrow> ascending cmp (take i xs @ drop (Suc i) xs)"
proof -
  assume a: "ascending cmp xs"
  have "ascending cmp (take i xs @ drop i xs)" using a by simp
  then show ?thesis
    by (cases "drop i xs") (auto simp: ascending_append drop_Suc drop_tl simp del: append_take_drop_id)
qed

locale comparator =
  fixes cmp :: "'a \<Rightarrow> 'a \<Rightarrow> int"
  assumes flip: "cmp x y < 0 \<longleftrightarrow> 0 < cmp y x"
    and trans: "cmp x y \<le> 0 \<Longrightarrow> cmp y z \<le> 0 \<Longrightarrow> cmp x z \<le> 0"
begin

lemma refl: "cmp x x = 0"
  using flip [of x x] by linarith

lemma total: "cmp x y \<le> 0 \<or> cmp y x \<le> 0"
  using flip [of x y] flip [of y x] by linarith

lemma above: "0 < cmp p x \<Longrightarrow> cmp y x \<le> 0 \<Longrightarrow> 0 < cmp p y"
  using trans [of p y x] by linarith

lemma below: "cmp p x < 0 \<Longrightarrow> cmp x y \<le> 0 \<Longrightarrow> cmp p y < 0"
  using trans [of x y p] flip [of p x] flip [of p y] flip [of x p] flip [of y p] by linarith

lemma same_above: "cmp p x = 0 \<Longrightarrow> cmp x y \<le> 0 \<Longrightarrow> cmp p y \<le> 0"
  using trans [of p x y] by linarith

lemma zero_sym: "cmp x y = 0 \<longleftrightarrow> cmp y x = 0"
  using flip [of x y] flip [of y x] by linarith

text \<open>In an ascending array, what is above the searched element bounds all behind it, and what is below
  bounds all in front of it.\<close>

lemma all_above:
  "ascending cmp xs \<Longrightarrow> m < length xs \<Longrightarrow> 0 < cmp p (xs ! m) \<Longrightarrow> i \<le> m \<Longrightarrow> 0 < cmp p (xs ! i)"
  using ascending_nth [of cmp xs i m] above [of p "xs ! m" "xs ! i"] by (cases "i = m") auto

lemma all_below:
  "ascending cmp xs \<Longrightarrow> cmp p (xs ! m) < 0 \<Longrightarrow> m \<le> i \<Longrightarrow> i < length xs \<Longrightarrow> cmp p (xs ! i) < 0"
  using ascending_nth [of cmp xs m i] below [of p "xs ! m" "xs ! i"] by (cases "i = m") auto

end

text \<open>\<open>qsort\<close> of the C library: which sorted arrangement of equal elements results is unspecified, so it
  is an argument of the models, with this contract.\<close>

definition qsort_ok :: "(('a \<Rightarrow> 'a \<Rightarrow> int) \<Rightarrow> 'a list \<Rightarrow> 'a list) \<Rightarrow> bool" where
  "qsort_ok qsort \<longleftrightarrow>
     (\<forall>cmp xs. comparator cmp \<longrightarrow> mset (qsort cmp xs) = mset xs \<and> ascending cmp (qsort cmp xs))"

lemma qsort_okD:
  assumes "qsort_ok qsort" "comparator cmp"
  shows "mset (qsort cmp xs) = mset xs" "ascending cmp (qsort cmp xs)"
    "length (qsort cmp xs) = length xs" "set (qsort cmp xs) = set xs"
  using assms mset_eq_length [of "qsort cmp xs" xs] mset_eq_setD [of "qsort cmp xs" xs]
  by (simp_all add: qsort_ok_def)

text \<open>One function with that contract.\<close>

fun insert_by :: "('a \<Rightarrow> 'a \<Rightarrow> int) \<Rightarrow> 'a \<Rightarrow> 'a list \<Rightarrow> 'a list" where
  "insert_by cmp x [] = [x]"
| "insert_by cmp x (y # ys) = (if cmp x y \<le> 0 then x # y # ys else y # insert_by cmp x ys)"

definition insertion_qsort :: "('a \<Rightarrow> 'a \<Rightarrow> int) \<Rightarrow> 'a list \<Rightarrow> 'a list" where
  "insertion_qsort cmp xs = foldr (insert_by cmp) xs []"

lemma mset_insert_by [simp]: "mset (insert_by cmp x ys) = add_mset x (mset ys)"
  by (induction ys) auto

lemma set_insert_by [simp]: "set (insert_by cmp x ys) = insert x (set ys)"
  by (induction ys) auto

context comparator
begin

lemma ascending_insert_by: "ascending cmp ys \<Longrightarrow> ascending cmp (insert_by cmp x ys)"
proof (induction ys)
  case (Cons y ys)
  then show ?case using total [of x y] trans [of x y] by auto
qed simp

lemma insertion_qsort_sorts:
  "mset (insertion_qsort cmp xs) = mset xs \<and> ascending cmp (insertion_qsort cmp xs)"
  by (induction xs) (simp_all add: insertion_qsort_def ascending_insert_by)

end

lemma insertion_qsort_ok: "qsort_ok insertion_qsort"
  by (simp add: qsort_ok_def comparator.insertion_qsort_sorts)

end
