(* ===== verification/CbbSetOf.thy ===== *)
theory CbbSetOf
  imports CbbDer Comparator
begin

text \<open>
  \<open>CBB_flush_asn1_set_of\<close>: the contents of a SET OF under construction are parsed into their elements,
  which are written back in the order of DER. Its comparison function interprets the contract of
  comparison functions.
\<close>

section \<open>The order of the elements\<close>

text \<open>\<open>OPENSSL_memcmp\<close> of equally many bytes; only its sign is specified.\<close>

fun memcmp :: "bytes \<Rightarrow> bytes \<Rightarrow> int" where
  "memcmp (x # xs) (y # ys) = (if x = y then memcmp xs ys else int (unat x) - int (unat y))"
| "memcmp _ _ = 0"

definition compare_set_of_element :: "CBS \<Rightarrow> CBS \<Rightarrow> int" where
  "compare_set_of_element a b =
     (let a_len = length a; b_len = length b; min_len = (if a_len < b_len then a_len else b_len);
          ret = memcmp (take min_len a) (take min_len b)
      in if ret \<noteq> 0 then ret else if a_len = b_len then 0 else if a_len < b_len then - 1 else 1)"

lemma compare_simps [simp]:
  "compare_set_of_element [] [] = 0" "compare_set_of_element [] (y # ys) = - 1"
  "compare_set_of_element (x # xs) [] = 1"
  "compare_set_of_element (x # xs) (y # ys) =
     (if x = y then compare_set_of_element xs ys else int (unat x) - int (unat y))"
  by (auto simp: compare_set_of_element_def Let_def word_uint_eq_iff)

interpretation set_of: comparator compare_set_of_element
proof
  fix x y z :: CBS
  show "compare_set_of_element x y < 0 \<longleftrightarrow> 0 < compare_set_of_element y x"
    by (induction x y rule: list_induct2') (auto simp: word_uint_eq_iff)
  show "compare_set_of_element x y \<le> 0 \<Longrightarrow> compare_set_of_element y z \<le> 0 \<Longrightarrow> compare_set_of_element x z \<le> 0"
  proof (induction x y arbitrary: z rule: list_induct2')
    case (2 x xs)
    then show ?case by simp
  next
    case (3 y ys)
    then show ?case by (cases z) auto
  next
    case (4 x xs y ys)
    then show ?case by (cases z) (auto simp: word_uint_eq_iff split: if_splits)
  qed simp
qed

lemma compare_zero_iff: "compare_set_of_element x y = 0 \<longleftrightarrow> x = y"
  by (induction x y rule: list_induct2') (auto simp: word_uint_eq_iff)

text \<open>The order of X.690, 11.6: the encodings are compared as octet strings of the same length, the shorter
  one padded with zeros at its end.\<close>

definition padded :: "nat \<Rightarrow> bytes \<Rightarrow> bytes" where
  "padded n xs = xs @ replicate (n - length xs) 0"

definition octets_le :: "bytes \<Rightarrow> bytes \<Rightarrow> bool" where
  "octets_le xs ys \<longleftrightarrow> xs = ys \<or>
     (\<exists>i. i < length xs \<and> i < length ys \<and> take i xs = take i ys \<and> xs ! i < ys ! i)"

definition der_order :: "bytes \<Rightarrow> bytes \<Rightarrow> bool" where
  "der_order a b \<longleftrightarrow> octets_le (padded (max (length a) (length b)) a) (padded (max (length a) (length b)) b)"

lemma octets_le_Cons: "octets_le (x # xs) (y # ys) \<longleftrightarrow> x < y \<or> x = y \<and> octets_le xs ys"
proof
  assume "octets_le (x # xs) (y # ys)"
  then consider "x = y" "xs = ys" | i where "i < Suc (length xs)" "i < Suc (length ys)" "take i (x # xs) = take i (y # ys)"
      "(x # xs) ! i < (y # ys) ! i"
    by (auto simp: octets_le_def)
  then show "x < y \<or> x = y \<and> octets_le xs ys"
  proof cases
    case (2 i)
    then show ?thesis by (cases i) (auto simp: octets_le_def)
  qed (simp add: octets_le_def)
next
  assume "x < y \<or> x = y \<and> octets_le xs ys"
  then show "octets_le (x # xs) (y # ys)"
  proof
    assume "x < y"
    then show ?thesis by (auto simp: octets_le_def intro: exI [of _ 0])
  next
    assume "x = y \<and> octets_le xs ys"
    then consider "x # xs = y # ys" | i where "i < length xs" "i < length ys" "take i xs = take i ys" "xs ! i < ys ! i" "x = y"
      by (auto simp: octets_le_def)
    then show ?thesis
    proof cases
      case (2 i)
      then show ?thesis unfolding octets_le_def by (intro disjI2 exI [of _ "Suc i"]) simp
    qed (simp add: octets_le_def)
  qed
qed

lemma zeros_first: "octets_le (replicate (length ys) 0) ys"
  by (induction ys) (auto simp: octets_le_Cons word_neq_0_conv, simp add: octets_le_def)

lemma compare_der_order: "compare_set_of_element a b \<le> 0 \<Longrightarrow> der_order a b"
proof (induction a b rule: list_induct2')
  case (3 y ys)
  then show ?case using zeros_first [of "y # ys"] by (simp add: der_order_def padded_def)
next
  case (4 x xs y ys)
  then show ?case
    by (auto simp: der_order_def padded_def octets_le_Cons word_less_def word_uint_eq_iff split: if_splits)
qed (simp_all add: der_order_def padded_def octets_le_def)

lemma ascending_der_order: "ascending compare_set_of_element xs \<Longrightarrow> sorted_wrt der_order xs"
  unfolding ascending_def by (rule sorted_wrt_mono_rel [OF compare_der_order])

section \<open>Sorting the contents\<close>

text \<open>The first loop, which counts the elements; the fuel is more than their number.\<close>

fun count_elements :: "nat \<Rightarrow> CBS \<Rightarrow> nat option" where
  "count_elements fuel cbs =
     (if cbs = [] then Some 0
      else case fuel of 0 \<Rightarrow> None
      | Suc fuel \<Rightarrow>
          (case CBS_get_any_asn1_element cbs of
             (None, _) \<Rightarrow> None
           | (Some _, rest) \<Rightarrow> map_option Suc (count_elements fuel rest)))"

declare count_elements.simps [simp del]

primrec get_children :: "nat \<Rightarrow> CBS \<Rightarrow> CBS list option" where
  "get_children 0 cbs = Some []"
| "get_children (Suc n) cbs =
     (case CBS_get_any_asn1_element cbs of
        (None, _) \<Rightarrow> None
      | (Some (child, _, _), rest) \<Rightarrow> map_option ((#) child) (get_children n rest))"

primrec add_children :: "cbb_env \<Rightarrow> nat \<Rightarrow> CBS list \<Rightarrow> CBB \<Rightarrow> (CBB, unit) outcome" where
  "add_children env h [] = reto ()"
| "add_children env h (c # cs) = bindo (CBB_add_bytes env h c) (\<lambda>_. add_children env h cs)"

definition CBB_flush_asn1_set_of ::
    "cbb_env \<Rightarrow> ((CBS \<Rightarrow> CBS \<Rightarrow> int) \<Rightarrow> CBS list \<Rightarrow> CBS list) \<Rightarrow> nat \<Rightarrow> CBB \<Rightarrow> (CBB, unit) outcome" where
  "CBB_flush_asn1_set_of env qsort h =
     bindo (CBB_flush env h) (\<lambda>_ cbb.
       let buf_len = CBB_len h cbb; content = take (unat buf_len) (CBB_data h cbb)
       in case count_elements (Suc (length content)) content of
            None \<Rightarrow> (None, cbb)
          | Some num_children \<Rightarrow>
              if num_children < 2 then (Some (), cbb)
              else if (2 ^ 64 - 1) div 16 < num_children then (None, cbb)
              else if \<not> grants env buf_len \<or> \<not> grants env (of_nat (num_children * 16)) then (None, cbb)
              else case get_children num_children content of
                None \<Rightarrow> (None, cbb)
              | Some children \<Rightarrow>
                  add_children env h (qsort compare_set_of_element children)
                    (cbb\<lparr>c_base := map_option (\<lambda>b. b\<lparr>b_len := data_start h cbb\<rparr>) (c_base cbb)\<rparr>))"

section \<open>What it does\<close>

definition is_element :: "bytes \<Rightarrow> bool" where
  "is_element e \<longleftrightarrow> (\<exists>tag content. e = der tag content \<and> length content < 2 ^ 32)"

lemma element_nonempty: "is_element e \<Longrightarrow> e \<noteq> []"
proof -
  have "der tag content \<noteq> []" for tag content
    using length_der_tag [of tag] by (auto simp: der_def der_header_def)
  then show "is_element e \<Longrightarrow> e \<noteq> []" by (auto simp: is_element_def)
qed

lemma get_element: "is_element e \<Longrightarrow> length (e @ rest) < 2 ^ 64 \<Longrightarrow>
    \<exists>t h. CBS_get_any_asn1_element (e @ rest) = (Some (e, t, h), rest)"
  using element_der by (fastforce simp: is_element_def)

lemma count_elements_concat:
  "\<forall>e\<in>set els. is_element e \<Longrightarrow> length (concat els) < 2 ^ 64 \<Longrightarrow> length els \<le> fuel \<Longrightarrow>
    count_elements fuel (concat els) = Some (length els)"
proof (induction els arbitrary: fuel)
  case (Cons e els)
  then obtain f where f: "fuel = Suc f" by (cases fuel) auto
  have "concat (e # els) \<noteq> []" using Cons(2) element_nonempty by simp
  moreover obtain t h where "CBS_get_any_asn1_element (e @ concat els) = (Some (e, t, h), concat els)"
    using get_element [of e "concat els"] Cons(2,3) by auto
  moreover have "count_elements f (concat els) = Some (length els)" using Cons f by simp
  ultimately show ?case by (simp add: count_elements.simps [of "Suc f"] f)
qed (simp add: count_elements.simps)

lemma count_elements_Some:
  "count_elements fuel cbs = Some n \<Longrightarrow> length cbs < 2 ^ 64 \<Longrightarrow>
    \<exists>els. cbs = concat els \<and> (\<forall>e\<in>set els. is_element e) \<and> length els = n"
proof (induction fuel cbs arbitrary: n rule: count_elements.induct)
  case (1 fuel cbs)
  show ?case
  proof (cases "cbs = []")
    case True
    then show ?thesis using 1(2) by (simp add: count_elements.simps)
  next
    case False
    then obtain f out t h rest k where f: "fuel = Suc f"
      and g: "CBS_get_any_asn1_element cbs = (Some (out, t, h), rest)"
      and k: "count_elements f rest = Some k" "n = Suc k"
      using 1(2) by (auto simp: count_elements.simps [of fuel] split: nat.splits prod.splits option.splits)
    obtain content where c: "cbs = out @ rest" "out = der t content" "length content < 2 ^ 32"
      using element_Some [OF g 1(3)] by blast
    obtain els where "rest = concat els" "\<forall>e\<in>set els. is_element e" "length els = k"
      using 1(1) [OF False f g [symmetric] refl k(1)] c(1) 1(3) by auto
    then show ?thesis using c k(2) by (intro exI [of _ "out # els"]) (auto simp: is_element_def)
  qed
qed

lemma get_children_concat:
  "\<forall>e\<in>set els. is_element e \<Longrightarrow> length (concat els) < 2 ^ 64 \<Longrightarrow>
    get_children (length els) (concat els) = Some els"
proof (induction els)
  case (Cons e els)
  then obtain t h where "CBS_get_any_asn1_element (e @ concat els) = (Some (e, t, h), concat els)"
    using get_element [of e "concat els"] by auto
  then show ?case using Cons by simp
qed simp

lemma add_children:
  "cbb_holds env (length (concat cs) + n) cbb root fs x \<Longrightarrow> length (concat cs) < 2 ^ 64 \<Longrightarrow>
   \<exists>cbb'. add_children env (length fs) cs cbb = (Some (), cbb') \<and> cbb_holds env n cbb' root fs (x @ concat cs)"
proof (induction cs arbitrary: cbb x)
  case (Cons c cs)
  then obtain c1 where c1: "CBB_add_bytes env (length fs) c cbb = (Some (), c1)"
    "cbb_holds env (length (concat cs) + n) c1 root fs (x @ c)"
    using add_bytes [of env c "length (concat cs) + n" cbb root fs x] by (auto simp: add.assoc)
  from Cons.IH [OF c1(2)] Cons(3) c1(1) show ?case by auto
qed simp

lemma holds_content:
  assumes "cbb_holds env n cbb root (gs @ [(k, [])]) x"
  shows "data_start (Suc (length gs)) cbb = of_nat (length root + length (open_bytes gs) + hole k)"
    "CBB_len (Suc (length gs)) cbb = of_nat (length x)" "length x < 2 ^ 64"
    "take (length x) (CBB_data (Suc (length gs)) cbb) = x"
    "cbb_holds env (length x + n)
       (cbb\<lparr>c_base := map_option (\<lambda>b. b\<lparr>b_len := data_start (Suc (length gs)) cbb\<rparr>) (c_base cbb)\<rparr>)
       root (gs @ [(k, [])]) []"
proof -
  let ?p = "length root + length (open_bytes gs)"
  obtain b where b: "c_base cbb = Some b" "buffer_ok b" "room env n b"
    "written b = root @ open_bytes gs @ replicate (hole k) 0 @ x"
    "c_chain cbb = chain_of (length root) (gs @ [(k, [])])" "\<forall>f\<in>set (gs @ [(k, [])]). kind_ok (fst f)"
    using assms by (auto simp: cbb_holds_def open_bytes_append)
  have len: "unat (b_len b) = ?p + hole k + length x"
    using length_written [OF b(2)] b(4) by simp
  then have lt: "?p + hole k + length x < 2 ^ 64" using unat_u64_lt [of "b_len b"] by (simp del: unat_u64_lt)
  have h8: "ucast (of_nat (hole k) :: u8) = (of_nat (hole k) :: u64)"
    using hole_word [of k] b(6) by (metis fst_conv in_set_conv_decomp unat_ucast_u8_u64 word_eq_of_natI)
  show ds: "data_start (Suc (length gs)) cbb = of_nat (?p + hole k)"
    using b(5) h8 by (simp add: data_start_def Let_def chain_of_append nth_append)
  then have dsn: "unat (data_start (Suc (length gs)) cbb) = ?p + hole k"
    using lt by (simp add: unat_of_nat del: of_nat_add)
  have "b_len b = of_nat (?p + hole k + length x)" using len by (rule word_eq_of_natI)
  then show "CBB_len (Suc (length gs)) cbb = of_nat (length x)" using b(1) ds by (simp add: CBB_len_def)
  show "length x < 2 ^ 64" using lt by simp
  have "take (?p + hole k + length x) (b_buf b) = root @ open_bytes gs @ replicate (hole k) 0 @ x"
    using b(4) len by (simp add: written_def)
  then have "drop (?p + hole k) (take (?p + hole k + length x) (b_buf b)) = x" by simp
  then show "take (length x) (CBB_data (Suc (length gs)) cbb) = x"
    using b(1) dsn by (simp add: CBB_data_def take_drop add.commute)
  let ?b = "b\<lparr>b_len := data_start (Suc (length gs)) cbb\<rparr>"
  have "buffer_ok ?b" using b(2) len dsn by (simp add: buffer_ok_def word_le_nat_alt)
  moreover have "room env (length x + n) ?b" using b(3) len dsn by (auto simp: room_def)
  moreover have "written ?b = root @ open_bytes gs @ replicate (hole k) 0"
  proof -
    have "written ?b = take (?p + hole k) (written b)" using len dsn by (simp add: written_def)
    then show ?thesis by (simp add: b(4))
  qed
  ultimately show "cbb_holds env (length x + n)
       (cbb\<lparr>c_base := map_option (\<lambda>b. b\<lparr>b_len := data_start (Suc (length gs)) cbb\<rparr>) (c_base cbb)\<rparr>)
       root (gs @ [(k, [])]) []"
    using b by (simp add: cbb_holds_def open_bytes_append)
qed

text \<open>C34. A SET OF is put into DER order: if the contents are a sequence of elements they are rewritten as
  the sequence of the same elements (with their repetitions) that is sorted by the order of X.690 11.6 -
  as octet strings, the shorter one padded with zeros -, inside the same open object and with the same
  room left; otherwise the call fails and reports it.\<close>

theorem flush_asn1_set_of_sorts:
  assumes "cbb_holds env n cbb root (gs @ [(k, [])]) x" "\<forall>j. grants env j" "qsort_ok qsort" "length x < 2 ^ 60"
  shows "case CBB_flush_asn1_set_of env qsort (Suc (length gs)) cbb of
      (Some _, cbb') \<Rightarrow> \<exists>els sorted. x = concat els \<and> (\<forall>e\<in>set els. is_element e) \<and>
        mset sorted = mset els \<and> sorted_wrt der_order sorted \<and>
        cbb_holds env n cbb' root (gs @ [(k, [])]) (concat sorted)
    | (None, _) \<Rightarrow> \<not> (\<exists>els. x = concat els \<and> (\<forall>e\<in>set els. is_element e))"
proof -
  note c = holds_content [OF assms(1)]
  have ux: "unat (of_nat (length x) :: u64) = length x" using c(3) by (simp add: unat_of_nat)
  have fl: "CBB_flush env (Suc (length gs)) cbb = (Some (), cbb)" using CBB_flush_done [OF assms(1)] by simp
  let ?h = "Suc (length gs)"
  let ?cut = "cbb\<lparr>c_base := map_option (\<lambda>b. b\<lparr>b_len := data_start ?h cbb\<rparr>) (c_base cbb)\<rparr>"
  have run: "CBB_flush_asn1_set_of env qsort ?h cbb =
    (case count_elements (Suc (length x)) x of
       None \<Rightarrow> (None, cbb)
     | Some m \<Rightarrow>
         if m < 2 then (Some (), cbb)
         else if (2 ^ 64 - 1) div 16 < m then (None, cbb)
         else if \<not> grants env (of_nat (length x)) \<or> \<not> grants env (of_nat (m * 16)) then (None, cbb)
         else case get_children m x of
           None \<Rightarrow> (None, cbb)
         | Some children \<Rightarrow> add_children env ?h (qsort compare_set_of_element children) ?cut)"
    unfolding CBB_flush_asn1_set_of_def bindo_def fl prod.case option.case Let_def c(2) ux c(4) ..
  have short: "length els \<le> length (concat els)" if "\<forall>e\<in>set els. is_element e" for els
    using that by (induction els) (auto dest!: element_nonempty simp: Suc_le_eq neq_Nil_conv)
  show ?thesis
  proof (cases "count_elements (Suc (length x)) x")
    case None
    have "\<not> (\<exists>els. x = concat els \<and> (\<forall>e\<in>set els. is_element e))"
    proof
      assume "\<exists>els. x = concat els \<and> (\<forall>e\<in>set els. is_element e)"
      then obtain els where els: "x = concat els" "\<forall>e\<in>set els. is_element e" by blast
      then show False using short [of els] count_elements_concat [of els "Suc (length x)"] els c(3) None by simp
    qed
    then show ?thesis unfolding run None by simp
  next
    case (Some m)
    obtain els where els: "x = concat els" "\<forall>e\<in>set els. is_element e" "length els = m"
      using count_elements_Some [OF Some c(3)] by blast
    have m: "\<not> (2 ^ 64 - 1) div 16 < m" using short [OF els(2)] els assms(4) by simp
    have run2: "CBB_flush_asn1_set_of env qsort ?h cbb =
      (if m < 2 then (Some (), cbb) else add_children env ?h (qsort compare_set_of_element els) ?cut)"
      using get_children_concat [OF els(2)] els c(3) m assms(2) unfolding run Some by simp
    show ?thesis
    proof (cases "m < 2")
      case True
      have "ascending compare_set_of_element els" using True els(3)
        by (cases els) (auto simp: less_Suc_eq numeral_2_eq_2)
      note ascending_der_order [OF this]
      then show ?thesis using True els assms(1) unfolding run2
        by (auto intro!: exI [of _ els])
    next
      case False
      let ?s = "qsort compare_set_of_element els"
      note q = qsort_okD [OF assms(3) set_of.comparator_axioms, of els]
      have "length (concat ?s) = length x"
        using q(1) els(1) by (metis length_concat mset_map sum_mset_sum_list)
      then obtain cbb' where "add_children env (length (gs @ [(k, [])])) ?s ?cut = (Some (), cbb')"
        "cbb_holds env n cbb' root (gs @ [(k, [])]) ([] @ concat ?s)"
        using add_children [of env ?s n ?cut root "gs @ [(k, [])]" "[]"] c(3,5) by auto
      moreover from this have "\<exists>es sorted. x = concat es \<and> (\<forall>e\<in>set es. is_element e) \<and>
          mset sorted = mset es \<and> sorted_wrt der_order sorted \<and>
          cbb_holds env n cbb' root (gs @ [(k, [])]) (concat sorted)"
        using els q ascending_der_order by (intro exI [of _ els] exI [of _ ?s]) simp
      ultimately show ?thesis using False unfolding run2 by simp
    qed
  qed
qed

lemma flush_asn1_set_of_sorts_witness:
  "\<exists>cbb' els sorted. CBB_flush_asn1_set_of roomy insertion_qsort 1
      \<lparr>c_base = Some \<lparr>b_buf = [49, 0, 2, 1, 5, 2, 1, 3], b_len = 8, b_cap = 8, can_resize = True, b_error = False\<rparr>,
       c_chain = [\<lparr>c_offset = 1, pending_len_len = 1, pending_is_asn1 = True\<rparr>]\<rparr> = (Some (), cbb') \<and>
    [2, 1, 5, 2, 1, 3] = concat els \<and> mset sorted = mset els \<and> sorted_wrt der_order sorted \<and>
    cbb_holds roomy 0 cbb' [49] [(Asn1, [])] (concat sorted)"
proof -
  let ?c = "\<lparr>c_base = Some \<lparr>b_buf = [49, 0, 2, 1, 5, 2, 1, 3], b_len = 8, b_cap = 8, can_resize = True, b_error = False\<rparr>,
       c_chain = [\<lparr>c_offset = 1, pending_len_len = 1, pending_is_asn1 = True\<rparr>]\<rparr>"
  have h: "cbb_holds roomy 0 ?c [49] ([] @ [(Asn1, [])]) [2, 1, 5, 2, 1, 3]"
    by (simp add: cbb_holds_def buffer_ok_def room_def roomy_def written_def)
  have "is_element [2, 1, b]" for b
    by (intro is_element_def [THEN iffD2] exI [of _ 2] exI [of _ "[b]"])
      (simp add: der_def der_header_def der_tag_def der_length_def Let_def)
  then have "\<exists>els. [2, 1, 5, 2, 1, 3] = concat els \<and> (\<forall>e\<in>set els. is_element e)"
    by (intro exI [of _ "[[2, 1, 5], [2, 1, 3]]"]) simp
  moreover have "\<forall>j. grants roomy j" by (simp add: roomy_def)
  ultimately show ?thesis
    using flush_asn1_set_of_sorts [OF h _ insertion_qsort_ok]
    by (cases "CBB_flush_asn1_set_of roomy insertion_qsort 1 ?c") (auto split: option.splits)
qed

end
