(* ===== verification/CbbOid.thy ===== *)
theory CbbOid
  imports CbbDer
begin

text \<open>
  Object identifiers as text: \<open>CBB_add_asn1_oid_from_text\<close> of \<open>cbb.c\<close> and \<open>CBS_asn1_oid_to_text\<close> of \<open>cbs.c\<close>.
  The text of an identifier is its components in decimal, with dots between them; a dot is 46, the
  digits are 48 to 57.
\<close>

section \<open>Reading\<close>

definition UINT64_MAX :: u64 where
  "UINT64_MAX = 0xFFFFFFFFFFFFFFFF"

text \<open>The loop of \<open>parse_dotted_decimal\<close>, with \<open>*out\<close> and \<open>seen_digit\<close>.\<close>

fun dotted_loop :: "u64 \<Rightarrow> bool \<Rightarrow> CBS \<Rightarrow> (CBS, u64) outcome" where
  "dotted_loop out seen_digit [] = (if seen_digit then Some out else None, [])"
| "dotted_loop out seen_digit (u # cbs) =
    (if u = 46 \<and> 0 < CBS_len cbs then (if seen_digit then Some out else None, cbs)
     else if u < 48 \<or> 57 < u \<or> (seen_digit \<and> out = 0) \<or> UINT64_MAX div 10 < out \<or>
         UINT64_MAX - ucast (u - 48) < out * 10
       then (None, cbs)
     else dotted_loop (out * 10 + ucast (u - 48)) True cbs)"

definition parse_dotted_decimal :: "CBS \<Rightarrow> (CBS, u64) outcome" where
  "parse_dotted_decimal = dotted_loop 0 False"

lemma dotted_loop_le: "dotted_loop out seen_digit cbs = (r, rest) \<Longrightarrow> length rest \<le> length cbs"
  by (induction out seen_digit cbs rule: dotted_loop.induct) (auto split: if_splits)

lemma dotted_progress:
  "(Some v, rest) = parse_dotted_decimal cbs \<Longrightarrow> cbs \<noteq> [] \<Longrightarrow> length rest < length cbs"
  by (cases cbs)
    (auto simp: parse_dotted_decimal_def less_Suc_eq_le split: if_splits dest: sym [THEN dotted_loop_le])

text \<open>The loop over the remaining components.\<close>

function add_components :: "cbb_env \<Rightarrow> nat \<Rightarrow> CBS \<Rightarrow> CBB \<Rightarrow> (CBB, unit) outcome" where
  "add_components env h cbs cbb =
    (if CBS_len cbs = 0 then (Some (), cbb)
     else case parse_dotted_decimal cbs of
       (None, _) \<Rightarrow> (None, cbb)
     | (Some a, rest) \<Rightarrow> bindo (add_base128_integer env h a) (\<lambda>_. add_components env h rest) cbb)"
  by pat_completeness auto
termination
  by (relation "measure (\<lambda>(env, h, cbs, cbb). length cbs)") (auto simp: CBS_len_def dest: dotted_progress)

declare add_components.simps [simp del]

definition CBB_add_asn1_oid_from_text :: "cbb_env \<Rightarrow> nat \<Rightarrow> bytes \<Rightarrow> CBB \<Rightarrow> (CBB, unit) outcome" where
  "CBB_add_asn1_oid_from_text env h text = bindo (CBB_flush env h) (\<lambda>_ cbb.
     case bindo parse_dotted_decimal (\<lambda>a. bindo parse_dotted_decimal (\<lambda>b. reto (a, b))) text of
       (None, _) \<Rightarrow> (None, cbb)
     | (Some (a, b), cbs) \<Rightarrow>
         if 2 < a \<or> (a < 2 \<and> 39 < b) \<or> UINT64_MAX - 80 < b then (None, cbb)
         else bindo (add_base128_integer env h (40 * a + b)) (\<lambda>_. add_components env h cbs) cbb)"

section \<open>Writing\<close>

text \<open>What \<open>BIO_snprintf\<close> makes of a \<open>uint64_t\<close>; the buffer of \<open>add_decimal\<close> is longer than that.\<close>

fun decimal :: "nat \<Rightarrow> bytes" where
  "decimal n = (if n < 10 then [of_nat (48 + n)] else decimal (n div 10) @ [of_nat (48 + n mod 10)])"

declare decimal.simps [simp del]

definition add_decimal :: "cbb_env \<Rightarrow> nat \<Rightarrow> u64 \<Rightarrow> CBB \<Rightarrow> (CBB, unit) outcome" where
  "add_decimal env h v = CBB_add_bytes env h (decimal (unat v))"

lemma base128_progress: "(Some v, rest) = parse_base128_integer cbs \<Longrightarrow> length rest < length cbs"
  using parse_base128_iff [of cbs v rest] by (auto simp: base128_def)

text \<open>The loop over the components of the contents, entered behind the first.\<close>

function text_components :: "cbb_env \<Rightarrow> CBS \<Rightarrow> CBB \<Rightarrow> (CBB, unit) outcome" where
  "text_components env cbs cbb =
    (if CBS_len cbs = 0 then (Some (), cbb)
     else case parse_base128_integer cbs of
       (None, _) \<Rightarrow> (None, cbb)
     | (Some v, rest) \<Rightarrow>
         bindo (CBB_add_u8 env 0 46) (\<lambda>_. bindo (add_decimal env 0 v) (\<lambda>_. text_components env rest)) cbb)"
  by pat_completeness auto
termination
  by (relation "measure (\<lambda>(env, cbs, cbb). length cbs)") (auto dest: base128_progress)

declare text_components.simps [simp del]

definition CBS_asn1_oid_to_text :: "cbb_env \<Rightarrow> bool \<Rightarrow> CBS \<Rightarrow> bytes option" where
  "CBS_asn1_oid_to_text env base_ok cbs =
    (case CBB_init env base_ok 32 of
       None \<Rightarrow> None
     | Some cbb \<Rightarrow>
         (case parse_base128_integer cbs of
            (None, _) \<Rightarrow> None
          | (Some v, copy) \<Rightarrow>
              (case bindo
                  (if 80 \<le> v then bindo (CBB_add_bytes env 0 [50, 46]) (\<lambda>_. add_decimal env 0 (v - 80))
                   else bindo (add_decimal env 0 (v div 40)) (\<lambda>_. bindo (CBB_add_u8 env 0 46) (\<lambda>_. add_decimal env 0 (v mod 40))))
                  (\<lambda>_. bindo (text_components env copy) (\<lambda>_. bindo (CBB_add_u8 env 0 0) (\<lambda>_. CBB_finish env 0 True))) cbb of
                 (None, _) \<Rightarrow> None
               | (Some (txt, txt_len), _) \<Rightarrow> Some (takeWhile (\<lambda>b. b \<noteq> 0) txt))))"

section \<open>Decimal numbers\<close>

lemma digit_word:
  assumes "d < 10"
  shows "ucast (of_nat (48 + d) - 48 :: u8) = (of_nat d :: u64)" "48 \<le> (of_nat (48 + d) :: u8)" "(of_nat (48 + d) :: u8) \<le> 57"
    "(of_nat (48 + d) :: u8) \<noteq> 46" "(of_nat (48 + d) :: u8) \<noteq> 0"
proof -
  have "d \<in> {0, 1, 2, 3, 4, 5, 6, 7, 8, 9}" using assms by auto
  then show "ucast (of_nat (48 + d) - 48 :: u8) = (of_nat d :: u64)" "48 \<le> (of_nat (48 + d) :: u8)" "(of_nat (48 + d) :: u8) \<le> 57"
    "(of_nat (48 + d) :: u8) \<noteq> 46" "(of_nat (48 + d) :: u8) \<noteq> 0" by auto
qed

lemma digit_cases:
  assumes "\<not> u < 48" "\<not> 57 < (u :: u8)"
  obtains d where "d < 10" "u = of_nat (48 + d)"
proof
  have "48 \<le> unat u" "unat u \<le> 57" using assms by (simp_all add: word_less_nat_alt)
  then show "unat u - 48 < 10" "u = of_nat (48 + (unat u - 48))" by simp_all
qed

text \<open>The overflow checks.\<close>

lemma digit_step:
  assumes "d < 10"
  shows "\<not> UINT64_MAX div 10 < out \<and> \<not> UINT64_MAX - of_nat d < out * 10 \<longleftrightarrow> 10 * unat out + d < 2 ^ 64"
    "10 * unat out + d < 2 ^ 64 \<Longrightarrow> unat (out * 10 + of_nat d) = 10 * unat out + d"
proof -
  have dm: "unat (of_nat d :: u64) = d" using assms by (simp add: unat_of_nat)
  have m: "unat (UINT64_MAX - of_nat d) = 2 ^ 64 - 1 - d"
    using dm assms by (subst unat_minus_le) (simp_all add: UINT64_MAX_def word_le_nat_alt)
  have q: "unat (UINT64_MAX div 10) = 1844674407370955161" by (simp add: UINT64_MAX_def)
  have mul: "unat (out * 10) = 10 * unat out" if "unat out \<le> 1844674407370955161"
    using that by (simp add: unat_word_ariths)
  show "\<not> UINT64_MAX div 10 < out \<and> \<not> UINT64_MAX - of_nat d < out * 10 \<longleftrightarrow> 10 * unat out + d < 2 ^ 64"
    unfolding word_less_nat_alt q m using mul assms by (cases "unat out \<le> 1844674407370955161") auto
  show "unat (out * 10 + of_nat d) = 10 * unat out + d" if "10 * unat out + d < 2 ^ 64"
  proof -
    have "unat out \<le> 1844674407370955161" using that by simp
    then show ?thesis using mul dm that by (simp add: unat_word_ariths)
  qed
qed

lemma loop_digit:
  assumes "d < 10" "seen_digit \<longrightarrow> out \<noteq> 0"
  shows "dotted_loop out seen_digit (of_nat (48 + d) # cbs) =
    (if 10 * unat out + d < 2 ^ 64 then dotted_loop (out * 10 + of_nat d) True cbs else (None, cbs))"
  using digit_word [OF assms(1)] digit_step(1) [OF assms(1), of out] assms(2)
  by (auto simp: not_less simp del: of_nat_add)

lemma decimal_digit: "d < 10 \<Longrightarrow> 0 < n \<Longrightarrow> decimal (10 * n + d) = decimal n @ [of_nat (48 + d)]"
  by (subst decimal.simps) simp

lemma loop_decimal: "n < 2 ^ 64 \<Longrightarrow> dotted_loop 0 False (decimal n @ cbs) = dotted_loop (of_nat n) True cbs"
proof (induction n arbitrary: cbs rule: decimal.induct)
  case (1 n)
  show ?case
  proof (cases "n < 10")
    case True
    then show ?thesis using loop_digit [of n False 0 cbs] by (simp add: decimal.simps [of n] del: of_nat_add dotted_loop.simps)
  next
    case False
    let ?q = "n div 10"
    have q: "?q < 2 ^ 64" "0 < ?q" "n mod 10 < 10" using 1(2) False by auto
    have u: "unat (of_nat ?q :: u64) = ?q" using q(1) by (simp add: unat_of_nat)
    then have "(of_nat ?q :: u64) \<noteq> 0" using q(2) by (metis unat_0 less_irrefl)
    moreover have "decimal n @ cbs = decimal ?q @ (of_nat (48 + n mod 10) # cbs)"
      using False by (simp add: decimal.simps [of n])
    moreover have "(of_nat ?q * 10 + of_nat (n mod 10) :: u64) = of_nat n"
      by (metis div_mult_mod_eq of_nat_add of_nat_mult of_nat_numeral)
    ultimately show ?thesis
      using 1(1) [OF False q(1)] loop_digit [of "n mod 10" True "of_nat ?q" cbs] q(3) u 1(2)
      by (simp del: of_nat_add dotted_loop.simps)
  qed
qed

text \<open>What the loop accepts: the decimal of a number, and then nothing or a dot and more.\<close>

definition ends_component :: "CBS \<Rightarrow> CBS \<Rightarrow> bool" where
  "ends_component tail rest \<longleftrightarrow> tail = [] \<and> rest = [] \<or> rest \<noteq> [] \<and> tail = 46 # rest"

lemma loop_accepts:
  assumes "dotted_loop out seen_digit cbs = (Some v, rest)" "length cbs < 2 ^ 64"
    and "if seen_digit then pre = decimal (unat out) else pre = [] \<and> out = 0"
  shows "\<exists>tail. pre @ cbs = decimal (unat v) @ tail \<and> ends_component tail rest"
  using assms
proof (induction out seen_digit cbs arbitrary: pre rule: dotted_loop.induct)
  case (1 out seen_digit)
  then show ?case by (auto simp: ends_component_def split: if_splits)
next
  case (2 out seen_digit u cbs)
  show ?case
  proof (cases "u = 46 \<and> 0 < CBS_len cbs")
    case True
    then have "cbs \<noteq> []" by (auto simp: CBS_len_def)
    then show ?thesis
      using 2(2,4) True by (auto simp: ends_component_def split: if_splits)
  next
    case False
    then have ok: "\<not> u < 48" "\<not> 57 < u" "\<not> (seen_digit \<and> out = 0)" "\<not> UINT64_MAX div 10 < out"
        "\<not> UINT64_MAX - ucast (u - 48) < out * 10" "dotted_loop (out * 10 + ucast (u - 48)) True cbs = (Some v, rest)"
      using 2(2) by (auto split: if_splits)
    obtain d where d: "d < 10" "u = of_nat (48 + d)" using digit_cases [OF ok(1,2)] by blast
    have o: "10 * unat out + d < 2 ^ 64" using digit_step(1) [OF d(1), of out] ok(4,5) digit_word(1) [OF d(1)] d(2) by auto
    have out': "unat (out * 10 + ucast (u - 48)) = 10 * unat out + d"
      using digit_step(2) [OF d(1) o] digit_word(1) [OF d(1)] d(2) by simp
    have "pre @ [u] = decimal (10 * unat out + d)"
    proof (cases seen_digit)
      case True
      then have "0 < unat out" using ok(3) by (simp add: unat_gt_0)
      then show ?thesis using 2(4) True decimal_digit [OF d(1)] d(2) by simp
    next
      case False
      then show ?thesis using 2(4) d by (simp add: decimal.simps [of d])
    qed
    then have "\<exists>tail. (pre @ [u]) @ cbs = decimal (unat v) @ tail \<and> ends_component tail rest"
      using 2(1) [OF False _ ok(6), of "pre @ [u]"] ok(1-5) 2(3) out' by (simp del: append_assoc)
    then show ?thesis by simp
  qed
qed

lemma parse_decimal:
  assumes "ends_component tail rest" "length rest < 2 ^ 64"
  shows "parse_dotted_decimal (decimal (unat v) @ tail) = (Some v, rest)"
proof -
  have "dotted_loop v True tail = (Some v, rest)"
    using assms len_pos [of rest] by (auto simp: ends_component_def word_gt_0)
  then show ?thesis
    using loop_decimal [of "unat v" tail] by (simp add: parse_dotted_decimal_def)
qed

lemma parse_decimal_iff:
  assumes "length cbs < 2 ^ 64"
  shows "parse_dotted_decimal cbs = (Some v, rest) \<longleftrightarrow> (\<exists>tail. cbs = decimal (unat v) @ tail \<and> ends_component tail rest)"
proof
  assume "parse_dotted_decimal cbs = (Some v, rest)"
  then show "\<exists>tail. cbs = decimal (unat v) @ tail \<and> ends_component tail rest"
    using loop_accepts [of 0 False cbs v rest "[]"] assms by (simp add: parse_dotted_decimal_def)
next
  assume "\<exists>tail. cbs = decimal (unat v) @ tail \<and> ends_component tail rest"
  then obtain tail where t: "cbs = decimal (unat v) @ tail" "ends_component tail rest" by blast
  then have "length rest < 2 ^ 64" using assms by (auto simp: ends_component_def)
  then show "parse_dotted_decimal cbs = (Some v, rest)" using parse_decimal t by simp
qed

section \<open>Identifiers\<close>

text \<open>The components of an identifier, its text and its contents octets.\<close>

definition oid_ok :: "u64 \<Rightarrow> u64 \<Rightarrow> bool" where
  "oid_ok a b \<longleftrightarrow> a \<le> 2 \<and> (a < 2 \<longrightarrow> b \<le> 39) \<and> b \<le> UINT64_MAX - 80"

fun dotted :: "u64 list \<Rightarrow> bytes" where
  "dotted [] = []"
| "dotted (c # cs) = decimal (unat c) @ (if cs = [] then [] else 46 # dotted cs)"

definition oid_octets :: "u64 list \<Rightarrow> bytes" where
  "oid_octets cs = concat (map base128 cs)"

lemma oid_octets_simps [simp]: "oid_octets [] = []" "oid_octets (c # cs) = base128 c @ oid_octets cs"
  by (simp_all add: oid_octets_def)

lemma dotted_Cons: "dotted (c # cs) = decimal (unat c) @ concat (map (\<lambda>c. 46 # decimal (unat c)) cs)"
proof (induction cs arbitrary: c)
  case (Cons d cs)
  then show ?case using Cons [of d] by simp
qed simp

lemma decimal_not_Nil [simp]: "decimal n \<noteq> []"
  by (subst decimal.simps) simp

lemma dotted_Nil_iff [simp]: "dotted cs = [] \<longleftrightarrow> cs = []"
  by (cases cs) simp_all

lemma dotted_ends: "ends_component (if cs = [] then [] else 46 # dotted cs) (dotted cs)"
  by (simp add: ends_component_def)

lemma decimal_nonzero: "0 \<notin> set (decimal n)"
proof (induction n rule: decimal.induct)
  case (1 n)
  then show ?case using digit_word(5) [of n] digit_word(5) [of "n mod 10"]
    by (subst decimal.simps) (auto simp del: of_nat_add)
qed

lemma dotted_nonzero: "0 \<notin> set (dotted cs)"
  by (induction cs) (simp_all add: decimal_nonzero)

lemma length_decimal: "n < 10 ^ k \<Longrightarrow> 0 < k \<Longrightarrow> length (decimal n) \<le> k"
proof (induction n arbitrary: k rule: decimal.induct)
  case (1 n)
  show ?case
  proof (cases "n < 10")
    case True
    then show ?thesis using 1(3) by (simp add: decimal.simps [of n])
  next
    case False
    then obtain j where k: "k = Suc (Suc j)"
      using 1(2) by (metis One_nat_def nat_neq_iff not_less_zero old.nat.exhaust power_0 power_Suc0_right less_one 1(3))
    then have "n div 10 < 10 ^ Suc j" using 1(2) by (simp add: less_mult_imp_div_less)
    then show ?thesis using 1(1) [OF False, of "Suc j"] False k by (simp add: decimal.simps [of n])
  qed
qed

lemma length_decimal_unat: "length (decimal (unat (v :: u64))) \<le> 20"
proof (rule length_decimal)
  have "unat v < 2 ^ 64" using unsigned_less [of v, where ?'a = nat] by simp
  also have "\<dots> < 10 ^ 20" by simp
  finally show "unat v < 10 ^ 20" .
qed simp

lemma length_oid_octets: "length cs \<le> length (oid_octets cs)"
proof (induction cs)
  case (Cons c cs)
  then show ?case using length_base128(1) [of c] by simp
qed simp

lemma length_oid_octets_le: "length (oid_octets cs) \<le> 11 * length cs"
proof (induction cs)
  case (Cons c cs)
  then show ?case using length_base128(2) [of c] by simp
qed simp

lemma length_dotted: "length (dotted cs) \<le> 21 * length cs" "length cs \<le> length (dotted cs)"
proof -
  show "length (dotted cs) \<le> 21 * length cs"
  proof (induction cs)
    case (Cons c cs)
    then show ?case using length_decimal_unat [of c] by simp
  qed simp
  show "length cs \<le> length (dotted cs)"
  proof (induction cs)
    case (Cons c cs)
    have "1 \<le> length (decimal (unat c))" by (simp add: Suc_le_eq)
    then show ?case using Cons by simp
  qed simp
qed

section \<open>The loops\<close>

lemma add_components_done:
  assumes "cbb_holds env (length (oid_octets cs) + n) cbb root fs x" "length (dotted cs) < 2 ^ 64"
  shows "\<exists>cbb'. add_components env (length fs) (dotted cs) cbb = (Some (), cbb') \<and>
                cbb_holds env n cbb' root fs (x @ oid_octets cs)"
  using assms
proof (induction cs arbitrary: cbb x)
  case Nil
  then show ?case by (simp add: add_components.simps CBS_len_def)
next
  case (Cons c cs)
  have l: "CBS_len (dotted (c # cs)) \<noteq> 0" using len_pos [OF Cons(3)] by (simp only: dotted_Nil_iff) simp
  have short: "length (dotted cs) < 2 ^ 64" using Cons(3) by (cases cs) (auto split: if_splits)
  have p: "parse_dotted_decimal (dotted (c # cs)) = (Some c, dotted cs)"
    using parse_decimal [OF dotted_ends short] by simp
  obtain c1 where c1: "add_base128_integer env (length fs) c cbb = (Some (), c1)"
    "cbb_holds env (length (oid_octets cs) + n) c1 root fs (x @ base128 c)"
    using add_base128 [of env c "length (oid_octets cs) + n" cbb root fs x] Cons(2) by (auto simp: add.assoc)
  show ?case
    using Cons.IH [OF c1(2) short] l c1(1) by (simp add: add_components.simps [of _ _ "dotted (c # cs)"] p del: dotted.simps)
qed

lemma add_components_accepts:
  "add_components env h cbs cbb = (Some (), cbb') \<Longrightarrow> length cbs < 2 ^ 64 \<Longrightarrow> \<exists>cs. cbs = dotted cs"
proof (induction env h cbs cbb rule: add_components.induct)
  case (1 env h cbs cbb)
  show ?case
  proof (cases "CBS_len cbs = 0")
    case True
    then show ?thesis using len_pos [OF 1(3)] by (intro exI [of _ "[]"]) simp
  next
    case False
    then obtain a rest c1 where r: "parse_dotted_decimal cbs = (Some a, rest)"
      "add_base128_integer env h a cbb = (Some (), c1)" "add_components env h rest c1 = (Some (), cbb')"
      using 1(2) by (auto simp: add_components.simps [of env h cbs cbb] bindo_eq_Some_iff split: prod.splits option.splits)
    obtain tail where t: "cbs = decimal (unat a) @ tail" "ends_component tail rest"
      using parse_decimal_iff [OF 1(3)] r(1) by blast
    then have "length rest < 2 ^ 64" using 1(3) by (auto simp: ends_component_def)
    then obtain cs where "rest = dotted cs"
      using 1(1) [OF False r(1) [symmetric] refl _ r(3)] r(2) by auto
    then show ?thesis using t by (intro exI [of _ "a # cs"]) (auto simp: ends_component_def)
  qed
qed

lemma text_components_done:
  assumes "cbb_holds env (length (concat (map (\<lambda>c. 46 # decimal (unat c)) cs)) + n) cbb root [] x"
    and "length (oid_octets cs) < 2 ^ 64"
  shows "\<exists>cbb'. text_components env (oid_octets cs) cbb = (Some (), cbb') \<and>
                cbb_holds env n cbb' root [] (x @ concat (map (\<lambda>c. 46 # decimal (unat c)) cs))"
  using assms
proof (induction cs arbitrary: cbb x)
  case Nil
  then show ?case by (simp add: text_components.simps CBS_len_def)
next
  case (Cons c cs)
  let ?r = "length (concat (map (\<lambda>c. 46 # decimal (unat c)) cs))"
  have "oid_octets (c # cs) \<noteq> []" using length_base128(1) [of c] by auto
  then have l: "CBS_len (oid_octets (c # cs)) \<noteq> 0" using len_pos [OF Cons(3)] by simp
  have short: "length (oid_octets cs) < 2 ^ 64" using Cons(3) by simp
  have p: "parse_base128_integer (oid_octets (c # cs)) = (Some c, oid_octets cs)"
    by (simp add: parse_base128_iff)
  obtain c1 where c1: "CBB_add_u8 env 0 46 cbb = (Some (), c1)"
    "cbb_holds env (length (decimal (unat c)) + (?r + n)) c1 root [] (x @ [46])"
    using add_u8 [of env "length (decimal (unat c)) + (?r + n)" cbb root "[]" x 46] Cons(2) by (auto simp: add.assoc)
  obtain c2 where c2: "add_decimal env 0 c c1 = (Some (), c2)"
    "cbb_holds env (?r + n) c2 root [] ((x @ [46]) @ decimal (unat c))"
    using add_bytes [OF c1(2)] length_decimal_unat [of c] by (auto simp: add_decimal_def)
  show ?case
    using Cons.IH [OF c2(2) short] l c1(1) c2(1)
    by (simp add: text_components.simps [of _ "oid_octets (c # cs)"] p del: oid_octets_simps)
qed

lemma text_components_accepts:
  "text_components env cbs cbb = (Some (), cbb') \<Longrightarrow> length cbs < 2 ^ 64 \<Longrightarrow> \<exists>cs. cbs = oid_octets cs"
proof (induction env cbs cbb rule: text_components.induct)
  case (1 env cbs cbb)
  show ?case
  proof (cases "CBS_len cbs = 0")
    case True
    then show ?thesis using len_pos [OF 1(3)] by (intro exI [of _ "[]"]) simp
  next
    case False
    then obtain v rest c1 c2 where r: "parse_base128_integer cbs = (Some v, rest)"
      "CBB_add_u8 env 0 46 cbb = (Some (), c1)" "add_decimal env 0 v c1 = (Some (), c2)"
      "text_components env rest c2 = (Some (), cbb')"
      using 1(2) by (auto simp: text_components.simps [of env cbs cbb] bindo_eq_Some_iff split: prod.splits option.splits)
    have c: "cbs = base128 v @ rest" using r(1) by (simp add: parse_base128_iff)
    then have "length rest < 2 ^ 64" using 1(3) by simp
    then obtain cs where "rest = oid_octets cs"
      using 1(1) [OF False r(1) [symmetric] refl _ _ r(4)] r(2,3) by auto
    then show ?thesis using c by (intro exI [of _ "v # cs"]) simp
  qed
qed

section \<open>The first two components\<close>

lemma first_join:
  assumes "oid_ok a b"
  shows "if 80 \<le> 40 * a + b then a = 2 \<and> 40 * a + b - 80 = b
         else (40 * a + b) div 40 = a \<and> (40 * a + b) mod 40 = b"
proof -
  have "unat a \<le> 2" using assms by (simp add: oid_ok_def word_le_nat_alt)
  then have "unat a = 0 \<or> unat a = 1 \<or> unat a = 2" by arith
  then have "a = 0 \<or> a = 1 \<or> a = 2" by (auto simp flip: word_unat_eq_iff simp: word_unat_eq_iff)
  then consider "a = 0" "unat b \<le> 39" | "a = 1" "unat b \<le> 39" | "a = 2" "unat b \<le> 18446744073709551535"
    using assms by (auto simp: oid_ok_def word_le_nat_alt UINT64_MAX_def)
  then show ?thesis
  proof cases
    case 1
    show ?thesis unfolding 1(1) using 1(2) by (simp add: word_le_nat_alt word_unat_eq_iff unat_div unat_mod)
  next
    case 2
    then have "unat (40 + b) = 40 + unat b" by (simp add: unat_word_ariths)
    then show ?thesis unfolding 2(1) using 2(2) by (simp add: word_le_nat_alt word_unat_eq_iff unat_div unat_mod)
  next
    case 3
    then have "unat (80 + b) = 80 + unat b" by (simp add: unat_word_ariths)
    then show ?thesis unfolding 3(1) using 3(2) by (simp add: word_le_nat_alt)
  qed
qed

lemma first_split:
  "if 80 \<le> v then oid_ok 2 (v - 80) \<and> 40 * 2 + (v - 80) = v
   else oid_ok (v div 40) (v mod 40) \<and> 40 * (v div 40) + v mod 40 = v"
proof (cases "80 \<le> v")
  case True
  have "unat (v - 80) = unat v - 80" using True by (simp add: unat_sub)
  moreover have "unat v < 18446744073709551616" using unsigned_less [of v, where ?'a = nat] by simp
  then have "unat v - 80 \<le> 18446744073709551535" by arith
  ultimately show ?thesis using True by (simp add: oid_ok_def word_le_nat_alt UINT64_MAX_def)
next
  case False
  have "40 * (v div 40) + v mod 40 = v" by (metis mult.commute div_mult_mod_eq)
  moreover have "unat (v div 40) \<le> 1" "unat (v mod 40) \<le> 39"
    using False by (auto simp: word_le_nat_alt unat_div unat_mod)
  ultimately show ?thesis using False by (simp add: oid_ok_def word_le_nat_alt UINT64_MAX_def)
qed

section \<open>Both directions\<close>

definition is_oid :: "bytes \<Rightarrow> bytes \<Rightarrow> bool" where
  "is_oid txt oct \<longleftrightarrow>
     (\<exists>a b cs. oid_ok a b \<and> txt = dotted (a # b # cs) \<and> oct = oid_octets ((40 * a + b) # cs))"

lemma from_text_done:
  assumes "oid_ok a b" "length (dotted (a # b # cs)) < 2 ^ 64"
    and "cbb_holds env (length (oid_octets ((40 * a + b) # cs)) + n) cbb root fs x"
  shows "\<exists>cbb'. CBB_add_asn1_oid_from_text env (length fs) (dotted (a # b # cs)) cbb = (Some (), cbb') \<and>
                cbb_holds env n cbb' root fs (x @ oid_octets ((40 * a + b) # cs))"
proof -
  have short: "length (dotted (b # cs)) < 2 ^ 64" "length (dotted cs) < 2 ^ 64"
    using assms(2) by (auto split: if_splits)
  have pa: "parse_dotted_decimal (dotted (a # b # cs)) = (Some a, dotted (b # cs))"
    using parse_decimal [OF dotted_ends short(1)] by simp
  have pb: "parse_dotted_decimal (dotted (b # cs)) = (Some b, dotted cs)"
    using parse_decimal [OF dotted_ends short(2)] by simp
  have guard: "\<not> (2 < a \<or> (a < 2 \<and> 39 < b) \<or> UINT64_MAX - 80 < b)"
    using assms(1) by (auto simp: oid_ok_def not_less)
  obtain c1 where c1: "add_base128_integer env (length fs) (40 * a + b) cbb = (Some (), c1)"
    "cbb_holds env (length (oid_octets cs) + n) c1 root fs (x @ base128 (40 * a + b))"
    using add_base128 [of env "40 * a + b" "length (oid_octets cs) + n" cbb root fs x] assms(3)
    by (auto simp: add.assoc)
  obtain c2 where c2: "add_components env (length fs) (dotted cs) c1 = (Some (), c2)"
    "cbb_holds env n c2 root fs ((x @ base128 (40 * a + b)) @ oid_octets cs)"
    using add_components_done [OF c1(2) short(2)] by blast
  have p: "bindo parse_dotted_decimal (\<lambda>a. bindo parse_dotted_decimal (\<lambda>b. reto (a, b))) (dotted (a # b # cs)) =
      (Some (a, b), dotted cs)"
    unfolding bindo_eq_Some_iff using pa pb by (intro exI [of _ a] exI [of _ "dotted (b # cs)"]) (auto simp: bindo_eq_Some_iff)
  have "CBB_add_asn1_oid_from_text env (length fs) (dotted (a # b # cs)) cbb =
      bindo (add_base128_integer env (length fs) (40 * a + b)) (\<lambda>_. add_components env (length fs) (dotted cs)) cbb"
    unfolding CBB_add_asn1_oid_from_text_def
    by (subst bindo_Some [of "CBB_flush env (length fs)" cbb "()" cbb, OF CBB_flush_done [OF assms(3)]])
      (simp only: p guard prod.case option.case if_False)
  then have "CBB_add_asn1_oid_from_text env (length fs) (dotted (a # b # cs)) cbb = (Some (), c2)"
    using c1(1) c2(1) by simp
  then show ?thesis using c2(2) by simp
qed

lemma from_text_accepts:
  assumes "CBB_add_asn1_oid_from_text env h txt cbb = (Some (), cbb')" "length txt < 2 ^ 64"
  shows "\<exists>a b cs. oid_ok a b \<and> txt = dotted (a # b # cs)"
proof -
  let ?two = "bindo parse_dotted_decimal (\<lambda>a. bindo parse_dotted_decimal (\<lambda>b. reto (a, b)))"
  obtain a b r2 c1 where q: "?two txt = (Some (a, b), r2)"
    "\<not> (2 < a \<or> (a < 2 \<and> 39 < b) \<or> UINT64_MAX - 80 < b)" "add_components env h r2 c1 = (Some (), cbb')"
  proof (cases "?two txt")
    case (Pair r rest)
    then show thesis
      using that assms(1)
      by (cases r) (auto simp: CBB_add_asn1_oid_from_text_def bindo_eq_Some_iff [of "CBB_flush env h"]
          bindo_eq_Some_iff [of "add_base128_integer _ _ _"] split: if_splits)
  qed
  obtain r1 where p: "parse_dotted_decimal txt = (Some a, r1)" "parse_dotted_decimal r1 = (Some b, r2)"
    using q(1) by (auto simp: bindo_eq_Some_iff)
  obtain ta where ta: "txt = decimal (unat a) @ ta" "ends_component ta r1"
    using parse_decimal_iff [OF assms(2)] p(1) by blast
  then have s1: "length r1 < 2 ^ 64" using assms(2) by (auto simp: ends_component_def)
  obtain tb where tb: "r1 = decimal (unat b) @ tb" "ends_component tb r2"
    using parse_decimal_iff [OF s1] p(2) by blast
  then have s2: "length r2 < 2 ^ 64" using s1 by (auto simp: ends_component_def)
  obtain cs where cs: "r2 = dotted cs" using add_components_accepts [OF q(3) s2] by blast
  have r1: "r1 = dotted (b # cs)" using tb cs by (auto simp: ends_component_def)
  then have "txt = dotted (a # b # cs)" using ta by (auto simp: ends_component_def)
  moreover have "oid_ok a b" using q(2) by (auto simp: oid_ok_def not_less)
  ultimately show ?thesis by blast
qed

text \<open>The text that the first component gives.\<close>

definition first_text :: "cbb_env \<Rightarrow> u64 \<Rightarrow> CBB \<Rightarrow> (CBB, unit) outcome" where
  "first_text env v =
     (if 80 \<le> v then bindo (CBB_add_bytes env 0 [50, 46]) (\<lambda>_. add_decimal env 0 (v - 80))
      else bindo (add_decimal env 0 (v div 40)) (\<lambda>_. bindo (CBB_add_u8 env 0 46) (\<lambda>_. add_decimal env 0 (v mod 40))))"

lemma first_text_done:
  assumes "oid_ok a b" "cbb_holds env (length (dotted [a, b]) + n) cbb root [] x"
  shows "\<exists>cbb'. first_text env (40 * a + b) cbb = (Some (), cbb') \<and> cbb_holds env n cbb' root [] (x @ dotted [a, b])"
proof (cases "80 \<le> 40 * a + b")
  case True
  then have fj: "a = 2 \<and> 40 * a + b - 80 = b" by (metis (full_types) first_join [OF assms(1)])
  have ab: "a = 2" "40 * a + b - 80 = b" using conjunct1 [OF fj] conjunct2 [OF fj] .
  have d2: "decimal (unat (2 :: u64)) = [50]" by (simp add: decimal.simps)
  obtain c1 where c1: "CBB_add_bytes env 0 [50, 46] cbb = (Some (), c1)"
    "cbb_holds env (length (decimal (unat b)) + n) c1 root [] (x @ [50, 46])"
    using add_bytes [of env "[50, 46]" "length (decimal (unat b)) + n" cbb root "[]" x] assms(2) d2
    by (auto simp: ab(1))
  obtain c2 where c2: "add_decimal env 0 b c1 = (Some (), c2)"
    "cbb_holds env n c2 root [] ((x @ [50, 46]) @ decimal (unat b))"
    using add_bytes [OF c1(2)] length_decimal_unat [of b] by (auto simp: add_decimal_def)
  show ?thesis
    using True c1(1) c2 d2 by (simp only: first_text_def ab(2) if_True) (simp add: ab(1))
next
  case False
  then have fj: "(40 * a + b) div 40 = a \<and> (40 * a + b) mod 40 = b"
    by (metis (full_types) first_join [OF assms(1)])
  have ab: "(40 * a + b) div 40 = a" "(40 * a + b) mod 40 = b" using conjunct1 [OF fj] conjunct2 [OF fj] .
  obtain c1 where c1: "add_decimal env 0 a cbb = (Some (), c1)"
    "cbb_holds env (Suc (length (decimal (unat b)) + n)) c1 root [] (x @ decimal (unat a))"
    using add_bytes [of env "decimal (unat a)" "Suc (length (decimal (unat b)) + n)" cbb root "[]" x] assms(2)
      length_decimal_unat [of a] by (auto simp: add_decimal_def ac_simps)
  obtain c2 where c2: "CBB_add_u8 env 0 46 c1 = (Some (), c2)"
    "cbb_holds env (length (decimal (unat b)) + n) c2 root [] ((x @ decimal (unat a)) @ [46])"
    using add_u8 [OF c1(2)] by auto
  obtain c3 where c3: "add_decimal env 0 b c2 = (Some (), c3)"
    "cbb_holds env n c3 root [] (((x @ decimal (unat a)) @ [46]) @ decimal (unat b))"
    using add_bytes [OF c2(2)] length_decimal_unat [of b] by (auto simp: add_decimal_def)
  show ?thesis
    using False c1(1) c2(1) c3 by (simp only: first_text_def ab if_False) simp
qed

lemma oid_to_text_alt:
  "CBS_asn1_oid_to_text env base_ok cbs =
    (case CBB_init env base_ok 32 of
       None \<Rightarrow> None
     | Some cbb \<Rightarrow>
         (case parse_base128_integer cbs of
            (None, _) \<Rightarrow> None
          | (Some v, copy) \<Rightarrow>
              (case bindo (first_text env v)
                  (\<lambda>_. bindo (text_components env copy) (\<lambda>_. bindo (CBB_add_u8 env 0 0) (\<lambda>_. CBB_finish env 0 True))) cbb of
                 (None, _) \<Rightarrow> None
               | (Some (txt, txt_len), _) \<Rightarrow> Some (takeWhile (\<lambda>b. b \<noteq> 0) txt))))"
  unfolding CBS_asn1_oid_to_text_def first_text_def ..

lemma until_zero: "take n out = xs @ [0] \<Longrightarrow> 0 \<notin> set xs \<Longrightarrow> takeWhile (\<lambda>b. b \<noteq> (0 :: u8)) out = xs"
proof -
  assume a: "take n out = xs @ [0]" "0 \<notin> set xs"
  have "out = xs @ 0 # drop n out" using append_take_drop_id [of n out] a(1) by simp
  moreover have "takeWhile (\<lambda>b. b \<noteq> 0) (xs @ 0 # drop n out) = xs"
    using a(2) by (subst takeWhile_append2) auto
  ultimately show ?thesis by simp
qed

lemma to_text_done:
  assumes "oid_ok a b" "\<forall>k. grants env k" "length (oid_octets ((40 * a + b) # cs)) < 2 ^ 58"
  shows "CBS_asn1_oid_to_text env True (oid_octets ((40 * a + b) # cs)) = Some (dotted (a # b # cs))"
proof -
  let ?r = "concat (map (\<lambda>c. 46 # decimal (unat c)) cs)"
  obtain cbb where i: "CBB_init env True 32 = Some cbb" using assms(2) by (simp add: CBB_init_def)
  have dots: "dotted (a # b # cs) = dotted [a, b] @ ?r"
    using dotted_Cons [of a "b # cs"] dotted_Cons [of a "[b]"] by simp
  have "length cs < 2 ^ 58" using assms(3) length_oid_octets [of "(40 * a + b) # cs"] by simp
  then have n: "length (dotted [a, b]) + (length ?r + Suc 0) < 2 ^ 64"
    using length_dotted(1) [of "a # b # cs"] unfolding dots by simp
  obtain c1 where c1: "first_text env (40 * a + b) cbb = (Some (), c1)"
    "cbb_holds env (length ?r + Suc 0) c1 [] [] ([] @ dotted [a, b])"
    using first_text_done [OF assms(1) init_holds [OF i assms(2) n]] by blast
  obtain c2 where c2: "text_components env (oid_octets cs) c1 = (Some (), c2)"
    "cbb_holds env (Suc 0) c2 [] [] (dotted (a # b # cs))"
    using text_components_done [OF c1(2)] assms(3) unfolding dots by auto
  obtain c3 where c3: "CBB_add_u8 env 0 0 c2 = (Some (), c3)" "cbb_holds env 0 c3 [] [] (dotted (a # b # cs) @ [0])"
    using add_u8 [of env 0 c2 "[]" "[]" "dotted (a # b # cs)" 0] c2(2) by auto
  obtain out len c4 where c4: "CBB_finish env 0 True c3 = (Some (out, len), c4)"
    "take (unat len) out = [] @ dotted (a # b # cs) @ [0]"
    using finish_holds [OF c3(2)] by blast
  have "takeWhile (\<lambda>b. b \<noteq> 0) out = dotted (a # b # cs)"
    by (rule until_zero [OF _ dotted_nonzero]) (use c4(2) in simp)
  moreover have "parse_base128_integer (oid_octets ((40 * a + b) # cs)) = (Some (40 * a + b), oid_octets cs)"
    by (simp add: parse_base128_iff)
  ultimately show ?thesis using i c1(1) c2(1) c3(1) c4(1) by (simp add: oid_to_text_alt del: dotted.simps oid_octets_simps)
qed

lemma to_text_accepts:
  assumes "CBS_asn1_oid_to_text env base_ok cbs = Some txt" "length cbs < 2 ^ 64"
  shows "\<exists>a b cs. oid_ok a b \<and> cbs = oid_octets ((40 * a + b) # cs)"
proof -
  obtain v copy c1 c2 where v: "parse_base128_integer cbs = (Some v, copy)" "text_components env copy c1 = (Some (), c2)"
    using assms(1) by (auto simp: oid_to_text_alt bindo_def split: prod.splits option.splits)
  have c: "cbs = base128 v @ copy" using v(1) by (simp add: parse_base128_iff)
  then have "length copy < 2 ^ 64" using assms(2) by simp
  then obtain cs where cs: "copy = oid_octets cs" using text_components_accepts [OF v(2)] by blast
  obtain a b where "oid_ok a b" "40 * a + b = v" using first_split [of v] by (metis (full_types))
  then show ?thesis using c cs by auto
qed

lemma from_text_exact:
  assumes "\<forall>k. grants env k" "length txt < 2 ^ 58" "CBB_init env True cap = Some cbb"
  shows "(\<exists>out len cbb'. bindo (CBB_add_asn1_oid_from_text env 0 txt) (\<lambda>_. CBB_finish env 0 True) cbb =
              (Some (out, len), cbb') \<and> take (unat len) out = oct) \<longleftrightarrow> is_oid txt oct"
    (is "(\<exists>out len cbb'. ?run = (Some (out, len), cbb') \<and> _ out len) \<longleftrightarrow> _")
proof -
  have short: "length txt < 2 ^ 64" using assms(2) by simp
  have step: "\<exists>out len cbb'. ?run = (Some (out, len), cbb') \<and> take (unat len) out = oid_octets ((40 * a + b) # cs)"
    if ok: "oid_ok a b" "txt = dotted (a # b # cs)" for a b cs
  proof -
    have "length cs < 2 ^ 58" using length_dotted(2) [of "a # b # cs"] assms(2) ok(2) by simp
    then have "length (oid_octets ((40 * a + b) # cs)) + 0 < 2 ^ 64"
      using length_oid_octets_le [of "(40 * a + b) # cs"] by simp
    note h = init_holds [OF assms(3,1) this]
    obtain c1 where c1: "CBB_add_asn1_oid_from_text env 0 txt cbb = (Some (), c1)"
      "cbb_holds env 0 c1 [] [] ([] @ oid_octets ((40 * a + b) # cs))"
      using from_text_done [OF ok(1) _ h] short ok(2) by auto
    show ?thesis using finish_holds [OF c1(2)] c1(1) by simp
  qed
  show ?thesis
  proof
    assume "\<exists>out len cbb'. ?run = (Some (out, len), cbb') \<and> take (unat len) out = oct"
    then obtain out len cbb' c1 where f: "?run = (Some (out, len), cbb')" "take (unat len) out = oct"
      "CBB_add_asn1_oid_from_text env 0 txt cbb = (Some (), c1)"
      by (auto simp: bindo_eq_Some_iff)
    obtain a b cs where o: "oid_ok a b" "txt = dotted (a # b # cs)" using from_text_accepts [OF f(3) short] by blast
    then have "oct = oid_octets ((40 * a + b) # cs)" using step [OF o] f(1,2) by auto
    then show "is_oid txt oct" using o unfolding is_oid_def by blast
  next
    assume "is_oid txt oct"
    then obtain a b cs where "oid_ok a b" "txt = dotted (a # b # cs)" "oct = oid_octets ((40 * a + b) # cs)"
      unfolding is_oid_def by blast
    then show "\<exists>out len cbb'. ?run = (Some (out, len), cbb') \<and> take (unat len) out = oct"
      using step by simp
  qed
qed

lemma to_text_exact:
  assumes "\<forall>k. grants env k" "length oct < 2 ^ 58"
  shows "CBS_asn1_oid_to_text env True oct = Some txt \<longleftrightarrow> is_oid txt oct"
proof
  assume t: "CBS_asn1_oid_to_text env True oct = Some txt"
  have "length oct < 2 ^ 64" using assms(2) by simp
  then obtain a b cs where o: "oid_ok a b" "oct = oid_octets ((40 * a + b) # cs)" using to_text_accepts [OF t] by blast
  then have "txt = dotted (a # b # cs)" using to_text_done [OF o(1) assms(1), of cs] assms(2) t by simp
  then show "is_oid txt oct" using o unfolding is_oid_def by blast
next
  assume "is_oid txt oct"
  then obtain a b cs where "oid_ok a b" "txt = dotted (a # b # cs)" "oct = oid_octets ((40 * a + b) # cs)"
    unfolding is_oid_def by blast
  then show "CBS_asn1_oid_to_text env True oct = Some txt"
    using to_text_done [of a b env cs] assms by simp
qed

text \<open>C13. Object identifiers in text and in DER. With memory available, \<open>CBB_add_asn1_oid_from_text\<close>
  followed by \<open>CBB_finish\<close> turns a text into some octets exactly when \<open>CBS_asn1_oid_to_text\<close> turns
  those octets into that text: both accept precisely the identifiers whose first two components
  fit the rule of X.690 (and a 64-bit sum) and whose components fit 64 bits, without leading
  zeros, empty components or a trailing dot in the text, and without padding in the octets. Every
  other text and every other octets are refused.\<close>

theorem oid_text_exact:
  assumes "\<forall>k. grants env k" "length txt < 2 ^ 58" "length oct < 2 ^ 58" "CBB_init env True cap = Some cbb"
  shows "((\<exists>out len cbb'. bindo (CBB_add_asn1_oid_from_text env 0 txt) (\<lambda>_. CBB_finish env 0 True) cbb =
              (Some (out, len), cbb') \<and> take (unat len) out = oct) \<longleftrightarrow> is_oid txt oct) \<and>
    (CBS_asn1_oid_to_text env True oct = Some txt \<longleftrightarrow> is_oid txt oct)"
  using from_text_exact [OF assms(1,2,4), of oct] to_text_exact [OF assms(1,3), of "txt"] by blast

text \<open>The text 1.2.840 and the octets 2A 86 48.\<close>

theorem oid_text_exact_witness:
  "(\<exists>out len cbb'. bindo (CBB_add_asn1_oid_from_text roomy 0 [49, 46, 50, 46, 56, 52, 48])
        (\<lambda>_. CBB_finish roomy 0 True) (the (CBB_init roomy True 4)) = (Some (out, len), cbb') \<and>
      take (unat len) out = [0x2A, 0x86, 0x48]) \<and>
   CBS_asn1_oid_to_text roomy True [0x2A, 0x86, 0x48] = Some [49, 46, 50, 46, 56, 52, 48]"
proof -
  let ?t = "[49, 46, 50, 46, 56, 52, 48] :: bytes" and ?o = "[0x2A, 0x86, 0x48] :: bytes"
  have "oid_ok 1 2 \<and> ?t = dotted [1, 2, 840] \<and> ?o = oid_octets [40 * 1 + 2, 840]" by code_simp
  then have "is_oid ?t ?o" unfolding is_oid_def by (intro exI [of _ 1] exI [of _ 2] exI [of _ "[840]"]) simp
  then show ?thesis
    using oid_text_exact [of roomy ?t ?o 4] by (simp add: roomy_def CBB_init_def)
qed

end
