(* ===== verification/Unicode.thy ===== *)
theory Unicode
  imports CbbDer
begin

text \<open>
  The character encodings of \<open>crypto/bytestring/unicode.c\<close>: reading a code point of UTF-8, Latin-1,
  UCS-2 and UTF-32 from a \<open>CBS\<close> and writing it to a \<open>CBB\<close>. The readers accept exactly what the
  writers write, and that is the encoding of a valid code point.
\<close>

section \<open>The code\<close>

definition is_valid_code_point :: "u32 \<Rightarrow> bool" where
  "is_valid_code_point v \<longleftrightarrow>
     \<not> (0x10FFFF < v \<or> v AND 0xFFFE = 0xFFFE \<or> (0xFDD0 \<le> v \<and> v \<le> 0xFDEF) \<or> (0xD800 \<le> v \<and> v \<le> 0xDFFF))"

definition BOTTOM_BITS :: "nat \<Rightarrow> u8" where
  "BOTTOM_BITS n = push_bit n 1 - 1"

definition TOP_BITS :: "nat \<Rightarrow> u8" where
  "TOP_BITS n = NOT (BOTTOM_BITS (8 - n))"

text \<open>The loop over the \<open>len\<close> bytes behind the first.\<close>

fun utf8_tail :: "nat \<Rightarrow> u32 \<Rightarrow> CBS \<Rightarrow> (CBS, u32) outcome" where
  "utf8_tail 0 v = reto v"
| "utf8_tail (Suc len) v =
     bindo CBS_get_u8 (\<lambda>c. bindo (requireo (c AND TOP_BITS 2 = TOP_BITS 1)) (\<lambda>_.
       utf8_tail len (push_bit 6 v OR ucast (c AND BOTTOM_BITS 6))))"

text \<open>The bits of the first byte, the number of further bytes and the lower bound.\<close>

definition utf8_first :: "u8 \<Rightarrow> (u32 \<times> nat \<times> u32) option" where
  "utf8_first c =
     (if c AND TOP_BITS 3 = TOP_BITS 2 then Some (ucast (c AND BOTTOM_BITS 5), 1, 0x80)
      else if c AND TOP_BITS 4 = TOP_BITS 3 then Some (ucast (c AND BOTTOM_BITS 4), 2, 0x800)
      else if c AND TOP_BITS 5 = TOP_BITS 4 then Some (ucast (c AND BOTTOM_BITS 3), 3, 0x10000)
      else None)"

definition cbs_get_utf8 :: "CBS \<Rightarrow> (CBS, u32) outcome" where
  "cbs_get_utf8 = bindo CBS_get_u8 (\<lambda>c.
     if c \<le> 0x7F then reto (ucast c)
     else case utf8_first c of
       None \<Rightarrow> failo
     | Some (v, len, lower_bound) \<Rightarrow> bindo (utf8_tail len v) (\<lambda>v.
         bindo (requireo (\<not> (\<not> is_valid_code_point v \<or> v < lower_bound))) (\<lambda>_. reto v)))"

definition cbs_get_latin1 :: "CBS \<Rightarrow> (CBS, u32) outcome" where
  "cbs_get_latin1 = bindo CBS_get_u8 (\<lambda>c. reto (ucast c))"

definition cbs_get_ucs2_be :: "CBS \<Rightarrow> (CBS, u32) outcome" where
  "cbs_get_ucs2_be = bindo CBS_get_u16 (\<lambda>c. bindo (requireo (is_valid_code_point (ucast c))) (\<lambda>_. reto (ucast c)))"

definition cbs_get_utf32_be :: "CBS \<Rightarrow> (CBS, u32) outcome" where
  "cbs_get_utf32_be = bindo CBS_get_u32 (\<lambda>v. bindo (requireo (is_valid_code_point v)) (\<lambda>_. reto v))"

definition cbb_get_utf8_len :: "u32 \<Rightarrow> u64" where
  "cbb_get_utf8_len u = (if u \<le> 0x7F then 1 else if u \<le> 0x7FF then 2 else if u \<le> 0xFFFF then 3 else 4)"

text \<open>A byte of a sequence: a mark, and the bits below.\<close>

definition marked :: "nat \<Rightarrow> u32 \<Rightarrow> u8" where
  "marked n bits = ucast (ucast (TOP_BITS n) OR bits)"

definition cbb_add_utf8 :: "cbb_env \<Rightarrow> nat \<Rightarrow> u32 \<Rightarrow> CBB \<Rightarrow> (CBB, unit) outcome" where
  "cbb_add_utf8 env h u =
     (if \<not> is_valid_code_point u then failo
      else if u \<le> 0x7F then CBB_add_u8 env h (ucast u)
      else if u \<le> 0x7FF then
        bindo (CBB_add_u8 env h (marked 2 (drop_bit 6 u))) (\<lambda>_.
          CBB_add_u8 env h (marked 1 (u AND ucast (BOTTOM_BITS 6))))
      else if u \<le> 0xFFFF then
        bindo (CBB_add_u8 env h (marked 3 (drop_bit 12 u))) (\<lambda>_.
          bindo (CBB_add_u8 env h (marked 1 (drop_bit 6 u AND ucast (BOTTOM_BITS 6)))) (\<lambda>_.
            CBB_add_u8 env h (marked 1 (u AND ucast (BOTTOM_BITS 6)))))
      else if u \<le> 0x10FFFF then
        bindo (CBB_add_u8 env h (marked 4 (drop_bit 18 u))) (\<lambda>_.
          bindo (CBB_add_u8 env h (marked 1 (drop_bit 12 u AND ucast (BOTTOM_BITS 6)))) (\<lambda>_.
            bindo (CBB_add_u8 env h (marked 1 (drop_bit 6 u AND ucast (BOTTOM_BITS 6)))) (\<lambda>_.
              CBB_add_u8 env h (marked 1 (u AND ucast (BOTTOM_BITS 6))))))
      else failo)"

definition cbb_add_latin1 :: "cbb_env \<Rightarrow> nat \<Rightarrow> u32 \<Rightarrow> CBB \<Rightarrow> (CBB, unit) outcome" where
  "cbb_add_latin1 env h u = (if u \<le> 0xFF then CBB_add_u8 env h (ucast u) else failo)"

definition cbb_add_ucs2_be :: "cbb_env \<Rightarrow> nat \<Rightarrow> u32 \<Rightarrow> CBB \<Rightarrow> (CBB, unit) outcome" where
  "cbb_add_ucs2_be env h u = (if u \<le> 0xFFFF \<and> is_valid_code_point u then CBB_add_u16 env h (ucast u) else failo)"

definition cbb_add_utf32_be :: "cbb_env \<Rightarrow> nat \<Rightarrow> u32 \<Rightarrow> CBB \<Rightarrow> (CBB, unit) outcome" where
  "cbb_add_utf32_be env h u = (if is_valid_code_point u then CBB_add_u32 env h u else failo)"

section \<open>The encodings\<close>

definition utf8 :: "u32 \<Rightarrow> bytes" where
  "utf8 v =
     (let n = unat v in
      if n < 0x80 then [of_nat n]
      else if n < 0x800 then [of_nat (0xC0 + n div 64), of_nat (0x80 + n mod 64)]
      else if n < 0x10000 then [of_nat (0xE0 + n div 4096), of_nat (0x80 + n div 64 mod 64), of_nat (0x80 + n mod 64)]
      else [of_nat (0xF0 + n div 262144), of_nat (0x80 + n div 4096 mod 64), of_nat (0x80 + n div 64 mod 64),
            of_nat (0x80 + n mod 64)])"

lemma bits_consts:
  "BOTTOM_BITS 6 = mask 6" "BOTTOM_BITS 5 = mask 5" "BOTTOM_BITS 4 = mask 4" "BOTTOM_BITS 3 = mask 3"
  "TOP_BITS 1 = 0x80" "TOP_BITS (Suc 0) = 0x80" "TOP_BITS 2 = 0xC0" "TOP_BITS 3 = 0xE0" "TOP_BITS 4 = 0xF0" "TOP_BITS 5 = 0xF8"
  "(ucast (mask 6 :: u8) :: u32) = mask 6"
  by (simp_all add: BOTTOM_BITS_def TOP_BITS_def mask_eq_exp_minus_1)

lemma unat_low: "unat (c AND mask k :: 'a::len word) = unat c mod 2 ^ k"
  by (simp add: take_bit_eq_mask [symmetric] unsigned_take_bit_eq take_bit_nat_def)

lemma unat_high: "unat (c AND NOT (mask k) :: u8) = unat c div 2 ^ k * 2 ^ k"
proof -
  have e: "c AND NOT (mask k) = push_bit k (drop_bit k c)"
    by (rule bit_word_eqI) (auto simp: bit_simps)
  have "unat (push_bit k (drop_bit k c)) = take_bit LENGTH(8) (unat c div 2 ^ k * 2 ^ k)"
    by (subst unsigned_push_bit_eq) (simp only: unat_drop_bit_div push_bit_eq_mult)
  moreover have "unat c div 2 ^ k * 2 ^ k < 256" using unat_u8_lt [of c] by (meson div_times_less_eq_dividend le_less_trans)
  ultimately show ?thesis
    unfolding e by (simp add: take_bit_nat_eq_self)
qed

lemma top_bits:
  "c AND 0xC0 = 0x80 \<longleftrightarrow> unat c div 64 = 2" "c AND 0xE0 = 0xC0 \<longleftrightarrow> unat c div 32 = 6"
  "c AND 0xF0 = 0xE0 \<longleftrightarrow> unat c div 16 = 14" "c AND 0xF8 = 0xF0 \<longleftrightarrow> unat (c :: u8) div 8 = 30"
proof -
  have m: "(0xC0 :: u8) = NOT (mask 6)" "(0xE0 :: u8) = NOT (mask 5)" "(0xF0 :: u8) = NOT (mask 4)" "(0xF8 :: u8) = NOT (mask 3)"
    by (simp_all add: mask_eq_exp_minus_1)
  have "c AND NOT (mask 6) = 0x80 \<longleftrightarrow> unat c div 64 = 2" "c AND NOT (mask 5) = 0xC0 \<longleftrightarrow> unat c div 32 = 6"
    "c AND NOT (mask 4) = 0xE0 \<longleftrightarrow> unat c div 16 = 14" "c AND NOT (mask 3) = 0xF0 \<longleftrightarrow> unat c div 8 = 30"
    by (simp_all only: word_unat_eq_iff unat_high) simp_all
  then show "c AND 0xC0 = 0x80 \<longleftrightarrow> unat c div 64 = 2" "c AND 0xE0 = 0xC0 \<longleftrightarrow> unat c div 32 = 6"
    "c AND 0xF0 = 0xE0 \<longleftrightarrow> unat c div 16 = 14" "c AND 0xF8 = 0xF0 \<longleftrightarrow> unat c div 8 = 30"
    by (simp_all only: m)
qed

section \<open>Reading UTF-8\<close>

definition continues :: "u8 \<Rightarrow> bool" where
  "continues d \<longleftrightarrow> unat d div 64 = 2"

lemma utf8_tail_step:
  assumes "length cs < 2 ^ 64 - 1"
  shows "utf8_tail (Suc len) v [] = (None, [])"
    "utf8_tail (Suc len) v (d # cs) =
      (if continues d then utf8_tail len (push_bit 6 v OR ucast (d AND mask 6)) cs else (None, cs))"
  using assms by (simp_all add: bindo_def bits_consts top_bits(1) continues_def)

lemma unat_join:
  assumes "unat v < 2 ^ 15"
  shows "unat (push_bit 6 v OR ucast (d AND mask 6 :: u8) :: u32) = unat v * 64 + unat d mod 64"
proof -
  have "unat (ucast (d AND mask 6) :: u32) = unat d mod 64"
    by (simp add: unsigned_ucast_eq unat_low take_bit_nat_eq_self)
  then show ?thesis using unat_shift_or [of v 15 "ucast (d AND mask 6)" 6] assms by simp
qed

lemma utf8_first_cases:
  "utf8_first c =
    (if unat c div 32 = 6 then Some (of_nat (unat c mod 32), 1, 0x80)
     else if unat c div 16 = 14 then Some (of_nat (unat c mod 16), 2, 0x800)
     else if unat c div 8 = 30 then Some (of_nat (unat c mod 8), 3, 0x10000)
     else None)"
proof -
  have "(ucast (c AND mask k) :: u32) = of_nat (unat c mod 2 ^ k)" for k
  proof (rule word_unat_eq_iff [THEN iffD2])
    have "unat c mod 2 ^ k < 2 ^ 32" by (rule le_less_trans [OF mod_less_eq_dividend]) (rule less_trans [OF unat_u8_lt], simp)
    then show "unat (ucast (c AND mask k) :: u32) = unat (of_nat (unat c mod 2 ^ k) :: u32)"
      by (simp add: unsigned_ucast_eq unat_low unat_of_nat take_bit_nat_def)
  qed
  from this [of 5] this [of 4] this [of 3] show ?thesis by (simp add: utf8_first_def bits_consts top_bits)
qed

lemma digits64: "d < 64 \<Longrightarrow> (x * 64 + d) div 64 = x" "d < 64 \<Longrightarrow> (x * 64 + d) mod 64 = (d :: nat)"
  "n div 4096 = n div 64 div (64 :: nat)" "n div 262144 = n div 64 div 64 div (64 :: nat)"
  by (simp_all flip: div_mult2_eq)

lemma utf8_bytes:
  "unat v = n \<Longrightarrow> n < 0x80 \<Longrightarrow> utf8 v = [of_nat n]"
  "unat v = a * 64 + b \<Longrightarrow> 2 \<le> a \<Longrightarrow> a < 32 \<Longrightarrow> b < 64 \<Longrightarrow> utf8 v = [of_nat (0xC0 + a), of_nat (0x80 + b)]"
  "unat v = (a * 64 + b) * 64 + d \<Longrightarrow> 0x800 \<le> unat v \<Longrightarrow> a < 16 \<Longrightarrow> b < 64 \<Longrightarrow> d < 64 \<Longrightarrow>
     utf8 v = [of_nat (0xE0 + a), of_nat (0x80 + b), of_nat (0x80 + d)]"
  "unat v = ((a * 64 + b) * 64 + d) * 64 + e \<Longrightarrow> 0x10000 \<le> unat v \<Longrightarrow> b < 64 \<Longrightarrow> d < 64 \<Longrightarrow> e < 64 \<Longrightarrow>
     utf8 v = [of_nat (0xF0 + a), of_nat (0x80 + b), of_nat (0x80 + d), of_nat (0x80 + e)]"
proof -
  show "unat v = n \<Longrightarrow> n < 0x80 \<Longrightarrow> utf8 v = [of_nat n]" by (simp add: utf8_def)
  show "utf8 v = [of_nat (0xC0 + a), of_nat (0x80 + b)]" if "unat v = a * 64 + b" "2 \<le> a" "a < 32" "b < 64"
    using that by (simp add: utf8_def Let_def)
  show "utf8 v = [of_nat (0xE0 + a), of_nat (0x80 + b), of_nat (0x80 + d)]"
    if h: "unat v = (a * 64 + b) * 64 + d" "0x800 \<le> unat v" "a < 16" "b < 64" "d < 64"
  proof -
    have v: "unat v div 4096 = a" "unat v div 64 mod 64 = b" "unat v mod 64 = d"
      using h(4,5) by (simp_all only: h(1) digits64)
    have "unat v < 0x10000" using h by (simp add: algebra_simps)
    then show ?thesis using h(2) v by (simp add: utf8_def Let_def)
  qed
  show "utf8 v = [of_nat (0xF0 + a), of_nat (0x80 + b), of_nat (0x80 + d), of_nat (0x80 + e)]"
    if h: "unat v = ((a * 64 + b) * 64 + d) * 64 + e" "0x10000 \<le> unat v" "b < 64" "d < 64" "e < 64"
  proof -
    have v: "unat v div 262144 = a" "unat v div 4096 mod 64 = b" "unat v div 64 mod 64 = d" "unat v mod 64 = e"
      using h(3-5) by (simp_all only: h(1) digits64)
    show ?thesis using h(2) v by (simp add: utf8_def Let_def)
  qed
qed

lemma unat_small: "n < 64 \<Longrightarrow> unat (of_nat n :: u32) = n"
  by (simp add: unat_of_nat)

lemma lead_byte_split:
  "unat c div 64 = 2 \<Longrightarrow> c = of_nat (0x80 + unat c mod 64)"
  "unat c div 32 = 6 \<Longrightarrow> c = of_nat (0xC0 + unat c mod 32)"
  "unat c div 16 = 14 \<Longrightarrow> c = of_nat (0xE0 + unat c mod 16)"
  "unat c div 8 = 30 \<Longrightarrow> c = of_nat (0xF0 + unat (c :: u8) mod 8)"
proof -
  have e: "unat c div k * k + unat c mod k = unat c" for k by simp
  show "unat c div 64 = 2 \<Longrightarrow> c = of_nat (0x80 + unat c mod 64)"
    using e [of 64] by (intro word_eq_of_natI) simp
  show "unat c div 32 = 6 \<Longrightarrow> c = of_nat (0xC0 + unat c mod 32)"
    using e [of 32] by (intro word_eq_of_natI) simp
  show "unat c div 16 = 14 \<Longrightarrow> c = of_nat (0xE0 + unat c mod 16)"
    using e [of 16] by (intro word_eq_of_natI) simp
  show "unat c div 8 = 30 \<Longrightarrow> c = of_nat (0xF0 + unat c mod 8)"
    using e [of 8] by (intro word_eq_of_natI) simp
qed

lemma div_mod_small: "a < k \<Longrightarrow> (m * k + a) div k = m" "a < k \<Longrightarrow> (m * k + a) mod k = (a :: nat)"
  by simp_all

text \<open>What the loop reads, and what it makes of it.\<close>

lemma tail_Some:
  "utf8_tail len v cs = (Some w, rest) \<Longrightarrow> length cs < 2 ^ 64 \<Longrightarrow> len \<le> 3 \<Longrightarrow> unat v < 2 ^ (21 - 6 * len) \<Longrightarrow>
     \<exists>ds. length ds = len \<and> (\<forall>d \<in> set ds. d < 64) \<and> cs = map (\<lambda>d. of_nat (0x80 + d)) ds @ rest \<and>
       unat w = foldl (\<lambda>a d. a * 64 + d) (unat v) ds"
proof (induction len arbitrary: v cs)
  case (Suc len)
  obtain c cs' where cs: "cs = c # cs'" "length cs' < 2 ^ 64 - 1"
    using Suc.prems(1,2) utf8_tail_step(1) [of "[]" len v] by (cases cs) auto
  have c: "unat c div 64 = 2" "utf8_tail len (push_bit 6 v OR ucast (c AND mask 6)) cs' = (Some w, rest)"
    using Suc.prems(1) utf8_tail_step(2) [OF cs(2)] by (auto simp: cs(1) continues_def split: if_splits)
  have "len = 0 \<or> len = 1 \<or> len = 2" using Suc.prems(3) by linarith
  then have b: "unat v < 2 ^ 15" "unat v * 64 + unat c mod 64 < 2 ^ (21 - 6 * len)"
    using Suc.prems(4) mod_less_divisor [of 64 "unat c"] by (auto simp del: mod_less_divisor)
  have j: "unat (push_bit 6 v OR ucast (c AND mask 6)) = unat v * 64 + unat c mod 64" using b(1) by (rule unat_join)
  have "length cs' < 2 ^ 64" "len \<le> 3" using cs(2) Suc.prems(3) by simp_all
  then obtain ds where ds: "length ds = len" "\<forall>d \<in> set ds. d < 64" "cs' = map (\<lambda>d. of_nat (0x80 + d)) ds @ rest"
    "unat w = foldl (\<lambda>a d. a * 64 + d) (unat v * 64 + unat c mod 64) ds"
    using Suc.IH [OF c(2)] b(2) unfolding j by blast
  show ?case
    using ds lead_byte_split(1) [OF c(1)] by (intro exI [of _ "(unat c mod 64) # ds"]) (simp add: cs(1))
qed simp

lemma tail_reads:
  "length (cs :: CBS) < 2 ^ 64 \<Longrightarrow> len \<le> 3 \<Longrightarrow> unat v < 2 ^ (21 - 6 * len) \<Longrightarrow> length ds = len \<Longrightarrow>
     \<forall>d \<in> set ds. d < 64 \<Longrightarrow> cs = map (\<lambda>d. of_nat (0x80 + d)) ds @ rest \<Longrightarrow>
     utf8_tail len v cs = (Some (of_nat (foldl (\<lambda>a d. a * 64 + d) (unat v) ds)), rest)"
proof (induction len arbitrary: v cs ds)
  case (Suc len)
  obtain d ds' where ds: "ds = d # ds'" "length ds' = len" "d < 64" "\<forall>d \<in> set ds'. d < 64"
    using Suc.prems(4,5) by (cases ds) auto
  let ?c = "of_nat (0x80 + d) :: u8"
  have c: "unat ?c = 0x80 + d" using ds(3) by (simp add: unat_of_nat del: of_nat_add)
  have "(0x80 + d) mod 64 = d" "(0x80 + d) div 64 = 2" using div_mod_small [of d 64 2] ds(3) by simp_all
  then have cm: "unat ?c mod 64 = d" "continues ?c" by (simp_all only: c continues_def)
  have cs: "cs = ?c # map (\<lambda>d. of_nat (0x80 + d)) ds' @ rest" using Suc.prems(6) ds(1) by simp
  then have short: "length (map (\<lambda>d. of_nat (0x80 + d)) ds' @ rest :: CBS) < 2 ^ 64 - 1" using Suc.prems(1) by simp
  have "len = 0 \<or> len = 1 \<or> len = 2" using Suc.prems(2) by linarith
  then have b: "unat v < 2 ^ 15" "unat v * 64 + d < 2 ^ (21 - 6 * len)" using Suc.prems(3) ds(3) by auto
  have j: "unat (push_bit 6 v OR ucast (?c AND mask 6)) = unat v * 64 + d" using unat_join [OF b(1), of ?c] cm(1) by simp
  have "utf8_tail len (push_bit 6 v OR ucast (?c AND mask 6)) (map (\<lambda>d. of_nat (0x80 + d)) ds' @ rest) =
      (Some (of_nat (foldl (\<lambda>a d. a * 64 + d) (unat v * 64 + d) ds')), rest)"
    using Suc.IH [OF _ _ _ ds(2,4) refl, of "push_bit 6 v OR ucast (?c AND mask 6)"] short Suc.prems(2) b(2)
    unfolding j by simp
  then show ?case using utf8_tail_step(2) [OF short] cm(2) by (simp add: cs ds(1) del: of_nat_add utf8_tail.simps)
qed simp

lemma get_u8_iff:
  "length cbs < 2 ^ 64 \<Longrightarrow> CBS_get_u8 cbs = (Some c, rest) \<longleftrightarrow> cbs = c # rest"
  by (cases cbs) auto

lemma get_utf8_accepts:
  assumes "cbs_get_utf8 cbs = (Some v, rest)" "length cbs < 2 ^ 64"
  shows "is_valid_code_point v \<and> cbs = utf8 v @ rest"
proof -
  obtain c cs where cs: "cbs = c # cs" using assms by (cases cbs) (auto simp: cbs_get_utf8_def)
  have short: "length cs < 2 ^ 64 - 1" "length cs < 2 ^ 64" using assms(2) by (simp_all add: cs)
  have first: "(if c \<le> 0x7F then reto (ucast c) else case utf8_first c of None \<Rightarrow> failo
     | Some (v, len, lower_bound) \<Rightarrow> bindo (utf8_tail len v) (\<lambda>v.
         bindo (requireo (\<not> (\<not> is_valid_code_point v \<or> v < lower_bound))) (\<lambda>_. reto v))) cs = (Some v, rest)"
    using assms(1) short(1) by (simp add: cbs_get_utf8_def cs)
  show ?thesis
  proof (cases "c \<le> 0x7F")
    case True
    then have v: "v = ucast c" "rest = cs" "unat c \<le> 0x7F" using first by (auto simp: word_le_nat_alt)
    then have "unat v = unat c" by simp
    moreover have "is_valid_code_point v"
    proof -
      have "v AND 0xFFFE \<le> v" by (rule word_and_le2)
      then have "v AND 0xFFFE \<noteq> 0xFFFE" using v(3) \<open>unat v = unat c\<close> by (auto simp: word_le_nat_alt)
      then show ?thesis using v(3) \<open>unat v = unat c\<close> by (simp add: is_valid_code_point_def word_le_nat_alt word_less_nat_alt)
    qed
    ultimately show ?thesis using v utf8_bytes(1) [of v "unat c"] by (simp add: cs)
  next
    case False
    then obtain v0 len lb where f: "utf8_first c = Some (v0, len, lb)" "utf8_tail len v0 cs = (Some v, rest)"
      "is_valid_code_point v" "\<not> v < lb"
      using first by (cases "utf8_first c") (auto simp: bindo_eq_Some_iff split: if_splits)
    consider (Two) "unat c div 32 = 6" "v0 = of_nat (unat c mod 32)" "len = 1" "lb = 0x80"
      | (Three) "unat c div 16 = 14" "v0 = of_nat (unat c mod 16)" "len = 2" "lb = 0x800"
      | (Four) "unat c div 8 = 30" "v0 = of_nat (unat c mod 8)" "len = 3" "lb = 0x10000"
      using f(1) unfolding utf8_first_cases by (auto split: if_splits)
    then show ?thesis
    proof cases
      case Two
      have v0: "unat v0 = unat c mod 32" unfolding Two(2) by (rule unat_small) (simp add: less_trans [of _ 32])
      have "unat v0 < 2 ^ (21 - 6 * len)" by (simp add: v0 Two(3) less_trans [of _ 32])
      then obtain ds where ds: "length ds = 1" "\<forall>d \<in> set ds. d < 64" "cs = map (\<lambda>d. of_nat (0x80 + d)) ds @ rest"
        "unat v = foldl (\<lambda>a d. a * 64 + d) (unat c mod 32) ds"
        using tail_Some [OF f(2) short(2)] Two(3) v0 by auto
      obtain d where d: "ds = [d]" using ds(1) by (auto simp: length_Suc_conv)
      have "utf8 v = [of_nat (0xC0 + unat c mod 32), of_nat (0x80 + d)]"
        using ds(2,4) f(4) Two(4) by (intro utf8_bytes(2)) (auto simp: d word_less_nat_alt)
      then show ?thesis using lead_byte_split(2) [OF Two(1)] f(3) ds(3) by (simp add: cs d)
    next
      case Three
      have v0: "unat v0 = unat c mod 16" unfolding Three(2) by (rule unat_small) (simp add: less_trans [of _ 16])
      have "unat v0 < 2 ^ (21 - 6 * len)" by (simp add: v0 Three(3) less_trans [of _ 16])
      then obtain ds where ds: "length ds = 2" "\<forall>d \<in> set ds. d < 64" "cs = map (\<lambda>d. of_nat (0x80 + d)) ds @ rest"
        "unat v = foldl (\<lambda>a d. a * 64 + d) (unat c mod 16) ds"
        using tail_Some [OF f(2) short(2)] Three(3) v0 by auto
      obtain d e where d: "ds = [d, e]" using ds(1) by (auto simp: length_Suc_conv numeral_2_eq_2)
      have "utf8 v = [of_nat (0xE0 + unat c mod 16), of_nat (0x80 + d), of_nat (0x80 + e)]"
        using ds(2,4) f(4) Three(4) by (intro utf8_bytes(3)) (auto simp: d word_less_nat_alt)
      then show ?thesis using lead_byte_split(3) [OF Three(1)] f(3) ds(3) by (simp add: cs d)
    next
      case Four
      have v0: "unat v0 = unat c mod 8" unfolding Four(2) by (rule unat_small) (simp add: less_trans [of _ 8])
      have "unat v0 < 2 ^ (21 - 6 * len)" by (simp add: v0 Four(3))
      then obtain ds where ds: "length ds = 3" "\<forall>d \<in> set ds. d < 64" "cs = map (\<lambda>d. of_nat (0x80 + d)) ds @ rest"
        "unat v = foldl (\<lambda>a d. a * 64 + d) (unat c mod 8) ds"
        using tail_Some [OF f(2) short(2)] Four(3) v0 by auto
      obtain d e g where d: "ds = [d, e, g]" using ds(1) by (auto simp: length_Suc_conv numeral_3_eq_3)
      have "utf8 v = [of_nat (0xF0 + unat c mod 8), of_nat (0x80 + d), of_nat (0x80 + e), of_nat (0x80 + g)]"
        using ds(2,4) f(4) Four(4) by (intro utf8_bytes(4)) (auto simp: d word_less_nat_alt)
      then show ?thesis using lead_byte_split(4) [OF Four(1)] f(3) ds(3) by (simp add: cs d)
    qed
  qed
qed

lemma utf8_first_bytes:
  "a < 32 \<Longrightarrow> utf8_first (of_nat (0xC0 + a)) = Some (of_nat a, 1, 0x80)"
  "a < 16 \<Longrightarrow> utf8_first (of_nat (0xE0 + a)) = Some (of_nat a, 2, 0x800)"
  "a < 8 \<Longrightarrow> utf8_first (of_nat (0xF0 + a)) = Some (of_nat a, 3, 0x10000)"
proof -
  show "utf8_first (of_nat (0xC0 + a)) = Some (of_nat a, 1, 0x80)" if h: "a < 32"
  proof -
    have "(0xC0 + a) div 32 = 6" "(0xC0 + a) mod 32 = a" using div_mod_small [of a 32 6] h by simp_all
    moreover have "unat (of_nat (0xC0 + a) :: u8) = 0xC0 + a" using h by (simp add: unat_of_nat del: of_nat_add)
    ultimately show ?thesis by (simp only: utf8_first_cases simp_thms if_True)
  qed
  show "utf8_first (of_nat (0xE0 + a)) = Some (of_nat a, 2, 0x800)" if h: "a < 16"
  proof -
    have "(0xE0 + a) div 32 \<noteq> 6" "(0xE0 + a) div 16 = 14" "(0xE0 + a) mod 16 = a"
      using div_mod_small [of a 32 7] div_mod_small [of a 16 14] h by simp_all
    moreover have "unat (of_nat (0xE0 + a) :: u8) = 0xE0 + a" using h by (simp add: unat_of_nat del: of_nat_add)
    ultimately show ?thesis by (simp only: utf8_first_cases simp_thms if_True if_False)
  qed
  show "utf8_first (of_nat (0xF0 + a)) = Some (of_nat a, 3, 0x10000)" if h: "a < 8"
  proof -
    have "(0xF0 + a) div 32 \<noteq> 6" "(0xF0 + a) div 16 \<noteq> 14" "(0xF0 + a) div 8 = 30" "(0xF0 + a) mod 8 = a"
      using div_mod_small [of "16 + a" 32 7] div_mod_small [of a 16 15] div_mod_small [of a 8 30] h by simp_all
    moreover have "unat (of_nat (0xF0 + a) :: u8) = 0xF0 + a" using h by (simp add: unat_of_nat del: of_nat_add)
    ultimately show ?thesis by (simp only: utf8_first_cases simp_thms if_True if_False)
  qed
qed

lemma get_utf8_long:
  assumes "utf8_first c = Some (of_nat a, len, lb)" "utf8 v = c # map (\<lambda>d. of_nat (0x80 + d)) ds"
    and "unat v = foldl (\<lambda>a d. a * 64 + d) a ds" "0x7F < c" "len \<le> 3" "a < 64" "a < 2 ^ (21 - 6 * len)"
    and "length ds = len" "\<forall>d \<in> set ds. d < 64" "unat lb \<le> unat v"
    and "is_valid_code_point v" "length (utf8 v @ rest) < 2 ^ 64"
  shows "cbs_get_utf8 (utf8 v @ rest) = (Some v, rest)"
proof -
  have a: "unat (of_nat a :: u32) = a" using assms(6) by (rule unat_small)
  have short: "length (map (\<lambda>d. of_nat (0x80 + d)) ds @ rest :: bytes) < 2 ^ 64 - 1" using assms(2,12) by simp
  have "utf8_tail len (of_nat a) (map (\<lambda>d. of_nat (0x80 + d)) ds @ rest) =
      (Some (of_nat (foldl (\<lambda>a d. a * 64 + d) (unat (of_nat a :: u32)) ds)), rest)"
    by (rule tail_reads [OF _ assms(5) _ assms(8,9) refl]) (use short assms(7) in \<open>simp_all add: a\<close>)
  then have "utf8_tail len (of_nat a) (map (\<lambda>d. of_nat (0x80 + d)) ds @ rest) = (Some v, rest)"
    unfolding a assms(3) [symmetric] by simp
  moreover have "\<not> c \<le> 0x7F" "\<not> v < lb" using assms(4,10) by (auto simp: word_less_nat_alt word_le_nat_alt)
  ultimately show ?thesis using assms(1,11) short unfolding assms(2) by (simp add: cbs_get_utf8_def)
qed

lemma get_utf8_reads:
  assumes "is_valid_code_point v" "length (utf8 v @ rest) < 2 ^ 64"
  shows "cbs_get_utf8 (utf8 v @ rest) = (Some v, rest)"
proof -
  let ?n = "unat v"
  have n: "?n < 0x110000" using assms(1) by (simp add: is_valid_code_point_def word_less_nat_alt)
  have s: "?n = ?n div 64 * 64 + ?n mod 64" "?n div 64 = ?n div 4096 * 64 + ?n div 64 mod 64"
    "?n div 4096 = ?n div 262144 * 64 + ?n div 4096 mod 64" by (simp_all add: digits64(3,4))
  have big: "0x7F < (of_nat (0x80 + a) :: u8)" if "a < 128" for a
    using that by (simp add: word_less_nat_alt unat_of_nat del: of_nat_add)
  consider "?n < 0x80" | "0x80 \<le> ?n" "?n < 0x800" | "0x800 \<le> ?n" "?n < 0x10000" | "0x10000 \<le> ?n" by linarith
  then show ?thesis
  proof cases
    case 1
    have u: "unat (of_nat ?n :: u8) = ?n" by (subst unat_of_nat) (use 1 in simp)
    have "(of_nat ?n :: u8) \<le> 0x7F" using 1 u by (simp only: word_le_nat_alt) simp
    moreover have "(ucast (of_nat ?n :: u8) :: u32) = v" by (rule word_unat_eq_iff [THEN iffD2]) (simp only: unat_ucast_u8_u32 u)
    ultimately show ?thesis using assms(2) utf8_bytes(1) [OF refl 1] by (simp add: cbs_get_utf8_def)
  next
    case 2
    then have a: "?n div 64 < 32" "2 \<le> ?n div 64" by (simp_all add: less_mult_imp_div_less)
    have u: "utf8 v = of_nat (0xC0 + ?n div 64) # map (\<lambda>d. of_nat (0x80 + d)) [?n mod 64]"
      unfolding list.map by (rule utf8_bytes(2) [OF s(1) a(2,1)]) simp
    show ?thesis
    proof (rule get_utf8_long [OF utf8_first_bytes(1) [OF a(1)] u _ _ _ _ _ _ _ _ assms])
      show "?n = foldl (\<lambda>a d. a * 64 + d) (?n div 64) [?n mod 64]" unfolding foldl_Cons foldl_Nil by (rule s(1))
      show "0x7F < (of_nat (0xC0 + ?n div 64) :: u8)" using big [of "64 + ?n div 64"] a by simp
    qed (use a 2 in simp_all)
  next
    case 3
    then have a: "?n div 4096 < 16" by (simp add: less_mult_imp_div_less)
    have n3: "?n = (?n div 4096 * 64 + ?n div 64 mod 64) * 64 + ?n mod 64"
      by (subst s(1), subst s(2), rule refl)
    have u: "utf8 v = of_nat (0xE0 + ?n div 4096) # map (\<lambda>d. of_nat (0x80 + d)) [?n div 64 mod 64, ?n mod 64]"
      unfolding list.map by (rule utf8_bytes(3) [OF n3 3(1) a]) simp_all
    show ?thesis
    proof (rule get_utf8_long [OF utf8_first_bytes(2) [OF a] u _ _ _ _ _ _ _ _ assms])
      show "?n = foldl (\<lambda>a d. a * 64 + d) (?n div 4096) [?n div 64 mod 64, ?n mod 64]"
        unfolding foldl_Cons foldl_Nil by (rule n3)
      show "0x7F < (of_nat (0xE0 + ?n div 4096) :: u8)" using big [of "96 + ?n div 4096"] a by simp
    qed (use a 3 in simp_all)
  next
    case 4
    then have a: "?n div 262144 < 8" using n by (simp add: less_mult_imp_div_less)
    have n4: "?n = ((?n div 262144 * 64 + ?n div 4096 mod 64) * 64 + ?n div 64 mod 64) * 64 + ?n mod 64"
      by (subst s(1), subst s(2), subst s(3), rule refl)
    have u: "utf8 v = of_nat (0xF0 + ?n div 262144) #
        map (\<lambda>d. of_nat (0x80 + d)) [?n div 4096 mod 64, ?n div 64 mod 64, ?n mod 64]"
      unfolding list.map by (rule utf8_bytes(4) [OF n4 4]) simp_all
    show ?thesis
    proof (rule get_utf8_long [OF utf8_first_bytes(3) [OF a] u _ _ _ _ _ _ _ _ assms])
      show "?n = foldl (\<lambda>a d. a * 64 + d) (?n div 262144) [?n div 4096 mod 64, ?n div 64 mod 64, ?n mod 64]"
        unfolding foldl_Cons foldl_Nil by (rule n4)
      show "0x7F < (of_nat (0xF0 + ?n div 262144) :: u8)" using big [of "112 + ?n div 262144"] a by simp
    qed (use a 4 in simp_all)
  qed
qed

lemma get_utf8_iff:
  "length cbs < 2 ^ 64 \<Longrightarrow> cbs_get_utf8 cbs = (Some v, rest) \<longleftrightarrow> is_valid_code_point v \<and> cbs = utf8 v @ rest"
  using get_utf8_accepts get_utf8_reads by blast

section \<open>Writing UTF-8\<close>

lemma marked_bytes:
  "b < 32 \<Longrightarrow> unat x = b \<Longrightarrow> marked 2 x = of_nat (0xC0 + b)"
  "b < 16 \<Longrightarrow> unat x = b \<Longrightarrow> marked 3 x = of_nat (0xE0 + b)"
  "b < 8 \<Longrightarrow> unat x = b \<Longrightarrow> marked 4 x = of_nat (0xF0 + b)"
  "b < 64 \<Longrightarrow> unat x = b \<Longrightarrow> marked 1 x = of_nat (0x80 + b)"
proof -
  have j: "marked n x = of_nat (m * 2 ^ k + b)"
    if "ucast (TOP_BITS n) = push_bit k (of_nat m :: u32)" "unat x = b" "b < 2 ^ k" "m < 64" "k \<le> 6" for n m k b x
  proof -
    have "unat (push_bit k (of_nat m) OR x) = unat (of_nat m :: u32) * 2 ^ k + unat x"
      using that(2-5) unat_small [OF that(4)] by (intro unat_shift_or [of _ 6]) simp_all
    then have "unat (push_bit k (of_nat m) OR x) = m * 2 ^ k + b" using that(2) unat_small [OF that(4)] by simp
    then show ?thesis unfolding marked_def that(1) by (metis of_nat_unat)
  qed
  show "b < 32 \<Longrightarrow> unat x = b \<Longrightarrow> marked 2 x = of_nat (0xC0 + b)"
    using j [of 2 5 6 x b] by (simp add: bits_consts)
  show "b < 16 \<Longrightarrow> unat x = b \<Longrightarrow> marked 3 x = of_nat (0xE0 + b)"
    using j [of 3 4 14 x b] by (simp add: bits_consts)
  show "b < 8 \<Longrightarrow> unat x = b \<Longrightarrow> marked 4 x = of_nat (0xF0 + b)"
    using j [of 4 3 30 x b] by (simp add: bits_consts)
  show "b < 64 \<Longrightarrow> unat x = b \<Longrightarrow> marked 1 x = of_nat (0x80 + b)"
    using j [of 1 6 2 x b] by (simp add: bits_consts)
qed

lemma septet_parts:
  "unat (u AND ucast (BOTTOM_BITS 6) :: u32) = unat u mod 64"
  "unat (drop_bit 6 u AND ucast (BOTTOM_BITS 6) :: u32) = unat u div 64 mod 64"
  "unat (drop_bit 12 u AND ucast (BOTTOM_BITS 6) :: u32) = unat u div 4096 mod 64"
  "unat (drop_bit 6 u) = unat u div 64" "unat (drop_bit 12 u) = unat u div 4096" "unat (drop_bit 18 u) = unat u div 262144"
  by (simp_all add: bits_consts unat_low unat_drop_bit_div)

lemma add_utf8_eq:
  assumes "is_valid_code_point u"
  shows "cbb_add_utf8 env h u = add_all_u8 env h (utf8 u)"
proof -
  let ?n = "unat u"
  have n: "?n < 0x110000" using assms by (simp add: is_valid_code_point_def word_less_nat_alt)
  have le: "u \<le> 0x7F \<longleftrightarrow> ?n < 0x80" "u \<le> 0x7FF \<longleftrightarrow> ?n < 0x800" "u \<le> 0xFFFF \<longleftrightarrow> ?n < 0x10000" "u \<le> 0x10FFFF \<longleftrightarrow> ?n < 0x110000"
    by (auto simp: word_le_nat_alt)
  have low: "?n mod 64 < 64" "?n div 64 mod 64 < 64" "?n div 4096 mod 64 < 64" by simp_all
  note ms = marked_bytes(4) [OF low(1) septet_parts(1)] marked_bytes(4) [OF low(2) septet_parts(2)]
    marked_bytes(4) [OF low(3) septet_parts(3)]
  consider "?n < 0x80" | "0x80 \<le> ?n" "?n < 0x800" | "0x800 \<le> ?n" "?n < 0x10000" | "0x10000 \<le> ?n" by linarith
  then show ?thesis
  proof cases
    case 1
    then have "utf8 u = [ucast u]" by (simp add: utf8_def)
    then show ?thesis using assms 1 by (simp add: cbb_add_utf8_def le)
  next
    case 2
    then have "?n div 64 < 32" by (simp add: less_mult_imp_div_less)
    from marked_bytes(1) [OF this septet_parts(4)] show ?thesis
      using assms 2 ms by (simp add: cbb_add_utf8_def le utf8_def Let_def del: of_nat_add)
  next
    case 3
    then have "?n div 4096 < 16" by (simp add: less_mult_imp_div_less)
    from marked_bytes(2) [OF this septet_parts(5)] show ?thesis
      using assms 3 ms by (simp add: cbb_add_utf8_def le utf8_def Let_def del: of_nat_add)
  next
    case 4
    then have "?n div 262144 < 8" using n by (simp add: less_mult_imp_div_less)
    from marked_bytes(3) [OF this septet_parts(6)] show ?thesis
      using assms 4 n ms by (simp add: cbb_add_utf8_def le utf8_def Let_def del: of_nat_add)
  qed
qed

lemma utf8_len_eq: "unat (cbb_get_utf8_len u) = length (utf8 u)"
  by (auto simp: cbb_get_utf8_len_def utf8_def Let_def word_le_nat_alt)

section \<open>All four encodings\<close>

datatype char_encoding = UTF8 | Latin1 | UCS2 | UTF32

fun encoding_get :: "char_encoding \<Rightarrow> CBS \<Rightarrow> (CBS, u32) outcome" where
  "encoding_get UTF8 = cbs_get_utf8"
| "encoding_get Latin1 = cbs_get_latin1"
| "encoding_get UCS2 = cbs_get_ucs2_be"
| "encoding_get UTF32 = cbs_get_utf32_be"

fun encoding_add :: "char_encoding \<Rightarrow> cbb_env \<Rightarrow> nat \<Rightarrow> u32 \<Rightarrow> CBB \<Rightarrow> (CBB, unit) outcome" where
  "encoding_add UTF8 = cbb_add_utf8"
| "encoding_add Latin1 = cbb_add_latin1"
| "encoding_add UCS2 = cbb_add_ucs2_be"
| "encoding_add UTF32 = cbb_add_utf32_be"

fun encoded_char :: "char_encoding \<Rightarrow> u32 \<Rightarrow> bytes option" where
  "encoded_char UTF8 v = (if is_valid_code_point v then Some (utf8 v) else None)"
| "encoded_char Latin1 v = (if unat v < 2 ^ 8 then Some [of_nat (unat v)] else None)"
| "encoded_char UCS2 v = (if unat v < 2 ^ 16 \<and> is_valid_code_point v then Some (be_bytes 2 (ucast v)) else None)"
| "encoded_char UTF32 v = (if is_valid_code_point v then Some (be_bytes 4 (ucast v)) else None)"

lemma cbs_get_u_iff:
  assumes "length cbs < 2 ^ 64" "k \<le> 8" "0 < k"
  shows "cbs_get_u (of_nat k) cbs = (Some w, rest) \<longleftrightarrow> unat w < 2 ^ (8 * k) \<and> cbs = be_bytes k w @ rest"
proof -
  have k: "unat (of_nat k :: u64) = k" using assms(2) by (simp add: unat_of_nat)
  show ?thesis
  proof
    assume "cbs_get_u (of_nat k) cbs = (Some w, rest)"
    then have g: "k \<le> length cbs" "w = be_word (take k cbs)" "rest = drop k cbs"
      using assms(1) by (auto simp: cbs_get_u_eq k split: if_splits)
    then have "length (take k cbs) = k" by simp
    then show "unat w < 2 ^ (8 * k) \<and> cbs = be_bytes k w @ rest"
      using be_word_bound [of "take k cbs"] be_bytes_word [of "take k cbs"] assms(2) g
      by (simp add: unat_lt_drop del: length_take)
  next
    assume r: "unat w < 2 ^ (8 * k) \<and> cbs = be_bytes k w @ rest"
    then have "be_word (be_bytes k w) = w" by (intro be_word_bytes) (simp add: unat_lt_drop)
    then show "cbs_get_u (of_nat k) cbs = (Some w, rest)"
      using assms(1) r by (simp add: cbs_get_u_eq k)
  qed
qed

lemma get_char_iff:
  assumes "length cbs < 2 ^ 64"
  shows "encoding_get e cbs = (Some v, rest) \<longleftrightarrow> (\<exists>bs. encoded_char e v = Some bs \<and> cbs = bs @ rest)"
proof (cases e)
  case UTF8
  then show ?thesis using get_utf8_iff [OF assms] by auto
next
  case Latin1
  have "cbs_get_latin1 cbs = (Some v, rest) \<longleftrightarrow> (\<exists>c. cbs = c # rest \<and> v = ucast c)"
    using get_u8_iff [OF assms] by (auto simp: cbs_get_latin1_def bindo_eq_Some_iff)
  moreover have "(\<exists>c. cbs = c # rest \<and> v = ucast c) \<longleftrightarrow> unat v < 2 ^ 8 \<and> cbs = of_nat (unat v) # rest"
  proof
    assume "\<exists>c. cbs = c # rest \<and> v = ucast c"
    then obtain c where c: "cbs = c # rest" "v = ucast c" by blast
    then have "unat v = unat c" by simp
    then show "unat v < 2 ^ 8 \<and> cbs = of_nat (unat v) # rest" using c(1) by simp
  next
    assume r: "unat v < 2 ^ 8 \<and> cbs = of_nat (unat v) # rest"
    then have "unat (of_nat (unat v) :: u8) = unat v" by (subst unat_of_nat) simp
    then have "v = ucast (of_nat (unat v) :: u8)" by (simp only: word_unat_eq_iff unat_ucast_u8_u32)
    then show "\<exists>c. cbs = c # rest \<and> v = ucast c" using r by blast
  qed
  ultimately show ?thesis using Latin1 by auto
next
  case UCS2
  have "cbs_get_ucs2_be cbs = (Some v, rest) \<longleftrightarrow>
      (\<exists>w. (unat w < 2 ^ 16 \<and> cbs = be_bytes 2 w @ rest) \<and> v = ucast (ucast w :: u16) \<and> is_valid_code_point v)"
    using cbs_get_u_iff [OF assms, of 2] by (auto simp: cbs_get_ucs2_be_def CBS_get_u16_def bindo_eq_Some_iff)
  also have "\<dots> \<longleftrightarrow> unat v < 2 ^ 16 \<and> is_valid_code_point v \<and> cbs = be_bytes 2 (ucast v) @ rest"
  proof -
    have a: "unat (ucast (ucast w :: u16) :: u32) = unat w" "(ucast (ucast (ucast w :: u16) :: u32) :: u64) = w"
      if "unat (w :: u64) < 2 ^ 16" for w
      using that by (simp_all only: word_unat_eq_iff unsigned_ucast_eq) (simp_all add: unsigned_take_bit_eq unsigned_ucast_eq take_bit_nat_eq_self)
    have b: "unat (ucast v :: u64) = unat v" "ucast (ucast (ucast v :: u64) :: u16) = v" if "unat v < 2 ^ 16"
      using that by (simp_all only: word_unat_eq_iff unsigned_ucast_eq) (simp_all add: unsigned_take_bit_eq unsigned_ucast_eq take_bit_nat_eq_self)
    show ?thesis using a b by metis
  qed
  finally show ?thesis using UCS2 by auto
next
  case UTF32
  have "cbs_get_utf32_be cbs = (Some v, rest) \<longleftrightarrow>
      (\<exists>w. (unat w < 2 ^ 32 \<and> cbs = be_bytes 4 w @ rest) \<and> v = ucast w \<and> is_valid_code_point v)"
    using cbs_get_u_iff [OF assms, of 4] by (auto simp: cbs_get_utf32_be_def CBS_get_u32_def bindo_eq_Some_iff)
  also have "\<dots> \<longleftrightarrow> is_valid_code_point v \<and> cbs = be_bytes 4 (ucast v) @ rest"
  proof -
    have a: "(ucast (ucast w :: u32) :: u64) = w" if "unat (w :: u64) < 2 ^ 32" for w
      using that by (simp only: word_unat_eq_iff unsigned_ucast_eq) (simp add: unsigned_take_bit_eq unsigned_ucast_eq take_bit_nat_eq_self)
    have lt: "unat v < 2 ^ 32" using unsigned_less [of v, where ?'a = nat] by simp
    have lt: "unat v < 2 ^ 32" "unat v < 2 ^ 64" by (rule lt, rule less_trans [OF lt], simp)
    have b: "unat (ucast v :: u64) < 2 ^ 32" "ucast (ucast v :: u64) = v"
      using lt by (simp_all only: word_unat_eq_iff unsigned_ucast_eq) (simp_all add: unsigned_take_bit_eq unsigned_ucast_eq take_bit_nat_eq_self)
    show ?thesis using a b by metis
  qed
  finally show ?thesis using UTF32 by auto
qed

lemma add_char:
  assumes "cbb_holds env (4 + n) cbb root fs x"
  shows "case encoded_char e v of
           None \<Rightarrow> encoding_add e env (length fs) v cbb = (None, cbb)
         | Some bs \<Rightarrow> \<exists>cbb'. encoding_add e env (length fs) v cbb = (Some (), cbb') \<and> cbb_holds env n cbb' root fs (x @ bs)"
proof (cases e)
  case UTF8
  show ?thesis
  proof (cases "is_valid_code_point v")
    case True
    have "length (utf8 v) \<le> 4" by (simp add: utf8_def Let_def)
    then have h: "cbb_holds env (length (utf8 v) + n) cbb root fs x" using assms by (rule_tac holds_room_mono) auto
    show ?thesis using add_all [OF h] True by (simp add: UTF8 add_utf8_eq)
  qed (simp add: UTF8 cbb_add_utf8_def)
next
  case Latin1
  have h: "cbb_holds env (Suc n) cbb root fs x" by (rule holds_room_mono [OF assms]) simp
  have "v \<le> 0xFF \<longleftrightarrow> unat v < 2 ^ 8" by (auto simp: word_le_nat_alt)
  moreover have "(ucast v :: u8) = of_nat (unat v)" by simp
  ultimately show ?thesis using add_u8 [OF h, of "ucast v"] by (simp add: Latin1 cbb_add_latin1_def)
next
  case UCS2
  have h: "cbb_holds env (2 + n) cbb root fs x" by (rule holds_room_mono [OF assms]) simp
  have le: "v \<le> 0xFFFF \<longleftrightarrow> unat v < 2 ^ 16" by (auto simp: word_le_nat_alt)
  have u: "(ucast (ucast v :: u16) :: u64) = ucast v" if "unat v < 2 ^ 16"
    using that by (simp_all only: word_unat_eq_iff unsigned_ucast_eq)
      (simp_all add: unsigned_take_bit_eq unsigned_ucast_eq take_bit_nat_eq_self)
  have "drop_bit (8 * 2) (ucast v :: u64) = 0" if "unat v < 2 ^ 16"
    using that by (simp add: unat_lt_drop [symmetric] unsigned_ucast_eq take_bit_nat_eq_self)
  then show ?thesis using add_u [OF h, of "ucast v"] u le by (simp add: UCS2 cbb_add_ucs2_be_def CBB_add_u16_def)
next
  case UTF32
  have "drop_bit (8 * 4) (ucast v :: u64) = 0"
    using unsigned_less [of v, where ?'a = nat]
    by (simp add: unat_lt_drop [symmetric] unsigned_ucast_eq take_bit_nat_eq_self)
  then show ?thesis using add_u [OF assms, of "ucast v"] by (simp add: UTF32 cbb_add_utf32_be_def CBB_add_u32_def)
qed

text \<open>C14. The character encodings of \<open>unicode.c\<close> are exact in both directions: a reader of UTF-8,
  Latin-1, UCS-2 or UTF-32 succeeds precisely if its input starts with the encoding of a code point
  that the encoding admits (Latin-1: up to \<open>0xFF\<close>; the others: no surrogate, no noncharacter, at
  most \<open>0x10FFFF\<close>, and \<open>0xFFFF\<close> for UCS-2; UTF-8 in its shortest form only), returns that code point
  and leaves what follows; the writer appends just those bytes to a builder with four bytes of
  room, and refuses every other code point without touching the builder.\<close>

theorem encodings_exact:
  assumes "length cbs < 2 ^ 64" "cbb_holds env (4 + n) cbb root fs x"
  shows "(encoding_get e cbs = (Some v, rest) \<longleftrightarrow> (\<exists>bs. encoded_char e v = Some bs \<and> cbs = bs @ rest)) \<and>
    (case encoded_char e v of
       None \<Rightarrow> encoding_add e env (length fs) v cbb = (None, cbb)
     | Some bs \<Rightarrow> \<exists>cbb'. encoding_add e env (length fs) v cbb = (Some (), cbb') \<and> cbb_holds env n cbb' root fs (x @ bs))"
  using get_char_iff [OF assms(1)] add_char [OF assms(2)] by blast

text \<open>The euro sign in UTF-8.\<close>

theorem encodings_exact_witness:
  "encoding_get UTF8 [0xE2, 0x82, 0xAC, 0x21] = (Some 0x20AC, [0x21]) \<and>
   (\<exists>cbb'. encoding_add UTF8 roomy 0 0x20AC (the (CBB_init roomy True 2)) = (Some (), cbb') \<and>
      cbb_holds roomy 0 cbb' [] [] [0xE2, 0x82, 0xAC])"
proof -
  have h: "cbb_holds roomy (4 + 0) (the (CBB_init roomy True 2)) [] [] []"
    by (rule init_holds [of roomy 2]) (simp_all add: roomy_def CBB_init_def)
  have e: "encoded_char UTF8 0x20AC = Some [0xE2, 0x82, 0xAC]"
    by (simp add: is_valid_code_point_def utf8_def)
  then show ?thesis
    using encodings_exact [OF _ h, of "[0xE2, 0x82, 0xAC, 0x21]" UTF8 "0x20AC" "[0x21]"] e by simp
qed

end
