(* ===== verification/Ber.thy ===== *)
theory Ber
  imports CbbDer
begin

text \<open>
  Conversion of BER to DER, \<open>crypto/bytestring/ber.c\<close>: the walk that looks for indefinite lengths and
  constructed strings, the conversion through nested builders, and the parser of implicitly tagged strings.
  A \<open>CBB\<close> is named by its depth in the chain of open builders, as in \<open>Cbb\<close>; the nesting depth of the
  recursion stays below 2050 and is a natural number.
\<close>

section \<open>BER elements\<close>

text \<open>
  The element reader with \<open>ber_ok\<close>: a DER element, or the header of an indefinite-length one. Definite
  lengths have to be minimal here too.
\<close>

lemma byte_0x80: "b AND 0x80 \<noteq> 0 \<and> ucast (b AND 0x7F) = (0 :: u64) \<longleftrightarrow> b = (0x80 :: u8)"
proof
  assume a: "b AND 0x80 \<noteq> 0 \<and> ucast (b AND 0x7F) = (0 :: u64)"
  then have "unat (b AND 0x7F) = 0" by (metis unat_0 unat_ucast_u8_u64)
  then have "b AND 0x7F = 0" by (simp add: unat_eq_0)
  then show "b = 0x80" using u8_top [of b] a by simp
qed simp

lemma ber_element_length:
  "asn1_element_length True tag hl b h =
    (if tag AND 0x20000000 \<noteq> 0 \<and> b = 0x80 then Some (hl, hl) else asn1_element_length False tag hl b h)"
proof (cases "b AND 0x80 \<noteq> 0 \<and> ucast (b AND 0x7F) = (0 :: u64)")
  case True
  then have "b = 0x80" using byte_0x80 by blast
  then show ?thesis by (simp add: asn1_element_length_def)
next
  case False
  then have "b \<noteq> 0x80" using byte_0x80 by blast
  then show ?thesis using False unfolding asn1_element_length_def Let_def by auto
qed

lemma der_length_0x80: "asn1_element_length False tag hl 0x80 h = None"
  by (simp add: asn1_element_length_def)

definition ber_indef :: "u32 \<Rightarrow> bytes" where
  "ber_indef tag = der_tag tag @ [0x80]"

lemma ber_element_iff:
  assumes "length cbs < 2 ^ 64"
  shows "CBS_get_any_ber_asn1_element cbs = (Some (out, tag, hl), rest) \<longleftrightarrow>
    CBS_get_any_asn1_element cbs = (Some (out, tag, hl), rest) \<or>
    tag AND 0x20000000 \<noteq> 0 \<and> cbs = ber_indef tag @ rest \<and> out = ber_indef tag \<and> hl = of_nat (length (ber_indef tag))"
proof (cases "bindo parse_asn1_tag (\<lambda>tag. bindo CBS_get_u8 (\<lambda>length_byte. reto (tag, length_byte))) cbs")
  case (Pair r h)
  show ?thesis
  proof (cases r)
    case None
    have "cbs \<noteq> ber_indef tag @ rest"
    proof
      assume c: "cbs = ber_indef tag @ rest"
      then have "parse_asn1_tag cbs = (Some tag, 0x80 # rest)"
        using parse_tag_der [of tag "0x80 # rest"] assms by (simp add: ber_indef_def)
      moreover have "CBS_get_u8 (0x80 # rest) = (Some 0x80, rest)"
        using assms c by (intro CBS_get_u8_simps) (simp add: ber_indef_def)
      ultimately show False using Pair None by simp
    qed
    then show ?thesis using Pair None
      by (auto simp: CBS_get_any_ber_asn1_element_def CBS_get_any_asn1_element_def cbs_get_any_asn1_element_def)
  next
    case (Some tb)
    obtain t b where tb: "tb = (t, b)" by force
    obtain h1 where h1: "parse_asn1_tag cbs = (Some t, h1)" "CBS_get_u8 h1 = (Some b, h)"
      using Pair Some tb by (auto simp: bindo_eq_Some_iff)
    have c1: "cbs = der_tag t @ h1" using parse_tag_Some [OF h1(1) assms] .
    then have "length h1 < 2 ^ 64 - 1" using assms length_der_tag [of t] by simp
    then have "h1 = b # h" using h1(2) by (cases h1) auto
    with c1 have cbs: "cbs = der_tag t @ b # h" by simp
    show ?thesis
    proof (cases "t AND 0x20000000 \<noteq> 0 \<and> b = 0x80")
      case False
      have "\<not> (tag AND 0x20000000 \<noteq> 0 \<and> cbs = ber_indef tag @ rest)"
      proof
        assume c: "tag AND 0x20000000 \<noteq> 0 \<and> cbs = ber_indef tag @ rest"
        then have "parse_asn1_tag cbs = (Some tag, 0x80 # rest)"
          using parse_tag_der [of tag "0x80 # rest"] assms by (simp add: ber_indef_def)
        then show False using h1(1) c False \<open>h1 = b # h\<close> by simp
      qed
      moreover have "asn1_element_length True t hl b h = asn1_element_length False t hl b h" for hl
        unfolding ber_element_length if_not_P [OF False] ..
      ultimately show ?thesis using Pair Some tb
        by (auto simp: CBS_get_any_ber_asn1_element_def CBS_get_any_asn1_element_def cbs_get_any_asn1_element_def)
    next
      case True
      let ?k = "of_nat (length (der_tag t) + 1) :: u64"
      have hl0: "CBS_len cbs - CBS_len h = ?k" using header_len_eq assms unfolding cbs by blast
      have uk: "unat ?k = length (der_tag t) + 1" using length_der_tag [of t] by (intro small_of_nat) simp
      have "CBS_get_bytes ?k cbs = (Some (der_tag t @ [0x80]), h)"
        using assms uk unfolding cbs by (simp add: CBS_get_bytes_def cbs_get_eq bindo_def True del: of_nat_add)
      then have "CBS_get_any_ber_asn1_element cbs = (Some (der_tag t @ [0x80], t, ?k), h)"
        using Pair Some tb True hl0
        by (simp add: CBS_get_any_ber_asn1_element_def cbs_get_any_asn1_element_def ber_element_length)
      moreover have "fst (CBS_get_any_asn1_element cbs) = None"
        using Pair Some tb True
        by (simp add: CBS_get_any_asn1_element_def cbs_get_any_asn1_element_def der_length_0x80)
      moreover have "cbs = ber_indef tag @ rest \<longleftrightarrow> tag = t \<and> rest = h"
      proof
        assume c: "cbs = ber_indef tag @ rest"
        then have "parse_asn1_tag cbs = (Some tag, 0x80 # rest)"
          using parse_tag_der [of tag "0x80 # rest"] assms by (simp add: ber_indef_def)
        then show "tag = t \<and> rest = h" using h1(1) \<open>h1 = b # h\<close> by simp
      qed (simp add: ber_indef_def cbs True)
      ultimately show ?thesis using True by (auto simp: ber_indef_def)
    qed
  qed
qed
lemma ber_read:
  assumes "length cbs < 2 ^ 64"
  shows "CBS_get_any_ber_asn1_element cbs = (Some (out, tag, hl), rest) \<longleftrightarrow>
    cbs = out @ rest \<and>
    ((\<exists>c. out = der tag c \<and> length c < 2 ^ 32 \<and> hl = of_nat (length (der_header tag c))) \<or>
     tag AND 0x20000000 \<noteq> 0 \<and> out = ber_indef tag \<and> hl = of_nat (length (ber_indef tag)))"
proof -
  have "CBS_get_any_asn1_element cbs = (Some (out, tag, hl), rest) \<longleftrightarrow>
      cbs = out @ rest \<and> (\<exists>c. out = der tag c \<and> length c < 2 ^ 32 \<and> hl = of_nat (length (der_header tag c)))"
    using element_Some [OF _ assms] element_der assms by fastforce
  then show ?thesis using ber_element_iff [OF assms] by blast
qed

text \<open>Every element read takes bytes, whatever the length of the input.\<close>

lemma get_u8_consumes: "CBS_get_u8 cbs = (Some b, rest) \<Longrightarrow> cbs \<noteq> [] \<and> rest = drop 1 cbs"
  by (auto simp: CBS_get_u8_def bindo_eq_Some_iff cbs_get_def CBS_len_def split: if_splits)

lemma parse_tag_consumes:
  assumes "parse_asn1_tag cbs = (Some tag, rest)"
  shows "\<exists>k. 1 \<le> k \<and> k \<le> 12 \<and> k \<le> length cbs \<and> rest = drop k cbs"
proof -
  obtain b r where b: "CBS_get_u8 cbs = (Some b, r)"
    and r: "rest = r \<or> (\<exists>v. parse_base128_integer r = (Some v, rest))"
    using assms by (auto simp: parse_asn1_tag_def bindo_eq_Some_iff Let_def split: if_splits)
  from b have c: "cbs \<noteq> []" "r = drop 1 cbs" using get_u8_consumes by blast+
  from r show ?thesis
  proof
    assume "rest = r"
    then show ?thesis using c by (intro exI [of _ 1]) (simp add: Suc_le_eq)
  next
    assume "\<exists>v. parse_base128_integer r = (Some v, rest)"
    then obtain v where "r = base128 v @ rest" using parse_base128_iff by blast
    then have e: "drop 1 cbs = base128 v @ rest" using c(2) by simp
    then have "length cbs - 1 = length (base128 v) + length rest" by (metis length_append length_drop)
    moreover have "rest = drop (1 + length (base128 v)) cbs"
    proof -
      have "drop (length (base128 v)) (drop 1 cbs) = rest" using e by simp
      then show ?thesis by (simp add: List.drop_drop)
    qed
    ultimately show ?thesis
      using length_base128 [of v] c(1) by (intro exI [of _ "1 + length (base128 v)"]) auto
  qed
qed

lemma element_length_pos:
  assumes "asn1_element_length ber_ok tag (of_nat k) b h = Some (len, hl)" "2 \<le> k" "k \<le> 20"
  shows "len \<noteq> 0"
proof -
  have k: "unat (of_nat k :: u64) = k" using assms(3) by (intro small_of_nat) simp
  consider (Short) "len = ucast b + of_nat k" | (Indef) "len = of_nat k"
    | (Long) n m where "len = n + (of_nat k + m)" "\<not> n < 128" "\<not> n + of_nat k + m < n"
    using assms(1) by (auto simp: asn1_element_length_def Let_def split: if_splits option.splits)
  then show ?thesis
  proof cases
    case Short
    have "unat (ucast b :: u64) + k < 276" using unat_u8_lt [of b] assms(3) by (simp del: unat_u8_lt)
    also have "\<dots> < 2 ^ 64" by simp
    finally have "unat (ucast b :: u64) + k < 2 ^ 64" .
    then have "unat len = unat b + k" using k by (simp add: Short unat_add_lem [THEN iffD1])
    then show ?thesis using assms(2) by auto
  next
    case Indef
    then show ?thesis using k assms(2) by auto
  next
    case Long
    then have "n \<le> len" by (simp add: add.assoc)
    then show ?thesis using Long(2) by (auto simp: word_le_nat_alt word_less_nat_alt)
  qed
qed

lemma element_progress:
  assumes "cbs_get_any_asn1_element ber_ok cbs = (Some (out, tag, hl), rest)"
  shows "length rest < length cbs"
proof -
  obtain b h len where p: "bindo parse_asn1_tag (\<lambda>tag. bindo CBS_get_u8 (\<lambda>lb. reto (tag, lb))) cbs = (Some (tag, b), h)"
    and el: "asn1_element_length ber_ok tag (CBS_len cbs - CBS_len h) b h = Some (len, hl)"
    and get: "CBS_get_bytes len cbs = (Some out, rest)"
    using assms unfolding cbs_get_any_asn1_element_def
    by (auto simp: bindo_eq_Some_iff split: prod.splits option.splits)
  obtain h1 where h1: "parse_asn1_tag cbs = (Some tag, h1)" "CBS_get_u8 h1 = (Some b, h)"
    using p by (auto simp: bindo_eq_Some_iff)
  obtain k where k: "1 \<le> k" "k \<le> 12" "k \<le> length cbs" "h1 = drop k cbs" using parse_tag_consumes [OF h1(1)] by blast
  have h: "h = drop (k + 1) cbs" "k + 1 \<le> length cbs"
    using get_u8_consumes [OF h1(2)] k by (auto simp: Suc_le_eq)
  have "of_nat (length cbs) - of_nat (length cbs - (k + 1)) = (of_nat (k + 1) :: u64)"
    using h(2) by (simp add: of_nat_diff)
  then have "CBS_len cbs - CBS_len h = of_nat (k + 1)" by (simp add: CBS_len_def h(1))
  then have "len \<noteq> 0" using element_length_pos [of ber_ok tag "k + 1"] el k by simp
  moreover have "rest = drop (unat len) cbs"
    using get by (auto simp: CBS_get_bytes_def cbs_get_def bindo_eq_Some_iff split: if_splits)
  moreover have "cbs \<noteq> []" using h(2) by auto
  ultimately show ?thesis by (simp add: unat_gt_0)
qed

lemmas ber_progress = element_progress [where ber_ok = True, folded CBS_get_any_ber_asn1_element_def]

lemma get_asn1_progress: "CBS_get_asn1 tag cbs = (Some c, rest) \<Longrightarrow> length rest < length cbs"
  by (auto simp: CBS_get_asn1_def cbs_get_asn1_def bindo_eq_Some_iff skip_header_Some CBS_get_any_asn1_element_def
      dest: element_progress)

lemma ber_remains: "CBS_get_any_ber_asn1_element cbs = (r, rest) \<Longrightarrow> length rest \<le> length cbs"
proof (cases r)
  case None
  assume "CBS_get_any_ber_asn1_element cbs = (r, rest)"
  then show ?thesis using None
    by (auto simp: CBS_get_any_ber_asn1_element_def cbs_get_any_asn1_element_def CBS_get_bytes_def cbs_get_def
        bindo_def split: prod.splits option.splits if_splits)
next
  case (Some e)
  assume "CBS_get_any_ber_asn1_element cbs = (r, rest)"
  then show ?thesis using ber_progress [of cbs "fst e" "fst (snd e)" "snd (snd e)" rest] Some by simp
qed

section \<open>The code\<close>

definition kMaxDepth :: nat where
  "kMaxDepth = 2048"

definition is_string_type :: "u32 \<Rightarrow> bool" where
  "is_string_type tag \<longleftrightarrow>
     tag AND NOT CBS_ASN1_CONSTRUCTED \<in> {0x3, 0x4, 0xC, 0x12, 0x13, 0x14, 0x15, 0x16, 0x19, 0x1A, 0x1B, 0x1C, 0x1E}"

definition is_indefinite :: "u64 \<Rightarrow> CBS \<Rightarrow> bool" where
  "is_indefinite header_len contents \<longleftrightarrow>
     CBS_len contents = header_len \<and> 0 < header_len \<and> contents ! (unat header_len - 1) = 0x80"

text \<open>
  The walk. \<open>ber_found\<close> is a pointer that all levels share: a nested call clears it and may set it,
  and the loop goes on with what it left there. The result is \<open>*ber_found\<close>, or \<open>None\<close> on an error.
\<close>

function ber_find_loop :: "nat \<Rightarrow> CBS \<Rightarrow> bool \<Rightarrow> bool option" where
  "ber_find_loop depth cin ber_found =
    (if CBS_len cin = 0 then Some ber_found
     else case CBS_get_any_ber_asn1_element cin of
       (None, _) \<Rightarrow> None
     | (Some (contents, tag, header_len), cin) \<Rightarrow>
         if is_indefinite header_len contents then Some True
         else if tag AND CBS_ASN1_CONSTRUCTED \<noteq> 0 then
           if is_string_type tag then Some True
           else (case CBS_skip header_len contents of
                   (None, _) \<Rightarrow> None
                 | (Some _, contents) \<Rightarrow>
                     (case (if kMaxDepth < depth + 1 then None else ber_find_loop (depth + 1) contents False) of
                        None \<Rightarrow> None
                      | Some ber_found \<Rightarrow> ber_find_loop depth cin ber_found))
         else ber_find_loop depth cin ber_found)"
  by pat_completeness auto

termination
  by (relation "measures [\<lambda>(depth, cin, b). kMaxDepth - depth, \<lambda>(depth, cin, b). length cin]")
    (auto dest: sym [THEN ber_progress] simp: kMaxDepth_def)

declare ber_find_loop.simps [simp del]

definition cbs_find_ber :: "CBS \<Rightarrow> nat \<Rightarrow> bool option" where
  "cbs_find_ber orig_in depth = (if kMaxDepth < depth then None else ber_find_loop depth orig_in False)"

definition is_eoc :: "u64 \<Rightarrow> CBS \<Rightarrow> bool" where
  "is_eoc header_len contents \<longleftrightarrow> header_len = 2 \<and> CBS_len contents = 2 \<and> take 2 contents = [0, 0]"

text \<open>Where the contents of an element go: the builder and the string tag for its children.\<close>

definition convert_target :: "cbb_env \<Rightarrow> nat \<Rightarrow> u32 \<Rightarrow> u32 \<Rightarrow> CBB \<Rightarrow> (CBB, nat \<times> u32) outcome" where
  "convert_target env h string_tag tag =
     (if string_tag \<noteq> 0 then
        (if tag AND NOT CBS_ASN1_CONSTRUCTED \<noteq> string_tag then failo else reto (h, string_tag))
      else
        let constructed_string = (tag AND CBS_ASN1_CONSTRUCTED \<noteq> 0 \<and> is_string_type tag);
            out_tag = (if constructed_string then tag AND NOT CBS_ASN1_CONSTRUCTED else tag)
        in bindo (CBB_add_asn1 env h out_tag)
             (\<lambda>_. reto (h + 1, if constructed_string then out_tag else string_tag)))"

text \<open>An iteration of the loop; the end of the loop body is the next one.\<close>

function cbs_convert_ber :: "cbb_env \<Rightarrow> u32 \<Rightarrow> bool \<Rightarrow> nat \<Rightarrow> nat \<Rightarrow> CBS \<Rightarrow> CBB \<Rightarrow> unit option \<times> CBS \<times> CBB" where
  "cbs_convert_ber env string_tag looking_for_eoc depth h cin out =
    (if kMaxDepth < depth then (None, cin, out)
     else if CBS_len cin = 0 then (if looking_for_eoc then None else Some (), cin, out)
     else case CBS_get_any_ber_asn1_element cin of
       (None, cin) \<Rightarrow> (None, cin, out)
     | (Some (contents, tag, header_len), cin) \<Rightarrow>
         if is_eoc header_len contents then (if looking_for_eoc then Some () else None, cin, out)
         else case convert_target env h string_tag tag out of
           (None, out) \<Rightarrow> (None, cin, out)
         | (Some (child, child_string_tag), out) \<Rightarrow>
             (case (if is_indefinite header_len contents
                    then cbs_convert_ber env child_string_tag True (depth + 1) child cin out
                    else case CBS_skip header_len contents of
                      (None, _) \<Rightarrow> (None, cin, out)
                    | (Some _, contents) \<Rightarrow>
                        (case (if tag AND CBS_ASN1_CONSTRUCTED \<noteq> 0
                               then (case cbs_convert_ber env child_string_tag False (depth + 1) child contents out of
                                       (r, _, out) \<Rightarrow> (r, out))
                               else CBB_add_bytes env child contents out) of
                           (r, out) \<Rightarrow> (r, cin, out))) of
                (None, cin, out) \<Rightarrow> (None, cin, out)
              | (Some _, cin, out) \<Rightarrow>
                  (case CBB_flush env h out of
                     (None, out) \<Rightarrow> (None, cin, out)
                   | (Some _, out) \<Rightarrow> cbs_convert_ber env string_tag looking_for_eoc depth h cin out)))"
  by pat_completeness auto


lemma convert_remains:
  "cbs_convert_ber_dom (env, st, eoc, d, h, cin, out) \<Longrightarrow>
     cbs_convert_ber env st eoc d h cin out = (r, cin', out') \<Longrightarrow> length cin' \<le> length cin"
proof (induction env st eoc d h cin out arbitrary: r cin' out' rule: cbs_convert_ber.pinduct)
  case (1 env st eoc d h cin out)
  note res = 1(5) [unfolded cbs_convert_ber.psimps [OF 1(1)]]
  obtain e c1 where e: "CBS_get_any_ber_asn1_element cin = (e, c1)" by fastforce
  show ?case
  proof (cases "kMaxDepth < d \<or> CBS_len cin = 0 \<or> e = None")
    case True
    then show ?thesis using res ber_remains [OF e] e by (auto split: if_splits)
  next
    case False
    then obtain contents tag hl where go: "\<not> kMaxDepth < d" "CBS_len cin \<noteq> 0" "e = Some (contents, tag, hl)" by auto
    obtain tg o1 where tg: "convert_target env h st tag out = (tg, o1)" by fastforce
    show ?thesis
    proof (cases "is_eoc hl contents \<or> tg = None")
      case True
      then show ?thesis using res ber_remains [OF e] e go tg by (auto split: if_splits)
    next
      case False
      then obtain ch st' where go2: "\<not> is_eoc hl contents" "tg = Some (ch, st')" by auto
      define body where "body = (if is_indefinite hl contents
                    then cbs_convert_ber env st' True (d + 1) ch c1 o1
                    else case CBS_skip hl contents of
                      (None, _) \<Rightarrow> (None, c1, o1)
                    | (Some _, contents) \<Rightarrow>
                        (case (if tag AND CBS_ASN1_CONSTRUCTED \<noteq> 0
                               then (case cbs_convert_ber env st' False (d + 1) ch contents o1 of
                                       (r, _, out) \<Rightarrow> (r, out))
                               else CBB_add_bytes env ch contents o1) of
                           (r, out) \<Rightarrow> (r, c1, out)))"
      obtain x c2 o2 where b: "body = (x, c2, o2)" by (cases body) auto
      have le: "length c2 \<le> length c1"
      proof (cases "is_indefinite hl contents")
        case True
        then have "cbs_convert_ber env st' True (d + 1) ch c1 o1 = (x, c2, o2)" using b by (simp add: body_def)
        then show ?thesis
          by (rule 1(2) [OF go(1,2) e [symmetric] go(3) refl refl go2(1) tg [symmetric] go2(2) refl True])
      next
        case False
        then have "c2 = c1" using b by (auto simp: body_def split: prod.splits option.splits)
        then show ?thesis by simp
      qed
      obtain y o3 where f: "CBB_flush env h o2 = (y, o3)" by fastforce
      have res': "(case body of (None, cin, out) \<Rightarrow> (None, cin, out)
          | (Some _, cin, out) \<Rightarrow> (case CBB_flush env h out of (None, out) \<Rightarrow> (None, cin, out)
              | (Some _, out) \<Rightarrow> cbs_convert_ber env st eoc d h cin out)) = (r, cin', out')"
        using res go go2 e tg by (simp add: body_def)
      have "length cin' \<le> length c2"
      proof (cases "x = None \<or> y = None")
        case True
        then show ?thesis using res' b f by (auto split: option.splits)
      next
        case False
        then have "x = Some ()" "y = Some ()" by auto
        moreover then have "cbs_convert_ber env st eoc d h c2 o3 = (r, cin', out')" using res' b f by simp
        ultimately show ?thesis
          by (intro 1(4) [OF go(1,2) e [symmetric] go(3) refl refl go2(1) tg [symmetric] go2(2) refl
                b [symmetric, unfolded body_def] _ refl f [symmetric]]) auto
      qed
      then show ?thesis using le ber_remains [OF e] by simp
    qed
  qed
qed

termination cbs_convert_ber
  apply (relation "measures [\<lambda>(env, st, eoc, d, h, cin, out). kMaxDepth + 1 - d, \<lambda>(env, st, eoc, d, h, cin, out). length cin]")
  subgoal by simp
  subgoal by (simp add: Suc_diff_le)
  subgoal by (simp add: Suc_diff_le)
  subgoal for env st eoc d h cin out x c1 e contents y tag hl tg o1 t ch st' b cb r c2 o2 f o3 u
  proof (clarsimp, goal_cases)
    case 1
    have "length c2 \<le> length c1"
    proof (cases "is_indefinite hl contents")
      case True
      then show ?thesis using 1 by (auto dest: convert_remains [OF _ sym])
    next
      case False
      then show ?thesis using 1(8-10) by (auto split: prod.splits option.splits if_splits)
    qed
    then show ?case using ber_progress [OF 1(3) [symmetric]] by simp
  qed
  done

declare cbs_convert_ber.simps [simp del]

text \<open>
  The result is \<open>out\<close> and whether \<open>*out_storage\<close> was set; \<open>*in\<close> is the state. \<open>base_ok\<close> says whether the
  allocation of the builder succeeds.
\<close>

definition CBS_asn1_ber_to_der :: "cbb_env \<Rightarrow> bool \<Rightarrow> CBS \<Rightarrow> (CBS, CBS \<times> bool) outcome" where
  "CBS_asn1_ber_to_der env base_ok cin =
     (case cbs_find_ber cin 0 of
        None \<Rightarrow> (None, cin)
      | Some conversion_needed \<Rightarrow>
          if \<not> conversion_needed
          then bindo CBS_get_any_asn1_element (\<lambda>(out, _, _). reto (out, False)) cin
          else case CBB_init env base_ok (CBS_len cin) of
            None \<Rightarrow> (None, cin)
          | Some cbb \<Rightarrow>
              (case cbs_convert_ber env 0 False 0 0 cin cbb of
                 (None, cin, _) \<Rightarrow> (None, cin)
               | (Some _, cin, cbb) \<Rightarrow>
                   (case CBB_finish env 0 True cbb of
                      (None, _) \<Rightarrow> (None, cin)
                    | (Some (out_storage, len), _) \<Rightarrow> (Some (take (unat len) out_storage, True), cin))))"

text \<open>The loop over the chunks of a constructed string.\<close>

function add_chunks :: "cbb_env \<Rightarrow> u32 \<Rightarrow> CBS \<Rightarrow> CBB \<Rightarrow> (CBB, unit) outcome" where
  "add_chunks env inner_tag child cbb =
     (if CBS_len child = 0 then (Some (), cbb)
      else case CBS_get_asn1 inner_tag child of
        (None, _) \<Rightarrow> (None, cbb)
      | (Some chunk, child) \<Rightarrow> bindo (CBB_add_bytes env 0 chunk) (\<lambda>_. add_chunks env inner_tag child) cbb)"
  by pat_completeness auto
termination
  by (relation "measure (\<lambda>(env, inner_tag, child, cbb). length child)") (auto dest: sym [THEN get_asn1_progress])

declare add_chunks.simps [simp del]

definition CBS_get_asn1_implicit_string :: "cbb_env \<Rightarrow> bool \<Rightarrow> u32 \<Rightarrow> u32 \<Rightarrow> CBS \<Rightarrow> (CBS, CBS \<times> bool) outcome" where
  "CBS_get_asn1_implicit_string env base_ok outer_tag inner_tag cin =
     (if CBS_peek_asn1_tag outer_tag cin
      then bindo (CBS_get_asn1 outer_tag) (\<lambda>out. reto (out, False)) cin
      else case CBB_init env base_ok (CBS_len cin) of
        None \<Rightarrow> (None, cin)
      | Some result \<Rightarrow>
          bindo (CBS_get_asn1 (outer_tag OR CBS_ASN1_CONSTRUCTED)) (\<lambda>child cin.
            case bindo (add_chunks env inner_tag child) (\<lambda>_. CBB_finish env 0 True) result of
              (None, _) \<Rightarrow> (None, cin)
            | (Some (data, len), _) \<Rightarrow> (Some (take (unat len) data, True), cin)) cin)"

end
