(* ===== verification/BerSpec.thy ===== *)
theory BerSpec
  imports Ber
begin

text \<open>
  BER values as trees, their encoding, and the conversion to DER as a function on trees.
  \<open>cbs_convert_ber\<close> implements that function on the bytes.
\<close>

section \<open>Trees\<close>

datatype ber = Prim u32 bytes | Constructed u32 "ber list" | Indef u32 "ber list"

fun ber_bytes :: "ber \<Rightarrow> bytes" where
  "ber_bytes (Prim t c) = der t c"
| "ber_bytes (Constructed t ks) = der t (concat (map ber_bytes ks))"
| "ber_bytes (Indef t ks) = ber_indef t @ concat (map ber_bytes ks) @ [0, 0]"

abbreviation (input) bers_bytes :: "ber list \<Rightarrow> bytes" where
  "bers_bytes ts \<equiv> concat (map ber_bytes ts)"

text \<open>The constructor agrees with the tag, and no value looks like the end-of-contents octets.\<close>

fun ber_ok :: "ber \<Rightarrow> bool" where
  "ber_ok (Prim t c) \<longleftrightarrow> t AND CBS_ASN1_CONSTRUCTED = 0 \<and> (t, c) \<noteq> (0, [])"
| "ber_ok (Constructed t ks) \<longleftrightarrow> t AND CBS_ASN1_CONSTRUCTED \<noteq> 0 \<and> list_all ber_ok ks"
| "ber_ok (Indef t ks) \<longleftrightarrow> t AND CBS_ASN1_CONSTRUCTED \<noteq> 0 \<and> list_all ber_ok ks"

fun nesting :: "ber \<Rightarrow> nat" where
  "nesting (Prim t c) = 0"
| "nesting (Constructed t ks) = Suc (foldr max (map nesting ks) 0)"
| "nesting (Indef t ks) = Suc (foldr max (map nesting ks) 0)"

text \<open>All results, or none.\<close>

fun collect :: "'a option list \<Rightarrow> 'a list option" where
  "collect [] = Some []"
| "collect (x # xs) = (case x of None \<Rightarrow> None | Some v \<Rightarrow> map_option ((#) v) (collect xs))"

text \<open>The value of a string in fragments of tag \<open>s\<close>, and the DER form of a tree.\<close>

fun fragments :: "u32 \<Rightarrow> ber \<Rightarrow> bytes option" where
  "fragments s (Prim t c) = (if t = s then Some c else None)"
| "fragments s (Constructed t ks) =
     (if t AND NOT CBS_ASN1_CONSTRUCTED = s then map_option concat (collect (map (fragments s) ks)) else None)"
| "fragments s (Indef t ks) =
     (if t AND NOT CBS_ASN1_CONSTRUCTED = s then map_option concat (collect (map (fragments s) ks)) else None)"

definition joined :: "u32 \<Rightarrow> ber list \<Rightarrow> ber option" where
  "joined t ks =
     (let s = t AND NOT CBS_ASN1_CONSTRUCTED
      in map_option (\<lambda>bs. Prim s (concat bs)) (collect (map (fragments s) ks)))"

fun to_der :: "ber \<Rightarrow> ber option" where
  "to_der (Prim t c) = Some (Prim t c)"
| "to_der (Constructed t ks) =
     (if is_string_type t then joined t ks else map_option (Constructed t) (collect (map to_der ks)))"
| "to_der (Indef t ks) =
     (if is_string_type t then joined t ks else map_option (Constructed t) (collect (map to_der ks)))"

text \<open>What a tree contributes to the output, inside a string of tag \<open>s\<close> or (\<open>s = 0\<close>) outside.\<close>

definition contribution :: "u32 \<Rightarrow> ber \<Rightarrow> bytes option" where
  "contribution s t = (if s = 0 then map_option ber_bytes (to_der t) else fragments s t)"

definition contributions :: "u32 \<Rightarrow> ber list \<Rightarrow> bytes option" where
  "contributions s ts = map_option concat (collect (map (contribution s) ts))"

lemma contributions_simps [simp]:
  "contributions s [] = Some []"
  "contributions s (t # ts) =
    (case contribution s t of None \<Rightarrow> None | Some x \<Rightarrow> map_option ((@) x) (contributions s ts))"
  by (simp_all add: contributions_def option.map_comp comp_def split: option.splits)

lemma collect_map_option: "collect (map (\<lambda>x. map_option f (g x)) xs) = map_option (map f) (collect (map g xs))"
  by (induction xs) (simp_all add: option.map_comp comp_def split: option.splits)

lemma contributions_string:
  assumes "s \<noteq> 0"
  shows "contributions s ts = map_option concat (collect (map (fragments s) ts))"
proof -
  have "contribution s = fragments s" using assms by (intro ext) (simp add: contribution_def)
  then show ?thesis by (simp add: contributions_def)
qed

lemma contributions_trees: "contributions 0 ts = map_option (\<lambda>ts. bers_bytes ts) (collect (map to_der ts))"
proof -
  have "contribution 0 = (\<lambda>t. map_option ber_bytes (to_der t))" by (intro ext) (simp add: contribution_def)
  then show ?thesis by (simp add: contributions_def collect_map_option option.map_comp comp_def)
qed

text \<open>The recursion as the code has it: the tag of the output element, and the string tag of the children.\<close>

lemma string_type_nonzero: "is_string_type t \<Longrightarrow> t AND NOT CBS_ASN1_CONSTRUCTED \<noteq> 0"
  by (auto simp: is_string_type_def)

definition kids_contribution :: "u32 \<Rightarrow> u32 \<Rightarrow> ber list \<Rightarrow> bytes option" where
  "kids_contribution s t ks =
     (if s \<noteq> 0 then (if t AND NOT CBS_ASN1_CONSTRUCTED = s then contributions s ks else None)
      else if is_string_type t
        then map_option (der (t AND NOT CBS_ASN1_CONSTRUCTED)) (contributions (t AND NOT CBS_ASN1_CONSTRUCTED) ks)
      else map_option (der t) (contributions 0 ks))"

lemma contribution_kids:
  "contribution s (Constructed t ks) = kids_contribution s t ks" "contribution s (Indef t ks) = kids_contribution s t ks"
  by (auto simp: contribution_def kids_contribution_def contributions_string [OF string_type_nonzero]
      contributions_string contributions_trees joined_def Let_def option.map_comp comp_def dest: string_type_nonzero)

section \<open>Reading a tree's first element\<close>

lemma der_eq_iff:
  assumes "length (der t c @ r) < 2 ^ 64" "length c < 2 ^ 32" "length c' < 2 ^ 32" "der t c @ r = der t' c' @ r'"
  shows "t = t' \<and> c = c' \<and> r = r'"
proof -
  have "CBS_get_any_asn1 (der t c @ r) = (Some (c, t), r)" using get_any_asn1_iff [OF assms(1)] assms(2) by blast
  moreover have "CBS_get_any_asn1 (der t c @ r) = (Some (c', t'), r')" using get_any_asn1_iff [OF assms(1)] assms(3,4) by simp
  ultimately show ?thesis by simp
qed

lemma der_eoc: "der 0 [] = [0, 0]"
  by (simp add: der_def der_header_def der_tag_def der_length_def)

lemma length_header: "length c < 2 ^ 32 \<Longrightarrow> unat (of_nat (length (der_header t c)) :: u64) = length (der_header t c)"
  using length_der_tag [of t] length_der_length [of "of_nat (length c)"]
  by (intro small_of_nat) (simp add: der_header_def small_of_nat)

lemma der_not_indefinite:
  assumes "length c < 2 ^ 32"
  shows "\<not> is_indefinite (of_nat (length (der_header t c))) (der t c)"
proof
  assume i: "is_indefinite (of_nat (length (der_header t c))) (der t c)"
  have n: "length (der_header t c) + length c < 2 ^ 64"
    using assms length_der_tag [of t] length_der_length [of "of_nat (length c)"]
    by (simp add: der_header_def small_of_nat)
  then have "unat (CBS_len (der t c)) = length (der_header t c) + length c"
    by (simp add: CBS_len_def der_def unat_of_nat del: of_nat_add)
  then have "c = []" using i length_header [OF assms, of t] by (auto simp: is_indefinite_def)
  then have "der t c = der_tag t @ [0]" "der_header t c = der_tag t @ [0]" by (simp_all add: der_def der_header_def der_length_def)
  then show False using i length_header [OF assms, of t] by (simp add: is_indefinite_def nth_append)
qed

lemma indef_is_indefinite: "is_indefinite (of_nat (length (ber_indef t))) (ber_indef t)"
proof -
  have n: "unat (of_nat (length (ber_indef t)) :: u64) = length (ber_indef t)"
    using length_der_tag [of t] by (intro small_of_nat) (simp add: ber_indef_def)
  then have "(of_nat (length (ber_indef t)) :: u64) \<noteq> 0" by (auto simp: ber_indef_def)
  then show ?thesis using n by (simp add: is_indefinite_def CBS_len_def ber_indef_def nth_append word_gt_0)
qed

lemma is_eoc_iff: "is_eoc hl out \<Longrightarrow> length out < 2 ^ 64 \<Longrightarrow> out = [0, 0]"
proof -
  assume e: "is_eoc hl out" "length out < 2 ^ 64"
  then have "unat (CBS_len out) = 2" by (simp add: is_eoc_def)
  then have "length out = 2" using e(2) by (simp add: CBS_len_def unat_of_nat)
  then show ?thesis using e(1) by (simp add: is_eoc_def)
qed

lemma skip_der: "length (der t c) < 2 ^ 64 \<Longrightarrow> length c < 2 ^ 32 \<Longrightarrow>
    CBS_skip (of_nat (length (der_header t c))) (der t c) = (Some (), c)"
  using length_header [of c t] by (simp add: CBS_skip_def cbs_get_eq bindo_def der_def)

lemma not_constructed: "t AND CBS_ASN1_CONSTRUCTED = 0 \<Longrightarrow> t AND NOT CBS_ASN1_CONSTRUCTED = (t :: u32)"
proof (rule bit_word_eqI)
  fix n assume t: "t AND CBS_ASN1_CONSTRUCTED = 0" and n: "n < LENGTH(32)"
  have "\<not> bit (t AND CBS_ASN1_CONSTRUCTED) n" unfolding t by simp
  then show "bit (t AND NOT CBS_ASN1_CONSTRUCTED) n = bit t n"
    using n unfolding bit_and_iff bit_not_iff by auto
qed

lemma nesting_bound: "foldr max (map nesting ks) 0 \<le> n \<longleftrightarrow> (\<forall>k \<in> set ks. nesting k \<le> n)"
  by (induction ks) auto

text \<open>The first element of what the reader accepts.\<close>

lemma ber_element_cases:
  assumes "CBS_get_any_ber_asn1_element cin = (Some (out, tag, hl), c1)" "length cin < 2 ^ 64"
  obtains (Definite) c where "cin = der tag c @ c1" "out = der tag c" "length c < 2 ^ 32"
      "\<not> is_indefinite hl out" "CBS_skip hl out = (Some (), c)" "is_eoc hl out \<longleftrightarrow> tag = 0 \<and> c = []"
  | (Indefinite) "cin = ber_indef tag @ c1" "out = ber_indef tag" "tag AND CBS_ASN1_CONSTRUCTED \<noteq> 0"
      "is_indefinite hl out" "\<not> is_eoc hl out"
proof -
  have cin: "cin = out @ c1" and
    cases: "(\<exists>c. out = der tag c \<and> length c < 2 ^ 32 \<and> hl = of_nat (length (der_header tag c))) \<or>
      tag AND CBS_ASN1_CONSTRUCTED \<noteq> 0 \<and> out = ber_indef tag \<and> hl = of_nat (length (ber_indef tag))"
    using assms(1) unfolding ber_read [OF assms(2)] by auto
  have short: "length out < 2 ^ 64" using assms(2) cin by simp
  from cases show thesis
  proof
    assume "\<exists>c. out = der tag c \<and> length c < 2 ^ 32 \<and> hl = of_nat (length (der_header tag c))"
    then obtain c where c: "out = der tag c" "length c < 2 ^ 32" "hl = of_nat (length (der_header tag c))" by blast
    have "is_eoc hl out \<longleftrightarrow> tag = 0 \<and> c = []"
    proof
      assume "is_eoc hl out"
      then have "der tag c @ [] = der 0 [] @ []" using is_eoc_iff [OF _ short] c(1) der_eoc by simp
      then show "tag = 0 \<and> c = []" using der_eq_iff [of tag c "[]" "[]" 0 "[]"] short c(1,2) by simp
    next
      assume z: "tag = 0 \<and> c = []"
      then have "der_header tag c = [0, 0]" using der_eoc by (simp add: der_def)
      then show "is_eoc hl out" using z c der_eoc by (simp add: is_eoc_def CBS_len_def)
    qed
    then show thesis using Definite [of c] c cin skip_der short der_not_indefinite by simp
  next
    assume i: "tag AND CBS_ASN1_CONSTRUCTED \<noteq> 0 \<and> out = ber_indef tag \<and> hl = of_nat (length (ber_indef tag))"
    then have "\<not> is_eoc hl out" using is_eoc_iff [OF _ short] by (auto simp: ber_indef_def)
    then show thesis using Indefinite i cin indef_is_indefinite by simp
  qed
qed

text \<open>The string tag that \<open>convert_target\<close> passes to the children.\<close>

definition child_string :: "u32 \<Rightarrow> u32 \<Rightarrow> u32" where
  "child_string s tag =
     (if s = 0 \<and> tag AND CBS_ASN1_CONSTRUCTED \<noteq> 0 \<and> is_string_type tag then tag AND NOT CBS_ASN1_CONSTRUCTED else s)"

lemma convert_target_Some:
  assumes "convert_target env h s tag out = (Some (ch, s'), out')"
  shows "s' = child_string s tag" "s \<noteq> 0 \<Longrightarrow> tag AND NOT CBS_ASN1_CONSTRUCTED = s"
  using assms by (auto simp: convert_target_def child_string_def bindo_eq_Some_iff Let_def split: if_splits)

lemma kids_defined:
  "contributions (child_string s tag) ks \<noteq> None \<Longrightarrow> tag AND CBS_ASN1_CONSTRUCTED \<noteq> 0 \<Longrightarrow>
     (s \<noteq> 0 \<longrightarrow> tag AND NOT CBS_ASN1_CONSTRUCTED = s) \<Longrightarrow> kids_contribution s tag ks \<noteq> None"
  by (auto simp: kids_contribution_def child_string_def split: if_splits)

lemma nesting_Suc: "d + 1 \<le> kMaxDepth \<Longrightarrow> \<forall>k \<in> set ks. d + 1 + nesting k \<le> kMaxDepth \<Longrightarrow>
    d + nesting (Constructed t ks) \<le> kMaxDepth \<and> d + nesting (Indef t ks) \<le> kMaxDepth"
  using nesting_bound [of ks "kMaxDepth - (d + 1)"] by (auto simp: le_diff_conv2)

lemma nesting_within: "d + nesting (Constructed t ks) \<le> kMaxDepth \<or> d + nesting (Indef t ks) \<le> kMaxDepth \<Longrightarrow>
    d + 1 \<le> kMaxDepth \<and> (\<forall>k \<in> set ks. d + 1 + nesting k \<le> kMaxDepth)"
  using nesting_bound [of ks "kMaxDepth - (d + 1)"] by (auto simp: le_diff_conv2)

lemma convert_depth: "cbs_convert_ber env s eoc d h cin out = (Some (), r) \<Longrightarrow> d \<le> kMaxDepth"
  by (subst (asm) cbs_convert_ber.simps) (auto split: if_splits)

lemma convert_accepts:
  "cbs_convert_ber env s eoc d h cin out = (Some (), cin', out') \<Longrightarrow> length cin < 2 ^ 64 \<Longrightarrow>
     \<exists>ts. list_all ber_ok ts \<and> cin = bers_bytes ts @ (if eoc then [0, 0] @ cin' else []) \<and> (\<not> eoc \<longrightarrow> cin' = []) \<and>
       (\<forall>t \<in> set ts. d + nesting t \<le> kMaxDepth) \<and> contributions s ts \<noteq> None"
proof (induction env s eoc d h cin out arbitrary: cin' out' rule: cbs_convert_ber.induct)
  case (1 env s eoc d h cin out)
  note res = 1(4) [unfolded cbs_convert_ber.simps [of env s eoc d h cin out]]
  have d: "\<not> kMaxDepth < d" using res by (auto split: if_splits)
  show ?case
  proof (cases "CBS_len cin = 0")
    case True
    then have "cin = []" using 1(5) by (simp add: CBS_len_def unat_of_nat flip: unat_eq_zero)
    then show ?thesis using res True d by (intro exI [of _ "[]"]) (auto split: if_splits)
  next
    case go: False
    obtain contents tag hl c1 where e: "CBS_get_any_ber_asn1_element cin = (Some (contents, tag, hl), c1)"
      using res d go by (auto split: prod.splits option.splits)
    show ?thesis
    proof (cases "is_eoc hl contents")
      case True
      then have "eoc" "cin' = c1" using res d go e by (auto split: if_splits)
      moreover have "cin = [0, 0] @ c1"
        using e 1(5) by (rule ber_element_cases) (use True der_eoc in auto)
      ultimately show ?thesis by (intro exI [of _ "[]"]) simp
    next
      case eo: False
      obtain ch s' o1 where tg: "convert_target env h s tag out = (Some (ch, s'), o1)"
        using res d go e eo by (auto split: prod.splits option.splits)
      note s' = convert_target_Some [OF tg]
      define body where "body = (if is_indefinite hl contents
                    then cbs_convert_ber env s' True (d + 1) ch c1 o1
                    else case CBS_skip hl contents of
                      (None, _) \<Rightarrow> (None, c1, o1)
                    | (Some _, contents) \<Rightarrow>
                        (case (if tag AND CBS_ASN1_CONSTRUCTED \<noteq> 0
                               then (case cbs_convert_ber env s' False (d + 1) ch contents o1 of
                                       (r, _, out) \<Rightarrow> (r, out))
                               else CBB_add_bytes env ch contents o1) of
                           (r, out) \<Rightarrow> (r, c1, out)))"
      have res': "(case body of (None, cin, out) \<Rightarrow> (None, cin, out)
          | (Some _, cin, out) \<Rightarrow> (case CBB_flush env h out of (None, out) \<Rightarrow> (None, cin, out)
              | (Some _, out) \<Rightarrow> cbs_convert_ber env s eoc d h cin out)) = (Some (), cin', out')"
        using res d go e eo tg by (simp add: body_def)
      then obtain c2 o2 o3 where b: "body = (Some (), c2, o2)" and f: "CBB_flush env h o2 = (Some (), o3)"
        and loop: "cbs_convert_ber env s eoc d h c2 o3 = (Some (), cin', out')"
        by (auto split: prod.splits option.splits)
      have len: "length c1 < 2 ^ 64" using ber_progress [OF e] 1(5) by simp
      have "\<exists>t. ber_ok t \<and> cin = ber_bytes t @ c2 \<and> d + nesting t \<le> kMaxDepth \<and> contribution s t \<noteq> None"
        using e 1(5)
      proof (rule ber_element_cases)
        assume i: "cin = ber_indef tag @ c1" "tag AND CBS_ASN1_CONSTRUCTED \<noteq> 0" "is_indefinite hl contents"
        then have "cbs_convert_ber env s' True (d + 1) ch c1 o1 = (Some (), c2, o2)" using b by (simp add: body_def)
        from 1(1) [OF d go e [symmetric] refl refl refl eo tg [symmetric] refl refl i(3) this len]
        obtain ks where ks: "list_all ber_ok ks" "c1 = bers_bytes ks @ [0, 0] @ c2"
          "\<forall>t \<in> set ks. d + 1 + nesting t \<le> kMaxDepth" "contributions s' ks \<noteq> None"
          by auto
        have "d + nesting (Indef tag ks) \<le> kMaxDepth"
          using nesting_Suc [OF _ ks(3)] convert_depth i(3) b by (auto simp: body_def)
        then show ?thesis
          using i ks kids_defined [of s tag ks] s' by (intro exI [of _ "Indef tag ks"]) (simp add: contribution_kids)
      next
        fix c
        assume c: "cin = der tag c @ c1" "length c < 2 ^ 32" "\<not> is_indefinite hl contents"
          "CBS_skip hl contents = (Some (), c)" "is_eoc hl contents \<longleftrightarrow> tag = 0 \<and> c = []"
        show ?thesis
        proof (cases "tag AND CBS_ASN1_CONSTRUCTED = 0")
          case True
          then have "c2 = c1" using b c(3,4) by (auto simp: body_def split: prod.splits)
          moreover have "contribution s (Prim tag c) \<noteq> None"
            using s'(2) not_constructed [OF True] by (auto simp: contribution_def)
          ultimately show ?thesis using c(1,5) eo True d by (intro exI [of _ "Prim tag c"]) auto
        next
          case False
          then obtain r where r: "cbs_convert_ber env s' False (d + 1) ch c o1 = (Some (), r, o2)" "c2 = c1"
            using b c(3,4) by (auto simp: body_def split: prod.splits)
          have "length c < 2 ^ 64" using c(2) by simp
          from 1(2) [OF d go e [symmetric] refl refl refl eo tg [symmetric] refl refl c(3) c(4) [symmetric] refl False r(1) this]
          obtain ks where ks: "list_all ber_ok ks" "c = bers_bytes ks"
            "\<forall>t \<in> set ks. d + 1 + nesting t \<le> kMaxDepth" "contributions s' ks \<noteq> None"
            by auto
          have "d + nesting (Constructed tag ks) \<le> kMaxDepth" using nesting_Suc [OF convert_depth [OF r(1)] ks(3)] by blast
          then show ?thesis
            using False c r(2) ks kids_defined [of s tag ks] s' by (intro exI [of _ "Constructed tag ks"]) (simp add: contribution_kids)
        qed
      qed
      then obtain t where t: "ber_ok t" "cin = ber_bytes t @ c2" "d + nesting t \<le> kMaxDepth" "contribution s t \<noteq> None" by blast
      have "length c2 < 2 ^ 64" using 1(5) t(2) by simp
      from 1(3) [OF d go e [symmetric] refl refl refl eo tg [symmetric] refl refl b [symmetric, unfolded body_def] refl refl
          f [symmetric] refl loop this]
      obtain ts where "list_all ber_ok ts" "c2 = bers_bytes ts @ (if eoc then [0, 0] @ cin' else [])" "\<not> eoc \<longrightarrow> cin' = []"
        "\<forall>t \<in> set ts. d + nesting t \<le> kMaxDepth" "contributions s ts \<noteq> None"
        by blast
      then show ?thesis using t by (intro exI [of _ "t # ts"]) auto
    qed
  qed
qed

section \<open>Writing a tree\<close>

definition out_tag :: "u32 \<Rightarrow> u32" where
  "out_tag tag =
     (if tag AND CBS_ASN1_CONSTRUCTED \<noteq> 0 \<and> is_string_type tag then tag AND NOT CBS_ASN1_CONSTRUCTED else tag)"

definition wrapped :: "u32 \<Rightarrow> u32 \<Rightarrow> bytes \<Rightarrow> bytes" where
  "wrapped s tag content = (if s \<noteq> 0 then content else der (out_tag tag) content)"

lemma kids_Some:
  assumes "kids_contribution s tag ks = Some x" "tag AND CBS_ASN1_CONSTRUCTED \<noteq> 0"
  shows "\<exists>content. contributions (child_string s tag) ks = Some content \<and> x = wrapped s tag content \<and>
    (s \<noteq> 0 \<longrightarrow> tag AND NOT CBS_ASN1_CONSTRUCTED = s)"
  using assms by (auto simp: kids_contribution_def child_string_def wrapped_def out_tag_def split: if_splits)

lemma prim_Some:
  assumes "contribution s (Prim tag c) = Some x" "tag AND CBS_ASN1_CONSTRUCTED = 0"
  shows "x = wrapped s tag c \<and> (s \<noteq> 0 \<longrightarrow> tag AND NOT CBS_ASN1_CONSTRUCTED = s)"
  using assms not_constructed [OF assms(2)] by (auto simp: contribution_def wrapped_def out_tag_def split: if_splits)

lemma target_done:
  assumes "cbb_holds env (length (wrapped s tag content) + n) cbb root fs y" "length content \<le> 0xFFFFFFFE"
    and "s \<noteq> 0 \<longrightarrow> tag AND NOT CBS_ASN1_CONSTRUCTED = s"
  shows "\<exists>o1 root' fs' z m. convert_target env (length fs) s tag cbb = (Some (length fs', child_string s tag), o1) \<and>
    cbb_holds env (length content + m) o1 root' fs' z \<and>
    (\<forall>o2. cbb_holds env m o2 root' fs' (z @ content) \<longrightarrow>
       (\<exists>o3. CBB_flush env (length fs) o2 = (Some (), o3) \<and> cbb_holds env n o3 root fs (y @ wrapped s tag content)))"
proof (cases "s = 0")
  case True
  then obtain c1 root' fs' m where c1: "CBB_add_asn1 env (length fs) (out_tag tag) cbb = (Some (), c1)"
    "length fs' = Suc (length fs)" "cbb_holds env (length content + m) c1 root' fs' []"
    "\<forall>c2. cbb_holds env m c2 root' fs' content \<longrightarrow>
       (\<exists>c3. CBB_flush env (length fs) c2 = (Some (), c3) \<and> cbb_holds env n c3 root fs (y @ der (out_tag tag) content))"
    using open_element [of env "out_tag tag" content n cbb root fs y] assms by (auto simp: wrapped_def)
  have "convert_target env (length fs) s tag cbb = (Some (length fs', child_string s tag), c1)"
    using True c1(1,2) by (auto simp: convert_target_def child_string_def out_tag_def Let_def)
  then show ?thesis using c1 True
    by (intro exI [of _ c1] exI [of _ root'] exI [of _ fs'] exI [of _ "[]"] exI [of _ m]) (simp add: wrapped_def)
next
  case False
  have "convert_target env (length fs) s tag cbb = (Some (length fs, child_string s tag), cbb)"
    using False assms(3) by (simp add: convert_target_def child_string_def)
  moreover have "\<exists>o3. CBB_flush env (length fs) o2 = (Some (), o3) \<and> cbb_holds env n o3 root fs (y @ wrapped s tag content)"
    if "cbb_holds env n o2 root fs (y @ content)" for o2
    using CBB_flush_done [OF that] that False by (simp add: wrapped_def)
  ultimately show ?thesis using assms(1) False
    by (intro exI [of _ cbb] exI [of _ root] exI [of _ fs] exI [of _ y] exI [of _ n]) (simp add: wrapped_def)
qed

lemma ber_reads_der:
  assumes "length (der t c @ rest) < 2 ^ 64" "length c < 2 ^ 32"
  shows "CBS_get_any_ber_asn1_element (der t c @ rest) =
    (Some (der t c, t, of_nat (length (der_header t c))), rest)"
  by (rule ber_read [THEN iffD2]) (use assms in auto)

lemma ber_reads_indef:
  assumes "length (ber_indef t @ rest) < 2 ^ 64" "t AND CBS_ASN1_CONSTRUCTED \<noteq> 0"
  shows "CBS_get_any_ber_asn1_element (ber_indef t @ rest) = (Some (ber_indef t, t, of_nat (length (ber_indef t))), rest)"
  by (rule ber_read [THEN iffD2]) (use assms in auto)

lemma eoc_der: "is_eoc (of_nat (length (der_header t c))) (der t c) \<longleftrightarrow> t = 0 \<and> c = []"
  if "length (der t c) < 2 ^ 64" "length c < 2 ^ 32"
proof -
  have "length (der t c @ []) < 2 ^ 64" using that by simp
  from ber_reads_der [OF this that(2)] this show ?thesis
  proof (cases rule: ber_element_cases)
    case (Definite c')
    then show ?thesis using der_eq_iff [of t c "[]" c' t "[]"] that by auto
  next
    case Indefinite
    then have "is_indefinite (of_nat (length (der_header t c))) (der t c)" by blast
    then show ?thesis using der_not_indefinite [OF that(2)] by simp
  qed
qed

lemma eoc_indef: "\<not> is_eoc hl (ber_indef t)"
proof
  assume "is_eoc hl (ber_indef t)"
  moreover have "length (ber_indef t) < 2 ^ 64" using length_der_tag [of t] by (simp add: ber_indef_def)
  ultimately show False using is_eoc_iff by (fastforce simp: ber_indef_def)
qed

lemma convert_child_indef:
  assumes "length (ber_indef tag @ c1) < 2 ^ 64" "tag AND CBS_ASN1_CONSTRUCTED \<noteq> 0" "d \<le> kMaxDepth"
    and "convert_target env h s tag out = (Some (ch, s'), o1)"
    and "cbs_convert_ber env s' True (d + 1) ch c1 o1 = (Some (), c2, o2)" "CBB_flush env h o2 = (Some (), o3)"
  shows "cbs_convert_ber env s eoc d h (ber_indef tag @ c1) out = cbs_convert_ber env s eoc d h c2 o3"
proof -
  have "CBS_len (ber_indef tag @ c1) \<noteq> 0" using len_pos [OF assms(1)] by (simp add: ber_indef_def)
  then show ?thesis
    using assms ber_reads_indef [OF assms(1,2)] eoc_indef indef_is_indefinite
    by (subst cbs_convert_ber.simps) simp
qed

lemma convert_child_der:
  assumes "length (der tag c @ c1) < 2 ^ 64" "length c < 2 ^ 32" "(tag, c) \<noteq> (0, [])" "d \<le> kMaxDepth"
    and "convert_target env h s tag out = (Some (ch, s'), o1)"
    and "if tag AND CBS_ASN1_CONSTRUCTED \<noteq> 0
         then \<exists>r. cbs_convert_ber env s' False (d + 1) ch c o1 = (Some (), r, o2)
         else CBB_add_bytes env ch c o1 = (Some (), o2)"
    and "CBB_flush env h o2 = (Some (), o3)"
  shows "cbs_convert_ber env s eoc d h (der tag c @ c1) out = cbs_convert_ber env s eoc d h c1 o3"
proof -
  have l: "length (der tag c) < 2 ^ 64" using assms(1) by simp
  have "der tag c \<noteq> []" using length_der_tag [of tag] by (auto simp: der_def der_header_def)
  then have "CBS_len (der tag c @ c1) \<noteq> 0" using len_pos [OF assms(1)] by simp
  then show ?thesis
    using assms ber_reads_der [OF assms(1,2)] eoc_der [OF l assms(2)] der_not_indefinite [OF assms(2)] skip_der [OF l assms(2)]
    by (subst cbs_convert_ber.simps) (auto split: if_splits)
qed

lemma ber_bytes_not_Nil: "der tag c \<noteq> []"
  using length_der_tag [of tag] by (auto simp: der_def der_header_def)

text \<open>One element: it appends its contribution, and the rest of the input is left.\<close>

lemma prim_step:
  assumes "cbb_holds env (length x1 + n) cbb root fs y" "contribution s (Prim tag c) = Some x1" "ber_ok (Prim tag c)"
    and "length x1 \<le> 0xFFFFFFFE" "d \<le> kMaxDepth" "length (der tag c @ tail) < 2 ^ 64"
  shows "\<exists>o3. cbs_convert_ber env s eoc d (length fs) (der tag c @ tail) cbb = cbs_convert_ber env s eoc d (length fs) tail o3 \<and>
    cbb_holds env n o3 root fs (y @ x1)"
proof -
  have p: "x1 = wrapped s tag c" "s \<noteq> 0 \<longrightarrow> tag AND NOT CBS_ASN1_CONSTRUCTED = s" "tag AND CBS_ASN1_CONSTRUCTED = 0"
    "(tag, c) \<noteq> (0, [])"
    using prim_Some [OF assms(2)] assms(3) by auto
  have lc: "length c \<le> 0xFFFFFFFE" using assms(4) p(1) by (auto simp: wrapped_def der_def split: if_splits)
  obtain o1 root' fs' z m where o: "convert_target env (length fs) s tag cbb = (Some (length fs', child_string s tag), o1)"
    "cbb_holds env (length c + m) o1 root' fs' z"
    "\<And>o2. cbb_holds env m o2 root' fs' (z @ c) \<Longrightarrow>
      \<exists>o3. CBB_flush env (length fs) o2 = (Some (), o3) \<and> cbb_holds env n o3 root fs (y @ x1)"
    using target_done [OF assms(1) [unfolded p(1)] lc p(2)] unfolding p(1) by blast
  obtain o2 where o2: "CBB_add_bytes env (length fs') c o1 = (Some (), o2)" "cbb_holds env m o2 root' fs' (z @ c)"
    using add_bytes [OF o(2)] lc by auto
  obtain o3 where o3: "CBB_flush env (length fs) o2 = (Some (), o3)" "cbb_holds env n o3 root fs (y @ x1)"
    using o(3) [OF o2(2)] by blast
  have "length c < 2 ^ 32" using lc by simp
  from convert_child_der [OF assms(6) this p(4) assms(5) o(1) _ o3(1)] show ?thesis
    using o2(1) o3(2) p(3) by auto
qed

lemma cons_step:
  assumes "cbb_holds env (length (wrapped s tag content) + n) cbb root fs y" "length content \<le> 0xFFFFFFFE"
    and "s \<noteq> 0 \<longrightarrow> tag AND NOT CBS_ASN1_CONSTRUCTED = s" "tag AND CBS_ASN1_CONSTRUCTED \<noteq> 0"
    and "d \<le> kMaxDepth" "length (der tag c @ tail) < 2 ^ 64" "length c < 2 ^ 32"
    and kids: "\<And>m o1 root' fs' z. cbb_holds env (length content + m) o1 root' fs' z \<Longrightarrow>
      \<exists>o2. cbs_convert_ber env (child_string s tag) False (d + 1) (length fs') c o1 = (Some (), [], o2) \<and>
           cbb_holds env m o2 root' fs' (z @ content)"
  shows "\<exists>o3. cbs_convert_ber env s eoc d (length fs) (der tag c @ tail) cbb = cbs_convert_ber env s eoc d (length fs) tail o3 \<and>
    cbb_holds env n o3 root fs (y @ wrapped s tag content)"
proof -
  obtain o1 root' fs' z m where o: "convert_target env (length fs) s tag cbb = (Some (length fs', child_string s tag), o1)"
    "cbb_holds env (length content + m) o1 root' fs' z"
    "\<And>o2. cbb_holds env m o2 root' fs' (z @ content) \<Longrightarrow>
      \<exists>o3. CBB_flush env (length fs) o2 = (Some (), o3) \<and> cbb_holds env n o3 root fs (y @ wrapped s tag content)"
    using target_done [OF assms(1-3)] by blast
  obtain o2 where o2: "cbs_convert_ber env (child_string s tag) False (d + 1) (length fs') c o1 = (Some (), [], o2)"
    "cbb_holds env m o2 root' fs' (z @ content)"
    using kids [OF o(2)] by blast
  obtain o3 where o3: "CBB_flush env (length fs) o2 = (Some (), o3)" "cbb_holds env n o3 root fs (y @ wrapped s tag content)"
    using o(3) [OF o2(2)] by blast
  have "(tag, c) \<noteq> (0, [])" using assms(4) by auto
  from convert_child_der [OF assms(6,7) this assms(5) o(1) _ o3(1)] show ?thesis
    using o2(1) o3(2) assms(4) by auto
qed

lemma indef_step:
  assumes "cbb_holds env (length (wrapped s tag content) + n) cbb root fs y" "length content \<le> 0xFFFFFFFE"
    and "s \<noteq> 0 \<longrightarrow> tag AND NOT CBS_ASN1_CONSTRUCTED = s" "tag AND CBS_ASN1_CONSTRUCTED \<noteq> 0"
    and "d \<le> kMaxDepth" "length (ber_indef tag @ c1) < 2 ^ 64"
    and kids: "\<And>m o1 root' fs' z. cbb_holds env (length content + m) o1 root' fs' z \<Longrightarrow>
      \<exists>o2. cbs_convert_ber env (child_string s tag) True (d + 1) (length fs') c1 o1 = (Some (), tail, o2) \<and>
           cbb_holds env m o2 root' fs' (z @ content)"
  shows "\<exists>o3. cbs_convert_ber env s eoc d (length fs) (ber_indef tag @ c1) cbb = cbs_convert_ber env s eoc d (length fs) tail o3 \<and>
    cbb_holds env n o3 root fs (y @ wrapped s tag content)"
proof -
  obtain o1 root' fs' z m where o: "convert_target env (length fs) s tag cbb = (Some (length fs', child_string s tag), o1)"
    "cbb_holds env (length content + m) o1 root' fs' z"
    "\<And>o2. cbb_holds env m o2 root' fs' (z @ content) \<Longrightarrow>
      \<exists>o3. CBB_flush env (length fs) o2 = (Some (), o3) \<and> cbb_holds env n o3 root fs (y @ wrapped s tag content)"
    using target_done [OF assms(1-3)] by blast
  obtain o2 where o2: "cbs_convert_ber env (child_string s tag) True (d + 1) (length fs') c1 o1 = (Some (), tail, o2)"
    "cbb_holds env m o2 root' fs' (z @ content)"
    using kids [OF o(2)] by blast
  obtain o3 where o3: "CBB_flush env (length fs) o2 = (Some (), o3)" "cbb_holds env n o3 root fs (y @ wrapped s tag content)"
    using o(3) [OF o2(2)] by blast
  show ?thesis using convert_child_indef [OF assms(6,4,5) o(1) o2(1) o3(1)] o3(2) by blast
qed

lemma eoc_step:
  assumes "d \<le> kMaxDepth" "length (bers_bytes [] @ (if eoc then [0, 0] @ rest else [])) < 2 ^ 64" "\<not> eoc \<longrightarrow> rest = []"
  shows "cbs_convert_ber env s eoc d h (if eoc then [0, 0] @ rest else []) cbb = (Some (), rest, cbb)"
proof (cases eoc)
  case True
  have z: "[0, 0] @ rest = der 0 [] @ rest" by (simp only: der_eoc)
  have l: "length (der 0 [] @ rest) < 2 ^ 64" using assms(2) True by (simp add: der_eoc)
  have "CBS_len (der 0 [] @ rest) \<noteq> 0" using len_pos [OF l] ber_bytes_not_Nil by simp
  then show ?thesis
    using True assms(1) ber_reads_der [OF l] eoc_der [of 0 "[]"] unfolding z
    by (subst cbs_convert_ber.simps) (simp add: der_eoc)
next
  case False
  then show ?thesis using assms by (subst cbs_convert_ber.simps) (simp add: CBS_len_def)
qed

lemma convert_done:
  assumes "cin = bers_bytes ts @ (if eoc then [0, 0] @ rest else [])" "\<not> eoc \<longrightarrow> rest = []" "list_all ber_ok ts"
    and "d \<le> kMaxDepth" "\<forall>t \<in> set ts. d + nesting t \<le> kMaxDepth" "length cin < 2 ^ 32"
    and "contributions s ts = Some x" "length x \<le> 0xFFFFFFFE" "cbb_holds env (length x + n) cbb root fs y"
  shows "\<exists>cbb'. cbs_convert_ber env s eoc d (length fs) cin cbb = (Some (), rest, cbb') \<and> cbb_holds env n cbb' root fs (y @ x)"
  using assms
proof (induction "length cin" arbitrary: cin ts eoc rest d s x n cbb root fs y rule: less_induct)
  case less
  have short: "length cin < 2 ^ 64" using less.prems(6) by simp
  show ?case
  proof (cases ts)
    case Nil
    then show ?thesis
      using eoc_step [OF less.prems(4) _ less.prems(2), of env s "length fs" cbb] short less.prems(1,7,9) by simp
  next
    case tts: (Cons t ts')
    obtain x1 x2 where x: "contribution s t = Some x1" "contributions s ts' = Some x2" "x = x1 @ x2"
      using less.prems(7) tts by (auto split: option.splits)
    let ?tail = "bers_bytes ts' @ (if eoc then [0, 0] @ rest else [])"
    have cin: "cin = ber_bytes t @ ?tail" using less.prems(1) tts by simp
    have h: "cbb_holds env (length x1 + (length x2 + n)) cbb root fs y" using less.prems(9) x(3) by (simp add: add.assoc)
    have lx: "length x1 \<le> 0xFFFFFFFE" using less.prems(8) x(3) by simp
    have step: "\<exists>o3. cbs_convert_ber env s eoc d (length fs) cin cbb = cbs_convert_ber env s eoc d (length fs) ?tail o3 \<and>
        cbb_holds env (length x2 + n) o3 root fs (y @ x1)"
    proof (cases t)
      case (Prim tag c)
      then show ?thesis
        using prim_step [OF h x(1) [unfolded Prim] _ lx less.prems(4)] less.prems(3) short cin tts by simp
    next
      case (Constructed tag ks)
      have tag: "tag AND CBS_ASN1_CONSTRUCTED \<noteq> 0" "list_all ber_ok ks" using less.prems(3) tts Constructed by auto
      obtain content where p: "contributions (child_string s tag) ks = Some content" "x1 = wrapped s tag content"
        "s \<noteq> 0 \<longrightarrow> tag AND NOT CBS_ASN1_CONSTRUCTED = s"
        using kids_Some [OF _ tag(1), of s ks x1] x(1) by (auto simp: Constructed contribution_kids)
      have lc: "length content \<le> 0xFFFFFFFE" using lx p(2) by (auto simp: wrapped_def der_def split: if_splits)
      have n: "d + 1 \<le> kMaxDepth" "\<forall>k \<in> set ks. d + 1 + nesting k \<le> kMaxDepth"
        using less.prems(5) tts nesting_within [of d tag ks] by (auto simp: Constructed)
      have c: "cin = der tag (bers_bytes ks) @ ?tail" using cin Constructed by simp
      have less': "length (bers_bytes ks) < length cin" "length (bers_bytes ks) < 2 ^ 32"
        using less.prems(6) length_der_tag [of tag] by (auto simp: c der_def der_header_def)
      have "\<exists>o2. cbs_convert_ber env (child_string s tag) False (d + 1) (length fs') (bers_bytes ks) o1 = (Some (), [], o2) \<and>
          cbb_holds env m o2 root' fs' (z @ content)"
        if "cbb_holds env (length content + m) o1 root' fs' z" for m o1 root' fs' z
        using less.hyps [OF less'(1), of ks False "[]" "d + 1", OF _ _ tag(2) n less'(2) p(1) lc that] by auto
      from cons_step [OF h [unfolded p(2)] lc p(3) tag(1) less.prems(4) short [unfolded c] less'(2) this] show ?thesis
        unfolding c p(2) .
    next
      case (Indef tag ks)
      have tag: "tag AND CBS_ASN1_CONSTRUCTED \<noteq> 0" "list_all ber_ok ks" using less.prems(3) tts Indef by auto
      obtain content where p: "contributions (child_string s tag) ks = Some content" "x1 = wrapped s tag content"
        "s \<noteq> 0 \<longrightarrow> tag AND NOT CBS_ASN1_CONSTRUCTED = s"
        using kids_Some [OF _ tag(1), of s ks x1] x(1) by (auto simp: Indef contribution_kids)
      have lc: "length content \<le> 0xFFFFFFFE" using lx p(2) by (auto simp: wrapped_def der_def split: if_splits)
      have n: "d + 1 \<le> kMaxDepth" "\<forall>k \<in> set ks. d + 1 + nesting k \<le> kMaxDepth"
        using less.prems(5) tts nesting_within [of d tag ks] by (auto simp: Indef)
      let ?c1 = "bers_bytes ks @ [0, 0] @ ?tail"
      have c: "cin = ber_indef tag @ ?c1" using cin Indef by simp
      have less': "length ?c1 < length cin" "length ?c1 < 2 ^ 32"
        using less.prems(6) by (simp_all add: c ber_indef_def)
      have "\<exists>o2. cbs_convert_ber env (child_string s tag) True (d + 1) (length fs') ?c1 o1 = (Some (), ?tail, o2) \<and>
          cbb_holds env m o2 root' fs' (z @ content)"
        if "cbb_holds env (length content + m) o1 root' fs' z" for m o1 root' fs' z
        using less.hyps [OF less'(1), of ks True ?tail "d + 1", OF _ _ tag(2) n less'(2) p(1) lc that] by auto
      from indef_step [OF h [unfolded p(2)] lc p(3) tag(1) less.prems(4) short [unfolded c] this] show ?thesis
        unfolding c p(2) .
    qed
    then obtain o3 where o3: "cbs_convert_ber env s eoc d (length fs) cin cbb = cbs_convert_ber env s eoc d (length fs) ?tail o3"
      "cbb_holds env (length x2 + n) o3 root fs (y @ x1)" by blast
    have "ber_bytes t \<noteq> []" by (cases t) (simp_all add: ber_bytes_not_Nil ber_indef_def)
    then have "length ?tail < length cin" unfolding cin by simp
    from less.hyps [OF this refl less.prems(2) _ less.prems(4) _ _ x(2) _ o3(2)] show ?thesis
      using less.prems tts x(3) cin o3(1) by simp
  qed
qed

end
