(* ===== verification/BerProps.thy ===== *)
theory BerProps
  imports BerSpec
begin

text \<open>
  What \<open>CBS_asn1_ber_to_der\<close> returns: the DER form of the trees it reads, in which nothing is left to
  convert; and what the walk in front of it finds and overlooks.
\<close>

section \<open>DER trees\<close>

fun plain_der :: "ber \<Rightarrow> bool" where
  "plain_der (Prim t c) \<longleftrightarrow> True"
| "plain_der (Constructed t ks) \<longleftrightarrow> \<not> is_string_type t \<and> list_all plain_der ks"
| "plain_der (Indef t ks) \<longleftrightarrow> False"

lemma collect_Some: "collect xs = Some ys \<longleftrightarrow> xs = map Some ys"
  by (induction xs arbitrary: ys) (auto split: option.splits)

lemma joined_Some:
  "joined t ks = Some u \<Longrightarrow> is_string_type t \<Longrightarrow> plain_der u \<and> ber_ok u \<and> nesting u = 0"
proof -
  assume j: "joined t ks = Some u" "is_string_type t"
  define s where "s = t AND NOT CBS_ASN1_CONSTRUCTED"
  obtain bs where u: "u = Prim s bs" using j(1) by (auto simp: joined_def Let_def s_def)
  have "s AND CBS_ASN1_CONSTRUCTED = 0"
    unfolding s_def by (rule bit_word_eqI) (auto simp only: bit_and_iff bit_not_iff bit_0_eq bot_apply bot_bool_def)
  moreover have "s \<noteq> 0" unfolding s_def by (rule string_type_nonzero [OF j(2)])
  ultimately show ?thesis by (simp add: u)
qed

lemma kids_plain:
  assumes "collect (map f ks) = Some us" "\<And>k u. k \<in> set ks \<Longrightarrow> f k = Some u \<Longrightarrow> Q u \<and> nesting u \<le> nesting k"
  shows "\<forall>u \<in> set us. Q u \<and> nesting u \<le> foldr max (map nesting ks) 0"
proof
  fix u assume "u \<in> set us"
  then obtain k where k: "k \<in> set ks" "f k = Some u"
  proof -
    have "Some u \<in> set (map f ks)" using assms(1) \<open>u \<in> set us\<close> unfolding collect_Some by simp
    then show thesis using that by auto
  qed
  then have "nesting k \<le> foldr max (map nesting ks) 0" using nesting_bound [of ks] by blast
  then show "Q u \<and> nesting u \<le> foldr max (map nesting ks) 0" using assms(2) [OF k] by simp
qed

lemma to_der_plain: "to_der t = Some u \<Longrightarrow> ber_ok t \<Longrightarrow> plain_der u \<and> ber_ok u \<and> nesting u \<le> nesting t"
proof (induction t arbitrary: u)
  case (Constructed tag ks)
  show ?case
  proof (cases "is_string_type tag")
    case True
    then show ?thesis using Constructed.prems joined_Some [OF _ True, of ks u] by auto
  next
    case False
    then obtain us where us: "collect (map to_der ks) = Some us" "u = Constructed tag us" using Constructed.prems(1) by auto
    have "\<forall>v \<in> set us. (plain_der v \<and> ber_ok v) \<and> nesting v \<le> foldr max (map nesting ks) 0"
      by (rule kids_plain [OF us(1)]) (use Constructed in \<open>auto simp: list_all_iff\<close>)
    then show ?thesis using Constructed.prems(2) False us(2) by (auto simp: list_all_iff nesting_bound)
  qed
next
  case (Indef tag ks)
  show ?case
  proof (cases "is_string_type tag")
    case True
    then show ?thesis using Indef.prems joined_Some [OF _ True, of ks u] by auto
  next
    case False
    then obtain us where us: "collect (map to_der ks) = Some us" "u = Constructed tag us" using Indef.prems(1) by auto
    have "\<forall>v \<in> set us. (plain_der v \<and> ber_ok v) \<and> nesting v \<le> foldr max (map nesting ks) 0"
      by (rule kids_plain [OF us(1)]) (use Indef in \<open>auto simp: list_all_iff\<close>)
    then show ?thesis using Indef.prems(2) False us(2) by (auto simp: list_all_iff nesting_bound)
  qed
qed simp

section \<open>Sizes\<close>

lemma length_in_concat: "k \<in> set ks \<Longrightarrow> length (f k) \<le> length (concat (map f ks))"
  by (induction ks) auto

lemma collect_length:
  assumes "collect (map f ks) = Some us" "\<And>k u. k \<in> set ks \<Longrightarrow> f k = Some u \<Longrightarrow> length (g u) \<le> c * length (h k)"
  shows "length (concat (map g us)) \<le> c * length (concat (map h ks))"
  using assms
proof (induction ks arbitrary: us)
  case (Cons k ks)
  then obtain u us' where u: "f k = Some u" "collect (map f ks) = Some us'" "us = u # us'" by (auto split: option.splits)
  have "length (g u) \<le> c * length (h k)" using Cons.prems(2) u(1) by simp
  moreover have "length (concat (map g us')) \<le> c * length (concat (map h ks))" using Cons.IH [OF u(2)] Cons.prems(2) by simp
  ultimately show ?case using u(3) by (simp add: algebra_simps)
qed simp

lemma fragments_length: "fragments s t = Some x \<Longrightarrow> length x \<le> length (ber_bytes t)"
proof (induction t arbitrary: x)
  case (Prim tag c)
  then show ?case by (simp add: der_def split: if_splits)
next
  case (Constructed tag ks)
  then obtain xs where xs: "collect (map (fragments s) ks) = Some xs" "x = concat xs" by (auto split: if_splits)
  have "length (concat (map id xs)) \<le> 1 * length (concat (map ber_bytes ks))"
    by (rule collect_length [OF xs(1)]) (use Constructed.IH in auto)
  then show ?case using xs(2) by (simp add: der_def)
next
  case (Indef tag ks)
  then obtain xs where xs: "collect (map (fragments s) ks) = Some xs" "x = concat xs" by (auto split: if_splits)
  have "length (concat (map id xs)) \<le> 1 * length (concat (map ber_bytes ks))"
    by (rule collect_length [OF xs(1)]) (use Indef.IH in auto)
  then show ?case using xs(2) by simp
qed

lemma length_tag_clear: "length (der_tag (t AND NOT CBS_ASN1_CONSTRUCTED)) = length (der_tag t)"
proof -
  have "(t AND NOT CBS_ASN1_CONSTRUCTED) AND 0x1FFFFFFF = t AND 0x1FFFFFFF"
    by (simp add: and.assoc)
  then show ?thesis by (simp only: der_tag_def Let_def) simp
qed

lemma length_der_bound:
  assumes "length (der_tag t') = length (der_tag t)" "length c' < 2 ^ 32" "length c' \<le> 3 * n" "length (der_tag t) + 1 + n \<le> m"
  shows "length (der t' c') \<le> 3 * m"
proof -
  have "length (der_length (of_nat (length c'))) \<le> 5"
    using length_der_length [of "of_nat (length c')"] assms(2) by (simp add: small_of_nat)
  moreover have "1 \<le> length (der_tag t)" using length_der_tag [of t] by simp
  ultimately show ?thesis using assms by (simp add: der_def der_header_def)
qed

lemma length_joined:
  assumes "joined t ks = Some u" "length (bers_bytes ks) < 2 ^ 32" "length (der_tag t) + 1 + length (bers_bytes ks) \<le> m"
  shows "length (ber_bytes u) \<le> 3 * m"
proof -
  obtain xs where xs: "collect (map (fragments (t AND NOT CBS_ASN1_CONSTRUCTED)) ks) = Some xs"
    "u = Prim (t AND NOT CBS_ASN1_CONSTRUCTED) (concat xs)"
    using assms(1) by (auto simp: joined_def Let_def)
  have "length (concat (map id xs)) \<le> 1 * length (concat (map ber_bytes ks))"
    by (rule collect_length [OF xs(1)]) (use fragments_length in auto)
  then have "length (concat xs) \<le> length (bers_bytes ks)" by simp
  then show ?thesis
    using length_der_bound [OF length_tag_clear, of "concat xs" "length (bers_bytes ks)" t m] assms(2,3) by (simp add: xs(2))
qed

lemma length_to_der: "to_der t = Some u \<Longrightarrow> length (ber_bytes t) < 2 ^ 30 \<Longrightarrow> length (ber_bytes u) \<le> 3 * length (ber_bytes t)"
proof (induction t arbitrary: u)
  case (Constructed tag ks)
  have "1 \<le> length (der_length (of_nat (length (bers_bytes ks))))" by (simp add: der_length_def)
  then have m: "length (der_tag tag) + 1 + length (bers_bytes ks) \<le> length (ber_bytes (Constructed tag ks))"
    by (simp add: der_def der_header_def)
  then have s: "length (bers_bytes ks) < 2 ^ 30" using Constructed.prems(2) by linarith
  show ?case
  proof (cases "is_string_type tag")
    case True
    then show ?thesis using length_joined [OF _ _ m, of u] Constructed.prems(1) s by simp
  next
    case False
    then obtain us where us: "collect (map to_der ks) = Some us" "u = Constructed tag us" using Constructed.prems(1) by auto
    have l: "length (bers_bytes us) \<le> 3 * length (bers_bytes ks)"
      by (rule collect_length [OF us(1)]) (use Constructed.IH s length_in_concat in \<open>fastforce intro: le_less_trans\<close>)
    then show ?thesis using length_der_bound [OF refl _ l m] s by (simp add: us(2))
  qed
next
  case (Indef tag ks)
  have m: "length (der_tag tag) + 1 + length (bers_bytes ks) \<le> length (ber_bytes (Indef tag ks))"
    by (simp add: ber_indef_def)
  then have s: "length (bers_bytes ks) < 2 ^ 30" using Indef.prems(2) by linarith
  show ?case
  proof (cases "is_string_type tag")
    case True
    then show ?thesis using length_joined [OF _ _ m, of u] Indef.prems(1) s by simp
  next
    case False
    then obtain us where us: "collect (map to_der ks) = Some us" "u = Constructed tag us" using Indef.prems(1) by auto
    have l: "length (bers_bytes us) \<le> 3 * length (bers_bytes ks)"
      by (rule collect_length [OF us(1)]) (use Indef.IH s length_in_concat in \<open>fastforce intro: le_less_trans\<close>)
    then show ?thesis using length_der_bound [OF refl _ l m] s by (simp add: us(2))
  qed
qed simp

section \<open>Nothing to find in DER\<close>

lemma find_step_der:
  assumes "length (der tag c @ rest) < 2 ^ 64" "length c < 2 ^ 32"
  shows "ber_find_loop d (der tag c @ rest) found =
    (if tag AND CBS_ASN1_CONSTRUCTED \<noteq> 0 then
       if is_string_type tag then Some True
       else case (if kMaxDepth < d + 1 then None else ber_find_loop (d + 1) c False) of
              None \<Rightarrow> None | Some found \<Rightarrow> ber_find_loop d rest found
     else ber_find_loop d rest found)"
proof -
  have l: "length (der tag c) < 2 ^ 64" using assms(1) by simp
  have "CBS_len (der tag c @ rest) \<noteq> 0" using len_pos [OF assms(1)] ber_bytes_not_Nil by simp
  then show ?thesis
    using ber_reads_der [OF assms] der_not_indefinite [OF assms(2)] skip_der [OF l assms(2)]
    by (subst ber_find_loop.simps) (simp split: option.splits)
qed

lemma find_Nil [simp]: "ber_find_loop d [] found = Some found"
  by (simp add: ber_find_loop.simps CBS_len_def)

lemma find_plain:
  "list_all plain_der ts \<Longrightarrow> list_all ber_ok ts \<Longrightarrow> \<forall>t \<in> set ts. d + nesting t \<le> kMaxDepth \<Longrightarrow>
     length (bers_bytes ts) < 2 ^ 32 \<Longrightarrow> ber_find_loop d (bers_bytes ts) False = Some False"
proof (induction "length (bers_bytes ts)" arbitrary: ts d rule: less_induct)
  case less
  show ?case
  proof (cases ts)
    case tts: (Cons t ts')
    show ?thesis
    proof (cases t)
      case (Prim tag c)
      have e: "bers_bytes ts = der tag c @ bers_bytes ts'" by (simp add: tts Prim)
      have l: "length (der tag c @ bers_bytes ts') < 2 ^ 64" "length c < 2 ^ 32" "length (bers_bytes ts') < 2 ^ 32"
        using less.prems(4) unfolding e by (simp_all add: der_def)
      have "length (bers_bytes ts') < length (bers_bytes ts)" using ber_bytes_not_Nil [of tag c] unfolding e by simp
      then have "ber_find_loop d (bers_bytes ts') False = Some False"
        using less.hyps [of ts' d] less.prems(1-3) l(3) by (simp add: tts)
      then show ?thesis using less.prems(2) unfolding e find_step_der [OF l(1,2)] by (simp add: tts Prim)
    next
      case (Constructed tag ks)
      have e: "bers_bytes ts = der tag (bers_bytes ks) @ bers_bytes ts'" by (simp add: tts Constructed)
      have l: "length (der tag (bers_bytes ks) @ bers_bytes ts') < 2 ^ 64" "length (bers_bytes ks) < 2 ^ 32"
        "length (bers_bytes ts') < 2 ^ 32"
        using less.prems(4) unfolding e by (simp_all add: der_def)
      have "length (bers_bytes ts') < length (bers_bytes ts)"
        using ber_bytes_not_Nil [of tag "bers_bytes ks"] unfolding e by simp
      then have r: "ber_find_loop d (bers_bytes ts') False = Some False"
        using less.hyps [of ts' d] less.prems(1-3) l(3) by (simp add: tts)
      have n: "d + 1 \<le> kMaxDepth" "\<forall>k \<in> set ks. d + 1 + nesting k \<le> kMaxDepth"
        using less.prems(3) nesting_within [of d tag ks] by (auto simp: tts Constructed)
      have "der_tag tag \<noteq> []" using length_der_tag [of tag] by auto
      then have "length (bers_bytes ks) < length (bers_bytes ts)" unfolding e by (simp add: der_def der_header_def)
      then have "ber_find_loop (d + 1) (bers_bytes ks) False = Some False"
        using less.hyps [of ks "d + 1"] less.prems(1,2) n(2) l(2) by (simp add: tts Constructed)
      then show ?thesis using less.prems(1) n(1) r unfolding e find_step_der [OF l(1,2)] by (simp add: tts Constructed)
    qed (use less.prems(1) tts in simp)
  qed simp
qed

text \<open>A definite length that is not minimal is not read at all, though BER allows it.\<close>

lemma long_length_refused: "cbs_find_ber [0x30, 0x81, 0] 0 = None"
  by code_simp

section \<open>The conversion\<close>

text \<open>The trees a conversion reads, and what it makes of them.\<close>

definition converts :: "bytes \<Rightarrow> bytes \<Rightarrow> bool" where
  "converts cin out \<longleftrightarrow>
     (\<exists>ts us. list_all ber_ok ts \<and> (\<forall>t \<in> set ts. nesting t \<le> kMaxDepth) \<and> cin = bers_bytes ts \<and>
        collect (map to_der ts) = Some us \<and> out = bers_bytes us)"

lemma converts_length:
  assumes "converts cin out" "length cin < 2 ^ 30"
  shows "length out \<le> 3 * length cin"
proof -
  obtain ts us where t: "cin = bers_bytes ts" "collect (map to_der ts) = Some us" "out = bers_bytes us"
    using assms(1) by (auto simp: converts_def)
  show ?thesis
    unfolding t(1,3)
  proof (rule collect_length [OF t(2)])
    fix k u assume k: "k \<in> set ts" "to_der k = Some u"
    then have "length (ber_bytes k) < 2 ^ 30" using length_in_concat [OF k(1), of ber_bytes] assms(2) t(1) by simp
    then show "length (ber_bytes u) \<le> 3 * length (ber_bytes k)" by (rule length_to_der [OF k(2)])
  qed
qed

lemma converts_plain:
  assumes "converts cin out" "length cin < 2 ^ 30"
  shows "\<exists>us. list_all plain_der us \<and> list_all ber_ok us \<and> out = bers_bytes us \<and> length out < 2 ^ 32 \<and>
    cbs_find_ber out 0 = Some False"
proof -
  obtain ts us where t: "list_all ber_ok ts" "\<forall>t \<in> set ts. nesting t \<le> kMaxDepth" "cin = bers_bytes ts"
    "collect (map to_der ts) = Some us" "out = bers_bytes us"
    using assms(1) by (auto simp: converts_def)
  have "\<forall>u \<in> set us. (plain_der u \<and> ber_ok u) \<and> nesting u \<le> foldr max (map nesting ts) 0"
    by (rule kids_plain [OF t(4)]) (use to_der_plain t(1) in \<open>auto simp: list_all_iff\<close>)
  moreover have "foldr max (map nesting ts) 0 \<le> kMaxDepth" using t(2) by (simp add: nesting_bound)
  ultimately have us: "list_all plain_der us" "list_all ber_ok us" "\<forall>u \<in> set us. 0 + nesting u \<le> kMaxDepth"
    by (auto simp: list_all_iff)
  have "length out \<le> 3 * length cin" using converts_length [OF assms] .
  then have "length out < 2 ^ 32" using assms(2) t(3,5) by simp
  then show ?thesis using us find_plain [OF us] t(5) by (auto simp: cbs_find_ber_def)
qed

lemma convert_exact:
  assumes "\<forall>k. grants env k" "length cin < 2 ^ 30" "CBB_init env True cap = Some cbb"
  shows "(\<exists>cbb'. cbs_convert_ber env 0 False 0 0 cin cbb = (Some (), rest, cbb')) \<Longrightarrow> \<exists>out. converts cin out"
    "converts cin out \<Longrightarrow> \<exists>cbb'. cbs_convert_ber env 0 False 0 0 cin cbb = (Some (), [], cbb') \<and> cbb_holds env 0 cbb' [] [] out"
proof -
  assume "\<exists>cbb'. cbs_convert_ber env 0 False 0 0 cin cbb = (Some (), rest, cbb')"
  then show "\<exists>out. converts cin out"
    using convert_accepts [of env 0 False 0 0 cin cbb rest] assms(2)
    by (fastforce simp: converts_def contributions_trees)
next
  assume c: "converts cin out"
  obtain ts us where t: "list_all ber_ok ts" "\<forall>t \<in> set ts. nesting t \<le> kMaxDepth" "cin = bers_bytes ts"
    "collect (map to_der ts) = Some us" "out = bers_bytes us"
    using c by (auto simp: converts_def)
  have "length out \<le> 3 * length cin" using converts_length [OF c assms(2)] .
  then have lo: "length out \<le> 0xFFFFFFFE" using assms(2) by simp
  have "cbb_holds env (length out + 0) cbb [] [] []" using init_holds [OF assms(3,1)] lo by simp
  then show "\<exists>cbb'. cbs_convert_ber env 0 False 0 0 cin cbb = (Some (), [], cbb') \<and> cbb_holds env 0 cbb' [] [] out"
    using convert_done [of cin ts False "[]" 0 0 out env 0 cbb "[]" "[]" "[]"] t lo assms(2)
    by (simp add: contributions_trees)
qed

lemma ber_to_der_iff:
  assumes "\<forall>k. grants env k" "length cin < 2 ^ 30" "cbs_find_ber cin 0 = Some True"
  shows "CBS_asn1_ber_to_der env True cin = (Some (out, converted), rest) \<longleftrightarrow> converted \<and> rest = [] \<and> converts cin out"
proof -
  obtain cbb where i: "CBB_init env True (CBS_len cin) = Some cbb" using assms(1) by (simp add: CBB_init_def)
  have yes: "CBS_asn1_ber_to_der env True cin = (Some (out, True), [])" if c: "converts cin out" for out
  proof -
    obtain c1 where c1: "cbs_convert_ber env 0 False 0 0 cin cbb = (Some (), [], c1)" "cbb_holds env 0 c1 [] [] out"
      using convert_exact(2) [OF assms(1,2) i c] by blast
    obtain st len c2 where "CBB_finish env 0 True c1 = (Some (st, len), c2)" "take (unat len) st = out"
      using finish_holds [OF c1(2)] by auto
    then show ?thesis using assms(3) i c1(1) by (simp add: CBS_asn1_ber_to_der_def)
  qed
  show ?thesis
  proof
    assume r: "CBS_asn1_ber_to_der env True cin = (Some (out, converted), rest)"
    then have "\<exists>rest cbb'. cbs_convert_ber env 0 False 0 0 cin cbb = (Some (), rest, cbb')"
      using assms(3) i by (auto simp: CBS_asn1_ber_to_der_def split: prod.splits option.splits)
    then obtain out0 where "converts cin out0" using convert_exact(1) [OF assms(1,2) i] by blast
    then show "converted \<and> rest = [] \<and> converts cin out" using yes r by auto
  next
    assume "converted \<and> rest = [] \<and> converts cin out"
    then show "CBS_asn1_ber_to_der env True cin = (Some (out, converted), rest)" using yes by simp
  qed
qed

text \<open>A sample: an octet string in two fragments inside a sequence of indefinite length.\<close>

definition sample_ber :: bytes where
  "sample_ber = [0x30, 0x80, 0x24, 0x80, 4, 1, 7, 4, 1, 8, 0, 0, 0, 0]"

lemma sample_ber: "converts sample_ber [0x30, 4, 4, 2, 7, 8]" "cbs_find_ber sample_ber 0 = Some True"
proof -
  let ?t = "Indef 0x20000010 [Indef 0x20000004 [Prim 4 [7], Prim 4 [8]]]"
  let ?u = "Constructed 0x20000010 [Prim 4 [7, 8]]"
  have "list_all ber_ok [?t] \<and> nesting ?t \<le> kMaxDepth \<and> sample_ber = bers_bytes [?t] \<and> collect (map to_der [?t]) = Some [?u] \<and>
      [0x30, 4, 4, 2, 7, 8] = bers_bytes [?u]"
    by code_simp
  then show "converts sample_ber [0x30, 4, 4, 2, 7, 8]"
    unfolding converts_def by (intro exI [of _ "[?t]"] exI [of _ "[?u]"]) simp
  show "cbs_find_ber sample_ber 0 = Some True" by code_simp
qed

lemma roomy_grants: "\<forall>k. grants roomy k"
  by (simp add: roomy_def)

lemma sample_short: "length sample_ber < 2 ^ 30"
  by (simp add: sample_ber_def)

text \<open>C9. Conversion of BER. Where the walk finds BER in an input of less than \<open>2 ^ 30\<close> bytes, and with
  memory available, \<open>CBS_asn1_ber_to_der\<close> succeeds exactly if the input is the encoding of BER trees (no
  stray end-of-contents, nested at most 2048 deep) whose constructed strings have fragments of their
  own type only, and then returns the encoding of the trees' DER form: definite lengths, strings joined.
  All of the input is consumed.\<close>

theorem ber_to_der_exact:
  assumes "\<forall>k. grants env k" "length cin < 2 ^ 30" "cbs_find_ber cin 0 = Some True"
  shows "CBS_asn1_ber_to_der env True cin = (Some (out, converted), rest) \<longleftrightarrow> converted \<and> rest = [] \<and> converts cin out"
  using assms by (rule ber_to_der_iff)

theorem ber_to_der_exact_witness:
  "CBS_asn1_ber_to_der roomy True sample_ber = (Some ([0x30, 4, 4, 2, 7, 8], True), [])"
  using ber_to_der_exact [OF roomy_grants sample_short sample_ber(2)] sample_ber(1) by blast

text \<open>C10. The result of a conversion is DER: whatever input of less than \<open>2 ^ 30\<close> bytes
  \<open>CBS_asn1_ber_to_der\<close> converts, its output is a sequence of elements with minimal definite lengths and
  without constructed strings at any depth, and a second walk finds nothing to convert in it.\<close>

theorem ber_output_is_der:
  assumes "\<forall>k. grants env k" "length cin < 2 ^ 30" "CBS_asn1_ber_to_der env True cin = (Some (out, True), rest)"
  shows "cbs_find_ber out 0 = Some False \<and> (\<exists>us. list_all plain_der us \<and> out = bers_bytes us)"
proof -
  have "cbs_find_ber cin 0 = Some True"
    using assms(3) by (auto simp: CBS_asn1_ber_to_der_def bindo_eq_Some_iff split: option.splits if_splits)
  then have "converts cin out" using ber_to_der_iff [OF assms(1,2)] assms(3) by blast
  then show ?thesis using converts_plain [OF _ assms(2)] by blast
qed

theorem ber_output_is_der_witness:
  "cbs_find_ber [0x30, 4, 4, 2, 7, 8] 0 = Some False \<and>
   (\<exists>us. list_all plain_der us \<and> [0x30, 4, 4, 2, 7, 8] = bers_bytes us)"
proof -
  have "CBS_asn1_ber_to_der roomy True sample_ber = (Some ([0x30, 4, 4, 2, 7, 8], True), [])"
    using ber_to_der_iff [OF roomy_grants sample_short sample_ber(2)] sample_ber(1) by blast
  from ber_output_is_der [OF roomy_grants sample_short this] show ?thesis .
qed

section \<open>What the walk finds\<close>

text \<open>
  \<open>cbs_find_ber\<close> stops at an element of indefinite length and at a constructed string. All levels share
  one flag, which a nested call clears: of the other constructed elements, only the last one counts.
\<close>

fun at_once :: "ber \<Rightarrow> bool" where
  "at_once (Prim t c) \<longleftrightarrow> False"
| "at_once (Constructed t ks) \<longleftrightarrow> is_string_type t"
| "at_once (Indef t ks) \<longleftrightarrow> True"

fun kids :: "ber \<Rightarrow> ber list" where
  "kids (Prim t c) = []"
| "kids (Constructed t ks) = ks"
| "kids (Indef t ks) = ks"

definition is_prim :: "ber \<Rightarrow> bool" where
  "is_prim t \<longleftrightarrow> (\<exists>tag c. t = Prim tag c)"

definition constructed_of :: "ber list \<Rightarrow> ber list" where
  "constructed_of ts = filter (\<lambda>t. \<not> is_prim t) ts"

lemma is_prim_simps [simp]: "is_prim (Prim t c)" "\<not> is_prim (Constructed t ks)" "\<not> is_prim (Indef t ks)"
  by (simp_all add: is_prim_def)

lemma constructed_simps [simp]:
  "constructed_of [] = []" "constructed_of (Prim t c # ts) = constructed_of ts"
  "constructed_of (Constructed t ks # ts) = Constructed t ks # constructed_of ts"
  "constructed_of (Indef t ks # ts) = Indef t ks # constructed_of ts"
  by (simp_all add: constructed_of_def)

lemma kids_smaller: "t \<in> set ts \<Longrightarrow> \<not> is_prim t \<Longrightarrow> size_list size (kids t) < size_list size ts"
proof (induction ts)
  case (Cons u ts)
  have "size_list size (kids u) < Suc (size u)" if "\<not> is_prim u" using that by (cases u) auto
  then show ?case using Cons by fastforce
qed simp

function noticed :: "ber list \<Rightarrow> bool" where
  "noticed ts \<longleftrightarrow>
     (if constructed_of ts = [] then False
      else list_ex at_once ts \<or> noticed (kids (last (constructed_of ts))))"
  by pat_completeness auto
termination
proof (relation "measure (size_list size)", simp)
  fix ts :: "ber list" assume "constructed_of ts \<noteq> []"
  then have "last (constructed_of ts) \<in> set (constructed_of ts)" by simp
  then show "(kids (last (constructed_of ts)), ts) \<in> measure (size_list size)"
    unfolding in_measure by (intro kids_smaller) (simp_all add: constructed_of_def)
qed

declare noticed.simps [simp del]

lemma at_once_constructed: "list_ex at_once ts \<Longrightarrow> constructed_of ts \<noteq> []"
proof (induction ts)
  case (Cons t ts)
  then show ?case by (cases t) simp_all
qed simp

lemma noticed_iff:
  "noticed ts \<longleftrightarrow>
     list_ex at_once ts \<or> (if constructed_of ts = [] then False else noticed (kids (last (constructed_of ts))))"
  using at_once_constructed [of ts] by (subst noticed.simps) auto

lemma find_step_indef:
  assumes "length (ber_indef tag @ rest) < 2 ^ 64" "tag AND CBS_ASN1_CONSTRUCTED \<noteq> 0"
  shows "ber_find_loop d (ber_indef tag @ rest) found = Some True"
proof -
  have "CBS_len (ber_indef tag @ rest) \<noteq> 0" using len_pos [OF assms(1)] by (simp add: ber_indef_def)
  then show ?thesis
    using ber_reads_indef [OF assms] indef_is_indefinite by (subst ber_find_loop.simps) simp
qed

lemma find_trees:
  "list_all ber_ok ts \<Longrightarrow> \<forall>t \<in> set ts. d + nesting t \<le> kMaxDepth \<Longrightarrow> length (bers_bytes ts) < 2 ^ 32 \<Longrightarrow>
     ber_find_loop d (bers_bytes ts) found =
       Some (list_ex at_once ts \<or> (if constructed_of ts = [] then found else noticed (kids (last (constructed_of ts)))))"
proof (induction "length (bers_bytes ts)" arbitrary: ts d found rule: less_induct)
  case less
  show ?case
  proof (cases ts)
    case tts: (Cons t ts')
    have ok: "list_all ber_ok ts'" "\<forall>u \<in> set ts'. d + nesting u \<le> kMaxDepth" using less.prems(1,2) tts by simp_all
    show ?thesis
    proof (cases t)
      case (Prim tag c)
      have e: "bers_bytes ts = der tag c @ bers_bytes ts'" by (simp add: tts Prim)
      have l: "length (der tag c @ bers_bytes ts') < 2 ^ 64" "length c < 2 ^ 32" "length (bers_bytes ts') < 2 ^ 32"
        using less.prems(3) unfolding e by (simp_all add: der_def)
      have "length (bers_bytes ts') < length (bers_bytes ts)" using ber_bytes_not_Nil [of tag c] unfolding e by simp
      from less.hyps [OF this ok l(3), of found] less.prems(1) show ?thesis
        unfolding e find_step_der [OF l(1,2)] by (simp add: tts Prim)
    next
      case (Indef tag ks)
      have e: "bers_bytes ts = ber_indef tag @ (bers_bytes ks @ [0, 0]) @ bers_bytes ts'" by (simp add: tts Indef)
      have "length (ber_indef tag @ (bers_bytes ks @ [0, 0]) @ bers_bytes ts') < 2 ^ 64" using less.prems(3) unfolding e by simp
      then show ?thesis using find_step_indef less.prems(1) unfolding e by (simp add: tts Indef)
    next
      case (Constructed tag ks)
      have e: "bers_bytes ts = der tag (bers_bytes ks) @ bers_bytes ts'" by (simp add: tts Constructed)
      have l: "length (der tag (bers_bytes ks) @ bers_bytes ts') < 2 ^ 64" "length (bers_bytes ks) < 2 ^ 32"
        "length (bers_bytes ts') < 2 ^ 32"
        using less.prems(3) unfolding e by (simp_all add: der_def)
      have s: "length (bers_bytes ts') < length (bers_bytes ts)"
        using ber_bytes_not_Nil [of tag "bers_bytes ks"] unfolding e by simp
      have n: "d + 1 \<le> kMaxDepth" "\<forall>k \<in> set ks. d + 1 + nesting k \<le> kMaxDepth"
        using less.prems(2) nesting_within [of d tag ks] by (auto simp: tts Constructed)
      have "der_tag tag \<noteq> []" using length_der_tag [of tag] by auto
      then have "length (bers_bytes ks) < length (bers_bytes ts)" unfolding e by (simp add: der_def der_header_def)
      then have "ber_find_loop (d + 1) (bers_bytes ks) False = Some (noticed ks)"
        using less.hyps [of ks "d + 1" False] less.prems(1) n(2) l(2)
        by (simp add: tts Constructed noticed_iff [of ks])
      then show ?thesis
        using less.prems(1) n(1) less.hyps [OF s ok l(3), of "noticed ks"]
        unfolding e find_step_der [OF l(1,2)] by (auto simp: tts Constructed)
    qed
  qed simp
qed

lemma noticed_has_ber: "noticed ts \<Longrightarrow> \<not> list_all plain_der ts"
proof (induction ts rule: noticed.induct)
  case (1 ts)
  consider t where "t \<in> set ts" "at_once t" | "constructed_of ts \<noteq> []" "noticed (kids (last (constructed_of ts)))"
    using "1.prems" by (auto simp: noticed_iff [of ts] list_ex_iff split: if_splits)
  then show ?case
  proof cases
    case (1 t)
    moreover have "\<not> plain_der t" using 1(2) by (cases t) auto
    ultimately show ?thesis by (auto simp: list_all_iff)
  next
    case 2
    let ?t = "last (constructed_of ts)"
    have m: "?t \<in> set ts" using last_in_set [OF 2(1)] by (simp add: constructed_of_def)
    have "\<not> list_all plain_der (kids ?t)" using "1.IH" 2 by blast
    then have "\<not> plain_der ?t" by (cases ?t) auto
    then show ?thesis using m by (auto simp: list_all_iff)
  qed
qed

text \<open>C11. What \<open>cbs_find_ber\<close> finds. On the encoding of BER trees the walk reports BER exactly if one of
  them has indefinite length or is a constructed string, or the contents of the last constructed one are
  such in turn: it never reports BER in DER, and overlooks what sits inside any constructed element but
  the last. Where it reports none, \<open>CBS_asn1_ber_to_der\<close> hands the first element back unconverted,
  whatever BER is in it.\<close>

theorem ber_found_exact:
  assumes "list_all ber_ok (t # ts)" "\<forall>u \<in> set (t # ts). nesting u \<le> kMaxDepth" "length (bers_bytes (t # ts)) < 2 ^ 32"
  shows "cbs_find_ber (bers_bytes (t # ts)) 0 = Some (noticed (t # ts)) \<and>
    (noticed (t # ts) \<longrightarrow> \<not> list_all plain_der (t # ts)) \<and>
    (\<not> noticed (t # ts) \<longrightarrow>
       CBS_asn1_ber_to_der env base_ok (bers_bytes (t # ts)) = (Some (ber_bytes t, False), bers_bytes ts))"
proof -
  have f: "cbs_find_ber (bers_bytes (t # ts)) 0 = Some (noticed (t # ts))"
    using find_trees [OF assms(1), of 0 False] assms(2,3)
    by (simp add: cbs_find_ber_def noticed_iff [of "t # ts"])
  have "CBS_asn1_ber_to_der env base_ok (bers_bytes (t # ts)) = (Some (ber_bytes t, False), bers_bytes ts)"
    if n: "\<not> noticed (t # ts)"
  proof -
    obtain tag c where t: "ber_bytes t = der tag c"
    proof -
      have "\<not> at_once t" using n by (simp add: noticed_iff [of "t # ts"])
      then show thesis using that by (cases t) simp_all
    qed
    have "length c < 2 ^ 32" "length (der tag c @ bers_bytes ts) < 2 ^ 64" using assms(3) t by (auto simp: der_def)
    from element_der [OF this] f n t show ?thesis by (simp add: CBS_asn1_ber_to_der_def bindo_def reto_def)
  qed
  then show ?thesis using f noticed_has_ber by blast
qed

text \<open>A SEQUENCE of a SEQUENCE of an element of indefinite length and an empty SEQUENCE.\<close>

theorem ber_found_exact_witness:
  "\<not> plain_der (Constructed 0x20000010 [Constructed 0x20000010 [Indef 0x20000010 []], Constructed 0x20000010 []]) \<and>
   cbs_find_ber [0x30, 8, 0x30, 4, 0x30, 0x80, 0, 0, 0x30, 0] 0 = Some False \<and>
   CBS_asn1_ber_to_der roomy True [0x30, 8, 0x30, 4, 0x30, 0x80, 0, 0, 0x30, 0] =
     (Some ([0x30, 8, 0x30, 4, 0x30, 0x80, 0, 0, 0x30, 0], False), [])"
proof -
  let ?t = "Constructed 0x20000010 [Constructed 0x20000010 [Indef 0x20000010 []], Constructed 0x20000010 []]"
  have ok: "list_all ber_ok [?t]" by simp
  have n: "\<forall>u \<in> set [?t]. nesting u \<le> kMaxDepth" by (simp add: kMaxDepth_def)
  have e: "ber_bytes ?t = [0x30, 8, 0x30, 4, 0x30, 0x80, 0, 0, 0x30, 0]"
    by code_simp
  have "\<not> is_string_type 0x20000010" by (simp add: is_string_type_def)
  moreover have "\<not> noticed []" by (simp add: noticed.simps [of "[]"])
  ultimately have "\<not> noticed [?t]"
    by (simp add: noticed.simps [of "[?t]"] noticed.simps [of "[Constructed 0x20000010 [Indef 0x20000010 []], Constructed 0x20000010 []]"])
  moreover have "length (bers_bytes [?t]) < 2 ^ 32" unfolding list.map concat.simps e by simp
  ultimately show ?thesis using ber_found_exact [OF ok n, of roomy True] e by simp
qed

section \<open>Implicitly tagged strings\<close>

lemma chunks_done:
  assumes "cbb_holds env (length (concat chunks) + n) cbb root [] x" "\<forall>c \<in> set chunks. length c < 2 ^ 32"
    and "length (concat (map (der tag) chunks)) < 2 ^ 64"
  shows "\<exists>cbb'. add_chunks env tag (concat (map (der tag) chunks)) cbb = (Some (), cbb') \<and>
                cbb_holds env n cbb' root [] (x @ concat chunks)"
  using assms
proof (induction chunks arbitrary: cbb x)
  case Nil
  then show ?case by (simp add: add_chunks.simps CBS_len_def)
next
  case (Cons c chunks)
  let ?t = "concat (map (der tag) chunks)"
  have l: "length (der tag c @ ?t) < 2 ^ 64" using Cons.prems(3) by simp
  have "CBS_len (der tag c @ ?t) \<noteq> 0" using len_pos [OF l] ber_bytes_not_Nil by simp
  moreover have "CBS_get_asn1 tag (der tag c @ ?t) = (Some c, ?t)" using get_asn1_iff [OF l] Cons.prems(2) by simp
  moreover obtain c1 where c1: "CBB_add_bytes env 0 c cbb = (Some (), c1)"
    "cbb_holds env (length (concat chunks) + n) c1 root [] (x @ c)"
    using add_bytes [of env c "length (concat chunks) + n" cbb root "[]" x] Cons.prems(1,2) by (auto simp: add.assoc)
  moreover obtain c2 where "add_chunks env tag ?t c1 = (Some (), c2)" "cbb_holds env n c2 root [] ((x @ c) @ concat chunks)"
    using Cons.IH [OF c1(2)] Cons.prems(2) l by auto
  ultimately show ?case by (simp add: add_chunks.simps [of _ _ "der tag c @ ?t"])
qed

lemma chunks_accepts:
  "add_chunks env tag child cbb = (Some (), cbb') \<Longrightarrow> length child < 2 ^ 64 \<Longrightarrow>
     \<exists>chunks. child = concat (map (der tag) chunks) \<and> (\<forall>c \<in> set chunks. length c < 2 ^ 32)"
proof (induction env tag child cbb rule: add_chunks.induct)
  case (1 env tag child cbb)
  show ?case
  proof (cases "CBS_len child = 0")
    case True
    then show ?thesis using len_pos [OF 1(3)] by (intro exI [of _ "[]"]) simp
  next
    case False
    then obtain chunk rest c1 where r: "CBS_get_asn1 tag child = (Some chunk, rest)"
      "CBB_add_bytes env 0 chunk cbb = (Some (), c1)" "add_chunks env tag rest c1 = (Some (), cbb')"
      using 1(2) by (auto simp: add_chunks.simps [of env tag child cbb] bindo_eq_Some_iff split: prod.splits option.splits)
    have c: "child = der tag chunk @ rest" "length chunk < 2 ^ 32" using r(1) get_asn1_iff [OF 1(3)] by auto
    then have "length rest < 2 ^ 64" using 1(3) by simp
    then obtain cs where "rest = concat (map (der tag) cs)" "\<forall>c \<in> set cs. length c < 2 ^ 32"
      using 1(1) [OF False r(1) [symmetric] refl r(2) r(3)] by auto
    then show ?thesis using c by (intro exI [of _ "chunk # cs"]) simp
  qed
qed

lemma parse_tag_of_der: "length (der t c @ r) < 2 ^ 64 \<Longrightarrow> fst (parse_asn1_tag (der t c @ r)) = Some t"
  using parse_tag_der [of t "der_length (of_nat (length c)) @ c @ r"] by (simp add: der_def der_header_def)

lemma tags_differ: "t AND CBS_ASN1_CONSTRUCTED = 0 \<Longrightarrow> t OR CBS_ASN1_CONSTRUCTED \<noteq> (t :: u32)"
proof
  assume "t AND CBS_ASN1_CONSTRUCTED = 0" "t OR CBS_ASN1_CONSTRUCTED = t"
  then have "(t OR CBS_ASN1_CONSTRUCTED) AND CBS_ASN1_CONSTRUCTED = 0" by simp
  then show False by (simp add: bit.conj_disj_distrib2)
qed

lemma finish_case:
  "(case p of (None, _) \<Rightarrow> (None, c) | (Some (d, l), _) \<Rightarrow> (Some (take (unat l) d, True), c)) = (Some (out, owned), rest) \<longleftrightarrow>
     owned \<and> c = rest \<and> (\<exists>st len c2. p = (Some (st, len), c2) \<and> out = take (unat len) st)"
  by (cases p; cases "fst p") (auto split: prod.splits)

lemma chunks_run:
  assumes "\<forall>k. grants env k" "CBB_init env True cap = Some cbb" "length child < 2 ^ 32"
  shows "(\<exists>st len c2. bindo (add_chunks env tag child) (\<lambda>_. CBB_finish env 0 True) cbb = (Some (st, len), c2) \<and>
      out = take (unat len) st) \<longleftrightarrow> (\<exists>chunks. child = concat (map (der tag) chunks) \<and> out = concat chunks)"
proof -
  have short: "length child < 2 ^ 64" using assms(3) by simp
  have yes: "\<exists>st len c2. bindo (add_chunks env tag child) (\<lambda>_. CBB_finish env 0 True) cbb = (Some (st, len), c2) \<and>
      concat chunks = take (unat len) st" if c: "child = concat (map (der tag) chunks)" for chunks
  proof -
    have lc: "length (concat chunks) \<le> length child" unfolding c by (induction chunks) (simp_all add: der_def)
    then have h: "cbb_holds env (length (concat chunks) + 0) cbb [] [] []"
      using init_holds [OF assms(2,1)] assms(3) by simp
    have "\<forall>b \<in> set chunks. length b < 2 ^ 32"
      using assms(3) lc length_in_concat [of _ chunks id] by (fastforce intro: le_less_trans)
    then obtain c1 where c1: "add_chunks env tag child cbb = (Some (), c1)" "cbb_holds env 0 c1 [] [] ([] @ concat chunks)"
      using chunks_done [OF h] short c by blast
    show ?thesis using finish_holds [OF c1(2)] c1(1) by auto
  qed
  show ?thesis
  proof
    assume "\<exists>st len c2. bindo (add_chunks env tag child) (\<lambda>_. CBB_finish env 0 True) cbb = (Some (st, len), c2) \<and>
      out = take (unat len) st"
    then obtain st len c2 c1 where r: "bindo (add_chunks env tag child) (\<lambda>_. CBB_finish env 0 True) cbb = (Some (st, len), c2)"
      "out = take (unat len) st" "add_chunks env tag child cbb = (Some (), c1)"
      by (auto simp: bindo_eq_Some_iff)
    obtain chunks where c: "child = concat (map (der tag) chunks)" using chunks_accepts [OF r(3) short] by blast
    have "out = concat chunks" using yes [OF c] r(1,2) by auto
    then show "\<exists>chunks. child = concat (map (der tag) chunks) \<and> out = concat chunks" using c by blast
  next
    assume "\<exists>chunks. child = concat (map (der tag) chunks) \<and> out = concat chunks"
    then show "\<exists>st len c2. bindo (add_chunks env tag child) (\<lambda>_. CBB_finish env 0 True) cbb = (Some (st, len), c2) \<and>
      out = take (unat len) st" using yes by blast
  qed
qed

text \<open>C12. Implicitly tagged strings. With memory available and an input of less than \<open>2 ^ 32\<close> bytes,
  \<open>CBS_get_asn1_implicit_string\<close> accepts exactly two forms: the primitive element of the outer tag,
  whose contents it returns without a buffer of its own, and the constructed element of the outer
  tag whose children are primitive elements of the inner tag, whose contents it returns joined, in a new
  buffer. What follows the element is left.\<close>

theorem implicit_string_exact:
  assumes "\<forall>k. grants env k" "length cin < 2 ^ 32" "outer_tag AND CBS_ASN1_CONSTRUCTED = 0"
  shows "CBS_get_asn1_implicit_string env True outer_tag inner_tag cin = (Some (out, owned), rest) \<longleftrightarrow>
    (if owned
     then \<exists>chunks. cin = der (outer_tag OR CBS_ASN1_CONSTRUCTED) (concat (map (der inner_tag) chunks)) @ rest \<and> out = concat chunks
     else cin = der outer_tag out @ rest)"
    (is "?got \<longleftrightarrow> ?form")
proof -
  let ?ctag = "outer_tag OR CBS_ASN1_CONSTRUCTED"
  have short: "length cin < 2 ^ 64" using assms(2) by simp
  have small: "length c < 2 ^ 32" if "cin = der t c @ r" for t c r using assms(2) that by (simp add: der_def)
  have peek: "CBS_peek_asn1_tag outer_tag cin \<longleftrightarrow> t = outer_tag" if "cin = der t c @ r" for t c r
  proof -
    have "cin \<noteq> []" using that ber_bytes_not_Nil by simp
    then have "\<not> CBS_len cin < 1" using len_pos [OF short] by simp
    then show ?thesis using parse_tag_of_der [of t c r] short that by (simp add: CBS_peek_asn1_tag_def)
  qed
  show ?thesis
  proof (cases "CBS_peek_asn1_tag outer_tag cin")
    case True
    then have "?got \<longleftrightarrow> \<not> owned \<and> cin = der outer_tag out @ rest"
      using get_asn1_iff [OF short, of outer_tag out rest] small
      by (auto simp: CBS_get_asn1_implicit_string_def bindo_eq_Some_iff)
    moreover have "cin \<noteq> der ?ctag c @ r" for c r using peek [of ?ctag c r] True tags_differ [OF assms(3)] by auto
    ultimately show ?thesis by auto
  next
    case False
    then have no: "cin \<noteq> der outer_tag c @ r" for c r using peek by blast
    obtain cbb where i: "CBB_init env True (CBS_len cin) = Some cbb" using assms(1) by (simp add: CBB_init_def)
    note run = chunks_run [OF assms(1) i, of _ inner_tag]
    have get: "CBS_get_asn1 ?ctag cin = (Some child, r) \<longleftrightarrow> cin = der ?ctag child @ r" for child r
      using get_asn1_iff [OF short, of ?ctag child r] small by blast
    have "?got \<longleftrightarrow> owned \<and> (\<exists>child. cin = der ?ctag child @ rest \<and>
        (\<exists>st len c2. bindo (add_chunks env inner_tag child) (\<lambda>_. CBB_finish env 0 True) cbb = (Some (st, len), c2) \<and>
           out = take (unat len) st))"
      using False i
      by (auto simp: CBS_get_asn1_implicit_string_def bindo_eq_Some_iff [of "CBS_get_asn1 _"] finish_case get)
    also have "\<dots> \<longleftrightarrow> owned \<and> (\<exists>child. cin = der ?ctag child @ rest \<and>
        (\<exists>chunks. child = concat (map (der inner_tag) chunks) \<and> out = concat chunks))"
      using run [OF small] by (simp cong: conj_cong)
    also have "\<dots> \<longleftrightarrow> ?form"
    proof (cases owned)
      case True
      then show ?thesis by (simp only: if_True simp_thms) blast
    next
      case False
      then show ?thesis using no by (simp only: if_False simp_thms)
    qed
    finally show ?thesis .
  qed
qed

text \<open>A context-specific string [0] in two chunks, with a byte behind it.\<close>

theorem implicit_string_exact_witness:
  "CBS_get_asn1_implicit_string roomy True 0x80000000 4 [0xA0, 6, 4, 1, 7, 4, 1, 8, 0x21] =
     (Some ([7, 8], True), [0x21])"
proof -
  have e: "der (0x80000000 OR CBS_ASN1_CONSTRUCTED) (concat (map (der 4) [[7], [8]])) = [0xA0, 6, 4, 1, 7, 4, 1, 8]"
    by code_simp
  then have "\<exists>chunks. [0xA0, 6, 4, 1, 7, 4, 1, 8, 0x21] =
      der (0x80000000 OR CBS_ASN1_CONSTRUCTED) (concat (map (der 4) chunks)) @ [0x21] \<and> [7, 8] = concat chunks"
    by (intro exI [of _ "[[7], [8]]"]) simp
  then show ?thesis
    using implicit_string_exact [OF roomy_grants, of "[0xA0, 6, 4, 1, 7, 4, 1, 8, 0x21]" "0x80000000" 4 "[7, 8]" True "[0x21]"]
    by simp
qed

end
