(* ===== verification/ConstTime.thy ===== *)
theory ConstTime
  imports Prelude
begin

text \<open>
  The constant-time primitives of \<open>crypto/internal.h\<close>, which compute comparisons and selections
  without branches. \<open>value_barrier_w\<close> is the identity on
  values. The lemmas show that each is the plain operation.
\<close>

type_synonym crypto_word_t = u64

definition constant_time_msb_w :: "crypto_word_t \<Rightarrow> crypto_word_t" where
  "constant_time_msb_w a = 0 - drop_bit 63 a"

definition constant_time_lt_w :: "crypto_word_t \<Rightarrow> crypto_word_t \<Rightarrow> crypto_word_t" where
  "constant_time_lt_w a b = constant_time_msb_w (a XOR ((a XOR b) OR ((a - b) XOR a)))"

definition constant_time_lt_8 :: "crypto_word_t \<Rightarrow> crypto_word_t \<Rightarrow> u8" where
  "constant_time_lt_8 a b = ucast (constant_time_lt_w a b)"

definition constant_time_ge_w :: "crypto_word_t \<Rightarrow> crypto_word_t \<Rightarrow> crypto_word_t" where
  "constant_time_ge_w a b = NOT (constant_time_lt_w a b)"

definition constant_time_ge_8 :: "crypto_word_t \<Rightarrow> crypto_word_t \<Rightarrow> u8" where
  "constant_time_ge_8 a b = ucast (constant_time_ge_w a b)"

definition constant_time_is_zero_w :: "crypto_word_t \<Rightarrow> crypto_word_t" where
  "constant_time_is_zero_w a = constant_time_msb_w (NOT a AND (a - 1))"

definition constant_time_is_zero_8 :: "crypto_word_t \<Rightarrow> u8" where
  "constant_time_is_zero_8 a = ucast (constant_time_is_zero_w a)"

definition constant_time_eq_w :: "crypto_word_t \<Rightarrow> crypto_word_t \<Rightarrow> crypto_word_t" where
  "constant_time_eq_w a b = constant_time_is_zero_w (a XOR b)"

definition constant_time_eq_8 :: "crypto_word_t \<Rightarrow> crypto_word_t \<Rightarrow> u8" where
  "constant_time_eq_8 a b = ucast (constant_time_eq_w a b)"

text \<open>\<open>int\<close> arguments, as two's complement words; the cast to \<open>crypto_word_t\<close> extends the sign.\<close>

definition constant_time_eq_int :: "u32 \<Rightarrow> u32 \<Rightarrow> crypto_word_t" where
  "constant_time_eq_int a b = constant_time_eq_w (scast a) (scast b)"

definition constant_time_eq_int_8 :: "u32 \<Rightarrow> u32 \<Rightarrow> u8" where
  "constant_time_eq_int_8 a b = constant_time_eq_8 (scast a) (scast b)"

definition constant_time_select_w :: "crypto_word_t \<Rightarrow> crypto_word_t \<Rightarrow> crypto_word_t \<Rightarrow> crypto_word_t" where
  "constant_time_select_w m a b = (m AND a) OR (NOT m AND b)"

definition constant_time_select_8 :: "u8 \<Rightarrow> u8 \<Rightarrow> u8 \<Rightarrow> u8" where
  "constant_time_select_8 m a b = ucast (constant_time_select_w (ucast m) (ucast a) (ucast b))"

definition constant_time_select_int :: "crypto_word_t \<Rightarrow> u32 \<Rightarrow> u32 \<Rightarrow> u32" where
  "constant_time_select_int m a b = ucast (constant_time_select_w m (scast a) (scast b))"

section \<open>Their meaning\<close>

text \<open>The masks for true and false.\<close>

definition ctmask :: "bool \<Rightarrow> 'a::len word" where
  "ctmask p = (if p then - 1 else 0)"

lemma bit_ctmask: "bit (ctmask p :: 'a::len word) n \<longleftrightarrow> p \<and> n < LENGTH('a)"
  by (simp add: ctmask_def)

lemma bit63_drop: "drop_bit 63 (a :: u64) = of_bool (bit a 63)"
proof (rule bit_word_eqI)
  fix n assume "n < LENGTH(64)"
  show "bit (drop_bit 63 a) n = bit (of_bool (bit a 63) :: u64) n"
    using bit_imp_le_length [of a "63 + n"] by (cases n) (auto simp: bit_simps)
qed

lemma bit63_iff: "bit (a :: u64) 63 \<longleftrightarrow> 2 ^ 63 \<le> unat a"
proof -
  have "bit a 63 \<longleftrightarrow> drop_bit 63 a \<noteq> 0" by (simp add: bit63_drop)
  then show ?thesis by (simp only: drop_bit_eq_0_iff not_less)
qed

lemma msb_w: "constant_time_msb_w a = ctmask (bit a 63)"
  by (simp add: constant_time_msb_w_def ctmask_def bit63_drop)

lemma unat_sub_wrap: "unat (a - b :: u64) = (if b \<le> a then unat a - unat b else unat a + 2 ^ 64 - unat b)"
  by (simp add: unat_sub_if_size word_size word_le_nat_alt)

lemma lt_w: "constant_time_lt_w a b = ctmask (a < b)"
proof -
  let ?t = "a XOR ((a XOR b) OR ((a - b) XOR a))"
  have "bit ?t 63 \<longleftrightarrow> (if bit a 63 = bit b 63 then bit (a - b) 63 else bit b 63)"
    by (auto simp: bit_simps)
  also have "\<dots> \<longleftrightarrow> a < b"
    using unat_u64_lt [of a] unat_u64_lt [of b]
    by (auto simp: bit63_iff unat_sub_wrap word_less_nat_alt word_le_nat_alt simp del: unat_u64_lt)
  finally show ?thesis by (simp only: constant_time_lt_w_def msb_w)
qed

lemma is_zero_w: "constant_time_is_zero_w a = ctmask (a = 0)"
proof -
  have "bit (NOT a AND (a - 1)) 63 \<longleftrightarrow> \<not> bit a 63 \<and> bit (a - 1) 63" by (simp add: bit_simps)
  also have "\<dots> \<longleftrightarrow> a = 0"
  proof (cases "a = 0")
    case False
    then have "unat (a - 1) \<le> unat a" by (simp add: unat_dec)
    then show ?thesis using False unfolding bit63_iff by linarith
  qed (simp add: bit_simps)
  finally show ?thesis by (simp only: constant_time_is_zero_w_def msb_w)
qed

lemma eq_w: "constant_time_eq_w a b = ctmask (a = b)"
proof -
  have "(a XOR b) XOR b = a" by (simp add: xor.assoc)
  then have "a XOR b = 0 \<longleftrightarrow> a = b" by auto
  then show ?thesis by (simp add: constant_time_eq_w_def is_zero_w)
qed

lemma ucast_ctmask: "ucast (ctmask p :: u64) = (ctmask p :: u8)"
  by (rule bit_word_eqI) (auto simp: bit_simps bit_ctmask)

lemma eq_8: "constant_time_eq_8 a b = ctmask (a = b)"
  by (simp add: constant_time_eq_8_def eq_w ucast_ctmask)

lemma select_8: "constant_time_select_8 (ctmask p) a b = (if p then a else b)"
  by (rule bit_word_eqI) (auto simp: constant_time_select_8_def constant_time_select_w_def bit_simps ctmask_def)

text \<open>C30. The branch-free comparisons and selections are the plain ones, for all 64-bit words,
  also where the difference of the operands wraps: the masks are all ones or all zeros for
  \<open><\<close>, \<open>\<ge>\<close>, zero and equality, and a selection by such a mask returns one of its operands.\<close>

theorem constant_time_correct:
  "constant_time_lt_w a b = ctmask (a < b) \<and> constant_time_ge_w a b = ctmask (b \<le> a) \<and>
   constant_time_is_zero_w a = ctmask (a = 0) \<and> constant_time_eq_w a b = ctmask (a = b) \<and>
   constant_time_select_w (ctmask p) a b = (if p then a else b) \<and>
   constant_time_lt_8 a b = ctmask (a < b) \<and> constant_time_ge_8 a b = ctmask (b \<le> a) \<and>
   constant_time_eq_8 a b = ctmask (a = b) \<and> constant_time_is_zero_8 a = ctmask (a = 0) \<and>
   constant_time_select_8 (ctmask p) c d = (if p then c else d) \<and>
   constant_time_eq_int i j = ctmask (i = j) \<and> constant_time_eq_int_8 i j = ctmask (i = j) \<and>
   constant_time_select_int (ctmask p) i j = (if p then i else j)"
proof -
  have ge: "constant_time_ge_w a b = ctmask (b \<le> a)"
    by (auto simp: constant_time_ge_w_def lt_w ctmask_def)
  have cast: "ucast (scast k :: u64) = k" for k :: u32
    by (rule bit_word_eqI) (auto simp: bit_simps)
  then have inj: "(scast i :: u64) = scast j \<longleftrightarrow> i = j" by metis
  have int: "constant_time_select_int (ctmask p) i j = (if p then i else j)"
    by (simp add: constant_time_select_int_def constant_time_select_w_def ctmask_def cast)
  have "constant_time_select_w (ctmask p) a b = (if p then a else b)"
    by (simp add: constant_time_select_w_def ctmask_def)
  then show ?thesis
    by (simp add: lt_w ge is_zero_w eq_w select_8 eq_8 constant_time_lt_8_def constant_time_ge_8_def
        constant_time_is_zero_8_def constant_time_eq_int_def constant_time_eq_int_8_def inj int ucast_ctmask)
qed

end
