(* ===== verification/Base64.thy ===== *)
theory Base64
  imports ConstTime
begin

text \<open>
  \<open>crypto/base64/base64.c\<close>: the branch-free conversion of six-bit values and characters, the
  one-shot encoder and decoder, and the streaming interface with its context of 48 bytes. The
  input of a function is the list of its \<open>in_len\<close> bytes; the output goes through a pointer into
  memory, byte by byte. Sums that the code keeps in a \<open>size_t\<close> or an \<open>unsigned\<close> are words.
\<close>

section \<open>The alphabet\<close>

definition constant_time_lt_args_8 :: "u8 \<Rightarrow> u8 \<Rightarrow> u8" where
  "constant_time_lt_args_8 a b = ucast (constant_time_msb_w (ucast a - ucast b))"

definition constant_time_in_range_8 :: "u8 \<Rightarrow> u8 \<Rightarrow> u8 \<Rightarrow> u8" where
  "constant_time_in_range_8 a lo hi = constant_time_lt_args_8 (a - lo) (hi - lo + 1)"

text \<open>The characters \<open>+\<close>, \<open>/\<close>, \<open>0\<close>, \<open>A\<close>, \<open>a\<close> and \<open>=\<close> are 43, 47, 48, 65, 97 and 61.\<close>

definition conv_bin2ascii :: "u8 \<Rightarrow> u8" where
  "conv_bin2ascii a0 =
    (let a = a0 AND 0x3f;
         ret = constant_time_select_8 (constant_time_eq_8 (ucast a) 62) 43 47;
         ret = constant_time_select_8 (constant_time_lt_args_8 a 62) (a - 52 + 48) ret;
         ret = constant_time_select_8 (constant_time_lt_args_8 a 52) (a - 26 + 97) ret;
         ret = constant_time_select_8 (constant_time_lt_args_8 a 26) (a + 65) ret
     in ret)"

definition base64_ascii_to_bin :: "u8 \<Rightarrow> u8" where
  "base64_ascii_to_bin a =
    (let is_upper = constant_time_in_range_8 a 65 90;
         is_lower = constant_time_in_range_8 a 97 122;
         is_digit = constant_time_in_range_8 a 48 57;
         is_plus = constant_time_eq_8 (ucast a) 43;
         is_slash = constant_time_eq_8 (ucast a) 47;
         is_equals = constant_time_eq_8 (ucast a) 61;
         ret = 0xff;
         ret = constant_time_select_8 is_upper (a - 65) ret;
         ret = constant_time_select_8 is_lower (a - 97 + 26) ret;
         ret = constant_time_select_8 is_digit (a - 48 + 52) ret;
         ret = constant_time_select_8 is_plus 62 ret;
         ret = constant_time_select_8 is_slash 63 ret;
         ret = constant_time_select_8 is_equals 0 ret
     in ret)"

section \<open>One-shot encoding\<close>

definition EVP_EncodedLength :: "u64 \<Rightarrow> u64 option" where
  "EVP_EncodedLength len =
    (if len + 2 < len then None
     else let len = (len + 2) div 3
          in if drop_bit 2 (push_bit 2 len) \<noteq> len then None
             else let len = push_bit 2 len
                  in if len + 1 < len then None else Some (len + 1))"

text \<open>The loop, with the remaining input, the output pointer and the count; it returns memory,
  pointer and count.\<close>

fun encode_block_loop :: "memory \<Rightarrow> nat \<Rightarrow> u64 \<Rightarrow> bytes \<Rightarrow> memory \<times> nat \<times> u64" where
  "encode_block_loop m dst ret [] = (m, dst, ret)"
| "encode_block_loop m dst ret (s0 # s1 # s2 # src) =
    (let l = push_bit 16 (ucast s0 :: u32) OR push_bit 8 (ucast s1) OR ucast s2
     in encode_block_loop
          (mem_store m dst
            [conv_bin2ascii (ucast (drop_bit 18 l)), conv_bin2ascii (ucast (drop_bit 12 l)),
             conv_bin2ascii (ucast (drop_bit 6 l)), conv_bin2ascii (ucast l)])
          (dst + 4) (ret + 4) src)"
| "encode_block_loop m dst ret (s0 # src) =
    (let l = push_bit 16 (ucast s0 :: u32);
         l = (case src of [] \<Rightarrow> l | s1 # _ \<Rightarrow> l OR push_bit 8 (ucast s1))
     in (mem_store m dst
          [conv_bin2ascii (ucast (drop_bit 18 l)), conv_bin2ascii (ucast (drop_bit 12 l)),
           (if src = [] then 61 else conv_bin2ascii (ucast (drop_bit 6 l))), 61],
         dst + 4, ret + 4))"

definition EVP_EncodeBlock :: "memory \<Rightarrow> nat \<Rightarrow> bytes \<Rightarrow> memory \<times> u64" where
  "EVP_EncodeBlock m dst src =
    (let (m, dst, ret) = encode_block_loop m dst 0 src in (m(dst := 0), ret))"

section \<open>Streaming encoding\<close>

record EVP_ENCODE_CTX =
  data_used :: u32
  data :: bytes
  eof_seen :: bool
  error_encountered :: bool

definition EVP_EncodeInit :: "EVP_ENCODE_CTX \<Rightarrow> EVP_ENCODE_CTX" where
  "EVP_EncodeInit ctx =
    \<lparr>data_used = 0, data = replicate 48 0, eof_seen = False, error_encountered = False\<rparr>"

abbreviation INT_MAX :: u64 where
  "INT_MAX \<equiv> 0x7FFFFFFF"

text \<open>One line: the block, a newline and the terminating zero. It returns the number of characters
  of the block.\<close>

definition encode_line :: "memory \<Rightarrow> nat \<Rightarrow> bytes \<Rightarrow> memory \<times> u64" where
  "encode_line m out line =
    (let (m, encoded) = EVP_EncodeBlock m out line
     in (m(out + unat encoded := 10, out + unat encoded + 1 := 0), encoded))"

text \<open>The loop over full lines of the input. \<open>None\<close> is the return on overflow of \<open>total\<close>;
  otherwise the total and the input that is left.\<close>

function (sequential) encode_lines ::
    "memory \<Rightarrow> nat \<Rightarrow> u64 \<Rightarrow> bytes \<Rightarrow> memory \<times> (u64 \<times> bytes) option" where
  "encode_lines m out tot inp =
    (if 48 \<le> length inp
     then let (m, encoded) = encode_line m out (take 48 inp)
          in if tot + encoded + 1 < tot then (m, None)
             else encode_lines m (out + unat encoded + 1) (tot + (encoded + 1)) (drop 48 inp)
     else (m, Some (tot, inp)))"
  by pat_completeness auto
termination by (relation "measure (\<lambda>(m, out, tot, inp). length inp)") auto

declare encode_lines.simps [simp del]

text \<open>The result is the context, the memory and \<open>*out_len\<close>; \<open>None\<close> is a failing assertion.\<close>

definition EVP_EncodeUpdate ::
    "EVP_ENCODE_CTX \<Rightarrow> memory \<Rightarrow> nat \<Rightarrow> bytes \<Rightarrow> (EVP_ENCODE_CTX \<times> memory \<times> int) option" where
  "EVP_EncodeUpdate ctx m out inp =
    (let used = unat (data_used ctx) in
     if inp = [] then Some (ctx, m, 0)
     else if \<not> used < 48 then None
     else if length inp < 48 - used
     then Some (ctx\<lparr>data := put_bytes used inp (data ctx),
                    data_used := data_used ctx + of_nat (length inp)\<rparr>, m, 0)
     else
       let (ctx, m, out, tot, inp) =
         (if data_used ctx \<noteq> 0
          then let todo = 48 - used;
                   block = put_bytes used (take todo inp) (data ctx);
                   (m, encoded) = encode_line m out block
               in (ctx\<lparr>data := block, data_used := 0\<rparr>, m, out + unat encoded + 1, encoded + 1, drop todo inp)
          else (ctx, m, out, 0, inp))
       in case encode_lines m out tot inp of
            (m, None) \<Rightarrow> Some (ctx, m, 0)
          | (m, Some (tot, rest)) \<Rightarrow>
              Some (ctx\<lparr>data := put_bytes 0 rest (data ctx), data_used := of_nat (length rest)\<rparr>,
                    m, if INT_MAX < tot then 0 else int (unat tot)))"

definition EVP_EncodeFinal :: "EVP_ENCODE_CTX \<Rightarrow> memory \<Rightarrow> nat \<Rightarrow> EVP_ENCODE_CTX \<times> memory \<times> int" where
  "EVP_EncodeFinal ctx m out =
    (if data_used ctx = 0 then (ctx, m, 0)
     else let (m, encoded) = encode_line m out (take (unat (data_used ctx)) (data ctx))
          in (ctx\<lparr>data_used := 0\<rparr>, m, int (unat (encoded + 1))))"

section \<open>One-shot decoding\<close>

definition EVP_DecodedLength :: "u64 \<Rightarrow> u64 option" where
  "EVP_DecodedLength len = (if len mod 4 \<noteq> 0 then None else Some ((len div 4) * 3))"

text \<open>\<open>padding_pattern\<close> has the bit of each \<open>=\<close> among the four characters. The result is memory and
  \<open>*out_num_bytes\<close>.\<close>

definition padding_pattern :: "bytes \<Rightarrow> u32" where
  "padding_pattern inp =
    (let eq = (\<lambda>i. of_bool (inp ! i = 61) :: u32)
     in push_bit 3 (eq 0) OR push_bit 2 (eq 1) OR push_bit 1 (eq 2) OR eq 3)"

definition base64_decode_quad :: "memory \<Rightarrow> nat \<Rightarrow> bytes \<Rightarrow> (memory \<times> nat) option" where
  "base64_decode_quad m out inp =
    (let a = base64_ascii_to_bin (inp ! 0); b = base64_ascii_to_bin (inp ! 1);
         c = base64_ascii_to_bin (inp ! 2); d = base64_ascii_to_bin (inp ! 3)
     in if a = 0xff \<or> b = 0xff \<or> c = 0xff \<or> d = 0xff then None
        else let v = push_bit 18 (ucast a :: u32) OR push_bit 12 (ucast b) OR push_bit 6 (ucast c) OR ucast d;
                 p = padding_pattern inp
             in if p = 0 then Some (mem_store m out [ucast (drop_bit 16 v), ucast (drop_bit 8 v), ucast v], 3)
                else if p = 1 then Some (mem_store m out [ucast (drop_bit 16 v), ucast (drop_bit 8 v)], 2)
                else if p = 3 then Some (mem_store m out [ucast (drop_bit 16 v)], 1)
                else None)"

text \<open>The loop of \<open>EVP_DecodeBase64\<close> over the quads that are left; \<open>Inl\<close> is failure with the
  memory as it is then.\<close>

fun decode_quads :: "memory \<Rightarrow> nat \<Rightarrow> u64 \<Rightarrow> bytes \<Rightarrow> memory + memory \<times> u64" where
  "decode_quads m out bytes_out inp =
    (if inp = [] then Inr (m, bytes_out)
     else case base64_decode_quad m out inp of
       None \<Rightarrow> Inl m
     | Some (m, n) \<Rightarrow>
         if n \<noteq> 3 \<and> length inp \<noteq> 4 then Inl m
         else decode_quads m (out + n) (bytes_out + of_nat n) (drop 4 inp))"

declare decode_quads.simps [simp del]

text \<open>The memory, and \<open>*out_len\<close> where the function returns one (it is zero otherwise).\<close>

definition EVP_DecodeBase64 :: "memory \<Rightarrow> nat \<Rightarrow> u64 \<Rightarrow> bytes \<Rightarrow> memory \<times> u64 option" where
  "EVP_DecodeBase64 m out max_out inp =
    (if length inp mod 4 \<noteq> 0 then (m, None)
     else case EVP_DecodedLength (of_nat (length inp)) of
       None \<Rightarrow> (m, None)
     | Some max_len \<Rightarrow>
         if max_out < max_len then (m, None)
         else case decode_quads m out 0 inp of
           Inl m \<Rightarrow> (m, None)
         | Inr (m, n) \<Rightarrow> (m, Some n))"

text \<open>\<open>EVP_DecodeBlock\<close> trims blanks in front and white space behind, and returns \<open>-1\<close> or the
  length after padding the result with zeros.\<close>

definition is_blank :: "u8 \<Rightarrow> bool" where
  "is_blank c \<longleftrightarrow> c = 32 \<or> c = 9"

definition is_space :: "u8 \<Rightarrow> bool" where
  "is_space c \<longleftrightarrow> c = 32 \<or> c = 9 \<or> c = 13 \<or> c = 10"

fun trim_front :: "bytes \<Rightarrow> bytes" where
  "trim_front [] = []"
| "trim_front (c # src) = (if is_blank c then trim_front src else c # src)"

fun trim_back :: "bytes \<Rightarrow> bytes" where
  "trim_back src = (if src \<noteq> [] \<and> is_space (last src) then trim_back (butlast src) else src)"

declare trim_back.simps [simp del]

function pad_zeros :: "memory \<Rightarrow> nat \<Rightarrow> nat \<Rightarrow> memory \<times> nat" where
  "pad_zeros m dst n = (if n mod 3 \<noteq> 0 then pad_zeros (m(dst + n := 0)) dst (n + 1) else (m, n))"
  by pat_completeness auto
termination
  by (relation "measure (\<lambda>(m, dst, n). (3 - n mod 3) mod 3)") (auto simp: mod_Suc)

declare pad_zeros.simps [simp del]

definition EVP_DecodeBlock :: "memory \<Rightarrow> nat \<Rightarrow> bytes \<Rightarrow> memory \<times> int" where
  "EVP_DecodeBlock m dst src =
    (let src = trim_back (trim_front src)
     in case EVP_DecodedLength (of_nat (length src)) of
          None \<Rightarrow> (m, - 1)
        | Some dst_len \<Rightarrow>
            if INT_MAX < dst_len then (m, - 1)
            else case EVP_DecodeBase64 m dst dst_len src of
                   (m, None) \<Rightarrow> (m, - 1)
                 | (m, Some n) \<Rightarrow> (let (m, k) = pad_zeros m dst (unat n) in (m, int k)))"

section \<open>Streaming decoding\<close>

definition EVP_DecodeInit :: "EVP_ENCODE_CTX \<Rightarrow> EVP_ENCODE_CTX" where
  "EVP_DecodeInit ctx =
    \<lparr>data_used = 0, data = replicate 48 0, eof_seen = False, error_encountered = False\<rparr>"

text \<open>The loop over the input. \<open>Inl\<close> is the return of \<open>-1\<close>.\<close>

fun decode_chars ::
    "EVP_ENCODE_CTX \<Rightarrow> memory \<Rightarrow> nat \<Rightarrow> u64 \<Rightarrow> bytes \<Rightarrow>
     EVP_ENCODE_CTX \<times> memory + EVP_ENCODE_CTX \<times> memory \<times> u64" where
  "decode_chars ctx m out bytes_out [] = Inr (ctx, m, bytes_out)"
| "decode_chars ctx m out bytes_out (c # inp) =
    (if is_space c then decode_chars ctx m out bytes_out inp
     else if eof_seen ctx then Inl (ctx\<lparr>error_encountered := True\<rparr>, m)
     else
       let ctx = ctx\<lparr>data := (data ctx)[unat (data_used ctx) := c], data_used := data_used ctx + 1\<rparr>
       in if data_used ctx = 4
          then case base64_decode_quad m out (data ctx) of
            None \<Rightarrow> Inl (ctx\<lparr>error_encountered := True\<rparr>, m)
          | Some (m, n) \<Rightarrow>
              decode_chars (ctx\<lparr>data_used := 0, eof_seen := eof_seen ctx \<or> n < 3\<rparr>) m (out + n)
                (bytes_out + of_nat n) inp
          else decode_chars ctx m out bytes_out inp)"

text \<open>The context, the memory, \<open>*out_len\<close> and the return value.\<close>

definition EVP_DecodeUpdate ::
    "EVP_ENCODE_CTX \<Rightarrow> memory \<Rightarrow> nat \<Rightarrow> bytes \<Rightarrow> EVP_ENCODE_CTX \<times> memory \<times> int \<times> int" where
  "EVP_DecodeUpdate ctx m out inp =
    (if error_encountered ctx then (ctx, m, 0, - 1)
     else case decode_chars ctx m out 0 inp of
       Inl (ctx, m) \<Rightarrow> (ctx, m, 0, - 1)
     | Inr (ctx, m, bytes_out) \<Rightarrow>
         if INT_MAX < bytes_out then (ctx\<lparr>error_encountered := True\<rparr>, m, 0, - 1)
         else (ctx, m, int (unat bytes_out), if eof_seen ctx then 0 else 1))"

definition EVP_DecodeFinal :: "EVP_ENCODE_CTX \<Rightarrow> int" where
  "EVP_DecodeFinal ctx = (if error_encountered ctx \<or> data_used ctx \<noteq> 0 then - 1 else 1)"

end
