(* ===== verification/Base64Alphabet.thy ===== *)
theory Base64Alphabet
  imports Base64
begin

text \<open>
  The alphabet of Base64 and the reference encoding by the tables of RFC 4648. The branch-free
  conversions are the tables, and the loop of \<open>EVP_EncodeBlock\<close> stores the reference encoding.
\<close>

section \<open>The alphabet\<close>

definition b64_char :: "nat \<Rightarrow> u8" where
  "b64_char n = of_char (''ABCDEFGHIJKLMNOPQRSTUVWXYZabcdefghijklmnopqrstuvwxyz0123456789+/'' ! n)"

lemma lt_args_8: "constant_time_lt_args_8 a b = ctmask (a < b)"
proof -
  have "bit (ucast a - ucast b :: u64) 63 \<longleftrightarrow> a < b"
    using unat_u8_lt [of a] unat_u8_lt [of b]
    by (auto simp: bit63_iff unat_sub_wrap word_less_nat_alt word_le_nat_alt simp del: unat_u8_lt)
  then show ?thesis by (simp add: constant_time_lt_args_8_def msb_w ucast_ctmask)
qed

lemma in_range_8: "constant_time_in_range_8 a lo hi = ctmask (a - lo < hi - lo + 1)"
  by (simp add: constant_time_in_range_8_def lt_args_8)

lemma eq_8_ucast: "constant_time_eq_8 (ucast (a :: u8)) (ucast b) = ctmask (a = b)"
proof -
  have "(ucast a :: u64) = ucast b \<longleftrightarrow> a = b"
    by (metis unat_ucast_u8_u64 word_unat_eq_iff)
  then show ?thesis by (simp add: eq_8)
qed

lemma conv_plain:
  "conv_bin2ascii a =
    (let a = a AND 63 in if a < 26 then a + 65 else if a < 52 then a - 26 + 97
     else if a < 62 then a - 52 + 48 else if a = 62 then 43 else 47)"
  using eq_8_ucast [of "a AND 63" 62]
  by (simp add: conv_bin2ascii_def Let_def select_8 lt_args_8)

lemma bin_plain:
  "base64_ascii_to_bin a =
    (if a = 61 then 0 else if a = 47 then 63 else if a = 43 then 62
     else if a - 48 < 10 then a - 48 + 52 else if a - 97 < 26 then a - 97 + 26
     else if a - 65 < 26 then a - 65 else 0xff)"
  using eq_8_ucast [of a 43] eq_8_ucast [of a 47] eq_8_ucast [of a 61]
  by (simp add: base64_ascii_to_bin_def Let_def select_8 in_range_8)

lemma alphabet_table:
  "list_all (\<lambda>n. conv_bin2ascii (of_nat n) = b64_char n \<and> base64_ascii_to_bin (b64_char n) = of_nat n \<and>
     b64_char n \<noteq> 61 \<and> \<not> is_space (b64_char n)) [0..<64]"
  by (simp add: upt_rec conv_plain bin_plain b64_char_def is_space_def)

lemma alphabet:
  assumes "n < 64"
  shows "conv_bin2ascii (of_nat n) = b64_char n" "base64_ascii_to_bin (b64_char n) = of_nat n"
    "b64_char n \<noteq> 61" "\<not> is_space (b64_char n)"
  using alphabet_table assms by (simp_all add: list_all_iff)

lemma conv_char: "conv_bin2ascii x = b64_char (unat x mod 64)"
proof -
  have "x AND 63 = of_nat (unat x mod 64)"
  proof -
    have "x AND 63 = take_bit 6 x" by (simp add: take_bit_eq_mask mask_eq_exp_minus_1)
    then have "unat (x AND 63) = unat x mod 64" by (simp add: unsigned_take_bit_eq take_bit_nat_def)
    then show ?thesis by (rule word_eq_of_natI)
  qed
  moreover have "conv_bin2ascii x = conv_bin2ascii (x AND 63)" by (simp add: conv_plain)
  ultimately show ?thesis by (simp add: alphabet)
qed

section \<open>Reference encoding\<close>

text \<open>Three bytes are four six-bit digits, most significant first; a shorter last group is padded
  with zero bits and \<open>=\<close>.\<close>

fun base64 :: "bytes \<Rightarrow> bytes" where
  "base64 [] = []"
| "base64 (a # b # c # src) =
    (let n = unat a * 65536 + unat b * 256 + unat c
     in [b64_char (n div 262144), b64_char (n div 4096 mod 64), b64_char (n div 64 mod 64),
         b64_char (n mod 64)] @ base64 src)"
| "base64 [a, b] =
    (let n = unat a * 1024 + unat b * 4
     in [b64_char (n div 4096), b64_char (n div 64 mod 64), b64_char (n mod 64), 61])"
| "base64 [a] = (let n = unat a * 16 in [b64_char (n div 64), b64_char (n mod 64), 61, 61])"

lemma length_base64: "length (base64 src) = 4 * ((length src + 2) div 3)"
  by (induction src rule: base64.induct) (simp_all add: Let_def, presburger)

lemma base64_append: "length xs mod 3 = 0 \<Longrightarrow> base64 (xs @ ys) = base64 xs @ base64 ys"
  by (induction xs rule: base64.induct) (simp_all add: Let_def)

text \<open>The four characters of a 24-bit value, as the code computes them.\<close>

lemma conv_digit: "conv_bin2ascii (ucast (drop_bit k (l :: u32))) = b64_char (unat l div 2 ^ k mod 64)"
proof -
  have "unat (ucast (drop_bit k l) :: u8) = unat l div 2 ^ k mod 256"
    by (simp add: unsigned_ucast_eq take_bit_nat_def unat_drop_bit_div)
  then show ?thesis by (simp add: conv_char mod_mod_cancel)
qed

lemma unat_group:
  "unat (push_bit 16 (ucast (a :: u8) :: u32) OR push_bit 8 (ucast (b :: u8)) OR ucast (c :: u8)) =
   unat a * 65536 + unat b * 256 + unat c"
proof -
  have i: "unat (push_bit 8 (ucast b :: u32) OR ucast c) = unat b * 256 + unat c"
    using unat_shift_or [of "ucast b" 8 "ucast c" 8] by simp
  have "unat b * 256 + unat c < 65536" using unat_u8_lt [of b] unat_u8_lt [of c] by linarith
  then show ?thesis
    using unat_shift_or [of "ucast a" 8 "push_bit 8 (ucast b) OR ucast c" 16] i
    by (simp add: or.assoc)
qed

lemma conv_digits:
  "conv_bin2ascii (ucast (drop_bit 18 (l :: u32))) = b64_char (unat l div 262144 mod 64)"
  "conv_bin2ascii (ucast (drop_bit 12 l)) = b64_char (unat l div 4096 mod 64)"
  "conv_bin2ascii (ucast (drop_bit 6 l)) = b64_char (unat l div 64 mod 64)"
  "conv_bin2ascii (ucast l) = b64_char (unat l mod 64)"
proof -
  have p: "(2::nat) ^ 18 = 262144" "(2::nat) ^ 12 = 4096" "(2::nat) ^ 6 = 64" "(2::nat) ^ 0 = 1" by simp_all
  show "conv_bin2ascii (ucast (drop_bit 18 l)) = b64_char (unat l div 262144 mod 64)"
    "conv_bin2ascii (ucast (drop_bit 12 l)) = b64_char (unat l div 4096 mod 64)"
    "conv_bin2ascii (ucast (drop_bit 6 l)) = b64_char (unat l div 64 mod 64)"
    by (simp_all only: conv_digit p)
  show "conv_bin2ascii (ucast l) = b64_char (unat l mod 64)"
    using conv_digit [of 0 l] by (simp only: p div_by_1 drop_bit_0 id_apply)
qed

lemma conv_group:
  assumes "unat (l :: u32) = n" "n < 16777216"
  shows "[conv_bin2ascii (ucast (drop_bit 18 l)), conv_bin2ascii (ucast (drop_bit 12 l)),
     conv_bin2ascii (ucast (drop_bit 6 l)), conv_bin2ascii (ucast l)] =
    [b64_char (n div 262144), b64_char (n div 4096 mod 64), b64_char (n div 64 mod 64), b64_char (n mod 64)]"
proof -
  have "n div 262144 < 64" using assms(2) by (simp add: less_mult_imp_div_less)
  then show ?thesis by (simp only: conv_digits(1-3) conv_digits(4) [of l] assms(1) mod_less)
qed

lemma group_less: "unat (a :: u8) * 65536 + unat (b :: u8) * 256 + unat (c :: u8) < 16777216"
  using unat_u8_lt [of a] unat_u8_lt [of b] unat_u8_lt [of c] by linarith

lemma encode_block_loop:
  "encode_block_loop m dst ret src =
    (mem_store m dst (base64 src), dst + length (base64 src), ret + of_nat (length (base64 src)))"
proof (induction m dst ret src rule: encode_block_loop.induct [case_names Done Group One Two])
  case (Group m dst ret a b c src)
  have s4: "dst + 4 = Suc (Suc (Suc (Suc dst)))" by simp
  show ?case using Group
    by (simp only: encode_block_loop.simps Let_def conv_group [OF unat_group group_less] base64.simps
        mem_store_append prod.inject) (simp add: s4)
next
  case (One m dst ret a)
  let ?l = "push_bit 16 (ucast a :: u32)"
  have u: "unat ?l = unat a * 65536" using unat_group [of a 0 0] by simp
  have lt: "unat a * 16 div 64 < 64" using unat_u8_lt [of a] by (simp add: less_mult_imp_div_less)
  have "unat a * 65536 div 262144 = unat a * 16 div 64"
    using div_mult_mult1 [of 4096 "unat a * 16" 64] by (simp add: mult.commute)
  then have "conv_bin2ascii (ucast (drop_bit 18 ?l)) = b64_char (unat a * 16 div 64)"
    using lt by (simp only: conv_digits(1) u mod_less)
  moreover have "unat a * 65536 div 4096 = unat a * 16"
    using nonzero_mult_div_cancel_left [of 4096 "unat a * 16"] by simp
  then have "conv_bin2ascii (ucast (drop_bit 12 ?l)) = b64_char (unat a * 16 mod 64)"
    by (simp only: conv_digits(2) u)
  ultimately show ?case
    by (simp only: encode_block_loop.simps Let_def list.case base64.simps simp_thms if_True) (simp add: fun_eq_iff)
next
  case (Two m dst ret a b)
  let ?l = "push_bit 16 (ucast a :: u32) OR push_bit 8 (ucast b)" and ?n = "unat a * 1024 + unat b * 4"
  have u: "unat ?l = ?n * 64" using unat_group [of a b 0] by simp
  have lt: "?n div 4096 < 64"
    using unat_u8_lt [of a] unat_u8_lt [of b] by (intro less_mult_imp_div_less) linarith
  have "?n * 64 div 262144 = ?n div 4096"
    using div_mult_mult1 [of 64 ?n 4096] by (simp only: mult.commute) simp
  then have "conv_bin2ascii (ucast (drop_bit 18 ?l)) = b64_char (?n div 4096)"
    using lt by (simp only: conv_digits(1) u mod_less)
  moreover have "?n * 64 div 4096 = ?n div 64"
    using div_mult_mult1 [of 64 ?n 64] by (simp only: mult.commute) simp
  then have "conv_bin2ascii (ucast (drop_bit 12 ?l)) = b64_char (?n div 64 mod 64)"
    by (simp only: conv_digits(2) u)
  moreover have "?n * 64 div 64 = ?n" by simp
  then have "conv_bin2ascii (ucast (drop_bit 6 ?l)) = b64_char (?n mod 64)"
    by (simp only: conv_digits(3) u)
  ultimately show ?case
    by (simp only: encode_block_loop.simps Let_def list.case base64.simps list.distinct if_False) (simp add: fun_eq_iff)
qed simp

end
