(* ===== verification/Base64Props.thy ===== *)
theory Base64Props
  imports Base64Alphabet
begin

text \<open>
  The Base64 coder: one-shot encoding and decoding, and the streaming interface, whose result does
  not depend on how its input is cut into calls.
\<close>

section \<open>One-shot encoding\<close>

lemma encode_block:
  "EVP_EncodeBlock m dst src =
    (mem_store m dst (base64 src @ [0]), of_nat (length (base64 src)))"
  by (simp add: EVP_EncodeBlock_def encode_block_loop)

lemma unat_push_2: "unat (push_bit 2 (w :: u64)) = unat w * 4 mod 2 ^ 64"
  by (simp add: push_bit_eq_mult unat_word_ariths mult.commute)

lemma shift_back_iff: "drop_bit 2 (push_bit 2 w) = w \<longleftrightarrow> unat (w :: u64) < 2 ^ 62"
proof -
  have "drop_bit 2 (push_bit 2 w) = w \<longleftrightarrow> unat w * 4 mod 2 ^ 64 div 4 = unat w"
    by (simp only: word_unat_eq_iff unat_drop_bit_div unat_push_2) simp
  also have "\<dots> \<longleftrightarrow> unat w < 2 ^ 62"
  proof (cases "unat w < 2 ^ 62")
    case False
    have "unat w * 4 mod 2 ^ 64 div 4 < 2 ^ 62" by (intro less_mult_imp_div_less) simp
    then show ?thesis using False by linarith
  qed simp
  finally show ?thesis .
qed

lemma encoded_length:
  "EVP_EncodedLength len =
    (if 4 * ((unat len + 2) div 3) + 1 < 2 ^ 64 then Some (of_nat (4 * ((unat len + 2) div 3) + 1)) else None)"
proof (cases "unat len + 2 < 2 ^ 64")
  case False
  have "len + 2 < len"
    using add_overflow_or_above [where n = "2 :: u64" and k = 2 and a = len and m = "0xFFFFFFFFFFFFFFFF"] False unat_u64_lt [of len] unat_u64_lt [of "len + 2"]
    by (auto simp: word_less_nat_alt simp del: unat_u64_lt)
  moreover have "2 ^ 64 div 3 \<le> (unat len + 2) div 3" using False by (intro div_le_mono) simp
  then have "\<not> 4 * ((unat len + 2) div 3) + 1 < 2 ^ 64" by simp
  ultimately show ?thesis by (simp add: EVP_EncodedLength_def)
next
  case True
  let ?k = "(unat len + 2) div 3"
  have "unat (len + 2) = unat len + 2" using True unat_add_lem [of len 2] by simp
  then have nw: "\<not> len + 2 < len" and k: "unat ((len + 2) div 3) = ?k"
    by (simp_all add: word_less_nat_alt unat_div)
  show ?thesis
  proof (cases "?k < 2 ^ 62")
    case True
    have p: "unat (push_bit 2 ((len + 2) div 3)) = 4 * ?k"
      using True by (simp only: unat_push_2 k) simp
    then have "unat (push_bit 2 ((len + 2) div 3) + 1) = 4 * ?k + 1"
      using True by (subst unat_add_lem [THEN iffD1]) simp_all
    then have "push_bit 2 ((len + 2) div 3) + 1 = of_nat (4 * ?k + 1)"
      "\<not> push_bit 2 ((len + 2) div 3) + 1 < push_bit 2 ((len + 2) div 3)"
      using p by (simp_all only: word_less_nat_alt word_eq_of_natI)
    then show ?thesis using nw True by (simp only: EVP_EncodedLength_def Let_def shift_back_iff k) simp
  next
    case False
    then show ?thesis using nw by (simp only: EVP_EncodedLength_def Let_def shift_back_iff k) simp
  qed
qed
section \<open>Decoding one quad\<close>

definition quad_bytes :: "bytes \<Rightarrow> bytes option" where
  "quad_bytes inp =
    (let a = base64_ascii_to_bin (inp ! 0); b = base64_ascii_to_bin (inp ! 1);
         c = base64_ascii_to_bin (inp ! 2); d = base64_ascii_to_bin (inp ! 3);
         v = push_bit 18 (ucast a :: u32) OR push_bit 12 (ucast b) OR push_bit 6 (ucast c) OR ucast d;
         bs = [ucast (drop_bit 16 v), ucast (drop_bit 8 v), ucast v]
     in if a = 0xff \<or> b = 0xff \<or> c = 0xff \<or> d = 0xff then None
        else if padding_pattern inp = 0 then Some bs
        else if padding_pattern inp = 1 then Some (take 2 bs)
        else if padding_pattern inp = 3 then Some (take 1 bs) else None)"

lemma decode_quad:
  "base64_decode_quad m out inp =
    (case quad_bytes inp of None \<Rightarrow> None | Some bs \<Rightarrow> Some (mem_store m out bs, length bs))"
  by (simp add: quad_bytes_def base64_decode_quad_def Let_def del: mem_store.simps)

lemma length_quad_bytes: "quad_bytes inp = Some bs \<Longrightarrow> 1 \<le> length bs \<and> length bs \<le> 3"
  by (auto simp: quad_bytes_def Let_def split: if_splits)

lemma padding_none: "w \<noteq> 61 \<Longrightarrow> x \<noteq> 61 \<Longrightarrow>
    padding_pattern [w, x, y, z] = (if y = 61 then if z = 61 then 3 else 2 else if z = 61 then 1 else 0)"
  by (simp add: padding_pattern_def Let_def)

lemma ucast_drop_bit_of_nat: "(ucast (drop_bit k (v :: u32)) :: u8) = of_nat (unat v div 2 ^ k)"
  by (simp flip: unat_drop_bit_div)

lemma ucast_drop_bits:
  "(ucast (drop_bit 16 (v :: u32)) :: u8) = of_nat (unat v div 65536)"
  "(ucast (drop_bit 8 v) :: u8) = of_nat (unat v div 256)"
  using ucast_drop_bit_of_nat [of 16 v] ucast_drop_bit_of_nat [of 8 v] by simp_all

lemma unat_digits:
  assumes "i < 64" "j < 64" "k < 64" "l < 64"
  shows "unat (push_bit 18 (of_nat i :: u32) OR push_bit 12 (of_nat j) OR push_bit 6 (of_nat k) OR of_nat l) =
    i * 262144 + j * 4096 + k * 64 + l"
proof -
  have u: "unat (of_nat x :: u32) = x" if "x < 64" for x
    using that by (simp add: unat_of_nat)
  have 1: "unat (push_bit 6 (of_nat k :: u32) OR of_nat l) = k * 64 + l"
    using unat_shift_or [of "of_nat k" 6 "of_nat l" 6] assms by (simp add: u)
  have 2: "unat (push_bit 12 (of_nat j :: u32) OR (push_bit 6 (of_nat k) OR of_nat l)) = j * 4096 + (k * 64 + l)"
    using unat_shift_or [of "of_nat j" 6 "push_bit 6 (of_nat k) OR of_nat l" 12] assms 1 by (simp add: u)
  show ?thesis
    using unat_shift_or [of "of_nat i" 6 "push_bit 12 (of_nat j) OR (push_bit 6 (of_nat k) OR of_nat l)" 18]
      assms 2 by (simp add: u or.assoc)
qed

lemma of_nat_digit:
  assumes "i < 64"
  shows "(of_nat i :: u8) \<noteq> 255" "ucast (of_nat i :: u8) = (of_nat i :: u32)"
proof -
  have u: "unat (of_nat i :: u8) = i" using assms by (simp add: unat_of_nat)
  show "(of_nat i :: u8) \<noteq> 255"
  proof
    assume "(of_nat i :: u8) = 255"
    then have "unat (of_nat i :: u8) = 255" by simp
    then show False using u assms by simp
  qed
  show "ucast (of_nat i :: u8) = (of_nat i :: u32)"
    using u by (metis unat_ucast_u8_u32 word_eq_of_natI)
qed

lemma bin_equals: "base64_ascii_to_bin 61 = of_nat 0"
  by (simp add: bin_plain)

lemma quad_bytes_value:
  assumes "base64_ascii_to_bin (inp ! 0) = of_nat i" "base64_ascii_to_bin (inp ! 1) = of_nat j"
    "base64_ascii_to_bin (inp ! 2) = of_nat k" "base64_ascii_to_bin (inp ! 3) = of_nat l"
    "i < 64" "j < 64" "k < 64" "l < 64"
  shows "quad_bytes inp =
    (let n = i * 262144 + j * 4096 + k * 64 + l; bs = [of_nat (n div 65536), of_nat (n div 256), of_nat n]
     in if padding_pattern inp = 0 then Some bs else if padding_pattern inp = 1 then Some (take 2 bs)
        else if padding_pattern inp = 3 then Some (take 1 bs) else None)"
proof -
  define v where "v = push_bit 18 (of_nat i :: u32) OR push_bit 12 (of_nat j) OR push_bit 6 (of_nat k) OR of_nat l"
  have n: "unat v = i * 262144 + j * 4096 + k * 64 + l" using assms by (simp only: v_def unat_digits)
  have u: "(ucast v :: u8) = of_nat (unat v)" by simp
  show ?thesis
    unfolding quad_bytes_def Let_def assms(1-4) of_nat_digit(2) [OF assms(5)] of_nat_digit(2) [OF assms(6)]
      of_nat_digit(2) [OF assms(7)] of_nat_digit(2) [OF assms(8)] v_def [symmetric] ucast_drop_bits u n
    using assms by (simp only: of_nat_digit simp_thms if_False)
qed

lemma quad_digits:
  assumes "i < 64" "j < 64" "k < 64" "l < 64"
  shows "quad_bytes [b64_char i, b64_char j, b64_char k, b64_char l] =
      (let n = i * 262144 + j * 4096 + k * 64 + l in Some [of_nat (n div 65536), of_nat (n div 256), of_nat n])"
    "quad_bytes [b64_char i, b64_char j, b64_char k, 61] =
      (let n = i * 262144 + j * 4096 + k * 64 in Some [of_nat (n div 65536), of_nat (n div 256)])"
    "quad_bytes [b64_char i, b64_char j, 61, 61] = (let n = i * 262144 + j * 4096 in Some [of_nat (n div 65536)])"
  using assms quad_bytes_value [of "[b64_char i, b64_char j, b64_char k, b64_char l]" i j k l]
    quad_bytes_value [of "[b64_char i, b64_char j, b64_char k, 61]" i j k 0]
    quad_bytes_value [of "[b64_char i, b64_char j, 61, 61]" i j 0 0]
  by (simp_all add: alphabet bin_equals padding_none Let_def del: of_nat_add of_nat_mult)

section \<open>The reference encoding is decoded\<close>

lemma group_digits:
  "n div 262144 * 262144 + n div 4096 mod 64 * 4096 + n div 64 mod 64 * 64 + n mod 64 = (n :: nat)"
proof -
  have "n div 64 div 64 = n div 4096" "n div 4096 div 64 = n div 262144"
    by (simp_all flip: div_mult2_eq)
  then show ?thesis
    using div_mult_mod_eq [of n 64] div_mult_mod_eq [of "n div 64" 64] div_mult_mod_eq [of "n div 4096" 64]
    by linarith
qed

lemma div_lt_64: "n < 64 * m \<Longrightarrow> n div m < (64 :: nat)"
  by (simp add: less_mult_imp_div_less)

lemma u8_mult_256 [simp]: "a * 256 = (0 :: u8)" "256 * a = 0" "a * 65536 = 0"
proof -
  have z: "(256 :: u8) = 0" "(65536 :: u8) = 0" by simp_all
  show "a * 256 = 0" "256 * a = 0" "a * 65536 = 0" by (simp_all only: z mult_zero_left mult_zero_right)
qed

lemma quad_group3:
  fixes a b c :: u8
  defines "n \<equiv> unat a * 65536 + unat b * 256 + unat c"
  shows "quad_bytes [b64_char (n div 262144), b64_char (n div 4096 mod 64), b64_char (n div 64 mod 64),
         b64_char (n mod 64)] = Some [a, b, c]"
proof -
  have lt: "n div 262144 < 64" using group_less [of a b c] by (intro div_lt_64) (simp add: n_def)
  have "n div 65536 = unat a" "n div 256 = unat a * 256 + unat b"
    using unat_u8_lt [of b] unat_u8_lt [of c] unfolding n_def by (auto intro!: div_nat_eqI simp del: unat_u8_lt)
  then show ?thesis using lt
    by (simp add: quad_digits(1) group_digits Let_def) (simp add: n_def)
qed

lemma quad_group2:
  fixes a b :: u8
  defines "n \<equiv> unat a * 1024 + unat b * 4"
  shows "quad_bytes [b64_char (n div 4096), b64_char (n div 64 mod 64), b64_char (n mod 64), 61] = Some [a, b]"
proof -
  have lt: "n div 4096 < 64"
    using unat_u8_lt [of a] unat_u8_lt [of b] by (intro div_lt_64) (simp add: n_def del: unat_u8_lt)
  have "n div 64 div 64 = n div 4096" by (simp flip: div_mult2_eq)
  then have "n div 4096 * 262144 + n div 64 mod 64 * 4096 + n mod 64 * 64 = n * 64"
    using div_mult_mod_eq [of n 64] div_mult_mod_eq [of "n div 64" 64] by linarith
  moreover have "n * 64 = unat a * 65536 + unat b * 256" by (simp add: n_def)
  moreover have "n * 64 div 65536 = unat a" "n * 64 div 256 = unat a * 256 + unat b"
    using unat_u8_lt [of b] by (simp_all add: n_def)
  ultimately show ?thesis using lt by (simp add: quad_digits(2) Let_def)
qed

lemma quad_group1:
  fixes a :: u8
  defines "n \<equiv> unat a * 16"
  shows "quad_bytes [b64_char (n div 64), b64_char (n mod 64), 61, 61] = Some [a]"
proof -
  have lt: "n div 64 < 64"
    using unat_u8_lt [of a] by (intro div_lt_64) (simp add: n_def del: unat_u8_lt)
  have "n div 64 * 262144 + n mod 64 * 4096 = n * 4096"
    using div_mult_mod_eq [of n 64] by linarith
  moreover have "n * 4096 div 65536 = unat a" by (simp add: n_def)
  ultimately show ?thesis using lt by (simp add: quad_digits(3) Let_def)
qed

section \<open>Decoding a whole string\<close>

text \<open>The contract of both decoders: quads, only the last of which may be padded.\<close>

function (sequential) decode_spec :: "bytes \<Rightarrow> bytes option" where
  "decode_spec inp =
    (if inp = [] then Some []
     else if length inp < 4 then None
     else case quad_bytes (take 4 inp) of
       None \<Rightarrow> None
     | Some bs \<Rightarrow> if length bs = 3 then map_option ((@) bs) (decode_spec (drop 4 inp))
                  else if length inp = 4 then Some bs else None)"
  by pat_completeness auto
termination by (relation "measure length") auto

declare decode_spec.simps [simp del]

lemma decode_spec_Nil [simp]: "decode_spec [] = Some []"
  by (simp add: decode_spec.simps)

lemma decode_spec_quad:
  "quad_bytes [w, x, y, z] = Some bs \<Longrightarrow>
    decode_spec (w # x # y # z # inp) =
     (if length bs = 3 then map_option ((@) bs) (decode_spec inp) else if inp = [] then Some bs else None)"
  by (simp add: decode_spec.simps [of "w # x # y # z # inp"])

lemma decode_spec_base64: "decode_spec (base64 src) = Some src"
proof (induction src rule: base64.induct)
  case (2 a b c src)
  then show ?case
    by (simp only: base64.simps Let_def append_Cons append_Nil decode_spec_quad [OF quad_group3]) simp
next
  case (3 a b)
  then show ?case by (simp only: base64.simps Let_def decode_spec_quad [OF quad_group2]) simp
next
  case (4 a)
  then show ?case by (simp only: base64.simps Let_def decode_spec_quad [OF quad_group1]) simp
qed simp

lemma quad_bytes_take: "4 \<le> length inp \<Longrightarrow> quad_bytes (take 4 inp) = quad_bytes inp"
proof -
  assume l: "4 \<le> length inp"
  then have "padding_pattern (take 4 inp) = padding_pattern inp"
    by (simp add: padding_pattern_def Let_def)
  then show ?thesis using l by (simp add: quad_bytes_def Let_def)
qed

lemma decode_quads_Nil [simp]: "decode_quads m out n [] = Inr (m, n)"
  by (simp add: decode_quads.simps)

lemma decode_quads:
  "length inp mod 4 = 0 \<Longrightarrow>
   (case decode_quads m out n inp of Inl m' \<Rightarrow> decode_spec inp = None
    | Inr (m', n') \<Rightarrow> \<exists>bs. decode_spec inp = Some bs \<and> m' = mem_store m out bs \<and> n' = n + of_nat (length bs))"
proof (induction m out n inp rule: decode_quads.induct)
  case (1 m out n inp)
  show ?case
  proof (cases "inp = []")
    case False
    then have l4: "4 \<le> length inp" using 1(2) by (cases "length inp < 4") auto
    then have r: "length (drop 4 inp) mod 4 = 0" using 1(2) by (simp add: le_mod_geq)
    show ?thesis
    proof (cases "quad_bytes inp")
      case None
      then show ?thesis using False l4
        by (simp add: decode_quads.simps [of m] decode_spec.simps [of inp] decode_quad quad_bytes_take)
    next
      case (Some bs)
      show ?thesis
      proof (cases "length bs = 3")
        case True
        then have "decode_quads m out n inp = decode_quads (mem_store m out bs) (out + 3) (n + 3) (drop 4 inp)"
          using False Some by (simp add: decode_quads.simps [of m] decode_quad)
        moreover have "decode_spec inp = map_option ((@) bs) (decode_spec (drop 4 inp))"
          using False l4 Some True by (simp add: decode_spec.simps [of inp] quad_bytes_take)
        ultimately show ?thesis
          using 1(1) [OF False, of "(mem_store m out bs, 3)" "mem_store m out bs" 3] r Some True
          by (auto simp: decode_quad split: sum.splits)
      next
        case False
        then show ?thesis using \<open>inp \<noteq> []\<close> l4 Some
          by (cases "length inp = 4")
            (auto simp: decode_quads.simps [of m] decode_spec.simps [of inp] decode_quad quad_bytes_take)
      qed
    qed
  qed (simp add: decode_quads.simps)
qed

lemma length_decode_spec: "decode_spec inp = Some bs \<Longrightarrow> 4 * length bs \<le> 3 * length inp"
proof (induction inp arbitrary: bs rule: decode_spec.induct)
  case (1 inp)
  then show ?case
    using length_quad_bytes
    by (fastforce simp: decode_spec.simps [of inp] split: if_splits option.splits)
qed

lemma decode_base64:
  assumes "length inp < 2 ^ 64" "3 * (length inp div 4) \<le> unat max_out"
  shows "case EVP_DecodeBase64 m out max_out inp of (m', None) \<Rightarrow> decode_spec inp = None
    | (m', Some n) \<Rightarrow> \<exists>bs. decode_spec inp = Some bs \<and> m' = mem_store m out bs \<and> unat n = length bs"
proof (cases "length inp mod 4 = 0")
  case False
  have "decode_spec inp = None" if "length inp mod 4 \<noteq> 0" using that
  proof (induction inp rule: decode_spec.induct)
    case (1 inp)
    then show ?case
      by (auto simp: decode_spec.simps [of inp] le_mod_geq split: option.splits)
  qed
  then show ?thesis using False by (simp add: EVP_DecodeBase64_def)
next
  case True
  have u: "unat (of_nat (length inp) :: u64) = length inp" using assms(1) by (simp add: unat_of_nat)
  have "length inp div 4 * 3 < 2 ^ 64" using assms(1) by linarith
  then have l: "unat (of_nat (length inp) div 4 * 3 :: u64) = length inp div 4 * 3"
    by (subst unat_mult_lem [THEN iffD1]) (simp_all add: unat_div u)
  have "(of_nat (length inp) :: u64) mod 4 = 0" using True u by (simp add: word_unat_eq_iff unat_mod)
  then have dl: "EVP_DecodedLength (of_nat (length inp)) = Some (of_nat (length inp) div 4 * 3)"
    by (simp add: EVP_DecodedLength_def)
  have le: "\<not> max_out < of_nat (length inp) div 4 * 3" using assms(2) l by (simp add: word_less_nat_alt)
  have n: "unat (0 + of_nat (length bs) :: u64) = length bs" if "decode_spec inp = Some bs" for bs
    using length_decode_spec [OF that] assms(1) by (simp add: unat_of_nat)
  show ?thesis using decode_quads [OF True, of m out 0] True dl le n
    by (auto simp: EVP_DecodeBase64_def split: sum.splits)
qed

text \<open>C29. \<open>EVP_EncodeBlock\<close> stores the encoding of RFC 4648 and a terminating zero, exactly the number of
  bytes \<open>EVP_EncodedLength\<close> announces, and touches no other byte.\<close>

theorem base64_block_exact:
  assumes "length src < 2 ^ 64" "EVP_EncodedLength (of_nat (length src)) = Some n"
    "EVP_EncodeBlock m dst src = (m', ret)"
  shows "mem_load m' dst (unat n) = base64 src @ [0] \<and> unat ret + 1 = unat n \<and>
    (\<forall>i. i < dst \<or> dst + unat n \<le> i \<longrightarrow> m' i = m i)"
proof -
  have "4 * ((length src + 2) div 3) + 1 < 2 ^ 64" "n = of_nat (4 * ((length src + 2) div 3) + 1)"
    using assms(1,2) by (auto simp: encoded_length unat_of_nat split: if_splits)
  then have n: "unat n = length (base64 src) + 1" "length (base64 src) + 1 < 2 ^ 64"
    by (simp_all add: unat_of_nat length_base64 del: of_nat_Suc of_nat_add)
  have m: "m' = mem_store m dst (base64 src @ [0])" and r: "ret = of_nat (length (base64 src))"
    using assms(3) by (simp_all add: encode_block)
  have "mem_load m' dst (unat n) = base64 src @ [0]"
    using mem_load_store [of m dst "base64 src @ [0]"] n m by simp
  moreover have "unat ret + 1 = unat n" using n r by (simp add: unat_of_nat)
  moreover have "\<forall>i. i < dst \<or> dst + unat n \<le> i \<longrightarrow> m' i = m i" using n m by (auto simp: mem_store_apply)
  ultimately show ?thesis by blast
qed

lemma base64_block_exact_witness:
  "mem_load (fst (EVP_EncodeBlock (\<lambda>_. 7) 3 [1, 2, 3, 4])) 3 9 = base64 [1, 2, 3, 4] @ [0]"
proof -
  have "EVP_EncodedLength (of_nat (length [1, 2, 3, 4 :: u8])) = Some 9" by (simp add: encoded_length)
  then show ?thesis
    using base64_block_exact [of "[1, 2, 3, 4]" 9 "\<lambda>_. 7" 3] by (cases "EVP_EncodeBlock (\<lambda>_. 7) 3 [1, 2, 3, 4]") simp
qed

section \<open>White space and padding around a block\<close>

lemma base64_no_space: "c \<in> set (base64 src) \<Longrightarrow> \<not> is_space c"
proof (induction src rule: base64.induct)
  case (2 x y z src)
  have "(unat x * 65536 + unat y * 256 + unat z) div 262144 < 64"
    using group_less [of x y z] by (intro div_lt_64) simp
  then show ?case using 2 by (auto simp: Let_def alphabet)
next
  case (3 x y)
  have "(unat x * 1024 + unat y * 4) div 4096 < 64"
    using unat_u8_lt [of x] unat_u8_lt [of y] by (intro div_lt_64) (simp del: unat_u8_lt)
  then show ?case using 3 by (auto simp: Let_def alphabet) (auto simp: is_space_def)
next
  case (4 x)
  have "unat x * 16 div 64 < 64"
    using unat_u8_lt [of x] by (intro div_lt_64) (simp del: unat_u8_lt)
  then show ?case using 4 by (auto simp: Let_def alphabet) (auto simp: is_space_def)
qed simp

lemma is_blank_space: "is_blank c \<Longrightarrow> is_space c"
  by (auto simp: is_blank_def is_space_def)

lemma trim_front_eq: "trim_front src = dropWhile is_blank src"
  by (induction src) simp_all

lemma trim_back_eq: "trim_back src = rev (dropWhile is_space (rev src))"
proof (induction src rule: rev_induct)
  case (snoc c src)
  then show ?case by (simp add: trim_back.simps [of "src @ [c]"])
qed (simp add: trim_back.simps)

lemma trim_block:
  assumes "list_all is_blank pre" "list_all is_space post" "\<And>c. c \<in> set enc \<Longrightarrow> \<not> is_space c"
  shows "trim_back (trim_front (pre @ enc @ post)) = enc"
proof (cases enc)
  case Nil
  have "set (dropWhile is_blank post) \<subseteq> set post" by (auto dest: set_dropWhileD)
  then have "dropWhile is_space (rev (dropWhile is_blank post)) = []"
    using assms(2) by (auto simp: dropWhile_eq_Nil_conv list_all_iff)
  then show ?thesis using assms(1) Nil
    by (simp add: trim_front_eq trim_back_eq dropWhile_append2 list_all_iff)
next
  case (Cons c cs)
  have "\<not> is_blank c" using assms(3) Cons is_blank_space by auto
  then have "trim_front (pre @ enc @ post) = enc @ post"
    using assms(1) Cons by (simp add: trim_front_eq dropWhile_append2 list_all_iff)
  moreover have "dropWhile is_space (rev enc) = rev enc"
    using assms(3) by (cases enc rule: rev_cases) auto
  moreover have "dropWhile is_space (rev post @ rev enc) = dropWhile is_space (rev enc)"
    by (rule dropWhile_append2) (use assms(2) in \<open>auto simp: list_all_iff\<close>)
  ultimately show ?thesis by (simp add: trim_back_eq)
qed

lemma pad_zeros:
  "pad_zeros m dst n =
    (mem_store m (dst + n) (replicate ((3 - n mod 3) mod 3) 0), n + (3 - n mod 3) mod 3)"
proof -
  have "n mod 3 = 0 \<or> n mod 3 = 1 \<or> n mod 3 = 2" by presburger
  moreover have "n mod 3 = 1 \<Longrightarrow> Suc n mod 3 = 2" "n mod 3 = 1 \<Longrightarrow> Suc (Suc n) mod 3 = 0"
    "n mod 3 = 2 \<Longrightarrow> Suc n mod 3 = 0" by (simp_all add: mod_Suc)
  ultimately show ?thesis
    by (auto simp: pad_zeros.simps [of _ _ n] pad_zeros.simps [of _ _ "Suc n"]
        pad_zeros.simps [of _ _ "Suc (Suc n)"] numeral_2_eq_2)
qed

lemma pad_length: "(n :: nat) + (3 - n mod 3) mod 3 = 3 * ((n + 2) div 3)"
proof -
  obtain q r where n: "n = 3 * q + r" "r < 3"
    by (metis mod_less_divisor mult_div_mod_eq zero_less_numeral)
  then have "r = 0 \<or> r = 1 \<or> r = 2" by linarith
  then show ?thesis using n(1) by auto
qed

text \<open>C27. What \<open>EVP_EncodeBlock\<close> writes is decoded to the input: by \<open>EVP_DecodeBase64\<close> exactly, into
  any buffer of the announced size, and by \<open>EVP_DecodeBlock\<close> also between blanks and trailing
  white space, where the result is padded with zeros to a multiple of three bytes.\<close>

theorem base64_block_roundtrip:
  assumes "4 * ((length src + 2) div 3) < 2 ^ 64" "3 * ((length src + 2) div 3) \<le> unat max_out"
    "3 * ((length src + 2) div 3) < 2 ^ 31" "list_all is_blank pre" "list_all is_space post"
    "EVP_EncodeBlock m0 0 src = (m1, ret)"
  shows "EVP_DecodeBase64 m out max_out (mem_load m1 0 (unat ret)) =
      (mem_store m out src, Some (of_nat (length src))) \<and>
    EVP_DecodeBlock m out (pre @ mem_load m1 0 (unat ret) @ post) =
      (mem_store m out (src @ replicate ((3 - length src mod 3) mod 3) 0),
       int (3 * ((length src + 2) div 3)))"
proof -
  let ?t = "base64 src"
  have lt: "length ?t < 2 ^ 64" "length ?t div 4 = (length src + 2) div 3"
    using assms(1) by (simp_all add: length_base64)
  have m1: "m1 = mem_store (mem_store m0 0 ?t) (length ?t) [0]" and r: "unat ret = length ?t"
    using assms(6) lt(1) by (auto simp: encode_block unat_of_nat)
  have "mem_load m1 0 (unat ret) = mem_load (mem_store m0 0 ?t) 0 (length ?t)"
    unfolding m1 r by (rule nth_equalityI) (simp_all add: mem_load_def)
  then have t: "mem_load m1 0 (unat ret) = ?t" by (simp only: mem_load_store)
  have dec: "EVP_DecodeBase64 m out k ?t = (mem_store m out src, Some (of_nat (length src)))"
    if "3 * ((length src + 2) div 3) \<le> unat k" for k
  proof -
    obtain a n where e: "EVP_DecodeBase64 m out k ?t = (a, n)" by (cases "EVP_DecodeBase64 m out k ?t")
    then show ?thesis using decode_base64 [of ?t k m out] that lt
      by (auto simp: decode_spec_base64 word_eq_of_natI split: option.splits)
  qed
  let ?L = "of_nat (length ?t) :: u64"
  have L: "unat ?L = 4 * ((length src + 2) div 3)" using lt(1) by (simp add: unat_of_nat length_base64 del: of_nat_mult)
  then have "unat (?L div 4 * 3) = 3 * ((length src + 2) div 3)"
    using assms(3) by (subst unat_mult_lem [THEN iffD1]) (simp_all add: unat_div)
  moreover have "?L mod 4 = 0" using L by (simp add: word_unat_eq_iff unat_mod)
  ultimately have dl: "EVP_DecodedLength ?L = Some (?L div 4 * 3)"
    "unat (?L div 4 * 3) = 3 * ((length src + 2) div 3)" "\<not> INT_MAX < ?L div 4 * 3"
    using assms(3) by (simp_all add: EVP_DecodedLength_def word_less_nat_alt)
  have "length src \<le> 3 * ((length src + 2) div 3)" by presburger
  then have "length src < 2 ^ 31" using assms(3) by (rule le_less_trans)
  then have ls: "unat (of_nat (length src) :: u64) = length src" by (simp add: unat_of_nat)
  have pad: "length src + (3 - length src mod 3) mod 3 = 3 * ((length src + 2) div 3)" by (rule pad_length)
  have "EVP_DecodeBlock m out (pre @ ?t @ post) =
      (mem_store m out (src @ replicate ((3 - length src mod 3) mod 3) 0), int (3 * ((length src + 2) div 3)))"
  proof -
    have d: "EVP_DecodeBase64 m out (?L div 4 * 3) ?t = (mem_store m out src, Some (of_nat (length src)))"
      by (rule dec) (simp only: dl(2))
    have tb: "trim_back (trim_front (pre @ ?t @ post)) = ?t"
      using assms(4,5) by (rule trim_block) (rule base64_no_space)
    show ?thesis
      unfolding EVP_DecodeBlock_def Let_def tb dl(1) option.case
        if_not_P [OF dl(3)] d prod.case pad_zeros ls pad mem_store_append ..
  qed
  then show ?thesis using dec assms(2) by (simp add: t)
qed

lemma base64_block_roundtrip_witness:
  "snd (EVP_DecodeBlock (\<lambda>_. 0) 0
     ([32, 9] @ mem_load (fst (EVP_EncodeBlock (\<lambda>_. 7) 0 [1, 2, 3, 4])) 0 8 @ [10])) = 6"
proof -
  have "snd (EVP_EncodeBlock (\<lambda>_. 7) 0 [1, 2, 3, 4]) = 8" by (simp add: encode_block length_base64)
  then show ?thesis
    using base64_block_roundtrip [of "[1, 2, 3, 4]" 100 "[32, 9]" "[10]" "\<lambda>_. 7"
        "fst (EVP_EncodeBlock (\<lambda>_. 7) 0 [1, 2, 3, 4])" 8 "\<lambda>_. 0" 0]
    by (cases "EVP_EncodeBlock (\<lambda>_. 7) 0 [1, 2, 3, 4]") (simp add: is_blank_def is_space_def)
qed

text \<open>\<open>EVP_DecodeBlock\<close> strips only blanks in front and white space behind: a trailing minus, which
  the header says it strips too, makes it fail.\<close>

lemma decode_block_keeps_minus: "EVP_DecodeBlock m out [65, 65, 65, 65, 45] = (m, - 1)"
  by (simp add: EVP_DecodeBlock_def trim_front_eq trim_back_eq is_blank_def is_space_def
      EVP_DecodedLength_def)

end
