(* ===== verification/Base64Stream.thy ===== *)
theory Base64Stream
  imports Base64Props
begin

text \<open>
  The streaming coder: the state of a context is the input that is not yet encoded (or decoded),
  and each call advances the output by what the one-shot coder produces for the lines or quads
  that become complete. So the result of a sequence of calls is that of the whole input, however
  it is cut.
\<close>

section \<open>Encoding\<close>

text \<open>The reference: lines of 48 bytes, each followed by a newline; \<open>full_lines\<close> is those of the
  full lines, \<open>partial_line\<close> the input left behind them.\<close>

function (sequential) full_lines :: "bytes \<Rightarrow> bytes" where
  "full_lines src = (if 48 \<le> length src then base64 (take 48 src) @ [10] @ full_lines (drop 48 src) else [])"
  by pat_completeness auto
termination by (relation "measure length") auto

declare full_lines.simps [simp del]

definition partial_line :: "bytes \<Rightarrow> bytes" where
  "partial_line src = drop (48 * (length src div 48)) src"

definition encoded_lines :: "bytes \<Rightarrow> bytes" where
  "encoded_lines src =
    full_lines src @ (if partial_line src = [] then [] else base64 (partial_line src) @ [10])"

lemma full_lines_short: "length src < 48 \<Longrightarrow> full_lines src = []" "length src < 48 \<Longrightarrow> partial_line src = src"
  by (simp_all add: full_lines.simps partial_line_def)

lemma partial_line_long: "48 \<le> length src \<Longrightarrow> partial_line src = partial_line (drop 48 src)"
proof -
  assume "48 \<le> length src"
  then have "length src div 48 = Suc ((length src - 48) div 48)" by (simp add: le_div_geq)
  then show ?thesis by (simp add: partial_line_def add.commute)
qed

lemma full_lines_long:
  "48 \<le> length src \<Longrightarrow> full_lines src = base64 (take 48 src) @ [10] @ full_lines (drop 48 src)"
  by (simp add: full_lines.simps)

lemma length_full_lines: "length (full_lines src) = 65 * (length src div 48)"
proof (induction src rule: full_lines.induct)
  case (1 src)
  then show ?case
    by (cases "48 \<le> length src")
      (simp_all add: full_lines_long [of src] full_lines_short(1) [of src] length_base64 le_div_geq)
qed

lemma length_partial_line: "length (partial_line src) = length src mod 48"
  by (simp add: partial_line_def minus_mult_div_eq_mod)

lemma lines_append:
  "full_lines (xs @ ys) = full_lines xs @ full_lines (partial_line xs @ ys) \<and>
   partial_line (xs @ ys) = partial_line (partial_line xs @ ys)"
proof (induction xs rule: full_lines.induct)
  case (1 xs)
  show ?case
  proof (cases "48 \<le> length xs")
    case True
    then have "full_lines (xs @ ys) = base64 (take 48 xs) @ [10] @ full_lines (drop 48 xs @ ys)"
      "partial_line (xs @ ys) = partial_line (drop 48 xs @ ys)"
      using full_lines_long [of "xs @ ys"] partial_line_long [of "xs @ ys"] by simp_all
    then show ?thesis
      using 1 [OF True] full_lines_long [OF True] partial_line_long [OF True] by simp
  qed (simp add: full_lines_short)
qed

lemmas full_lines_append = lines_append [THEN conjunct1]
lemmas partial_line_append = lines_append [THEN conjunct2]

text \<open>One line and the loop over lines store these bytes, with a terminating zero behind them.\<close>

lemma encode_line:
  assumes "length line < 2 ^ 32"
  shows "encode_line m out line =
    (mem_store m out (base64 line @ [10, 0]), of_nat (length (base64 line)))"
    "unat (of_nat (length (base64 line)) :: u64) = length (base64 line)"
proof -
  show u: "unat (of_nat (length (base64 line)) :: u64) = length (base64 line)"
    using assms by (simp add: unat_of_nat length_base64 del: of_nat_mult)
  show "encode_line m out line =
    (mem_store m out (base64 line @ [10, 0]), of_nat (length (base64 line)))"
    unfolding encode_line_def encode_block Let_def prod.case u by (simp add: fun_upd_twist)
qed

lemma mem_store_cut:
  "mem_store (mem_store m p (xs @ [x])) (p + length xs) w =
   mem_store m p (xs @ (if w = [] then [x] else w))"
  by (rule ext) (auto simp: mem_store_apply nth_append)

lemma mem_store_cut_short:
  assumes "length z \<le> 1"
  shows "mem_store (mem_store m p (xs @ z)) (p + length xs) w = mem_store m p (xs @ (if w = [] then z else w))"
  using assms mem_store_cut [of m p xs "hd z" w] by (cases z) auto

lemma encode_lines:
  assumes "unat tot + 65 * (length inp div 48) < 2 ^ 64"
  shows "\<exists>z. length z \<le> 1 \<and> encode_lines m out tot inp =
    (mem_store m out (full_lines inp @ z),
     Some (tot + of_nat (length (full_lines inp)), partial_line inp))"
  using assms
proof (induction m out tot inp rule: encode_lines.induct)
  case (1 m out tot inp)
  show ?case
  proof (cases "48 \<le> length inp")
    case True
    define m1 where "m1 = mem_store m out (base64 (take 48 inp) @ [10, 0])"
    have l: "length (base64 (take 48 inp)) = 64" using True by (simp add: length_base64)
    have e: "encode_line m out (take 48 inp) = (m1, 64)"
      using encode_line(1) [of "take 48 inp" m out] l by (simp add: m1_def del: mem_store_append)
    have d: "length inp div 48 = Suc (length (drop 48 inp) div 48)" using True by (simp add: le_div_geq)
    then have u: "unat (tot + 65) = unat tot + 65" using 1(2) by (subst unat_add_lem [THEN iffD1]) simp_all
    then have nw: "\<not> tot + 64 + 1 < tot" by (simp add: word_less_nat_alt add.assoc)
    have t: "tot + (64 + 1) = tot + 65" "out + unat (64 :: u64) + 1 = out + 65" by simp_all
    have "unat (tot + 65) + 65 * (length (drop 48 inp) div 48) < 2 ^ 64" using 1(2) d u by simp
    then obtain z where z: "length z \<le> 1" "encode_lines m1 (out + 65) (tot + 65) (drop 48 inp) =
      (mem_store m1 (out + 65) (full_lines (drop 48 inp) @ z),
       Some (tot + 65 + of_nat (length (full_lines (drop 48 inp))), partial_line (drop 48 inp)))"
      using 1(1) [OF True e [symmetric] refl nw] unfolding t by blast
    let ?w = "full_lines (drop 48 inp) @ z"
    have m: "mem_store m1 (out + 65) ?w =
        mem_store m out ((base64 (take 48 inp) @ [10]) @ (if ?w = [] then [0] else ?w))"
      using mem_store_cut [of m out "base64 (take 48 inp) @ [10]" 0 ?w] l
      by (simp add: m1_def del: mem_store_append mem_store.simps)
    have "encode_lines m out tot inp = (mem_store m1 (out + 65) ?w,
       Some (tot + 65 + of_nat (length (full_lines (drop 48 inp))), partial_line (drop 48 inp)))"
      unfolding encode_lines.simps [of m] if_P [OF True] e Let_def prod.case if_not_P [OF nw] t by (rule z(2))
    moreover have "tot + 65 + of_nat (length (full_lines (drop 48 inp))) = tot + of_nat (length (full_lines inp))"
      using True l by (simp add: full_lines_long)
    moreover have "(base64 (take 48 inp) @ [10]) @ (if ?w = [] then [0] else ?w) =
      full_lines inp @ (if ?w = [] then [0] else z)" using True by (simp add: full_lines_long)
    ultimately show ?thesis using m z(1) True
      by (intro exI [of _ "if ?w = [] then [0] else z"]) (simp add: partial_line_long [of inp] del: mem_store_append)
  next
    case False
    then show ?thesis by (intro exI [of _ "[]"]) (simp add: encode_lines.simps full_lines_short)
  qed
qed

text \<open>The state of an encoding context: the bytes of the line that is not full yet.\<close>

definition enc_holds :: "EVP_ENCODE_CTX \<Rightarrow> bytes \<Rightarrow> bool" where
  "enc_holds ctx p \<longleftrightarrow> length (data ctx) = 48 \<and> unat (data_used ctx) = length p \<and> length p < 48 \<and>
     take (length p) (data ctx) = p"

lemma enc_holds_init: "enc_holds (EVP_EncodeInit ctx) []"
  by (simp add: enc_holds_def EVP_EncodeInit_def)

lemma unat_of_nat_u32: "n < 48 \<Longrightarrow> unat (of_nat n :: u32) = n"
  by (simp add: unat_of_nat)

lemma enc_holds_rest:
  assumes "length (data ctx) = 48" "length r < 48"
  shows "enc_holds (ctx\<lparr>data := put_bytes 0 r (data ctx), data_used := of_nat (length r)\<rparr>) r"
  using assms by (simp add: enc_holds_def put_bytes_def unat_of_nat_u32)

lemma enc_update_short:
  assumes "enc_holds ctx p" "length p + length inp < 48"
  shows "\<exists>ctx'. EVP_EncodeUpdate ctx m out inp = Some (ctx', m, 0) \<and> enc_holds ctx' (p @ inp)"
proof (cases "inp = []")
  case False
  let ?c = "ctx\<lparr>data := put_bytes (length p) inp (data ctx), data_used := data_used ctx + of_nat (length inp)\<rparr>"
  have i: "unat (of_nat (length inp) :: u32) = length inp" using assms(2) by (simp add: unat_of_nat_u32)
  then have "unat (data_used ctx + of_nat (length inp)) = length p + length inp"
    using assms by (subst unat_add_lem [THEN iffD1]) (simp_all add: enc_holds_def)
  then have "enc_holds ?c (p @ inp)" using assms by (simp add: enc_holds_def put_bytes_def)
  moreover have "length inp < 48 - length p" using assms(2) by linarith
  then have "EVP_EncodeUpdate ctx m out inp = Some (?c, m, 0)"
    using assms False by (simp add: EVP_EncodeUpdate_def enc_holds_def Let_def)
  ultimately show ?thesis by blast
qed (use assms in \<open>simp add: EVP_EncodeUpdate_def\<close>)

lemma enc_update_long:
  assumes "enc_holds ctx p" "48 \<le> length p + length inp"
    "65 * ((length p + length inp) div 48) \<le> 2147483647"
  shows "\<exists>ctx' z. EVP_EncodeUpdate ctx m out inp =
      Some (ctx', mem_store m out (full_lines (p @ inp) @ z), int (length (full_lines (p @ inp)))) \<and>
    length z \<le> 1 \<and> enc_holds ctx' (partial_line (p @ inp))"
proof -
  let ?L = "length (full_lines (p @ inp))"
  have used: "unat (data_used ctx) = length p" "length p < 48" "length (data ctx) = 48"
    using assms(1) by (simp_all add: enc_holds_def)
  have L: "?L \<le> 2147483647" using assms(3) by (simp add: length_full_lines)
  then have tot: "\<not> INT_MAX < (of_nat ?L :: u64)" "unat (of_nat ?L :: u64) = ?L"
    by (simp_all add: word_less_nat_alt unat_of_nat)
  have ne: "inp \<noteq> []" "\<not> length inp < 48 - length p" using assms(2) used(2) by auto
  have pl: "length (partial_line (p @ inp)) < 48" by (simp add: length_partial_line)
  show ?thesis
  proof (cases "p = []")
    case True
    then have du: "data_used ctx = 0" using used(1) by (simp add: word_unat_eq_iff)
    obtain z where z: "length z \<le> 1" "encode_lines m out 0 inp =
        (mem_store m out (full_lines inp @ z), Some (of_nat (length (full_lines inp)), partial_line inp))"
      using encode_lines [of 0 inp m out] assms(3) True by auto
    have "EVP_EncodeUpdate ctx m out inp =
      Some (ctx\<lparr>data := put_bytes 0 (partial_line inp) (data ctx), data_used := of_nat (length (partial_line inp))\<rparr>,
        mem_store m out (full_lines inp @ z), int (length (full_lines inp)))"
      using ne tot True by (simp add: EVP_EncodeUpdate_def du z(2) del: mem_store_append)
    then show ?thesis using z(1) enc_holds_rest [OF used(3) pl] True by auto
  next
    case False
    let ?todo = "48 - length p"
    let ?block = "p @ take ?todo inp" and ?rest = "drop ?todo inp"
    let ?c = "ctx\<lparr>data := ?block, data_used := 0\<rparr>"
    have du: "data_used ctx \<noteq> 0" using False used(1) by auto
    have td: "take 48 (p @ inp) = ?block" "drop 48 (p @ inp) = ?rest" using used(2) by simp_all
    have long: "48 \<le> length (p @ inp)" using assms(2) by simp
    have lb: "length ?block = 48" using ne used(2) by simp
    have put: "put_bytes (length p) (take ?todo inp) (data ctx) = ?block"
      using assms(1) lb by (simp add: enc_holds_def put_bytes_def)
    define m1 where "m1 = mem_store m out (base64 ?block @ [10, 0])"
    have l64: "length (base64 ?block) = 64" using lb by (simp add: length_base64)
    have e: "encode_line m out ?block = (m1, 64)"
      using encode_line(1) [of ?block m out] lb l64 by (simp add: m1_def del: mem_store_append)
    have d: "length (p @ inp) div 48 = Suc (length ?rest div 48)"
      using ne used(2) by (simp add: le_div_geq)
    then obtain z where z: "length z \<le> 1" "encode_lines m1 (out + 65) 65 ?rest =
        (mem_store m1 (out + 65) (full_lines ?rest @ z),
         Some (65 + of_nat (length (full_lines ?rest)), partial_line ?rest))"
      using encode_lines [of 65 ?rest m1 "out + 65"] assms(3) by auto
    let ?w = "full_lines ?rest @ z"
    have fl: "full_lines (p @ inp) = base64 ?block @ [10] @ full_lines ?rest"
      "partial_line (p @ inp) = partial_line ?rest"
      using full_lines_long [OF long] partial_line_long [OF long] by (simp_all only: td)
    have m: "mem_store m1 (out + 65) ?w =
        mem_store m out (full_lines (p @ inp) @ (if ?w = [] then [0] else z))"
      using mem_store_cut [of m out "base64 ?block @ [10]" 0 ?w] l64
      by (simp add: m1_def fl del: mem_store_append mem_store.simps)
    have t: "65 + of_nat (length (full_lines ?rest)) = (of_nat ?L :: u64)"
      using l64 by (simp add: fl)
    have o: "out + unat (64 :: u64) + 1 = out + 65" "(64 :: u64) + 1 = 65" by simp_all
    let ?r = "partial_line (p @ inp)"
    have "EVP_EncodeUpdate ctx m out inp =
      Some (?c\<lparr>data := put_bytes 0 ?r (data ?c), data_used := of_nat (length ?r)\<rparr>,
        mem_store m1 (out + 65) ?w, int ?L)"
      using ne used(2) du
      by (simp only: EVP_EncodeUpdate_def Let_def used(1) put e o z(2) t tot fl(2) prod.case option.case
          simp_thms if_True if_False EVP_ENCODE_CTX.simps)
    moreover have "enc_holds (?c\<lparr>data := put_bytes 0 ?r (data ?c), data_used := of_nat (length ?r)\<rparr>) ?r"
      by (rule enc_holds_rest) (use lb pl in simp_all)
    moreover have "length (if ?w = [] then [0] else z) \<le> 1" using z(1) by simp
    ultimately show ?thesis unfolding m by blast
  qed
qed

lemma enc_update:
  assumes "enc_holds ctx p" "65 * ((length p + length inp) div 48) \<le> 2147483647"
  shows "\<exists>ctx' z. EVP_EncodeUpdate ctx m out inp =
      Some (ctx', mem_store m out (full_lines (p @ inp) @ z), int (length (full_lines (p @ inp)))) \<and>
    length z \<le> 1 \<and> enc_holds ctx' (partial_line (p @ inp))"
proof (cases "48 \<le> length p + length inp")
  case True
  then show ?thesis by (rule enc_update_long [OF assms(1) _ assms(2)])
next
  case False
  then have l: "length p + length inp < 48" by simp
  then have "full_lines (p @ inp) = []" "partial_line (p @ inp) = p @ inp" by (simp_all add: full_lines_short)
  moreover obtain ctx' where "EVP_EncodeUpdate ctx m out inp = Some (ctx', m, 0)" "enc_holds ctx' (p @ inp)"
    using enc_update_short [OF assms(1) l] by blast
  ultimately show ?thesis by (intro exI [of _ ctx'] exI [of _ "[]"]) simp
qed

text \<open>A sequence of calls with the output pointer advanced by \<open>*out_len\<close>, and then the final one. The
  result is memory and the end of the output.\<close>

fun encode_calls :: "EVP_ENCODE_CTX \<Rightarrow> memory \<Rightarrow> nat \<Rightarrow> bytes list \<Rightarrow> (memory \<times> nat) option" where
  "encode_calls ctx m out [] = (let (_, m, n) = EVP_EncodeFinal ctx m out in Some (m, out + nat n))"
| "encode_calls ctx m out (inp # calls) =
    (case EVP_EncodeUpdate ctx m out inp of
       None \<Rightarrow> None
     | Some (ctx, m, n) \<Rightarrow> encode_calls ctx m (out + nat n) calls)"

lemma enc_final:
  assumes "enc_holds ctx p"
  shows "EVP_EncodeFinal ctx m out =
    (ctx\<lparr>data_used := 0\<rparr>, if p = [] then m else mem_store m out (base64 p @ [10, 0]),
     int (length (encoded_lines p)))"
proof (cases "p = []")
  case True
  then have "data_used ctx = 0" using assms by (simp add: enc_holds_def word_unat_eq_iff)
  then show ?thesis using True
    by (simp add: EVP_EncodeFinal_def encoded_lines_def full_lines_short)
next
  case False
  have p: "length p < 48" "take (unat (data_used ctx)) (data ctx) = p" "data_used ctx \<noteq> 0"
    using assms False by (auto simp: enc_holds_def)
  then have l: "length p < 2 ^ 32" by simp
  have b: "length (base64 p) \<le> 64" using p(1) by (simp add: length_base64)
  have "unat (of_nat (length (base64 p)) + 1 :: u64) = length (base64 p) + 1"
    using b encode_line(2) [OF l] by (subst unat_add_lem [THEN iffD1]) simp_all
  then have "int (unat (of_nat (length (base64 p)) + 1 :: u64)) = 1 + int (length (base64 p))" by (simp only: of_nat_add)
  then show ?thesis using False p encode_line(1) [OF l]
    by (simp add: EVP_EncodeFinal_def encoded_lines_def full_lines_short del: mem_store_append)
qed

lemma encode_calls:
  assumes "enc_holds ctx p" "\<forall>c\<in>set calls. length c \<le> 1585834032"
  shows "\<exists>z. length z \<le> 1 \<and> encode_calls ctx m out calls =
    Some (mem_store m out (encoded_lines (p @ concat calls) @ z), out + length (encoded_lines (p @ concat calls)))"
  using assms
proof (induction calls arbitrary: ctx m out p)
  case Nil
  have "length p < 48" using Nil(1) by (simp add: enc_holds_def)
  then have "encoded_lines p = (if p = [] then [] else base64 p @ [10])"
    by (simp add: encoded_lines_def full_lines_short)
  then show ?case using enc_final [OF Nil(1), of m out]
    by (intro exI [of _ "if p = [] then [] else [0]"]) simp
next
  case (Cons c calls)
  have "length p < 48" "length c \<le> 1585834032" using Cons(2,3) by (simp_all add: enc_holds_def)
  then have "(length p + length c) div 48 \<le> 1585834079 div 48" by (intro div_le_mono) simp
  then have "65 * ((length p + length c) div 48) \<le> 2147483647" by simp
  then obtain ctx' z where u: "EVP_EncodeUpdate ctx m out c =
      Some (ctx', mem_store m out (full_lines (p @ c) @ z), int (length (full_lines (p @ c))))"
    "length z \<le> 1" "enc_holds ctx' (partial_line (p @ c))"
    using enc_update [OF Cons(2), of c m out] by blast
  let ?r = "partial_line (p @ c) @ concat calls"
  obtain z' where z': "length z' \<le> 1" "encode_calls ctx' (mem_store m out (full_lines (p @ c) @ z))
      (out + length (full_lines (p @ c))) calls =
    Some (mem_store (mem_store m out (full_lines (p @ c) @ z)) (out + length (full_lines (p @ c)))
        (encoded_lines ?r @ z'), out + length (full_lines (p @ c)) + length (encoded_lines ?r))"
    using Cons(1) [OF u(3), of "mem_store m out (full_lines (p @ c) @ z)" "out + length (full_lines (p @ c))"]
      Cons(3) by (auto simp del: mem_store_append)
  have e: "encoded_lines (p @ c @ concat calls) = full_lines (p @ c) @ encoded_lines ?r"
    using full_lines_append [of "p @ c" "concat calls"] partial_line_append [of "p @ c" "concat calls"]
    by (simp add: encoded_lines_def)
  let ?w = "encoded_lines ?r @ z'"
  have "mem_store (mem_store m out (full_lines (p @ c) @ z)) (out + length (full_lines (p @ c))) ?w =
    mem_store m out (encoded_lines (p @ c @ concat calls) @ (if ?w = [] then z else z'))"
    unfolding mem_store_cut_short [OF u(2)] by (simp add: e)
  then show ?case using u(1,2) z' e
    by (intro exI [of _ "if ?w = [] then z else z'"]) (simp del: mem_store_append)
qed

text \<open>C28. The streaming encoder: however the input is cut into calls, none fails an assertion, the calls
  and the final one write the lines of the whole input one after the other, and no byte outside
  these and the terminating zero is touched. The bound is the longest input of one call whose output
  length fits an \<open>int\<close>.\<close>

theorem encode_stream_lines:
  assumes "\<forall>c\<in>set calls. length c \<le> 1585834032"
  shows "\<exists>m'. encode_calls (EVP_EncodeInit ctx) m out calls =
      Some (m', out + length (encoded_lines (concat calls))) \<and>
    mem_load m' out (length (encoded_lines (concat calls))) = encoded_lines (concat calls) \<and>
    (\<forall>i. i < out \<or> out + length (encoded_lines (concat calls)) < i \<longrightarrow> m' i = m i)"
proof -
  let ?e = "encoded_lines (concat calls)"
  obtain z where z: "length z \<le> 1" "encode_calls (EVP_EncodeInit ctx) m out calls =
      Some (mem_store m out (?e @ z), out + length ?e)"
    using encode_calls [OF enc_holds_init assms, of ctx m out] by auto
  have "mem_load (mem_store m out (?e @ z)) out (length ?e) = ?e"
    by (rule nth_equalityI) (simp_all add: mem_load_def mem_store_apply nth_append del: mem_store_append)
  moreover have "mem_store m out (?e @ z) i = m i" if "i < out \<or> out + length ?e < i" for i
    using that z(1) by (auto simp: mem_store_apply simp del: mem_store_append)
  ultimately show ?thesis using z(2) by blast
qed

lemma encode_stream_lines_witness:
  "\<exists>m'. encode_calls (EVP_EncodeInit \<lparr>data_used = 5, data = [], eof_seen = False, error_encountered = True\<rparr>) (\<lambda>_. 0) 0 [replicate 40 1, [], replicate 30 2] = Some (m', 98)"
  using encode_stream_lines [of "[replicate 40 1, [], replicate 30 2]" "\<lparr>data_used = 5, data = [], eof_seen = False, error_encountered = True\<rparr>" "\<lambda>_. 0" 0]
  by (auto simp: encoded_lines_def length_full_lines length_partial_line length_base64 partial_line_def
      simp del: encode_calls.simps)

end
