(* ===== verification/Base64Decode.thy ===== *)
theory Base64Decode
  imports Base64Stream
begin

text \<open>
  The streaming decoder: the state of a context is the quad that is not complete yet and whether a
  padded quad has been seen. Any way of cutting the input into calls gives what the one-shot decoder
  gives on the whole input without its white space.
\<close>

section \<open>The abstract decoder\<close>

text \<open>\<open>feed p e cs\<close>: from the pending characters \<open>p\<close> and the flag \<open>e\<close>, the decoded bytes and the new state.\<close>

fun feed :: "bytes \<Rightarrow> bool \<Rightarrow> bytes \<Rightarrow> (bytes \<times> bytes \<times> bool) option" where
  "feed p e [] = Some ([], p, e)"
| "feed p e (c # cs) =
    (if e then None
     else if length p = 3
     then case quad_bytes (p @ [c]) of
       None \<Rightarrow> None
     | Some bs \<Rightarrow> map_option (\<lambda>(out, r). (bs @ out, r)) (feed [] (length bs < 3) cs)
     else feed (p @ [c]) False cs)"

lemma feed_append:
  "feed p e (xs @ ys) =
    (case feed p e xs of None \<Rightarrow> None
     | Some (b, p', e') \<Rightarrow> map_option (\<lambda>(out, r). (b @ out, r)) (feed p' e' ys))"
proof (induction p e xs rule: feed.induct)
  case (1 p e)
  then show ?case by (cases "feed p e ys") auto
next
  case (2 p e c cs)
  then show ?case by (auto split: option.splits simp: option.map_comp o_def split_def)
qed

lemma length_feed: "feed p e cs = Some (bs, r) \<Longrightarrow> 4 * length bs \<le> 3 * (length p + length cs)"
proof (induction p e cs arbitrary: bs rule: feed.induct)
  case (2 p e c cs)
  then show ?case using length_quad_bytes [of "p @ [c]"]
    by (fastforce split: if_splits option.splits)
qed simp

lemma feed_short: "length p + length cs < 4 \<Longrightarrow> feed p False cs = Some ([], p @ cs, False)"
  by (induction cs arbitrary: p) auto

lemma decode_spec_feed:
  "decode_spec cs = (case feed [] False cs of Some (bs, [], _) \<Rightarrow> Some bs | _ \<Rightarrow> None)"
proof (induction cs rule: decode_spec.induct)
  case (1 cs)
  show ?case
  proof (cases "length cs < 4")
    case True
    then show ?thesis using feed_short [of "[]" cs]
      by (cases cs) (simp_all add: decode_spec.simps [of "_ # _"])
  next
    case False
    then have "Suc (Suc (Suc (Suc 0))) \<le> length cs" by simp
    then obtain a b c d r where cs: "cs = a # b # c # d # r" by (auto simp only: Suc_le_length_iff)
    have f: "feed [] False cs = (case quad_bytes [a, b, c, d] of None \<Rightarrow> None
      | Some bs \<Rightarrow> map_option (\<lambda>(out, r). (bs @ out, r)) (feed [] (length bs < 3) r))"
      by (simp add: cs)
    show ?thesis
    proof (cases "quad_bytes [a, b, c, d]")
      case None
      then show ?thesis by (simp add: f decode_spec.simps [of cs]) (simp add: cs)
    next
      case (Some bs)
      have ih: "length bs = 3 \<Longrightarrow>
        decode_spec r = (case feed [] False r of Some (bs, [], _) \<Rightarrow> Some bs | _ \<Rightarrow> None)"
        using 1 Some by (simp add: cs)
      have "length bs = 3 \<or> length bs < 3" using length_quad_bytes [OF Some] by linarith
      then show ?thesis
      proof
        assume "length bs = 3"
        then show ?thesis using ih Some
          by (simp add: f cs decode_spec_quad split: option.splits list.splits)
      next
        assume "length bs < 3"
        then show ?thesis using Some
          by (cases r) (simp_all add: f cs decode_spec_quad)
      qed
    qed
  qed
qed

section \<open>The calls\<close>

definition dec_holds :: "EVP_ENCODE_CTX \<Rightarrow> bytes \<Rightarrow> bool \<Rightarrow> bool" where
  "dec_holds ctx p e \<longleftrightarrow> length (data ctx) = 48 \<and> unat (data_used ctx) = length p \<and> length p < 4 \<and>
     take (length p) (data ctx) = p \<and> eof_seen ctx = e \<and> \<not> error_encountered ctx"

lemma dec_holds_init: "dec_holds (EVP_DecodeInit ctx) [] False"
  by (simp add: dec_holds_def EVP_DecodeInit_def)

definition strip :: "bytes \<Rightarrow> bytes" where
  "strip = filter (\<lambda>c. \<not> is_space c)"

lemma decode_chars:
  "dec_holds ctx p e \<Longrightarrow>
   (case feed p e (strip inp) of
      None \<Rightarrow> \<exists>ctx' m'. decode_chars ctx m out n inp = Inl (ctx', m') \<and> error_encountered ctx'
    | Some (bs, p', e') \<Rightarrow> \<exists>ctx'. decode_chars ctx m out n inp =
        Inr (ctx', mem_store m out bs, n + of_nat (length bs)) \<and> dec_holds ctx' p' e')"
proof (induction inp arbitrary: ctx p e m out n)
  case Nil
  then show ?case by (simp add: strip_def)
next
  case (Cons c inp)
  show ?case
  proof (cases "is_space c \<or> e")
    case True
    then show ?thesis
    proof (cases "is_space c")
      case True
      then have s: "decode_chars ctx m out n (c # inp) = decode_chars ctx m out n inp"
        and f: "strip (c # inp) = strip inp" by (simp_all add: strip_def)
      show ?thesis using Cons(1) [OF Cons(2), of m out n] unfolding s f .
    next
      case False
      then show ?thesis using \<open>is_space c \<or> e\<close> Cons(2) by (simp add: strip_def dec_holds_def)
    qed
  next
    case False
    let ?c = "ctx\<lparr>data := (data ctx)[length p := c], data_used := data_used ctx + 1\<rparr>"
    have h: "length (data ctx) = 48" "unat (data_used ctx) = length p" "length p < 4"
      "take (length p) (data ctx) = p" "\<not> eof_seen ctx" "\<not> error_encountered ctx"
      using Cons(2) False by (auto simp: dec_holds_def)
    have u: "unat (data_used ctx + 1) = length p + 1"
      using h(2,3) by (subst unat_add_lem [THEN iffD1]) simp_all
    have t: "take (length p + 1) ((data ctx)[length p := c]) = p @ [c]"
      using h by (simp add: take_Suc_conv_app_nth)
    show ?thesis
    proof (cases "length p = 3")
      case True
      then have "data_used ctx + 1 = 4" using u by (simp add: word_unat_eq_iff)
      moreover have q: "quad_bytes ((data ctx)[length p := c]) = quad_bytes (p @ [c])"
        using quad_bytes_take [of "(data ctx)[length p := c]"] t h(1) True by simp
      ultimately have s: "decode_chars ctx m out n (c # inp) =
        (case quad_bytes (p @ [c]) of None \<Rightarrow> Inl (?c\<lparr>error_encountered := True\<rparr>, m)
         | Some bs \<Rightarrow> decode_chars (?c\<lparr>data_used := 0, eof_seen := length bs < 3\<rparr>) (mem_store m out bs)
             (out + length bs) (n + of_nat (length bs)) inp)"
        using False h by (simp add: decode_quad split: option.splits)
      show ?thesis
      proof (cases "quad_bytes (p @ [c])")
        case None
        then show ?thesis unfolding s using False True by (simp add: strip_def)
      next
        case (Some bs)
        have "dec_holds (?c\<lparr>data_used := 0, eof_seen := length bs < 3\<rparr>) [] (length bs < 3)"
          using h by (simp add: dec_holds_def)
        from Cons(1) [OF this, of "mem_store m out bs" "out + length bs" "n + of_nat (length bs)"]
        show ?thesis unfolding s using False True Some
          by (auto simp: strip_def add.assoc split: option.splits)
      qed
    next
      case neq: False
      then have "data_used ctx + 1 \<noteq> 4" using u by auto
      then have s: "decode_chars ctx m out n (c # inp) = decode_chars ?c m out n inp"
        using False h by simp
      have "dec_holds ?c (p @ [c]) False" using h u t neq by (simp add: dec_holds_def)
      from Cons(1) [OF this, of m out n] show ?thesis
        unfolding s using False neq by (simp add: strip_def)
    qed
  qed
qed

lemma decode_update:
  assumes "dec_holds ctx p e" "length inp \<le> 2147483647"
  shows "case feed p e (strip inp) of
      None \<Rightarrow> \<exists>ctx' m'. EVP_DecodeUpdate ctx m out inp = (ctx', m', 0, - 1)
    | Some (bs, p', e') \<Rightarrow> \<exists>ctx'. EVP_DecodeUpdate ctx m out inp =
        (ctx', mem_store m out bs, int (length bs), if e' then 0 else 1) \<and> dec_holds ctx' p' e'"
proof (cases "feed p e (strip inp)")
  case None
  then show ?thesis using decode_chars [OF assms(1), of m out 0 inp] assms(1)
    by (auto simp: EVP_DecodeUpdate_def dec_holds_def)
next
  case (Some r)
  obtain bs p' e' where r: "r = (bs, p', e')" by (cases r)
  obtain ctx' where c: "decode_chars ctx m out 0 inp = Inr (ctx', mem_store m out bs, 0 + of_nat (length bs))"
    "dec_holds ctx' p' e'"
    using decode_chars [OF assms(1), of m out 0 inp] Some r by auto
  have "length (strip inp) \<le> length inp" by (simp add: strip_def)
  then have "length bs \<le> 2147483647"
    using length_feed [of p e "strip inp" bs "(p', e')"] Some r assms by (simp add: dec_holds_def)
  then have "unat (of_nat (length bs) :: u64) = length bs" "\<not> INT_MAX < (of_nat (length bs) :: u64)"
    by (simp_all add: unat_of_nat word_less_nat_alt)
  moreover have "uint (of_nat (length bs) :: u64) = int (length bs)" if "unat (of_nat (length bs) :: u64) = length bs"
    using that by (metis uint_nat)
  ultimately show ?thesis using c Some r assms(1)
    by (auto simp: EVP_DecodeUpdate_def dec_holds_def)
qed

text \<open>A sequence of calls with the output pointer advanced by \<open>*out_len\<close>, up to the first that fails,
  and then the final one. The result is memory and the end of the output.\<close>

fun decode_calls :: "EVP_ENCODE_CTX \<Rightarrow> memory \<Rightarrow> nat \<Rightarrow> bytes list \<Rightarrow> (memory \<times> nat) option" where
  "decode_calls ctx m out [] = (if EVP_DecodeFinal ctx = 1 then Some (m, out) else None)"
| "decode_calls ctx m out (inp # calls) =
    (let (ctx, m, n, r) = EVP_DecodeUpdate ctx m out inp
     in if r = - 1 then None else decode_calls ctx m (out + nat n) calls)"

lemma decode_calls:
  assumes "dec_holds ctx p e" "\<forall>c\<in>set calls. length c \<le> 2147483647"
  shows "decode_calls ctx m out calls =
    (case feed p e (strip (concat calls)) of
       Some (bs, [], _) \<Rightarrow> Some (mem_store m out bs, out + length bs) | _ \<Rightarrow> None)"
  using assms
proof (induction calls arbitrary: ctx p e m out)
  case Nil
  have "data_used ctx = 0 \<longleftrightarrow> p = []" using Nil(1) by (auto simp: dec_holds_def word_unat_eq_iff)
  then show ?case using Nil(1)
    by (cases p) (simp_all add: strip_def EVP_DecodeFinal_def dec_holds_def)
next
  case (Cons c calls)
  have st: "strip (concat (c # calls)) = strip c @ strip (concat calls)" by (simp add: strip_def)
  have lc: "length c \<le> 2147483647" using Cons(3) by simp
  show ?case
  proof (cases "feed p e (strip c)")
    case None
    then obtain ctx' m' where "EVP_DecodeUpdate ctx m out c = (ctx', m', 0, - 1)"
      using decode_update [OF Cons(2) lc, of m out] by auto
    then show ?thesis unfolding st by (simp add: feed_append None)
  next
    case (Some r)
    obtain bs p' e' where r: "r = (bs, p', e')" by (cases r)
    then obtain ctx' where u: "EVP_DecodeUpdate ctx m out c =
        (ctx', mem_store m out bs, int (length bs), if e' then 0 else 1)" and h: "dec_holds ctx' p' e'"
      using decode_update [OF Cons(2) lc, of m out] Some by auto
    have "decode_calls ctx m out (c # calls) = decode_calls ctx' (mem_store m out bs) (out + length bs) calls"
      using u by simp
    also have "\<dots> = (case feed p' e' (strip (concat calls)) of
       Some (bs', [], _) \<Rightarrow> Some (mem_store (mem_store m out bs) (out + length bs) bs', out + length bs + length bs')
       | _ \<Rightarrow> None)"
      using Cons(1) [OF h] Cons(3) by simp
    finally show ?thesis unfolding st by (auto simp: feed_append Some r split: option.splits list.splits)
  qed
qed

text \<open>C31. The streaming decoder agrees with the one-shot decoder: however the input is cut into calls
  and whatever white space it contains, the calls and the final one succeed exactly if
  \<open>EVP_DecodeBase64\<close> accepts the input without the white space, and leave the same memory and length.\<close>

theorem decode_stream_is_one_shot:
  assumes "\<forall>c\<in>set calls. length c \<le> 2147483647" "length (concat calls) < 2 ^ 64"
    "3 * (length (strip (concat calls)) div 4) \<le> unat max_out"
  shows "decode_calls (EVP_DecodeInit ctx) m out calls =
    (case EVP_DecodeBase64 m out max_out (strip (concat calls)) of
       (m', None) \<Rightarrow> None | (m', Some n) \<Rightarrow> Some (m', out + unat n))"
proof -
  let ?t = "strip (concat calls)"
  have "length ?t \<le> length (concat calls)" unfolding strip_def by (rule length_filter_le)
  then have "length ?t < 2 ^ 64" using assms(2) by (rule le_less_trans)
  then have one: "case EVP_DecodeBase64 m out max_out ?t of (m', None) \<Rightarrow> decode_spec ?t = None
    | (m', Some n) \<Rightarrow> \<exists>bs. decode_spec ?t = Some bs \<and> m' = mem_store m out bs \<and> unat n = length bs"
    using assms(3) by (rule decode_base64)
  have "decode_calls (EVP_DecodeInit ctx) m out calls =
    (case decode_spec ?t of None \<Rightarrow> None | Some bs \<Rightarrow> Some (mem_store m out bs, out + length bs))"
    unfolding decode_calls [OF dec_holds_init assms(1)] decode_spec_feed
    by (auto split: option.splits list.splits)
  then show ?thesis using one by (auto split: prod.splits option.splits)
qed

lemma strip_base64: "strip (base64 src) = base64 src"
  unfolding strip_def using base64_no_space by (simp add: filter_id_conv)

lemma strip_lines: "strip (encoded_lines src) = base64 src"
proof (induction src rule: full_lines.induct)
  case (1 src)
  show ?case
  proof (cases "48 \<le> length src")
    case True
    have "is_space 10" by (simp add: is_space_def)
    moreover have "encoded_lines src = base64 (take 48 src) @ [10] @ encoded_lines (drop 48 src)"
      using True by (simp add: encoded_lines_def full_lines_long [OF True] partial_line_long [OF True])
    ultimately have "strip (encoded_lines src) = base64 (take 48 src) @ base64 (drop 48 src)"
      using 1 [OF True] strip_base64 [of "take 48 src"] by (simp add: strip_def)
    also have "\<dots> = base64 src" using base64_append [of "take 48 src" "drop 48 src"] True by simp
    finally show ?thesis .
  next
    case False
    then show ?thesis using strip_base64 [of src]
      by (simp add: encoded_lines_def full_lines_short) (simp add: strip_def is_space_def)
  qed
qed

text \<open>C32. The streaming coder round trip: any data encoded through any sequence of calls, its text cut
  into any other sequence of calls, is decoded to the data, with nothing else written.\<close>

theorem base64_stream_roundtrip:
  assumes "\<forall>c\<in>set calls. length c \<le> 1585834032" "encode_calls (EVP_EncodeInit c0) m0 0 calls = Some (m1, e)"
    "concat pieces = mem_load m1 0 e" "\<forall>c\<in>set pieces. length c \<le> 2147483647"
  shows "decode_calls (EVP_DecodeInit ctx) m out pieces =
    Some (mem_store m out (concat calls), out + length (concat calls))"
proof -
  let ?l = "encoded_lines (concat calls)"
  obtain z where z: "length z \<le> 1" "encode_calls (EVP_EncodeInit c0) m0 0 calls =
      Some (mem_store m0 0 (?l @ z), 0 + length ?l)"
    using encode_calls [OF enc_holds_init assms(1), of c0 m0 0] by auto
  then have m1: "m1 = mem_store m0 0 (?l @ z)" "e = length ?l" using assms(2) by simp_all
  have "concat pieces = ?l" unfolding assms(3) m1
    by (rule nth_equalityI) (simp_all add: mem_load_def mem_store_apply nth_append del: mem_store_append)
  then have "strip (concat pieces) = base64 (concat calls)" by (simp add: strip_lines)
  then show ?thesis
    using decode_spec_feed [of "base64 (concat calls)"]
    unfolding decode_calls [OF dec_holds_init assms(4)] decode_spec_base64
    by (auto split: option.splits list.splits)
qed

lemma decode_stream_is_one_shot_witness:
  "decode_calls (EVP_DecodeInit (EVP_EncodeInit undefined)) (\<lambda>_. 9) 2 [[81, 10], [85], [73, 61, 32]] =
     Some (mem_store (\<lambda>_. 9) 2 [65, 66], 4)"
proof -
  have b: "base64 [65, 66] = [81, 85, 73, 61]" by simp (intro conjI; code_simp)
  have s: "strip (concat [[81, 10], [85], [73, 61, 32]]) = base64 [65, 66]"
    by (simp add: b strip_def is_space_def del: base64.simps)
  obtain m' n where d: "EVP_DecodeBase64 (\<lambda>_. 9) 2 100 (base64 [65, 66]) = (m', n)" by fastforce
  then have "n \<noteq> None \<and> m' = mem_store (\<lambda>_. 9) 2 [65, 66] \<and> unat (the n) = 2"
    using decode_base64 [of "base64 [65, 66]" 100 "\<lambda>_. 9" 2] unfolding decode_spec_base64
    by (simp add: length_base64 split: option.splits del: base64.simps)
  then show ?thesis
    using decode_stream_is_one_shot [of "[[81, 10], [85], [73, 61, 32]]" 100 "EVP_EncodeInit undefined" "\<lambda>_. 9" 2]
    unfolding s d by (auto simp: b simp del: decode_calls.simps mem_store.simps base64.simps)
qed

lemma base64_stream_roundtrip_witness:
  "case encode_calls (EVP_EncodeInit (EVP_DecodeInit undefined)) (\<lambda>_. 0) 0 [[1, 2], [3, 4, 5]] of
     None \<Rightarrow> False
   | Some (m1, e) \<Rightarrow> decode_calls (EVP_DecodeInit (EVP_EncodeInit undefined)) (\<lambda>_. 9) 2
       [take 3 (mem_load m1 0 e), drop 3 (mem_load m1 0 e)] = Some (mem_store (\<lambda>_. 9) 2 [1, 2, 3, 4, 5], 7)"
proof -
  have e: "length (encoded_lines (concat [[1, 2], [3, 4, 5 :: u8]])) = 9"
    by (simp add: encoded_lines_def length_full_lines partial_line_def length_base64)
  obtain m1 where m1: "encode_calls (EVP_EncodeInit (EVP_DecodeInit undefined)) (\<lambda>_. 0) 0 [[1, 2], [3, 4, 5]] = Some (m1, 9)"
    using encode_calls [OF enc_holds_init, of "[[1, 2], [3, 4, 5]]" "EVP_DecodeInit undefined" "\<lambda>_. 0" 0] e
    by (auto simp del: encode_calls.simps)
  show ?thesis
    using base64_stream_roundtrip [OF _ m1, of "[take 3 (mem_load m1 0 9), drop 3 (mem_load m1 0 9)]"
        "EVP_EncodeInit undefined" "\<lambda>_. 9" 2]
    by (simp add: m1 del: encode_calls.simps decode_calls.simps)
qed

end
