(* ===== verification/Stack.thy ===== *)
theory Stack
  imports Comparator
begin

text \<open>
  \<open>crypto/stack/stack.c\<close>: growable arrays of pointers, with optional sorting. A pointer is a word, with 0
  for \<open>NULL\<close>; the stack argument is \<open>None\<close> where the code gets \<open>NULL\<close>. The comparison function of a
  stack is the address of a function too; \<open>call_cmp\<close>, an argument of the operations that compare, says
  what calling it on two elements returns. \<open>data\<close> has \<open>num_alloc\<close> entries.
\<close>

type_synonym ptr = u64

record STACK =
  num :: u64
  entries :: "ptr list"
  sorted_flag :: bool
  num_alloc :: u64
  comp :: ptr

text \<open>The allocator: which sizes it grants, and what fresh memory holds.\<close>

record alloc_env =
  granted :: "u64 \<Rightarrow> bool"
  junk :: "nat \<Rightarrow> ptr"

definition kMinSize :: u64 where
  "kMinSize = 4"

text \<open>\<open>sk_ok\<close> says whether the allocation of the \<open>_STACK\<close> itself succeeds.\<close>

definition sk_new :: "alloc_env \<Rightarrow> bool \<Rightarrow> ptr \<Rightarrow> STACK option" where
  "sk_new env sk_ok c =
    (if \<not> sk_ok then None
     else if \<not> granted env (8 * kMinSize) then None
     else Some \<lparr>num = 0, entries = replicate (unat kMinSize) 0, sorted_flag = False,
                num_alloc = kMinSize, comp = c\<rparr>)"

definition sk_new_null :: "alloc_env \<Rightarrow> bool \<Rightarrow> STACK option" where
  "sk_new_null env sk_ok = sk_new env sk_ok 0"

definition sk_num :: "STACK option \<Rightarrow> u64" where
  "sk_num sk = (case sk of None \<Rightarrow> 0 | Some s \<Rightarrow> num s)"

definition sk_zero :: "STACK option \<Rightarrow> STACK option" where
  "sk_zero sk = (case sk of None \<Rightarrow> None | Some s \<Rightarrow>
     if num s = 0 then Some s
     else Some (s\<lparr>entries := replicate (unat (num s)) 0 @ drop (unat (num s)) (entries s),
                  num := 0, sorted_flag := False\<rparr>))"

definition sk_value :: "STACK option \<Rightarrow> u64 \<Rightarrow> ptr" where
  "sk_value sk i = (case sk of None \<Rightarrow> 0 | Some s \<Rightarrow> if num s \<le> i then 0 else entries s ! unat i)"

definition sk_set :: "STACK option \<Rightarrow> u64 \<Rightarrow> ptr \<Rightarrow> STACK option \<times> ptr" where
  "sk_set sk i value = (case sk of None \<Rightarrow> (None, 0) | Some s \<Rightarrow>
     if num s \<le> i then (sk, 0) else (Some (s\<lparr>entries := (entries s)[unat i := value]\<rparr>), value))"

text \<open>\<open>OPENSSL_realloc\<close> to \<open>n\<close> entries.\<close>

definition resize :: "alloc_env \<Rightarrow> u64 \<Rightarrow> ptr list \<Rightarrow> ptr list" where
  "resize env n xs = take (unat n) xs @ map (junk env) [length xs..<unat n]"

text \<open>\<open>memmove\<close> of \<open>n\<close> entries inside the array.\<close>

definition move_entries :: "nat \<Rightarrow> nat \<Rightarrow> nat \<Rightarrow> ptr list \<Rightarrow> ptr list" where
  "move_entries dst src n xs =
    (let block = take n (drop src xs) in take dst xs @ block @ drop (dst + length block) xs)"

text \<open>The growth step of \<open>sk_insert\<close>; \<open>None\<close> is failure.\<close>

definition sk_grow :: "alloc_env \<Rightarrow> STACK \<Rightarrow> STACK option" where
  "sk_grow env s =
    (if num_alloc s \<le> num s + 1
     then let new_alloc = push_bit 1 (num_alloc s);
              alloc_size = new_alloc * 8;
              (new_alloc, alloc_size) =
                (if new_alloc < num_alloc s \<or> alloc_size div 8 \<noteq> new_alloc
                 then (num_alloc s + 1, (num_alloc s + 1) * 8) else (new_alloc, alloc_size))
          in if new_alloc < num_alloc s \<or> alloc_size div 8 \<noteq> new_alloc then None
             else if \<not> granted env alloc_size then None
             else Some (s\<lparr>entries := resize env new_alloc (entries s), num_alloc := new_alloc\<rparr>)
     else Some s)"

definition sk_insert :: "alloc_env \<Rightarrow> STACK option \<Rightarrow> ptr \<Rightarrow> u64 \<Rightarrow> STACK option \<times> u64" where
  "sk_insert env sk p pos = (case sk of None \<Rightarrow> (None, 0) | Some s \<Rightarrow>
     (case sk_grow env s of None \<Rightarrow> (sk, 0) | Some s \<Rightarrow>
        let xs = (if num s \<le> pos then (entries s)[unat (num s) := p]
                  else (move_entries (unat pos + 1) (unat pos) (unat (num s - pos)) (entries s))
                         [unat pos := p])
        in (Some (s\<lparr>entries := xs, num := num s + 1, sorted_flag := False\<rparr>), num s + 1)))"

definition sk_delete :: "STACK option \<Rightarrow> u64 \<Rightarrow> STACK option \<times> ptr" where
  "sk_delete sk pos = (case sk of None \<Rightarrow> (None, 0) | Some s \<Rightarrow>
     if num s \<le> pos then (sk, 0)
     else let ret = entries s ! unat pos;
              xs = (if pos \<noteq> num s - 1
                    then move_entries (unat pos) (unat pos + 1) (unat (num s - pos - 1)) (entries s)
                    else entries s)
          in (Some (s\<lparr>entries := xs, num := num s - 1\<rparr>), ret))"

lemma unat_inc: "i < n \<Longrightarrow> unat (i + 1 :: u64) = unat i + 1"
proof -
  assume "i < n"
  then have "unat i + 1 < 2 ^ LENGTH(64)"
    using unat_u64_lt [of n] by (simp add: word_less_nat_alt del: unat_u64_lt)
  then show ?thesis by (subst unat_add_lem [THEN iffD1]) simp_all
qed

text \<open>The first index in \<open>i..<n\<close> whose entry satisfies a test.\<close>

function first_index :: "(ptr \<Rightarrow> bool) \<Rightarrow> ptr list \<Rightarrow> u64 \<Rightarrow> u64 \<Rightarrow> u64 option" where
  "first_index test xs i n =
    (if i < n then if test (xs ! unat i) then Some i else first_index test xs (i + 1) n else None)"
  by pat_completeness auto
termination
  by (relation "measure (\<lambda>(test, xs, i, n). unat n - unat i)")
    (auto simp: unat_inc word_less_nat_alt)

definition sk_delete_ptr :: "STACK option \<Rightarrow> ptr \<Rightarrow> STACK option \<times> ptr" where
  "sk_delete_ptr sk p = (case sk of None \<Rightarrow> (None, 0) | Some s \<Rightarrow>
     (case first_index (\<lambda>e. e = p) (entries s) 0 (num s) of
        None \<Rightarrow> (sk, 0)
      | Some i \<Rightarrow> sk_delete sk i))"

definition sk_is_sorted :: "STACK option \<Rightarrow> bool" where
  "sk_is_sorted sk = (case sk of None \<Rightarrow> True | Some s \<Rightarrow> sorted_flag s)"

text \<open>The binary search of \<open>sk_find\<close> for \<open>p\<close>; \<open>c\<close> compares two elements.\<close>

lemma search_mid:
  fixes lo hi :: u64
  assumes "lo < hi"
  defines "mid \<equiv> lo + (hi - lo - 1) div 2"
  shows "unat mid = unat lo + (unat hi - unat lo - 1) div 2" "lo \<le> mid" "mid < hi"
    "unat (mid + 1) = unat mid + 1"
proof -
  have h: "unat (hi - lo) = unat hi - unat lo" "unat lo < unat hi"
    using assms(1) by (simp_all only: unat_minus_le less_imp_le word_less_nat_alt)
  then have "hi - lo \<noteq> 0" by auto
  then have d: "unat ((hi - lo - 1) div 2) = (unat hi - unat lo - 1) div 2"
    by (simp add: unat_div unat_dec h(1))
  have lt: "unat lo + (unat hi - unat lo - 1) div 2 < unat hi" using h(2) by linarith
  then have "unat lo + (unat hi - unat lo - 1) div 2 < 2 ^ LENGTH(64)"
    using unsigned_less [of hi, where 'a = nat] by linarith
  then show u: "unat mid = unat lo + (unat hi - unat lo - 1) div 2"
    unfolding mid_def by (subst unat_add_lem [THEN iffD1]) (simp_all add: d)
  show "lo \<le> mid" "mid < hi" using lt by (simp_all add: word_le_nat_alt word_less_nat_alt u)
  then show "unat (mid + 1) = unat mid + 1" using unat_inc by blast
qed

function binary_search :: "(ptr \<Rightarrow> ptr \<Rightarrow> int) \<Rightarrow> ptr \<Rightarrow> ptr list \<Rightarrow> u64 \<Rightarrow> u64 \<Rightarrow> u64 option" where
  "binary_search c p xs lo hi =
    (if lo < hi
     then let mid = lo + (hi - lo - 1) div 2; r = c p (xs ! unat mid)
          in if 0 < r then binary_search c p xs (mid + 1) hi
             else if r < 0 then binary_search c p xs lo mid
             else if hi - lo = 1 then Some mid
             else binary_search c p xs lo (mid + 1)
     else None)"
  by pat_completeness auto
termination
proof (relation "measure (\<lambda>(c, p, xs, lo, hi). unat hi - unat lo)", goal_cases)
  case (2 c p xs lo hi)
  then show ?case using search_mid [of lo hi] by (simp add: word_less_nat_alt word_le_nat_alt) linarith
next
  case (3 c p xs lo hi)
  then show ?case using search_mid [of lo hi] by (simp add: word_less_nat_alt word_le_nat_alt) linarith
next
  case (4 c p xs lo hi mid r)
  have "unat (hi - lo) = unat hi - unat lo" using 4(1) by (simp add: unat_minus_le)
  then have "unat hi - unat lo \<noteq> 1" using 4 by (auto simp: word_unat_eq_iff)
  then show ?case using 4 search_mid [of lo hi] by (simp add: word_less_nat_alt) linarith
qed simp

declare binary_search.simps [simp del] first_index.simps [simp del]

definition sk_find :: "(ptr \<Rightarrow> ptr \<Rightarrow> ptr \<Rightarrow> int) \<Rightarrow> STACK option \<Rightarrow> ptr \<Rightarrow> u64 option" where
  "sk_find call_cmp sk p = (case sk of None \<Rightarrow> None | Some s \<Rightarrow>
     if comp s = 0 then first_index (\<lambda>e. e = p) (entries s) 0 (num s)
     else if p = 0 then None
     else if \<not> sk_is_sorted sk then first_index (\<lambda>e. call_cmp (comp s) p e = 0) (entries s) 0 (num s)
     else binary_search (call_cmp (comp s)) p (entries s) 0 (num s))"

definition sk_shift :: "STACK option \<Rightarrow> STACK option \<times> ptr" where
  "sk_shift sk = (case sk of None \<Rightarrow> (None, 0) | Some s \<Rightarrow>
     if num s = 0 then (sk, 0) else sk_delete sk 0)"

text \<open>The macros never pass \<open>NULL\<close> to \<open>sk_push\<close>: it reads \<open>sk->num\<close> first.\<close>

definition sk_push :: "alloc_env \<Rightarrow> STACK \<Rightarrow> ptr \<Rightarrow> STACK option \<times> u64" where
  "sk_push env s p = sk_insert env (Some s) p (num s)"

definition sk_pop :: "STACK option \<Rightarrow> STACK option \<times> ptr" where
  "sk_pop sk = (case sk of None \<Rightarrow> (None, 0) | Some s \<Rightarrow>
     if num s = 0 then (sk, 0) else sk_delete sk (num s - 1))"

text \<open>\<open>None\<close> also where an allocation fails.\<close>

definition sk_dup :: "alloc_env \<Rightarrow> bool \<Rightarrow> STACK option \<Rightarrow> STACK option" where
  "sk_dup env sk_ok sk = (case sk of None \<Rightarrow> None | Some s \<Rightarrow>
     (case sk_new env sk_ok (comp s) of None \<Rightarrow> None | Some ret \<Rightarrow>
        if \<not> granted env (8 * num_alloc s) then None
        else let xs = resize env (num_alloc s) (entries ret)
             in Some (ret\<lparr>entries := take (unat (num s)) (entries s) @ drop (unat (num s)) xs,
                          num := num s, sorted_flag := sorted_flag s, num_alloc := num_alloc s,
                          comp := comp s\<rparr>)))"

definition sk_sort :: "((ptr \<Rightarrow> ptr \<Rightarrow> int) \<Rightarrow> ptr list \<Rightarrow> ptr list) \<Rightarrow> (ptr \<Rightarrow> ptr \<Rightarrow> ptr \<Rightarrow> int) \<Rightarrow>
    STACK option \<Rightarrow> STACK option" where
  "sk_sort qsort call_cmp sk = (case sk of None \<Rightarrow> None | Some s \<Rightarrow>
     if comp s = 0 \<or> sorted_flag s then sk
     else let n = unat (num s);
              xs = (if 2 \<le> num s then qsort (call_cmp (comp s)) (take n (entries s)) @ drop n (entries s)
                    else entries s)
          in Some (s\<lparr>entries := xs, sorted_flag := True\<rparr>))"

definition sk_set_cmp_func :: "STACK \<Rightarrow> ptr \<Rightarrow> STACK \<times> ptr" where
  "sk_set_cmp_func s c =
    (let old = comp s; s = (if comp s \<noteq> c then s\<lparr>sorted_flag := False\<rparr> else s)
     in (s\<lparr>comp := c\<rparr>, old))"

text \<open>Freeing is observed as the list of the elements passed to \<open>free_func\<close>, in order.\<close>

definition sk_pop_free_ex :: "STACK option \<Rightarrow> ptr list" where
  "sk_pop_free_ex sk = (case sk of None \<Rightarrow> [] | Some s \<Rightarrow>
     filter (\<lambda>e. e \<noteq> 0) (take (unat (num s)) (entries s)))"

text \<open>The loop of \<open>sk_deep_copy\<close> at index \<open>i\<close>: \<open>Inl\<close> is failure of a copy with the elements freed.\<close>

function copy_loop :: "(ptr \<Rightarrow> ptr) \<Rightarrow> STACK \<Rightarrow> u64 \<Rightarrow> ptr list + STACK" where
  "copy_loop copy s i =
    (if i < num s
     then if entries s ! unat i = 0 then copy_loop copy s (i + 1)
          else let c = copy (entries s ! unat i); s = s\<lparr>entries := (entries s)[unat i := c]\<rparr>
               in if c = 0 then Inl (filter (\<lambda>e. e \<noteq> 0) (take (unat i) (entries s)))
                  else copy_loop copy s (i + 1)
     else Inr s)"
  by pat_completeness auto
termination
  by (relation "measure (\<lambda>(copy, s, i). unat (num s) - unat i)") (auto simp: unat_inc word_less_nat_alt)

declare copy_loop.simps [simp del]

definition sk_deep_copy :: "alloc_env \<Rightarrow> bool \<Rightarrow> (ptr \<Rightarrow> ptr) \<Rightarrow> STACK option \<Rightarrow> ptr list \<times> STACK option" where
  "sk_deep_copy env sk_ok copy sk = (case sk_dup env sk_ok sk of None \<Rightarrow> ([], None) | Some ret \<Rightarrow>
     (case copy_loop copy ret 0 of Inl freed \<Rightarrow> (freed, None) | Inr ret \<Rightarrow> ([], Some ret)))"

end
