(* ===== verification/StackProps.thy ===== *)
theory StackProps
  imports Stack
begin

text \<open>
  The stack as a list: what every operation does to the list of its elements, the well-formedness of
  the array that every operation keeps, and searching, which relies on the \<open>sorted\<close> flag being true to
  the elements.
\<close>

definition elems :: "STACK \<Rightarrow> ptr list" where
  "elems s = take (unat (num s)) (entries s)"

definition stack_ok :: "STACK \<Rightarrow> bool" where
  "stack_ok s \<longleftrightarrow> unat (num s) < unat (num_alloc s) \<and> length (entries s) = unat (num_alloc s) \<and>
     unat (num_alloc s) * 8 < 2 ^ 64"

lemma length_elems: "stack_ok s \<Longrightarrow> length (elems s) = unat (num s)"
  by (simp add: stack_ok_def elems_def)

lemma nth_elems: "i < unat (num s) \<Longrightarrow> elems s ! i = entries s ! i"
  by (simp add: elems_def)

lemma num_plus_1: "stack_ok s \<Longrightarrow> unat (num s + 1) = unat (num s) + 1"
  by (rule unat_inc [of _ "num_alloc s"]) (simp add: stack_ok_def word_less_nat_alt)

section \<open>Growing\<close>

lemma size_fits: "(n * 8) div 8 = (n :: u64) \<longleftrightarrow> unat n * 8 < 2 ^ 64"
proof -
  have u: "unat (n * 8) = unat n * 8 mod 2 ^ 64" by (simp add: unat_word_ariths)
  have "(n * 8) div 8 = n \<longleftrightarrow> unat n * 8 mod 2 ^ 64 div 8 = unat n"
    by (simp only: word_unat_eq_iff unat_div u) simp
  also have "\<dots> \<longleftrightarrow> unat n * 8 < 2 ^ 64"
  proof (cases "unat n * 8 < 2 ^ 64")
    case False
    have "unat n * 8 mod 2 ^ 64 div 8 < 2 ^ 61" by (intro less_mult_imp_div_less) simp
    moreover have "\<not> unat n < 2 ^ 61" using False by simp
    ultimately show ?thesis using False by auto
  qed simp
  finally show ?thesis .
qed

lemma double: "stack_ok s \<Longrightarrow> unat (push_bit 1 (num_alloc s)) = 2 * unat (num_alloc s)"
  by (simp add: push_bit_eq_mult stack_ok_def unat_word_ariths mult.commute)

lemma sk_grow:
  assumes "stack_ok s" "sk_grow env s = Some s'"
  shows "stack_ok s' \<and> unat (num s) + 1 < unat (num_alloc s') \<and> num s' = num s \<and> elems s' = elems s \<and>
    sorted_flag s' = sorted_flag s \<and> comp s' = comp s"
proof (cases "num_alloc s \<le> num s + 1")
  case False
  then show ?thesis using assms num_plus_1 [OF assms(1)]
    by (auto simp: sk_grow_def word_le_nat_alt)
next
  case True
  define na where "na = push_bit 1 (num_alloc s)"
  have d: "unat na = 2 * unat (num_alloc s)" unfolding na_def by (rule double [OF assms(1)])
  have nl: "\<not> na < num_alloc s" by (simp add: word_less_nat_alt d)
  have i: "unat (num_alloc s + 1) = unat (num_alloc s) + 1" "\<not> num_alloc s + 1 < num_alloc s"
    using assms(1) unat_add_lem [of "num_alloc s" 1] by (simp_all add: stack_ok_def word_less_nat_alt)
  have pos: "0 < unat (num_alloc s)" using assms(1) unfolding stack_ok_def by linarith
  note g = assms(2) [unfolded sk_grow_def Let_def na_def [symmetric], unfolded if_P [OF True]]
  obtain m where m: "s' = s\<lparr>entries := resize env m (entries s), num_alloc := m\<rparr>"
    "unat m * 8 < 2 ^ 64" "unat (num_alloc s) < unat m"
  proof (cases "na * 8 div 8 = na")
    case True
    then have "unat na * 8 < 2 ^ 64" by (simp only: size_fits)
    moreover have "s' = s\<lparr>entries := resize env na (entries s), num_alloc := na\<rparr>"
      using g nl True by (simp split: if_splits)
    ultimately show ?thesis using that [of na] d pos by simp
  next
    case ne: False
    let ?n1 = "num_alloc s + 1"
    have "?n1 * 8 div 8 = ?n1 \<and> s' = s\<lparr>entries := resize env ?n1 (entries s), num_alloc := ?n1\<rparr>"
      using g ne i(2) by (simp only: simp_thms if_True if_False prod.case option.inject option.distinct split: if_splits)
    then show ?thesis using that [of ?n1] i(1) by (simp only: size_fits)
  qed
  have l: "length (entries s) = unat (num_alloc s)" "unat (num s) < unat (num_alloc s)"
    using assms(1) by (simp_all add: stack_ok_def)
  have "resize env m (entries s) = entries s @ map (junk env) [unat (num_alloc s)..<unat m]"
    using l m(3) by (simp add: resize_def)
  then show ?thesis using l m by (auto simp: stack_ok_def elems_def)
qed

section \<open>Insertion and deletion\<close>

lemma move_up_entries:
  assumes "i \<le> n" "n < length xs"
  shows "(move_entries (i + 1) i (n - i) xs)[i := p] = take i xs @ p # drop i (take n xs) @ drop (n + 1) xs"
proof -
  have b: "take (n - i) (drop i xs) = drop i (take n xs)" by (simp add: drop_take)
  have "length (drop i (take n xs)) = n - i" using assms by simp
  then have "move_entries (i + 1) i (n - i) xs = take (i + 1) xs @ drop i (take n xs) @ drop (n + 1) xs"
    using assms by (simp add: move_entries_def Let_def b)
  moreover have "take (i + 1) xs = take i xs @ [xs ! i]" using assms by (simp add: take_Suc_conv_app_nth)
  ultimately show ?thesis using assms by (simp add: list_update_append)
qed

lemma sk_insert_list:
  assumes "stack_ok s"
  shows "sk_insert env (Some s) p pos = (Some s, 0) \<or>
    (\<exists>s'. sk_insert env (Some s) p pos = (Some s', num s') \<and> stack_ok s' \<and> num s' = num s + 1 \<and>
      \<not> sorted_flag s' \<and> comp s' = comp s \<and>
      elems s' = (let i = min (unat pos) (unat (num s)) in take i (elems s) @ p # drop i (elems s)))"
proof (cases "sk_grow env s")
  case None
  then show ?thesis by (simp add: sk_insert_def)
next
  case (Some g)
  have g: "stack_ok g" "unat (num s) + 1 < unat (num_alloc g)" "num g = num s" "elems g = elems s" "comp g = comp s"
    using sk_grow [OF assms Some] by auto
  let ?n = "unat (num s)" and ?i = "unat pos"
  have l: "?n < length (entries g)" using g(1,3) by (simp add: stack_ok_def)
  define xs where "xs = (if num g \<le> pos then (entries g)[unat (num g) := p]
      else (move_entries (unat pos + 1) (unat pos) (unat (num g - pos)) (entries g))[unat pos := p])"
  have xs: "length xs = length (entries g) \<and>
    take (?n + 1) xs = (let i = min ?i ?n in take i (elems s) @ p # drop i (elems s))"
  proof (cases "num s \<le> pos")
    case True
    then have "min ?i ?n = ?n" by (simp add: word_le_nat_alt min_def)
    then show ?thesis using True l g(3)
      by (simp add: xs_def Let_def take_Suc_conv_app_nth flip: g(4)) (simp add: elems_def g(3))
  next
    case False
    then have "pos \<le> num s" by simp
    then have i: "?i < ?n" "unat (num s - pos) = ?n - ?i"
      using False by (simp_all only: unat_minus_le) (simp add: word_le_nat_alt)
    have "xs = take ?i (entries g) @ p # drop ?i (take ?n (entries g)) @ drop (?n + 1) (entries g)"
      using move_up_entries [of ?i ?n "entries g" p] i l False g(3) by (simp add: xs_def)
    moreover have "min ?i ?n = ?i" using i(1) by simp
    ultimately show ?thesis using i(1) l
      by (simp add: Let_def min_def flip: g(4)) (auto simp add: elems_def g(3) Suc_diff_le)
  qed
  let ?s = "g\<lparr>entries := xs, num := num g + 1, sorted_flag := False\<rparr>"
  have "sk_insert env (Some s) p pos = (Some ?s, num ?s)"
    by (simp add: sk_insert_def Some Let_def xs_def)
  moreover have "stack_ok ?s" "elems ?s = (let i = min ?i ?n in take i (elems s) @ p # drop i (elems s))"
    using xs g num_plus_1 [OF assms] by (simp_all add: stack_ok_def elems_def)
  ultimately show ?thesis using g by auto
qed

lemma sk_delete_list:
  assumes "stack_ok s" "pos < num s"
  shows "\<exists>s'. sk_delete (Some s) pos = (Some s', elems s ! unat pos) \<and> stack_ok s' \<and>
    unat (num s') = unat (num s) - 1 \<and> sorted_flag s' = sorted_flag s \<and> comp s' = comp s \<and>
    elems s' = take (unat pos) (elems s) @ drop (Suc (unat pos)) (elems s)"
proof -
  let ?n = "unat (num s)" and ?i = "unat pos"
  have i: "?i < ?n" using assms(2) by (simp add: word_less_nat_alt)
  have l: "?n < length (entries s)" using assms(1) by (simp add: stack_ok_def)
  have "num s \<noteq> 0" using i by auto
  then have n1: "unat (num s - 1) = ?n - 1" by (rule unat_dec)
  define xs where "xs = (if pos \<noteq> num s - 1 then move_entries ?i (?i + 1) (unat (num s - pos - 1)) (entries s)
      else entries s)"
  have xs: "length xs = length (entries s) \<and> take (?n - 1) xs = take ?i (elems s) @ drop (Suc ?i) (elems s)"
  proof (cases "pos = num s - 1")
    case True
    then have "?i = ?n - 1" using n1 by simp
    then show ?thesis using True i l by (simp add: xs_def elems_def min_def)
  next
    case False
    have "pos \<le> num s" using assms(2) by simp
    then have "unat (num s - pos) = ?n - ?i" by (rule unat_minus_le)
    moreover have "num s - pos \<noteq> 0" using assms(2) by auto
    ultimately have m: "unat (num s - pos - 1) = ?n - ?i - 1" by (simp add: unat_dec)
    have b: "take (?n - ?i - 1) (drop (?i + 1) (entries s)) = drop (Suc ?i) (elems s)"
      using i by (simp add: elems_def drop_take)
    have lb: "?i + length (drop (Suc ?i) (elems s)) = ?n - 1"
      using length_elems [OF assms(1)] i by simp
    have "xs = move_entries ?i (?i + 1) (?n - ?i - 1) (entries s)" using False m by (simp add: xs_def)
    also have "\<dots> = take ?i (entries s) @ drop (Suc ?i) (elems s) @ drop (?n - 1) (entries s)"
      unfolding move_entries_def Let_def b lb ..
    finally have "xs = take ?i (entries s) @ drop (Suc ?i) (elems s) @ drop (?n - 1) (entries s)" .
    moreover have "length (drop (Suc ?i) (elems s)) = ?n - 1 - ?i"
      using length_elems [OF assms(1)] by simp
    moreover have "?i \<noteq> ?n - 1" using False n1 by (metis word_unat_eq_iff)
    then have "\<not> ?n - 1 \<le> ?i" using i by linarith
    ultimately show ?thesis using i l by (simp add: elems_def min_def)
  qed
  let ?s = "s\<lparr>entries := xs, num := num s - 1\<rparr>"
  have "sk_delete (Some s) pos = (Some ?s, elems s ! ?i)"
    using assms(2) i by (simp add: sk_delete_def Let_def xs_def nth_elems flip: not_le)
  moreover have "stack_ok ?s" "elems ?s = take ?i (elems s) @ drop (Suc ?i) (elems s)"
    using xs assms(1) n1 by (auto simp: stack_ok_def elems_def)
  ultimately show ?thesis using n1 by auto
qed

section \<open>Searching\<close>

lemma first_index_spec:
  "case first_index test xs i n of
     None \<Rightarrow> \<forall>k. unat i \<le> k \<and> k < unat n \<longrightarrow> \<not> test (xs ! k)
   | Some j \<Rightarrow> i \<le> j \<and> j < n \<and> test (xs ! unat j) \<and> (\<forall>k. unat i \<le> k \<and> k < unat j \<longrightarrow> \<not> test (xs ! k))"
proof (induction test xs i n rule: first_index.induct)
  case (1 test xs i n)
  show ?case
  proof (cases "i < n \<and> \<not> test (xs ! unat i)")
    case True
    have u: "unat (i + 1) = unat i + 1" using True unat_inc by blast
    have ex: "(\<forall>k. unat i \<le> k \<and> k < m \<longrightarrow> \<not> test (xs ! k)) \<longleftrightarrow>
        (\<forall>k. unat i + 1 \<le> k \<and> k < m \<longrightarrow> \<not> test (xs ! k))" for m
    proof
      assume "\<forall>k. unat i + 1 \<le> k \<and> k < m \<longrightarrow> \<not> test (xs ! k)"
      then show "\<forall>k. unat i \<le> k \<and> k < m \<longrightarrow> \<not> test (xs ! k)"
        using True by (metis Suc_eq_plus1 Suc_leI le_neq_implies_less)
    qed simp
    have "first_index test xs i n = first_index test xs (i + 1) n"
      using True by (simp add: first_index.simps [of test xs i])
    then show ?thesis using 1 True u ex
      by (auto simp: word_le_nat_alt split: option.splits)
  next
    case False
    then show ?thesis
      by (auto simp: first_index.simps [of test xs i] word_less_nat_alt)
  qed
qed

text \<open>The binary search keeps an interval: in front of it everything is strictly above, and if there is a
  match at all there is one in front of its end. So it ends at the first match.\<close>

lemma binary_search_spec:
  assumes "comparator c" "ascending c (take n xs)" "n \<le> length xs"
  shows "unat hi \<le> n \<Longrightarrow> \<forall>k < unat lo. 0 < c p (xs ! k) \<Longrightarrow>
    (\<exists>k < n. c p (xs ! k) = 0) \<longrightarrow> (\<exists>k < unat hi. c p (xs ! k) = 0) \<Longrightarrow>
    (case binary_search c p xs lo hi of
       None \<Rightarrow> \<forall>k < n. c p (xs ! k) \<noteq> 0
     | Some j \<Rightarrow> unat j < n \<and> c p (xs ! unat j) = 0 \<and> (\<forall>k < unat j. c p (xs ! k) \<noteq> 0))"
  using assms
proof (induction c p xs lo hi rule: binary_search.induct)
  case (1 c p xs lo hi)
  note above = comparator.all_above [OF 1(7,8)] and below = comparator.all_below [OF 1(7,8)]
  let ?mid = "lo + (hi - lo - 1) div 2"
  show ?case
  proof (cases "lo < hi")
    case False
    then have "\<forall>k < n. c p (xs ! k) \<noteq> 0"
      using 1(5,6) by (metis less_irrefl less_le_trans not_less word_le_nat_alt)
    then show ?thesis using False by (simp add: binary_search.simps [of c])
  next
    case True
    note mid = search_mid [OF True]
    have mn: "unat ?mid < n" using mid(3) 1(4) by (simp add: word_less_nat_alt)
    then have nth: "take n xs ! k = xs ! k" if "k \<le> unat ?mid" for k using that by simp
    let ?r = "c p (xs ! unat ?mid)"
    consider "0 < ?r" | "?r < 0" | "?r = 0" by linarith
    then show ?thesis
    proof cases
      assume r: "0 < ?r"
      then have "binary_search c p xs lo hi = binary_search c p xs (?mid + 1) hi"
        using True by (simp add: binary_search.simps [of c p xs lo hi])
      moreover have "\<forall>k < unat (?mid + 1). 0 < c p (xs ! k)"
        using above [of "unat ?mid" p] r mn 1(9) nth by (auto simp: mid(4))
      ultimately show ?thesis using 1(1) [OF True refl refl r] 1(4,6-9) by simp
    next
      assume r: "?r < 0"
      then have s: "binary_search c p xs lo hi = binary_search c p xs lo ?mid"
        using True by (simp add: binary_search.simps [of c p xs lo hi])
      have "c p (xs ! k) < 0" if "unat ?mid \<le> k" "k < n" for k
        using below [of p "unat ?mid" k] r mn 1(9) that nth by auto
      then have "(\<exists>k < n. c p (xs ! k) = 0) \<longrightarrow> (\<exists>k < unat ?mid. c p (xs ! k) = 0)"
        by (metis less_irrefl not_less)
      then show ?thesis using 1(2) [OF True refl refl _ r] 1(4-9) mn r s by simp
    next
      assume r: "?r = 0"
      show ?thesis
      proof (cases "hi - lo = 1")
        case one: True
        have "unat (hi - lo) = unat hi - unat lo" using True by (simp only: unat_minus_le less_imp_le)
        then have "unat ?mid = unat lo" using one mid(1) by simp
        then have "\<forall>k < unat ?mid. c p (xs ! k) \<noteq> 0" using 1(5) by force
        moreover have "binary_search c p xs lo hi = Some ?mid"
          using True one r by (simp add: binary_search.simps [of c p xs lo hi])
        ultimately show ?thesis using r mn by simp
      next
        case False
        then have "binary_search c p xs lo hi = binary_search c p xs lo (?mid + 1)"
          using True r by (simp add: binary_search.simps [of c p xs lo hi])
        moreover have "\<exists>k < unat (?mid + 1). c p (xs ! k) = 0" using r mid(4) by (intro exI [of _ "unat ?mid"]) simp
        ultimately show ?thesis using 1(3) [OF True refl refl _ _ False] 1(4-9) mn mid(4) r by simp
      qed
    qed
  qed
qed

text \<open>What a search looks for: the pointer itself without a comparison function, otherwise an element
  that compares equal; \<open>NULL\<close> is never found by comparison.\<close>

definition sk_matches :: "(ptr \<Rightarrow> ptr \<Rightarrow> ptr \<Rightarrow> int) \<Rightarrow> STACK \<Rightarrow> ptr \<Rightarrow> ptr \<Rightarrow> bool" where
  "sk_matches call_cmp s p e \<longleftrightarrow>
     (if comp s = 0 then e = p else p \<noteq> 0 \<and> call_cmp (comp s) p e = 0)"

definition sorted_true :: "(ptr \<Rightarrow> ptr \<Rightarrow> ptr \<Rightarrow> int) \<Rightarrow> STACK \<Rightarrow> bool" where
  "sorted_true call_cmp s \<longleftrightarrow> (sorted_flag s \<longrightarrow> ascending (call_cmp (comp s)) (elems s))"

lemma sk_find_first:
  assumes "stack_ok s" "sorted_true call_cmp s" "comparator (call_cmp (comp s))"
  shows "case sk_find call_cmp (Some s) p of
      None \<Rightarrow> \<forall>e\<in>set (elems s). \<not> sk_matches call_cmp s p e
    | Some j \<Rightarrow> unat j < length (elems s) \<and> sk_matches call_cmp s p (elems s ! unat j) \<and>
        (\<forall>k < unat j. \<not> sk_matches call_cmp s p (elems s ! k))"
proof -
  have len: "length (elems s) = unat (num s)" by (rule length_elems [OF assms(1)])
  have set: "(\<forall>e\<in>set (elems s). P e) \<longleftrightarrow> (\<forall>k < unat (num s). P (entries s ! k))" for P
    by (auto simp: all_set_conv_all_nth len nth_elems)
  have idx: "case first_index test (entries s) 0 (num s) of
      None \<Rightarrow> \<forall>k < unat (num s). \<not> test (entries s ! k)
    | Some j \<Rightarrow> unat j < unat (num s) \<and> test (entries s ! unat j) \<and> (\<forall>k < unat j. \<not> test (entries s ! k))" for test
    using first_index_spec [where test = test and xs = "entries s" and i = 0 and n = "num s"]
    by (auto simp: word_less_nat_alt split: option.splits)
  have bin: "case binary_search (call_cmp (comp s)) p (entries s) 0 (num s) of
       None \<Rightarrow> \<forall>k < unat (num s). call_cmp (comp s) p (entries s ! k) \<noteq> 0
     | Some j \<Rightarrow> unat j < unat (num s) \<and> call_cmp (comp s) p (entries s ! unat j) = 0 \<and>
         (\<forall>k < unat j. call_cmp (comp s) p (entries s ! k) \<noteq> 0)" if "sorted_flag s"
    using assms(1,2) that
    by (intro binary_search_spec [OF assms(3)]) (auto simp: sorted_true_def elems_def stack_ok_def)
  show ?thesis
  proof (cases "comp s \<noteq> 0 \<and> p \<noteq> 0 \<and> sorted_flag s")
    case True
    then have "sk_find call_cmp (Some s) p = binary_search (call_cmp (comp s)) p (entries s) 0 (num s)"
      by (simp add: sk_find_def sk_is_sorted_def)
    then show ?thesis using bin True
      by (auto simp: set len nth_elems sk_matches_def split: option.splits)
  next
    case False
    define test where "test = (\<lambda>e. if comp s = 0 then e = p else call_cmp (comp s) p e = 0)"
    have "sk_find call_cmp (Some s) p = (if comp s \<noteq> 0 \<and> p = 0 then None else first_index test (entries s) 0 (num s))"
      using False by (auto simp: sk_find_def sk_is_sorted_def test_def)
    then show ?thesis using idx [of test] False
      by (auto simp: set len nth_elems sk_matches_def test_def split: option.splits if_splits)
  qed
qed

section \<open>Histories\<close>

text \<open>One call of an operation that changes a stack; \<open>sk_set\<close> is not among them.\<close>

inductive sk_step :: "alloc_env \<Rightarrow> ((ptr \<Rightarrow> ptr \<Rightarrow> int) \<Rightarrow> ptr list \<Rightarrow> ptr list) \<Rightarrow>
    (ptr \<Rightarrow> ptr \<Rightarrow> ptr \<Rightarrow> int) \<Rightarrow> STACK \<Rightarrow> STACK \<Rightarrow> bool"
  for env qsort call_cmp where
  insert: "sk_insert env (Some s) p pos = (Some s', r) \<Longrightarrow> sk_step env qsort call_cmp s s'"
| push: "sk_push env s p = (Some s', r) \<Longrightarrow> sk_step env qsort call_cmp s s'"
| delete: "sk_delete (Some s) pos = (Some s', r) \<Longrightarrow> sk_step env qsort call_cmp s s'"
| delete_ptr: "sk_delete_ptr (Some s) p = (Some s', r) \<Longrightarrow> sk_step env qsort call_cmp s s'"
| shift: "sk_shift (Some s) = (Some s', r) \<Longrightarrow> sk_step env qsort call_cmp s s'"
| pop: "sk_pop (Some s) = (Some s', r) \<Longrightarrow> sk_step env qsort call_cmp s s'"
| zero: "sk_zero (Some s) = Some s' \<Longrightarrow> sk_step env qsort call_cmp s s'"
| sort: "sk_sort qsort call_cmp (Some s) = Some s' \<Longrightarrow> sk_step env qsort call_cmp s s'"
| set_cmp_func: "sk_set_cmp_func s c = (s', old) \<Longrightarrow> sk_step env qsort call_cmp s s'"
| dup: "sk_dup env ok (Some s) = Some s' \<Longrightarrow> sk_step env qsort call_cmp s s'"

definition stack_inv :: "(ptr \<Rightarrow> ptr \<Rightarrow> ptr \<Rightarrow> int) \<Rightarrow> STACK \<Rightarrow> bool" where
  "stack_inv call_cmp s \<longleftrightarrow> stack_ok s \<and> sorted_true call_cmp s"

lemma stack_inv_new: "sk_new env ok c = Some s \<Longrightarrow> stack_inv call_cmp s"
  by (auto simp: sk_new_def stack_inv_def stack_ok_def sorted_true_def kMinSize_def split: if_splits)

lemma stack_inv_insert:
  assumes "stack_inv call_cmp s" "sk_insert env (Some s) p pos = (Some s', r)"
  shows "stack_inv call_cmp s'"
  using sk_insert_list [of s env p pos] assms by (auto simp: stack_inv_def sorted_true_def)

lemma stack_inv_delete:
  assumes "stack_inv call_cmp s" "sk_delete (Some s) pos = (Some s', r)"
  shows "stack_inv call_cmp s'"
proof (cases "pos < num s")
  case True
  then show ?thesis
    using sk_delete_list [of s pos] assms ascending_drop_nth [of "call_cmp (comp s)" "elems s" "unat pos"]
    by (auto simp: stack_inv_def sorted_true_def)
next
  case False
  then have "num s \<le> pos" by simp
  then show ?thesis using assms by (simp add: sk_delete_def)
qed

lemma stack_inv_sort:
  assumes "stack_inv call_cmp s" "comparator (call_cmp (comp s))" "qsort_ok qsort"
    "sk_sort qsort call_cmp (Some s) = Some s'"
  shows "stack_inv call_cmp s'"
proof (cases "comp s = 0 \<or> sorted_flag s")
  case True
  then show ?thesis using assms(1,4) by (simp add: sk_sort_def)
next
  case False
  let ?q = "qsort (call_cmp (comp s)) (elems s)"
  have ok: "stack_ok s" using assms(1) by (simp add: stack_inv_def)
  note q = qsort_okD [OF assms(3,2), of "elems s"]
  have "length ?q = unat (num s)" by (simp add: q(3) length_elems ok)
  moreover have "ascending (call_cmp (comp s)) (elems s)" if "\<not> 2 \<le> num s"
  proof -
    have "length (elems s) < 2" using that length_elems [OF ok] by (simp add: word_le_nat_alt)
    then show ?thesis by (cases "elems s") auto
  qed
  ultimately show ?thesis using False assms(4) ok q
    by (auto simp: sk_sort_def Let_def stack_inv_def stack_ok_def sorted_true_def elems_def)
qed

lemma stack_inv_dup:
  assumes "stack_inv call_cmp s" "sk_dup env ok (Some s) = Some s'"
  shows "stack_inv call_cmp s' \<and> elems s' = elems s \<and> sorted_flag s' = sorted_flag s \<and> comp s' = comp s \<and>
    num s' = num s"
proof -
  have l: "unat (num s) < unat (num_alloc s)" "length (entries s) = unat (num_alloc s)"
    using assms(1) by (simp_all add: stack_inv_def stack_ok_def)
  then have "length (resize env (num_alloc s) xs) = unat (num_alloc s)" if "length xs = 4" for xs
    using that by (simp add: resize_def)
  then show ?thesis using assms l
    by (auto simp: sk_dup_def sk_new_def kMinSize_def stack_inv_def stack_ok_def sorted_true_def elems_def Let_def
        split: option.splits if_splits)
qed

lemma stack_inv_step:
  assumes "sk_step env qsort call_cmp s s'" "qsort_ok qsort" "\<And>c. comparator (call_cmp c)"
    "stack_inv call_cmp s"
  shows "stack_inv call_cmp s'"
  using assms(1)
proof (cases rule: sk_step.cases)
  case (zero)
  then show ?thesis using assms(4)
    by (auto simp: sk_zero_def stack_inv_def stack_ok_def sorted_true_def elems_def split: if_splits)
next
  case (set_cmp_func c old)
  then show ?thesis using assms(4)
    by (auto simp: sk_set_cmp_func_def stack_inv_def stack_ok_def sorted_true_def elems_def Let_def split: if_splits)
next
  case (insert p pos r)
  then show ?thesis using stack_inv_insert assms(4) by blast
next
  case (push p r)
  then show ?thesis using stack_inv_insert assms(4) by (simp add: sk_push_def)
next
  case (delete pos r)
  then show ?thesis using stack_inv_delete assms(4) by blast
next
  case (delete_ptr p r)
  then show ?thesis using stack_inv_delete [OF assms(4)] assms(4)
    by (simp add: sk_delete_ptr_def split: option.splits)
next
  case (shift r)
  then show ?thesis using stack_inv_delete [OF assms(4)] assms(4)
    by (simp add: sk_shift_def split: if_splits)
next
  case (pop r)
  then show ?thesis using stack_inv_delete [OF assms(4)] assms(4)
    by (simp add: sk_pop_def split: if_splits)
next
  case sort
  then show ?thesis using stack_inv_sort [OF assms(4) assms(3) assms(2)] by blast
next
  case (dup ok)
  then show ?thesis using stack_inv_dup [OF assms(4)] by blast
qed

text \<open>C33. Searching is right after any history: on a stack made by \<open>sk_new\<close> and changed by any sequence of
  insertions, deletions, sorting, copying and changes of the comparison function, \<open>sk_find\<close> returns the
  first matching index, and 0 exactly if no element matches, whether it searches linearly or by
  bisection.\<close>

theorem sk_find_after_history:
  assumes "sk_new env ok c = Some s0" "(sk_step env qsort call_cmp)\<^sup>*\<^sup>* s0 s" "qsort_ok qsort"
    "\<And>c. comparator (call_cmp c)"
  shows "case sk_find call_cmp (Some s) p of
      None \<Rightarrow> \<forall>e\<in>set (elems s). \<not> sk_matches call_cmp s p e
    | Some j \<Rightarrow> unat j < length (elems s) \<and> sk_matches call_cmp s p (elems s ! unat j) \<and>
        (\<forall>k < unat j. \<not> sk_matches call_cmp s p (elems s ! k))"
proof -
  have "stack_inv call_cmp s" using assms(2)
    by induction (use stack_inv_new [OF assms(1)] stack_inv_step [OF _ assms(3,4)] in auto)
  then show ?thesis using sk_find_first assms(4) by (simp add: stack_inv_def)
qed

definition number_cmp :: "ptr \<Rightarrow> ptr \<Rightarrow> ptr \<Rightarrow> int" where
  "number_cmp f x y = int (unat x) - int (unat y)"

lemma number_cmp: "comparator (number_cmp f)"
  by unfold_locales (auto simp: number_cmp_def)

definition plain_alloc :: alloc_env where
  "plain_alloc = \<lparr>granted = (\<lambda>_. True), junk = (\<lambda>_. 0)\<rparr>"

lemma sk_find_after_history_witness:
  "sk_find number_cmp (sk_sort insertion_qsort number_cmp
     (Some \<lparr>num = 2, entries = [9, 5, 0, 0], sorted_flag = False, num_alloc = 4, comp = 1\<rparr>)) 9 = Some 1"
proof -
  let ?s = "\<lambda>n xs f. \<lparr>num = n, entries = xs, sorted_flag = f, num_alloc = 4, comp = 1\<rparr>"
  have new: "sk_new plain_alloc True 1 = Some (?s 0 [0, 0, 0, 0] False)"
    by (simp add: sk_new_def plain_alloc_def kMinSize_def) (simp add: eval_nat_numeral)
  have p1: "sk_push plain_alloc (?s 0 [0, 0, 0, 0] False) 9 = (Some (?s 1 [9, 0, 0, 0] False), 1)"
    by (simp add: sk_push_def sk_insert_def sk_grow_def plain_alloc_def word_le_nat_alt)
  have p2: "sk_push plain_alloc (?s 1 [9, 0, 0, 0] False) 5 = (Some (?s 2 [9, 5, 0, 0] False), 2)"
    by (simp add: sk_push_def sk_insert_def sk_grow_def plain_alloc_def word_le_nat_alt)
  have st: "sk_sort insertion_qsort number_cmp (Some (?s 2 [9, 5, 0, 0] False)) = Some (?s 2 [5, 9, 0, 0] True)"
    by (simp add: sk_sort_def insertion_qsort_def number_cmp_def)
  let ?step = "sk_step plain_alloc insertion_qsort number_cmp"
  have s1: "?step (?s 0 [0, 0, 0, 0] False) (?s 1 [9, 0, 0, 0] False)" using p1 by (rule sk_step.push)
  have s2: "?step (?s 1 [9, 0, 0, 0] False) (?s 2 [9, 5, 0, 0] False)" using p2 by (rule sk_step.push)
  have s3: "?step (?s 2 [9, 5, 0, 0] False) (?s 2 [5, 9, 0, 0] True)" using st by (rule sk_step.sort)
  have "?step\<^sup>*\<^sup>* (?s 0 [0, 0, 0, 0] False) (?s 2 [5, 9, 0, 0] True)"
    by (rule converse_rtranclp_into_rtranclp, rule s1, rule converse_rtranclp_into_rtranclp, rule s2,
        rule r_into_rtranclp, rule s3)
  note found = sk_find_after_history [OF new this insertion_qsort_ok number_cmp, of 9]
  have el: "elems (?s 2 [5, 9, 0, 0] True) = [5, 9]" by (simp add: elems_def)
  have m: "sk_matches number_cmp (?s 2 [5, 9, 0, 0] True) 9 9" "\<not> sk_matches number_cmp (?s 2 [5, 9, 0, 0] True) 9 5"
    by (simp_all add: sk_matches_def number_cmp_def)
  obtain j where j: "sk_find number_cmp (Some (?s 2 [5, 9, 0, 0] True)) 9 = Some j" "unat j < 2"
    "sk_matches number_cmp (?s 2 [5, 9, 0, 0] True) 9 ([5, 9] ! unat j)"
    using found m unfolding el by (cases "sk_find number_cmp (Some (?s 2 [5, 9, 0, 0] True)) 9") simp_all
  then have "unat j = 1" using m by (cases "unat j") auto
  then have "sk_find number_cmp (Some (?s 2 [5, 9, 0, 0] True)) 9 = Some 1"
    using j(1) by (simp add: word_unat_eq_iff)
  then show ?thesis by (simp only: st)
qed

text \<open>The one operation that breaks it: \<open>sk_set\<close> leaves \<open>sorted\<close> set, which the structure documents as
  ascending elements, so that a search of a well-formed sorted stack misses the element just stored.\<close>

lemma sk_set_hides_element:
  "\<exists>s s'. stack_inv number_cmp s \<and> sk_set (Some s) 0 40 = (Some s', 40) \<and> sk_value (Some s') 0 = 40 \<and>
     sorted_flag s' \<and> \<not> sorted_true number_cmp s' \<and> sk_find number_cmp (Some s') 40 = None"
proof -
  let ?s = "\<lambda>xs. \<lparr>num = 3, entries = xs, sorted_flag = True, num_alloc = 4, comp = 1\<rparr>"
  have "stack_inv number_cmp (?s [10, 20, 30, 0])"
    by (simp add: stack_inv_def stack_ok_def sorted_true_def elems_def number_cmp_def)
  moreover have "sk_set (Some (?s [10, 20, 30, 0])) 0 40 = (Some (?s [40, 20, 30, 0]), 40)"
    by (simp add: sk_set_def)
  moreover have "sk_value (Some (?s [40, 20, 30, 0])) 0 = 40" by (simp add: sk_value_def)
  moreover have "\<not> sorted_true number_cmp (?s [40, 20, 30, 0])"
    by (simp add: sorted_true_def elems_def number_cmp_def)
  moreover have "sk_find number_cmp (Some (?s [40, 20, 30, 0])) 40 = None"
    by (simp add: sk_find_def sk_is_sorted_def binary_search.simps number_cmp_def)
  ultimately show ?thesis by fastforce
qed

section \<open>Deep copies\<close>

definition copied :: "(ptr \<Rightarrow> ptr) \<Rightarrow> ptr \<Rightarrow> ptr" where
  "copied copy e = (if e = 0 then 0 else copy e)"

lemma copy_loop_spec:
  "unat (num s) \<le> length (entries s) \<Longrightarrow> unat i \<le> unat (num s) \<Longrightarrow>
   (case copy_loop copy s i of
      Inr s' \<Rightarrow>
        s' = s\<lparr>entries := take (unat i) (entries s) @ map (copied copy) (drop (unat i) (elems s)) @
                 drop (unat (num s)) (entries s)\<rparr> \<and>
        (\<forall>e\<in>set (drop (unat i) (elems s)). e \<noteq> 0 \<longrightarrow> copy e \<noteq> 0)
    | Inl freed \<Rightarrow> \<exists>k. unat i \<le> k \<and> k < unat (num s) \<and> entries s ! k \<noteq> 0 \<and> copy (entries s ! k) = 0 \<and>
        freed = filter (\<lambda>e. e \<noteq> 0) (take (unat i) (entries s) @ map (copied copy) (drop (unat i) (take k (entries s)))) \<and>
        (\<forall>e\<in>set (drop (unat i) (take k (entries s))). e \<noteq> 0 \<longrightarrow> copy e \<noteq> 0))"
proof (induction copy s i rule: copy_loop.induct)
  case (1 copy s i)
  let ?n = "unat (num s)" and ?i = "unat i" and ?xs = "entries s"
  show ?case
  proof (cases "i < num s")
    case False
    then have "?i = ?n" using 1(4) by (simp add: word_less_nat_alt)
    then show ?thesis using False 1(3)
      by (simp add: copy_loop.simps [of copy s i] elems_def)
  next
    case True
    then have i: "?i < ?n" "unat (i + 1) = ?i + 1" using unat_inc by (auto simp: word_less_nat_alt)
    then have il: "?i < length ?xs" using 1(3) by simp
    let ?e = "?xs ! ?i"
    show ?thesis
    proof (cases "?e \<noteq> 0 \<and> copy ?e = 0")
      case fail: True
      then have "copy_loop copy s i = Inl (filter (\<lambda>e. e \<noteq> 0) (take ?i ?xs))"
        using True by (simp add: copy_loop.simps [of copy s i] Let_def)
      then show ?thesis using fail i by auto
    next
      case False
      define s1 where "s1 = s\<lparr>entries := ?xs[?i := copied copy ?e]\<rparr>"
      have "s1 = s" if "?e = 0" using that list_update_id [of ?xs ?i] by (simp add: s1_def copied_def)
      then have step: "copy_loop copy s i = copy_loop copy s1 (i + 1)"
        using True False by (auto simp: copy_loop.simps [of copy s i] Let_def s1_def copied_def)
      have s1: "num s1 = num s" "length (entries s1) = length ?xs" by (simp_all add: s1_def)
      have tk: "take (?i + 1) (entries s1) = take ?i ?xs @ [copied copy ?e]"
        using il by (simp add: s1_def take_Suc_conv_app_nth)
      have dr: "drop (?i + 1) (take k (entries s1)) = drop (?i + 1) (take k ?xs)" for k
        by (simp add: s1_def drop_take)
      have hd: "drop ?i (take k ?xs) = ?e # drop (?i + 1) (take k ?xs)" if "?i < k" for k
        using Cons_nth_drop_Suc [of ?i "take k ?xs"] that il by simp
      have nth: "entries s1 ! k = ?xs ! k" if "?i + 1 \<le> k" for k using that by (simp add: s1_def)
      have dn: "drop ?n (entries s1) = drop ?n ?xs" using i by (simp add: s1_def)
      have el: "drop (?i + 1) (elems s1) = drop (?i + 1) (elems s)" "drop ?i (elems s) = ?e # drop (?i + 1) (elems s)"
        using dr hd [OF i(1)] by (simp_all add: elems_def s1(1))
      have e: "?e \<noteq> 0 \<longrightarrow> copy ?e \<noteq> 0" using False by blast
      have len: "unat (num s1) \<le> length (entries s1)" "unat (i + 1) \<le> unat (num s1)"
        using 1(3) i s1 by simp_all
      have ih: "case copy_loop copy s1 (i + 1) of
          Inr s' \<Rightarrow>
            s' = s1\<lparr>entries := take (unat (i + 1)) (entries s1) @ map (copied copy) (drop (unat (i + 1)) (elems s1)) @
                     drop (unat (num s1)) (entries s1)\<rparr> \<and>
            (\<forall>e\<in>set (drop (unat (i + 1)) (elems s1)). e \<noteq> 0 \<longrightarrow> copy e \<noteq> 0)
        | Inl freed \<Rightarrow> \<exists>k. unat (i + 1) \<le> k \<and> k < unat (num s1) \<and> entries s1 ! k \<noteq> 0 \<and> copy (entries s1 ! k) = 0 \<and>
            freed = filter (\<lambda>e. e \<noteq> 0) (take (unat (i + 1)) (entries s1) @
              map (copied copy) (drop (unat (i + 1)) (take k (entries s1)))) \<and>
            (\<forall>e\<in>set (drop (unat (i + 1)) (take k (entries s1))). e \<noteq> 0 \<longrightarrow> copy e \<noteq> 0)"
      proof (cases "?e = 0")
        case True
        then have "s1 = s" by fact
        then show ?thesis using 1(1) [OF \<open>i < num s\<close> True] len by (simp only:)
      next
        case nz: False
        then have "s1 = s\<lparr>entries := ?xs[?i := copy ?e]\<rparr>" by (simp add: s1_def copied_def)
        then show ?thesis using 1(2) [OF True nz refl] e nz len by blast
      qed
      show ?thesis
      proof (cases "copy_loop copy s1 (i + 1)")
        case (Inl freed)
        obtain k where k: "?i + 1 \<le> k" "k < ?n" "entries s1 ! k \<noteq> 0" "copy (entries s1 ! k) = 0"
          "freed = filter (\<lambda>e. e \<noteq> 0) ((take ?i ?xs @ [copied copy ?e]) @
              map (copied copy) (drop (?i + 1) (take k ?xs)))"
          "\<forall>e\<in>set (drop (?i + 1) (take k ?xs)). e \<noteq> 0 \<longrightarrow> copy e \<noteq> 0"
          using ih unfolding Inl sum.case i(2) s1(1) tk dr by blast
        have "drop ?i (take k ?xs) = ?e # drop (?i + 1) (take k ?xs)" using k(1) by (intro hd) simp
        then show ?thesis unfolding step Inl sum.case using k e nth [OF k(1)]
          by (intro exI [of _ k]) simp
      next
        case (Inr s')
        then have s': "s' = s1\<lparr>entries := (take ?i ?xs @ [copied copy ?e]) @
              map (copied copy) (drop (?i + 1) (elems s)) @ drop ?n ?xs\<rparr>"
          "\<forall>e\<in>set (drop (?i + 1) (elems s)). e \<noteq> 0 \<longrightarrow> copy e \<noteq> 0"
          using ih unfolding Inr sum.case i(2) s1(1) tk el(1) dn by blast+
        then show ?thesis unfolding step Inr sum.case el(2) using e by (simp add: s1_def)
      qed
    qed
  qed
qed

text \<open>C35. \<open>sk_deep_copy\<close> either succeeds, and the copy has the copies of the elements in order, \<open>NULL\<close> staying
  \<open>NULL\<close>, with the flag and function of the original; or it fails without a leak: every copy made up to
  the one that failed, and nothing else, has been freed, in order.\<close>

theorem sk_deep_copy_exact:
  assumes "stack_inv call_cmp s"
  shows "case sk_deep_copy env ok copy (Some s) of
      (freed, Some s') \<Rightarrow> freed = [] \<and> elems s' = map (copied copy) (elems s) \<and> num s' = num s \<and>
        comp s' = comp s \<and> sorted_flag s' = sorted_flag s \<and> stack_ok s' \<and>
        (\<forall>e\<in>set (elems s). e \<noteq> 0 \<longrightarrow> copy e \<noteq> 0)
    | (freed, None) \<Rightarrow> sk_dup env ok (Some s) = None \<and> freed = [] \<or>
        (\<exists>k < length (elems s). elems s ! k \<noteq> 0 \<and> copy (elems s ! k) = 0 \<and>
          freed = map copy (filter (\<lambda>e. e \<noteq> 0) (take k (elems s))) \<and> 0 \<notin> set freed)"
proof (cases "sk_dup env ok (Some s)")
  case None
  then show ?thesis by (simp add: sk_deep_copy_def)
next
  case (Some d)
  note d = stack_inv_dup [OF assms Some]
  have ok: "stack_ok d" "unat (num d) \<le> length (entries d)"
    using d by (auto simp: stack_inv_def stack_ok_def)
  show ?thesis
  proof (cases "copy_loop copy d 0")
    case (Inl freed)
    obtain k where k: "k < unat (num d)" "entries d ! k \<noteq> 0" "copy (entries d ! k) = 0"
      "freed = filter (\<lambda>e. e \<noteq> 0) (map (copied copy) (take k (entries d)))"
      "\<forall>e\<in>set (take k (entries d)). e \<noteq> 0 \<longrightarrow> copy e \<noteq> 0"
      using copy_loop_spec [OF ok(2), of 0 copy] Inl by auto
    have "take k (entries d) = take k (elems d)" using k(1) by (simp add: elems_def min_def)
    then have t: "take k (entries d) = take k (elems s)" using d by simp
    have "filter (\<lambda>e. e \<noteq> 0) (map (copied copy) xs) = map copy (filter (\<lambda>e. e \<noteq> 0) xs)"
      if "\<forall>e\<in>set xs. e \<noteq> 0 \<longrightarrow> copy e \<noteq> 0" for xs
      using that by (induction xs) (auto simp: copied_def)
    then have "freed = map copy (filter (\<lambda>e. e \<noteq> 0) (take k (elems s)))" using k(4,5) t by simp
    moreover have "0 \<notin> set freed" using k(4) by auto
    moreover have "elems s ! k = entries d ! k" "k < length (elems s)"
      using k(1) d nth_elems [of k d] length_elems [OF ok(1)] by simp_all
    ultimately show ?thesis using k(2,3) Some Inl by (auto simp: sk_deep_copy_def)
  next
    case (Inr s')
    have "s' = d\<lparr>entries := map (copied copy) (elems d) @ drop (unat (num d)) (entries d)\<rparr> \<and>
        (\<forall>e\<in>set (elems d). e \<noteq> 0 \<longrightarrow> copy e \<noteq> 0)"
      using copy_loop_spec [OF ok(2), of 0 copy] Inr by simp
    then show ?thesis using d ok Some Inr length_elems [OF ok(1)]
      by (auto simp: sk_deep_copy_def stack_ok_def elems_def)
  qed
qed

lemma sk_deep_copy_exact_witness:
  "sk_deep_copy plain_alloc True (\<lambda>e. if e = 20 then 0 else e + 1)
     (Some \<lparr>num = 3, entries = [10, 0, 20, 0], sorted_flag = False, num_alloc = 4, comp = 0\<rparr>) = ([11], None)"
proof -
  let ?s = "\<lparr>num = 3, entries = [10, 0, 20, 0], sorted_flag = False, num_alloc = 4, comp = 0\<rparr>"
  let ?c = "\<lambda>e :: ptr. if e = 20 then 0 else e + 1"
  have inv: "stack_inv number_cmp ?s" by (simp add: stack_inv_def stack_ok_def sorted_true_def)
  have el: "elems ?s = [10, 0, 20]" by (simp add: elems_def)
  have dup: "sk_dup plain_alloc True (Some ?s) \<noteq> None"
    by (simp add: sk_dup_def sk_new_def plain_alloc_def Let_def)
  obtain freed r where r: "sk_deep_copy plain_alloc True ?c (Some ?s) = (freed, r)" by fastforce
  note t = sk_deep_copy_exact [OF inv, of plain_alloc True ?c, unfolded r prod.case el]
  have none: "r = None" using t by (cases r) auto
  then obtain k where "k < length [10, 0, 20 :: ptr]" and k: "[10, 0, 20] ! k \<noteq> (0 :: ptr)" "?c ([10, 0, 20] ! k) = 0"
    "freed = map ?c (filter (\<lambda>e. e \<noteq> 0) (take k [10, 0, 20]))"
    using t dup unfolding none option.case by blast
  then have "k < 3" by simp
  then have "k = 2" using k by (auto simp: less_Suc_eq numeral_3_eq_3)
  then show ?thesis using r none k(3) by simp
qed

end
