(* ===== verification/Lhash.thy ===== *)
theory Lhash
  imports Stack
begin

text \<open>
  \<open>crypto/lhash/lhash.c\<close>: the chained hash table, and the string hash it is used with
  (\<open>crypto/mem.c\<close>). A chain is the list of its items from the head, each with the address of its
  \<open>LHASH_ITEM\<close>; the table's hash and comparison functions are addresses, and \<open>call_hash\<close> and \<open>call_cmp\<close>,
  arguments of the operations that use them, say what calling them returns.
\<close>

record LHASH_ITEM =
  addr :: ptr
  data :: ptr
  hash :: u32

record LHASH =
  num_items :: u64
  buckets :: "LHASH_ITEM list list"
  num_buckets :: u64
  callback_depth :: u32
  comp_fn :: ptr
  hash_fn :: ptr

text \<open>What the allocator gives an operation: the address of a new item (0 if it fails), and whether it
  grants an array of a size.\<close>

record lh_alloc =
  item_addr :: ptr
  array_ok :: "u64 \<Rightarrow> bool"

definition kMinNumBuckets :: u64 where
  "kMinNumBuckets = 16"

definition kMaxAverageChainLength :: u64 where
  "kMaxAverageChainLength = 2"

definition kMinAverageChainLength :: u64 where
  "kMinAverageChainLength = 1"

text \<open>\<open>lh_ok\<close> says whether the allocation of the \<open>_LHASH\<close> itself succeeds.\<close>

definition lh_new :: "lh_alloc \<Rightarrow> bool \<Rightarrow> ptr \<Rightarrow> ptr \<Rightarrow> LHASH option" where
  "lh_new env lh_ok h c =
    (if \<not> lh_ok then None
     else if \<not> array_ok env (8 * kMinNumBuckets) then None
     else Some \<lparr>num_items = 0, buckets = replicate (unat kMinNumBuckets) [], num_buckets = kMinNumBuckets,
                callback_depth = 0, comp_fn = c, hash_fn = h\<rparr>)"

definition lh_num_items :: "LHASH \<Rightarrow> u64" where
  "lh_num_items lh = num_items lh"

text \<open>The blocks \<open>lh_free\<close> returns to the allocator, in order; the two last ones are the array and the
  table.\<close>

definition lh_free :: "LHASH option \<Rightarrow> ptr list" where
  "lh_free lh = (case lh of None \<Rightarrow> [] | Some t \<Rightarrow>
     map addr (concat (take (unat (num_buckets t)) (buckets t))))"

definition bucket_of :: "u32 \<Rightarrow> u64 \<Rightarrow> nat" where
  "bucket_of h n = unat ((ucast h :: u64) mod n)"

text \<open>The link the search ends at: the bucket and the place in its chain, past the end if no item is
  equal.\<close>

primrec chain_pos :: "(ptr \<Rightarrow> bool) \<Rightarrow> LHASH_ITEM list \<Rightarrow> nat" where
  "chain_pos eq [] = 0"
| "chain_pos eq (cur # chain) = (if eq (data cur) then 0 else Suc (chain_pos eq chain))"

definition get_next_ptr_and_hash ::
  "(ptr \<Rightarrow> ptr \<Rightarrow> u32) \<Rightarrow> (ptr \<Rightarrow> ptr \<Rightarrow> ptr \<Rightarrow> int) \<Rightarrow> LHASH \<Rightarrow> ptr \<Rightarrow> (nat \<times> nat) \<times> u32" where
  "get_next_ptr_and_hash call_hash call_cmp lh p =
    (let h = call_hash (hash_fn lh) p;
         b = bucket_of h (num_buckets lh)
     in ((b, chain_pos (\<lambda>d. call_cmp (comp_fn lh) d p = 0) (buckets lh ! b)), h))"

definition get_next_ptr_by_key :: "LHASH \<Rightarrow> 'key \<Rightarrow> u32 \<Rightarrow> ('key \<Rightarrow> ptr \<Rightarrow> int) \<Rightarrow> nat \<times> nat" where
  "get_next_ptr_by_key lh k key_hash cmp_key =
    (let b = bucket_of key_hash (num_buckets lh)
     in (b, chain_pos (\<lambda>d. cmp_key k d = 0) (buckets lh ! b)))"

text \<open>The item a link points to.\<close>

definition link_item :: "LHASH \<Rightarrow> nat \<times> nat \<Rightarrow> LHASH_ITEM option" where
  "link_item lh l = (case l of (b, i) \<Rightarrow>
     if i < length (buckets lh ! b) then Some (buckets lh ! b ! i) else None)"

definition lh_retrieve ::
  "(ptr \<Rightarrow> ptr \<Rightarrow> u32) \<Rightarrow> (ptr \<Rightarrow> ptr \<Rightarrow> ptr \<Rightarrow> int) \<Rightarrow> LHASH \<Rightarrow> ptr \<Rightarrow> ptr" where
  "lh_retrieve call_hash call_cmp lh p =
    (case link_item lh (fst (get_next_ptr_and_hash call_hash call_cmp lh p)) of None \<Rightarrow> 0 | Some it \<Rightarrow> data it)"

definition lh_retrieve_key :: "LHASH \<Rightarrow> 'key \<Rightarrow> u32 \<Rightarrow> ('key \<Rightarrow> ptr \<Rightarrow> int) \<Rightarrow> ptr" where
  "lh_retrieve_key lh k key_hash cmp_key =
    (case link_item lh (get_next_ptr_by_key lh k key_hash cmp_key) of None \<Rightarrow> 0 | Some it \<Rightarrow> data it)"

text \<open>Resizing: every item becomes the head of its new chain.\<close>

definition relink :: "u64 \<Rightarrow> LHASH_ITEM \<Rightarrow> LHASH_ITEM list list \<Rightarrow> LHASH_ITEM list list" where
  "relink n cur new_buckets =
    (let b = bucket_of (hash cur) n in new_buckets[b := cur # new_buckets ! b])"

definition lh_rebucket :: "lh_alloc \<Rightarrow> LHASH \<Rightarrow> u64 \<Rightarrow> LHASH" where
  "lh_rebucket env lh new_num_buckets =
    (let alloc_size = 8 * new_num_buckets
     in if alloc_size div 8 \<noteq> new_num_buckets then lh
        else if \<not> array_ok env alloc_size then lh
        else lh\<lparr>buckets := fold (fold (relink new_num_buckets)) (take (unat (num_buckets lh)) (buckets lh))
                  (replicate (unat new_num_buckets) []),
                num_buckets := new_num_buckets\<rparr>)"

definition lh_maybe_resize :: "lh_alloc \<Rightarrow> LHASH \<Rightarrow> LHASH" where
  "lh_maybe_resize env lh =
    (if 0 < callback_depth lh then lh
     else let avg_chain_length = num_items lh div num_buckets lh
          in if kMaxAverageChainLength < avg_chain_length then
               (let new_num_buckets = num_buckets lh * 2
                in if num_buckets lh < new_num_buckets then lh_rebucket env lh new_num_buckets else lh)
             else if avg_chain_length < kMinAverageChainLength \<and> kMinNumBuckets < num_buckets lh then
               (let new_num_buckets = num_buckets lh div 2;
                    new_num_buckets = (if new_num_buckets < kMinNumBuckets then kMinNumBuckets else new_num_buckets)
                in lh_rebucket env lh new_num_buckets)
             else lh)"

text \<open>The results are the old data, 0 if there was none, and the return value.\<close>

definition lh_insert ::
  "(ptr \<Rightarrow> ptr \<Rightarrow> u32) \<Rightarrow> (ptr \<Rightarrow> ptr \<Rightarrow> ptr \<Rightarrow> int) \<Rightarrow> lh_alloc \<Rightarrow> LHASH \<Rightarrow> ptr \<Rightarrow> LHASH \<times> ptr \<times> bool" where
  "lh_insert call_hash call_cmp env lh p =
    (case get_next_ptr_and_hash call_hash call_cmp lh p of ((b, i), h) \<Rightarrow>
       let chain = buckets lh ! b in
       (case link_item lh (b, i) of
          Some it \<Rightarrow> (lh\<lparr>buckets := (buckets lh)[b := chain[i := it\<lparr>data := p\<rparr>]]\<rparr>, data it, True)
        | None \<Rightarrow>
            if item_addr env = 0 then (lh, 0, False)
            else let item = \<lparr>addr = item_addr env, data = p, hash = h\<rparr>;
                     lh = lh\<lparr>buckets := (buckets lh)[b := chain @ [item]], num_items := num_items lh + 1\<rparr>
                 in (lh_maybe_resize env lh, 0, True)))"

definition lh_delete ::
  "(ptr \<Rightarrow> ptr \<Rightarrow> u32) \<Rightarrow> (ptr \<Rightarrow> ptr \<Rightarrow> ptr \<Rightarrow> int) \<Rightarrow> lh_alloc \<Rightarrow> LHASH \<Rightarrow> ptr \<Rightarrow> LHASH \<times> ptr" where
  "lh_delete call_hash call_cmp env lh p =
    (case get_next_ptr_and_hash call_hash call_cmp lh p of ((b, i), h) \<Rightarrow>
       let chain = buckets lh ! b in
       (case link_item lh (b, i) of
          None \<Rightarrow> (lh, 0)
        | Some it \<Rightarrow>
            let lh = lh\<lparr>buckets := (buckets lh)[b := take i chain @ drop (Suc i) chain],
                        num_items := num_items lh - 1\<rparr>
            in (lh_maybe_resize env lh, data it)))"

text \<open>Following the link to the head of a chain.\<close>

definition first_addr :: "LHASH_ITEM list \<Rightarrow> ptr" where
  "first_addr chain = (case chain of [] \<Rightarrow> 0 | it # _ \<Rightarrow> addr it)"

text \<open>
  Iteration. The callback gets the element and may change the table and its own argument. A link is
  followed in the table as the callback left it: the item it leads to is looked up by its address in its
  bucket, and \<open>None\<close> is a freed item or an iteration that does not end.
\<close>

definition node_at :: "LHASH_ITEM list \<Rightarrow> ptr \<Rightarrow> (LHASH_ITEM \<times> ptr) option" where
  "node_at chain cur = (case dropWhile (\<lambda>it. addr it \<noteq> cur) chain of
     [] \<Rightarrow> None
   | it # rest \<Rightarrow> Some (it, first_addr rest))"

partial_function (option) walk_chain ::
  "(ptr \<Rightarrow> LHASH \<Rightarrow> 'arg \<Rightarrow> LHASH \<times> 'arg) \<Rightarrow> nat \<Rightarrow> ptr \<Rightarrow> LHASH \<Rightarrow> 'arg \<Rightarrow> (LHASH \<times> 'arg) option" where
  [code]: "walk_chain func i cur lh arg =
    (if cur = 0 then Some (lh, arg)
     else case node_at (buckets lh ! i) cur of
       None \<Rightarrow> None
     | Some (it, nxt) \<Rightarrow> (case func (data it) lh arg of (lh, arg) \<Rightarrow> walk_chain func i nxt lh arg))"

partial_function (option) walk_buckets ::
  "(ptr \<Rightarrow> LHASH \<Rightarrow> 'arg \<Rightarrow> LHASH \<times> 'arg) \<Rightarrow> nat \<Rightarrow> LHASH \<Rightarrow> 'arg \<Rightarrow> (LHASH \<times> 'arg) option" where
  [code]: "walk_buckets func i lh arg =
    (if i < unat (num_buckets lh)
     then Option.bind (walk_chain func i (first_addr (buckets lh ! i)) lh arg)
       (\<lambda>(lh, arg). walk_buckets func (Suc i) lh arg)
     else Some (lh, arg))"

definition UINT_MAX :: u32 where
  "UINT_MAX = 0xFFFFFFFF"

definition lh_doall_arg ::
  "lh_alloc \<Rightarrow> (ptr \<Rightarrow> LHASH \<Rightarrow> 'arg \<Rightarrow> LHASH \<times> 'arg) \<Rightarrow> LHASH option \<Rightarrow> 'arg \<Rightarrow> (LHASH option \<times> 'arg) option" where
  "lh_doall_arg env func lh arg = (case lh of None \<Rightarrow> Some (None, arg) | Some t \<Rightarrow>
     let t = (if callback_depth t < UINT_MAX then t\<lparr>callback_depth := callback_depth t + 1\<rparr> else t) in
     Option.bind (walk_buckets func 0 t arg)
       (\<lambda>(t, arg).
          let t = (if callback_depth t < UINT_MAX then t\<lparr>callback_depth := callback_depth t - 1\<rparr> else t)
          in Some (Some (lh_maybe_resize env t), arg)))"

section \<open>The string hash\<close>

definition OPENSSL_hash32 :: "bytes \<Rightarrow> nat \<Rightarrow> u32" where
  "OPENSSL_hash32 xs len = fold (\<lambda>b h. xor h (ucast b) * 16777619) (take len xs) 2166136261"

text \<open>A string is its bytes in front of the terminating zero, \<open>None\<close> for \<open>NULL\<close>.\<close>

definition lh_strhash :: "bytes option \<Rightarrow> u32" where
  "lh_strhash c = (case c of None \<Rightarrow> 0 | Some s \<Rightarrow> OPENSSL_hash32 s (length s))"

end
