(* ===== verification/LhashProps.thy ===== *)
theory LhashProps
  imports Lhash
begin

text \<open>
  The hash table as a finite map. \<open>hash_contract\<close> is what the table needs of its hash and comparison
  functions: they agree on a key, for the elements that are valid arguments of them. The facts about
  single operations are proved in it; the map of a table and its invariant are \<open>lh_map\<close> and \<open>lh_inv\<close>.
\<close>

definition lh_items :: "LHASH \<Rightarrow> LHASH_ITEM list" where
  "lh_items lh = concat (buckets lh)"

definition items_map :: "(ptr \<Rightarrow> 'k) \<Rightarrow> LHASH_ITEM list \<Rightarrow> 'k \<rightharpoonup> ptr" where
  "items_map key its = map_of (map (\<lambda>it. (key (data it), data it)) its)"

definition lh_map :: "(ptr \<Rightarrow> 'k) \<Rightarrow> LHASH \<Rightarrow> 'k \<rightharpoonup> ptr" where
  "lh_map key lh = items_map key (lh_items lh)"

definition items_ok :: "(ptr \<Rightarrow> u32) \<Rightarrow> (ptr \<Rightarrow> 'k) \<Rightarrow> (ptr \<Rightarrow> bool) \<Rightarrow> LHASH_ITEM list \<Rightarrow> bool" where
  "items_ok hf key valid its \<longleftrightarrow>
     (\<forall>it\<in>set its. hash it = hf (data it) \<and> valid (data it) \<and> addr it \<noteq> 0) \<and>
     distinct (map (\<lambda>it. key (data it)) its) \<and> distinct (map addr its)"

definition placed :: "u64 \<Rightarrow> LHASH_ITEM list list \<Rightarrow> bool" where
  "placed n bs \<longleftrightarrow> length bs = unat n \<and> (\<forall>i<length bs. \<forall>it\<in>set (bs ! i). bucket_of (hash it) n = i)"

definition lh_inv :: "(ptr \<Rightarrow> u32) \<Rightarrow> (ptr \<Rightarrow> 'k) \<Rightarrow> (ptr \<Rightarrow> bool) \<Rightarrow> LHASH \<Rightarrow> bool" where
  "lh_inv hf key valid lh \<longleftrightarrow> placed (num_buckets lh) (buckets lh) \<and> kMinNumBuckets \<le> num_buckets lh \<and>
     items_ok hf key valid (lh_items lh) \<and> unat (num_items lh) = length (lh_items lh)"

section \<open>Collections of items\<close>

lemma items_map_iff:
  "distinct (map (\<lambda>it. key (data it)) its) \<Longrightarrow>
     items_map key its k = Some d \<longleftrightarrow> (\<exists>it\<in>set its. key (data it) = k \<and> data it = d)"
  by (force simp: items_map_def map_of_eq_Some_iff o_def)

lemma items_map_dom: "dom (items_map key its) = (\<lambda>it. key (data it)) ` set its"
  by (auto simp: items_map_def dom_map_of_conv_image_fst image_image)

lemma items_map_Cons [simp]: "items_map key (it # its) = (items_map key its)(key (data it) \<mapsto> data it)"
  by (simp add: items_map_def)

lemma distinct_perm: "mset xs = mset ys \<Longrightarrow> distinct (map f xs) = distinct (map f ys)"
  by (metis mset_eq_imp_distinct_iff mset_map)

lemma items_map_perm:
  assumes "mset xs = mset ys" "distinct (map (\<lambda>it. key (data it)) xs)"
  shows "items_map key xs = items_map key ys"
proof
  fix k
  have "items_map key xs k = Some d \<longleftrightarrow> items_map key ys k = Some d" for d
    using assms(2) items_map_iff [of key xs] items_map_iff [of key ys]
    by (simp add: distinct_perm [OF assms(1)] mset_eq_setD [OF assms(1)])
  then show "items_map key xs k = items_map key ys k" by (metis option.exhaust)
qed

lemma items_ok_perm: "mset xs = mset ys \<Longrightarrow> items_ok hf key valid xs = items_ok hf key valid ys"
  unfolding items_ok_def by (metis distinct_perm mset_eq_setD)

lemma items_ok_Cons:
  "items_ok hf key valid (it # its) \<longleftrightarrow> hash it = hf (data it) \<and> valid (data it) \<and> addr it \<noteq> 0 \<and>
     key (data it) \<notin> dom (items_map key its) \<and> addr it \<notin> addr ` set its \<and> items_ok hf key valid its"
  unfolding items_ok_def items_map_dom by auto

text \<open>The items have different addresses, so there are fewer of them than addresses.\<close>

lemma items_ok_length:
  assumes "items_ok hf key valid its"
  shows "length its < 2 ^ 64"
proof -
  have d: "distinct (0 # map addr its)" using assms by (auto simp: items_ok_def)
  have "Suc (length its) = card (set (0 # map addr its))" using distinct_card [OF d] by simp
  also have "\<dots> \<le> CARD(u64)" by (rule card_mono) simp_all
  finally show ?thesis by (simp add: card_word)
qed

section \<open>Chains and buckets\<close>

lemma bucket_split:
  assumes "b < length bs"
  obtains us vs where "concat bs = us @ bs ! b @ vs" "\<And>c. concat (bs[b := c]) = us @ c @ vs"
proof
  show "concat (bs[b := c]) = concat (take b bs) @ c @ concat (drop (Suc b) bs)" for c
    using assms by (simp add: upd_conv_take_nth_drop)
  then show "concat bs = concat (take b bs) @ bs ! b @ concat (drop (Suc b) bs)"
    by (metis list_update_id)
qed

lemma bucket_of_less: "n \<noteq> 0 \<Longrightarrow> bucket_of h n < unat n"
  by (simp add: bucket_of_def unat_mod unat_gt_0)

lemma chain_pos_spec:
  "chain_pos eq chain \<le> length chain"
  "chain_pos eq chain < length chain \<Longrightarrow> eq (data (chain ! chain_pos eq chain))"
  "chain_pos eq chain = length chain \<Longrightarrow> it \<in> set chain \<Longrightarrow> \<not> eq (data it)"
  by (induction chain) (auto split: if_splits)

lemma placed_bucket:
  assumes "placed n bs" "it \<in> set (concat bs)"
  shows "it \<in> set (bs ! bucket_of (hash it) n)"
proof -
  obtain i where "i < length bs" "it \<in> set (bs ! i)"
    using assms(2) by (metis UN_E in_set_conv_nth set_concat)
  moreover from this have "bucket_of (hash it) n = i" using assms(1) by (simp add: placed_def)
  ultimately show ?thesis by simp
qed

lemma placed_update:
  "placed n bs \<Longrightarrow> b < length bs \<Longrightarrow> \<forall>it\<in>set c. bucket_of (hash it) n = b \<Longrightarrow> placed n (bs[b := c])"
  by (auto simp: placed_def nth_list_update split: if_splits)

lemma relink_fold:
  assumes "n \<noteq> 0"
  shows "placed n bs \<Longrightarrow> placed n (fold (relink n) its bs) \<and>
    mset (concat (fold (relink n) its bs)) = mset its + mset (concat bs)"
proof (induction its arbitrary: bs)
  case (Cons it its)
  let ?b = "bucket_of (hash it) n"
  have b: "?b < length bs" using Cons.prems bucket_of_less [OF assms] by (simp add: placed_def)
  obtain us vs where "concat bs = us @ bs ! ?b @ vs" "\<And>c. concat (bs[?b := c]) = us @ c @ vs"
    using bucket_split [OF b] by blast
  then have "mset (concat (relink n it bs)) = add_mset it (mset (concat bs))"
    by (simp add: relink_def Let_def)
  moreover have "placed n (relink n it bs)"
    unfolding relink_def Let_def using Cons.prems b by (intro placed_update) (auto simp: placed_def)
  ultimately show ?case using Cons.IH [of "relink n it bs"] by simp
qed simp

lemma fold_fold_concat: "fold (fold f) xss = fold f (concat xss)"
  by (induction xss) auto

lemma placed_replicate: "placed n (replicate (unat n) [])"
  by (simp add: placed_def)

section \<open>Resizing keeps the map\<close>

lemma rebucket_inv:
  assumes "lh_inv hf key valid lh" "kMinNumBuckets \<le> n"
  shows "lh_inv hf key valid (lh_rebucket env lh n) \<and> lh_map key (lh_rebucket env lh n) = lh_map key lh \<and>
    mset (lh_items (lh_rebucket env lh n)) = mset (lh_items lh)"
proof -
  let ?new = "fold (relink n) (lh_items lh) (replicate (unat n) [])"
  have n: "n \<noteq> 0" using assms(2) by (auto simp: kMinNumBuckets_def)
  have c: "take (unat (num_buckets lh)) (buckets lh) = buckets lh"
    using assms(1) by (simp add: lh_inv_def placed_def)
  have r: "placed n ?new" "mset (concat ?new) = mset (lh_items lh)"
    using relink_fold [OF n placed_replicate, of "lh_items lh"] by simp_all
  have ok: "items_ok hf key valid (lh_items lh)" using assms(1) by (simp add: lh_inv_def)
  have "items_ok hf key valid (concat ?new)" using ok items_ok_perm [OF r(2)] by blast
  moreover have "items_map key (concat ?new) = items_map key (lh_items lh)"
    using ok by (intro items_map_perm [OF r(2), symmetric, THEN sym]) (simp add: items_ok_def distinct_perm [OF r(2)])
  moreover have "length (concat ?new) = length (lh_items lh)" using r(2) by (metis size_mset)
  ultimately show ?thesis using assms r
    by (auto simp: lh_rebucket_def Let_def fold_fold_concat c lh_inv_def lh_map_def lh_items_def)
qed

definition same_but_buckets :: "LHASH \<Rightarrow> LHASH \<Rightarrow> bool" where
  "same_but_buckets lh lh' \<longleftrightarrow> num_items lh' = num_items lh \<and> callback_depth lh' = callback_depth lh \<and>
     comp_fn lh' = comp_fn lh \<and> hash_fn lh' = hash_fn lh"

lemma resize_same: "same_but_buckets lh (lh_maybe_resize env lh)"
  by (simp add: same_but_buckets_def lh_maybe_resize_def lh_rebucket_def Let_def)

lemma resize_inv:
  assumes "lh_inv hf key valid lh"
  shows "lh_inv hf key valid (lh_maybe_resize env lh)" "lh_map key (lh_maybe_resize env lh) = lh_map key lh"
    "mset (lh_items (lh_maybe_resize env lh)) = mset (lh_items lh)"
proof -
  have k: "kMinNumBuckets \<le> num_buckets lh" using assms by (simp add: lh_inv_def)
  have up: "kMinNumBuckets \<le> num_buckets lh * 2" if "num_buckets lh < num_buckets lh * 2"
    using k that by (rule order.trans [OF _ less_imp_le])
  have "lh_maybe_resize env lh = lh \<or>
      (\<exists>n. kMinNumBuckets \<le> n \<and> lh_maybe_resize env lh = lh_rebucket env lh n)"
    unfolding lh_maybe_resize_def Let_def using up by (auto simp: not_less)
  then have "lh_inv hf key valid (lh_maybe_resize env lh) \<and> lh_map key (lh_maybe_resize env lh) = lh_map key lh \<and>
      mset (lh_items (lh_maybe_resize env lh)) = mset (lh_items lh)"
    using assms rebucket_inv [OF assms] by fastforce
  then show "lh_inv hf key valid (lh_maybe_resize env lh)" "lh_map key (lh_maybe_resize env lh) = lh_map key lh"
    "mset (lh_items (lh_maybe_resize env lh)) = mset (lh_items lh)"
    by simp_all
qed

section \<open>The contract of the hash and comparison functions\<close>

locale hash_contract =
  fixes hf :: "ptr \<Rightarrow> u32" and cmp :: "ptr \<Rightarrow> ptr \<Rightarrow> int" and key :: "ptr \<Rightarrow> 'k" and valid :: "ptr \<Rightarrow> bool"
  assumes cmp_key: "valid x \<Longrightarrow> valid y \<Longrightarrow> cmp x y = 0 \<longleftrightarrow> key x = key y"
    and hash_key: "valid x \<Longrightarrow> valid y \<Longrightarrow> key x = key y \<Longrightarrow> hf x = hf y"
begin

text \<open>Where an element belongs, and what the search of its chain finds there.\<close>

lemma own_bucket:
  assumes "lh_inv hf key valid lh" "valid p"
  defines "b \<equiv> bucket_of (hf p) (num_buckets lh)"
  shows "b < length (buckets lh)"
    and "it \<in> set (lh_items lh) \<Longrightarrow> key (data it) = key p \<Longrightarrow> it \<in> set (buckets lh ! b)"
    and "it \<in> set (buckets lh ! b) \<Longrightarrow> it \<in> set (lh_items lh) \<and> (cmp (data it) p = 0 \<longleftrightarrow> key (data it) = key p)"
proof -
  have inv: "placed (num_buckets lh) (buckets lh)" "num_buckets lh \<noteq> 0"
      "\<forall>it\<in>set (lh_items lh). hash it = hf (data it) \<and> valid (data it)"
    using assms(1) by (auto simp: lh_inv_def items_ok_def kMinNumBuckets_def)
  show b: "b < length (buckets lh)"
    using bucket_of_less [OF inv(2)] inv(1) by (simp add: b_def placed_def)
  show "it \<in> set (buckets lh ! b)" if "it \<in> set (lh_items lh)" "key (data it) = key p"
  proof -
    have "hash it = hf p" using that inv(3) hash_key assms(2) by metis
    then show ?thesis using placed_bucket [OF inv(1), of it] that(1) by (simp add: b_def lh_items_def)
  qed
  show "it \<in> set (lh_items lh) \<and> (cmp (data it) p = 0 \<longleftrightarrow> key (data it) = key p)"
    if "it \<in> set (buckets lh ! b)"
  proof -
    have "it \<in> set (lh_items lh)" using that b by (auto simp: lh_items_def)
    then show ?thesis using inv(3) cmp_key assms(2) by blast
  qed
qed

lemma search:
  assumes "lh_inv hf key valid lh" "valid p"
  defines "b \<equiv> bucket_of (hf p) (num_buckets lh)"
  defines "i \<equiv> chain_pos (\<lambda>d. cmp d p = 0) (buckets lh ! b)"
  shows "case link_item lh (b, i) of
      None \<Rightarrow> lh_map key lh (key p) = None \<and> i = length (buckets lh ! b)
    | Some it \<Rightarrow> lh_map key lh (key p) = Some (data it) \<and> key (data it) = key p \<and>
        i < length (buckets lh ! b) \<and> buckets lh ! b ! i = it"
proof -
  note own = own_bucket [OF assms(1,2), folded b_def]
  have d: "distinct (map (\<lambda>it. key (data it)) (lh_items lh))"
    using assms(1) by (simp add: lh_inv_def items_ok_def)
  show ?thesis
  proof (cases "i < length (buckets lh ! b)")
    case True
    let ?it = "buckets lh ! b ! i"
    have "?it \<in> set (lh_items lh)" "key (data ?it) = key p"
      using own(3) [of ?it] chain_pos_spec(2) [of "\<lambda>d. cmp d p = 0" "buckets lh ! b"] True
      by (simp_all add: i_def)
    then have "lh_map key lh (key p) = Some (data ?it)"
      unfolding lh_map_def items_map_iff [OF d] by blast
    then show ?thesis using True \<open>key (data ?it) = key p\<close> by (simp add: link_item_def)
  next
    case False
    then have i: "i = length (buckets lh ! b)"
      using chain_pos_spec(1) [of "\<lambda>d. cmp d p = 0" "buckets lh ! b"] by (simp add: i_def)
    have "\<forall>it\<in>set (lh_items lh). key (data it) \<noteq> key p"
      using own(2,3) chain_pos_spec(3) [of "\<lambda>d. cmp d p = 0" "buckets lh ! b"] i by (auto simp: i_def)
    then have "lh_map key lh (key p) = None"
      unfolding lh_map_def using items_map_iff [OF d, of "key p"] by (metis option.exhaust)
    then show ?thesis using i by (simp add: link_item_def)
  qed
qed

lemma replace_item:
  assumes "lh_inv hf key valid lh" "b < length (buckets lh)" "i < length (buckets lh ! b)"
    and "valid p" "key (data (buckets lh ! b ! i)) = key p"
  defines "lh' \<equiv> lh\<lparr>buckets := (buckets lh)[b := (buckets lh ! b)[i := (buckets lh ! b ! i)\<lparr>data := p\<rparr>]]\<rparr>"
  shows "lh_inv hf key valid lh' \<and> lh_map key lh' = (lh_map key lh)(key p \<mapsto> p)"
proof -
  let ?c = "buckets lh ! b" and ?it = "buckets lh ! b ! i"
  let ?it' = "?it\<lparr>data := p\<rparr>"
  obtain us vs where uv: "concat (buckets lh) = us @ ?c @ vs" "\<And>c. concat ((buckets lh)[b := c]) = us @ c @ vs"
    using bucket_split [OF assms(2)] by blast
  let ?rest = "us @ take i ?c @ drop (Suc i) ?c @ vs"
  have m: "mset (lh_items lh) = mset (?it # ?rest)"
    using assms(3) by (subst id_take_nth_drop [OF assms(3)]) (simp add: lh_items_def uv(1), subst id_take_nth_drop [OF assms(3)], simp)
  have m': "mset (lh_items lh') = mset (?it' # ?rest)"
    using assms(3) by (simp add: lh'_def lh_items_def uv(2) upd_conv_take_nth_drop)
  have ok: "items_ok hf key valid (?it # ?rest)"
    using assms(1) items_ok_perm [OF m, of hf key valid] by (simp add: lh_inv_def)
  moreover from this have "valid (data ?it)" by (simp add: items_ok_Cons)
  then have "hf (data ?it) = hf p" using hash_key assms(4,5) by blast
  ultimately have ok': "items_ok hf key valid (?it' # ?rest)"
    using assms(4,5) by (auto simp: items_ok_Cons)
  have p: "placed (num_buckets lh) (buckets lh)" using assms(1) by (simp add: lh_inv_def)
  have "\<forall>it\<in>set (?c[i := ?it']). bucket_of (hash it) (num_buckets lh) = b"
    using p assms(2,3) set_update_subset_insert [of ?c i ?it'] by (fastforce simp: placed_def)
  then have "placed (num_buckets lh') (buckets lh')"
    using placed_update [OF p assms(2)] by (simp add: lh'_def)
  moreover have "length (lh_items lh') = length (lh_items lh)" using m m' by (metis length_Cons size_mset)
  moreover have "items_ok hf key valid (lh_items lh')" using ok' items_ok_perm [OF m', of hf key valid] by blast
  moreover have "lh_map key lh = items_map key (?it # ?rest)" "lh_map key lh' = items_map key (?it' # ?rest)"
    using ok ok' items_map_perm [OF m, of key] items_map_perm [OF m', of key] distinct_perm [OF m, of "\<lambda>it. key (data it)"] distinct_perm [OF m', of "\<lambda>it. key (data it)"]
    by (simp_all add: items_ok_def lh_map_def)
  ultimately show ?thesis using assms(1,5) by (simp add: lh_inv_def) (simp add: lh'_def)
qed

lemma append_item:
  assumes "lh_inv hf key valid lh" "valid p" "a \<noteq> 0" "a \<notin> addr ` set (lh_items lh)"
    and "lh_map key lh (key p) = None"
  defines "b \<equiv> bucket_of (hf p) (num_buckets lh)"
  defines "lh' \<equiv> lh\<lparr>buckets := (buckets lh)[b := buckets lh ! b @ [\<lparr>addr = a, data = p, hash = hf p\<rparr>]],
    num_items := num_items lh + 1\<rparr>"
  shows "lh_inv hf key valid lh' \<and> lh_map key lh' = (lh_map key lh)(key p \<mapsto> p) \<and>
    unat (num_items lh') = unat (num_items lh) + 1"
proof -
  let ?c = "buckets lh ! b" and ?it = "\<lparr>addr = a, data = p, hash = hf p\<rparr>"
  have b: "b < length (buckets lh)" unfolding b_def by (rule own_bucket(1) [OF assms(1,2)])
  obtain us vs where uv: "concat (buckets lh) = us @ ?c @ vs" "\<And>c. concat ((buckets lh)[b := c]) = us @ c @ vs"
    using bucket_split [OF b] by blast
  have m: "mset (lh_items lh') = mset (?it # lh_items lh)"
    by (simp add: lh'_def lh_items_def uv)
  have ok: "items_ok hf key valid (?it # lh_items lh)"
    using assms(1-5) by (auto simp: items_ok_Cons lh_inv_def lh_map_def domIff)
  then have ok': "items_ok hf key valid (lh_items lh')" using items_ok_perm [OF m, of hf key valid] by blast
  have l: "length (lh_items lh') = Suc (length (lh_items lh))" using m by (metis length_Cons size_mset)
  have n: "unat (num_items lh + 1) = Suc (length (lh_items lh))"
  proof -
    have "unat (num_items lh) + 1 < 2 ^ LENGTH(64)"
      using items_ok_length [OF ok'] assms(1) l by (simp add: lh_inv_def)
    then show ?thesis using assms(1) by (subst unat_add_lem [THEN iffD1]) (simp_all add: lh_inv_def)
  qed
  have p: "placed (num_buckets lh) (buckets lh)" using assms(1) by (simp add: lh_inv_def)
  have "\<forall>it\<in>set (?c @ [?it]). bucket_of (hash it) (num_buckets lh) = b"
    using p b by (auto simp: placed_def b_def)
  then have "placed (num_buckets lh') (buckets lh')"
    using placed_update [OF p b] by (simp add: lh'_def)
  moreover have "lh_map key lh' = items_map key (?it # lh_items lh)"
    using ok items_map_perm [OF m, of key] distinct_perm [OF m, of "\<lambda>it. key (data it)"] by (simp add: items_ok_def lh_map_def)
  ultimately show ?thesis using assms(1) ok' l n by (simp add: lh_inv_def lh_map_def) (simp add: lh'_def)
qed

lemma remove_item:
  assumes "lh_inv hf key valid lh" "b < length (buckets lh)" "i < length (buckets lh ! b)"
  defines "it \<equiv> buckets lh ! b ! i"
  defines "lh' \<equiv> lh\<lparr>buckets := (buckets lh)[b := take i (buckets lh ! b) @ drop (Suc i) (buckets lh ! b)],
    num_items := num_items lh - 1\<rparr>"
  shows "lh_inv hf key valid lh' \<and> lh_map key lh' = (lh_map key lh)(key (data it) := None) \<and>
    unat (num_items lh) = unat (num_items lh') + 1"
proof -
  let ?c = "buckets lh ! b"
  obtain us vs where uv: "concat (buckets lh) = us @ ?c @ vs" "\<And>c. concat ((buckets lh)[b := c]) = us @ c @ vs"
    using bucket_split [OF assms(2)] by blast
  have "lh_items lh = us @ take i ?c @ it # drop (Suc i) ?c @ vs"
    unfolding lh_items_def uv(1) it_def by (metis append.assoc append_Cons id_take_nth_drop [OF assms(3)])
  moreover have "lh_items lh' = us @ take i ?c @ drop (Suc i) ?c @ vs"
    by (simp add: lh'_def lh_items_def uv(2))
  ultimately have m: "mset (lh_items lh) = mset (it # lh_items lh')" by simp
  have ok: "items_ok hf key valid (it # lh_items lh')"
    using assms(1) items_ok_perm [OF m, of hf key valid] by (simp add: lh_inv_def)
  have l: "length (lh_items lh) = Suc (length (lh_items lh'))" using m by (metis length_Cons size_mset)
  then have n: "unat (num_items lh - 1) = length (lh_items lh')"
    using assms(1) by (subst unat_dec) (auto simp: lh_inv_def)
  have p: "placed (num_buckets lh) (buckets lh)" using assms(1) by (simp add: lh_inv_def)
  have "\<forall>it\<in>set (take i ?c @ drop (Suc i) ?c). bucket_of (hash it) (num_buckets lh) = b"
    using p assms(2) by (auto simp: placed_def dest: in_set_takeD in_set_dropD)
  then have "placed (num_buckets lh') (buckets lh')"
    using placed_update [OF p assms(2)] by (simp add: lh'_def)
  moreover have "lh_map key lh = items_map key (it # lh_items lh')"
    using ok items_map_perm [OF m, of key] distinct_perm [OF m, of "\<lambda>it. key (data it)"] by (simp add: items_ok_def lh_map_def)
  moreover have "lh_map key lh' = (items_map key (it # lh_items lh'))(key (data it) := None)"
    using ok by (auto simp: items_ok_Cons lh_map_def domIff)
  ultimately show ?thesis using assms(1) ok l n by (simp add: lh_inv_def items_ok_Cons) (simp add: lh'_def)
qed

text \<open>The operations, for a table whose functions are these.\<close>

lemma retrieve:
  assumes "lh_inv hf key valid lh" "valid p" "call_hash (hash_fn lh) = hf" "call_cmp (comp_fn lh) = cmp"
  shows "lh_retrieve call_hash call_cmp lh p = (case lh_map key lh (key p) of None \<Rightarrow> 0 | Some d \<Rightarrow> d)"
  using search [OF assms(1,2)] assms(3,4)
  by (auto simp: lh_retrieve_def get_next_ptr_and_hash_def Let_def split: option.splits)

text \<open>A lookup by a key of another type, with a hash and a comparison function that fit.\<close>

lemma retrieve_key:
  assumes "lh_inv hf key valid lh" "\<And>d. valid d \<Longrightarrow> cmp_key k d = 0 \<longleftrightarrow> key d = kk" "\<And>d. valid d \<Longrightarrow> key d = kk \<Longrightarrow> hf d = key_hash"
  shows "lh_retrieve_key lh k key_hash cmp_key = (case lh_map key lh kk of None \<Rightarrow> 0 | Some d \<Rightarrow> d)"
proof -
  define b where "b = bucket_of key_hash (num_buckets lh)"
  define i where "i = chain_pos (\<lambda>d. cmp_key k d = 0) (buckets lh ! b)"
  have inv: "placed (num_buckets lh) (buckets lh)" "num_buckets lh \<noteq> 0"
      "\<forall>it\<in>set (lh_items lh). hash it = hf (data it) \<and> valid (data it)" "distinct (map (\<lambda>it. key (data it)) (lh_items lh))"
    using assms(1) by (auto simp: lh_inv_def items_ok_def kMinNumBuckets_def)
  have b: "b < length (buckets lh)" using bucket_of_less [OF inv(2)] inv(1) by (simp add: b_def placed_def)
  have mem: "it \<in> set (lh_items lh)" if "it \<in> set (buckets lh ! b)" for it using that b by (auto simp: lh_items_def)
  have run: "lh_retrieve_key lh k key_hash cmp_key = (if i < length (buckets lh ! b) then data (buckets lh ! b ! i) else 0)"
    by (simp add: lh_retrieve_key_def get_next_ptr_by_key_def link_item_def Let_def b_def i_def)
  show ?thesis
  proof (cases "i < length (buckets lh ! b)")
    case True
    let ?it = "buckets lh ! b ! i"
    have "?it \<in> set (lh_items lh)" "cmp_key k (data ?it) = 0"
      using mem chain_pos_spec(2) [of "\<lambda>d. cmp_key k d = 0" "buckets lh ! b"] True by (simp_all add: i_def)
    then have "lh_map key lh kk = Some (data ?it)"
      using assms(2) inv(3) unfolding lh_map_def items_map_iff [OF inv(4)] by blast
    then show ?thesis using run True by simp
  next
    case False
    then have i: "i = length (buckets lh ! b)"
      using chain_pos_spec(1) [of "\<lambda>d. cmp_key k d = 0" "buckets lh ! b"] by (simp add: i_def)
    have "key (data it) \<noteq> kk" if "it \<in> set (lh_items lh)" for it
    proof
      assume k: "key (data it) = kk"
      then have "hash it = key_hash" using that inv(3) assms(3) by simp
      then have "it \<in> set (buckets lh ! b)" using placed_bucket [OF inv(1), of it] that by (simp add: b_def lh_items_def)
      then have "cmp_key k (data it) \<noteq> 0" using chain_pos_spec(3) [OF i [unfolded i_def]] by blast
      then show False using assms(2) inv(3) that k by blast
    qed
    then have "lh_map key lh kk = None"
      unfolding lh_map_def using items_map_iff [OF inv(4), of kk] by (metis option.exhaust)
    then show ?thesis using run False by simp
  qed
qed

lemma insert:
  assumes "lh_inv hf key valid lh" "valid p" "call_hash (hash_fn lh) = hf" "call_cmp (comp_fn lh) = cmp"
    and "item_addr env \<notin> addr ` set (lh_items lh)"
    and "lh_insert call_hash call_cmp env lh p = (lh', old, ok)"
  shows "if ok then lh_inv hf key valid lh' \<and> lh_map key lh' = (lh_map key lh)(key p \<mapsto> p) \<and>
           old = (case lh_map key lh (key p) of None \<Rightarrow> 0 | Some d \<Rightarrow> d)
         else lh' = lh \<and> old = 0 \<and> lh_map key lh (key p) = None"
proof -
  let ?b = "bucket_of (hf p) (num_buckets lh)"
  let ?i = "chain_pos (\<lambda>d. cmp d p = 0) (buckets lh ! ?b)"
  note found = search [OF assms(1,2)] and b = own_bucket(1) [OF assms(1,2)]
  have g: "get_next_ptr_and_hash call_hash call_cmp lh p = ((?b, ?i), hf p)"
    using assms(3,4) by (simp add: get_next_ptr_and_hash_def Let_def)
  show ?thesis
  proof (cases "link_item lh (?b, ?i)")
    case None
    then show ?thesis
      using found append_item [OF assms(1,2) _ assms(5)] resize_inv [of hf key valid] assms(6)
      by (auto simp: lh_insert_def g Let_def split: if_splits)
  next
    case (Some it)
    then show ?thesis
      using found replace_item [OF assms(1) b, of ?i p] assms(2,6)
      by (auto simp: lh_insert_def g Let_def)
  qed
qed

lemma delete:
  assumes "lh_inv hf key valid lh" "valid p" "call_hash (hash_fn lh) = hf" "call_cmp (comp_fn lh) = cmp"
    and "lh_delete call_hash call_cmp env lh p = (lh', ret)"
  shows "lh_inv hf key valid lh' \<and> lh_map key lh' = (lh_map key lh)(key p := None) \<and>
    ret = (case lh_map key lh (key p) of None \<Rightarrow> 0 | Some d \<Rightarrow> d)"
proof -
  let ?b = "bucket_of (hf p) (num_buckets lh)"
  let ?i = "chain_pos (\<lambda>d. cmp d p = 0) (buckets lh ! ?b)"
  note found = search [OF assms(1,2)] and b = own_bucket(1) [OF assms(1,2)]
  have g: "get_next_ptr_and_hash call_hash call_cmp lh p = ((?b, ?i), hf p)"
    using assms(3,4) by (simp add: get_next_ptr_and_hash_def Let_def)
  show ?thesis
  proof (cases "link_item lh (?b, ?i)")
    case None
    then show ?thesis
      using found assms(1,5) by (auto simp: lh_delete_def g Let_def fun_upd_idem)
  next
    case (Some it)
    then show ?thesis
      using found remove_item [OF assms(1) b, of ?i] resize_inv [of hf key valid] assms(5)
      by (auto simp: lh_delete_def g Let_def)
  qed
qed

text \<open>The items in use after an insertion.\<close>

lemma insert_addrs:
  assumes "lh_inv hf key valid lh" "valid p" "call_hash (hash_fn lh) = hf" "call_cmp (comp_fn lh) = cmp"
    and "item_addr env \<notin> addr ` set (lh_items lh)"
    and "lh_insert call_hash call_cmp env lh p = (lh', old, ok)"
  shows "addr ` set (lh_items lh') \<subseteq> insert (item_addr env) (addr ` set (lh_items lh))"
proof -
  let ?b = "bucket_of (hf p) (num_buckets lh)"
  let ?i = "chain_pos (\<lambda>d. cmp d p = 0) (buckets lh ! ?b)"
  note found = search [OF assms(1,2)] and b = own_bucket(1) [OF assms(1,2)]
  have g: "get_next_ptr_and_hash call_hash call_cmp lh p = ((?b, ?i), hf p)"
    using assms(3,4) by (simp add: get_next_ptr_and_hash_def Let_def)
  obtain us vs where uv: "concat (buckets lh) = us @ buckets lh ! ?b @ vs"
      "\<And>c. concat ((buckets lh)[?b := c]) = us @ c @ vs"
    using bucket_split [OF b] by blast
  show ?thesis
  proof (cases "link_item lh (?b, ?i)")
    case None
    show ?thesis
    proof (cases "item_addr env = 0")
      case True
      then show ?thesis using None assms(6) by (auto simp: lh_insert_def g Let_def)
    next
      case False
      let ?lh = "lh\<lparr>buckets := (buckets lh)[?b := buckets lh ! ?b @ [\<lparr>addr = item_addr env, data = p, hash = hf p\<rparr>]],
        num_items := num_items lh + 1\<rparr>"
      have "lh' = lh_maybe_resize env ?lh"
        using None assms(6) False by (simp add: lh_insert_def g Let_def)
      moreover have "lh_map key lh (key p) = None" using found None by simp
      then have "lh_inv hf key valid ?lh" using append_item [OF assms(1,2) False assms(5)] by simp
      ultimately have "set (lh_items lh') = set (lh_items ?lh)"
        using resize_inv(3) [of hf key valid ?lh env] by (metis mset_eq_setD)
      then show ?thesis by (auto simp: lh_items_def uv)
    qed
  next
    case (Some it)
    then have it: "?i < length (buckets lh ! ?b)" "buckets lh ! ?b ! ?i = it" using found by simp_all
    have "lh' = lh\<lparr>buckets := (buckets lh)[?b := (buckets lh ! ?b)[?i := it\<lparr>data := p\<rparr>]]\<rparr>"
      using Some assms(6) by (simp add: lh_insert_def g Let_def)
    then have "map addr (lh_items lh') = map addr (lh_items lh)"
      using it by (simp add: lh_items_def uv map_update list_update_same_conv)
    then show ?thesis by (metis list.set_map subset_insertI)
  qed
qed

end

end
