(* ===== verification/LhashHistory.thy ===== *)
theory LhashHistory
  imports LhashProps
begin

text \<open>
  The hash table over its life: iteration, with callbacks that leave the table alone or delete what they
  are given, the load factor, and histories of calls with any allocator.
\<close>

section \<open>Iteration\<close>

lemma first_addr_simps [simp]: "first_addr [] = 0" "first_addr (it # rest) = addr it"
  by (simp_all add: first_addr_def)

lemma node_at_append:
  "addr it \<notin> addr ` set pre \<Longrightarrow> node_at (pre @ it # rest) (addr it) = Some (it, first_addr rest)"
  by (induction pre) (auto simp: node_at_def)

lemma items_ok_bucket:
  assumes "items_ok hf key valid (concat bs)" "i < length bs"
  shows "distinct (map addr (bs ! i)) \<and> (\<forall>it\<in>set (bs ! i). addr it \<noteq> 0)"
proof -
  obtain us vs where "concat bs = us @ bs ! i @ vs" using bucket_split [OF assms(2)] by blast
  then show ?thesis using assms(1) by (auto simp: items_ok_def)
qed

text \<open>A callback that leaves the table alone gets every element of a chain, in order.\<close>

lemma walk_chain_pure:
  assumes "buckets lh ! i = pre @ chain" "distinct (map addr (pre @ chain))" "\<forall>it\<in>set chain. addr it \<noteq> 0"
  shows "walk_chain (\<lambda>d lh xs. (lh, xs @ [d])) i (first_addr chain) lh xs = Some (lh, xs @ map data chain)"
  using assms
proof (induction chain arbitrary: pre xs)
  case (Cons it chain)
  then have n: "node_at (buckets lh ! i) (addr it) = Some (it, first_addr chain)"
    by (simp add: node_at_append)
  show ?case
    using Cons.prems Cons.IH [of "pre @ [it]" "xs @ [data it]"]
    by (simp add: walk_chain.simps [of _ i "addr it"] n del: Cons.prems(1)) (simp add: n flip: Cons.prems(1))
qed (simp add: walk_chain.simps)

lemma walk_buckets_pure:
  assumes "lh_inv hf key valid lh"
  shows "walk_buckets (\<lambda>d lh xs. (lh, xs @ [d])) i lh xs = Some (lh, xs @ map data (concat (drop i (buckets lh))))"
proof (induction "length (buckets lh) - i" arbitrary: i xs)
  case 0
  then show ?case using assms by (simp add: walk_buckets.simps lh_inv_def placed_def)
next
  case (Suc n)
  then have i: "i < length (buckets lh)" by simp
  have "walk_chain (\<lambda>d lh xs. (lh, xs @ [d])) i (first_addr (buckets lh ! i)) lh xs =
      Some (lh, xs @ map data (buckets lh ! i))"
    using walk_chain_pure [of lh i "[]" "buckets lh ! i"] items_ok_bucket [OF _ i, of hf key valid] assms
    by (auto simp: lh_inv_def lh_items_def)
  then show ?case
    using Suc.hyps(1) [of "Suc i"] Suc.hyps(2) i assms
    by (simp add: walk_buckets.simps [of _ i] lh_inv_def placed_def Cons_nth_drop_Suc [symmetric])
qed

context hash_contract
begin

lemma delete_head:
  assumes "lh_inv hf key valid lh" "i < length (buckets lh)" "buckets lh ! i = it # rest" "0 < callback_depth lh"
    and "call_hash (hash_fn lh) = hf" "call_cmp (comp_fn lh) = cmp"
  shows "lh_delete call_hash call_cmp env lh (data it) =
    (lh\<lparr>buckets := (buckets lh)[i := rest], num_items := num_items lh - 1\<rparr>, data it)"
proof -
  have it: "it \<in> set (lh_items lh)"
    unfolding lh_items_def using assms(2,3) by (metis UN_I list.set_intros(1) nth_mem set_concat)
  then have v: "valid (data it)" "hash it = hf (data it)"
    using assms(1) by (auto simp: lh_inv_def items_ok_def)
  have "bucket_of (hash it) (num_buckets lh) = i"
    using assms(1,2,3) by (auto simp: lh_inv_def placed_def)
  then show ?thesis
    using assms(3-6) v cmp_key [OF v(1) v(1)]
    by (simp add: lh_delete_def get_next_ptr_and_hash_def Let_def link_item_def lh_maybe_resize_def)
qed

lemma walk_chain_delete:
  assumes "lh_inv hf key valid lh" "i < length (buckets lh)" "buckets lh ! i = chain" "0 < callback_depth lh"
    and "call_hash (hash_fn lh) = hf" "call_cmp (comp_fn lh) = cmp"
  shows "\<exists>lh'. walk_chain (\<lambda>d lh xs. (fst (lh_delete call_hash call_cmp env lh d), xs @ [d])) i (first_addr chain) lh xs =
      Some (lh', xs @ map data chain) \<and> lh_inv hf key valid lh' \<and> buckets lh' = (buckets lh)[i := []] \<and>
    num_buckets lh' = num_buckets lh \<and>
    callback_depth lh' = callback_depth lh \<and> hash_fn lh' = hash_fn lh \<and> comp_fn lh' = comp_fn lh"
  using assms
proof (induction chain arbitrary: lh xs)
  case Nil
  then have "(buckets lh)[i := []] = buckets lh" by (metis list_update_id)
  then show ?case using Nil by (simp add: walk_chain.simps)
next
  case (Cons it chain)
  let ?lh = "lh\<lparr>buckets := (buckets lh)[i := chain], num_items := num_items lh - 1\<rparr>"
  have "addr it \<noteq> 0"
    using items_ok_bucket [OF _ Cons.prems(2), of hf key valid] Cons.prems(1,3)
    by (auto simp: lh_inv_def lh_items_def)
  moreover have "node_at (buckets lh ! i) (addr it) = Some (it, first_addr chain)"
    using node_at_append [of it "[]" chain] Cons.prems(3) by simp
  moreover have d: "lh_delete call_hash call_cmp env lh (data it) = (?lh, data it)"
    by (rule delete_head) (rule Cons.prems)+
  moreover have "lh_inv hf key valid ?lh"
    using remove_item [OF Cons.prems(1,2), of 0] Cons.prems(3) by simp
  ultimately show ?case
    using Cons.IH [of ?lh "xs @ [data it]"] Cons.prems
    by (auto simp: walk_chain.simps [of _ i "addr it"])
qed

lemma walk_buckets_delete:
  assumes "lh_inv hf key valid lh" "0 < callback_depth lh"
    and "call_hash (hash_fn lh) = hf" "call_cmp (comp_fn lh) = cmp"
  shows "\<exists>lh'. walk_buckets (\<lambda>d lh xs. (fst (lh_delete call_hash call_cmp env lh d), xs @ [d])) i lh xs =
      Some (lh', xs @ map data (concat (drop i (buckets lh)))) \<and> lh_inv hf key valid lh' \<and>
    (\<forall>j\<ge>i. j < length (buckets lh') \<longrightarrow> buckets lh' ! j = []) \<and> (\<forall>j<i. buckets lh' ! j = buckets lh ! j) \<and>
    num_buckets lh' = num_buckets lh \<and>
    callback_depth lh' = callback_depth lh \<and> hash_fn lh' = hash_fn lh \<and> comp_fn lh' = comp_fn lh"
  using assms
proof (induction "length (buckets lh) - i" arbitrary: lh i xs)
  case 0
  then show ?case by (auto simp: walk_buckets.simps lh_inv_def placed_def)
next
  case (Suc n)
  then have i: "i < length (buckets lh)" by simp
  obtain lh1 where lh1: "walk_chain (\<lambda>d lh xs. (fst (lh_delete call_hash call_cmp env lh d), xs @ [d])) i
        (first_addr (buckets lh ! i)) lh xs = Some (lh1, xs @ map data (buckets lh ! i))"
      "lh_inv hf key valid lh1" "buckets lh1 = (buckets lh)[i := []]" "num_buckets lh1 = num_buckets lh"
      "callback_depth lh1 = callback_depth lh" "hash_fn lh1 = hash_fn lh" "comp_fn lh1 = comp_fn lh"
    using walk_chain_delete [OF Suc.prems(1) i, of "buckets lh ! i"] Suc.prems(2-4) by blast
  have d: "drop (Suc i) (buckets lh1) = drop (Suc i) (buckets lh)" by (simp add: lh1(3))
  have "n = length (buckets lh1) - Suc i" using Suc.hyps(2) lh1(3) by simp
  then obtain lh2 where "walk_buckets (\<lambda>d lh xs. (fst (lh_delete call_hash call_cmp env lh d), xs @ [d])) (Suc i) lh1
        (xs @ map data (buckets lh ! i)) =
      Some (lh2, (xs @ map data (buckets lh ! i)) @ map data (concat (drop (Suc i) (buckets lh1))))"
      "lh_inv hf key valid lh2" "\<forall>j\<ge>Suc i. j < length (buckets lh2) \<longrightarrow> buckets lh2 ! j = []"
      "\<forall>j<Suc i. buckets lh2 ! j = buckets lh1 ! j" "num_buckets lh2 = num_buckets lh1"
      "callback_depth lh2 = callback_depth lh1" "hash_fn lh2 = hash_fn lh1" "comp_fn lh2 = comp_fn lh1"
    using Suc.hyps(1) [of lh1 "Suc i" "xs @ map data (buckets lh ! i)"] lh1 Suc.prems by auto
  note lh2 = this
  have "buckets lh2 ! i = []" using lh2(4) lh1(3) i by simp
  then have "\<forall>j\<ge>i. j < length (buckets lh2) \<longrightarrow> buckets lh2 ! j = []"
    using lh2(3) by (metis Suc_leI le_neq_implies_less)
  moreover have "\<forall>j<i. buckets lh2 ! j = buckets lh ! j"
    using lh2(4) lh1(3) by simp
  moreover have "map data (buckets lh ! i) @ map data (concat (drop (Suc i) (buckets lh1))) =
      map data (concat (drop i (buckets lh)))"
    by (simp add: d i flip: Cons_nth_drop_Suc)
  moreover have "i < unat (num_buckets lh)" using i Suc.prems(1) by (simp add: lh_inv_def placed_def)
  ultimately show ?case
    using lh1 lh2 by (subst walk_buckets.simps) (simp del: map_concat)
qed

lemma doall_delete:
  assumes "lh_inv hf key valid lh" "callback_depth lh = 0"
    and "call_hash (hash_fn lh) = hf" "call_cmp (comp_fn lh) = cmp"
  shows "\<exists>lh'. lh_doall_arg env (\<lambda>d lh xs. (fst (lh_delete call_hash call_cmp env' lh d), xs @ [d])) (Some lh) [] =
      Some (Some lh', map data (lh_items lh)) \<and> lh_inv hf key valid lh' \<and> lh_items lh' = [] \<and>
    same_but_buckets (lh\<lparr>num_items := 0\<rparr>) lh'"
proof -
  let ?lh = "lh\<lparr>callback_depth := 1\<rparr>"
  have "lh_inv hf key valid ?lh" using assms(1) by (simp add: lh_inv_def lh_items_def)
  then obtain lh1 where lh1: "walk_buckets (\<lambda>d lh xs. (fst (lh_delete call_hash call_cmp env' lh d), xs @ [d])) 0 ?lh [] =
        Some (lh1, map data (lh_items lh))"
      "lh_inv hf key valid lh1" "\<forall>j<length (buckets lh1). buckets lh1 ! j = []"
      "callback_depth lh1 = 1" "hash_fn lh1 = hash_fn lh" "comp_fn lh1 = comp_fn lh"
    using walk_buckets_delete [of ?lh call_hash call_cmp env' 0 "[]"] assms(3,4) by (auto simp: lh_items_def)
  let ?lh1 = "lh1\<lparr>callback_depth := 0\<rparr>"
  have e: "lh_items ?lh1 = []" using lh1(3) by (auto simp: lh_items_def in_set_conv_nth)
  have i1: "lh_inv hf key valid ?lh1" using lh1(2) by (simp add: lh_inv_def lh_items_def)
  then have "num_items lh1 = 0" using e by (simp add: lh_inv_def unat_eq_zero)
  moreover have "lh_items (lh_maybe_resize env ?lh1) = []"
    using resize_inv(3) [OF i1, of env] e by simp
  moreover have "lh_doall_arg env (\<lambda>d lh xs. (fst (lh_delete call_hash call_cmp env' lh d), xs @ [d])) (Some lh) [] =
      Some (Some (lh_maybe_resize env ?lh1), map data (lh_items lh))"
    using lh1(1,4) assms(2) by (simp add: lh_doall_arg_def UINT_MAX_def Let_def)
  ultimately show ?thesis
    using resize_inv(1) [OF i1, of env] resize_same [of ?lh1 env] lh1(5,6) assms(2)
    by (auto simp: same_but_buckets_def)
qed

end

lemma doall_pure:
  assumes "lh_inv hf key valid lh" "callback_depth lh = 0"
  shows "lh_doall_arg env (\<lambda>d lh xs. (lh, xs @ [d])) (Some lh) [] =
    Some (Some (lh_maybe_resize env lh), map data (lh_items lh))"
proof -
  have "lh_inv hf key valid (lh\<lparr>callback_depth := 1\<rparr>)" using assms(1) by (simp add: lh_inv_def lh_items_def)
  moreover have e: "lh\<lparr>callback_depth := 0\<rparr> = lh" using assms(2) by (metis LHASH.surjective LHASH.update_convs(4))
  ultimately show ?thesis
    using walk_buckets_pure [of hf key valid "lh\<lparr>callback_depth := 1\<rparr>" 0 "[]"] assms(2)
    by (simp add: lh_doall_arg_def UINT_MAX_def Let_def lh_items_def e)
qed

section \<open>The load factor\<close>

text \<open>The average chain is shorter than 3, and above 16 buckets no longer than the number of items.\<close>

definition balanced :: "LHASH \<Rightarrow> bool" where
  "balanced lh \<longleftrightarrow> unat (num_items lh) < 3 * unat (num_buckets lh) \<and>
     (num_buckets lh = kMinNumBuckets \<or> unat (num_buckets lh) \<le> unat (num_items lh))"

lemma array_size:
  assumes "unat n < 2 ^ 61"
  shows "(8 * n :: u64) div 8 = n"
proof -
  have "unat (8 * n) = 8 * unat n" using assms by (simp add: unat_word_ariths)
  then show ?thesis by (simp add: word_unat_eq_iff unat_div)
qed

lemma rebucket_granted:
  assumes "\<forall>n. array_ok env n" "unat n < 2 ^ 61"
  shows "num_buckets (lh_rebucket env lh n) = n" "num_items (lh_rebucket env lh n) = num_items lh"
  using assms array_size by (simp_all add: lh_rebucket_def Let_def)

lemma resize_balanced:
  assumes "\<forall>n. array_ok env n" "callback_depth lh = 0" "kMinNumBuckets \<le> num_buckets lh"
    and "unat (num_items lh) \<le> 3 * unat (num_buckets lh)" "unat (num_items lh) < 2 ^ 60"
    and "num_buckets lh = kMinNumBuckets \<or> unat (num_buckets lh) \<le> unat (num_items lh) + 1"
  shows "balanced (lh_maybe_resize env lh)"
proof -
  let ?n = "unat (num_items lh)" and ?b = "unat (num_buckets lh)"
  have b: "16 \<le> ?b" "?b \<le> 2 ^ 60"
    using assms(3,5,6) by (auto simp: kMinNumBuckets_def word_le_nat_alt)
  have avg: "kMaxAverageChainLength < num_items lh div num_buckets lh \<longleftrightarrow> 3 * ?b \<le> ?n"
    "num_items lh div num_buckets lh < kMinAverageChainLength \<longleftrightarrow> ?n < ?b"
    using b(1) less_eq_div_iff_mult_less_eq [of ?b 3 ?n]
    by (auto simp: word_less_nat_alt unat_div kMaxAverageChainLength_def kMinAverageChainLength_def div_eq_0_iff
        unat_gt_0 less_eq_div_iff_mult_less_eq simp flip: Suc_le_eq)
  have two: "unat (num_buckets lh * 2) = ?b * 2" using b(2) by (simp add: unat_word_ariths)
  have half: "unat (num_buckets lh div 2) = ?b div 2" by (simp add: unat_div)
  consider (more) "3 * ?b \<le> ?n" | (less) "?n < ?b" "kMinNumBuckets < num_buckets lh"
    | (same) "?n < 3 * ?b" "?n < ?b \<longrightarrow> \<not> kMinNumBuckets < num_buckets lh" by linarith
  then show ?thesis
  proof cases
    case more
    have "num_buckets lh < num_buckets lh * 2" unfolding word_less_nat_alt two using b(1) by linarith
    then have "lh_maybe_resize env lh = lh_rebucket env lh (num_buckets lh * 2)"
      using more avg assms(2) by (simp add: lh_maybe_resize_def Let_def)
    then show ?thesis
      using rebucket_granted [OF assms(1), of "num_buckets lh * 2" lh] two b more assms(4,5)
      by (simp add: balanced_def)
  next
    case less
    define m where "m = (if num_buckets lh div 2 < kMinNumBuckets then kMinNumBuckets else num_buckets lh div 2)"
    have r: "lh_maybe_resize env lh = lh_rebucket env lh m"
      using less avg assms(2) b(1) by (simp add: lh_maybe_resize_def Let_def m_def)
    have "unat m = max 16 (?b div 2)"
      using half by (auto simp: m_def kMinNumBuckets_def word_less_nat_alt)
    then have m: "unat m < 2 ^ 61" "?b div 2 \<le> unat m" using b by simp_all
    have "m = kMinNumBuckets \<or> unat m = ?b div 2" using half by (simp add: m_def)
    moreover have "?b \<le> 2 * (?b div 2) + 1" "2 * (?b div 2) \<le> ?b" by presburger+
    moreover have "?n + 1 = ?b" using less assms(6) by auto
    ultimately have "?n < 3 * unat m" "m = kMinNumBuckets \<or> unat m \<le> ?n" using b(1) m(2) by linarith+
    then show ?thesis
      using rebucket_granted [OF assms(1) m(1), of lh] by (simp add: balanced_def r)
  next
    case same
    then have "lh_maybe_resize env lh = lh"
      using avg by (auto simp: lh_maybe_resize_def Let_def)
    moreover have "num_buckets lh = kMinNumBuckets \<or> ?b \<le> ?n"
      using same(2) assms(3,6) by force
    ultimately show ?thesis using same(1) by (simp add: balanced_def)
  qed
qed

section \<open>Histories\<close>

text \<open>What a caller of the table sees: the calls with their results. \<open>Listed\<close> is an iteration that only
  looks, \<open>Drained\<close> one whose callback deletes every element it gets; \<open>Undefined\<close> is an iteration that
  reads a freed item or does not end. \<open>Key_retrieved\<close> is a lookup by a key.\<close>

datatype 'k lh_event = Inserted ptr ptr | Insert_failed ptr | Deleted ptr ptr | Retrieved ptr ptr
  | Key_retrieved 'k ptr | Listed "ptr list" | Drained "ptr list" | Undefined

text \<open>The table and the event after an iteration, which may be undefined.\<close>

fun table_after :: "LHASH \<Rightarrow> (LHASH option \<times> ptr list) option \<Rightarrow> LHASH" where
  "table_after lh (Some (Some lh', xs)) = lh'"
| "table_after lh _ = lh"

fun iterated :: "(ptr list \<Rightarrow> 'k lh_event) \<Rightarrow> (LHASH option \<times> ptr list) option \<Rightarrow> 'k lh_event" where
  "iterated ev (Some (Some lh, xs)) = ev xs"
| "iterated ev _ = Undefined"

text \<open>A history of a table whose hash and comparison functions are at \<open>h\<close> and \<open>c\<close>. The allocator is any
  that does not hand out the address of an item in use; \<open>allowed\<close> restricts it further.\<close>

inductive lh_history ::
  "(ptr \<Rightarrow> ptr \<Rightarrow> u32) \<Rightarrow> (ptr \<Rightarrow> ptr \<Rightarrow> ptr \<Rightarrow> int) \<Rightarrow> (ptr \<Rightarrow> 'k) \<Rightarrow> (ptr \<Rightarrow> bool) \<Rightarrow> (lh_alloc \<Rightarrow> bool) \<Rightarrow>
    ptr \<Rightarrow> ptr \<Rightarrow> LHASH \<Rightarrow> 'k lh_event list \<Rightarrow> bool"
  for call_hash call_cmp key valid allowed h c where
  started: "allowed env \<Longrightarrow> lh_new env ok h c = Some lh \<Longrightarrow> lh_history call_hash call_cmp key valid allowed h c lh []"
| inserted: "lh_history call_hash call_cmp key valid allowed h c lh tr \<Longrightarrow> allowed env \<Longrightarrow> valid p \<Longrightarrow>
    item_addr env \<notin> addr ` set (lh_items lh) \<Longrightarrow> lh_insert call_hash call_cmp env lh p = (lh', old, ok) \<Longrightarrow>
    lh_history call_hash call_cmp key valid allowed h c lh' (tr @ [if ok then Inserted p old else Insert_failed p])"
| deleted: "lh_history call_hash call_cmp key valid allowed h c lh tr \<Longrightarrow> allowed env \<Longrightarrow> valid p \<Longrightarrow>
    lh_delete call_hash call_cmp env lh p = (lh', ret) \<Longrightarrow>
    lh_history call_hash call_cmp key valid allowed h c lh' (tr @ [Deleted p ret])"
| retrieved: "lh_history call_hash call_cmp key valid allowed h c lh tr \<Longrightarrow> valid p \<Longrightarrow>
    lh_history call_hash call_cmp key valid allowed h c lh (tr @ [Retrieved p (lh_retrieve call_hash call_cmp lh p)])"
| key_retrieved: "lh_history call_hash call_cmp key valid allowed h c lh tr \<Longrightarrow>
    \<forall>d. valid d \<longrightarrow> (cmp_key k d = 0 \<longleftrightarrow> key d = k) \<Longrightarrow> \<forall>d. valid d \<and> key d = k \<longrightarrow> call_hash h d = key_hash \<Longrightarrow>
    lh_history call_hash call_cmp key valid allowed h c lh (tr @ [Key_retrieved k (lh_retrieve_key lh k key_hash cmp_key)])"
| listed: "lh_history call_hash call_cmp key valid allowed h c lh tr \<Longrightarrow> allowed env \<Longrightarrow>
    lh_doall_arg env (\<lambda>d lh xs. (lh, xs @ [d])) (Some lh) [] = res \<Longrightarrow>
    lh_history call_hash call_cmp key valid allowed h c (table_after lh res) (tr @ [iterated Listed res])"
| drained: "lh_history call_hash call_cmp key valid allowed h c lh tr \<Longrightarrow> allowed env \<Longrightarrow>
    lh_doall_arg env (\<lambda>d lh xs. (fst (lh_delete call_hash call_cmp env lh d), xs @ [d])) (Some lh) [] = res \<Longrightarrow>
    lh_history call_hash call_cmp key valid allowed h c (table_after lh res) (tr @ [iterated Drained res])"

text \<open>The specification: a finite map. \<open>map_after\<close> is what an event makes of it, \<open>answers\<close> what the event
  may report.\<close>

definition found :: "('k \<rightharpoonup> ptr) \<Rightarrow> 'k \<Rightarrow> ptr" where
  "found m k = (case m k of None \<Rightarrow> 0 | Some d \<Rightarrow> d)"

primrec map_after :: "(ptr \<Rightarrow> 'k) \<Rightarrow> 'k lh_event \<Rightarrow> ('k \<rightharpoonup> ptr) \<Rightarrow> 'k \<rightharpoonup> ptr" where
  "map_after key (Inserted p old) m = m(key p \<mapsto> p)"
| "map_after key (Insert_failed p) m = m"
| "map_after key (Deleted p ret) m = m(key p := None)"
| "map_after key (Retrieved p ret) m = m"
| "map_after key (Listed xs) m = m"
| "map_after key (Drained xs) m = Map.empty"
| "map_after key (Key_retrieved k ret) m = m"
| "map_after key Undefined m = m"

primrec answers :: "(ptr \<Rightarrow> 'k) \<Rightarrow> 'k lh_event \<Rightarrow> ('k \<rightharpoonup> ptr) \<Rightarrow> bool" where
  "answers key (Inserted p old) m = (old = found m (key p))"
| "answers key (Insert_failed p) m = (m (key p) = None)"
| "answers key (Deleted p ret) m = (ret = found m (key p))"
| "answers key (Retrieved p ret) m = (ret = found m (key p))"
| "answers key (Listed xs) m = (distinct xs \<and> set xs = ran m)"
| "answers key (Drained xs) m = (distinct xs \<and> set xs = ran m)"
| "answers key (Key_retrieved k ret) m = (ret = found m k)"
| "answers key Undefined m = False"

primrec explains :: "(ptr \<Rightarrow> 'k) \<Rightarrow> ('k \<rightharpoonup> ptr) \<Rightarrow> 'k lh_event list \<Rightarrow> bool" where
  "explains key m [] = True"
| "explains key m (ev # tr) = (answers key ev m \<and> explains key (map_after key ev m) tr)"

lemma explains_snoc:
  "explains key m (tr @ [ev]) \<longleftrightarrow> explains key m tr \<and> answers key ev (fold (map_after key) tr m)"
  by (induction tr arbitrary: m) auto


lemma listing:
  assumes "lh_inv hf key valid lh"
  shows "distinct (map data (lh_items lh)) \<and> set (map data (lh_items lh)) = ran (lh_map key lh)"
proof -
  have d: "distinct (map (\<lambda>it. key (data it)) (lh_items lh))"
    using assms by (simp add: lh_inv_def items_ok_def)
  then have "distinct (map key (map data (lh_items lh)))" by (simp add: o_def)
  then have "distinct (map data (lh_items lh))" by (rule distinct_map [THEN iffD1, THEN conjunct1])
  moreover have "set (map data (lh_items lh)) = ran (lh_map key lh)"
    using items_map_iff [OF d] by (fastforce simp: ran_def lh_map_def)
  ultimately show ?thesis by simp
qed


lemma new_inv:
  assumes "lh_new env ok h c = Some lh"
  shows "lh_inv hf key valid lh \<and> lh_map key lh = Map.empty \<and> callback_depth lh = 0 \<and>
    hash_fn lh = h \<and> comp_fn lh = c \<and> balanced lh"
  using assms
  by (auto simp: lh_new_def lh_inv_def lh_map_def lh_items_def items_map_def items_ok_def placed_def
      kMinNumBuckets_def balanced_def split: if_splits)

lemma insert_same:
  "lh_insert call_hash call_cmp env lh p = (lh', old, ok) \<Longrightarrow>
     callback_depth lh' = callback_depth lh \<and> hash_fn lh' = hash_fn lh \<and> comp_fn lh' = comp_fn lh"
  using resize_same by (fastforce simp: lh_insert_def Let_def same_but_buckets_def split: prod.splits option.splits if_splits)

lemma delete_same:
  "lh_delete call_hash call_cmp env lh p = (lh', ret) \<Longrightarrow>
     callback_depth lh' = callback_depth lh \<and> hash_fn lh' = hash_fn lh \<and> comp_fn lh' = comp_fn lh"
  using resize_same by (fastforce simp: lh_delete_def Let_def same_but_buckets_def split: prod.splits option.splits if_splits)

text \<open>Insertion and deletion in a table that stays below \<open>2 ^ 60\<close> items keep the load factor.\<close>

lemma insert_balanced:
  assumes "lh_insert call_hash call_cmp env lh p = (lh', old, ok)" "balanced lh" "\<forall>n. array_ok env n"
    and "callback_depth lh = 0" "kMinNumBuckets \<le> num_buckets lh" "unat (num_items lh) + 1 < 2 ^ 60"
  shows "balanced lh' \<and> unat (num_items lh') \<le> unat (num_items lh) + 1"
proof -
  have n: "unat (num_items lh + 1) = unat (num_items lh) + 1"
    using assms(6) by (subst unat_add_lem [THEN iffD1]) simp_all
  have r: "balanced (lh_maybe_resize env (lh\<lparr>buckets := bs, num_items := num_items lh + 1\<rparr>))" for bs
    using assms(2-6) n by (intro resize_balanced) (auto simp: balanced_def)
  have "num_items (lh_maybe_resize env (lh\<lparr>buckets := bs, num_items := num_items lh + 1\<rparr>)) = num_items lh + 1" for bs
    using resize_same [of "lh\<lparr>buckets := bs, num_items := num_items lh + 1\<rparr>" env] by (simp add: same_but_buckets_def)
  note m = this
  consider "lh' = lh" | bs where "lh' = lh\<lparr>buckets := bs\<rparr>"
    | bs where "lh' = lh_maybe_resize env (lh\<lparr>buckets := bs, num_items := num_items lh + 1\<rparr>)"
    using assms(1) by (auto simp: lh_insert_def Let_def split: prod.splits option.splits if_splits)
  then show ?thesis
  proof cases
    case (3 bs)
    then show ?thesis using r [of bs] m [of bs] n by simp
  qed (use assms(2) in \<open>simp_all add: balanced_def\<close>)
qed

lemma delete_balanced:
  assumes "lh_delete call_hash call_cmp env lh p = (lh', ret)" "balanced lh" "\<forall>n. array_ok env n"
    and "callback_depth lh = 0" "kMinNumBuckets \<le> num_buckets lh" "unat (num_items lh) < 2 ^ 60"
    and "lh' = lh \<or> num_items lh \<noteq> 0"
  shows "balanced lh' \<and> unat (num_items lh') \<le> unat (num_items lh)"
proof -
  consider "lh' = lh" | bs where "lh' = lh_maybe_resize env (lh\<lparr>buckets := bs, num_items := num_items lh - 1\<rparr>)"
    using assms(1) by (auto simp: lh_delete_def Let_def split: prod.splits option.splits)
  then show ?thesis
  proof cases
    case (2 bs)
    let ?lh = "lh\<lparr>buckets := bs, num_items := num_items lh - 1\<rparr>"
    show ?thesis
    proof (cases "num_items lh = 0")
      case False
      then have "unat (num_items lh - 1) = unat (num_items lh) - 1" by (rule unat_dec)
      note n = this
      have "balanced (lh_maybe_resize env ?lh)"
        using assms(2-6) n by (intro resize_balanced) (auto simp: balanced_def)
      moreover have "num_items (lh_maybe_resize env ?lh) = num_items lh - 1"
        using resize_same [of ?lh env] by (simp add: same_but_buckets_def)
      ultimately show ?thesis using 2 n by simp
    qed (use assms 2 in auto)
  qed (use assms(2) in simp)
qed

context hash_contract
begin

lemma history:
  assumes "lh_history call_hash call_cmp key valid allowed h c lh tr" "call_hash h = hf" "call_cmp c = cmp"
  shows "lh_inv hf key valid lh \<and> callback_depth lh = 0 \<and> hash_fn lh = h \<and> comp_fn lh = c \<and>
    lh_map key lh = fold (map_after key) tr Map.empty \<and> explains key Map.empty tr"
  using assms(1)
proof (induction rule: lh_history.induct)
  case (started env ok lh)
  then show ?case using new_inv [of env ok h c lh hf key valid] by simp
next
  case (inserted lh tr env p lh' old ok)
  then show ?case
    using local.insert [OF _ inserted.hyps(3) _ _ inserted.hyps(4,5)] insert_same [OF inserted.hyps(5)] assms(2,3)
    by (auto simp: explains_snoc found_def split: if_splits)
next
  case (deleted lh tr env p lh' ret)
  then show ?case
    using local.delete [OF _ deleted.hyps(3) _ _ deleted.hyps(4)] delete_same [OF deleted.hyps(4)] assms(2,3)
    by (auto simp: explains_snoc found_def)
next
  case (retrieved lh tr p)
  then show ?case
    using local.retrieve [OF _ retrieved.hyps(2)] assms(2,3) by (auto simp: explains_snoc found_def)
next
  case (key_retrieved lh tr cmp_key k key_hash)
  then show ?case
    using local.retrieve_key [of lh cmp_key k k key_hash] assms(2) by (simp add: explains_snoc found_def)
next
  case (listed lh tr env res)
  then have inv: "lh_inv hf key valid lh" by simp
  have r: "res = Some (Some (lh_maybe_resize env lh), map data (lh_items lh))"
    using doall_pure [OF inv, of env] listed by simp
  then show ?case
    using listed.IH resize_inv [OF inv, of env] resize_same [of lh env] listing [OF inv]
    by (simp add: explains_snoc same_but_buckets_def)
next
  case (drained lh tr env res)
  then have inv: "lh_inv hf key valid lh" by simp
  obtain lh' where r: "res = Some (Some lh', map data (lh_items lh))" "lh_inv hf key valid lh'" "lh_items lh' = []"
      "same_but_buckets (lh\<lparr>num_items := 0\<rparr>) lh'"
    using doall_delete [OF inv, of call_hash call_cmp env env] drained assms(2,3) by auto
  then show ?case
    using drained.IH listing [OF inv]
    by (simp add: explains_snoc same_but_buckets_def lh_map_def items_map_def)
qed

lemma delete_empty:
  assumes "lh_inv hf key valid lh" "valid p" "call_hash (hash_fn lh) = hf" "call_cmp (comp_fn lh) = cmp"
    and "num_items lh = 0"
  shows "lh_delete call_hash call_cmp env lh p = (lh, 0)"
proof -
  have "lh_items lh = []" using assms(1,5) by (simp add: lh_inv_def)
  then have "lh_map key lh (key p) = None" by (simp add: lh_map_def items_map_def)
  then show ?thesis
    using search [OF assms(1,2)] assms(3,4)
    by (auto simp: lh_delete_def get_next_ptr_and_hash_def Let_def split: option.splits)
qed

lemma history_balanced:
  assumes "lh_history call_hash call_cmp key valid (\<lambda>env. \<forall>n. array_ok env n) h c lh tr"
    and "call_hash h = hf" "call_cmp c = cmp"
  shows "length tr < 2 ^ 60 \<Longrightarrow> \<forall>xs. Drained xs \<notin> set tr \<Longrightarrow> balanced lh \<and> unat (num_items lh) \<le> length tr"
  using assms(1)
proof (induction rule: lh_history.induct)
  case (started env ok lh)
  have "num_items lh = 0" using started.hyps(2) by (auto simp: lh_new_def split: if_splits)
  then show ?case using new_inv [OF started.hyps(2), of hf key valid] by simp
next
  case (inserted lh tr env p lh' old ok)
  note st = history [OF inserted.hyps(1) assms(2,3)]
  then show ?case
    using inserted.IH insert_balanced [OF inserted.hyps(5) _ inserted.hyps(2)] inserted.prems
    by (auto simp: lh_inv_def)
next
  case (deleted lh tr env p lh' ret)
  note st = history [OF deleted.hyps(1) assms(2,3)]
  have "lh' = lh \<or> num_items lh \<noteq> 0"
    using delete_empty [OF _ deleted.hyps(3)] st deleted.hyps(4) assms(2,3) by fastforce
  then have "balanced lh' \<and> unat (num_items lh') \<le> unat (num_items lh)"
    if "balanced lh" "unat (num_items lh) < 2 ^ 60"
    using that st delete_balanced [OF deleted.hyps(4) _ deleted.hyps(2)] by (simp add: lh_inv_def)
  then show ?case using deleted.IH deleted.prems by simp
next
  case (retrieved lh tr p)
  then show ?case by simp
next
  case (key_retrieved lh tr cmp_key k key_hash)
  then show ?case by simp
next
  case (listed lh tr env res)
  note st = history [OF listed.hyps(1) assms(2,3)]
  then have r: "table_after lh res = lh_maybe_resize env lh"
    using doall_pure [of hf key valid lh env] listed.hyps(3) by simp
  have "num_items (table_after lh res) = num_items lh" using resize_same [of lh env] by (simp add: r same_but_buckets_def)
  moreover have "balanced (table_after lh res)" if "balanced lh" "unat (num_items lh) < 2 ^ 60"
    unfolding r using st that by (intro resize_balanced [OF listed.hyps(2)]) (auto simp: lh_inv_def balanced_def)
  ultimately show ?case using listed.IH listed.prems by simp
next
  case (drained lh tr env res)
  note st = history [OF drained.hyps(1) assms(2,3)]
  then obtain lh' xs where "res = Some (Some lh', xs)"
    using doall_delete [of lh call_hash call_cmp env env] drained.hyps(3) assms(2,3) by auto
  then show ?case using drained.prems by auto
qed

text \<open>The resizing at the end of an iteration is one step: draining a large table halves it once.\<close>

lemma drain_halves_once:
  assumes "lh_inv hf key valid lh" "callback_depth lh = 0" "call_hash (hash_fn lh) = hf" "call_cmp (comp_fn lh) = cmp"
    and "\<forall>n. array_ok env n" "32 \<le> unat (num_buckets lh)" "unat (num_buckets lh) < 2 ^ 61"
  shows "\<exists>lh' xs. lh_doall_arg env (\<lambda>d lh xs. (fst (lh_delete call_hash call_cmp env lh d), xs @ [d])) (Some lh) [] =
      Some (Some lh', xs) \<and> num_items lh' = 0 \<and> unat (num_buckets lh') = unat (num_buckets lh) div 2"
proof -
  let ?f = "\<lambda>d lh xs. (fst (lh_delete call_hash call_cmp env lh d), xs @ [d])"
  obtain lh1 xs1 where w: "walk_buckets ?f 0 (lh\<lparr>callback_depth := 1\<rparr>) [] = Some (lh1, xs1)"
      "lh_inv hf key valid lh1" "callback_depth lh1 = 1" "\<forall>j<length (buckets lh1). buckets lh1 ! j = []"
      "num_buckets lh1 = num_buckets lh"
    using walk_buckets_delete [of "lh\<lparr>callback_depth := 1\<rparr>" call_hash call_cmp env 0 "[]"] assms(1,3,4)
    by (auto simp: lh_inv_def lh_items_def)
  have "lh_items lh1 = []" using w(4) by (auto simp: lh_items_def in_set_conv_nth)
  then have n: "num_items lh1 = 0" using w(2) by (simp add: lh_inv_def unat_eq_zero)
  have "unat (num_buckets lh div 2) = unat (num_buckets lh) div 2" by (simp add: unat_div)
  then have h: "\<not> num_buckets lh div 2 < kMinNumBuckets" "kMinNumBuckets < num_buckets lh"
    using assms(6) by (simp_all add: kMinNumBuckets_def word_less_nat_alt)
  let ?lh = "lh1\<lparr>callback_depth := 0\<rparr>"
  have "lh_maybe_resize env ?lh = lh_rebucket env ?lh (num_buckets lh div 2)"
    using h n w(5) by (simp add: lh_maybe_resize_def Let_def kMaxAverageChainLength_def kMinAverageChainLength_def)
  moreover have "unat (num_buckets lh div 2) < 2 ^ 61" using assms(7) by (simp add: unat_div)
  ultimately have "num_buckets (lh_maybe_resize env ?lh) = num_buckets lh div 2" "num_items (lh_maybe_resize env ?lh) = 0"
    using rebucket_granted [OF assms(5), of "num_buckets lh div 2" ?lh] n by simp_all
  moreover have "lh_doall_arg env ?f (Some lh) [] = Some (Some (lh_maybe_resize env ?lh), xs1)"
    using w(1,3) assms(2) by (simp add: lh_doall_arg_def UINT_MAX_def Let_def)
  ultimately show ?thesis by (simp add: unat_div)
qed

end

section \<open>The properties\<close>


text \<open>C37. The load factor: while arrays are granted and less than \<open>2 ^ 60\<close> calls were made, none of which
  emptied the table from inside an iteration, there are at least 16 buckets, the average chain is
  shorter than 3, and a table of more than 16 buckets has no more buckets than items.\<close>

theorem lh_load_factor:
  assumes "hash_contract (call_hash h) (call_cmp c) key valid"
    and "lh_history call_hash call_cmp key valid (\<lambda>env. \<forall>n. array_ok env n) h c lh tr"
    and "length tr < 2 ^ 60" "\<forall>xs. Drained xs \<notin> set tr"
  shows "16 \<le> num_buckets lh \<and> unat (num_items lh) < 3 * unat (num_buckets lh) \<and>
    (num_buckets lh = 16 \<or> unat (num_buckets lh) \<le> unat (num_items lh))"
  using hash_contract.history_balanced [OF assms(1,2) refl refl] hash_contract.history [OF assms(1,2) refl refl] assms(3,4)
  by (simp add: balanced_def lh_inv_def kMinNumBuckets_def)

section \<open>A history\<close>

text \<open>Pointers hashed by their low half and compared by address: two elements in one chain, one of them
  replaced by itself.\<close>

definition by_low_half :: "ptr \<Rightarrow> ptr \<Rightarrow> u32" where
  "by_low_half f p = ucast p"

definition by_address :: "ptr \<Rightarrow> ptr \<Rightarrow> ptr \<Rightarrow> int" where
  "by_address f p q = (if p = q then 0 else 1)"

definition env_at :: "ptr \<Rightarrow> lh_alloc" where
  "env_at a = \<lparr>item_addr = a, array_ok = \<lambda>n. True\<rparr>"

definition put :: "ptr \<Rightarrow> ptr \<Rightarrow> LHASH \<Rightarrow> LHASH \<times> ptr \<times> bool" where
  "put a p lh = lh_insert by_low_half by_address (env_at a) lh p"

definition sample_0 :: LHASH where
  "sample_0 = the (lh_new (env_at 0) True 1 2)"

definition sample_1 :: LHASH where
  "sample_1 = fst (put 100 5 sample_0)"

definition sample_2 :: LHASH where
  "sample_2 = fst (put 200 21 sample_1)"

definition sample_3 :: LHASH where
  "sample_3 = fst (put 300 5 sample_2)"

lemma address_contract: "hash_contract (by_low_half h) (by_address c) (\<lambda>p. p) (\<lambda>p. p \<noteq> 0)"
  by unfold_locales (simp_all add: by_low_half_def by_address_def)

lemma sample_steps:
  "lh_new (env_at 0) True 1 2 = Some sample_0"
  "put 100 5 sample_0 = (sample_1, 0, True) \<and> addr ` set (lh_items sample_0) = {}"
  "put 200 21 sample_1 = (sample_2, 0, True) \<and> addr ` set (lh_items sample_1) = {100}"
  "put 300 5 sample_2 = (sample_3, 5, True) \<and> addr ` set (lh_items sample_2) = {100, 200}"
proof -
  show "lh_new (env_at 0) True 1 2 = Some sample_0" by (simp add: sample_0_def lh_new_def env_at_def)
  have "snd (put 100 5 sample_0) = (0, True)" "map addr (lh_items sample_0) = []" by code_simp+
  then show "put 100 5 sample_0 = (sample_1, 0, True) \<and> addr ` set (lh_items sample_0) = {}"
    by (metis empty_set image_set prod.collapse sample_1_def)
  have "snd (put 200 21 sample_1) = (0, True)" "map addr (lh_items sample_1) = [100]" by code_simp+
  then show "put 200 21 sample_1 = (sample_2, 0, True) \<and> addr ` set (lh_items sample_1) = {100}"
    by (metis empty_set image_set list.simps(15) prod.collapse sample_2_def)
  have "snd (put 300 5 sample_2) = (5, True)" "map addr (lh_items sample_2) = [100, 200]" by code_simp+
  then show "put 300 5 sample_2 = (sample_3, 5, True) \<and> addr ` set (lh_items sample_2) = {100, 200}"
    by (metis empty_set image_set list.simps(15) prod.collapse sample_3_def)
qed

lemma sample_history:
  "lh_history by_low_half by_address (\<lambda>p. p) (\<lambda>p. p \<noteq> 0) (\<lambda>env. \<forall>n. array_ok env n) 1 2 sample_3
    [Inserted 5 0, Inserted 21 0, Inserted 5 5]"
proof -
  let ?ok = "\<lambda>env. \<forall>n. array_ok env n"
  let ?H = "lh_history by_low_half by_address (\<lambda>p. p) (\<lambda>p. p \<noteq> 0) ?ok 1 2"
  have g: "?ok (env_at a)" for a by (simp add: env_at_def)
  have a: "item_addr (env_at a) = a" for a by (simp add: env_at_def)
  note s = sample_steps [unfolded put_def]
  have next_step: "\<And>lh lh' tr p old loc. ?H lh tr \<Longrightarrow> p \<noteq> 0 \<Longrightarrow> loc \<notin> addr ` set (lh_items lh) \<Longrightarrow>
      lh_insert by_low_half by_address (env_at loc) lh p = (lh', old, True) \<Longrightarrow> ?H lh' (tr @ [Inserted p old])"
  proof -
    fix lh lh' tr p old loc
    assume h: "?H lh tr" "p \<noteq> 0" "loc \<notin> addr ` set (lh_items lh)"
      "lh_insert by_low_half by_address (env_at loc) lh p = (lh', old, True)"
    have "item_addr (env_at loc) \<notin> addr ` set (lh_items lh)" using h(3) by (simp add: a)
    from lh_history.inserted [where allowed = ?ok, OF h(1) g h(2) this h(4)]
    show "?H lh' (tr @ [Inserted p old])" by simp
  qed
  have "?H sample_0 []" by (rule lh_history.started [where allowed = ?ok, OF g s(1)])
  then have "?H sample_1 ([] @ [Inserted 5 0])"
    by (rule next_step [OF _ _ _ s(2) [THEN conjunct1]]) (simp_all add: s(2))
  then have "?H sample_2 (([] @ [Inserted 5 0]) @ [Inserted 21 0])"
    by (rule next_step [OF _ _ _ s(3) [THEN conjunct1]]) (simp_all add: s(3))
  then have "?H sample_3 ((([] @ [Inserted 5 0]) @ [Inserted 21 0]) @ [Inserted 5 5])"
    by (rule next_step [OF _ _ _ s(4) [THEN conjunct1]]) (simp_all add: s(4))
  then show ?thesis by simp
qed





theorem lh_load_factor_witness: "16 \<le> num_buckets sample_3 \<and> unat (num_items sample_3) < 3 * unat (num_buckets sample_3)"
  using lh_load_factor [OF address_contract sample_history] by simp

end
