(* ===== verification/Buf.thy ===== *)
theory Buf
  imports Prelude
begin

text \<open>
  \<open>crypto/buf/buf.c\<close>: the growable byte buffer. \<open>buf_data\<close> is the block of \<open>buf_max\<close> bytes the buffer owns,
  empty for a null \<open>data\<close>.
\<close>

record BUF_MEM =
  buf_length :: u64
  buf_data :: bytes
  buf_max :: u64

text \<open>The allocator: which sizes it grants, and what fresh memory holds.\<close>

record byte_env =
  size_ok :: "u64 \<Rightarrow> bool"
  fresh_byte :: "nat \<Rightarrow> u8"

definition BUF_MEM_new :: "bool \<Rightarrow> BUF_MEM option" where
  "BUF_MEM_new ok = (if ok then Some \<lparr>buf_length = 0, buf_data = [], buf_max = 0\<rparr> else None)"

text \<open>\<open>OPENSSL_realloc\<close> to \<open>n\<close> bytes.\<close>

definition resize_bytes :: "byte_env \<Rightarrow> u64 \<Rightarrow> bytes \<Rightarrow> bytes" where
  "resize_bytes env n xs = take (unat n) xs @ map (fresh_byte env) [length xs..<unat n]"

definition BUF_MEM_reserve :: "byte_env \<Rightarrow> BUF_MEM \<Rightarrow> u64 \<Rightarrow> BUF_MEM \<times> bool" where
  "BUF_MEM_reserve env buf cap =
    (if cap \<le> buf_max buf then (buf, True)
     else let n = cap + 3
          in if n < cap then (buf, False)
             else let n = n div 3; alloc_size = n * 4
                  in if alloc_size div 4 \<noteq> n then (buf, False)
                     else if \<not> size_ok env alloc_size then (buf, False)
                     else (buf\<lparr>buf_data := resize_bytes env alloc_size (buf_data buf), buf_max := alloc_size\<rparr>, True))"

definition BUF_MEM_grow :: "byte_env \<Rightarrow> BUF_MEM \<Rightarrow> u64 \<Rightarrow> BUF_MEM \<times> u64" where
  "BUF_MEM_grow env buf len =
    (case BUF_MEM_reserve env buf len of (buf, ok) \<Rightarrow>
       if \<not> ok then (buf, 0)
       else let old = unat (buf_length buf);
                xs = (if buf_length buf < len
                      then take old (buf_data buf) @ replicate (unat (len - buf_length buf)) 0 @ drop (unat len) (buf_data buf)
                      else buf_data buf)
            in (buf\<lparr>buf_data := xs, buf_length := len\<rparr>, len))"

definition BUF_MEM_grow_clean :: "byte_env \<Rightarrow> BUF_MEM \<Rightarrow> u64 \<Rightarrow> BUF_MEM \<times> u64" where
  "BUF_MEM_grow_clean env buf len = BUF_MEM_grow env buf len"

definition BUF_MEM_append :: "byte_env \<Rightarrow> BUF_MEM \<Rightarrow> bytes \<Rightarrow> u64 \<Rightarrow> BUF_MEM \<times> bool" where
  "BUF_MEM_append env buf xs len =
    (if len = 0 then (buf, True)
     else let new_len = buf_length buf + len
          in if new_len < len then (buf, False)
             else case BUF_MEM_reserve env buf new_len of (buf, ok) \<Rightarrow>
               if \<not> ok then (buf, False)
               else let old = unat (buf_length buf); n = unat len
                    in (buf\<lparr>buf_data := take old (buf_data buf) @ take n xs @ drop (old + n) (buf_data buf),
                            buf_length := new_len\<rparr>, True))"

text \<open>A store of bytes at an index of the block; \<open>None\<close> is a store outside of it.\<close>

definition buf_store :: "BUF_MEM \<Rightarrow> nat \<Rightarrow> bytes \<Rightarrow> BUF_MEM option" where
  "buf_store buf i xs =
    (if i + length xs \<le> length (buf_data buf)
     then Some (buf\<lparr>buf_data := take i (buf_data buf) @ xs @ drop (i + length xs) (buf_data buf)\<rparr>) else None)"

text \<open>The invariant of the owners of a buffer, and the bytes it holds.\<close>

definition buf_ok :: "BUF_MEM \<Rightarrow> bool" where
  "buf_ok buf \<longleftrightarrow> length (buf_data buf) = unat (buf_max buf) \<and> buf_length buf \<le> buf_max buf"

definition buf_bytes :: "BUF_MEM \<Rightarrow> bytes" where
  "buf_bytes buf = take (unat (buf_length buf)) (buf_data buf)"

lemma length_resize_bytes [simp]: "length (resize_bytes env n xs) = unat n"
  by (auto simp: resize_bytes_def min_def)

lemma take_resize_bytes: "k \<le> length xs \<Longrightarrow> k \<le> unat n \<Longrightarrow> take k (resize_bytes env n xs) = take k xs"
  by (simp add: resize_bytes_def min_def)

text \<open>The size computed for a capacity: enough for it, by the overflow checks.\<close>

lemma reserve_size:
  fixes cap :: u64
  assumes "\<not> cap + 3 < cap" "(cap + 3) div 3 * 4 div 4 = (cap + 3) div 3"
  shows "unat cap < unat ((cap + 3) div 3 * 4)"
proof -
  let ?c = "unat cap"
  have c: "unat (cap + 3) = ?c + 3"
  proof (rule ccontr)
    assume "unat (cap + 3) \<noteq> ?c + 3"
    then have o: "2 ^ 64 \<le> ?c + 3" using unat_add_lem [of cap 3] by simp
    have "unat (cap + 3) = (?c + 3) mod 2 ^ 64" by (simp add: unat_word_ariths)
    also have "\<dots> = (?c + 3 - 2 ^ 64) mod 2 ^ 64" using o by (rule le_mod_geq)
    also have "\<dots> \<le> ?c + 3 - 2 ^ 64" by simp
    finally show False using assms(1) o by (simp add: word_less_nat_alt)
  qed
  define n where "n = unat ((cap + 3) div 3)"
  have n: "n = (?c + 3) div 3" by (simp add: n_def unat_div c)
  have "unat ((cap + 3) div 3 * 4) = n * 4"
  proof -
    have "n = n * 4 mod 2 ^ 64 div 4"
    proof -
      have "n = unat ((cap + 3) div 3 * 4 div 4)" using assms(2) by (simp add: n_def)
      also have "\<dots> = unat ((cap + 3) div 3 * 4) div 4" by (simp add: unat_div)
      also have "unat ((cap + 3) div 3 * 4) = n * 4 mod 2 ^ 64" by (simp add: unat_word_ariths(2) flip: n_def)
      finally show ?thesis .
    qed
    also have "\<dots> < 2 ^ 62" by (simp add: div_less_iff_less_mult)
    finally have "n * 4 < 2 ^ 64" by simp
    then show ?thesis by (simp add: unat_word_ariths(2) flip: n_def)
  qed
  then show ?thesis unfolding n by linarith
qed

lemma reserve_spec:
  assumes "buf_ok buf" "BUF_MEM_reserve env buf cap = (buf', ok)"
  shows "buf_ok buf' \<and> buf_bytes buf' = buf_bytes buf \<and> buf_length buf' = buf_length buf \<and>
    (ok \<longrightarrow> cap \<le> buf_max buf') \<and> (\<not> ok \<longrightarrow> buf' = buf)"
proof (cases "buf' = buf \<and> (ok \<longrightarrow> cap \<le> buf_max buf)")
  case True
  then show ?thesis using assms(1) by simp
next
  case False
  let ?a = "(cap + 3) div 3 * 4"
  have b: "buf' = buf\<lparr>buf_data := resize_bytes env ?a (buf_data buf), buf_max := ?a\<rparr>" "ok"
    and s: "unat cap < unat ?a" "unat (buf_max buf) < unat cap"
    using False assms(2) reserve_size [of cap]
    by (auto simp: BUF_MEM_reserve_def Let_def word_le_nat_alt split: if_splits)
  have "unat (buf_length buf) \<le> unat (buf_max buf)" using assms(1) by (simp add: buf_ok_def word_le_nat_alt)
  then show ?thesis
    using assms(1) b s by (simp add: buf_ok_def buf_bytes_def take_resize_bytes word_le_nat_alt)
qed

lemma grow_spec:
  assumes "buf_ok buf" "BUF_MEM_grow env buf len = (buf', ret)"
  shows "buf_ok buf' \<and> (if ret = 0 \<and> len \<noteq> 0 then buf' = buf
    else ret = len \<and> buf_length buf' = len \<and>
      buf_bytes buf' = take (unat len) (buf_bytes buf) @ replicate (unat len - unat (buf_length buf)) 0)"
proof -
  obtain b ok where r: "BUF_MEM_reserve env buf len = (b, ok)" by fastforce
  note sp = reserve_spec [OF assms(1) r]
  have l: "unat (buf_length b) \<le> length (buf_data b)" "length (buf_data b) = unat (buf_max b)"
    using sp by (auto simp: buf_ok_def word_le_nat_alt)
  show ?thesis
  proof (cases ok)
    case False
    then have "len \<noteq> 0" using r by (auto simp: BUF_MEM_reserve_def)
    then show ?thesis using False assms r sp by (auto simp: BUF_MEM_grow_def)
  next
    case True
    show ?thesis
    proof (cases "buf_length buf < len")
      case less: True
      then have "unat (buf_length b) < unat len" "unat len \<le> unat (buf_max b)"
        "unat (len - buf_length buf) = unat len - unat (buf_length b)"
        using sp True by (simp_all add: word_less_nat_alt word_le_nat_alt unat_minus_le)
      then show ?thesis
        using assms r sp l less True
        by (auto simp: BUF_MEM_grow_def Let_def buf_ok_def buf_bytes_def word_le_nat_alt min_def)
    next
      case False
      then have m: "min (unat len) (unat (buf_length buf)) = unat len" by (simp add: word_less_nat_alt)
      have "take (unat len) (buf_data b) = take (unat len) (buf_data buf)"
        using sp m unfolding buf_bytes_def by (metis take_take)
      with False show ?thesis
        using assms r sp l True
        by (auto simp: BUF_MEM_grow_def Let_def buf_ok_def buf_bytes_def word_le_nat_alt word_less_nat_alt min_def)
    qed
  qed
qed

lemma append_spec:
  assumes "buf_ok buf" "BUF_MEM_append env buf xs len = (buf', ok)" "length xs = unat len"
  shows "buf_ok buf' \<and> (if ok then buf_bytes buf' = buf_bytes buf @ xs else buf_bytes buf' = buf_bytes buf)"
proof (cases "len = 0 \<or> buf_length buf + len < len")
  case True
  then show ?thesis using assms by (auto simp: BUF_MEM_append_def Let_def split: if_splits prod.splits)
next
  case False
  obtain b ok' where r: "BUF_MEM_reserve env buf (buf_length buf + len) = (b, ok')" by fastforce
  note sp = reserve_spec [OF assms(1) r]
  have n: "unat (buf_length buf + len) = unat (buf_length buf) + unat len"
    using False by (metis add.commute not_less unat_plus_simple)
  show ?thesis
  proof (cases ok')
    case False
    then show ?thesis
      using assms r sp \<open>\<not> (len = 0 \<or> _)\<close> by (auto simp: BUF_MEM_append_def Let_def split: if_splits prod.splits)
  next
    case True
    then have "unat (buf_length b) + unat len \<le> length (buf_data b)"
      using sp n by (auto simp: buf_ok_def word_le_nat_alt)
    then show ?thesis
      using assms r sp True \<open>\<not> (len = 0 \<or> _)\<close> n
      by (auto simp: BUF_MEM_append_def Let_def buf_ok_def buf_bytes_def word_le_nat_alt min_def split: if_splits)
  qed
qed

lemma unat_of_nat_u64: "n < 2 ^ 64 \<Longrightarrow> unat (of_nat n :: u64) = n"
  by (simp add: unat_of_nat)

text \<open>Below \<open>2 ^ 62\<close> bytes only the allocator can refuse.\<close>

lemma reserve_granted:
  assumes "size_ok env = (\<lambda>n. True)" "unat cap \<le> 2 ^ 62"
  shows "snd (BUF_MEM_reserve env buf cap)"
proof -
  have c: "unat (cap + 3) = unat cap + 3" using assms(2) by (subst unat_add_lem [THEN iffD1]) simp_all
  define n where "n = (cap + 3) div 3"
  have n: "unat n = (unat cap + 3) div 3" by (simp add: n_def unat_div c)
  then have "unat n < 2 ^ 62" using assms(2) by (simp add: div_less_iff_less_mult)
  then have "unat (n * 4) = unat n * 4" by (simp add: unat_word_ariths)
  then have "n * 4 div 4 = n" by (simp add: word_unat_eq_iff unat_div)
  moreover have "\<not> cap + 3 < cap" using c by (simp add: word_less_nat_alt)
  ultimately show ?thesis using assms(1) by (auto simp: BUF_MEM_reserve_def Let_def n_def)
qed

end
