(* ===== verification/Conf.thy ===== *)
theory Conf
  imports LhashProps Buf
begin

text \<open>
  \<open>crypto/conf/conf.c\<close>: configuration files. Strings are their bytes in front of the terminating zero,
  \<open>None\<close> for \<open>NULL\<close>, and a pointer into one is what is left of it. A \<open>CONF\<close> is its hash table
  together with the \<open>CONF_VALUE\<close> objects on the heap; the stack of a section is part of the section's
  object, which owns it. The template of a lookup is a local variable; its address is written 0, which is
  the address of no element. Positions and lengths of type \<open>int\<close> are naturals, which is exact for lines
  below \<open>2 ^ 31\<close> bytes.
\<close>

datatype conf_data = No_value | Str bytes | Values STACK

record CONF_VALUE =
  v_section :: "bytes option"
  v_name :: "bytes option"
  v_value :: conf_data

record CONF =
  table :: LHASH
  vals :: "ptr \<Rightarrow> CONF_VALUE option"

definition MAX_CONF_VALUE_LENGTH :: u64 where
  "MAX_CONF_VALUE_LENGTH = 65536"

text \<open>What an operation that may have undefined behaviour does: undefined, or a result, \<open>None\<close> for failure,
  in a state.\<close>

datatype 'a run = Crash | Run CONF "'a option"

section \<open>Hashing and comparison\<close>

fun strcmp :: "bytes \<Rightarrow> bytes \<Rightarrow> int" where
  "strcmp [] [] = 0"
| "strcmp [] (y # ys) = -1"
| "strcmp (x # xs) [] = 1"
| "strcmp (x # xs) (y # ys) = (if x < y then -1 else if y < x then 1 else strcmp xs ys)"

definition conf_value_hash :: "CONF_VALUE \<Rightarrow> u32" where
  "conf_value_hash v = xor (push_bit 2 (lh_strhash (v_section v))) (lh_strhash (v_name v))"

text \<open>\<open>None\<close> is \<open>strcmp\<close> on \<open>NULL\<close>.\<close>

definition compare_names :: "bytes option \<Rightarrow> bytes option \<Rightarrow> int" where
  "compare_names a b = (case (a, b) of
     (Some x, Some y) \<Rightarrow> strcmp x y
   | (None, None) \<Rightarrow> 0
   | (None, Some y) \<Rightarrow> -1
   | (Some x, None) \<Rightarrow> 1)"

definition conf_value_cmp :: "CONF_VALUE \<Rightarrow> CONF_VALUE \<Rightarrow> int option" where
  "conf_value_cmp a b =
    (if v_section a \<noteq> v_section b
     then (case (v_section a, v_section b) of
         (Some x, Some y) \<Rightarrow> (let i = strcmp x y in if i \<noteq> 0 then Some i else Some (compare_names (v_name a) (v_name b)))
       | _ \<Rightarrow> None)
     else Some (compare_names (v_name a) (v_name b)))"

definition zero_value :: CONF_VALUE where
  "zero_value = \<lparr>v_section = None, v_name = None, v_value = No_value\<rparr>"

definition value_at :: "(ptr \<Rightarrow> CONF_VALUE option) \<Rightarrow> ptr \<Rightarrow> CONF_VALUE" where
  "value_at h p = (case h p of Some v \<Rightarrow> v | None \<Rightarrow> zero_value)"

text \<open>What the table's functions return on the objects of a heap; \<open>probe_ok\<close> says that every comparison of
  the search for \<open>p\<close> is defined.\<close>

definition hash_in :: "(ptr \<Rightarrow> CONF_VALUE option) \<Rightarrow> ptr \<Rightarrow> u32" where
  "hash_in h p = conf_value_hash (value_at h p)"

definition cmp_in :: "(ptr \<Rightarrow> CONF_VALUE option) \<Rightarrow> ptr \<Rightarrow> ptr \<Rightarrow> int" where
  "cmp_in h p q = (case conf_value_cmp (value_at h p) (value_at h q) of Some i \<Rightarrow> i | None \<Rightarrow> 1)"

definition probe_ok :: "(ptr \<Rightarrow> CONF_VALUE option) \<Rightarrow> LHASH \<Rightarrow> ptr \<Rightarrow> bool" where
  "probe_ok h lh p = (case get_next_ptr_and_hash (\<lambda>f. hash_in h) (\<lambda>f. cmp_in h) lh p of ((b, i), hv) \<Rightarrow>
     list_all (\<lambda>it. conf_value_cmp (value_at h (data it)) (value_at h p) \<noteq> None) (take (Suc i) (buckets lh ! b)))"

definition NCONF_new :: "lh_alloc \<Rightarrow> bool \<Rightarrow> bool \<Rightarrow> bool \<Rightarrow> ptr \<Rightarrow> ptr \<Rightarrow> CONF option" where
  "NCONF_new env method_is_null conf_ok lh_ok hash_addr cmp_addr =
    (if \<not> method_is_null then None
     else if \<not> conf_ok then None
     else case lh_new env lh_ok hash_addr cmp_addr of
       None \<Rightarrow> None
     | Some lh \<Rightarrow> Some \<lparr>table = lh, vals = Map.empty\<rparr>)"

text \<open>\<open>p\<close> is the address the allocator returns, 0 for failure.\<close>

definition CONF_VALUE_new :: "ptr \<Rightarrow> CONF \<Rightarrow> CONF \<times> ptr" where
  "CONF_VALUE_new p c = (if p = 0 then (c, 0) else (c\<lparr>vals := (vals c)(p \<mapsto> zero_value)\<rparr>, p))"

text \<open>\<open>value_free\<close>: the object and all it owns.\<close>

definition value_free :: "ptr \<Rightarrow> (ptr \<Rightarrow> CONF_VALUE option) \<Rightarrow> ptr \<Rightarrow> CONF_VALUE option" where
  "value_free p h = h(p := None)"

text \<open>The heap that \<open>NCONF_free\<close> leaves.\<close>

definition NCONF_free :: "lh_alloc \<Rightarrow> CONF option \<Rightarrow> (ptr \<Rightarrow> CONF_VALUE option) option" where
  "NCONF_free env conf = (case conf of None \<Rightarrow> Some Map.empty | Some c \<Rightarrow>
     map_option snd (lh_doall_arg env (\<lambda>p lh h. (lh, value_free p h)) (Some (table c)) (vals c)))"

section \<open>Lookup and insertion\<close>

definition lookup :: "CONF \<Rightarrow> CONF_VALUE \<Rightarrow> ptr option" where
  "lookup c template =
    (let h = (vals c)(0 \<mapsto> template)
     in if probe_ok h (table c) 0 then Some (lh_retrieve (\<lambda>f. hash_in h) (\<lambda>f. cmp_in h) (table c) 0) else None)"

definition conf_insert :: "lh_alloc \<Rightarrow> CONF \<Rightarrow> ptr \<Rightarrow> (CONF \<times> ptr \<times> bool) option" where
  "conf_insert env c p =
    (if probe_ok (vals c) (table c) p
     then (case lh_insert (\<lambda>f. hash_in (vals c)) (\<lambda>f. cmp_in (vals c)) env (table c) p of (lh, old, ok) \<Rightarrow>
       Some (c\<lparr>table := lh\<rparr>, old, ok))
     else None)"

text \<open>The lookups: outer \<open>None\<close> is undefined behaviour.\<close>

definition get_section :: "CONF \<Rightarrow> bytes option \<Rightarrow> ptr option" where
  "get_section c sec = lookup c (zero_value\<lparr>v_section := sec\<rparr>)"

definition NCONF_get_section :: "CONF \<Rightarrow> bytes option \<Rightarrow> conf_data option" where
  "NCONF_get_section c sec = (case get_section c sec of
     None \<Rightarrow> None
   | Some p \<Rightarrow> Some (if p = 0 then No_value else v_value (value_at (vals c) p)))"

definition NCONF_get_string :: "CONF \<Rightarrow> bytes option \<Rightarrow> bytes option \<Rightarrow> conf_data option" where
  "NCONF_get_string c sec nm = (case lookup c (zero_value\<lparr>v_section := sec, v_name := nm\<rparr>) of
     None \<Rightarrow> None
   | Some p \<Rightarrow> Some (if p = 0 then No_value else v_value (value_at (vals c) p)))"

text \<open>What the allocator gives a call of \<open>NCONF_new_section\<close>.\<close>

record section_env =
  sk_ok :: bool
  sk_mem :: alloc_env
  sec_addr :: ptr
  sec_dup_ok :: bool
  sec_mem :: lh_alloc

definition NCONF_new_section :: "section_env \<Rightarrow> CONF \<Rightarrow> bytes \<Rightarrow> ptr run" where
  "NCONF_new_section env c sec =
    (let sk = sk_new_null (sk_mem env) (sk_ok env);
         (c, v) = CONF_VALUE_new (sec_addr env) c
     in case sk of
          None \<Rightarrow> Run (c\<lparr>vals := (vals c)(v := None)\<rparr>) None
        | Some s \<Rightarrow>
            if v = 0 then Run c None
            else if \<not> sec_dup_ok env then Run (c\<lparr>vals := (vals c)(v := None)\<rparr>) None
            else let c = c\<lparr>vals := (vals c)(v \<mapsto> \<lparr>v_section = Some sec, v_name = None, v_value = Values s\<rparr>)\<rparr>
                 in case conf_insert (sec_mem env) c v of
                      None \<Rightarrow> Crash
                    | Some (c, old_value, ok) \<Rightarrow>
                        if \<not> ok then Run (c\<lparr>vals := (vals c)(v := None)\<rparr>) None
                        else Run (if old_value \<noteq> 0 then c\<lparr>vals := value_free old_value (vals c)\<rparr> else c) (Some v))"

text \<open>What the allocator gives a call of \<open>add_string\<close>.\<close>

record string_env =
  str_dup_ok :: bool
  push_mem :: alloc_env
  str_mem :: lh_alloc

definition add_string :: "string_env \<Rightarrow> CONF \<Rightarrow> ptr \<Rightarrow> ptr \<Rightarrow> unit run" where
  "add_string env c sec v =
    (case v_value (value_at (vals c) sec) of
       Values sk \<Rightarrow>
         (let dup = (if str_dup_ok env then v_section (value_at (vals c) sec) else None);
              h = (vals c)(v \<mapsto> (value_at (vals c) v)\<lparr>v_section := dup\<rparr>)
          in case sk_push (push_mem env) sk v of (sk', n) \<Rightarrow>
            let h = (case sk' of None \<Rightarrow> h | Some s \<Rightarrow> h(sec \<mapsto> (value_at h sec)\<lparr>v_value := Values s\<rparr>));
                c = c\<lparr>vals := h\<rparr>
            in if n = 0 then Run c None
               else case conf_insert (str_mem env) c v of
                 None \<Rightarrow> Crash
               | Some (c, old_value, ok) \<Rightarrow>
                   if \<not> ok then Run c None
                   else if old_value \<noteq> 0 then
                     (let sk'' = fst (sk_delete_ptr sk' old_value);
                          h = (case sk'' of None \<Rightarrow> vals c
                               | Some s \<Rightarrow> (vals c)(sec \<mapsto> (value_at (vals c) sec)\<lparr>v_value := Values s\<rparr>))
                      in Run (c\<lparr>vals := value_free old_value h\<rparr>) (Some ()))
                   else Run c (Some ()))
     | _ \<Rightarrow> Crash)"

section \<open>Character classes\<close>

definition CONF_type_default :: "nat list" where
  "CONF_type_default = [
    0x0008, 0x0000, 0x0000, 0x0000, 0x0000, 0x0000, 0x0000, 0x0000,
    0x0000, 0x0010, 0x0010, 0x0000, 0x0000, 0x0010, 0x0000, 0x0000,
    0x0000, 0x0000, 0x0000, 0x0000, 0x0000, 0x0000, 0x0000, 0x0000,
    0x0000, 0x0000, 0x0000, 0x0000, 0x0000, 0x0000, 0x0000, 0x0000,
    0x0010, 0x0200, 0x0040, 0x0080, 0x0000, 0x0200, 0x0200, 0x0040,
    0x0000, 0x0000, 0x0200, 0x0200, 0x0200, 0x0200, 0x0200, 0x0200,
    0x0001, 0x0001, 0x0001, 0x0001, 0x0001, 0x0001, 0x0001, 0x0001,
    0x0001, 0x0001, 0x0000, 0x0200, 0x0000, 0x0000, 0x0000, 0x0200,
    0x0200, 0x0002, 0x0002, 0x0002, 0x0002, 0x0002, 0x0002, 0x0002,
    0x0002, 0x0002, 0x0002, 0x0002, 0x0002, 0x0002, 0x0002, 0x0002,
    0x0002, 0x0002, 0x0002, 0x0002, 0x0002, 0x0002, 0x0002, 0x0002,
    0x0002, 0x0002, 0x0002, 0x0000, 0x0020, 0x0000, 0x0200, 0x0100,
    0x0040, 0x0004, 0x0004, 0x0004, 0x0004, 0x0004, 0x0004, 0x0004,
    0x0004, 0x0004, 0x0004, 0x0004, 0x0004, 0x0004, 0x0004, 0x0004,
    0x0004, 0x0004, 0x0004, 0x0004, 0x0004, 0x0004, 0x0004, 0x0004,
    0x0004, 0x0004, 0x0004, 0x0000, 0x0200, 0x0000, 0x0200, 0x0000,
    0x1000, 0x1000, 0x1000, 0x1000, 0x1000, 0x1000, 0x1000, 0x1000,
    0x1000, 0x1000, 0x1000, 0x1000, 0x1000, 0x1000, 0x1000, 0x1000,
    0x1000, 0x1000, 0x1000, 0x1000, 0x1000, 0x1000, 0x1000, 0x1000,
    0x1000, 0x1000, 0x1000, 0x1000, 0x1000, 0x1000, 0x1000, 0x1000,
    0x1000, 0x1000, 0x1000, 0x1000, 0x1000, 0x1000, 0x1000, 0x1000,
    0x1000, 0x1000, 0x1000, 0x1000, 0x1000, 0x1000, 0x1000, 0x1000,
    0x1000, 0x1000, 0x1000, 0x1000, 0x1000, 0x1000, 0x1000, 0x1000,
    0x1000, 0x1000, 0x1000, 0x1000, 0x1000, 0x1000, 0x1000, 0x1000,
    0x1000, 0x1000, 0x1000, 0x1000, 0x1000, 0x1000, 0x1000, 0x1000,
    0x1000, 0x1000, 0x1000, 0x1000, 0x1000, 0x1000, 0x1000, 0x1000,
    0x1000, 0x1000, 0x1000, 0x1000, 0x1000, 0x1000, 0x1000, 0x1000,
    0x1000, 0x1000, 0x1000, 0x1000, 0x1000, 0x1000, 0x1000, 0x1000,
    0x1000, 0x1000, 0x1000, 0x1000, 0x1000, 0x1000, 0x1000, 0x1000,
    0x1000, 0x1000, 0x1000, 0x1000, 0x1000, 0x1000, 0x1000, 0x1000,
    0x1000, 0x1000, 0x1000, 0x1000, 0x1000, 0x1000, 0x1000, 0x1000,
    0x1000, 0x1000, 0x1000, 0x1000, 0x1000, 0x1000, 0x1000, 0x1000]"

definition has_type :: "nat \<Rightarrow> u8 \<Rightarrow> bool" where
  "has_type m c \<longleftrightarrow> and (CONF_type_default ! unat c) m \<noteq> 0"

definition IS_COMMENT :: "u8 \<Rightarrow> bool" where "IS_COMMENT c = has_type 128 c"

definition IS_FCOMMENT :: "u8 \<Rightarrow> bool" where "IS_FCOMMENT c = has_type 2048 c"

definition IS_EOF :: "u8 \<Rightarrow> bool" where "IS_EOF c = has_type 8 c"

definition IS_ESC :: "u8 \<Rightarrow> bool" where "IS_ESC c = has_type 32 c"

definition IS_WS :: "u8 \<Rightarrow> bool" where "IS_WS c = has_type 16 c"

definition IS_ALPHA_NUMERIC :: "u8 \<Rightarrow> bool" where "IS_ALPHA_NUMERIC c = has_type (2 + 4 + 1 + 256) c"

definition IS_ALPHA_NUMERIC_PUNCT :: "u8 \<Rightarrow> bool" where "IS_ALPHA_NUMERIC_PUNCT c = has_type (2 + 4 + 1 + 256 + 512) c"

definition IS_QUOTE :: "u8 \<Rightarrow> bool" where "IS_QUOTE c = has_type 64 c"

definition IS_DQUOTE :: "u8 \<Rightarrow> bool" where "IS_DQUOTE c = has_type 1024 c"

text \<open>The character a pointer into a string points to.\<close>

definition cur :: "bytes \<Rightarrow> u8" where
  "cur s = (case s of [] \<Rightarrow> 0 | c # _ \<Rightarrow> c)"

section \<open>Scanning\<close>

primrec eat_ws :: "bytes \<Rightarrow> bytes" where
  "eat_ws [] = []"
| "eat_ws (c # s) = (if IS_WS c \<and> \<not> IS_EOF c then eat_ws s else c # s)"

text \<open>\<open>scan_esc\<close> at an escape character.\<close>

definition scan_esc :: "bytes \<Rightarrow> bytes" where
  "scan_esc s = (if IS_EOF (cur (tl s)) then tl s else tl (tl s))"

lemma eat_ws_le: "length (eat_ws s) \<le> length s"
  by (induction s) auto

lemma scan_esc_less: "s \<noteq> [] \<Longrightarrow> length (scan_esc s) < length s"
  by (cases s) (auto simp: scan_esc_def)

function eat_alpha_numeric :: "bytes \<Rightarrow> bytes" where
  "eat_alpha_numeric [] = []"
| "eat_alpha_numeric (c # s) =
    (if IS_ESC c then eat_alpha_numeric (scan_esc (c # s))
     else if \<not> IS_ALPHA_NUMERIC_PUNCT c then c # s
     else eat_alpha_numeric s)"
  by pat_completeness auto
termination
proof (relation "measure length")
  show "(scan_esc (c # s), c # s) \<in> measure length" for c s
    using scan_esc_less [of "c # s"] by simp
qed simp_all

lemma eat_alpha_numeric_le: "length (eat_alpha_numeric s) \<le> length s"
proof (induction s rule: eat_alpha_numeric.induct)
  case (2 c s)
  then show ?case using scan_esc_less [of "c # s"] by auto
qed simp

text \<open>A quoted string behind its opening quote \<open>q\<close>, up to and with the closing one.\<close>

function scan_quote_rest :: "u8 \<Rightarrow> bytes \<Rightarrow> bytes" where
  "scan_quote_rest q [] = []"
| "scan_quote_rest q (c # s) =
    (if IS_EOF c \<or> c = q then (if c = q then s else c # s)
     else if IS_ESC c then (if IS_EOF (cur s) then s else scan_quote_rest q (tl s))
     else scan_quote_rest q s)"
  by pat_completeness auto
termination by (relation "measure (\<lambda>(q, s). length s)") auto

definition scan_quote :: "bytes \<Rightarrow> bytes" where
  "scan_quote s = scan_quote_rest (cur s) (tl s)"

function scan_dquote_rest :: "u8 \<Rightarrow> bytes \<Rightarrow> bytes" where
  "scan_dquote_rest q [] = []"
| "scan_dquote_rest q (c # s) =
    (if IS_EOF c then (if c = q then s else c # s)
     else if c = q then (if cur s = q then scan_dquote_rest q (tl s) else s)
     else scan_dquote_rest q s)"
  by pat_completeness auto
termination by (relation "measure (\<lambda>(q, s). length s)") auto

definition scan_dquote :: "bytes \<Rightarrow> bytes" where
  "scan_dquote s = scan_dquote_rest (cur s) (tl s)"

lemma length_tl_le: "n \<le> length s - Suc 0 \<Longrightarrow> n \<le> Suc (length s)"
  by simp

lemma scan_quote_rest_le: "length (scan_quote_rest q s) \<le> length s"
  by (induction q s rule: scan_quote_rest.induct) (simp_all add: length_tl_le le_SucI)

lemma scan_dquote_rest_le: "length (scan_dquote_rest q s) \<le> length s"
  by (induction q s rule: scan_dquote_rest.induct) (simp_all add: length_tl_le le_SucI)

text \<open>\<open>clear_comments\<close> cuts a line where a comment starts: what is left of the line from a position on.\<close>

function clear_rest :: "bytes \<Rightarrow> bytes" where
  "clear_rest [] = []"
| "clear_rest (c # s) =
    (if IS_COMMENT c then []
     else if IS_DQUOTE c then take (Suc (length s) - length (scan_dquote (c # s))) (c # s) @ clear_rest (scan_dquote (c # s))
     else if IS_QUOTE c then take (Suc (length s) - length (scan_quote (c # s))) (c # s) @ clear_rest (scan_quote (c # s))
     else if IS_ESC c then take (Suc (length s) - length (scan_esc (c # s))) (c # s) @ clear_rest (scan_esc (c # s))
     else if IS_EOF c then c # s
     else c # clear_rest s)"
  by pat_completeness auto
termination
proof (relation "measure length")
  show "(scan_esc (c # s), c # s) \<in> measure length" for c s
    using scan_esc_less [of "c # s"] by simp
qed (simp_all add: scan_dquote_def scan_quote_def le_imp_less_Suc scan_dquote_rest_le scan_quote_rest_le)

primrec clear_comments :: "bytes \<Rightarrow> bytes" where
  "clear_comments [] = clear_rest []"
| "clear_comments (c # s) =
    (if IS_FCOMMENT c then [] else if \<not> IS_WS c then clear_rest (c # s) else c # clear_comments s)"

section \<open>Values: quotes, escapes and variables\<close>

text \<open>The characters copied out of a quoted string behind its opening quote, and the rest.\<close>

function copy_quote :: "u8 \<Rightarrow> bytes \<Rightarrow> bytes \<times> bytes" where
  "copy_quote q [] = ([], [])"
| "copy_quote q (c # s) =
    (if IS_EOF c \<or> c = q then ([], if c = q then s else c # s)
     else if IS_ESC c then
       (if IS_EOF (cur s) then ([], if cur s = q then tl s else s)
        else apfst (Cons (cur s)) (copy_quote q (tl s)))
     else apfst (Cons c) (copy_quote q s))"
  by pat_completeness auto
termination by (relation "measure (\<lambda>(q, s). length s)") auto

function copy_dquote :: "u8 \<Rightarrow> bytes \<Rightarrow> bytes \<times> bytes" where
  "copy_dquote q [] = ([], [])"
| "copy_dquote q (c # s) =
    (if IS_EOF c then ([], if c = q then s else c # s)
     else if c = q then
       (if cur s = q then apfst (Cons (cur s)) (copy_dquote q (tl s)) else ([], s))
     else apfst (Cons c) (copy_dquote q s))"
  by pat_completeness auto
termination by (relation "measure (\<lambda>(q, s). length s)") auto

definition unescape :: "u8 \<Rightarrow> u8" where
  "unescape v = (if v = 114 then 13 else if v = 110 then 10 else if v = 98 then 8 else if v = 116 then 9 else v)"

text \<open>A variable reference behind its dollar sign: the section and name it refers to, and the rest;
  \<open>None\<close> is a missing brace.\<close>

definition variable_ref :: "bytes option \<Rightarrow> bytes \<Rightarrow> (bytes option \<times> bytes \<times> bytes) option" where
  "variable_ref sec s =
    (let q = (if cur s = 123 then 125 else if cur s = 40 then 41 else 0 :: u8);
         s = (if q \<noteq> 0 then tl s else s);
         np = takeWhile IS_ALPHA_NUMERIC s;
         e = dropWhile IS_ALPHA_NUMERIC s;
         (cp, np, e) =
           (if cur e = 58 \<and> cur (tl e) = 58
            then (Some np, takeWhile IS_ALPHA_NUMERIC (tl (tl e)), dropWhile IS_ALPHA_NUMERIC (tl (tl e)))
            else (sec, np, e))
     in if q \<noteq> 0 then (if cur e \<noteq> q then None else Some (cp, np, tl e)) else Some (cp, np, e))"

lemma copy_quote_le: "length (snd (copy_quote q s)) \<le> length s"
  by (induction q s rule: copy_quote.induct) (simp_all add: length_tl_le le_SucI)

lemma copy_dquote_le: "length (snd (copy_dquote q s)) \<le> length s"
  by (induction q s rule: copy_dquote.induct) (simp_all add: length_tl_le le_SucI)

lemma copied_le:
  "(out, rest) = copy_quote q s \<Longrightarrow> length rest \<le> length s"
  "(out, rest) = copy_dquote q s \<Longrightarrow> length rest \<le> length s"
  by (metis copy_quote_le snd_conv, metis copy_dquote_le snd_conv)

lemma variable_ref_le: "variable_ref sec s = Some (cp, np, e) \<Longrightarrow> length e \<le> length s"
proof -
  have d: "length (dropWhile P xs) \<le> length xs" for P and xs :: bytes by (rule length_dropWhile_le)
  have t: "length (tl xs) \<le> length xs" for xs :: bytes by simp
  assume "variable_ref sec s = Some (cp, np, e)"
  then show ?thesis
    unfolding variable_ref_def Let_def
    by (auto split: if_splits intro!: order.trans [OF d] order.trans [OF t] simp del: length_tl)
qed

text \<open>The loop of \<open>str_copy\<close>: \<open>to\<close> bytes of the buffer are written, and \<open>k\<close> counts the variables.
  The result is the buffer and the number of bytes; \<open>None\<close> is failure, outer \<open>None\<close> a store outside of
  the buffer or an undefined lookup.\<close>

function copy_loop_conf ::
  "(nat \<Rightarrow> byte_env) \<Rightarrow> CONF \<Rightarrow> bytes option \<Rightarrow> nat \<Rightarrow> BUF_MEM \<Rightarrow> nat \<Rightarrow> bytes \<Rightarrow> (BUF_MEM \<times> nat) option option" where
  "copy_loop_conf env conf sec k buf to s =
    (case s of [] \<Rightarrow> Some (Some (buf, to))
     | c # s' \<Rightarrow>
       if IS_QUOTE c then
         (let (out, rest) = copy_quote c s'
          in case buf_store buf to out of None \<Rightarrow> None
             | Some buf \<Rightarrow> copy_loop_conf env conf sec k buf (to + length out) rest)
       else if IS_DQUOTE c then
         (let (out, rest) = copy_dquote c s'
          in case buf_store buf to out of None \<Rightarrow> None
             | Some buf \<Rightarrow> copy_loop_conf env conf sec k buf (to + length out) rest)
       else if IS_ESC c then
         (let v = cur s'
          in if IS_EOF v then Some (Some (buf, to))
             else case buf_store buf to [unescape v] of None \<Rightarrow> None
                | Some buf \<Rightarrow> copy_loop_conf env conf sec k buf (to + 1) (tl s'))
       else if IS_EOF c then Some (Some (buf, to))
       else if c = 36 then
         (case variable_ref sec s' of None \<Rightarrow> Some None
          | Some (cp, np, e) \<Rightarrow>
            (case NCONF_get_string conf cp (Some np) of
               None \<Rightarrow> None
             | Some (Values sk) \<Rightarrow> None
             | Some No_value \<Rightarrow> Some None
             | Some (Str p) \<Rightarrow>
                 let newsize = of_nat (length p) + buf_length buf - of_nat (Suc (length s') - length e)
                 in if MAX_CONF_VALUE_LENGTH < newsize then Some None
                    else case BUF_MEM_grow_clean (env k) buf newsize of (buf, grown) \<Rightarrow>
                      if grown = 0 then Some None
                      else case buf_store buf to p of None \<Rightarrow> None
                         | Some buf \<Rightarrow> copy_loop_conf env conf sec (Suc k) buf (to + length p) e))
       else (case buf_store buf to [c] of None \<Rightarrow> None
             | Some buf \<Rightarrow> copy_loop_conf env conf sec k buf (to + 1) s'))"
  by pat_completeness auto
termination
  by (relation "measure (\<lambda>(env, conf, sec, k, buf, to, s). length s)")
    (auto simp: le_imp_less_Suc dest!: variable_ref_le copied_le)

text \<open>The bytes of the string that starts at an index of the buffer.\<close>

definition cstring :: "BUF_MEM \<Rightarrow> nat \<Rightarrow> bytes" where
  "cstring buf i = takeWhile (\<lambda>b. b \<noteq> 0) (drop i (buf_data buf))"

text \<open>\<open>str_copy\<close>: the new string, \<open>None\<close> for failure, outer \<open>None\<close> for undefined behaviour. \<open>new_ok\<close> is
  the allocation of the buffer object, \<open>env 0\<close> that of its first block.\<close>

definition str_copy ::
  "bool \<Rightarrow> (nat \<Rightarrow> byte_env) \<Rightarrow> CONF \<Rightarrow> bytes option \<Rightarrow> bytes \<Rightarrow> bytes option option" where
  "str_copy new_ok env conf sec from =
    (case BUF_MEM_new new_ok of None \<Rightarrow> Some None
     | Some buf \<Rightarrow>
       (case BUF_MEM_grow (env 0) buf (of_nat (length from + 1)) of (buf, grown) \<Rightarrow>
          if grown = 0 then Some None
          else case copy_loop_conf env conf sec 1 buf 0 from of
            None \<Rightarrow> None
          | Some None \<Rightarrow> Some None
          | Some (Some (buf, to)) \<Rightarrow>
              (case buf_store buf to [0] of None \<Rightarrow> None | Some buf \<Rightarrow> Some (Some (cstring buf 0)))))"

section \<open>Lines\<close>

text \<open>The search for the bracket that closes a section name: the end of the name.\<close>

function find_bracket :: "bytes \<Rightarrow> bytes option" where
  "find_bracket ss =
    (let end = eat_alpha_numeric ss; p = eat_ws end
     in if cur p \<noteq> 93
        then (if cur p \<noteq> 0 \<and> length p \<noteq> length ss then find_bracket p else None)
        else Some end)"
  by pat_completeness auto
termination
proof (relation "measure length", simp)
  fix ss :: bytes and e p
  assume "e = eat_alpha_numeric ss" "p = eat_ws e" "cur p \<noteq> 93" "cur p \<noteq> 0 \<and> length p \<noteq> length ss"
  then show "(p, ss) \<in> measure length"
    using eat_ws_le [of e] eat_alpha_numeric_le [of ss] by simp
qed

text \<open>A value: the loop that steps back from the end of the line over white space, not in front of
  its first character.\<close>

definition trim_value :: "bytes \<Rightarrow> bytes" where
  "trim_value start = (case start of [] \<Rightarrow> [] | c # s \<Rightarrow> c # rev (dropWhile IS_WS (rev s)))"

definition upto_ptr :: "bytes \<Rightarrow> bytes \<Rightarrow> bytes" where
  "upto_ptr s e = take (length s - length e) s"

datatype line = Blank | Header bytes | Missing_bracket | Assign "bytes option" bytes bytes | Missing_equal

text \<open>One logical line: the part of \<open>def_load_bio\<close> between the reader and the table.\<close>

definition parse_line :: "bytes \<Rightarrow> line" where
  "parse_line buf =
    (let s = eat_ws (clear_comments buf)
     in if IS_EOF (cur s) then Blank
        else if cur s = 91 then
          (let start = eat_ws (tl s)
           in case find_bracket start of None \<Rightarrow> Missing_bracket | Some end \<Rightarrow> Header (upto_ptr start end))
        else
          (let end = eat_alpha_numeric s;
               (psection, pname, end) =
                 (if cur end = 58 \<and> cur (tl end) = 58
                  then (Some (upto_ptr s end), tl (tl end), eat_alpha_numeric (tl (tl end)))
                  else (None, s, end));
               p = eat_ws end
           in if cur p \<noteq> 61 then Missing_equal
              else Assign psection (upto_ptr pname end) (trim_value (eat_ws (tl p)))))"

text \<open>What the allocator gives the handling of one line.\<close>

record line_env =
  copy_new_ok :: bool
  copy_mem :: "nat \<Rightarrow> byte_env"
  cv_addr :: ptr
  name_ok :: bool
  new_sec :: section_env
  new_str :: string_env

text \<open>Entering a section: the section's object, made if it does not exist.\<close>

definition open_section :: "section_env \<Rightarrow> CONF \<Rightarrow> bytes \<Rightarrow> ptr run" where
  "open_section env c sec = (case get_section c (Some sec) of
     None \<Rightarrow> Crash
   | Some p \<Rightarrow> if p = 0 then NCONF_new_section env c sec else Run c (Some p))"

text \<open>The clean-up of a failed assignment frees the value object.\<close>

definition drop_value :: "CONF \<Rightarrow> ptr \<Rightarrow> CONF" where
  "drop_value c v = c\<lparr>vals := (vals c)(v := None)\<rparr>"

definition assign :: "line_env \<Rightarrow> CONF \<Rightarrow> bytes \<Rightarrow> ptr \<Rightarrow> bytes option \<Rightarrow> bytes \<Rightarrow> bytes \<Rightarrow> unit run" where
  "assign env c sec sv psection pname start =
    (case CONF_VALUE_new (cv_addr env) c of (c, v) \<Rightarrow>
       if v = 0 then Run c None
       else let psec = (case psection of None \<Rightarrow> sec | Some x \<Rightarrow> x)
         in if \<not> name_ok env then Run (drop_value c v) None
            else let c = c\<lparr>vals := (vals c)(v \<mapsto> zero_value\<lparr>v_name := Some pname\<rparr>)\<rparr>
              in case str_copy (copy_new_ok env) (copy_mem env) c (Some psec) start of
                   None \<Rightarrow> Crash
                 | Some None \<Rightarrow> Run (drop_value c v) None
                 | Some (Some text) \<Rightarrow>
                     let c = c\<lparr>vals := (vals c)(v \<mapsto> zero_value\<lparr>v_name := Some pname, v_value := Str text\<rparr>)\<rparr>
                     in case (if psec \<noteq> sec then open_section (new_sec env) c psec else Run c (Some sv)) of
                          Crash \<Rightarrow> Crash
                        | Run c None \<Rightarrow> Run (drop_value c v) None
                        | Run c (Some tv) \<Rightarrow>
                            (case add_string (new_str env) c tv v of
                               Crash \<Rightarrow> Crash
                             | Run c None \<Rightarrow> Run (drop_value c v) None
                             | Run c (Some u) \<Rightarrow> Run c (Some u)))"

text \<open>The current section is its name and its object.\<close>

definition do_line :: "line_env \<Rightarrow> CONF \<Rightarrow> bytes \<times> ptr \<Rightarrow> bytes \<Rightarrow> (bytes \<times> ptr) run" where
  "do_line env c cs buf = (case cs of (sec, sv) \<Rightarrow>
     (case parse_line buf of
        Blank \<Rightarrow> Run c (Some (sec, sv))
      | Missing_bracket \<Rightarrow> Run c None
      | Missing_equal \<Rightarrow> Run c None
      | Header start \<Rightarrow>
          (case str_copy (copy_new_ok env) (copy_mem env) c None start of
             None \<Rightarrow> Crash
           | Some None \<Rightarrow> Run c None
           | Some (Some sec) \<Rightarrow>
               (case open_section (new_sec env) c sec of
                  Crash \<Rightarrow> Crash
                | Run c None \<Rightarrow> Run c None
                | Run c (Some sv) \<Rightarrow> Run c (Some (sec, sv))))
      | Assign psection pname start \<Rightarrow>
          (case assign env c sec sv psection pname start of
             Crash \<Rightarrow> Crash
           | Run c None \<Rightarrow> Run c None
           | Run c (Some _) \<Rightarrow> Run c (Some (sec, sv)))))"

section \<open>Loading\<close>

definition CONFBUFSIZE :: nat where
  "CONFBUFSIZE = 512"

definition is_newline :: "u8 \<Rightarrow> bool" where
  "is_newline c \<longleftrightarrow> c = 13 \<or> c = 10"

text \<open>One round of the reader: the buffer, the number of bytes of the logical line read so far,
  \<open>again\<close>, the line count and the input. \<open>bio_gets\<close> is the input's \<open>BIO_gets\<close>: the bytes it stores, which a
  zero follows, and the input behind them. \<open>Round_end\<close> is the end of the input.\<close>

datatype 'bio round = Round_crash | Round_fail | Round_end | Round BUF_MEM nat bool nat 'bio

definition read_round ::
  "('bio \<Rightarrow> nat \<Rightarrow> bytes \<times> 'bio) \<Rightarrow> byte_env \<Rightarrow> BUF_MEM \<Rightarrow> nat \<Rightarrow> bool \<Rightarrow> nat \<Rightarrow> 'bio \<Rightarrow> 'bio round" where
  "read_round bio_gets env buff bufnum again eline bio =
    (case BUF_MEM_grow env buff (of_nat (bufnum + CONFBUFSIZE)) of (buff, grown) \<Rightarrow>
       if grown = 0 then Round_fail
       else case bio_gets bio (CONFBUFSIZE - 1) of (chunk, bio) \<Rightarrow>
         (case Option.bind (buf_store buff bufnum [0])
            (\<lambda>buff. Option.bind (buf_store buff bufnum (chunk @ [0]))
              (\<lambda>buff. buf_store buff (bufnum + CONFBUFSIZE - 1) [0])) of
            None \<Rightarrow> Round_crash
          | Some buff \<Rightarrow>
              let text = cstring buff bufnum;
                  ii = length text;
                  i = length (rev (dropWhile is_newline (rev text)))
              in if ii = 0 \<and> \<not> again then Round_end
                 else let long = (ii \<noteq> 0 \<and> i = ii)
                   in case (if long then Some buff else buf_store buff (bufnum + i) [0]) of
                        None \<Rightarrow> Round_crash
                      | Some buff \<Rightarrow>
                          let eline = (if long then eline else eline + 1);
                              bufnum = bufnum + i;
                              continued = (1 \<le> bufnum \<and> IS_ESC (buf_data buff ! (bufnum - 1)) \<and>
                                (bufnum \<le> 1 \<or> \<not> IS_ESC (buf_data buff ! (bufnum - 2))))
                          in Round buff (if continued then bufnum - 1 else bufnum) (long \<or> continued) eline bio))"

datatype load_result = Loaded CONF | Load_error CONF nat | Load_crash

text \<open>The allocator of a load: for every round, the growth of the line buffer and the handling of the
  line.\<close>

record load_env =
  section_ok :: bool
  default_env :: section_env
  buff_ok :: bool
  grow_mem :: "nat \<Rightarrow> byte_env"
  line_mem :: "nat \<Rightarrow> line_env"

text \<open>The loop, with the number of rounds before: \<open>None\<close> is an input that does not end.\<close>

partial_function (option) load_loop ::
  "('bio \<Rightarrow> nat \<Rightarrow> bytes \<times> 'bio) \<Rightarrow> load_env \<Rightarrow> nat \<Rightarrow> CONF \<Rightarrow> bytes \<times> ptr \<Rightarrow> BUF_MEM \<Rightarrow> nat \<Rightarrow> bool \<Rightarrow>
    nat \<Rightarrow> 'bio \<Rightarrow> load_result option" where
  [code]: "load_loop bio_gets env r c cs buff bufnum again eline bio =
    (case read_round bio_gets (grow_mem env r) buff bufnum again eline bio of
       Round_crash \<Rightarrow> Some Load_crash
     | Round_fail \<Rightarrow> Some (Load_error c eline)
     | Round_end \<Rightarrow> Some (Loaded c)
     | Round buff bufnum again eline bio \<Rightarrow>
         if again then load_loop bio_gets env (r + 1) c cs buff bufnum again eline bio
         else (case do_line (line_mem env r) c cs (cstring buff 0) of
             Crash \<Rightarrow> Some Load_crash
           | Run c None \<Rightarrow> Some (Load_error c eline)
           | Run c (Some cs) \<Rightarrow> load_loop bio_gets env (r + 1) c cs buff 0 False eline bio))"

definition default_section :: bytes where
  "default_section = [100, 101, 102, 97, 117, 108, 116]"

definition def_load_bio ::
  "('bio \<Rightarrow> nat \<Rightarrow> bytes \<times> 'bio) \<Rightarrow> load_env \<Rightarrow> CONF \<Rightarrow> 'bio \<Rightarrow> load_result option" where
  "def_load_bio bio_gets env c bio =
    (case BUF_MEM_new (buff_ok env) of None \<Rightarrow> Some (Load_error c 0)
     | Some buff \<Rightarrow>
       if \<not> section_ok env then Some (Load_error c 0)
       else case NCONF_new_section (default_env env) c default_section of
         Crash \<Rightarrow> Some Load_crash
       | Run c None \<Rightarrow> Some (Load_error c 0)
       | Run c (Some sv) \<Rightarrow> load_loop bio_gets env 0 c (default_section, sv) buff 0 False 0 bio)"

definition NCONF_load_bio ::
  "('bio \<Rightarrow> nat \<Rightarrow> bytes \<times> 'bio) \<Rightarrow> load_env \<Rightarrow> CONF \<Rightarrow> 'bio \<Rightarrow> load_result option" where
  "NCONF_load_bio bio_gets env c bio = def_load_bio bio_gets env c bio"

section \<open>Lists\<close>

definition isspace :: "u8 \<Rightarrow> bool" where
  "isspace c \<longleftrightarrow> c = 32 \<or> (9 \<le> c \<and> c \<le> 13)"

text \<open>\<open>CONF_parse_list\<close>: the callback gets an element, \<open>None\<close> for \<open>NULL\<close>, and its own state. The separator is
  not zero.\<close>

function parse_members ::
  "u8 \<Rightarrow> bool \<Rightarrow> (bytes option \<Rightarrow> 'usr \<Rightarrow> int \<times> 'usr) \<Rightarrow> 'usr \<Rightarrow> bytes \<Rightarrow> int \<times> 'usr" where
  "parse_members sep ws list_cb arg list =
    (let lstart = (if ws then dropWhile isspace list else list);
         member = takeWhile (\<lambda>c. c \<noteq> sep) lstart;
         p = dropWhile (\<lambda>c. c \<noteq> sep) lstart;
         elem = (if member = [] then None
                 else Some (if ws then rev (dropWhile isspace (rev member)) else member))
     in case list_cb elem arg of (ret, arg) \<Rightarrow>
          if ret \<le> 0 then (ret, arg)
          else if p = [] then (1, arg)
          else parse_members sep ws list_cb arg (tl p))"
  by pat_completeness auto
termination
proof (relation "measure (\<lambda>(sep, ws, cb, arg, list). length list)", simp)
  fix sep ws and list_cb :: "bytes option \<Rightarrow> 'usr \<Rightarrow> int \<times> 'usr" and arg arg' :: 'usr and list lstart p :: bytes
  assume "lstart = (if ws then dropWhile isspace list else list)" "p = dropWhile (\<lambda>c. c \<noteq> sep) lstart" "p \<noteq> []"
  then have "length p \<le> length list" "0 < length p"
    by (auto intro: order.trans [OF length_dropWhile_le length_dropWhile_le] simp: length_dropWhile_le)
  then show "((sep, ws, list_cb, arg', tl p), sep, ws, list_cb, arg, list) \<in> measure (\<lambda>(sep, ws, cb, arg, list). length list)"
    by (cases p) auto
qed

definition CONF_parse_list ::
  "bytes option \<Rightarrow> u8 \<Rightarrow> bool \<Rightarrow> (bytes option \<Rightarrow> 'usr \<Rightarrow> int \<times> 'usr) \<Rightarrow> 'usr \<Rightarrow> int \<times> 'usr" where
  "CONF_parse_list list sep ws list_cb arg =
    (case list of None \<Rightarrow> (0, arg) | Some l \<Rightarrow> parse_members sep ws list_cb arg l)"

end
