(* ===== verification/ConfTable.thy ===== *)
theory ConfTable
  imports Conf LhashHistory StackProps
begin

text \<open>
  The table of a configuration: its hash and comparison functions meet the contract of the hash table on
  objects that have a section name, so lookups and insertions are those of a map from section and name to
  object. \<open>conf_ok\<close> is the invariant of a loaded configuration.
\<close>

lemma strcmp_zero: "strcmp x y = 0 \<longleftrightarrow> x = y"
  by (induction x y rule: strcmp.induct) auto

lemma compare_names_zero: "compare_names a b = 0 \<longleftrightarrow> a = b"
  by (auto simp: compare_names_def strcmp_zero split: option.splits)

lemma conf_value_cmp_zero:
  assumes "v_section a \<noteq> None" "v_section b \<noteq> None"
  shows "\<exists>i. conf_value_cmp a b = Some i \<and> (i = 0 \<longleftrightarrow> v_section a = v_section b \<and> v_name a = v_name b)"
  using assms by (auto simp: conf_value_cmp_def Let_def strcmp_zero compare_names_zero)

definition conf_key :: "(ptr \<Rightarrow> CONF_VALUE option) \<Rightarrow> ptr \<Rightarrow> bytes option \<times> bytes option" where
  "conf_key h p = (v_section (value_at h p), v_name (value_at h p))"

definition has_section :: "(ptr \<Rightarrow> CONF_VALUE option) \<Rightarrow> ptr \<Rightarrow> bool" where
  "has_section h p \<longleftrightarrow> v_section (value_at h p) \<noteq> None"

interpretation conf_values: hash_contract "hash_in h" "cmp_in h" "conf_key h" "has_section h"
  for h :: "ptr \<Rightarrow> CONF_VALUE option"
proof
  show "cmp_in h x y = 0 \<longleftrightarrow> conf_key h x = conf_key h y" if "has_section h x" "has_section h y" for x y
    using conf_value_cmp_zero [of "value_at h x" "value_at h y"] that
    by (auto simp: cmp_in_def conf_key_def has_section_def)
  show "hash_in h x = hash_in h y" if "conf_key h x = conf_key h y" for x y
    using that by (simp add: conf_key_def hash_in_def conf_value_hash_def)
qed

text \<open>A lookup of \<open>NULL\<close> as a section compares it with whatever is in its bucket.\<close>

lemma null_section_undefined:
  "v_section a \<noteq> None \<Longrightarrow> v_section b = None \<Longrightarrow> conf_value_cmp a b = None"
  by (auto simp: conf_value_cmp_def)

section \<open>Changes of the heap\<close>

text \<open>The table does not see changes of objects that are not in it, nor of the value of one that is.\<close>

definition same_keys :: "LHASH \<Rightarrow> (ptr \<Rightarrow> CONF_VALUE option) \<Rightarrow> (ptr \<Rightarrow> CONF_VALUE option) \<Rightarrow> bool" where
  "same_keys lh h h' \<longleftrightarrow> (\<forall>it\<in>set (lh_items lh). conf_key h' (data it) = conf_key h (data it))"

lemma same_keys_eqs:
  assumes "conf_key h' p = conf_key h p"
  shows "hash_in h' p = hash_in h p" "has_section h' p = has_section h p"
  using assms by (simp_all add: conf_key_def hash_in_def conf_value_hash_def has_section_def)

lemma inv_same_keys:
  assumes "same_keys lh h h'"
  shows "lh_inv (hash_in h') (conf_key h') (has_section h') lh = lh_inv (hash_in h) (conf_key h) (has_section h) lh"
    "lh_map (conf_key h') lh = lh_map (conf_key h) lh"
proof -
  have k: "conf_key h' (data it) = conf_key h (data it)" if "it \<in> set (lh_items lh)" for it
    using assms that by (simp add: same_keys_def)
  have m: "map (\<lambda>it. conf_key h' (data it)) (lh_items lh) = map (\<lambda>it. conf_key h (data it)) (lh_items lh)"
    using k by simp
  show "lh_inv (hash_in h') (conf_key h') (has_section h') lh = lh_inv (hash_in h) (conf_key h) (has_section h) lh"
    using k same_keys_eqs [OF k] unfolding lh_inv_def items_ok_def m by auto
  show "lh_map (conf_key h') lh = lh_map (conf_key h) lh"
    using k by (simp add: lh_map_def items_map_def cong: map_cong)
qed

section \<open>The invariant\<close>

definition conf_map :: "CONF \<Rightarrow> bytes option \<times> bytes option \<Rightarrow> ptr option" where
  "conf_map c = lh_map (conf_key (vals c)) (table c)"

definition table_ok :: "CONF \<Rightarrow> bool" where
  "table_ok c \<longleftrightarrow> lh_inv (hash_in (vals c)) (conf_key (vals c)) (has_section (vals c)) (table c) \<and>
     (\<forall>it\<in>set (lh_items (table c)). data it \<noteq> 0 \<and> vals c (data it) \<noteq> None)"

definition nodes :: "CONF \<Rightarrow> ptr set" where
  "nodes c = addr ` set (lh_items (table c))"

definition objects :: "CONF \<Rightarrow> ptr set" where
  "objects c = data ` set (lh_items (table c))"

lemma table_key:
  assumes "table_ok c" "conf_map c k = Some p"
  shows "p \<noteq> 0 \<and> vals c p \<noteq> None \<and> conf_key (vals c) p = k \<and> p \<in> data ` set (lh_items (table c))"
proof -
  have "distinct (map (\<lambda>it. conf_key (vals c) (data it)) (lh_items (table c)))"
    using assms(1) by (simp add: table_ok_def lh_inv_def items_ok_def)
  then obtain it where "it \<in> set (lh_items (table c))" "conf_key (vals c) (data it) = k" "data it = p"
    using assms(2) items_map_iff [of "conf_key (vals c)"] by (auto simp: conf_map_def lh_map_def)
  then show ?thesis using assms(1) by (auto simp: table_ok_def)
qed

lemma table_mem:
  assumes "table_ok c" "it \<in> set (lh_items (table c))"
  shows "conf_map c (conf_key (vals c) (data it)) = Some (data it)"
proof -
  have "distinct (map (\<lambda>it. conf_key (vals c) (data it)) (lh_items (table c)))"
    using assms(1) by (simp add: table_ok_def lh_inv_def items_ok_def)
  then show ?thesis
    using assms(2) items_map_iff [of "conf_key (vals c)"] by (auto simp: conf_map_def lh_map_def)
qed

lemma objects_map:
  assumes "table_ok c"
  shows "objects c = ran (conf_map c)"
proof
  show "objects c \<subseteq> ran (conf_map c)" using table_mem [OF assms] by (auto simp: objects_def intro: ranI)
  show "ran (conf_map c) \<subseteq> objects c" using table_key [OF assms] by (auto simp: objects_def ran_def)
qed

text \<open>Every comparison of a search among objects with sections is defined.\<close>

lemma probe_defined:
  assumes "lh_inv (hash_in h) (conf_key h) (has_section h) lh" "has_section h p"
  shows "probe_ok h lh p"
proof -
  let ?b = "bucket_of (hash_in h p) (num_buckets lh)"
  have "conf_value_cmp (value_at h (data it)) (value_at h p) \<noteq> None" if "it \<in> set (buckets lh ! ?b)" for it
  proof -
    have "it \<in> set (lh_items lh)" using conf_values.own_bucket(3) [OF assms] that by blast
    then have "has_section h (data it)" using assms(1) by (auto simp: lh_inv_def items_ok_def)
    then show ?thesis
      using conf_value_cmp_zero [of "value_at h (data it)" "value_at h p"] assms(2) by (auto simp: has_section_def)
  qed
  then show ?thesis
    by (auto simp: probe_ok_def get_next_ptr_and_hash_def Let_def list_all_iff dest: in_set_takeD)
qed

lemma lookup_spec:
  assumes "table_ok c" "v_section t \<noteq> None"
  shows "lookup c t = Some (found (conf_map c) (v_section t, v_name t))"
proof -
  let ?h = "(vals c)(0 \<mapsto> t)"
  have s: "same_keys (table c) (vals c) ?h"
    using assms(1) by (auto simp: same_keys_def table_ok_def conf_key_def value_at_def)
  have i: "lh_inv (hash_in ?h) (conf_key ?h) (has_section ?h) (table c)"
    using assms(1) inv_same_keys(1) [OF s] by (simp add: table_ok_def)
  have v: "has_section ?h 0" "conf_key ?h 0 = (v_section t, v_name t)"
    using assms(2) by (simp_all add: has_section_def conf_key_def value_at_def)
  show ?thesis
    using probe_defined [OF i v(1)] conf_values.retrieve [OF i v(1), of "\<lambda>f. hash_in ?h" "\<lambda>f. cmp_in ?h"]
      inv_same_keys(2) [OF s] v(2)
    by (simp add: lookup_def Let_def conf_map_def found_def split: option.splits)
qed


lemma conf_insert_defined:
  assumes "table_ok c" "vals c p = Some v" "v_section v \<noteq> None"
  shows "\<exists>c' old ok. conf_insert env c p = Some (c', old, ok)"
proof -
  have "has_section (vals c) p" using assms(2,3) by (simp add: has_section_def value_at_def)
  then show ?thesis
    using probe_defined [of "vals c" "table c" p] assms(1)
    by (auto simp: conf_insert_def table_ok_def split: prod.splits)
qed

lemma conf_insert_spec:
  assumes "conf_insert env c p = Some (c', old, ok)"
    and "table_ok c" "vals c p = Some v" "v_section v \<noteq> None" "p \<noteq> 0"
    and "item_addr env \<notin> addr ` set (lh_items (table c))"
  shows "vals c' = vals c \<and>
    (if ok then table_ok c' \<and> conf_map c' = (conf_map c)((v_section v, v_name v) \<mapsto> p) \<and>
       old = found (conf_map c) (v_section v, v_name v)
     else c' = c \<and> old = 0) \<and> (item_addr env \<noteq> 0 \<longrightarrow> ok) \<and> nodes c' \<subseteq> insert (item_addr env) (nodes c)"
proof -
  have i: "lh_inv (hash_in (vals c)) (conf_key (vals c)) (has_section (vals c)) (table c)"
    using assms(2) by (simp add: table_ok_def)
  have v: "has_section (vals c) p" "conf_key (vals c) p = (v_section v, v_name v)"
    using assms(3,4) by (simp_all add: has_section_def conf_key_def value_at_def)
  obtain lh' where r: "lh_insert (\<lambda>f. hash_in (vals c)) (\<lambda>f. cmp_in (vals c)) env (table c) p = (lh', old, ok)"
    and c': "c' = c\<lparr>table := lh'\<rparr>"
    using assms(1) by (auto simp: conf_insert_def split: if_splits prod.splits)
  note sp = conf_values.insert [OF i v(1) _ _ assms(6) r, OF refl refl]
  have "nodes c' \<subseteq> insert (item_addr env) (nodes c)"
    using conf_values.insert_addrs [OF i v(1) _ _ assms(6) r, OF refl refl] by (simp add: nodes_def c')
  moreover have "item_addr env \<noteq> 0 \<longrightarrow> ok"
    using r by (auto simp: lh_insert_def Let_def split: prod.splits option.splits if_splits)
  moreover have "table_ok c'" if ok
  proof -
    have "data it \<noteq> 0 \<and> vals c (data it) \<noteq> None" if "it \<in> set (lh_items lh')" for it
    proof -
      have "distinct (map (\<lambda>it. conf_key (vals c) (data it)) (lh_items lh'))"
        using sp \<open>ok\<close> by (simp add: lh_inv_def items_ok_def)
      then have "lh_map (conf_key (vals c)) lh' (conf_key (vals c) (data it)) = Some (data it)"
        using that items_map_iff [of "conf_key (vals c)" "lh_items lh'"] by (auto simp: lh_map_def)
      then have "data it = p \<or> conf_map c (conf_key (vals c) (data it)) = Some (data it)"
        using sp \<open>ok\<close> by (auto simp: conf_map_def split: if_splits)
      then show ?thesis
        using assms(3,5) table_key [OF assms(2), of "conf_key (vals c) (data it)" "data it"] by auto
    qed
    then show ?thesis using sp that by (simp add: table_ok_def c')
  qed
  ultimately show ?thesis
    using sp v by (auto simp: conf_map_def found_def c' split: if_splits)
qed

section \<open>Stacks of values\<close>

lemma push_elems:
  assumes "stack_ok sk"
  shows "sk_push env sk p = (Some sk, 0) \<or>
    (\<exists>sk' n. sk_push env sk p = (Some sk', n) \<and> n \<noteq> 0 \<and> stack_ok sk' \<and> elems sk' = elems sk @ [p])"
proof -
  have n: "num sk + 1 \<noteq> 0" using num_plus_1 [OF assms] by auto
  have t: "take (unat (num sk)) (elems sk) = elems sk" "drop (unat (num sk)) (elems sk) = []"
    using length_elems [OF assms] by simp_all
  show ?thesis
    using sk_insert_list [OF assms, of env p "num sk"] n t by (auto simp: sk_push_def Let_def)
qed

lemma delete_elems:
  assumes "stack_ok sk" "p \<in> set (elems sk)"
  shows "\<exists>sk'. fst (sk_delete_ptr (Some sk) p) = Some sk' \<and> stack_ok sk' \<and> elems sk' = remove1 p (elems sk)"
proof -
  have len: "length (elems sk) = unat (num sk)" by (rule length_elems [OF assms(1)])
  obtain k where k: "k < unat (num sk)" "entries sk ! k = p"
    using assms(2) len nth_elems by (metis in_set_conv_nth)
  have sp: "case first_index (\<lambda>e. e = p) (entries sk) 0 (num sk) of
      None \<Rightarrow> \<forall>k. k < unat (num sk) \<longrightarrow> entries sk ! k \<noteq> p
    | Some j \<Rightarrow> j < num sk \<and> entries sk ! unat j = p \<and> (\<forall>k < unat j. entries sk ! k \<noteq> p)"
    using first_index_spec [where test = "\<lambda>e. e = p" and xs = "entries sk" and i = 0 and n = "num sk"]
    by (auto split: option.splits)
  then obtain j where j: "first_index (\<lambda>e. e = p) (entries sk) 0 (num sk) = Some j"
      "j < num sk" "entries sk ! unat j = p" "\<forall>k < unat j. entries sk ! k \<noteq> p"
    using k by (auto split: option.splits)
  obtain sk' where d: "sk_delete (Some sk) j = (Some sk', elems sk ! unat j)" "stack_ok sk'"
      "elems sk' = take (unat j) (elems sk) @ drop (Suc (unat j)) (elems sk)"
    using sk_delete_list [OF assms(1) j(2)] by blast
  have jl: "unat j < length (elems sk)" using j(2) len by (simp add: word_less_nat_alt)
  have "p \<notin> set (take (unat j) (elems sk))"
    using j(4) jl len by (auto simp: in_set_conv_nth nth_elems)
  moreover have "elems sk = take (unat j) (elems sk) @ p # drop (Suc (unat j)) (elems sk)"
    using id_take_nth_drop [OF jl] j(3) jl len by (simp add: nth_elems)
  ultimately have "remove1 p (elems sk) = take (unat j) (elems sk) @ drop (Suc (unat j)) (elems sk)"
    by (metis remove1.simps(2) remove1_append)
  then show ?thesis using d j(1) by (simp add: sk_delete_ptr_def)
qed

text \<open>How far the stack of a section has grown after \<open>n\<close> insertions into stacks.\<close>

definition stack_small :: "nat \<Rightarrow> STACK \<Rightarrow> bool" where
  "stack_small n sk \<longleftrightarrow> unat (num sk) \<le> n \<and> unat (num_alloc sk) \<le> 2 * n + 4"

definition stacks_small :: "nat \<Rightarrow> (ptr \<Rightarrow> CONF_VALUE option) \<Rightarrow> bool" where
  "stacks_small n h \<longleftrightarrow> (\<forall>p sk. v_value (value_at h p) = Values sk \<longrightarrow> stack_small n sk)"

lemma stack_small_mono: "stack_small n sk \<Longrightarrow> n \<le> m \<Longrightarrow> stack_small m sk"
  by (simp add: stack_small_def)

lemma push_small:
  assumes "stack_ok sk" "stack_small n sk" "n < 2 ^ 58" "sk_push env sk p = (Some sk', m)"
  shows "stack_small (n + 1) sk' \<and> (granted env = (\<lambda>n. True) \<longrightarrow> m \<noteq> 0)"
proof (cases "num_alloc sk \<le> num sk + 1")
  case False
  then have g: "sk_grow env sk = Some sk" by (simp add: sk_grow_def)
  show ?thesis
    using assms g num_plus_1 [OF assms(1)]
    by (auto simp: sk_push_def sk_insert_def Let_def stack_small_def)
next
  case True
  have a: "unat (num_alloc sk) \<le> unat (num sk) + 1"
    using True num_plus_1 [OF assms(1)] by (simp add: word_le_nat_alt)
  let ?na = "push_bit 1 (num_alloc sk)"
  have d: "unat ?na = 2 * unat (num_alloc sk)" by (rule double [OF assms(1)])
  have sz: "?na * 8 div 8 = ?na" unfolding size_fits d using assms(2,3) by (simp add: stack_small_def)
  have nl: "\<not> ?na < num_alloc sk" unfolding word_less_nat_alt d by simp
  have g: "sk_grow env sk = (if granted env (?na * 8)
      then Some (sk\<lparr>entries := resize env ?na (entries sk), num_alloc := ?na\<rparr>) else None)"
    using True sz nl by (simp add: sk_grow_def Let_def)
  show ?thesis
    using assms g d a num_plus_1 [OF assms(1)]
    by (auto simp: sk_push_def sk_insert_def Let_def stack_small_def split: if_splits)
qed

lemma delete_small:
  assumes "stack_ok sk" "stack_small n sk" "sk_delete_ptr (Some sk) p = (Some sk', q)"
  shows "stack_small n sk'"
proof -
  have d: "unat (num sk - 1) \<le> unat (num sk)" if "num sk \<noteq> 0"
    using unat_dec [OF that] by simp
  have "sk' = sk \<or> (num sk \<noteq> 0 \<and> num sk' = num sk - 1 \<and> num_alloc sk' = num_alloc sk)"
    using assms(3) by (auto simp: sk_delete_ptr_def sk_delete_def Let_def split: option.splits if_splits)
  then show ?thesis using assms(2) d unfolding stack_small_def by fastforce
qed

section \<open>The configuration as a store\<close>

text \<open>A store has sections, and in them strings by name.\<close>

type_synonym store = "bytes \<Rightarrow> (bytes \<Rightarrow> bytes option) option"

definition str_of :: "CONF_VALUE \<Rightarrow> bytes option" where
  "str_of v = (case v_value v of Str x \<Rightarrow> Some x | _ \<Rightarrow> None)"

definition conf_store :: "CONF \<Rightarrow> store" where
  "conf_store c s =
    (if conf_map c (Some s, None) = None then None
     else Some (\<lambda>n. case conf_map c (Some s, Some n) of None \<Rightarrow> None | Some p \<Rightarrow> str_of (value_at (vals c) p)))"

text \<open>The objects of the strings of a section are those on its stack.\<close>

definition lists_strings :: "CONF \<Rightarrow> bytes \<Rightarrow> CONF_VALUE \<Rightarrow> bool" where
  "lists_strings c s v \<longleftrightarrow> (\<exists>sk. v_value v = Values sk \<and> stack_ok sk \<and> distinct (elems sk) \<and>
     set (elems sk) = {q. \<exists>n. conf_map c (Some s, Some n) = Some q})"

definition conf_ok :: "CONF \<Rightarrow> bool" where
  "conf_ok c \<longleftrightarrow> table_ok c \<and>
     (\<forall>s p. conf_map c (Some s, None) = Some p \<longrightarrow> lists_strings c s (value_at (vals c) p)) \<and>
     (\<forall>s n p. conf_map c (Some s, Some n) = Some p \<longrightarrow>
        str_of (value_at (vals c) p) \<noteq> None \<and> conf_map c (Some s, None) \<noteq> None)"

lemma get_string_store:
  assumes "conf_ok c"
  shows "NCONF_get_string c (Some s) (Some n) =
    Some (case conf_store c s of None \<Rightarrow> No_value | Some m \<Rightarrow> (case m n of None \<Rightarrow> No_value | Some x \<Rightarrow> Str x))"
proof -
  have t: "table_ok c" using assms by (simp add: conf_ok_def)
  show ?thesis
  proof (cases "conf_map c (Some s, Some n)")
    case None
    then show ?thesis
      by (simp add: NCONF_get_string_def lookup_spec [OF t] found_def conf_store_def)
  next
    case (Some p)
    then have "str_of (value_at (vals c) p) \<noteq> None" "conf_map c (Some s, None) \<noteq> None" "p \<noteq> 0"
      using assms table_key [OF t] by (auto simp: conf_ok_def)
    then show ?thesis
      using Some
      by (auto simp: NCONF_get_string_def lookup_spec [OF t] found_def conf_store_def str_of_def split: conf_data.splits)
  qed
qed

lemma get_section_store:
  assumes "conf_ok c"
  shows "\<exists>p. get_section c (Some s) = Some p \<and> (p = 0 \<longleftrightarrow> conf_store c s = None) \<and>
    (p \<noteq> 0 \<longrightarrow> conf_map c (Some s, None) = Some p)"
  using assms table_key [of c "(Some s, None)"]
  by (auto simp: get_section_def lookup_spec conf_ok_def found_def conf_store_def zero_value_def split: option.splits)

text \<open>An object that is not in the table can change without effect.\<close>

lemma fresh_object:
  assumes "table_ok c" "v \<notin> data ` set (lh_items (table c))"
  shows "table_ok (c\<lparr>vals := (vals c)(v := x)\<rparr>)" "conf_map (c\<lparr>vals := (vals c)(v := x)\<rparr>) = conf_map c"
proof -
  have "same_keys (table c) (vals c) ((vals c)(v := x))"
    using assms(2) by (auto simp: same_keys_def conf_key_def value_at_def)
  from inv_same_keys [OF this] show "table_ok (c\<lparr>vals := (vals c)(v := x)\<rparr>)"
    "conf_map (c\<lparr>vals := (vals c)(v := x)\<rparr>) = conf_map c"
    using assms by (auto simp: table_ok_def conf_map_def)
qed

lemma fresh_object_ok:
  assumes "conf_ok c" "v \<notin> data ` set (lh_items (table c))"
  shows "conf_ok (c\<lparr>vals := (vals c)(v := x)\<rparr>)" "conf_store (c\<lparr>vals := (vals c)(v := x)\<rparr>) = conf_store c"
proof -
  let ?c = "c\<lparr>vals := (vals c)(v := x)\<rparr>"
  have t: "table_ok c" using assms(1) by (simp add: conf_ok_def)
  note f = fresh_object [OF t assms(2), of x]
  have v: "value_at (vals ?c) p = value_at (vals c) p" if "conf_map c k = Some p" for k p
    using table_key [OF t that] assms(2) by (auto simp: value_at_def)
  show "conf_ok ?c"
    using assms(1) f v unfolding conf_ok_def lists_strings_def by auto
  show "conf_store ?c = conf_store c"
    unfolding conf_store_def f using v by (intro ext) (auto intro!: ext split: option.splits)
qed

section \<open>New sections and strings\<close>

text \<open>The memory an operation can have taken into use.\<close>

definition takes_memory :: "CONF \<Rightarrow> ptr set \<Rightarrow> ptr set \<Rightarrow> CONF \<Rightarrow> bool" where
  "takes_memory c vs ns c' \<longleftrightarrow> dom (vals c') \<subseteq> dom (vals c) \<union> vs \<and> nodes c' \<subseteq> nodes c \<union> ns"

definition section_granted :: "section_env \<Rightarrow> bool" where
  "section_granted env \<longleftrightarrow> sk_ok env \<and> granted (sk_mem env) = (\<lambda>n. True) \<and> sec_addr env \<noteq> 0 \<and> sec_dup_ok env \<and>
     item_addr (sec_mem env) \<noteq> 0"

lemma new_section_spec:
  assumes "conf_ok c" "conf_map c (Some sec, None) = None" "vals c (sec_addr env) = None"
    and "item_addr (sec_mem env) \<notin> addr ` set (lh_items (table c))"
  shows "\<exists>c' r. NCONF_new_section env c sec = Run c' r \<and> conf_ok c' \<and>
    (case r of None \<Rightarrow> conf_store c' = conf_store c
     | Some p \<Rightarrow> conf_store c' = (conf_store c)(sec \<mapsto> Map.empty) \<and> conf_map c' = (conf_map c)((Some sec, None) \<mapsto> p)) \<and>
    takes_memory c {sec_addr env} {item_addr (sec_mem env)} c' \<and> objects c' \<subseteq> insert (sec_addr env) (objects c) \<and>
    (\<forall>q. q \<noteq> sec_addr env \<longrightarrow> vals c' q = vals c q) \<and> (stacks_small N (vals c) \<longrightarrow> stacks_small N (vals c')) \<and>
    (section_granted env \<longrightarrow> r \<noteq> None)"
proof -
  let ?v = "sec_addr env"
  have t: "table_ok c" using assms(1) by (simp add: conf_ok_def)
  have fresh: "?v \<notin> data ` set (lh_items (table c))" using t assms(3) by (auto simp: table_ok_def)
  note f = fresh_object [OF t fresh] and fok = fresh_object_ok [OF assms(1) fresh]
  have same: "c\<lparr>vals := (vals c)(?v := None)\<rparr> = c" using assms(3) by (simp add: fun_upd_idem)
  show ?thesis
  proof (cases "sk_new_null (sk_mem env) (sk_ok env) = None \<or> ?v = 0 \<or> \<not> sec_dup_ok env")
    case True
    have z: "c\<lparr>vals := (vals c)(0 := None)\<rparr> = c" if "?v = 0"
      using same that by simp
    have "NCONF_new_section env c sec = Run c None"
      using True same z assms(3)
      by (auto simp: NCONF_new_section_def CONF_VALUE_new_def Let_def fun_upd_idem split: option.splits)
    moreover have "\<not> section_granted env"
      using True by (auto simp: section_granted_def sk_new_null_def sk_new_def)
    ultimately show ?thesis using assms(1) by (auto simp: takes_memory_def)
  next
    case False
    then obtain sk where sk: "sk_new_null (sk_mem env) (sk_ok env) = Some sk" by auto
    have e: "stack_ok sk" "elems sk = []"
      using sk by (auto simp: sk_new_null_def sk_new_def kMinSize_def stack_ok_def elems_def split: if_splits)
    let ?x = "\<lparr>v_section = Some sec, v_name = None, v_value = Values sk\<rparr>"
    let ?c = "c\<lparr>vals := (vals c)(?v \<mapsto> ?x)\<rparr>"
    have m: "conf_map ?c = conf_map c" and tc: "table_ok ?c" and st: "conf_ok ?c" "conf_store ?c = conf_store c"
      using f [of "Some ?x"] fok [of "Some ?x"] by simp_all
    obtain c' old ok where ins: "conf_insert (sec_mem env) ?c ?v = Some (c', old, ok)"
      using conf_insert_defined [OF tc, of ?v ?x "sec_mem env"] by auto
    have i3: "vals c' = vals ?c \<and>
      (if ok then table_ok c' \<and> conf_map c' = (conf_map ?c)((v_section ?x, v_name ?x) \<mapsto> ?v) \<and>
         old = found (conf_map ?c) (v_section ?x, v_name ?x)
       else c' = ?c \<and> old = 0) \<and> (item_addr (sec_mem env) \<noteq> 0 \<longrightarrow> ok) \<and>
      nodes c' \<subseteq> insert (item_addr (sec_mem env)) (nodes ?c)"
      by (rule conf_insert_spec [OF ins tc]) (use False assms(4) in simp_all)
    then have sp: "vals c' = vals ?c" "if ok then table_ok c' \<and> conf_map c' = (conf_map c)((Some sec, None) \<mapsto> ?v) \<and>
         old = found (conf_map c) (Some sec, None) else c' = ?c \<and> old = 0"
      unfolding m by simp_all
    show ?thesis
    proof (cases ok)
      case False
      have "NCONF_new_section env c sec = Run (?c\<lparr>vals := (vals ?c)(?v := None)\<rparr>) None"
        using ins sp \<open>\<not> (_ \<or> _ \<or> _)\<close> sk False
        by (simp add: NCONF_new_section_def CONF_VALUE_new_def Let_def)
      moreover have "\<not> section_granted env" using i3 False by (simp add: section_granted_def)
      ultimately show ?thesis using same assms(1) by (auto simp: fun_upd_idem assms(3) takes_memory_def)
    next
      case True
      have old: "old = 0" using sp(2) True assms(2) by (simp add: found_def)
      have r: "NCONF_new_section env c sec = Run c' (Some ?v)"
        using ins \<open>\<not> (_ \<or> _ \<or> _)\<close> sk True old
        by (simp add: NCONF_new_section_def CONF_VALUE_new_def Let_def)
      have m': "conf_map c' = (conf_map c)((Some sec, None) \<mapsto> ?v)" "table_ok c'" using sp(2) True by simp_all
      have none: "conf_map c (Some sec, Some n) = None" for n
        using assms(1,2) unfolding conf_ok_def by (metis option.exhaust)
      have v: "value_at (vals c') p = value_at (vals c) p" if "conf_map c k = Some p" for k p
        using table_key [OF t that] assms(3) by (auto simp: value_at_def sp(1))
      have s: "lists_strings c' s (value_at (vals c') p)" if "conf_map c' (Some s, None) = Some p" for s p
      proof (cases "s = sec")
        case True
        then show ?thesis using that m' none e by (simp add: lists_strings_def value_at_def sp(1))
      next
        case False
        then have "conf_map c (Some s, None) = Some p" using that m' by simp
        then have "lists_strings c s (value_at (vals c) p)" using assms(1) by (simp add: conf_ok_def)
        then show ?thesis using v [OF \<open>conf_map c (Some s, None) = Some p\<close>] m'(1) by (simp add: lists_strings_def)
      qed
      have n: "str_of (value_at (vals c') p) \<noteq> None \<and> conf_map c' (Some s, None) \<noteq> None"
        if "conf_map c' (Some s, Some n) = Some p" for s n p
      proof -
        have "conf_map c (Some s, Some n) = Some p" using that m'(1) by simp
        then show ?thesis using assms(1) v [of "(Some s, Some n)"] m'(1) by (auto simp: conf_ok_def)
      qed
      have "conf_ok c'" unfolding conf_ok_def using m'(2) s n by blast
      moreover have "conf_store c' = (conf_store c)(sec \<mapsto> Map.empty)"
        using none v unfolding conf_store_def m'(1)
        by (intro ext) (auto intro!: ext split: option.splits)
      moreover have "objects c' \<subseteq> insert ?v (objects c)"
        using objects_map [OF m'(2)] objects_map [OF t] m'(1) by (auto simp: ran_def)
      moreover have "stacks_small N (vals c) \<longrightarrow> stacks_small N (vals c')"
      proof -
        have "stack_small N sk"
          using sk by (auto simp: sk_new_null_def sk_new_def kMinSize_def stack_small_def split: if_splits)
        then show ?thesis by (auto simp: stacks_small_def sp(1) value_at_def)
      qed
      moreover have "takes_memory c {?v} {item_addr (sec_mem env)} c'"
        using i3 by (auto simp: takes_memory_def sp(1) nodes_def)
      ultimately show ?thesis using r m'(1) sp(1) by auto
    qed
  qed
qed

lemma update_section:
  assumes "table_ok c" "conf_map c (Some s, None) = Some sec"
  shows "table_ok (c\<lparr>vals := (vals c)(sec \<mapsto> (value_at (vals c) sec)\<lparr>v_value := y\<rparr>)\<rparr>)"
    "conf_map (c\<lparr>vals := (vals c)(sec \<mapsto> (value_at (vals c) sec)\<lparr>v_value := y\<rparr>)\<rparr>) = conf_map c"
proof -
  have "same_keys (table c) (vals c) ((vals c)(sec \<mapsto> (value_at (vals c) sec)\<lparr>v_value := y\<rparr>))"
    by (auto simp: same_keys_def conf_key_def value_at_def)
  from inv_same_keys [OF this]
  show "table_ok (c\<lparr>vals := (vals c)(sec \<mapsto> (value_at (vals c) sec)\<lparr>v_value := y\<rparr>)\<rparr>)"
    "conf_map (c\<lparr>vals := (vals c)(sec \<mapsto> (value_at (vals c) sec)\<lparr>v_value := y\<rparr>)\<rparr>) = conf_map c"
    using assms(1) by (auto simp: table_ok_def conf_map_def)
qed

text \<open>What makes a configuration one with a new string, in place of \<open>old\<close> (0 if there was none).\<close>

lemma string_added:
  assumes "conf_ok c" "conf_map c (Some s, None) = Some sec" "old = found (conf_map c) (Some s, Some n)"
    and "table_ok c'" "conf_map c' = (conf_map c)((Some s, Some n) \<mapsto> v)"
    and "\<And>k p. conf_map c k = Some p \<Longrightarrow> k \<noteq> (Some s, None) \<Longrightarrow> k \<noteq> (Some s, Some n) \<Longrightarrow>
      value_at (vals c') p = value_at (vals c) p"
    and "str_of (value_at (vals c') v) = Some x"
    and "v_value (value_at (vals c') sec) = Values sk'" "stack_ok sk'" "distinct (elems sk')"
    and "set (elems sk') = insert v ({q. \<exists>n. conf_map c (Some s, Some n) = Some q} - {old})"
  shows "conf_ok c' \<and> conf_store c' = (conf_store c)(s \<mapsto> (the (conf_store c s))(n \<mapsto> x)) \<and>
    conf_map c' = (conf_map c)((Some s, Some n) \<mapsto> v)"
proof -
  have t: "table_ok c" using assms(1) by (simp add: conf_ok_def)
  have key: "conf_key (vals c) p = k" "p \<noteq> 0" if "conf_map c k = Some p" for k p
    using table_key [OF t that] by simp_all
  have names: "{q. \<exists>n'. conf_map c' (Some s, Some n') = Some q} =
      insert v ({q. \<exists>n. conf_map c (Some s, Some n) = Some q} - {old})"
  proof -
    have "q \<noteq> old" if "conf_map c (Some s, Some n') = Some q" "n' \<noteq> n" for n' q
      using key [OF that(1)] key [of "(Some s, Some n)" old] that(2) assms(3)
      by (cases "conf_map c (Some s, Some n)") (auto simp: found_def)
    moreover have "q = old" if "conf_map c (Some s, Some n) = Some q" for q
      using that assms(3) by (simp add: found_def)
    ultimately show ?thesis unfolding assms(5) by (auto split: if_splits) metis
  qed
  have "lists_strings c' s' (value_at (vals c') p)" if "conf_map c' (Some s', None) = Some p" for s' p
  proof (cases "s' = s")
    case True
    then have "p = sec" using that assms(2,5) by simp
    then show ?thesis using assms(8-11) names True by (simp add: lists_strings_def)
  next
    case False
    have p: "conf_map c (Some s', None) = Some p" using that assms(5) by simp
    then have "lists_strings c s' (value_at (vals c) p)" using assms(1) by (simp add: conf_ok_def)
    then show ?thesis using assms(6) [OF p] False assms(5) by (simp add: lists_strings_def)
  qed
  moreover have "str_of (value_at (vals c') p) \<noteq> None \<and> conf_map c' (Some s', None) \<noteq> None"
    if "conf_map c' (Some s', Some n') = Some p" for s' n' p
  proof (cases "s' = s \<and> n' = n")
    case True
    then show ?thesis using that assms(2,5,7) by simp
  next
    case False
    then have p: "conf_map c (Some s', Some n') = Some p" using that assms(5) by (simp split: if_splits)
    then show ?thesis using assms(1,5) assms(6) [OF p] False unfolding conf_ok_def by force
  qed
  ultimately have "conf_ok c'" using assms(4) by (simp add: conf_ok_def)
  moreover have "conf_store c' = (conf_store c)(s \<mapsto> (the (conf_store c s))(n \<mapsto> x))"
  proof
    fix s'
    have "(case conf_map c' (Some s', Some n') of None \<Rightarrow> None | Some p \<Rightarrow> str_of (value_at (vals c') p)) =
        (if s' = s \<and> n' = n then Some x
         else case conf_map c (Some s', Some n') of None \<Rightarrow> None | Some p \<Rightarrow> str_of (value_at (vals c) p))" for n'
      using assms(5,7) assms(6) [of "(Some s', Some n')"] by (auto split: option.splits)
    then show "conf_store c' s' = ((conf_store c)(s \<mapsto> (the (conf_store c s))(n \<mapsto> x))) s'"
      unfolding conf_store_def using assms(2,5) by auto
  qed
  ultimately show ?thesis using assms(2,5) by simp
qed

definition string_granted :: "string_env \<Rightarrow> bool" where
  "string_granted env \<longleftrightarrow> granted (push_mem env) = (\<lambda>n. True) \<and> item_addr (str_mem env) \<noteq> 0"

text \<open>On success the store has the new string, and the memory in use is as bounded.\<close>

definition string_done ::
  "string_env \<Rightarrow> CONF \<Rightarrow> bytes \<Rightarrow> bytes \<Rightarrow> bytes \<Rightarrow> ptr \<Rightarrow> nat \<Rightarrow> CONF \<Rightarrow> bool" where
  "string_done env c s n x v N c' \<longleftrightarrow>
     conf_ok c' \<and> conf_store c' = (conf_store c)(s \<mapsto> (the (conf_store c s))(n \<mapsto> x)) \<and>
     conf_map c' = (conf_map c)((Some s, Some n) \<mapsto> v) \<and>
     takes_memory c {v} {item_addr (str_mem env)} c' \<and> stacks_small (N + 1) (vals c')"

lemma add_string_spec:
  assumes "conf_ok c" "conf_map c (Some s, None) = Some sec"
    and "vals c v = Some \<lparr>v_section = sec0, v_name = Some n, v_value = Str x\<rparr>" "v \<noteq> 0"
    and "v \<notin> data ` set (lh_items (table c))" "str_dup_ok env"
    and "item_addr (str_mem env) \<notin> addr ` set (lh_items (table c))"
    and "stacks_small N (vals c)" "N < 2 ^ 58"
  shows "\<exists>c' r. add_string env c sec v = Run c' r \<and>
    (r = Some () \<longrightarrow> string_done env c s n x v N c') \<and> (string_granted env \<longrightarrow> r = Some ())"
proof -
  have t: "table_ok c" using assms(1) by (simp add: conf_ok_def)
  note key = table_key [OF t]
  have mem: "p \<in> data ` set (lh_items (table c))" if "conf_map c k = Some p" for k p using key [OF that] by simp
  have sv: "sec \<noteq> v" "sec \<noteq> 0" using key [OF assms(2)] assms(5) by auto
  obtain sk where sk: "v_value (value_at (vals c) sec) = Values sk" "stack_ok sk" "distinct (elems sk)"
      "set (elems sk) = {q. \<exists>n. conf_map c (Some s, Some n) = Some q}"
  proof -
    have "lists_strings c s (value_at (vals c) sec)" using assms(1,2) by (simp add: conf_ok_def)
    then show ?thesis using that by (auto simp: lists_strings_def)
  qed
  have sms: "stack_small N sk" using assms(8) sk(1) by (simp add: stacks_small_def)
  have others: "stack_small (N + 1) k" if "v_value (value_at (vals c) q) = Values k" for q k
    using assms(8) that stack_small_mono [of N k "N + 1"] by (simp add: stacks_small_def)
  have secn: "v_section (value_at (vals c) sec) = Some s" using key [OF assms(2)] by (simp add: conf_key_def)
  let ?x = "\<lparr>v_section = Some s, v_name = Some n, v_value = Str x\<rparr>"
  let ?h1 = "(vals c)(v \<mapsto> ?x)"
  have h1: "(vals c)(v \<mapsto> (value_at (vals c) v)\<lparr>v_section := Some s\<rparr>) = ?h1"
    using assms(3) by (simp add: value_at_def)
  consider "sk_push (push_mem env) sk v = (Some sk, 0)" |
    sk' m where "sk_push (push_mem env) sk v = (Some sk', m)" "m \<noteq> 0" "stack_ok sk'" "elems sk' = elems sk @ [v]"
    using push_elems [OF sk(2)] by blast
  then show ?thesis
  proof cases
    case 1
    then have "\<not> string_granted env" using push_small [OF sk(2) sms assms(9) 1] by (auto simp: string_granted_def)
    then show ?thesis using 1 sk(1) by (simp add: add_string_def Let_def)
  next
    case (2 sk' m)
    let ?h2 = "?h1(sec \<mapsto> (value_at ?h1 sec)\<lparr>v_value := Values sk'\<rparr>)"
    let ?c2 = "c\<lparr>vals := ?h2\<rparr>"
    note f1 = fresh_object [OF t assms(5), of "Some ?x"]
    have m1: "conf_map (c\<lparr>vals := ?h1\<rparr>) (Some s, None) = Some sec" using f1(2) assms(2) by simp
    have t2: "table_ok ?c2" "conf_map ?c2 = conf_map c"
      using update_section [OF f1(1) m1, of "Values sk'"] f1(2) by simp_all
    have vv: "vals ?c2 v = Some ?x" using sv by simp
    obtain c3 old ok where ins: "conf_insert (str_mem env) ?c2 v = Some (c3, old, ok)"
    proof -
      have "v_section ?x \<noteq> None" by simp
      from conf_insert_defined [OF t2(1) vv this] show ?thesis using that by blast
    qed
    have i3: "vals c3 = ?h2 \<and>
      (if ok then table_ok c3 \<and> conf_map c3 = (conf_map ?c2)((v_section ?x, v_name ?x) \<mapsto> v) \<and>
         old = found (conf_map ?c2) (v_section ?x, v_name ?x)
       else c3 = ?c2 \<and> old = 0) \<and> (item_addr (str_mem env) \<noteq> 0 \<longrightarrow> ok) \<and>
      nodes c3 \<subseteq> insert (item_addr (str_mem env)) (nodes ?c2)"
      using conf_insert_spec [OF ins t2(1) vv _ assms(4)] assms(7) by simp
    have run: "add_string env c sec v =
      (if \<not> ok then Run c3 None
       else if old \<noteq> 0 then
         (let h = (case fst (sk_delete_ptr (Some sk') old) of None \<Rightarrow> vals c3
                   | Some s \<Rightarrow> (vals c3)(sec \<mapsto> (value_at (vals c3) sec)\<lparr>v_value := Values s\<rparr>))
          in Run (c3\<lparr>vals := value_free old h\<rparr>) (Some ()))
       else Run c3 (Some ()))"
      using 2 sk(1) assms(6) ins secn h1 by (simp add: add_string_def Let_def)
    show ?thesis
    proof (cases ok)
      case False
      then have "\<not> string_granted env" using i3 by (simp add: string_granted_def)
      then show ?thesis using run False by simp
    next
      case True
      have sm': "stack_small (N + 1) sk'" using push_small [OF sk(2) sms assms(9) 2(1)] by simp
      have m3: "conf_map c3 = (conf_map c)((Some s, Some n) \<mapsto> v)" "old = found (conf_map c) (Some s, Some n)"
          "vals c3 = ?h2" "table_ok c3"
        using i3 True t2(2) by simp_all
      have away: "p \<noteq> sec \<and> p \<noteq> v \<and> p \<noteq> old" if "conf_map c k = Some p" "k \<noteq> (Some s, None)" "k \<noteq> (Some s, Some n)" for k p
        using key [OF that(1)] key [OF assms(2)] key [of "(Some s, Some n)" old] assms(5) that(2,3) m3(2)
        by (cases "conf_map c (Some s, Some n)") (auto simp: found_def)
      show ?thesis
      proof (cases "old = 0")
        case none: True
        have "conf_ok c3 \<and> conf_store c3 = (conf_store c)(s \<mapsto> (the (conf_store c s))(n \<mapsto> x)) \<and>
            conf_map c3 = (conf_map c)((Some s, Some n) \<mapsto> v)"
        proof (rule string_added [OF assms(1,2) m3(2) m3(4,1)])
          show "value_at (vals c3) p = value_at (vals c) p"
            if "conf_map c k = Some p" "k \<noteq> (Some s, None)" "k \<noteq> (Some s, Some n)" for k p
            using away [OF that] by (simp add: m3(3) value_at_def)
          show "set (elems sk') = insert v ({q. \<exists>n. conf_map c (Some s, Some n) = Some q} - {old})"
            using 2(4) sk(4) none key by auto
          show "distinct (elems sk')" using 2(4) sk(3,4) mem assms(5) by auto
        qed (use 2(3) sv in \<open>simp_all add: m3(3) value_at_def str_of_def\<close>)
        moreover have "takes_memory c {v} {item_addr (str_mem env)} c3"
          using i3 True key [OF assms(2)] by (auto simp: takes_memory_def nodes_def)
        moreover have "stacks_small (N + 1) (vals c3)"
          using sm' others sv by (auto simp: stacks_small_def m3(3) value_at_def split: if_splits)
        ultimately show ?thesis using run True none by (simp add: string_done_def)
      next
        case False
        have mo: "conf_map c (Some s, Some n) = Some old"
          using False m3(2) by (cases "conf_map c (Some s, Some n)") (auto simp: found_def)
        then have inn: "old \<in> set (elems sk')" "old \<noteq> v" "old \<noteq> sec"
          using 2(4) sk(4) mem [OF mo] assms(5) key [OF mo] key [OF assms(2)] by auto
        obtain sf where sf: "fst (sk_delete_ptr (Some sk') old) = Some sf" "stack_ok sf" "elems sf = remove1 old (elems sk')"
          using delete_elems [OF 2(3) inn(1)] by blast
        let ?h3 = "(vals c3)(sec \<mapsto> (value_at (vals c3) sec)\<lparr>v_value := Values sf\<rparr>)"
        let ?c4 = "c3\<lparr>vals := ?h3\<rparr>"
        let ?c5 = "?c4\<lparr>vals := (vals ?c4)(old := None)\<rparr>"
        have s3: "conf_map c3 (Some s, None) = Some sec" using m3(1) assms(2) by simp
        note u4 = update_section [OF m3(4) s3, of "Values sf"]
        have "old \<notin> data ` set (lh_items (table ?c4))"
        proof
          assume "old \<in> data ` set (lh_items (table ?c4))"
          then have "conf_map c3 (conf_key (vals c3) old) = Some old" using table_mem [OF m3(4)] by auto
          moreover have "conf_key (vals c3) old = (Some s, Some n)"
            using key [OF mo] inn by (simp add: m3(3) conf_key_def value_at_def)
          ultimately show False using m3(1) inn(2) by simp
        qed
        note f5 = fresh_object [OF u4(1) this, of None]
        have d: "distinct (elems sk')" using 2(4) sk(3,4) mem assms(5) by auto
        have "conf_ok ?c5 \<and> conf_store ?c5 = (conf_store c)(s \<mapsto> (the (conf_store c s))(n \<mapsto> x)) \<and>
            conf_map ?c5 = (conf_map c)((Some s, Some n) \<mapsto> v)"
        proof (rule string_added [OF assms(1,2) m3(2) f5(1)])
          show "conf_map ?c5 = (conf_map c)((Some s, Some n) \<mapsto> v)" using f5(2) u4(2) m3(1) by simp
          show "value_at (vals ?c5) p = value_at (vals c) p"
            if "conf_map c k = Some p" "k \<noteq> (Some s, None)" "k \<noteq> (Some s, Some n)" for k p
            using away [OF that] by (simp add: m3(3) value_at_def)
          show "set (elems sf) = insert v ({q. \<exists>n. conf_map c (Some s, Some n) = Some q} - {old})"
            using 2(4) sk(4) d sf(3) inn(2) by (auto simp: set_remove1_eq)
          show "distinct (elems sf)" using d sf(3) by (simp add: distinct_remove1)
        qed (use sf(2) sv inn in \<open>simp_all add: m3(3) value_at_def str_of_def\<close>)
        moreover have "add_string env c sec v = Run ?c5 (Some ())"
          using run True False sf(1) by (simp add: value_free_def Let_def)
        moreover have "takes_memory c {v} {item_addr (str_mem env)} ?c5"
          using i3 True key [OF assms(2)] by (auto simp: takes_memory_def nodes_def m3(3))
        moreover have "stacks_small (N + 1) (vals ?c5)"
        proof -
          have "stack_small (N + 1) sf"
            using delete_small [OF 2(3) sm', of old] sf(1) by (metis prod.collapse)
          then show ?thesis
            using others sv by (auto simp: stacks_small_def m3(3) value_at_def zero_value_def split: if_splits)
        qed
        ultimately show ?thesis unfolding string_done_def by blast
      qed
    qed
  qed
qed

end
