(* ===== verification/ConfCopy.thy ===== *)
theory ConfCopy
  imports ConfTable
begin

text \<open>
  \<open>str_copy\<close>: the buffer it grows by the sizes of the variables is never overrun, and the string it makes is
  the expansion of its argument by the strings of the configuration.
\<close>

section \<open>Characters\<close>

lemma type_table: "list_all P CONF_type_default \<Longrightarrow> P (CONF_type_default ! unat (c :: u8))"
proof -
  have "length CONF_type_default = 256" by (simp add: CONF_type_default_def)
  moreover assume "list_all P CONF_type_default"
  ultimately show ?thesis using unat_u8_lt [of c] by (simp add: list_all_length)
qed

lemma eof_iff: "IS_EOF c \<longleftrightarrow> c = 0"
proof
  have z: "CONF_type_default = 8 # tl CONF_type_default" by (simp add: CONF_type_default_def)
  have l: "length CONF_type_default = 256" by (simp add: CONF_type_default_def)
  show "IS_EOF c" if "c = 0" using that by (subst (asm) unat_eq_zero [symmetric]) (simp add: IS_EOF_def has_type_def, subst z, simp)
  show "c = 0" if "IS_EOF c"
  proof (rule ccontr)
    assume "c \<noteq> 0"
    then have "0 < unat c" "unat c < 256" using unat_u8_lt [of c] by simp_all
    then have "CONF_type_default ! unat c = tl CONF_type_default ! (unat c - 1)" "unat c - 1 < length (tl CONF_type_default)"
      using l by (simp_all add: nth_tl del: unat_pos unat_u8_lt)
    moreover have "list_all (\<lambda>m. and m 8 = 0) (tl CONF_type_default)" by (simp add: CONF_type_default_def)
    ultimately show False using that by (auto simp: IS_EOF_def has_type_def list_all_length)
  qed
qed

definition string :: "bytes \<Rightarrow> bool" where
  "string s \<longleftrightarrow> 0 \<notin> set s"

lemma string_simps [simp]: "string []" "string (c # s) \<longleftrightarrow> c \<noteq> 0 \<and> string s" "string (s @ t) \<longleftrightarrow> string s \<and> string t"
  by (auto simp: string_def)

lemma string_tl [simp]: "string s \<Longrightarrow> string (tl s)"
  by (cases s) auto

lemma cur_string: "string s \<Longrightarrow> cur s = 0 \<longleftrightarrow> s = []"
  by (cases s) (auto simp: cur_def)

lemma string_dropWhile: "string s \<Longrightarrow> string (dropWhile P s) \<and> string (takeWhile P s)"
  by (induction s) auto

lemma copy_quote_string: "string s \<Longrightarrow> string (fst (copy_quote q s)) \<and> string (snd (copy_quote q s))"
  by (induction q s rule: copy_quote.induct) (auto simp: eof_iff)

lemma copy_dquote_string: "string s \<Longrightarrow> q \<noteq> 0 \<Longrightarrow> string (fst (copy_dquote q s)) \<and> string (snd (copy_dquote q s))"
  by (induction q s rule: copy_dquote.induct) (auto simp: eof_iff)

text \<open>What is copied is never longer than what is read.\<close>

lemma copied_len:
  "copy_quote q s = (out, rest) \<Longrightarrow> length out + length rest \<le> length s"
  "copy_dquote q s = (out, rest) \<Longrightarrow> length out + length rest \<le> length s"
proof -
  have "length (fst (copy_quote q s)) + length (snd (copy_quote q s)) \<le> length s"
  proof (induction q s rule: copy_quote.induct)
    case (2 q c s)
    then show ?case by (cases s) (auto simp: cur_def)
  qed simp
  then show "copy_quote q s = (out, rest) \<Longrightarrow> length out + length rest \<le> length s" by simp
  have "length (fst (copy_dquote q s)) + length (snd (copy_dquote q s)) \<le> length s"
  proof (induction q s rule: copy_dquote.induct)
    case (2 q c s)
    then show ?case by (cases s) (auto simp: cur_def)
  qed simp
  then show "copy_dquote q s = (out, rest) \<Longrightarrow> length out + length rest \<le> length s" by simp
qed

section \<open>The reference: expanding a value\<close>

function expand :: "store \<Rightarrow> bytes option \<Rightarrow> bytes \<Rightarrow> bytes option" where
  "expand st sec s = (case s of [] \<Rightarrow> Some []
     | c # s' \<Rightarrow>
       if IS_QUOTE c then map_option (append (fst (copy_quote c s'))) (expand st sec (snd (copy_quote c s')))
       else if IS_DQUOTE c then map_option (append (fst (copy_dquote c s'))) (expand st sec (snd (copy_dquote c s')))
       else if IS_ESC c then
         (if s' = [] then Some [] else map_option (Cons (unescape (cur s'))) (expand st sec (tl s')))
       else if c = 36 then
         (case variable_ref sec s' of
            Some (Some cp, np, e) \<Rightarrow>
              (case Option.bind (st cp) (\<lambda>m. m np) of None \<Rightarrow> None
               | Some p \<Rightarrow> map_option (append p) (expand st sec e))
          | _ \<Rightarrow> None)
       else map_option (Cons c) (expand st sec s'))"
  by pat_completeness auto
termination
  by (relation "measure (\<lambda>(st, sec, s). length s)")
    (auto simp: le_imp_less_Suc copy_quote_le copy_dquote_le dest!: variable_ref_le)

declare expand.simps [simp del] copy_loop_conf.simps [simp del]

section \<open>The buffer\<close>

lemma buf_store_spec:
  assumes "buf_ok buf" "i + length xs \<le> unat (buf_length buf)" "take i (buf_data buf) = ys" "length ys = i"
  shows "\<exists>buf'. buf_store buf i xs = Some buf' \<and> buf_ok buf' \<and> buf_length buf' = buf_length buf \<and>
    take (i + length xs) (buf_data buf') = ys @ xs"
proof -
  have "unat (buf_length buf) \<le> length (buf_data buf)" using assms(1) by (simp add: buf_ok_def word_le_nat_alt)
  then show ?thesis using assms by (auto simp: buf_store_def buf_ok_def)
qed

lemma grow_prefix:
  assumes "buf_ok buf" "BUF_MEM_grow_clean env buf len = (buf', ret)" "ret \<noteq> 0"
    and "i \<le> unat (buf_length buf)" "i \<le> unat len"
  shows "buf_ok buf' \<and> buf_length buf' = len \<and> take i (buf_data buf') = take i (buf_data buf)"
proof -
  note sp = grow_spec [OF assms(1), of env len buf' ret]
  have r: "BUF_MEM_grow env buf len = (buf', ret)" using assms(2) by (simp add: BUF_MEM_grow_clean_def)
  have b: "buf_bytes buf' = take (unat len) (buf_bytes buf) @ replicate (unat len - unat (buf_length buf)) 0"
    "buf_ok buf'" "buf_length buf' = len" using sp r assms(3) by auto
  have "take i (buf_data buf') = take i (buf_bytes buf')" using b(3) assms(5) by (simp add: buf_bytes_def min_def)
  also have "\<dots> = take i (buf_data buf)"
  proof -
    have l: "unat (buf_length buf) \<le> length (buf_data buf)"
      using assms(1) by (simp add: buf_ok_def word_le_nat_alt)
    then have "take i (buf_bytes buf') = take i (take (unat len) (buf_bytes buf))"
      unfolding b(1) using assms(4,5) by (simp add: buf_bytes_def)
    then show ?thesis using l assms(4,5) by (simp add: buf_bytes_def min_def)
  qed
  finally show ?thesis using b by simp
qed

section \<open>The loop\<close>

definition small_store :: "store \<Rightarrow> bool" where
  "small_store st \<longleftrightarrow> (\<forall>s m n x. st s = Some m \<longrightarrow> m n = Some x \<longrightarrow> string x \<and> length x < 2 ^ 62)"

text \<open>The buffer holds what is written so far and has room for the rest of the source.\<close>

definition room_for :: "BUF_MEM \<Rightarrow> bytes \<Rightarrow> nat \<Rightarrow> bool" where
  "room_for buf out n \<longleftrightarrow> buf_ok buf \<and> take (length out) (buf_data buf) = out \<and>
     length out + n < unat (buf_length buf) \<and> unat (buf_length buf) \<le> 2 ^ 62"

lemma room_store:
  assumes "room_for buf out n" "length xs + m \<le> n"
  shows "\<exists>buf'. buf_store buf (length out) xs = Some buf' \<and> room_for buf' (out @ xs) m"
  using assms buf_store_spec [of buf "length out" xs out] by (auto simp: room_for_def)

text \<open>The room after a variable: its reference is given up, its value comes in.\<close>

lemma room_grow:
  fixes p :: bytes
  assumes "room_for buf out n" "length p < 2 ^ 62" "m \<le> n"
  defines "newsize \<equiv> of_nat (length p) + buf_length buf - of_nat (n - m)"
  assumes "newsize \<le> MAX_CONF_VALUE_LENGTH" "BUF_MEM_grow_clean env buf newsize = (buf', grown)" "grown \<noteq> 0"
  shows "room_for buf' out (length p + m)"
proof -
  have b: "length out + n < unat (buf_length buf)" "unat (buf_length buf) \<le> 2 ^ 62" "buf_ok buf"
    "take (length out) (buf_data buf) = out"
    using assms(1) by (simp_all add: room_for_def)
  have l: "unat (of_nat (length p) :: u64) = length p" "unat (of_nat (n - m) :: u64) = n - m"
    using assms(2,3) b by (simp_all add: unat_of_nat del: of_nat_diff)
  have s: "unat (of_nat (length p) + buf_length buf) = length p + unat (buf_length buf)"
    using l(1) assms(2) b(2) by (subst unat_add_lem [THEN iffD1]) simp_all
  have "unat newsize = length p + unat (buf_length buf) - (n - m)"
    unfolding newsize_def using s l(2) b(1) by (subst unat_minus_le) (simp_all add: word_le_nat_alt)
  moreover have "unat newsize \<le> 65536"
    using assms(5) by (simp add: MAX_CONF_VALUE_LENGTH_def word_le_nat_alt)
  ultimately show ?thesis
    using grow_prefix [OF b(3) assms(6,7), of "length out"] b assms(3) by (simp add: room_for_def)
qed

text \<open>The end of the loop: a failure, or the expansion.\<close>

definition copies :: "(BUF_MEM \<times> nat) option option \<Rightarrow> bytes \<Rightarrow> bytes option \<Rightarrow> bool" where
  "copies r out ys \<longleftrightarrow> (case r of None \<Rightarrow> False | Some None \<Rightarrow> True
     | Some (Some (buf, to)) \<Rightarrow> (\<exists>zs. ys = Some zs \<and> to = length (out @ zs) \<and> room_for buf (out @ zs) 0))"

lemma copies_step: "copies r (out @ xs) ys \<Longrightarrow> copies r out (map_option (append xs) ys)"
  by (auto simp: copies_def split: option.splits)

lemma length_single: "length [x] = 1"
  by simp

lemma append_single: "(@) [x] = (#) x"
  by (rule ext) simp

lemma copies_fail [simp]: "copies (Some None) out ys"
  by (simp add: copies_def)

lemma copies_done: "room_for buf out n \<Longrightarrow> copies (Some (Some (buf, length out))) out (Some [])"
  by (auto simp: copies_def room_for_def)

lemma variable_section: "variable_ref (Some sec) s = Some (cp, np, e) \<Longrightarrow> cp \<noteq> None"
  by (auto simp: variable_ref_def Let_def split: if_splits)

lemma variable_string:
  assumes "variable_ref sec s = Some (cp, np, e)" "string s"
  shows "string e"
proof -
  have "string (dropWhile P xs)" if "string xs" for P xs using string_dropWhile that by blast
  then show ?thesis using assms by (auto simp: variable_ref_def Let_def split: if_splits)
qed

lemma set_tlD: "x \<in> set (tl s) \<Longrightarrow> x \<in> set s"
  by (cases s) auto

lemma copied_set:
  "copy_quote q s = (out, rest) \<Longrightarrow> set rest \<subseteq> set s"
  "copy_dquote q s = (out, rest) \<Longrightarrow> set rest \<subseteq> set s"
proof -
  have "set (snd (copy_quote q s)) \<subseteq> set s"
    by (induction q s rule: copy_quote.induct) (auto dest: set_tlD split: if_splits)
  then show "copy_quote q s = (out, rest) \<Longrightarrow> set rest \<subseteq> set s" by simp
  have "set (snd (copy_dquote q s)) \<subseteq> set s"
    by (induction q s rule: copy_dquote.induct) (auto dest: set_tlD split: if_splits)
  then show "copy_dquote q s = (out, rest) \<Longrightarrow> set rest \<subseteq> set s" by simp
qed

text \<open>A section name is copied with no current section: a variable in it must name its section, or there
  must be none.\<close>

lemma copy_loop_expands:
  assumes "conf_ok c" "small_store (conf_store c)"
  shows "string s \<Longrightarrow> room_for buf out (length s) \<Longrightarrow> sec \<noteq> None \<or> 36 \<notin> set s \<Longrightarrow>
    copies (copy_loop_conf env c sec k buf (length out) s) out (expand (conf_store c) sec s)"
proof (induction "length s" arbitrary: s buf out k rule: less_induct)
  case less
  note IH = less.hyps
  show ?case
  proof (cases s)
    case Nil
    then show ?thesis using less.prems by (simp add: copies_done expand.simps copy_loop_conf.simps)
  next
    case (Cons a s')
    have a: "a \<noteq> 0" "string s'" using less.prems Cons by simp_all
    have r: "room_for buf out (Suc (length s'))" using less.prems Cons by simp
    text \<open>A step that copies \<open>xs\<close> and goes on at \<open>rest\<close>.\<close>
    have step: "copies (case buf_store buf (length out) xs of None \<Rightarrow> None
        | Some buf \<Rightarrow> copy_loop_conf env c sec k buf (length out + length xs) rest) out
        (map_option (append xs) (expand (conf_store c) sec rest))"
      if h: "length xs + length rest \<le> Suc (length s')" "length rest < length s" "string rest"
        "set rest \<subseteq> set s" for xs rest
    proof -
      obtain buf' where b: "buf_store buf (length out) xs = Some buf'" "room_for buf' (out @ xs) (length rest)"
        using room_store [OF r h(1)] by blast
      have "sec \<noteq> None \<or> 36 \<notin> set rest" using less.prems(3) h(4) by auto
      from IH [OF h(2) h(3) b(2) this, of k] show ?thesis by (simp add: b(1) copies_step)
    qed
    consider (quote) "IS_QUOTE a" | (dquote) "\<not> IS_QUOTE a" "IS_DQUOTE a" | (esc) "\<not> IS_QUOTE a" "\<not> IS_DQUOTE a" "IS_ESC a"
      | (var) "\<not> IS_QUOTE a" "\<not> IS_DQUOTE a" "\<not> IS_ESC a" "a = 36"
      | (plain) "\<not> IS_QUOTE a" "\<not> IS_DQUOTE a" "\<not> IS_ESC a" "a \<noteq> 36" by blast
    then show ?thesis
    proof cases
      case quote
      obtain xs rest where q: "copy_quote a s' = (xs, rest)" by fastforce
      have "string rest" using copy_quote_string [OF a(2), of a] q by simp
      moreover have "set rest \<subseteq> set s" using copied_set(1) [OF q] Cons by auto
      ultimately show ?thesis
        using step [of xs rest] copied_len(1) [OF q] copied_set(1) [OF q] quote q Cons
        by (simp add: copy_loop_conf.simps [of env c sec k buf "length out" "a # s'"] expand.simps [of _ _ "a # s'"])
    next
      case dquote
      obtain xs rest where q: "copy_dquote a s' = (xs, rest)" by fastforce
      have "string rest" using copy_dquote_string [OF a(2,1)] q by simp
      moreover have "set rest \<subseteq> set s" using copied_set(2) [OF q] Cons by auto
      ultimately show ?thesis
        using step [of xs rest] copied_len(2) [OF q] copied_set(2) [OF q] dquote q Cons
        by (simp add: copy_loop_conf.simps [of env c sec k buf "length out" "a # s'"] expand.simps [of _ _ "a # s'"])
    next
      case esc
      show ?thesis
      proof (cases "s' = []")
        case True
        then show ?thesis using esc Cons copies_done [OF r]
          by (simp add: copy_loop_conf.simps [of env c sec k buf "length out" "[a]"] expand.simps [of _ _ "[a]"]
              cur_def eof_iff)
      next
        case False
        then have "set (tl s') \<subseteq> set s" using Cons by (cases s') auto
        moreover have "cur s' \<noteq> 0" using cur_string [OF a(2)] False by simp
        ultimately show ?thesis
          using step [of "[unescape (cur s')]" "tl s'"] esc Cons False a(2)
          unfolding append_single length_single by (simp add: copy_loop_conf.simps [of env c sec k buf "length out" "a # s'"] expand.simps [of _ _ "a # s'"] eof_iff)
      qed
    next
      case plain
      then show ?thesis
        using step [of "[a]" s'] Cons a subset_insertI [of "set s'" a]
        unfolding append_single length_single by (simp add: copy_loop_conf.simps [of env c sec k buf "length out" "a # s'"] expand.simps [of _ _ "a # s'"] eof_iff)
    next
      case var
      then have sec: "sec \<noteq> None" using less.prems(3) Cons by auto
      show ?thesis
      proof (cases "variable_ref sec s'")
        case None
        then show ?thesis using var Cons a
          by (simp add: copy_loop_conf.simps [of env c sec k buf "length out" "36 # s'"] eof_iff)
      next
        case (Some ref)
        then obtain cp np e where ref: "variable_ref sec s' = Some (Some cp, np, e)"
          using variable_section sec by (metis not_None_eq prod_cases3)
        note e = variable_ref_le [OF ref] variable_string [OF ref a(2)]
        show ?thesis
        proof (cases "Option.bind (conf_store c cp) (\<lambda>m. m np)")
          case None
          then have "NCONF_get_string c (Some cp) (Some np) = Some No_value"
            using get_string_store [OF assms(1), of cp np] by (auto split: option.splits)
          then show ?thesis using var Cons a ref
            by (simp add: copy_loop_conf.simps [of env c sec k buf "length out" "36 # s'"] eof_iff)
        next
          case (Some p)
          then have g: "NCONF_get_string c (Some cp) (Some np) = Some (Str p)" "string p" "length p < 2 ^ 62"
            using get_string_store [OF assms(1), of cp np] assms(2)
            by (auto simp: small_store_def split: option.splits)
          let ?new = "of_nat (length p) + buf_length buf - of_nat (Suc (length s') - length e)"
          obtain b1 grown where gr: "BUF_MEM_grow_clean (env k) buf ?new = (b1, grown)" by fastforce
          have eq: "copy_loop_conf env c sec k buf (length out) (36 # s') =
            (if MAX_CONF_VALUE_LENGTH < ?new \<or> grown = 0 then Some None
             else case buf_store b1 (length out) p of None \<Rightarrow> None
               | Some buf \<Rightarrow> copy_loop_conf env c sec (Suc k) buf (length out + length p) e)"
            using var Cons a ref g(1) gr
            by (simp add: copy_loop_conf.simps [of env c sec k buf "length out" "36 # s'"] eof_iff Let_def)
          show ?thesis
          proof (cases "MAX_CONF_VALUE_LENGTH < ?new \<or> grown = 0")
            case True
            then show ?thesis using var by (simp add: eq Cons)
          next
            case False
            then have "?new \<le> MAX_CONF_VALUE_LENGTH" "grown \<noteq> 0" by (meson not_less)+
            then have "room_for b1 out (length p + length e)"
              by (rule room_grow [OF r g(3) le_SucI [OF e(1)] _ gr])
            then obtain b2 where b2: "buf_store b1 (length out) p = Some b2" "room_for b2 (out @ p) (length e)"
              using room_store [of b1 out "length p + length e" p "length e"] by auto
            have "length e < length s" using e(1) Cons by simp
            from IH [OF this e(2) b2(2), of "Suc k"] sec show ?thesis
              using var Cons ref Some b2(1) False
              by (simp add: Cons eq copies_step expand.simps [of _ _ "36 # s'"])
          qed
        qed
      qed
    qed
  qed
qed

lemma expand_string:
  assumes "small_store st"
  shows "string s \<Longrightarrow> expand st sec s = Some x \<Longrightarrow> string x"
proof (induction "length s" arbitrary: s x rule: less_induct)
  case less
  show ?case
  proof (cases s)
    case Nil
    then show ?thesis using less.prems by (simp add: expand.simps)
  next
    case (Cons a s')
    have a: "a \<noteq> 0" "string s'" using less.prems Cons by simp_all
    have IH: "string y" if "expand st sec t = Some y" "length t < length s" "string t" for t y
      using less.hyps that by blast
    have un: "unescape v \<noteq> 0" if "v \<noteq> 0" for v using that by (simp add: unescape_def)
    have cur: "cur s' \<noteq> 0" if "s' \<noteq> []" using that a(2) cur_string by blast
    note e = less.prems(2) [unfolded Cons expand.simps [of _ _ "a # s'"], simplified]
    consider (quote) "IS_QUOTE a" | (dquote) "\<not> IS_QUOTE a" "IS_DQUOTE a" | (esc) "\<not> IS_QUOTE a" "\<not> IS_DQUOTE a" "IS_ESC a"
      | (var) "\<not> IS_QUOTE a" "\<not> IS_DQUOTE a" "\<not> IS_ESC a" "a = 36"
      | (plain) "\<not> IS_QUOTE a" "\<not> IS_DQUOTE a" "\<not> IS_ESC a" "a \<noteq> 36" by blast
    then show ?thesis
    proof cases
      case quote
      then show ?thesis
        using e IH [of "snd (copy_quote a s')"] copy_quote_string [OF a(2), of a] copy_quote_le [of a s'] Cons by auto
    next
      case dquote
      then show ?thesis
        using e IH [of "snd (copy_dquote a s')"] copy_dquote_string [OF a(2,1)] copy_dquote_le [of a s'] Cons by auto
    next
      case esc
      then show ?thesis using e IH [of "tl s'"] un cur a(2) Cons by (auto split: if_splits)
    next
      case plain
      then show ?thesis using e IH [of s'] a Cons by auto
    next
      case var
      then obtain cp np r p y where v: "variable_ref sec s' = Some (Some cp, np, r)"
          "Option.bind (st cp) (\<lambda>m. m np) = Some p" "expand st sec r = Some y" "x = p @ y"
        using e by (auto split: option.splits prod.splits)
      have "string p" using v(2) assms by (auto simp: small_store_def bind_eq_Some_conv)
      moreover have "string y"
        using IH [OF v(3)] variable_ref_le [OF v(1)] variable_string [OF v(1) a(2)] Cons by simp
      ultimately show ?thesis using v(4) by simp
    qed
  qed
qed

section \<open>The function\<close>

text \<open>The fresh buffer has room for the source and its zero.\<close>

lemma first_room:
  assumes "BUF_MEM_new new_ok = Some buf" "BUF_MEM_grow env buf (of_nat (length s + 1)) = (buf', grown)"
    and "grown \<noteq> 0" "length s < 2 ^ 62"
  shows "room_for buf' [] (length s)"
proof -
  have "buf_ok buf" using assms(1) by (auto simp: BUF_MEM_new_def buf_ok_def split: if_splits)
  moreover have l: "unat (of_nat (length s + 1) :: u64) = length s + 1"
    by (rule unat_of_nat_u64) (use assms(4) in simp)
  ultimately show ?thesis
    using grow_spec [of buf env "of_nat (length s + 1)" buf' grown] assms(2-4)
    by (auto simp: room_for_def split: if_splits simp del: of_nat_add)
qed

lemma cstring_store:
  assumes "room_for buf out 0" "string out"
  shows "\<exists>buf'. buf_store buf (length out) [0] = Some buf' \<and> cstring buf' 0 = out"
proof -
  have "length out + 1 \<le> length (buf_data buf)" "take (length out) (buf_data buf) = out"
    using assms(1) by (auto simp: room_for_def buf_ok_def word_le_nat_alt)
  moreover have "takeWhile (\<lambda>b. b \<noteq> 0) (out @ 0 # t) = out" for t
    using assms(2) by (subst takeWhile_append2) (auto simp: string_def)
  ultimately show ?thesis by (simp add: buf_store_def cstring_def)
qed

lemma str_copy_expands:
  assumes "conf_ok c" "small_store (conf_store c)" "string from" "length from < 2 ^ 62"
    and "sec \<noteq> None \<or> 36 \<notin> set from"
  shows "\<exists>r. str_copy new_ok env c sec from = Some r \<and>
    (\<forall>x. r = Some x \<longrightarrow> expand (conf_store c) sec from = Some x \<and> string x \<and> length x < 2 ^ 62)"
proof (cases "BUF_MEM_new new_ok")
  case None
  then show ?thesis by (simp add: str_copy_def)
next
  case (Some b0)
  obtain buf grown where g: "BUF_MEM_grow (env 0) b0 (of_nat (length from + 1)) = (buf, grown)" by fastforce
  show ?thesis
  proof (cases "grown = 0")
    case True
    then show ?thesis using Some g by (simp add: str_copy_def)
  next
    case False
    then have "room_for buf [] (length from)" using first_room [OF Some g _ assms(4)] by simp
    then have cp: "copies (copy_loop_conf env c sec 1 buf 0 from) [] (expand (conf_store c) sec from)"
      using copy_loop_expands [OF assms(1,2,3), of buf "[]" sec env 1] assms(5) by simp
    then consider "copy_loop_conf env c sec 1 buf 0 from = Some None"
      | b x where "copy_loop_conf env c sec 1 buf 0 from = Some (Some (b, length x))"
          "expand (conf_store c) sec from = Some x" "room_for b x 0"
      by (auto simp: copies_def split: option.splits)
    then show ?thesis
    proof cases
      case 1
      then show ?thesis using Some g False by (simp add: str_copy_def)
    next
      case (2 b x)
      have x: "string x" using expand_string [OF assms(2,3) 2(2)] .
      moreover have "length x < 2 ^ 62" using 2(3) by (simp add: room_for_def)
      ultimately show ?thesis
        using cstring_store [OF 2(3) x] 2(1,2) Some g False by (auto simp: str_copy_def)
    qed
  qed
qed

text \<open>Without variables, nothing but the first allocation can fail.\<close>

definition plain :: "u8 \<Rightarrow> bool" where
  "plain a \<longleftrightarrow> \<not> IS_QUOTE a \<and> \<not> IS_DQUOTE a \<and> \<not> IS_ESC a \<and> a \<noteq> 36 \<and> a \<noteq> 0"

lemma expand_plain: "list_all plain s \<Longrightarrow> expand st sec s = Some s"
  by (induction s) (simp_all add: expand.simps plain_def)

lemma copy_plain:
  "list_all plain s \<Longrightarrow> room_for buf out (length s) \<Longrightarrow>
    \<exists>b. copy_loop_conf env c sec k buf (length out) s = Some (Some (b, length (out @ s))) \<and> room_for b (out @ s) 0"
proof (induction s arbitrary: buf out)
  case Nil
  then show ?case by (simp add: copy_loop_conf.simps)
next
  case (Cons a s)
  obtain b where "buf_store buf (length out) [a] = Some b" "room_for b (out @ [a]) (length s)"
    using room_store [OF Cons.prems(2), of "[a]" "length s"] by auto
  then show ?case
    using Cons.IH [of b "out @ [a]"] Cons.prems(1)
    by (simp add: copy_loop_conf.simps [of _ _ _ _ _ _ "a # s"] plain_def eof_iff)
qed

lemma str_copy_plain:
  assumes "list_all plain s" "length s < 2 ^ 62" "size_ok (env 0) = (\<lambda>n. True)"
  shows "str_copy True env c sec s = Some (Some s)"
proof -
  let ?b = "\<lparr>buf_length = 0, buf_data = [], buf_max = 0\<rparr>"
  have new: "BUF_MEM_new True = Some ?b" by (simp add: BUF_MEM_new_def)
  obtain buf grown where g: "BUF_MEM_grow (env 0) ?b (of_nat (length s + 1)) = (buf, grown)" by fastforce
  have u: "unat (of_nat (length s + 1) :: u64) = length s + 1"
    by (rule unat_of_nat_u64) (use assms(2) in simp)
  then have "snd (BUF_MEM_reserve (env 0) ?b (of_nat (length s + 1)))"
    using assms(2,3) by (intro reserve_granted) (simp_all del: of_nat_add)
  moreover have "of_nat (length s + 1) \<noteq> (0 :: u64)"
    using u by (metis add_is_0 unat_0 zero_neq_one)
  ultimately have "grown \<noteq> 0" using g by (auto simp: BUF_MEM_grow_def split: prod.splits)
  then have "room_for buf [] (length s)" using first_room [OF new g _ assms(2)] by simp
  from copy_plain [OF assms(1) this, of env c sec 1] obtain b
    where b: "copy_loop_conf env c sec 1 buf 0 s = Some (Some (b, length s))" "room_for b s 0" by auto
  have "string s" using assms(1) by (auto simp: string_def plain_def list_all_iff)
  then show ?thesis
    using cstring_store [OF b(2)] b(1) new g \<open>grown \<noteq> 0\<close> by (auto simp: str_copy_def)
qed

end
