(* ===== verification/ConfLine.thy ===== *)
theory ConfLine
  imports ConfCopy
begin

text \<open>
  Handling one line of a file: \<open>run_line\<close> is what a line means for the store of sections and strings, and
  \<open>do_line\<close>, with any allocator that hands out memory not in use, either fails or does that.
\<close>

section \<open>What a line means\<close>

definition assign_store :: "store \<Rightarrow> bytes \<Rightarrow> bytes \<Rightarrow> bytes \<Rightarrow> store" where
  "assign_store st s n x = st(s \<mapsto> (case st s of None \<Rightarrow> Map.empty | Some m \<Rightarrow> m)(n \<mapsto> x))"

definition enter_store :: "store \<Rightarrow> bytes \<Rightarrow> store" where
  "enter_store st s = (if st s = None then st(s \<mapsto> Map.empty) else st)"

definition run_line :: "bytes \<Rightarrow> store \<times> bytes \<Rightarrow> (store \<times> bytes) option" where
  "run_line buf = (\<lambda>(st, sec). case parse_line buf of
       Blank \<Rightarrow> Some (st, sec)
     | Missing_bracket \<Rightarrow> None
     | Missing_equal \<Rightarrow> None
     | Header h \<Rightarrow> map_option (\<lambda>s. (enter_store st s, s)) (expand st None h)
     | Assign psec n v \<Rightarrow>
         (let s = (case psec of None \<Rightarrow> sec | Some x \<Rightarrow> x)
          in map_option (\<lambda>x. (assign_store st s n x, sec)) (expand st (Some s) v)))"

section \<open>The parts of a line are parts of it\<close>

definition part_of :: "bytes \<Rightarrow> bytes \<Rightarrow> bool" where
  "part_of s t \<longleftrightarrow> set s \<subseteq> set t \<and> length s \<le> length t"

lemma part_refl [simp]: "part_of s s" "part_of [] s"
  by (simp_all add: part_of_def)

lemma part_trans [trans]: "part_of s t \<Longrightarrow> part_of t u \<Longrightarrow> part_of s u"
  by (auto simp: part_of_def)

lemma part_string: "part_of s t \<Longrightarrow> string t \<Longrightarrow> string s"
  by (auto simp: part_of_def string_def)

lemma part_Cons: "part_of s t \<Longrightarrow> part_of s (c # t)" "part_of s t \<Longrightarrow> part_of (c # s) (c # t)"
  by (auto simp: part_of_def)

lemma part_tl: "part_of (tl s) s"
  by (cases s) (auto simp: part_of_def)

lemma part_scans: "part_of (eat_ws s) s" "part_of (scan_esc s) s" "part_of (upto_ptr s e) s"
proof -
  show "part_of (eat_ws s) s" by (induction s) (auto intro: part_Cons)
  show "part_of (scan_esc s) s" by (auto simp: scan_esc_def intro: part_tl part_trans [OF part_tl])
  show "part_of (upto_ptr s e) s" by (auto simp: part_of_def upto_ptr_def dest: in_set_takeD)
qed

lemma part_alpha: "part_of (eat_alpha_numeric s) s"
proof (induction s rule: eat_alpha_numeric.induct)
  case (2 c s)
  then show ?case using part_scans(2) [of "c # s"] by (auto intro: part_trans part_Cons)
qed simp

lemma part_quotes: "part_of (scan_quote_rest q s) s" "part_of (scan_dquote_rest q s) s"
proof -
  show "part_of (scan_quote_rest q s) s"
    by (induction q s rule: scan_quote_rest.induct) (auto intro: part_Cons part_trans [OF _ part_tl])
  show "part_of (scan_dquote_rest q s) s"
    by (induction q s rule: scan_dquote_rest.induct) (auto intro: part_Cons part_trans [OF _ part_tl])
qed

lemma part_scan_strings: "part_of (scan_quote s) (tl s)" "part_of (scan_dquote s) (tl s)"
  by (simp_all add: scan_quote_def scan_dquote_def part_quotes)

text \<open>What is kept of a line consists of pieces of it, in order.\<close>

lemma part_pieces: "part_of r e \<Longrightarrow> part_of e s \<Longrightarrow> part_of (take (length s - length e) s @ r) s"
  unfolding part_of_def by (auto dest: in_set_takeD)

lemma part_clear_rest: "part_of (clear_rest s) s"
proof (induction s rule: clear_rest.induct)
  case (2 c s)
  have q: "part_of (scan_quote (c # s)) (c # s)" "part_of (scan_dquote (c # s)) (c # s)"
    using part_scan_strings [of "c # s"] by (auto intro: part_Cons)
  note e = part_scans(2) [of "c # s"]
  show ?case
    using 2 part_pieces [OF _ q(1)] part_pieces [OF _ q(2)] part_pieces [OF _ e] by (auto intro: part_Cons)
qed simp

lemma part_clear: "part_of (clear_comments s) s"
  by (induction s) (auto intro: part_Cons part_clear_rest simp del: clear_rest.simps(2))

lemma part_trim: "part_of (trim_value s) s"
  by (auto simp: part_of_def trim_value_def dest: set_dropWhileD split: list.splits
      intro: order.trans [OF length_dropWhile_le])

lemma parse_parts:
  "parse_line buf = Header h \<Longrightarrow> part_of h buf"
  "parse_line buf = Assign psec n v \<Longrightarrow> part_of v buf \<and> part_of n buf"
proof -
  define s where "s = eat_ws (clear_comments buf)"
  have s: "part_of s buf" unfolding s_def by (rule part_trans [OF part_scans(1) part_clear])
  note p = parse_line_def [unfolded Let_def, of buf, folded s_def]
  have start: "part_of (eat_ws (tl s)) buf"
    by (rule part_trans [OF part_scans(1) part_trans [OF part_tl s]])
  show "part_of h buf" if "parse_line buf = Header h"
    using that part_trans [OF part_scans(3) start] by (auto simp: p split: if_splits option.splits)
  show "part_of v buf \<and> part_of n buf" if h: "parse_line buf = Assign psec n v"
  proof -
    define e where "e = eat_alpha_numeric s"
    have e: "part_of e buf" unfolding e_def by (rule part_trans [OF part_alpha s])
    have tt: "part_of (tl (tl e)) buf" by (rule part_trans [OF part_trans [OF part_tl part_tl] e])
    have vv: "part_of (trim_value (eat_ws (tl (eat_ws r)))) buf" if "part_of r buf" for r
      by (rule part_trans [OF part_trim part_trans [OF part_scans(1) part_trans [OF part_tl part_trans [OF part_scans(1) that]]]])
    show ?thesis
      using h vv [OF part_trans [OF part_alpha tt]] vv [OF e] part_trans [OF part_scans(3) tt] part_trans [OF part_scans(3) s]
      by (auto simp: p e_def [symmetric] split: if_splits option.splits)
  qed
qed

section \<open>Sections and strings\<close>

lemma stacks_small_mono: "stacks_small n h \<Longrightarrow> n \<le> m \<Longrightarrow> stacks_small m h"
  using stack_small_mono by (fastforce simp: stacks_small_def)

lemma takes_memory_refl: "takes_memory c vs ns c"
  by (auto simp: takes_memory_def)

text \<open>A section is entered: the others, and the objects in use, are the same.\<close>

definition entered :: "section_env \<Rightarrow> CONF \<Rightarrow> bytes \<Rightarrow> nat \<Rightarrow> CONF \<Rightarrow> ptr \<Rightarrow> bool" where
  "entered env c s N c' p \<longleftrightarrow> conf_ok c' \<and> conf_store c' = enter_store (conf_store c) s \<and>
     conf_map c' (Some s, None) = Some p \<and> (\<forall>k q. conf_map c k = Some q \<longrightarrow> conf_map c' k = Some q) \<and>
     takes_memory c {sec_addr env} {item_addr (sec_mem env)} c' \<and> objects c' \<subseteq> insert (sec_addr env) (objects c) \<and>
     (\<forall>q. q \<noteq> sec_addr env \<longrightarrow> vals c' q = vals c q) \<and> stacks_small N (vals c')"

lemma entered_refl:
  assumes "conf_ok c" "conf_map c (Some s, None) = Some p" "stacks_small N (vals c)"
  shows "entered env c s N c p"
  using assms by (auto simp: entered_def enter_store_def conf_store_def takes_memory_refl)

lemma takes_memory_trans:
  "takes_memory c vs ns c1 \<Longrightarrow> takes_memory c1 vs' ns' c2 \<Longrightarrow> takes_memory c (vs \<union> vs') (ns \<union> ns') c2"
  unfolding takes_memory_def by blast

lemma open_section_spec:
  assumes "conf_ok c" "vals c (sec_addr env) = None" "item_addr (sec_mem env) \<notin> nodes c" "stacks_small N (vals c)"
  shows "\<exists>c' r. open_section env c s = Run c' r \<and> (\<forall>p. r = Some p \<longrightarrow> entered env c s N c' p) \<and>
    (section_granted env \<longrightarrow> r \<noteq> None)"
proof -
  obtain p where p: "get_section c (Some s) = Some p" "p = 0 \<longleftrightarrow> conf_store c s = None"
      "p \<noteq> 0 \<longrightarrow> conf_map c (Some s, None) = Some p"
    using get_section_store [OF assms(1), of s] by (elim exE conjE) rule
  show ?thesis
  proof (cases "p = 0")
    case True
    then have none: "conf_map c (Some s, None) = None" using p(2) by (auto simp: conf_store_def split: if_splits)
    have e: "open_section env c s = NCONF_new_section env c s"
      "enter_store (conf_store c) s = (conf_store c)(s \<mapsto> Map.empty)"
      using True p(1,2) by (simp_all add: open_section_def enter_store_def)
    obtain c' r where n: "NCONF_new_section env c s = Run c' r" "conf_ok c'"
      "case r of None \<Rightarrow> conf_store c' = conf_store c
       | Some p \<Rightarrow> conf_store c' = (conf_store c)(s \<mapsto> Map.empty) \<and> conf_map c' = (conf_map c)((Some s, None) \<mapsto> p)"
      "takes_memory c {sec_addr env} {item_addr (sec_mem env)} c'" "objects c' \<subseteq> insert (sec_addr env) (objects c)"
      "\<forall>q. q \<noteq> sec_addr env \<longrightarrow> vals c' q = vals c q" "stacks_small N (vals c) \<longrightarrow> stacks_small N (vals c')"
      "section_granted env \<longrightarrow> r \<noteq> None"
      using new_section_spec [OF assms(1) none assms(2) assms(3) [unfolded nodes_def], of N] by (elim exE conjE) rule
    then have "entered env c s N c' q" if "r = Some q" for q
      using that none assms(4) e(2) by (auto simp: entered_def)
    then show ?thesis using n(1,8) e(1) by (intro exI [of _ c'] exI [of _ r]) simp
  next
    case False
    then have "open_section env c s = Run c (Some p)" using p(1) by (simp add: open_section_def)
    then show ?thesis using p(3) False entered_refl [OF assms(1) _ assms(4)] by simp
  qed
qed

lemma small_enter: "small_store st \<Longrightarrow> small_store (enter_store st s)"
  by (auto simp: small_store_def enter_store_def)

lemma small_assign: "small_store st \<Longrightarrow> string x \<Longrightarrow> length x < 2 ^ 62 \<Longrightarrow> small_store (assign_store st s n x)"
  by (auto simp: small_store_def assign_store_def split: option.splits if_splits)

lemma assign_enter: "assign_store (enter_store st s) s n x = assign_store st s n x"
  by (auto simp: assign_store_def enter_store_def)

text \<open>Memory that is not in use when a line is handled.\<close>

definition fresh_line :: "line_env \<Rightarrow> CONF \<Rightarrow> bool" where
  "fresh_line env c \<longleftrightarrow> vals c (cv_addr env) = None \<and> vals c (sec_addr (new_sec env)) = None \<and>
     cv_addr env \<noteq> sec_addr (new_sec env) \<and> item_addr (sec_mem (new_sec env)) \<notin> nodes c \<and>
     item_addr (str_mem (new_str env)) \<notin> nodes c \<and>
     item_addr (str_mem (new_str env)) \<noteq> item_addr (sec_mem (new_sec env)) \<and> str_dup_ok (new_str env)"

definition line_memory :: "line_env \<Rightarrow> CONF \<Rightarrow> CONF \<Rightarrow> bool" where
  "line_memory env = (\<lambda>c. takes_memory c {cv_addr env, sec_addr (new_sec env)}
     {item_addr (sec_mem (new_sec env)), item_addr (str_mem (new_str env))})"

definition line_granted :: "line_env \<Rightarrow> bool" where
  "line_granted env \<longleftrightarrow> cv_addr env \<noteq> 0 \<and> name_ok env \<and> section_granted (new_sec env) \<and> string_granted (new_str env)"

text \<open>A line is handled: the current section's object is what it was.\<close>

definition assigned :: "line_env \<Rightarrow> CONF \<Rightarrow> bytes \<Rightarrow> bytes \<Rightarrow> bytes \<Rightarrow> nat \<Rightarrow> CONF \<Rightarrow> bool" where
  "assigned env c s n x N c' \<longleftrightarrow> conf_ok c' \<and> conf_store c' = assign_store (conf_store c) s n x \<and>
     (\<forall>t q. conf_map c (t, None) = Some q \<longrightarrow> conf_map c' (t, None) = Some q) \<and>
     line_memory env c c' \<and> stacks_small (N + 1) (vals c')"

text \<open>The end of an assignment, when the value object is filled.\<close>

lemma add_spec:
  assumes "vals c (cv_addr env) = Some (zero_value\<lparr>v_name := Some n, v_value := Str x\<rparr>)" "cv_addr env \<noteq> 0"
    and "cv_addr env \<notin> objects c" "stacks_small N (vals c)" "N < 2 ^ 58"
    and "entered (new_sec env) c s N c1 tv" "cv_addr env \<noteq> sec_addr (new_sec env)" "str_dup_ok (new_str env)"
    and "item_addr (str_mem (new_str env)) \<notin> nodes c" "item_addr (str_mem (new_str env)) \<noteq> item_addr (sec_mem (new_sec env))"
  shows "\<exists>c' r. add_string (new_str env) c1 tv (cv_addr env) = Run c' r \<and>
    (r = Some () \<longrightarrow> assigned env c s n x N c') \<and> (string_granted (new_str env) \<longrightarrow> r = Some ())"
proof -
  have e: "conf_ok c1" "conf_map c1 (Some s, None) = Some tv" "vals c1 (cv_addr env) = vals c (cv_addr env)"
      "takes_memory c {sec_addr (new_sec env)} {item_addr (sec_mem (new_sec env))} c1" "stacks_small N (vals c1)"
    using assms(6,7) by (auto simp: entered_def)
  have "cv_addr env \<notin> data ` set (lh_items (table c1))"
    using assms(3,6,7) by (auto simp: entered_def objects_def)
  moreover have "item_addr (str_mem (new_str env)) \<notin> addr ` set (lh_items (table c1))"
    using e(4) assms(9,10) by (auto simp: takes_memory_def nodes_def)
  moreover have "vals c1 (cv_addr env) = Some \<lparr>v_section = None, v_name = Some n, v_value = Str x\<rparr>"
    using e(3) assms(1) by (simp add: zero_value_def)
  ultimately obtain c' r where r: "add_string (new_str env) c1 tv (cv_addr env) = Run c' r"
      "r = Some () \<longrightarrow> string_done (new_str env) c1 s n x (cv_addr env) N c'" "string_granted (new_str env) \<longrightarrow> r = Some ()"
    using add_string_spec [OF e(1,2) _ assms(2) _ assms(8) _ e(5) assms(5)] by blast
  have "assigned env c s n x N c'" if "string_done (new_str env) c1 s n x (cv_addr env) N c'"
  proof -
    have st: "conf_store c1 = enter_store (conf_store c) s" using assms(6) by (simp add: entered_def)
    have "(conf_store c1)(s \<mapsto> (the (conf_store c1 s))(n \<mapsto> x)) = assign_store (conf_store c) s n x"
      unfolding st by (auto simp: enter_store_def assign_store_def)
    moreover have "conf_map c1 (t, None) = Some q" if "conf_map c (t, None) = Some q" for t q
      using assms(6) that by (simp add: entered_def)
    moreover have "line_memory env c c'"
      using takes_memory_trans [OF e(4), of "{cv_addr env}" "{item_addr (str_mem (new_str env))}" c']
        \<open>string_done _ _ _ _ _ _ _ _\<close> by (simp add: line_memory_def string_done_def insert_commute)
    ultimately show ?thesis using that by (simp add: assigned_def string_done_def)
  qed
  then show ?thesis using r by blast
qed

text \<open>An assignment with an allocator whose memory is not in use.\<close>

lemma assign_spec:
  assumes "conf_ok c" "small_store (conf_store c)" "conf_map c (Some sec, None) = Some sv"
    and "fresh_line env c" "stacks_small N (vals c)" "N < 2 ^ 58"
    and "string v" "length v < 2 ^ 62"
    and s: "s = (case psec of None \<Rightarrow> sec | Some x \<Rightarrow> x)"
  shows "\<exists>c' r. assign env c sec sv psec n v = Run c' r \<and>
    (r = Some () \<longrightarrow> (\<exists>x. expand (conf_store c) (Some s) v = Some x \<and> string x \<and> length x < 2 ^ 62 \<and> assigned env c s n x N c')) \<and>
    (line_granted env \<and> (\<forall>c. str_copy (copy_new_ok env) (copy_mem env) c (Some s) v = Some (Some v)) \<longrightarrow> r = Some ())"
proof -
  let ?v = "cv_addr env"
  let ?c1 = "c\<lparr>vals := (vals c)(?v \<mapsto> zero_value\<lparr>v_name := Some n\<rparr>)\<rparr>"
  have fr: "vals c ?v = None" "vals c (sec_addr (new_sec env)) = None" "?v \<noteq> sec_addr (new_sec env)"
      "item_addr (sec_mem (new_sec env)) \<notin> nodes c" "item_addr (str_mem (new_str env)) \<notin> nodes c"
      "item_addr (str_mem (new_str env)) \<noteq> item_addr (sec_mem (new_sec env))" "str_dup_ok (new_str env)"
    using assms(4) by (simp_all add: fresh_line_def)
  have fresh: "?v \<notin> data ` set (lh_items (table c))"
    using assms(1) fr(1) by (auto simp: conf_ok_def table_ok_def)
  have t: "table_ok c" using assms(1) by (simp add: conf_ok_def)
  note ok = fresh_object_ok [OF assms(1) fresh] and obj = fresh_object [OF t fresh]
  show ?thesis
  proof (cases "?v = 0 \<or> \<not> name_ok env")
    case True
    then show ?thesis by (auto simp: assign_def CONF_VALUE_new_def line_granted_def)
  next
    case False
    obtain cp where cp: "str_copy (copy_new_ok env) (copy_mem env) ?c1 (Some s) v = Some cp"
        "\<And>x. cp = Some x \<Longrightarrow> expand (conf_store c) (Some s) v = Some x \<and> string x \<and> length x < 2 ^ 62"
    proof -
      have "small_store (conf_store ?c1)" using assms(2) ok(2) by simp
      from str_copy_expands [OF ok(1) this assms(7,8), of "Some s" "copy_new_ok env" "copy_mem env"]
      show ?thesis using that unfolding ok(2) by fastforce
    qed
    show ?thesis
    proof (cases cp)
      case None
      then show ?thesis
        using False cp(1) by (auto simp: assign_def CONF_VALUE_new_def Let_def s [symmetric] intro!: exI [of _ ?c1])
    next
      case (Some x)
      let ?c2 = "c\<lparr>vals := (vals c)(?v \<mapsto> zero_value\<lparr>v_name := Some n, v_value := Str x\<rparr>)\<rparr>"
      have c2: "conf_ok ?c2" "conf_store ?c2 = conf_store c" "conf_map ?c2 = conf_map c"
        using ok obj(2) by simp_all
      have sm: "stacks_small N (vals ?c2)"
        using assms(5) by (auto simp: stacks_small_def value_at_def)
      have nd: "nodes ?c2 = nodes c" "objects ?c2 = objects c" by (simp_all add: nodes_def objects_def)
      obtain c3 r3 where r3: "(if s \<noteq> sec then open_section (new_sec env) ?c2 s else Run ?c2 (Some sv)) = Run c3 r3"
          "\<And>p. r3 = Some p \<Longrightarrow> entered (new_sec env) ?c2 s N c3 p" "section_granted (new_sec env) \<longrightarrow> r3 \<noteq> None"
      proof (cases "s = sec")
        case True
        then show ?thesis using that [of ?c2 "Some sv"] entered_refl [OF c2(1) _ sm] assms(3) c2(3) by simp
      next
        case False
        have "vals ?c2 (sec_addr (new_sec env)) = None" using fr by simp
        moreover have "item_addr (sec_mem (new_sec env)) \<notin> nodes ?c2" using fr nd by simp
        ultimately obtain c' r where "open_section (new_sec env) ?c2 s = Run c' r"
            "\<forall>p. r = Some p \<longrightarrow> entered (new_sec env) ?c2 s N c' p" "section_granted (new_sec env) \<longrightarrow> r \<noteq> None"
          using open_section_spec [OF c2(1) _ _ sm, of "new_sec env" s] by blast
        then show ?thesis using that False by simp
      qed
      have run: "assign env c sec sv psec n v = (case r3 of None \<Rightarrow> Run (drop_value c3 ?v) None
        | Some tv \<Rightarrow> (case add_string (new_str env) c3 tv ?v of
             Crash \<Rightarrow> Crash | Run c None \<Rightarrow> Run (drop_value c ?v) None | Run c (Some u) \<Rightarrow> Run c (Some u)))"
        using False cp(1) r3(1) Some
        by (simp add: assign_def CONF_VALUE_new_def Let_def s [symmetric])
      show ?thesis
      proof (cases r3)
        case None
        then show ?thesis using run r3(3) by (simp add: line_granted_def)
      next
        case (Some tv)
        have vv: "vals ?c2 ?v = Some (zero_value\<lparr>v_name := Some n, v_value := Str x\<rparr>)" by simp
        have z: "?v \<noteq> 0" "?v \<notin> objects ?c2" "item_addr (str_mem (new_str env)) \<notin> nodes ?c2"
          using False fresh fr(5) nd by (simp_all add: objects_def)
        obtain c' r where r: "add_string (new_str env) c3 tv ?v = Run c' r"
            "r = Some () \<longrightarrow> assigned env ?c2 s n x N c'" "string_granted (new_str env) \<longrightarrow> r = Some ()"
          using add_spec [OF vv z(1,2) sm assms(6) r3(2) [OF Some] fr(3,7) z(3) fr(6)] by blast
        have "assigned env c s n x N c'" if "assigned env ?c2 s n x N c'"
          using that c2 by (auto simp: assigned_def line_memory_def takes_memory_def nodes_def)
        then show ?thesis
          using run r cp(2) [OF \<open>cp = Some x\<close>] Some by (auto simp: line_granted_def split: option.splits)
      qed
    qed
  qed
qed

section \<open>Lines\<close>

text \<open>The state of a load between two lines, in section \<open>sec\<close>.\<close>

definition ready :: "CONF \<Rightarrow> bytes \<Rightarrow> ptr \<Rightarrow> nat \<Rightarrow> bool" where
  "ready c sec sv N \<longleftrightarrow> conf_ok c \<and> small_store (conf_store c) \<and> conf_map c (Some sec, None) = Some sv \<and>
     stacks_small N (vals c)"

text \<open>A line whose section header, if it is one, has no variable; and one without quotes, escapes and
  variables in what it copies.\<close>

definition header_constant :: "bytes \<Rightarrow> bool" where
  "header_constant buf \<longleftrightarrow> (case parse_line buf of Header h \<Rightarrow> 36 \<notin> set h | _ \<Rightarrow> True)"

definition plain_line :: "bytes \<Rightarrow> bool" where
  "plain_line buf \<longleftrightarrow> (case parse_line buf of Blank \<Rightarrow> True | Header h \<Rightarrow> list_all plain h
     | Assign psec n v \<Rightarrow> list_all plain v | _ \<Rightarrow> False)"

definition copy_granted :: "line_env \<Rightarrow> bool" where
  "copy_granted env \<longleftrightarrow> copy_new_ok env \<and> size_ok (copy_mem env 0) = (\<lambda>n. True)"

lemma copied_plain:
  assumes "copy_granted env" "list_all plain s" "length s < 2 ^ 62"
  shows "str_copy (copy_new_ok env) (copy_mem env) c sec s = Some (Some s)"
  using assms str_copy_plain [OF assms(2,3), of "copy_mem env" c sec] by (simp add: copy_granted_def)

text \<open>What \<open>do_line\<close> promises.\<close>

definition line_done ::
  "line_env \<Rightarrow> CONF \<Rightarrow> bytes \<Rightarrow> nat \<Rightarrow> bytes \<Rightarrow> (bytes \<times> ptr) run \<Rightarrow> bool" where
  "line_done env c sec N buf res \<longleftrightarrow> (\<exists>c' r. res = Run c' r \<and>
     (\<forall>sec' sv'. r = Some (sec', sv') \<longrightarrow> run_line buf (conf_store c, sec) = Some (conf_store c', sec') \<and>
        ready c' sec' sv' (N + 1) \<and> line_memory env c c') \<and>
     (line_granted env \<and> copy_granted env \<and> plain_line buf \<longrightarrow> r \<noteq> None))"

lemma header_spec:
  assumes "ready c sec sv N" "fresh_line env c" "string buf" "length buf < 2 ^ 62"
    and "parse_line buf = Header h" "36 \<notin> set h"
  shows "line_done env c sec N buf (do_line env c (sec, sv) buf)"
proof -
  have c: "conf_ok c" "small_store (conf_store c)" "stacks_small N (vals c)" using assms(1) by (simp_all add: ready_def)
  have h: "string h" "length h < 2 ^ 62"
    using parse_parts(1) [OF assms(5)] assms(3,4) part_string by (auto simp: part_of_def)
  obtain cp where cp: "str_copy (copy_new_ok env) (copy_mem env) c None h = Some cp"
      "\<And>x. cp = Some x \<Longrightarrow> expand (conf_store c) None h = Some x \<and> string x \<and> length x < 2 ^ 62"
    using str_copy_expands [OF c(1,2) h, of None "copy_new_ok env" "copy_mem env"] assms(6) by blast
  show ?thesis
  proof (cases cp)
    case None
    then have "\<not> (copy_granted env \<and> plain_line buf)"
      using cp(1) copied_plain [OF _ _ h(2), of env c None] assms(5) by (auto simp: plain_line_def)
    then show ?thesis using None cp(1) assms(5) by (auto simp: do_line_def line_done_def)
  next
    case (Some s)
    have f: "vals c (sec_addr (new_sec env)) = None" "item_addr (sec_mem (new_sec env)) \<notin> nodes c"
      using assms(2) by (simp_all add: fresh_line_def)
    obtain c' r where r: "open_section (new_sec env) c s = Run c' r"
        "\<And>p. r = Some p \<Longrightarrow> entered (new_sec env) c s N c' p" "section_granted (new_sec env) \<longrightarrow> r \<noteq> None"
      using open_section_spec [OF c(1) f c(3), of s] by blast
    have run: "do_line env c (sec, sv) buf = Run c' (map_option (Pair s) r)"
      using cp(1) Some assms(5) r(1) by (simp add: do_line_def split: option.splits)
    have "run_line buf (conf_store c, sec) = Some (conf_store c', s) \<and> ready c' s p (N + 1) \<and> line_memory env c c'"
      if "r = Some p" for p
    proof -
      have e: "conf_ok c'" "conf_store c' = enter_store (conf_store c) s" "conf_map c' (Some s, None) = Some p"
          "takes_memory c {sec_addr (new_sec env)} {item_addr (sec_mem (new_sec env))} c'" "stacks_small N (vals c')"
        using r(2) [OF that] by (simp_all add: entered_def)
      moreover have "line_memory env c c'" using e(4) by (auto simp: line_memory_def takes_memory_def)
      ultimately show ?thesis
        using cp(2) [OF Some] assms(5) small_enter [OF c(2), of s] stacks_small_mono [of N "vals c'" "N + 1"]
        by (simp add: run_line_def ready_def)
    qed
    then show ?thesis unfolding line_done_def run using r(3) by (auto simp: line_granted_def)
  qed
qed

lemma do_line_spec:
  assumes "ready c sec sv N" "N < 2 ^ 58" "fresh_line env c" "string buf" "length buf < 2 ^ 62" "header_constant buf"
  shows "line_done env c sec N buf (do_line env c (sec, sv) buf)"
proof (cases "parse_line buf")
  case Blank
  then show ?thesis
    using assms(1) stacks_small_mono [of N "vals c" "N + 1"]
    by (simp add: line_done_def do_line_def run_line_def ready_def line_memory_def takes_memory_refl)
next
  case (Header h)
  then show ?thesis using header_spec [OF assms(1,3,4,5)] assms(6) by (simp add: header_constant_def)
next
  case (Assign psec n v)
  define s where "s = (case psec of None \<Rightarrow> sec | Some x \<Rightarrow> x)"
  have c: "conf_ok c" "small_store (conf_store c)" "conf_map c (Some sec, None) = Some sv" "stacks_small N (vals c)"
    using assms(1) by (simp_all add: ready_def)
  have v: "string v" "length v < 2 ^ 62"
    using parse_parts(2) [OF Assign] assms(4,5) part_string by (auto simp: part_of_def)
  obtain c' r where r: "assign env c sec sv psec n v = Run c' r"
      "r = Some () \<longrightarrow> (\<exists>x. expand (conf_store c) (Some s) v = Some x \<and> string x \<and> length x < 2 ^ 62 \<and> assigned env c s n x N c')"
      "line_granted env \<and> (\<forall>c. str_copy (copy_new_ok env) (copy_mem env) c (Some s) v = Some (Some v)) \<longrightarrow> r = Some ()"
    using assign_spec [OF c(1,2,3) assms(3) c(4) assms(2) v s_def] by blast
  have run: "do_line env c (sec, sv) buf = Run c' (map_option (\<lambda>u. (sec, sv)) r)"
    using r(1) Assign by (simp add: do_line_def split: option.splits)
  have "run_line buf (conf_store c, sec) = Some (conf_store c', sec) \<and> ready c' sec sv (N + 1) \<and> line_memory env c c'"
    if "r = Some ()"
    using r(2) that c Assign small_assign [OF c(2)]
    by (auto simp: run_line_def ready_def assigned_def s_def)
  then show ?thesis
    unfolding line_done_def run using r(3) copied_plain [OF _ _ v(2), of env] Assign by (auto simp: plain_line_def)
qed (simp_all add: line_done_def do_line_def plain_line_def)

end
