(* ===== verification/ConfGrammar.thy ===== *)
theory ConfGrammar
  imports ConfLine
begin

text \<open>
  The language of configuration files, without reference to the code: character classes by their members,
  inductive predicates for quoted strings, comments, values and the forms of a line. The scanners of
  \<open>conf.c\<close> accept exactly this language: \<open>line_says\<close> is \<open>run_line\<close> on every string.
\<close>

section \<open>Characters\<close>

definition white :: "u8 \<Rightarrow> bool" where
  "white c \<longleftrightarrow> c \<in> {9, 10, 13, 32}"

definition quote :: "u8 \<Rightarrow> bool" where
  "quote c \<longleftrightarrow> c \<in> {34, 39, 96}"

text \<open>Letters, digits and the underscore; with punctuation, the characters of names.\<close>

definition word_char :: "u8 \<Rightarrow> bool" where
  "word_char c \<longleftrightarrow> (48 \<le> c \<and> c \<le> 57) \<or> (65 \<le> c \<and> c \<le> 90) \<or> (97 \<le> c \<and> c \<le> 122) \<or> c = 95"

definition name_char :: "u8 \<Rightarrow> bool" where
  "name_char c \<longleftrightarrow> word_char c \<or> c \<in> {33, 37, 38, 42, 43, 44, 45, 46, 47, 59, 63, 64, 94, 124, 126}"

definition escaped :: "u8 \<Rightarrow> u8" where
  "escaped c = (if c = 98 then 8 else if c = 116 then 9 else if c = 110 then 10 else if c = 114 then 13 else c)"

section \<open>The language\<close>

text \<open>A string in quotes \<open>q\<close>, without the quotes, and the text it stands for; it may lack its closing quote
  at the end of a line, which may also end in a single escape.\<close>

inductive quoted :: "u8 \<Rightarrow> bytes \<Rightarrow> bytes \<Rightarrow> bool" for q where
  quoted_end: "quoted q [] []"
| quoted_char: "c \<noteq> q \<Longrightarrow> c \<noteq> 92 \<Longrightarrow> quoted q s x \<Longrightarrow> quoted q (c # s) (c # x)"
| quoted_escape: "quoted q s x \<Longrightarrow> quoted q (92 # c # s) (c # x)"

definition open_quoted :: "u8 \<Rightarrow> bytes \<Rightarrow> bytes \<Rightarrow> bool" where
  "open_quoted q s x \<longleftrightarrow> quoted q s x \<or> (\<exists>b. s = b @ [92] \<and> quoted q b x)"

text \<open>A line and what is left of it without its comment.\<close>

inductive uncommented :: "bytes \<Rightarrow> bytes \<Rightarrow> bool" where
  uncommented_end: "uncommented [] []"
| uncommented_comment: "uncommented (35 # s) []"
| uncommented_char: "c \<noteq> 35 \<Longrightarrow> c \<noteq> 92 \<Longrightarrow> \<not> quote c \<Longrightarrow> uncommented s t \<Longrightarrow> uncommented (c # s) (c # t)"
| uncommented_quoted: "quote q \<Longrightarrow> quoted q b x \<Longrightarrow> uncommented s t \<Longrightarrow> uncommented (q # b @ q # s) (q # b @ q # t)"
| uncommented_open: "quote q \<Longrightarrow> open_quoted q b x \<Longrightarrow> uncommented (q # b) (q # b)"
| uncommented_escape: "uncommented s t \<Longrightarrow> uncommented (92 # c # s) (92 # c # t)"
| uncommented_last: "uncommented [92] [92]"

text \<open>A variable behind its dollar sign: section, name, and the rest. A name without a section is one of the
  section \<open>sec\<close>.\<close>

inductive refers :: "bytes option \<Rightarrow> bytes \<Rightarrow> bytes \<Rightarrow> bytes \<Rightarrow> bytes \<Rightarrow> bool" where
  refers_here: "list_all word_char n \<Longrightarrow> \<not> word_char (cur e) \<Longrightarrow> take 2 e \<noteq> [58, 58] \<Longrightarrow> refers (Some s) (n @ e) s n e"
| refers_in: "list_all word_char s \<Longrightarrow> list_all word_char n \<Longrightarrow> \<not> word_char (cur e) \<Longrightarrow>
    refers sec (s @ 58 # 58 # n @ e) s n e"

inductive variable :: "bytes option \<Rightarrow> bytes \<Rightarrow> bytes \<Rightarrow> bytes \<Rightarrow> bytes \<Rightarrow> bool" where
  bare: "cur r \<noteq> 123 \<Longrightarrow> cur r \<noteq> 40 \<Longrightarrow> refers sec r s n e \<Longrightarrow> variable sec r s n e"
| braces: "refers sec r s n (125 # e) \<Longrightarrow> variable sec (123 # r) s n e"
| parentheses: "refers sec r s n (41 # e) \<Longrightarrow> variable sec (40 # r) s n e"

text \<open>A value and the text it stands for, by the strings assigned so far.\<close>

inductive expands :: "store \<Rightarrow> bytes option \<Rightarrow> bytes \<Rightarrow> bytes \<Rightarrow> bool" for st sec where
  expands_end: "expands st sec [] []"
| expands_char: "\<not> quote c \<Longrightarrow> c \<noteq> 92 \<Longrightarrow> c \<noteq> 36 \<Longrightarrow> expands st sec s x \<Longrightarrow> expands st sec (c # s) (c # x)"
| expands_quoted: "quote q \<Longrightarrow> quoted q b y \<Longrightarrow> expands st sec s x \<Longrightarrow> expands st sec (q # b @ q # s) (y @ x)"
| expands_open: "quote q \<Longrightarrow> open_quoted q b y \<Longrightarrow> expands st sec (q # b) y"
| expands_escape: "expands st sec s x \<Longrightarrow> expands st sec (92 # c # s) (escaped c # x)"
| expands_last: "expands st sec [92] []"
| expands_variable: "variable sec r s n e \<Longrightarrow> Option.bind (st s) (\<lambda>m. m n) = Some y \<Longrightarrow> expands st sec e x \<Longrightarrow>
    expands st sec (36 # r) (y @ x)"

text \<open>Names, of which those of sections may have blanks inside, and values without blanks around them.\<close>

inductive name :: "bytes \<Rightarrow> bool" where
  name_end: "name []"
| name_plain: "name_char c \<Longrightarrow> name s \<Longrightarrow> name (c # s)"
| name_escape: "name s \<Longrightarrow> name (92 # c # s)"

inductive section_name :: "bytes \<Rightarrow> bool" where
  one_name: "name n \<Longrightarrow> section_name n"
| more_names: "name n \<Longrightarrow> n \<noteq> [] \<Longrightarrow> list_all white w \<Longrightarrow> w \<noteq> [] \<Longrightarrow> section_name h \<Longrightarrow> h \<noteq> [] \<Longrightarrow> section_name (n @ w @ h)"

definition trimmed :: "bytes \<Rightarrow> bool" where
  "trimmed v \<longleftrightarrow> v = [] \<or> \<not> white (hd v) \<and> \<not> white (last v)"

text \<open>The forms of a line: blank, \<open>[section]\<close>, \<open>name = value\<close>, \<open>section::name = value\<close>.\<close>

inductive line_form :: "bytes \<Rightarrow> line \<Rightarrow> bool" where
  blank: "uncommented buf w \<Longrightarrow> list_all white w \<Longrightarrow> line_form buf Blank"
| header: "uncommented buf (w @ 91 # w1 @ h @ w2 @ 93 # rest) \<Longrightarrow> list_all white (w @ w1 @ w2) \<Longrightarrow> section_name h \<Longrightarrow>
    line_form buf (Header h)"
| assignment: "uncommented buf (w @ n @ w1 @ 61 # w2 @ v @ w3) \<Longrightarrow> list_all white (w @ w1 @ w2 @ w3) \<Longrightarrow> name n \<Longrightarrow>
    trimmed v \<Longrightarrow> line_form buf (Assign None n v)"
| assignment_in: "uncommented buf (w @ s @ 58 # 58 # n @ w1 @ 61 # w2 @ v @ w3) \<Longrightarrow> list_all white (w @ w1 @ w2 @ w3) \<Longrightarrow>
    name s \<Longrightarrow> name n \<Longrightarrow> trimmed v \<Longrightarrow> line_form buf (Assign (Some s) n v)"

text \<open>What a line makes of the store and the current section.\<close>

inductive line_says :: "bytes \<Rightarrow> store \<times> bytes \<Rightarrow> store \<times> bytes \<Rightarrow> bool" where
  says_nothing: "line_form buf Blank \<Longrightarrow> line_says buf ss ss"
| says_section: "line_form buf (Header h) \<Longrightarrow> expands st None h s \<Longrightarrow> line_says buf (st, sec) (enter_store st s, s)"
| says_here: "line_form buf (Assign None n v) \<Longrightarrow> expands st (Some sec) v x \<Longrightarrow>
    line_says buf (st, sec) (assign_store st sec n x, sec)"
| says_in: "line_form buf (Assign (Some s) n v) \<Longrightarrow> expands st (Some s) v x \<Longrightarrow>
    line_says buf (st, sec) (assign_store st s n x, sec)"

section \<open>The classes of the code\<close>

text \<open>The table of \<open>conf_def.h\<close>, entry by entry.\<close>

primrec all_from :: "(u8 \<Rightarrow> nat \<Rightarrow> bool) \<Rightarrow> u8 \<Rightarrow> nat list \<Rightarrow> bool" where
  "all_from R i [] = True"
| "all_from R i (m # ms) = (R i m \<and> all_from R (i + 1) ms)"

lemma all_from_nth: "all_from R i ms \<Longrightarrow> k < length ms \<Longrightarrow> R (i + of_nat k) (ms ! k)"
proof (induction ms arbitrary: i k)
  case (Cons m ms)
  then show ?case using Cons.IH [of "i + 1"] by (cases k) (auto simp: add.assoc)
qed simp

lemma class_table: "all_from R 0 CONF_type_default \<Longrightarrow> R c (CONF_type_default ! unat c)"
proof -
  have "length CONF_type_default = 256" by (simp add: CONF_type_default_def)
  then have "unat c < length CONF_type_default" using unat_u8_lt [of c] by simp
  then show "all_from R 0 CONF_type_default \<Longrightarrow> R c (CONF_type_default ! unat c)"
    using all_from_nth [of R 0 CONF_type_default "unat c"] by simp
qed

lemma simple_classes:
  "IS_WS c \<longleftrightarrow> white c" "IS_QUOTE c \<longleftrightarrow> quote c" "IS_ESC c \<longleftrightarrow> c = 92" "IS_COMMENT c \<longleftrightarrow> c = 35" "\<not> IS_DQUOTE c" "\<not> IS_FCOMMENT c"
proof -
  have "all_from (\<lambda>c m. (and m 16 \<noteq> 0 \<longleftrightarrow> white c) \<and> (and m 64 \<noteq> 0 \<longleftrightarrow> quote c) \<and> (and m 32 \<noteq> 0 \<longleftrightarrow> c = 92) \<and>
      (and m 128 \<noteq> 0 \<longleftrightarrow> c = 35) \<and> and m 1024 = 0 \<and> and m 2048 = 0) 0 CONF_type_default"
    by (simp add: CONF_type_default_def white_def quote_def)
  from class_table [OF this, of c]
  show "IS_WS c \<longleftrightarrow> white c" "IS_QUOTE c \<longleftrightarrow> quote c" "IS_ESC c \<longleftrightarrow> c = 92" "IS_COMMENT c \<longleftrightarrow> c = 35" "\<not> IS_DQUOTE c" "\<not> IS_FCOMMENT c"
    by (simp_all add: IS_WS_def IS_QUOTE_def IS_ESC_def IS_COMMENT_def IS_DQUOTE_def IS_FCOMMENT_def has_type_def)
qed

lemma name_classes: "IS_ALPHA_NUMERIC c \<longleftrightarrow> word_char c" "IS_ALPHA_NUMERIC_PUNCT c \<longleftrightarrow> name_char c"
proof -
  have "all_from (\<lambda>c m. and m 263 \<noteq> 0 \<longleftrightarrow> word_char c) 0 CONF_type_default"
    by (simp add: CONF_type_default_def word_char_def) (simp add: word_le_nat_alt)
  from class_table [OF this, of c] show "IS_ALPHA_NUMERIC c \<longleftrightarrow> word_char c" by (simp add: IS_ALPHA_NUMERIC_def has_type_def)
  have "all_from (\<lambda>c m. and m 775 \<noteq> 0 \<longleftrightarrow> name_char c) 0 CONF_type_default"
    by (simp add: CONF_type_default_def name_char_def word_char_def) (simp add: word_le_nat_alt)
  from class_table [OF this, of c] show "IS_ALPHA_NUMERIC_PUNCT c \<longleftrightarrow> name_char c"
    by (simp add: IS_ALPHA_NUMERIC_PUNCT_def has_type_def)
qed

lemmas classes = simple_classes name_classes eof_iff

lemma class_marks [simp]:
  "\<not> quote 0" "\<not> quote 35" "\<not> quote 36" "\<not> quote 92" "\<not> white 0" "\<not> white 58" "\<not> white 61" "\<not> white 91" "\<not> white 93" "\<not> white 92"
  "\<not> name_char 0" "\<not> name_char 58" "\<not> name_char 61" "\<not> name_char 91" "\<not> name_char 93" "\<not> name_char 92"
  "\<not> word_char 0" "\<not> word_char 58" "\<not> word_char 41" "\<not> word_char 125" "\<not> word_char 123" "\<not> word_char 40"
  by (simp_all add: quote_def white_def name_char_def word_char_def word_le_nat_alt)

lemma name_not_white: "name_char c \<Longrightarrow> \<not> white c"
  by (auto simp: name_char_def word_char_def white_def word_le_nat_alt)

lemma unescape_escaped: "unescape c = escaped c"
  by (simp add: unescape_def escaped_def)

lemma cur_simps [simp]: "cur [] = 0" "cur (c # s) = c"
  by (simp_all add: cur_def)

section \<open>Quoted strings\<close>

lemma copy_quoted:
  "quoted q b x \<Longrightarrow> string b \<Longrightarrow> q \<noteq> 0 \<Longrightarrow> q \<noteq> 92 \<Longrightarrow>
    copy_quote q (b @ q # s) = (x, s) \<and> copy_quote q b = (x, []) \<and> copy_quote q (b @ [92]) = (x, []) \<and>
    scan_quote_rest q (b @ q # s) = s \<and> scan_quote_rest q b = [] \<and> scan_quote_rest q (b @ [92]) = []"
  by (induction rule: quoted.induct) (auto simp: classes)

lemma quoted_copied:
  "copy_quote q s = (x, r) \<Longrightarrow> string s \<Longrightarrow> q \<noteq> 0 \<Longrightarrow> q \<noteq> 92 \<Longrightarrow>
    (\<exists>b. quoted q b x \<and> s = b @ q # r) \<or> open_quoted q s x \<and> r = []"
proof (induction q s arbitrary: x r rule: copy_quote.induct)
  case (1 q)
  then show ?case by (simp add: open_quoted_def quoted_end)
next
  case (2 q c s)
  consider "c = q" | "c \<noteq> q" "c = 92" "s = []" | d s' where "c \<noteq> q" "c = 92" "s = d # s'" | "c \<noteq> q" "c \<noteq> 92"
    by (cases s) auto
  then show ?case
  proof cases
    case 1
    then show ?thesis using "2.prems" by (auto simp: classes intro: quoted_end)
  next
    case 2
    then show ?thesis using "2.prems" quoted_end [of q] by (auto simp: classes open_quoted_def)
  next
    case (3 d s')
    obtain y where y: "copy_quote q s' = (y, r)" "x = d # y"
      using "2.prems" 3 by (cases "copy_quote q s'") (auto simp: classes)
    have "(\<exists>b. quoted q b y \<and> s' = b @ q # r) \<or> open_quoted q s' y \<and> r = []"
      using "2.IH"(1) [of y r] "2.prems" 3 y(1) by (simp add: classes)
    then show ?thesis
    proof
      assume "\<exists>b. quoted q b y \<and> s' = b @ q # r"
      then obtain b where "quoted q b y" "s' = b @ q # r" by blast
      then show ?thesis using 3 y(2) quoted_escape [of q b y d] by (intro disjI1 exI [of _ "92 # d # b"]) simp
    next
      assume "open_quoted q s' y \<and> r = []"
      then show ?thesis using 3 y(2) quoted_escape [of q _ y d] unfolding open_quoted_def by (metis append_Cons)
    qed
  next
    case 4
    obtain y where y: "copy_quote q s = (y, r)" "x = c # y"
      using "2.prems" 4 by (cases "copy_quote q s") (auto simp: classes)
    have "(\<exists>b. quoted q b y \<and> s = b @ q # r) \<or> open_quoted q s y \<and> r = []"
      using "2.IH"(2) [of y r] "2.prems" 4 y(1) by (simp add: classes)
    then show ?thesis
    proof
      assume "\<exists>b. quoted q b y \<and> s = b @ q # r"
      then obtain b where "quoted q b y" "s = b @ q # r" by blast
      then show ?thesis using 4 y(2) quoted_char [of c q b y] by (intro disjI1 exI [of _ "c # b"]) simp
    next
      assume "open_quoted q s y \<and> r = []"
      then show ?thesis using 4 y(2) quoted_char [of c q _ y] unfolding open_quoted_def by (metis append_Cons)
    qed
  qed
qed

lemma scan_copied: "string s \<Longrightarrow> q \<noteq> 0 \<Longrightarrow> q \<noteq> 92 \<Longrightarrow> scan_quote_rest q s = snd (copy_quote q s)"
proof (induction q s rule: scan_quote_rest.induct)
  case (2 q c s)
  then show ?case by (cases s) (auto simp: classes)
qed simp

lemma copy_open: "open_quoted q b x \<Longrightarrow> string b \<Longrightarrow> q \<noteq> 0 \<Longrightarrow> q \<noteq> 92 \<Longrightarrow> copy_quote q b = (x, [])"
  by (auto simp: open_quoted_def dest: copy_quoted)

lemma quote_marks: "quote q \<Longrightarrow> q \<noteq> 0 \<and> q \<noteq> 92"
  by auto

section \<open>Comments\<close>

lemma clear_is_rest: "string s \<Longrightarrow> clear_comments s = clear_rest s"
proof (induction s)
  case (Cons c s)
  have "white c \<Longrightarrow> \<not> quote c \<and> c \<noteq> 35 \<and> c \<noteq> 92 \<and> c \<noteq> 0" by (auto simp: white_def quote_def)
  then show ?case using Cons by (auto simp: classes)
qed simp

lemma uncommented_rest: "uncommented s t \<Longrightarrow> string s \<Longrightarrow> clear_rest s = t"
proof (induction rule: uncommented.induct)
  case (uncommented_quoted q b x s t)
  then show ?case
    using copy_quoted [of q b x s] quote_marks [of q] by (auto simp: classes scan_quote_def)
next
  case (uncommented_open q b x)
  then show ?case
    using copy_open [of q b x] scan_copied [of b q] quote_marks [of q] by (auto simp: classes scan_quote_def)
next
  case (uncommented_escape s t c)
  then show ?case by (simp add: classes scan_esc_def)
qed (auto simp: classes scan_esc_def)

lemma rest_uncommented: "string s \<Longrightarrow> uncommented s (clear_rest s)"
proof (induction "length s" arbitrary: s rule: less_induct)
  case less
  show ?case
  proof (cases s)
    case Nil
    then show ?thesis by (simp add: uncommented_end)
  next
    case (Cons c r)
    have c: "c \<noteq> 0" "string r" using less.prems Cons by simp_all
    consider "c = 35" | "quote c" | "c = 92" "r = []" | d r' where "c = 92" "r = d # r'" | "c \<noteq> 35" "\<not> quote c" "c \<noteq> 92"
      by (cases r) auto
    then show ?thesis
    proof cases
      case 1
      then show ?thesis using Cons by (simp add: classes uncommented_comment)
    next
      case 2
      note m = quote_marks [OF 2]
      obtain x e where e: "copy_quote c r = (x, e)" by fastforce
      then have sc: "scan_quote s = e" using scan_copied [OF c(2), of c] m Cons by (simp add: scan_quote_def)
      have "c \<noteq> 35" using 2 by auto
      then have run: "clear_rest s = take (Suc (length r) - length e) s @ clear_rest e"
        using 2 m sc Cons by (simp add: classes)
      from quoted_copied [OF e c(2)] m consider b where "quoted c b x" "r = b @ c # e" | "open_quoted c r x" "e = []"
        by blast
      then show ?thesis
      proof cases
        case (1 b)
        have "uncommented e (clear_rest e)" using less.hyps [of e] 1(2) c(2) Cons by simp
        then show ?thesis using uncommented_quoted [OF 2 1(1)] 1(2) Cons run by simp
      next
        case unclosed: 2
        then show ?thesis using uncommented_open [OF 2] Cons run by simp
      qed
    next
      case 3
      then show ?thesis using Cons by (simp add: classes scan_esc_def uncommented_last)
    next
      case (4 d r')
      then have "uncommented r' (clear_rest r')" using less.hyps [of r'] c(2) Cons by simp
      then show ?thesis using uncommented_escape [of r' "clear_rest r'" d] 4 Cons c by (simp add: classes scan_esc_def)
    next
      case 5
      then have "uncommented r (clear_rest r)" using less.hyps [of r] c(2) Cons by simp
      then show ?thesis using uncommented_char [OF 5(1,3,2)] 5 Cons c by (simp add: classes)
    qed
  qed
qed

lemma uncommented_iff: "string s \<Longrightarrow> uncommented s t \<longleftrightarrow> clear_comments s = t"
  using uncommented_rest rest_uncommented clear_is_rest by metis

section \<open>Values\<close>

lemma takeWhile_words:
  assumes "list_all P n" "\<not> P (cur e)" "\<not> P 0"
  shows "takeWhile P (n @ e) = n \<and> dropWhile P (n @ e) = e"
proof -
  have "takeWhile P e = [] \<and> dropWhile P e = e" using assms(2) by (cases e) auto
  then show ?thesis using assms(1) by (simp add: list_all_iff takeWhile_append2 dropWhile_append2)
qed

lemma words_takeWhile:
  obtains n e where "s = n @ e" "list_all P n" "e = dropWhile P s" "n = takeWhile P s" "P 0 \<or> \<not> P (cur e)"
proof (rule that [of "takeWhile P s" "dropWhile P s"])
  show "list_all P (takeWhile P s)" by (auto simp: list_all_iff dest: set_takeWhileD)
  show "P 0 \<or> \<not> P (cur (dropWhile P s))" 
  proof (cases "dropWhile P s")
    case Nil
    then have "cur (dropWhile P s) = 0" by (simp only: cur_simps)
    then show ?thesis by simp
  next
    case (Cons c r)
    then show ?thesis using hd_dropWhile [of P s] by simp
  qed
qed simp_all

text \<open>The part of \<open>variable_ref\<close> between the braces.\<close>

definition ref_name :: "bytes option \<Rightarrow> bytes \<Rightarrow> bytes option \<times> bytes \<times> bytes" where
  "ref_name sec s =
    (let np = takeWhile word_char s; e = dropWhile word_char s
     in if cur e = 58 \<and> cur (tl e) = 58
        then (Some np, takeWhile word_char (tl (tl e)), dropWhile word_char (tl (tl e))) else (sec, np, e))"

lemma variable_ref_name:
  "variable_ref sec s =
    (let q = (if cur s = 123 then 125 else if cur s = 40 then 41 else 0 :: u8)
     in case ref_name sec (if q \<noteq> 0 then tl s else s) of (cp, np, e) \<Rightarrow>
       if q \<noteq> 0 then (if cur e \<noteq> q then None else Some (cp, np, tl e)) else Some (cp, np, e))"
  by (simp add: variable_ref_def ref_name_def Let_def name_classes [THEN ext, unfolded] name_classes(1))

lemma two_colons: "take 2 e = [58, 58] \<longleftrightarrow> cur e = 58 \<and> cur (tl e) = 58"
proof -
  have "(0 :: u8) \<noteq> 58" by simp
  then show ?thesis by (cases e; cases "tl e") (auto simp: numeral_2_eq_2 simp del: zero_neq_numeral)
qed

lemma refers_iff: "refers sec s sn n e \<longleftrightarrow> ref_name sec s = (Some sn, n, e)"
proof
  show "refers sec s sn n e \<Longrightarrow> ref_name sec s = (Some sn, n, e)"
  proof (induction rule: refers.induct)
    case (refers_here n e s)
    then show ?case using takeWhile_words [of word_char n e] two_colons [of e] by (auto simp: ref_name_def Let_def)
  next
    case (refers_in s n e sec)
    then show ?case
      using takeWhile_words [of word_char s "58 # 58 # n @ e"] takeWhile_words [of word_char n e] by (simp add: ref_name_def Let_def)
  qed
next
  assume r: "ref_name sec s = (Some sn, n, e)"
  obtain m t where m: "s = m @ t" "list_all word_char m" "t = dropWhile word_char s" "m = takeWhile word_char s" "\<not> word_char (cur t)"
    using words_takeWhile [of s word_char] by auto
  show "refers sec s sn n e"
  proof (cases "cur t = 58 \<and> cur (tl t) = 58")
    case True
    then obtain u where t: "t = 58 # 58 # u" by (cases t; cases "tl t") auto
    obtain k v where k: "u = k @ v" "list_all word_char k" "v = dropWhile word_char u" "k = takeWhile word_char u" "\<not> word_char (cur v)"
      using words_takeWhile [of u word_char] by auto
    have "sn = m" "n = k" "e = v" using r True t by (simp_all add: ref_name_def Let_def k(3,4) flip: m(3,4))
    then show ?thesis using refers_in [OF m(2) k(2,5), of sec] m(1) t k(1) by simp
  next
    case False
    then have "sec = Some sn" "n = m" "e = t" using r by (auto simp: ref_name_def Let_def simp flip: m(3,4))
    then show ?thesis using refers_here [OF m(2,5)] False two_colons [of t] m(1) by auto
  qed
qed

lemma variable_iff: "variable sec s sn n e \<longleftrightarrow> variable_ref sec s = Some (Some sn, n, e)"
proof
  show "variable sec s sn n e \<Longrightarrow> variable_ref sec s = Some (Some sn, n, e)"
    by (induction rule: variable.induct) (simp_all add: refers_iff variable_ref_name)
next
  assume v: "variable_ref sec s = Some (Some sn, n, e)"
  consider r where "s = 123 # r" | r where "s = 40 # r" | "cur s \<noteq> 123" "cur s \<noteq> 40" by (cases s) auto
  then show "variable sec s sn n e"
  proof cases
    case (1 r)
    then obtain f where f: "ref_name sec r = (Some sn, n, f)" "cur f = 125" "e = tl f"
      using v by (auto simp: variable_ref_name split: prod.splits if_splits)
    then have "f = 125 # e" by (cases f) auto
    then show ?thesis using f(1) 1 by (simp add: braces refers_iff)
  next
    case (2 r)
    then obtain f where f: "ref_name sec r = (Some sn, n, f)" "cur f = 41" "e = tl f"
      using v by (auto simp: variable_ref_name split: prod.splits if_splits)
    then have "f = 41 # e" by (cases f) auto
    then show ?thesis using f(1) 2 by (simp add: parentheses refers_iff)
  next
    case 3
    then show ?thesis using v by (intro bare) (auto simp: refers_iff variable_ref_name split: prod.splits)
  qed
qed

lemma expands_expand: "expands st sec s x \<Longrightarrow> string s \<Longrightarrow> expand st sec s = Some x"
proof (induction rule: expands.induct)
  case (expands_quoted q b y s x)
  then show ?case
    using copy_quoted [of q b y s] quote_marks [of q]
    by (simp add: expand.simps [of _ _ "q # b @ q # s"] classes)
next
  case (expands_open q b y)
  then show ?case
    using copy_open [of q b y] quote_marks [of q] by (simp add: expand.simps [of _ _ "q # b"] expand.simps [of _ _ "[]"] classes)
next
  case (expands_escape s x c)
  then show ?case by (simp add: expand.simps [of _ _ "92 # c # s"] classes unescape_escaped)
next
  case (expands_variable r s n e y x)
  then have v: "variable_ref sec r = Some (Some s, n, e)" by (simp add: variable_iff)
  have "string e" using variable_string [OF v] expands_variable.prems by simp
  then show ?case using expands_variable v by (simp add: expand.simps [of _ _ "36 # r"] classes)
next
  case (expands_char c s x)
  then show ?case by (simp add: expand.simps [of _ _ "c # s"] classes)
qed (simp_all add: expand.simps classes)

lemma expand_expands: "string s \<Longrightarrow> expand st sec s = Some x \<Longrightarrow> expands st sec s x"
proof (induction "length s" arbitrary: s x rule: less_induct)
  case less
  show ?case
  proof (cases s)
    case Nil
    then show ?thesis using less.prems by (simp add: expand.simps expands_end)
  next
    case (Cons c r)
    have c: "c \<noteq> 0" "string r" using less.prems Cons by simp_all
    note e = less.prems(2) [unfolded Cons expand.simps [of _ _ "c # r"], simplified]
    consider "quote c" | "c = 92" "r = []" | d r' where "c = 92" "r = d # r'" | "c = 36" | "c \<noteq> 36" "\<not> quote c" "c \<noteq> 92"
      by (cases r) auto
    then show ?thesis
    proof cases
      case 1
      obtain y t where y: "copy_quote c r = (y, t)" by fastforce
      obtain z where z: "expand st sec t = Some z" "x = y @ z" using e 1 y by (auto simp: classes)
      from quoted_copied [OF y c(2)] quote_marks [OF 1]
      consider b where "quoted c b y" "r = b @ c # t" | "open_quoted c r y" "t = []" by blast
      then show ?thesis
      proof cases
        case (1 b)
        have "expands st sec t z" using less.hyps [of t z] 1(2) c(2) Cons z(1) by simp
        then show ?thesis using expands_quoted [OF \<open>quote c\<close> 1(1)] 1(2) Cons z(2) by simp
      next
        case 2
        then have "z = []" using z(1) by (simp add: expand.simps)
        then show ?thesis using expands_open [OF \<open>quote c\<close> 2(1)] Cons z(2) by simp
      qed
    next
      case 2
      then show ?thesis using e Cons by (simp add: classes expands_last)
    next
      case (3 d r')
      then obtain z where z: "expand st sec r' = Some z" "x = escaped d # z"
        using e by (auto simp: classes unescape_escaped)
      then have "expands st sec r' z" using less.hyps [of r' z] 3 c Cons by simp
      then show ?thesis using expands_escape [of st sec r' z d] 3 Cons z(2) by simp
    next
      case 4
      then obtain sn n f p z where v: "variable_ref sec r = Some (Some sn, n, f)" "Option.bind (st sn) (\<lambda>m. m n) = Some p"
          "expand st sec f = Some z" "x = p @ z"
        using e by (auto simp: classes split: option.splits prod.splits)
      have "expands st sec f z"
        using less.hyps [of f z] variable_ref_le [OF v(1)] variable_string [OF v(1) c(2)] v(3) Cons by simp
      moreover have "variable sec r sn n f" using v(1) by (simp add: variable_iff)
      ultimately show ?thesis using expands_variable [of sec r sn n f st p z] v(2) 4 Cons v(4) by simp
    next
      case 5
      then obtain z where z: "expand st sec r = Some z" "x = c # z" using e by (auto simp: classes)
      then have "expands st sec r z" using less.hyps [of r z] c Cons by simp
      then show ?thesis using expands_char [OF 5(2,3,1)] Cons z(2) by simp
    qed
  qed
qed

lemma expands_iff: "string s \<Longrightarrow> expands st sec s x \<longleftrightarrow> expand st sec s = Some x"
  using expands_expand expand_expands by blast

section \<open>Lines\<close>

declare find_bracket.simps [simp del]

lemma eat_ws_white: "string s \<Longrightarrow> eat_ws s = dropWhile white s"
  by (induction s) (auto simp: classes)

lemma eat_whites: "list_all white w \<Longrightarrow> eat_ws (w @ s) = eat_ws s"
  by (induction w) (auto simp: classes white_def)

lemma eat_no_white: "\<not> white (cur s) \<Longrightarrow> eat_ws s = s"
  by (cases s) (auto simp: classes)

lemma eaten_ws:
  assumes "string s"
  obtains w where "s = w @ eat_ws s" "list_all white w" "\<not> white (cur (eat_ws s))"
proof -
  obtain w e where w: "s = w @ e" "list_all white w" "e = dropWhile white s" "white 0 \<or> \<not> white (cur e)"
    using words_takeWhile [of s white] by metis
  have "e = eat_ws s" using w(3) eat_ws_white [OF assms] by simp
  then show thesis using that [of w] w(1,2,4) by simp
qed

lemma eat_a_name: "name n \<Longrightarrow> string n \<Longrightarrow> \<not> name_char (cur e) \<Longrightarrow> cur e \<noteq> 92 \<Longrightarrow> eat_alpha_numeric (n @ e) = e"
proof (induction rule: name.induct)
  case name_end
  then show ?case by (cases e) (auto simp: classes)
qed (auto simp: classes scan_esc_def)

text \<open>What is eaten is a name, but for a single escape at the end.\<close>

lemma eaten_name:
  assumes "string s" "eat_alpha_numeric s \<noteq> []"
  obtains n where "s = n @ eat_alpha_numeric s" "name n" "\<not> name_char (cur (eat_alpha_numeric s))" "cur (eat_alpha_numeric s) \<noteq> 92"
proof -
  have "string s \<Longrightarrow> eat_alpha_numeric s \<noteq> [] \<Longrightarrow>
    (\<exists>n. s = n @ eat_alpha_numeric s \<and> name n) \<and> \<not> name_char (cur (eat_alpha_numeric s)) \<and> cur (eat_alpha_numeric s) \<noteq> 92"
  proof (induction s rule: eat_alpha_numeric.induct)
    case (2 c s)
    consider "c = 92" "s = []" | d r where "c = 92" "s = d # r" | "name_char c" "c \<noteq> 92" | "\<not> name_char c" "c \<noteq> 92"
      by (cases s) auto
    then show ?case
    proof cases
      case 1
      then show ?thesis using "2.prems" by (simp add: classes scan_esc_def)
    next
      case (2 d r)
      then have e: "eat_alpha_numeric (c # s) = eat_alpha_numeric r" using "2.prems" by (simp add: classes scan_esc_def)
      have k: "IS_ESC c" "scan_esc (c # s) = r" "string r" using "2.prems" 2 by (simp_all add: classes scan_esc_def)
      note ih = "2.IH"(1) [OF k(1), unfolded k(2), OF k(3) "2.prems"(2) [unfolded e]]
      then obtain n where n: "r = n @ eat_alpha_numeric r" "name n" by blast
      have "c # s = (92 # d # n) @ eat_alpha_numeric (c # s)" unfolding e using n(1) 2 by (metis append_Cons)
      then show ?thesis using name_escape [OF n(2), of d] ih e by metis
    next
      case 3
      then have e: "eat_alpha_numeric (c # s) = eat_alpha_numeric s" by (simp add: classes)
      have k: "\<not> IS_ESC c" "\<not> \<not> IS_ALPHA_NUMERIC_PUNCT c" "string s" using "2.prems" 3 by (simp_all add: classes)
      note ih = "2.IH"(2) [OF k "2.prems"(2) [unfolded e]]
      then obtain n where n: "s = n @ eat_alpha_numeric s" "name n" by blast
      have "c # s = (c # n) @ eat_alpha_numeric (c # s)" unfolding e using n(1) by (metis append_Cons)
      then show ?thesis using name_plain [OF 3(1) n(2)] ih e by metis
    next
      case 4
      then show ?thesis using name_end by (auto simp: classes)
    qed
  qed simp
  then show thesis using that assms by blast
qed

lemma upto_append: "upto_ptr (s @ e) e = s"
  by (simp add: upto_ptr_def)

lemma name_start: "name n \<Longrightarrow> n \<noteq> [] \<Longrightarrow> \<not> white (cur (n @ s)) \<and> cur (n @ s) \<noteq> 93"
  by (induction rule: name.induct) (auto dest: name_not_white)

lemma section_start: "section_name h \<Longrightarrow> h \<noteq> [] \<Longrightarrow> \<not> white (cur (h @ s))"
  by (induction rule: section_name.induct) (auto simp: name_start)

lemma white_not_name: "white c \<Longrightarrow> \<not> name_char c \<and> c \<noteq> 92"
  by (auto dest: name_not_white)

lemma bracket_complete:
  "section_name h \<Longrightarrow> string h \<Longrightarrow> list_all white w \<Longrightarrow> h = [] \<longrightarrow> w = [] \<Longrightarrow>
    find_bracket (h @ w @ 93 # s) = Some (w @ 93 # s)"
proof (induction arbitrary: rule: section_name.induct)
  case (one_name n)
  have "\<not> name_char (cur (w @ 93 # s)) \<and> cur (w @ 93 # s) \<noteq> 92"
    using one_name.prems(2) white_not_name by (cases w) auto
  then have "eat_alpha_numeric (n @ w @ 93 # s) = w @ 93 # s" using eat_a_name one_name by blast
  moreover have "eat_ws (w @ 93 # s) = 93 # s" using eat_whites [OF one_name.prems(2)] eat_no_white [of "93 # s"] by simp
  ultimately show ?case by (subst find_bracket.simps) (simp add: Let_def)
next
  case (more_names n v h)
  have "\<not> name_char (cur (v @ h @ w @ 93 # s)) \<and> cur (v @ h @ w @ 93 # s) \<noteq> 92"
    using more_names.hyps(3,4) white_not_name by (cases v) auto
  then have e: "eat_alpha_numeric (n @ v @ h @ w @ 93 # s) = v @ h @ w @ 93 # s"
    using eat_a_name more_names.hyps(1) more_names.prems(1) by simp
  have st: "\<not> white (cur (h @ w @ 93 # s))" using section_start [OF more_names.hyps(5,6)] .
  have p: "eat_ws (v @ h @ w @ 93 # s) = h @ w @ 93 # s"
    using eat_whites [OF more_names.hyps(3)] eat_no_white [OF st] by simp
  have c: "cur (h @ w @ 93 # s) \<noteq> 0" "cur (h @ w @ 93 # s) \<noteq> 93"
  proof -
    show "cur (h @ w @ 93 # s) \<noteq> 0" using more_names.hyps(6) more_names.prems(1) by (cases h) auto
    show "cur (h @ w @ 93 # s) \<noteq> 93"
      using more_names.hyps(5,6) by cases (auto simp: name_start)
  qed
  have "find_bracket (h @ w @ 93 # s) = Some (w @ 93 # s)"
    using more_names by simp
  then show ?case using more_names.hyps(2) c by (subst find_bracket.simps) (simp add: e p Let_def)
qed

lemma bracket_sound:
  "find_bracket ss = Some e \<Longrightarrow> string ss \<Longrightarrow> \<not> white (cur ss) \<Longrightarrow>
    \<exists>h w s. ss = h @ e \<and> e = w @ 93 # s \<and> list_all white w \<and> section_name h"
proof (induction "length ss" arbitrary: ss rule: less_induct)
  case less
  let ?e = "eat_alpha_numeric ss"
  let ?p = "eat_ws ?e"
  note r = less.prems(1) [unfolded find_bracket.simps [of ss] Let_def]
  have ne: "?e \<noteq> []" using r by (auto split: if_splits)
  obtain n where n: "ss = n @ ?e" "name n" using eaten_name [OF less.prems(2) ne] by metis
  have se: "string ?e" using less.prems(2) n(1) by (metis string_simps(3))
  obtain w where w: "?e = w @ ?p" "list_all white w" "\<not> white (cur ?p)" using eaten_ws [OF se] by blast
  show ?case
  proof (cases "cur ?p = 93")
    case True
    then obtain s where "?p = 93 # s" by (cases ?p) auto
    then show ?thesis using r True n w one_name by (metis option.inject)
  next
    case False
    then have p: "cur ?p \<noteq> 0" "length ?p \<noteq> length ss" "find_bracket ?p = Some e" using r by (auto split: if_splits)
    have "length ?p < length ss" using p(2) eat_ws_le [of ?e] eat_alpha_numeric_le [of ss] by simp
    moreover have "string ?p" using se w(1) by (metis string_simps(3))
    ultimately obtain h v s where h: "?p = h @ e" "e = v @ 93 # s" "list_all white v" "section_name h"
      using less.hyps [of ?p] p(3) w(3) by blast
    have hn: "h \<noteq> []"
    proof
      assume "h = []"
      then have "?p = v @ 93 # s" using h(1,2) by simp
      then show False using False w(3) h(3) by (cases v) auto
    qed
    show ?thesis
    proof (cases "w = [] \<or> n = []")
      case True
      then show ?thesis
      proof (cases "n = []")
        case nn: True
        have "w \<noteq> []" using p(2) n(1) w(1) nn by (metis append_Nil)
        then obtain a v where wv: "w = a # v" by (cases w) auto
        have "ss = w @ ?p" using n(1) w(1) nn by (metis append_Nil)
        then have "cur ss = a" unfolding wv append_Cons by (metis cur_simps(2))
        then have "white (cur ss)" using w(2) wv by simp
        then show ?thesis using less.prems(3) by simp
      next
        case nn: False
        then have "w = []" using True by simp
        then have pe: "?p = ?e" using w(1) by simp
        have "\<not> name_char (cur ?e) \<and> cur ?e \<noteq> 92" using eaten_name [OF less.prems(2) ne] by metis
        moreover have "name_char (cur (h @ e)) \<or> cur (h @ e) = 92"
          using h(4) hn
        proof cases
          case one_name
          then show ?thesis using hn by cases auto
        next
          case (more_names k u g)
          then show ?thesis by (auto elim: name.cases)
        qed
        ultimately show ?thesis using h(1) pe by simp
      qed
    next
      case False
      then have "section_name (n @ w @ h)" using more_names n(2) w(2) h(4) hn by simp
      moreover have "ss = (n @ w @ h) @ e" using n(1) w(1) h(1) by simp
      ultimately show ?thesis using h(2,3) by blast
    qed
  qed
qed

lemma ws_is_white: "IS_WS = white"
  by (rule ext) (rule simple_classes(1))

lemma trim_complete:
  assumes "trimmed v" "list_all white w" "list_all white w'"
  shows "trim_value (eat_ws (w @ v @ w')) = v"
proof (cases v)
  case Nil
  have "eat_ws (w @ w' @ []) = eat_ws []" using eat_whites [OF assms(2)] eat_whites [OF assms(3)] by metis
  then show ?thesis using Nil by (simp add: trim_value_def)
next
  case (Cons c u)
  have e: "eat_ws (w @ v @ w') = c # u @ w'"
    using eat_whites [OF assms(2)] eat_no_white [of "v @ w'"] assms(1) Cons by (simp add: trimmed_def)
  have "dropWhile white (rev w' @ rev u) = rev u"
  proof (cases u rule: rev_cases)
    case Nil
    then show ?thesis using assms(3) by (simp add: list_all_iff)
  next
    case (snoc k d)
    then have "\<not> white d" using assms(1) Cons by (simp add: trimmed_def)
    moreover have "\<forall>x \<in> set (rev w'). white x" using assms(3) by (simp add: list_all_iff)
    ultimately show ?thesis using snoc by (subst dropWhile_append2) auto
  qed
  then show ?thesis unfolding e by (simp add: trim_value_def ws_is_white Cons)
qed

lemma trim_sound:
  assumes "string r"
  obtains w w' where "r = w @ trim_value (eat_ws r) @ w'" "list_all white (w @ w')" "trimmed (trim_value (eat_ws r))"
proof -
  obtain w where w: "r = w @ eat_ws r" "list_all white w" "\<not> white (cur (eat_ws r))" using eaten_ws [OF assms] by blast
  show thesis
  proof (cases "eat_ws r")
    case Nil
    show thesis by (rule that [of w "[]"]) (use w Nil in \<open>simp_all add: trim_value_def trimmed_def\<close>)
  next
    case (Cons c u)
    define k where "k = rev (dropWhile white (rev u))"
    define w' where "w' = rev (takeWhile white (rev u))"
    have u: "u = k @ w'" unfolding k_def w'_def by (metis rev_append rev_rev_ident takeWhile_dropWhile_id)
    have t: "trim_value (eat_ws r) = c # k" by (simp add: Cons trim_value_def ws_is_white k_def)
    have "list_all white w'" by (auto simp: w'_def list_all_iff dest: set_takeWhileD)
    moreover have "trimmed (c # k)"
    proof -
      have "\<not> white (last k)" if "k \<noteq> []"
        using that hd_dropWhile [of white "rev u"] by (simp add: k_def last_rev)
      then show ?thesis using w(3) Cons by (simp add: trimmed_def)
    qed
    moreover have "r = w @ (c # k) @ w'" using w(1) Cons u by simp
    ultimately show thesis using that [of w w'] w(2) t by simp
  qed
qed

lemma name_cur: "name n \<Longrightarrow> n \<noteq> [] \<Longrightarrow> name_char (cur (n @ s)) \<or> cur (n @ s) = 92"
  by (induction rule: name.induct) auto

text \<open>The end of an assignment.\<close>

lemma assign_complete:
  assumes "name n" "string n" "list_all white (w @ w' @ w'')" "trimmed v"
  shows "eat_alpha_numeric (n @ w @ 61 # w' @ v @ w'') = w @ 61 # w' @ v @ w''"
    "eat_ws (w @ 61 # w' @ v @ w'') = 61 # w' @ v @ w''" "trim_value (eat_ws (w' @ v @ w'')) = v"
proof -
  have "\<not> name_char (cur (w @ 61 # s)) \<and> cur (w @ 61 # s) \<noteq> 92" for s
    using assms(3) white_not_name by (cases w) auto
  then show "eat_alpha_numeric (n @ w @ 61 # w' @ v @ w'') = w @ 61 # w' @ v @ w''" using eat_a_name assms(1,2) by blast
  show "eat_ws (w @ 61 # w' @ v @ w'') = 61 # w' @ v @ w''"
    using eat_whites [of w] eat_no_white [of "61 # w' @ v @ w''"] assms(3) by simp
  show "trim_value (eat_ws (w' @ v @ w'')) = v" using trim_complete [OF assms(4)] assms(3) by simp
qed

lemma form_parse: "line_form buf l \<Longrightarrow> string buf \<Longrightarrow> parse_line buf = l"
proof (induction rule: line_form.induct)
  case (blank buf w)
  then have "clear_comments buf = w" by (simp add: uncommented_iff)
  moreover have "eat_ws (w @ []) = eat_ws []" using eat_whites blank(2) by blast
  ultimately show ?case by (simp add: parse_line_def classes)
next
  case (header buf w w1 h w2 rest)
  let ?t = "w @ 91 # w1 @ h @ w2 @ 93 # rest"
  have t: "clear_comments buf = ?t" using header by (simp add: uncommented_iff)
  have "string ?t" using part_string [OF part_clear header.prems] t by simp
  then have h: "string h" by simp
  have s: "eat_ws ?t = 91 # w1 @ h @ w2 @ 93 # rest" using eat_whites [of w] eat_no_white [of "91 # _"] header(2) by simp
  define w2' where "w2' = (if h = [] then [] else w2)"
  have start: "eat_ws (w1 @ h @ w2 @ 93 # rest) = h @ w2' @ 93 # rest"
  proof (cases "h = []")
    case True
    then show ?thesis using eat_whites [of "w1 @ w2"] eat_no_white [of "93 # rest"] header(2) by (simp add: w2'_def)
  next
    case False
    then show ?thesis
      using eat_whites [of w1] eat_no_white [OF section_start [OF header(3) False]] header(2) by (simp add: w2'_def)
  qed
  have "find_bracket (h @ w2' @ 93 # rest) = Some (w2' @ 93 # rest)"
    by (rule bracket_complete [OF header(3) h]) (use header(2) in \<open>auto simp: w2'_def\<close>)
  then show ?case using upto_append [of h "w2' @ 93 # rest"] by (simp add: parse_line_def t s start classes)
next
  case (assignment buf w n w1 w2 v w3)
  let ?r = "61 # w2 @ v @ w3"
  have t: "clear_comments buf = w @ n @ w1 @ ?r" using assignment by (simp add: uncommented_iff)
  have "string (w @ n @ w1 @ ?r)" using part_string [OF part_clear assignment.prems] t by simp
  then have n: "string n" by simp
  define u where "u = (if n = [] then [] else w1)"
  have s: "eat_ws (w @ n @ w1 @ ?r) = n @ u @ ?r"
  proof (cases "n = []")
    case True
    then show ?thesis using eat_whites [of "w @ w1"] eat_no_white [of ?r] assignment(2) by (simp add: u_def)
  next
    case False
    then show ?thesis
      using eat_whites [of w] eat_no_white name_start [OF assignment(3) False] assignment(2) by (simp add: u_def)
  qed
  have c: "cur (n @ u @ ?r) \<noteq> 0 \<and> cur (n @ u @ ?r) \<noteq> 91"
    using name_cur [OF assignment(3), of "u @ ?r"] by (cases "n = []") (auto simp: u_def)
  have u: "list_all white (u @ w2 @ w3)" using assignment(2) by (simp add: u_def)
  note a = assign_complete [OF assignment(3) n u assignment(4)]
  have "cur (u @ ?r) \<noteq> 58" using u by (cases u) auto
  then show ?case using upto_append [of n "u @ ?r"] c by (simp add: parse_line_def t s a classes Let_def)
next
  case (assignment_in buf w s n w1 w2 v w3)
  let ?r = "61 # w2 @ v @ w3"
  have t: "clear_comments buf = w @ s @ 58 # 58 # n @ w1 @ ?r" using assignment_in by (simp add: uncommented_iff)
  have "string (w @ s @ 58 # 58 # n @ w1 @ ?r)" using part_string [OF part_clear assignment_in.prems] t by simp
  then have n: "string n" "string s" by simp_all
  have ns: "\<not> white (cur (s @ 58 # 58 # n @ w1 @ ?r))"
    using name_start [OF assignment_in(3)] by (cases "s = []") auto
  have e: "eat_ws (w @ s @ 58 # 58 # n @ w1 @ ?r) = s @ 58 # 58 # n @ w1 @ ?r"
    using eat_whites [of w] eat_no_white [OF ns] assignment_in(2) by simp
  have c: "cur (s @ 58 # 58 # n @ w1 @ ?r) \<noteq> 0 \<and> cur (s @ 58 # 58 # n @ w1 @ ?r) \<noteq> 91"
    using name_cur [OF assignment_in(3), of "58 # 58 # n @ w1 @ ?r"] by (cases "s = []") auto
  have es: "eat_alpha_numeric (s @ 58 # 58 # n @ w1 @ ?r) = 58 # 58 # n @ w1 @ ?r"
    using eat_a_name [OF assignment_in(3) n(2), of "58 # 58 # n @ w1 @ ?r"] by simp
  have u: "list_all white (w1 @ w2 @ w3)" using assignment_in(2) by simp
  note a = assign_complete [OF assignment_in(4) n(1) u assignment_in(5)]
  show ?case
    using upto_append [of s "58 # 58 # n @ w1 @ ?r"] upto_append [of n "w1 @ ?r"] c
    by (simp add: parse_line_def t e es a classes Let_def)
qed

lemma parse_form:
  assumes "string buf" "parse_line buf = l" "l \<noteq> Missing_bracket" "l \<noteq> Missing_equal"
  shows "line_form buf l"
proof -
  define t where "t = clear_comments buf"
  have un: "uncommented buf t" using assms(1) by (simp add: uncommented_iff t_def)
  have st: "string t" unfolding t_def by (rule part_string [OF part_clear assms(1)])
  define s where "s = eat_ws t"
  obtain w where w: "t = w @ s" "list_all white w" "\<not> white (cur s)" using eaten_ws [OF st] unfolding s_def by blast
  have ss: "string s" using st w(1) by (metis string_simps(3))
  note p = assms(2) [symmetric, unfolded parse_line_def Let_def, folded t_def, folded s_def]
  consider "s = []" | r where "s = 91 # r" | "s \<noteq> []" "cur s \<noteq> 91" by (cases s) auto
  then show ?thesis
  proof cases
    case 1
    then show ?thesis using blank [of buf t] un w by (simp add: p classes)
  next
    case (2 r)
    have sr: "string r" using ss 2 by simp
    obtain w1 where w1: "r = w1 @ eat_ws r" "list_all white w1" "\<not> white (cur (eat_ws r))" using eaten_ws [OF sr] by blast
    have l: "l = (case find_bracket (eat_ws r) of None \<Rightarrow> Missing_bracket | Some e \<Rightarrow> Header (upto_ptr (eat_ws r) e))"
      using p unfolding 2 list.sel by (simp add: classes)
    then obtain e where e: "find_bracket (eat_ws r) = Some e" using assms(3) by (cases "find_bracket (eat_ws r)") auto
    have "string (eat_ws r)" using sr w1(1) by (metis string_simps(3))
    then obtain h w2 rest where h: "eat_ws r = h @ e" "e = w2 @ 93 # rest" "list_all white w2" "section_name h"
      using bracket_sound [OF e _ w1(3)] by blast
    have "t = w @ 91 # w1 @ h @ w2 @ 93 # rest" using w(1) 2 w1(1) h(1,2) by simp
    then have "uncommented buf (w @ 91 # w1 @ h @ w2 @ 93 # rest)" using un by simp
    then have "line_form buf (Header h)" by (rule header) (use w(2) w1(2) h(3,4) in simp_all)
    moreover have "l = Header h" using l e h(1) upto_append by simp
    ultimately show ?thesis by simp
  next
    case 3
    have c: "cur s \<noteq> 0" using ss 3(1) cur_string by blast
    define e where "e = eat_alpha_numeric s"
    show ?thesis
    proof (cases "cur e = 58 \<and> cur (tl e) = 58")
      case True
      then obtain e' where e': "e = 58 # 58 # e'" by (cases e; cases "tl e") auto
      obtain m where m: "s = m @ e" "name m" using eaten_name [OF ss, folded e_def] e' by blast
      have se: "string e'" using ss m(1) e' by simp
      define f where "f = eat_alpha_numeric e'"
      have l: "l = (if cur (eat_ws f) \<noteq> 61 then Missing_equal
          else Assign (Some (upto_ptr s e)) (upto_ptr e' f) (trim_value (eat_ws (tl (eat_ws f)))))"
        using p 3 c e' unfolding e_def [symmetric] by (simp add: classes f_def)
      then obtain r where r: "eat_ws f = 61 # r" using assms(4) by (cases "eat_ws f") (auto split: if_splits)
      have "f \<noteq> []" using r by auto
      then obtain n where n: "e' = n @ f" "name n" using eaten_name [OF se, folded f_def] by blast
      have sf: "string f" using se n(1) by (metis string_simps(3))
      obtain w1 where w1: "f = w1 @ 61 # r" "list_all white w1" using eaten_ws [OF sf] r by metis
      have "string r" using sf w1(1) by simp
      then obtain w2 w3 where v: "r = w2 @ trim_value (eat_ws r) @ w3" "list_all white (w2 @ w3)" "trimmed (trim_value (eat_ws r))"
        using trim_sound by blast
      define x where "x = trim_value (eat_ws r)"
      have "t = w @ m @ 58 # 58 # n @ w1 @ 61 # w2 @ x @ w3"
        using w(1) m(1) e' n(1) w1(1) v(1) [folded x_def] by simp
      then have "uncommented buf (w @ m @ 58 # 58 # n @ w1 @ 61 # w2 @ x @ w3)" using un by simp
      then have "line_form buf (Assign (Some m) n x)"
        by (rule assignment_in) (use w(2) w1(2) v(2,3) m(2) n(2) in \<open>simp_all add: x_def\<close>)
      moreover have "l = Assign (Some m) n x" using l r m(1) n(1) upto_append by (simp add: x_def)
      ultimately show ?thesis by simp
    next
      case False
      have l: "l = (if cur (eat_ws e) \<noteq> 61 then Missing_equal
          else Assign None (upto_ptr s e) (trim_value (eat_ws (tl (eat_ws e)))))"
        using p 3 c False unfolding e_def [symmetric] by (auto simp: classes)
      then obtain r where r: "eat_ws e = 61 # r" using assms(4) by (cases "eat_ws e") (auto split: if_splits)
      have "e \<noteq> []" using r by auto
      then obtain n where n: "s = n @ e" "name n" using eaten_name [OF ss, folded e_def] by blast
      have se: "string e" using ss n(1) by (metis string_simps(3))
      obtain w1 where w1: "e = w1 @ 61 # r" "list_all white w1" using eaten_ws [OF se] r by metis
      have "string r" using se w1(1) by simp
      then obtain w2 w3 where v: "r = w2 @ trim_value (eat_ws r) @ w3" "list_all white (w2 @ w3)" "trimmed (trim_value (eat_ws r))"
        using trim_sound by blast
      define x where "x = trim_value (eat_ws r)"
      have "t = w @ n @ w1 @ 61 # w2 @ x @ w3" using w(1) n(1) w1(1) v(1) [folded x_def] by simp
      then have "uncommented buf (w @ n @ w1 @ 61 # w2 @ x @ w3)" using un by simp
      then have "line_form buf (Assign None n x)"
        by (rule assignment) (use w(2) w1(2) v(2,3) n(2) in \<open>simp_all add: x_def\<close>)
      moreover have "l = Assign None n x" using l r n(1) upto_append by (simp add: x_def)
      ultimately show ?thesis by simp
    qed
  qed
qed

lemma form_iff:
  assumes "string buf"
  shows "line_form buf Blank \<longleftrightarrow> parse_line buf = Blank" "line_form buf (Header h) \<longleftrightarrow> parse_line buf = Header h"
    "line_form buf (Assign p n v) \<longleftrightarrow> parse_line buf = Assign p n v"
  using form_parse assms parse_form [OF assms refl] by (metis line.distinct)+

text \<open>The code's reading of a line is the language's.\<close>

lemma says_iff:
  assumes "string buf"
  shows "line_says buf ss ss' \<longleftrightarrow> run_line buf ss = Some ss'"
proof
  have h: "string h" if "parse_line buf = Header h" for h using parse_parts(1) [OF that] part_string assms by blast
  have v: "string v" if "parse_line buf = Assign p n v" for p n v using parse_parts(2) [OF that] part_string assms by blast
  show "run_line buf ss = Some ss'" if "line_says buf ss ss'"
    using that assms h v
    by cases (auto simp: form_iff [OF assms] run_line_def expands_iff)
  show "line_says buf ss ss'" if r: "run_line buf ss = Some ss'"
  proof -
    obtain st sec where ss: "ss = (st, sec)" by fastforce
    consider "parse_line buf = Blank" | k where "parse_line buf = Header k" | n x where "parse_line buf = Assign None n x"
      | s n x where "parse_line buf = Assign (Some s) n x"
      using r ss by (cases "parse_line buf") (auto simp: run_line_def)
    then show ?thesis
    proof cases
      case 1
      then show ?thesis using r ss form_iff(1) [OF assms] says_nothing by (simp add: run_line_def)
    next
      case (2 k)
      then obtain s where "expand st None k = Some s" "ss' = (enter_store st s, s)" using r ss by (auto simp: run_line_def)
      then show ?thesis
        using says_section [of buf k st s sec] form_iff(2) [OF assms] 2 expands_iff [OF h [OF 2]] ss by simp
    next
      case (3 n x)
      then obtain y where "expand st (Some sec) x = Some y" "ss' = (assign_store st sec n y, sec)" using r ss by (auto simp: run_line_def)
      then show ?thesis
        using says_here [of buf n x st sec y] form_iff(3) [OF assms] 3 expands_iff [OF v [OF 3]] ss by simp
    next
      case (4 s n x)
      then obtain y where "expand st (Some s) x = Some y" "ss' = (assign_store st s n y, sec)" using r ss by (auto simp: run_line_def)
      then show ?thesis
        using says_in [of buf s n x st y sec] form_iff(3) [OF assms] 4 expands_iff [OF v [OF 4]] ss by simp
    qed
  qed
qed

text \<open>Lines whose section header, if they are one, has no variable; and lines without quotes, escapes and
  variables in what they mean.\<close>

definition constant_header :: "bytes \<Rightarrow> bool" where
  "constant_header buf \<longleftrightarrow> (\<forall>h. line_form buf (Header h) \<longrightarrow> 36 \<notin> set h)"

definition simple_text :: "bytes \<Rightarrow> bool" where
  "simple_text s \<longleftrightarrow> list_all (\<lambda>c. \<not> quote c \<and> c \<notin> {0, 36, 92}) s"

definition simple_line :: "bytes \<Rightarrow> bool" where
  "simple_line buf \<longleftrightarrow> line_form buf Blank \<or> (\<exists>h. line_form buf (Header h) \<and> simple_text h) \<or>
     (\<exists>p n v. line_form buf (Assign p n v) \<and> simple_text v)"

lemma constant_header_iff: "string buf \<Longrightarrow> constant_header buf \<longleftrightarrow> header_constant buf"
  by (auto simp: constant_header_def header_constant_def form_iff split: line.splits)

lemma simple_text_iff: "simple_text s \<longleftrightarrow> list_all plain s"
  by (auto simp: simple_text_def plain_def list_all_iff classes)

lemma simple_line_iff: "string buf \<Longrightarrow> simple_line buf \<longleftrightarrow> plain_line buf"
  by (auto simp: simple_line_def plain_line_def form_iff simple_text_iff split: line.splits)

end
