(* ===== verification/LineSource.thy ===== *)
theory LineSource
  imports Prelude
begin

text \<open>
  The interface between a BIO and what reads lines from it: an object that \<open>BIO_gets\<close> stores bytes from,
  the number of bytes it has left, and when it can be used. The bytes of a call are those in front of the
  zero it stores.
\<close>

locale line_source =
  fixes gets :: "'bio \<Rightarrow> nat \<Rightarrow> bytes \<times> 'bio"
    and left :: "'bio \<Rightarrow> nat"
    and usable :: "'bio \<Rightarrow> bool"
  assumes bounded: "usable bio \<Longrightarrow> 0 < n \<Longrightarrow> n < 2 ^ 31 \<Longrightarrow> length (fst (gets bio n)) < n"
    and kept: "usable bio \<Longrightarrow> 0 < n \<Longrightarrow> n < 2 ^ 31 \<Longrightarrow> usable (snd (gets bio n))"
    and consumed: "usable bio \<Longrightarrow> 0 < n \<Longrightarrow> n < 2 ^ 31 \<Longrightarrow> left (snd (gets bio n)) + length (fst (gets bio n)) \<le> left bio"
begin

lemma chunk_laws:
  assumes "usable bio" "0 < n" "n < 2 ^ 31" "gets bio n = (chunk, bio')"
  shows "length chunk < n" "usable bio'" "left bio' + length chunk \<le> left bio"
  using bounded [OF assms(1-3)] kept [OF assms(1-3)] consumed [OF assms(1-3)] assms(4) by simp_all

end

end
