(* ===== verification/ConfLoad.thy ===== *)
theory ConfLoad
  imports ConfGrammar LineSource
begin

text \<open>
  Loading a file: the reader puts the lines together in a buffer it never overruns, and a load either
  fails or makes the store that the lines of the file, taken in turn, mean.
\<close>

section \<open>Putting a line together\<close>

text \<open>What \<open>BIO_gets\<close> stores is seen up to the first zero.\<close>

definition seen :: "bytes \<Rightarrow> bytes" where
  "seen chunk = takeWhile (\<lambda>b. b \<noteq> 0) chunk"

definition chomp :: "bytes \<Rightarrow> bytes" where
  "chomp t = rev (dropWhile is_newline (rev t))"

text \<open>A line goes on in the next one if it ends in an escape that is not escaped.\<close>

definition continues :: "bytes \<Rightarrow> bool" where
  "continues line \<longleftrightarrow> 1 \<le> length line \<and> IS_ESC (line ! (length line - 1)) \<and>
     (length line \<le> 1 \<or> \<not> IS_ESC (line ! (length line - 2)))"

text \<open>The logical line read so far and the next piece of the input: the line, and whether it goes on.\<close>

definition joined :: "bytes \<Rightarrow> bytes \<Rightarrow> bytes \<times> bool" where
  "joined acc t =
    (let long = (t \<noteq> [] \<and> chomp t = t);
         line = acc @ chomp t
     in (if continues line then take (length line - 1) line else line, long \<or> continues line))"

lemma chomp_prefix: "\<exists>u. t = chomp t @ u"
proof
  have "rev t = takeWhile is_newline (rev t) @ dropWhile is_newline (rev t)" by simp
  then show "t = chomp t @ rev (takeWhile is_newline (rev t))"
    unfolding chomp_def by (metis rev_append rev_rev_ident)
qed

lemma seen_string: "string (seen chunk)"
  by (auto simp: string_def seen_def dest: set_takeWhileD)

lemma seen_split: "\<exists>u. chunk @ 0 # zs = seen chunk @ 0 # u"
  by (induction chunk) (auto simp: seen_def)

text \<open>The buffer of the reader holds a string at its start.\<close>

definition holds :: "BUF_MEM \<Rightarrow> bytes \<Rightarrow> bool" where
  "holds buf acc \<longleftrightarrow> buf_ok buf \<and> string acc \<and> length acc \<le> unat (buf_length buf) \<and>
     take (length acc) (buf_data buf) = acc"

lemma store_split:
  assumes "buf_ok b" "buf_data b = xs @ u" "i + length new \<le> length u" "k = length xs + i"
  shows "\<exists>b'. buf_store b k new = Some b' \<and> buf_ok b' \<and> buf_length b' = buf_length b \<and>
    buf_data b' = xs @ take i u @ new @ drop (i + length new) u"
  using assms by (simp add: buf_store_def buf_ok_def)

lemma grow_room:
  assumes "holds buff acc" "length acc + CONFBUFSIZE < 2 ^ 62"
    and "BUF_MEM_grow env buff (of_nat (length acc + CONFBUFSIZE)) = (b, grown)" "grown \<noteq> 0"
  shows "buf_ok b \<and> unat (buf_length b) = length acc + CONFBUFSIZE \<and>
    (\<exists>u. buf_data b = acc @ u \<and> CONFBUFSIZE \<le> length u)"
proof -
  let ?n = "length acc + CONFBUFSIZE"
  have n: "unat (of_nat ?n :: u64) = ?n" by (rule unat_of_nat_u64) (use assms(2) in simp)
  have h: "buf_ok buff" "length acc \<le> unat (buf_length buff)" "take (length acc) (buf_data buff) = acc"
    using assms(1) by (simp_all add: holds_def)
  have g: "buf_ok b" "buf_length b = of_nat ?n" "take (length acc) (buf_data b) = acc"
    using grow_prefix [OF h(1) _ assms(4) h(2), of env "of_nat ?n" b] assms(3) h(3) n
    by (simp_all add: BUF_MEM_grow_clean_def)
  have l: "unat (buf_length b) \<le> length (buf_data b)"
    using g(1) by (simp add: buf_ok_def word_le_nat_alt)
  have "buf_data b = acc @ drop (length acc) (buf_data b)"
    using append_take_drop_id [of "length acc" "buf_data b"] g(3) by simp
  moreover have "CONFBUFSIZE \<le> length (drop (length acc) (buf_data b))" using l n g(2) by simp
  ultimately show ?thesis using g(1,2) n by metis
qed

lemma grow_granted:
  assumes "size_ok env = (\<lambda>n. True)" "0 < n" "n < 2 ^ 62"
  shows "snd (BUF_MEM_grow env buff (of_nat n)) \<noteq> 0"
proof -
  have u: "unat (of_nat n :: u64) = n" by (rule unat_of_nat_u64) (use assms(3) in simp)
  then have "snd (BUF_MEM_reserve env buff (of_nat n))"
    using assms by (intro reserve_granted) simp_all
  moreover have "of_nat n \<noteq> (0 :: u64)" using u assms(2) by (metis less_irrefl unat_0)
  ultimately show ?thesis by (auto simp: BUF_MEM_grow_def split: prod.splits)
qed

text \<open>The three stores of a round: the piece stands behind what was there.\<close>

lemma piece_stored:
  assumes "buf_ok b" "buf_data b = acc @ u" "CONFBUFSIZE \<le> length u" "length chunk < CONFBUFSIZE - 1"
  shows "\<exists>b' u'. Option.bind (buf_store b (length acc) [0])
      (\<lambda>b. Option.bind (buf_store b (length acc) (chunk @ [0]))
        (\<lambda>b. buf_store b (length acc + CONFBUFSIZE - 1) [0])) = Some b' \<and>
    buf_ok b' \<and> buf_length b' = buf_length b \<and> buf_data b' = acc @ seen chunk @ 0 # u'"
proof -
  have c: "2 \<le> CONFBUFSIZE" by (simp add: CONFBUFSIZE_def)
  obtain b1 where b1: "buf_store b (length acc) [0] = Some b1" "buf_ok b1" "buf_length b1 = buf_length b"
      "buf_data b1 = acc @ take 0 u @ [0] @ drop (0 + length [0]) u"
    using store_split [OF assms(1,2), of 0 "[0]" "length acc"] assms(3) c by auto
  let ?u1 = "0 # drop 1 u"
  have d1: "buf_data b1 = acc @ ?u1" "length ?u1 = length u" using b1(4) assms(3) c by auto
  have lc: "0 + length (chunk @ [0]) \<le> length ?u1"
    unfolding d1(2) using assms(3,4) by simp
  obtain b2 where b2: "buf_store b1 (length acc) (chunk @ [0]) = Some b2" "buf_ok b2" "buf_length b2 = buf_length b1"
      "buf_data b2 = acc @ take 0 ?u1 @ (chunk @ [0]) @ drop (0 + length (chunk @ [0])) ?u1"
    using store_split [OF b1(2) d1(1), of 0 "chunk @ [0]" "length acc"] lc by auto
  define u2 where "u2 = chunk @ 0 # drop (length chunk) (drop 1 u)"
  have d2: "buf_data b2 = acc @ u2" "length u2 = length u"
    using b2(4) assms(3,4) c by (auto simp: u2_def)
  obtain b3 where b3: "buf_store b2 (length acc + (CONFBUFSIZE - 1)) [0] = Some b3" "buf_ok b3"
      "buf_length b3 = buf_length b2" "buf_data b3 = acc @ take (CONFBUFSIZE - 1) u2 @ [0] @ drop (CONFBUFSIZE - 1 + length [0]) u2"
    using store_split [OF b2(2) d2(1), of "CONFBUFSIZE - 1" "[0]"] d2(2) assms(3) c by auto
  have "take (CONFBUFSIZE - 1) u2 = chunk @ 0 # take (CONFBUFSIZE - 2 - length chunk) (drop (length chunk) (drop 1 u))"
  proof -
    have "CONFBUFSIZE - 1 - length chunk = Suc (CONFBUFSIZE - 2 - length chunk)" using assms(4) by simp
    then show ?thesis unfolding u2_def by (simp add: take_append)
  qed
  then obtain u' where "take (CONFBUFSIZE - 1) u2 @ [0] @ drop (CONFBUFSIZE - 1 + length [0]) u2 = seen chunk @ 0 # u'"
    using seen_split [of chunk] by fastforce
  then show ?thesis using b1(1,3) b2(1,3) b3 c by auto
qed

lemma seen_in_buffer:
  assumes "buf_data b = acc @ seen chunk @ 0 # u"
  shows "cstring b (length acc) = seen chunk"
proof -
  have "takeWhile (\<lambda>x. x \<noteq> 0) (seen chunk @ 0 # u) = seen chunk"
    using seen_string [of chunk] by (subst takeWhile_append2) (auto simp: string_def)
  then show ?thesis using assms by (simp add: cstring_def)
qed

text \<open>Cutting the line end off.\<close>

lemma line_cut:
  assumes "buf_ok b" "buf_data b = acc @ t @ 0 # u"
  shows "\<exists>b' u'. (if t \<noteq> [] \<and> chomp t = t then Some b else buf_store b (length acc + length (chomp t)) [0]) = Some b' \<and>
    buf_ok b' \<and> buf_length b' = buf_length b \<and> buf_data b' = (acc @ chomp t) @ 0 # u'"
proof (cases "t \<noteq> [] \<and> chomp t = t")
  case True
  then show ?thesis using assms by auto
next
  case False
  obtain w where w: "t = chomp t @ w" using chomp_prefix by blast
  then have tk: "take (length (chomp t)) (t @ 0 # u) = chomp t" by (metis append.assoc append_eq_conv_conj)
  have "length (chomp t) \<le> length t" using w by (metis le_add1 length_append)
  then show ?thesis
    using store_split [OF assms, of "length (chomp t)" "[0]"] tk False by auto
qed

lemma line_end:
  assumes "buf_data b = line @ 0 # u"
  shows "(1 \<le> length line \<and> IS_ESC (buf_data b ! (length line - 1)) \<and>
      (length line \<le> 1 \<or> \<not> IS_ESC (buf_data b ! (length line - 2)))) =
    (1 \<le> length line \<and> IS_ESC (line ! (length line - 1)) \<and> (length line \<le> 1 \<or> \<not> IS_ESC (line ! (length line - 2))))"
  unfolding assms by (cases "length line \<le> 1") (auto simp: nth_append)

lemma chomp_nonzero: "string t \<Longrightarrow> string (chomp t)"
  using chomp_prefix [of t] by (metis string_simps(3))

lemma read_round_spec:
  assumes "holds buff acc" "length acc + CONFBUFSIZE < 2 ^ 62"
    and "gets bio (CONFBUFSIZE - 1) = (chunk, bio')" "length chunk < CONFBUFSIZE - 1"
    and "joined acc (seen chunk) = (acc', going)"
  shows "(read_round gets env buff (length acc) again eline bio = Round_fail \<and> size_ok env \<noteq> (\<lambda>n. True)) \<or>
    (if seen chunk = [] \<and> \<not> again then read_round gets env buff (length acc) again eline bio = Round_end
     else \<exists>buff' eline'. read_round gets env buff (length acc) again eline bio = Round buff' (length acc') going eline' bio' \<and>
       holds buff' acc' \<and> (\<not> going \<longrightarrow> cstring buff' 0 = acc'))"
proof -
  obtain b grown where g: "BUF_MEM_grow env buff (of_nat (length acc + CONFBUFSIZE)) = (b, grown)" by fastforce
  show ?thesis
  proof (cases "grown = 0")
    case True
    then have "size_ok env \<noteq> (\<lambda>n. True)"
      using grow_granted [of env "length acc + CONFBUFSIZE" buff] assms(2) g by (auto simp: CONFBUFSIZE_def)
    then show ?thesis using g True by (simp add: read_round_def)
  next
    case False
    obtain u where b: "buf_ok b" "unat (buf_length b) = length acc + CONFBUFSIZE" "buf_data b = acc @ u" "CONFBUFSIZE \<le> length u"
      using grow_room [OF assms(1,2) g False] by blast
    obtain b3 u3 where b3: "Option.bind (buf_store b (length acc) [0])
        (\<lambda>b. Option.bind (buf_store b (length acc) (chunk @ [0]))
          (\<lambda>b. buf_store b (length acc + CONFBUFSIZE - 1) [0])) = Some b3"
        "buf_ok b3" "buf_length b3 = buf_length b" "buf_data b3 = acc @ seen chunk @ 0 # u3"
      using piece_stored [OF b(1,3,4) assms(4)] by blast
    define t where "t = seen chunk"
    have cs: "cstring b3 (length acc) = t" using seen_in_buffer [OF b3(4)] by (simp add: t_def)
    obtain b4 u4 where b4: "(if t \<noteq> [] \<and> chomp t = t then Some b3 else buf_store b3 (length acc + length (chomp t)) [0]) = Some b4"
        "buf_ok b4" "buf_length b4 = buf_length b3" "buf_data b4 = (acc @ chomp t) @ 0 # u4"
      using line_cut [OF b3(2), of acc t] b3(4) unfolding t_def by blast
    define line where "line = acc @ chomp t"
    have d4: "buf_data b4 = line @ 0 # u4" using b4(4) by (simp add: line_def)
    have lt: "length (chomp t) = length t \<longleftrightarrow> chomp t = t" and le: "length (chomp t) \<le> length chunk"
    proof -
      obtain w where w: "t = chomp t @ w" using chomp_prefix by blast
      show "length (chomp t) = length t \<longleftrightarrow> chomp t = t"
        using w by (metis append_Nil2 append_eq_append_conv)
      have "length t \<le> length chunk" by (simp add: t_def seen_def length_takeWhile_le)
      then show "length (chomp t) \<le> length chunk" using w by (metis add_leD1 length_append)
    qed
    have str: "string line" using assms(1) chomp_nonzero [OF seen_string [of chunk]] by (simp add: line_def t_def holds_def)
    have len: "length line < unat (buf_length b4)"
      using b(2) b3(3) b4(3) le assms(4) by (simp add: line_def)
    define cont where "cont = continues line"
    have j: "acc' = (if cont then take (length line - 1) line else line)" "going = ((t \<noteq> [] \<and> chomp t = t) \<or> cont)"
      using assms(5) unfolding joined_def Let_def t_def [symmetric] line_def [symmetric] cont_def [symmetric] prod.inject
      by (metis, metis)
    have c4: "(1 \<le> length line \<and> IS_ESC (buf_data b4 ! (length line - 1)) \<and>
      (length line \<le> 1 \<or> \<not> IS_ESC (buf_data b4 ! (length line - 2)))) = cont"
      using line_end [OF d4] by (simp only: cont_def continues_def)
    have la: "length acc' = (if cont then length line - 1 else length line)" by (simp add: j(1))
    have h: "holds b4 acc'"
    proof -
      have le': "length acc' \<le> length line" and tk: "take (length acc') line = acc'" using la by (simp_all add: j(1))
      then have "take (length acc') (buf_data b4) = acc'" using d4 by simp
      moreover have "string acc'" using str tk by (metis in_set_takeD string_def)
      ultimately show ?thesis using b4(2) len le' by (simp add: holds_def)
    qed
    have "cstring b4 0 = line"
      using str by (simp add: cstring_def d4) (subst takeWhile_append2, auto simp: string_def)
    then have cs0: "\<not> going \<longrightarrow> cstring b4 0 = acc'" using j by auto
    show ?thesis
    proof (cases "t = [] \<and> \<not> again")
      case True
      then show ?thesis using g False assms(3) b3(1) cs by (simp add: read_round_def Let_def t_def [symmetric])
    next
      case nend: False
      have ll: "length acc + length (chomp t) = length line" by (simp add: line_def)
      have ch: "length (rev (dropWhile is_newline (rev t))) = length (chomp t)" by (simp add: chomp_def)
      have lg: "(length t \<noteq> 0 \<and> length (chomp t) = length t) = (t \<noteq> [] \<and> chomp t = t)" using lt by simp
      have e: "(length t = 0 \<and> \<not> again) = False" using nend by simp
      have "\<exists>e. read_round gets env buff (length acc) again eline bio = Round b4 (length acc') going e bio'"
        using False
        unfolding read_round_def Let_def g prod.case assms(3) b3(1) option.case cs e ch lg ll b4(1) [unfolded ll]
        by (simp only: option.case c4 la j(2) if_False simp_thms, blast)
      then show ?thesis using h cs0 nend by (auto simp: t_def)
    qed
  qed
qed

text \<open>A line that goes on does not go on at the end of the input.\<close>

lemma joined_going:
  assumes "joined acc t = (acc', True)"
  shows "\<not> continues acc'"
proof (cases "continues (acc @ chomp t)")
  case True
  define line where "line = acc @ chomp t"
  have c: "continues line" and a: "acc' = take (length line - 1) line"
    using assms True by (simp_all add: joined_def line_def)
  show ?thesis
  proof
    assume "continues acc'"
    then have "1 \<le> length line - 1" "IS_ESC (line ! (length line - 2))"
      by (auto simp: continues_def a numeral_2_eq_2 min_def split: if_splits)
    then show False using c by (auto simp: continues_def)
  qed
next
  case False
  then show ?thesis using assms by (auto simp: joined_def Let_def)
qed

lemma joined_nothing: "\<not> continues acc \<Longrightarrow> joined acc [] = (acc, False)"
  by (simp add: joined_def chomp_def)

lemma joined_length: "joined acc t = (acc', going) \<Longrightarrow> length acc' \<le> length acc + length t"
proof -
  obtain w where "t = chomp t @ w" using chomp_prefix by blast
  then have "length (chomp t) \<le> length t" by (metis le_add1 length_append)
  moreover assume "joined acc t = (acc', going)"
  ultimately show ?thesis by (auto simp: joined_def Let_def split: if_splits)
qed

section \<open>The meaning of a file\<close>

text \<open>The pieces of a file, each with the part of its logical line in front of it.\<close>

inductive reads :: "('bio \<Rightarrow> nat \<Rightarrow> bytes \<times> 'bio) \<Rightarrow> 'bio \<Rightarrow> 'bio \<Rightarrow> bytes \<Rightarrow> bool \<Rightarrow> bool"
  for gets :: "'bio \<Rightarrow> nat \<Rightarrow> bytes \<times> 'bio" and start :: 'bio where
  reads_start: "reads gets start start [] False"
| reads_piece: "reads gets start bio acc again \<Longrightarrow> gets bio (CONFBUFSIZE - 1) = (chunk, bio') \<Longrightarrow>
    joined acc (seen chunk) = (acc', going) \<Longrightarrow> reads gets start bio' (if going then acc' else []) going"

definition all_lines :: "(bytes \<Rightarrow> bool) \<Rightarrow> ('bio \<Rightarrow> nat \<Rightarrow> bytes \<times> 'bio) \<Rightarrow> 'bio \<Rightarrow> bool" where
  "all_lines P gets start \<longleftrightarrow> (\<forall>bio acc again line. reads gets start bio acc again \<longrightarrow>
     joined acc (seen (fst (gets bio (CONFBUFSIZE - 1)))) = (line, False) \<longrightarrow> P line)"

text \<open>All lines are strings.\<close>

lemma joined_string: "joined acc t = (line, going) \<Longrightarrow> string acc \<Longrightarrow> string t \<Longrightarrow> string line"
  using chomp_nonzero [of t] by (auto simp: joined_def Let_def string_def dest: in_set_takeD split: if_splits)

lemma reads_string: "reads gets start bio acc again \<Longrightarrow> string acc"
  by (induction rule: reads.induct) (auto dest: joined_string [OF _ _ seen_string])

lemma all_lines_strings: "(\<And>l. string l \<Longrightarrow> P l \<longleftrightarrow> Q l) \<Longrightarrow> all_lines P gets start \<longleftrightarrow> all_lines Q gets start"
  unfolding all_lines_def using joined_string [OF _ reads_string seen_string] by meson

text \<open>The store that the rest of a file makes of a store, from a place in it on.\<close>

inductive file_means ::
  "('bio \<Rightarrow> nat \<Rightarrow> bytes \<times> 'bio) \<Rightarrow> 'bio \<Rightarrow> bytes \<Rightarrow> bool \<Rightarrow> store \<times> bytes \<Rightarrow> store \<Rightarrow> bool"
  for gets :: "'bio \<Rightarrow> nat \<Rightarrow> bytes \<times> 'bio" where
  means_end: "seen (fst (gets bio (CONFBUFSIZE - 1))) = [] \<Longrightarrow> file_means gets bio acc False (st, sec) st"
| means_piece: "gets bio (CONFBUFSIZE - 1) = (chunk, bio') \<Longrightarrow> seen chunk \<noteq> [] \<or> again \<Longrightarrow>
    joined acc (seen chunk) = (acc', True) \<Longrightarrow> file_means gets bio' acc' True ss st \<Longrightarrow>
    file_means gets bio acc again ss st"
| means_line: "gets bio (CONFBUFSIZE - 1) = (chunk, bio') \<Longrightarrow> seen chunk \<noteq> [] \<or> again \<Longrightarrow>
    joined acc (seen chunk) = (line, False) \<Longrightarrow> line_says line ss ss' \<Longrightarrow>
    file_means gets bio' [] False ss' st \<Longrightarrow> file_means gets bio acc again ss st"

inductive_cases file_means_cases: "file_means gets bio acc again ss st"

section \<open>The loop\<close>

text \<open>The states of the loop between two rounds.\<close>

type_synonym 'bio load_point = "nat \<times> CONF \<times> (bytes \<times> ptr) \<times> BUF_MEM \<times> nat \<times> bool \<times> nat \<times> 'bio"

inductive load_reach ::
  "('bio \<Rightarrow> nat \<Rightarrow> bytes \<times> 'bio) \<Rightarrow> load_env \<Rightarrow> 'bio load_point \<Rightarrow> 'bio load_point \<Rightarrow> bool"
  for gets :: "'bio \<Rightarrow> nat \<Rightarrow> bytes \<times> 'bio" and env start where
  reach_start: "load_reach gets env start start"
| reach_again: "load_reach gets env start (r, c, cs, buff, n, again, eline, bio) \<Longrightarrow>
    read_round gets (grow_mem env r) buff n again eline bio = Round buff' n' True eline' bio' \<Longrightarrow>
    load_reach gets env start (r + 1, c, cs, buff', n', True, eline', bio')"
| reach_line: "load_reach gets env start (r, c, cs, buff, n, again, eline, bio) \<Longrightarrow>
    read_round gets (grow_mem env r) buff n again eline bio = Round buff' n' False eline' bio' \<Longrightarrow>
    do_line (line_mem env r) c cs (cstring buff' 0) = Run c' (Some cs') \<Longrightarrow>
    load_reach gets env start (r + 1, c', cs', buff', 0, False, eline', bio')"

text \<open>The allocator never hands out memory in use.\<close>

definition fresh_memory :: "('bio \<Rightarrow> nat \<Rightarrow> bytes \<times> 'bio) \<Rightarrow> load_env \<Rightarrow> 'bio load_point \<Rightarrow> bool" where
  "fresh_memory gets env start \<longleftrightarrow> (\<forall>r c cs buff n again eline bio.
     load_reach gets env start (r, c, cs, buff, n, again, eline, bio) \<longrightarrow> fresh_line (line_mem env r) c)"

definition rounds_granted :: "load_env \<Rightarrow> bool" where
  "rounds_granted env \<longleftrightarrow> (\<forall>r. size_ok (grow_mem env r) = (\<lambda>n. True) \<and> line_granted (line_mem env r) \<and>
     copy_granted (line_mem env r))"

text \<open>What the loop promises from a place of the file on.\<close>

definition load_done ::
  "('bio \<Rightarrow> nat \<Rightarrow> bytes \<times> 'bio) \<Rightarrow> 'bio \<Rightarrow> load_env \<Rightarrow> 'bio \<Rightarrow> bytes \<Rightarrow> bool \<Rightarrow> store \<times> bytes \<Rightarrow> load_result option \<Rightarrow> bool" where
  "load_done gets src env bio acc again ss res \<longleftrightarrow> (\<exists>x. res = Some x \<and> x \<noteq> Load_crash \<and>
     (\<forall>c'. x = Loaded c' \<longrightarrow> conf_ok c' \<and> file_means gets bio acc again ss (conf_store c')) \<and>
     (rounds_granted env \<and> all_lines plain_line gets src \<longrightarrow> (\<exists>c'. x = Loaded c')))"

lemma load_error_done:
  "\<not> (rounds_granted env \<and> all_lines plain_line gets src) \<Longrightarrow>
    load_done gets src env bio acc again ss (Some (Load_error c eline))"
  by (auto simp: load_done_def)

lemma load_done_piece:
  assumes "gets bio (CONFBUFSIZE - 1) = (chunk, bio')" "seen chunk \<noteq> [] \<or> again" "joined acc (seen chunk) = (acc', True)"
    and "load_done gets src env bio' acc' True ss res"
  shows "load_done gets src env bio acc again ss res"
  using assms(4) means_piece [of gets bio, OF assms(1-3)] unfolding load_done_def by blast

lemma load_done_line:
  assumes "gets bio (CONFBUFSIZE - 1) = (chunk, bio')" "seen chunk \<noteq> [] \<or> again" "joined acc (seen chunk) = (line, False)"
    and "string line" "run_line line ss = Some ss'" "load_done gets src env bio' [] False ss' res"
  shows "load_done gets src env bio acc again ss res"
proof -
  have "line_says line ss ss'" using says_iff [OF assms(4)] assms(5) by simp
  then show ?thesis using assms(6) means_line [of gets bio, OF assms(1-3)] unfolding load_done_def by blast
qed

lemma load_done_end:
  assumes "gets bio (CONFBUFSIZE - 1) = (chunk, bio')" "seen chunk = []" "conf_ok c"
  shows "load_done gets src env bio acc False (conf_store c, sec) (Some (Loaded c))"
  using assms(3) means_end [of gets bio acc "conf_store c" sec] assms(1,2) unfolding load_done_def by auto

section \<open>Loading from a source of lines\<close>

context line_source
begin

text \<open>A round of the reader brings the end of the input nearer.\<close>

lemma round_measure:
  assumes "usable bio" "gets bio (CONFBUFSIZE - 1) = (chunk, bio')" "joined acc (seen chunk) = (acc', going)"
    and "again \<longrightarrow> \<not> continues acc" "seen chunk \<noteq> [] \<or> again"
  shows "2 * left bio' + of_bool going < 2 * left bio + (of_bool again :: nat)"
    "length acc' + left bio' \<le> length acc + left bio" "usable bio'" "length chunk < CONFBUFSIZE - 1"
proof -
  have z: "0 < CONFBUFSIZE - 1" "CONFBUFSIZE - 1 < 2 ^ 31" by (simp_all add: CONFBUFSIZE_def)
  note law = chunk_laws [OF assms(1) z assms(2)]
  have l: "length (seen chunk) \<le> length chunk" by (simp add: seen_def length_takeWhile_le)
  show "length acc' + left bio' \<le> length acc + left bio" using joined_length [OF assms(3)] law(3) l by simp
  show "usable bio'" "length chunk < CONFBUFSIZE - 1" by (fact law)+
  show "2 * left bio' + of_bool going < 2 * left bio + (of_bool again :: nat)"
  proof (cases "seen chunk = []")
    case True
    then show ?thesis using joined_nothing [of acc] assms(3,4,5) law(3) by simp
  next
    case False
    then have "0 < length chunk" using l by (metis length_greater_0_conv list.size(3) le_zero_eq)
    then have "left bio' < left bio" using law(3) by linarith
    then show ?thesis by (cases going; cases again) simp_all
  qed
qed

lemma loop_done:
  assumes "fresh_memory gets env start" "all_lines header_constant gets src"
    and "load_reach gets env start (r, c, (sec, sv), buff, length acc, again, eline, bio)"
    and "reads gets src bio acc again" "usable bio" "ready c sec sv r" "holds buff acc"
    and "again \<longrightarrow> \<not> continues acc" "length acc + left bio < 2 ^ 31"
    and "r + 2 * left bio + of_bool again < (2 ^ 40 :: nat)"
  shows "load_done gets src env bio acc again (conf_store c, sec)
    (load_loop gets env r c (sec, sv) buff (length acc) again eline bio)"
  using assms(3-)
proof (induction "2 * left bio + (of_bool again :: nat)" arbitrary: r c sec sv buff acc again eline bio rule: less_induct)
  case less
  obtain chunk bio' where g: "gets bio (CONFBUFSIZE - 1) = (chunk, bio')" by fastforce
  obtain acc' going where j: "joined acc (seen chunk) = (acc', going)" by fastforce
  have cl: "length chunk < CONFBUFSIZE - 1"
    by (rule chunk_laws(1) [OF less.prems(3) _ _ g]) (simp_all add: CONFBUFSIZE_def)
  have al: "length acc + CONFBUFSIZE < 2 ^ 62" using less.prems(7) by (simp add: CONFBUFSIZE_def)
  have pl: "all_lines P gets src \<Longrightarrow> \<not> going \<Longrightarrow> P acc'" for P
  proof -
    have "joined acc (seen (fst (gets bio (CONFBUFSIZE - 1)))) = (acc', False)" if "\<not> going" using g j that by simp
    then show "all_lines P gets src \<Longrightarrow> \<not> going \<Longrightarrow> P acc'"
      using less.prems(2) unfolding all_lines_def by blast
  qed
  let ?round = "read_round gets (grow_mem env r) buff (length acc) again eline bio"
  note loop = load_loop.simps [of gets env r c "(sec, sv)" buff "length acc" again eline bio]
  consider (failed) "?round = Round_fail" "size_ok (grow_mem env r) \<noteq> (\<lambda>n. True)"
    | (ended) "seen chunk = []" "\<not> again" "?round = Round_end"
    | (piece) buff' eline' where "seen chunk \<noteq> [] \<or> again" "?round = Round buff' (length acc') going eline' bio'"
        "holds buff' acc'" "\<not> going \<longrightarrow> cstring buff' 0 = acc'"
    using read_round_spec [where env = "grow_mem env r" and again = again and eline = eline and gets = gets and bio = bio,
        OF less.prems(5) al g cl j]
    by (auto split: if_splits)
  then show ?case
  proof cases
    case failed
    then have "\<not> rounds_granted env" unfolding rounds_granted_def by blast
    then show ?thesis unfolding loop using failed(1) by (simp add: load_error_done)
  next
    case ended
    have "conf_ok c" using less.prems(4) by (simp add: ready_def)
    then show ?thesis
      unfolding loop using ended load_done_end [of gets bio, OF g] by simp
  next
    case (piece buff' eline')
    note m = round_measure [OF less.prems(3) g j less.prems(6) piece(1)]
    have rd: "reads gets src bio' (if going then acc' else []) going"
      by (rule reads_piece [OF less.prems(2) g j])
    show ?thesis
    proof (cases going)
      case True
      have "load_reach gets env start (r + 1, c, (sec, sv), buff', length acc', True, eline', bio')"
        using reach_again [OF less.prems(1)] piece(2) True by simp
      then have "load_done gets src env bio' acc' True (conf_store c, sec)
          (load_loop gets env (r + 1) c (sec, sv) buff' (length acc') True eline' bio')"
        using less.hyps [of bio' True "r + 1" c sec sv buff' acc' eline'] m rd True j joined_going [of acc "seen chunk" acc']
          less.prems(4,7,8) piece(3) stacks_small_mono [of r "vals c" "r + 1"]
        by (simp add: ready_def)
      then show ?thesis
        unfolding loop using load_done_piece [of gets bio, OF g piece(1)] j piece(2) True by simp
    next
      case False
      have line: "line_done (line_mem env r) c sec r acc' (do_line (line_mem env r) c (sec, sv) acc')"
      proof (rule do_line_spec [OF less.prems(4)])
        show "r < 2 ^ 58" using less.prems(8) by simp
        show "fresh_line (line_mem env r) c" using assms(1) less.prems(1) unfolding fresh_memory_def by blast
        show "string acc'" using piece(3) by (simp add: holds_def)
        show "length acc' < 2 ^ 62" using m(2) less.prems(7) by simp
        show "header_constant acc'" using pl [OF assms(2)] False by simp
      qed
      then obtain c' x where x: "do_line (line_mem env r) c (sec, sv) acc' = Run c' x"
          "\<And>sec' sv'. x = Some (sec', sv') \<Longrightarrow> run_line acc' (conf_store c, sec) = Some (conf_store c', sec') \<and> ready c' sec' sv' (r + 1)"
          "line_granted (line_mem env r) \<and> copy_granted (line_mem env r) \<and> plain_line acc' \<longrightarrow> x \<noteq> None"
        unfolding line_done_def by blast
      have cs: "cstring buff' 0 = acc'" using piece(4) False by simp
      show ?thesis
      proof (cases x)
        case None
        then have "\<not> (rounds_granted env \<and> all_lines plain_line gets src)"
          using x(3) pl [of plain_line] False by (auto simp: rounds_granted_def)
        then show ?thesis unfolding loop using piece(2) False cs x(1) None by (simp add: load_error_done)
      next
        case (Some cs')
        obtain sec' sv' where s: "cs' = (sec', sv')" by fastforce
        note x2 = x(2) [OF Some [unfolded s]]
        have str: "string acc'" using piece(3) by (simp add: holds_def)
        have "load_reach gets env start (r + 1, c', (sec', sv'), buff', length ([] :: bytes), False, eline', bio')"
          using reach_line [OF less.prems(1), of buff' "length acc'" eline' bio' c' cs'] piece(2) False cs x(1) Some s by simp
        moreover have "holds buff' []" using piece(3) by (simp add: holds_def)
        ultimately have "load_done gets src env bio' [] False (conf_store c', sec')
            (load_loop gets env (r + 1) c' (sec', sv') buff' (length ([] :: bytes)) False eline' bio')"
          using less.hyps [of bio' False "r + 1" c' sec' sv' buff' "[]" eline'] m rd False x2 less.prems(7,8) by simp
        then show ?thesis
          unfolding loop using load_done_line [of gets bio, OF g piece(1)] j str piece(2) False cs x(1) Some s x2 by simp
      qed
    qed
  qed
qed

end

end
