(* ===== verification/ConfFresh.thy ===== *)
theory ConfFresh
  imports ConfLoad
begin

text \<open>
  An allocator that hands out every address once: with it, the memory of a round is never in use when the
  round begins.
\<close>

definition line_objects :: "load_env \<Rightarrow> nat \<Rightarrow> ptr set" where
  "line_objects env r = {cv_addr (line_mem env r), sec_addr (new_sec (line_mem env r))}"

definition line_items :: "load_env \<Rightarrow> nat \<Rightarrow> ptr set" where
  "line_items env r = {item_addr (sec_mem (new_sec (line_mem env r))), item_addr (str_mem (new_str (line_mem env r)))}"

text \<open>The addresses of the first \<open>N\<close> rounds, and those in use at the start, are different.\<close>

definition distinct_memory :: "load_env \<Rightarrow> nat \<Rightarrow> CONF \<Rightarrow> bool" where
  "distinct_memory env N c \<longleftrightarrow> (\<forall>r\<le>N. str_dup_ok (new_str (line_mem env r)) \<and>
     cv_addr (line_mem env r) \<noteq> sec_addr (new_sec (line_mem env r)) \<and>
     item_addr (str_mem (new_str (line_mem env r))) \<noteq> item_addr (sec_mem (new_sec (line_mem env r))) \<and>
     line_objects env r \<inter> (dom (vals c) \<union> (\<Union>i<r. line_objects env i)) = {} \<and>
     line_items env r \<inter> (nodes c \<union> (\<Union>i<r. line_items env i)) = {})"

definition in_use :: "load_env \<Rightarrow> CONF \<Rightarrow> nat \<Rightarrow> CONF \<Rightarrow> bool" where
  "in_use env c1 r c \<longleftrightarrow> dom (vals c) \<subseteq> dom (vals c1) \<union> (\<Union>i<r. line_objects env i) \<and>
     nodes c \<subseteq> nodes c1 \<union> (\<Union>i<r. line_items env i)"

lemma in_use_start: "in_use env c 0 c"
  by (simp add: in_use_def)

lemma in_use_same: "in_use env c1 r c \<Longrightarrow> in_use env c1 (r + 1) c"
  by (auto simp: in_use_def lessThan_Suc)

lemma in_use_line:
  assumes "in_use env c1 r c" "line_memory (line_mem env r) c c'"
  shows "in_use env c1 (r + 1) c'"
proof -
  have d: "dom (vals c') \<subseteq> dom (vals c) \<union> line_objects env r" "nodes c' \<subseteq> nodes c \<union> line_items env r"
    using assms(2) by (simp_all add: line_memory_def takes_memory_def line_objects_def line_items_def)
  have u: "dom (vals c) \<subseteq> dom (vals c1) \<union> (\<Union>i<r. line_objects env i)" "nodes c \<subseteq> nodes c1 \<union> (\<Union>i<r. line_items env i)"
    using assms(1) by (simp_all add: in_use_def)
  have "dom (vals c') \<subseteq> (dom (vals c1) \<union> (\<Union>i<r. line_objects env i)) \<union> line_objects env r"
    "nodes c' \<subseteq> (nodes c1 \<union> (\<Union>i<r. line_items env i)) \<union> line_items env r"
    by (rule order.trans [OF d(1) Un_mono [OF u(1) order.refl]], rule order.trans [OF d(2) Un_mono [OF u(2) order.refl]])
  then show ?thesis by (simp add: in_use_def lessThan_Suc Un_ac)
qed

lemma distinct_is_fresh:
  assumes "distinct_memory env N c1" "in_use env c1 r c" "r \<le> N"
  shows "fresh_line (line_mem env r) c"
proof -
  have d: "str_dup_ok (new_str (line_mem env r))"
      "cv_addr (line_mem env r) \<noteq> sec_addr (new_sec (line_mem env r))"
      "item_addr (str_mem (new_str (line_mem env r))) \<noteq> item_addr (sec_mem (new_sec (line_mem env r)))"
      "line_objects env r \<inter> (dom (vals c1) \<union> (\<Union>i<r. line_objects env i)) = {}"
      "line_items env r \<inter> (nodes c1 \<union> (\<Union>i<r. line_items env i)) = {}"
    using assms(1,3) unfolding distinct_memory_def by blast+
  have "line_objects env r \<inter> dom (vals c) = {}" "line_items env r \<inter> nodes c = {}"
    using d(4,5) assms(2) unfolding in_use_def by blast+
  then show ?thesis using d(1-3) by (auto simp: fresh_line_def line_objects_def line_items_def)
qed

context line_source
begin

text \<open>What holds between two rounds.\<close>

definition between :: "'bio \<Rightarrow> load_env \<Rightarrow> CONF \<Rightarrow> 'bio load_point \<Rightarrow> bool" where
  "between src env c1 p \<longleftrightarrow> (case p of (r, c, (sec, sv), buff, n, again, eline, bio) \<Rightarrow>
     \<exists>acc. n = length acc \<and> reads gets src bio acc again \<and> usable bio \<and> ready c sec sv r \<and> holds buff acc \<and>
       (again \<longrightarrow> \<not> continues acc) \<and> length acc + left bio \<le> left src \<and>
       r + 2 * left bio + of_bool again \<le> 2 * left src \<and> in_use env c1 r c)"

lemma round_between:
  assumes "between src env c1 (r, c, (sec, sv), buff, n, again, eline, bio)" "left src < 2 ^ 31"
    and "read_round gets (grow_mem env r) buff n again eline bio = Round buff' n' going eline' bio'"
  shows "\<exists>line. n' = length line \<and> reads gets src bio' (if going then line else []) going \<and> usable bio' \<and> holds buff' line \<and>
    (going \<longrightarrow> \<not> continues line) \<and> length line + left bio' \<le> left src \<and>
    r + 1 + 2 * left bio' + of_bool going \<le> 2 * left src \<and> (\<not> going \<longrightarrow> cstring buff' 0 = line) \<and>
    (\<forall>P. all_lines P gets src \<and> \<not> going \<longrightarrow> P line)"
proof -
  obtain acc where b: "n = length acc" "reads gets src bio acc again" "usable bio" "holds buff acc"
      "again \<longrightarrow> \<not> continues acc" "length acc + left bio \<le> left src" "r + 2 * left bio + of_bool again \<le> 2 * left src"
    using assms(1) unfolding between_def by auto
  obtain chunk bio2 where g: "gets bio (CONFBUFSIZE - 1) = (chunk, bio2)" by fastforce
  obtain line going2 where j: "joined acc (seen chunk) = (line, going2)" by fastforce
  have cl: "length chunk < CONFBUFSIZE - 1"
    by (rule chunk_laws(1) [OF b(3) _ _ g]) (simp_all add: CONFBUFSIZE_def)
  have al: "length acc + CONFBUFSIZE < 2 ^ 62" using b(6) assms(2) by (simp add: CONFBUFSIZE_def)
  have c: "seen chunk \<noteq> [] \<or> again" "n' = length line" "going = going2" "bio' = bio2" "holds buff' line"
      "\<not> going2 \<longrightarrow> cstring buff' 0 = line"
    using read_round_spec [where env = "grow_mem env r" and again = again and eline = eline and gets = gets and bio = bio,
        OF b(4) al g cl j] assms(3) by (auto simp: b(1) split: if_splits)
  note m = round_measure [OF b(3) g j b(5) c(1)]
  have rd: "reads gets src bio2 (if going2 then line else []) going2" by (rule reads_piece [OF b(2) g j])
  have "\<forall>P. all_lines P gets src \<and> \<not> going2 \<longrightarrow> P line"
  proof (intro allI impI)
    fix P
    assume that: "all_lines P gets src \<and> \<not> going2"
    have "joined acc (seen (fst (gets bio (CONFBUFSIZE - 1)))) = (line, False)" using g j that by simp
    then show "P line" using that b(2) unfolding all_lines_def by blast
  qed
  moreover have "going2 \<longrightarrow> \<not> continues line" using j joined_going [of acc "seen chunk" line] by (cases going2) simp_all
  ultimately show ?thesis using c m b(6,7) rd by (intro exI [of _ line]) simp
qed

lemma reach_between:
  assumes "load_reach gets env start p" "start = (0, c1, (sec0, sv0), buff0, 0, False, 0, src)"
    and "usable src" "left src < 2 ^ 31" "ready c1 sec0 sv0 0" "holds buff0 []"
    and "distinct_memory env (2 * left src) c1" "all_lines header_constant gets src"
  shows "between src env c1 p"
  using assms(1)
proof induction
  case reach_start
  show ?case
    using assms(2-6) reads_start [of gets src] in_use_start [of env c1] by (auto simp: between_def)
next
  case (reach_again r c cs buff n again eline bio buff' n' eline' bio')
  obtain sec sv where cs: "cs = (sec, sv)" by fastforce
  obtain line where l: "n' = length line" "reads gets src bio' line True" "usable bio'" "holds buff' line"
      "\<not> continues line" "length line + left bio' \<le> left src" "r + 1 + 2 * left bio' + 1 \<le> 2 * left src"
    using round_between [OF reach_again.IH [unfolded cs] assms(4) reach_again.hyps(2)] by auto
  have "ready c sec sv (r + 1)" "in_use env c1 (r + 1) c"
    using reach_again.IH stacks_small_mono [of r "vals c" "r + 1"] in_use_same [of env c1 r c]
    by (auto simp: between_def cs ready_def)
  then show ?case using l unfolding between_def cs prod.case by (intro exI [of _ line]) simp
next
  case (reach_line r c cs buff n again eline bio buff' n' eline' bio' c' cs')
  obtain sec sv sec' sv' where cs: "cs = (sec, sv)" "cs' = (sec', sv')" by fastforce
  obtain line where l: "reads gets src bio' [] False" "usable bio'" "holds buff' line"
      "length line + left bio' \<le> left src" "r + 1 + 2 * left bio' \<le> 2 * left src" "cstring buff' 0 = line"
      "header_constant line"
    using round_between [OF reach_line.IH [unfolded cs] assms(4) reach_line.hyps(2)] assms(8) by auto
  have b: "ready c sec sv r" "in_use env c1 r c" using reach_line.IH by (auto simp: between_def cs)
  have f: "fresh_line (line_mem env r) c" using distinct_is_fresh [OF assms(7) b(2)] l(5) by simp
  have "line_done (line_mem env r) c sec r line (do_line (line_mem env r) c (sec, sv) line)"
    by (rule do_line_spec [OF b(1) _ f _ _ l(7)]) (use l(3,4,5) assms(4) in \<open>simp_all add: holds_def\<close>)
  then have "ready c' sec' sv' (r + 1)" "line_memory (line_mem env r) c c'"
    using reach_line.hyps(3) l(6) unfolding line_done_def cs by auto
  moreover have "holds buff' []" using l(3) by (simp add: holds_def)
  ultimately show ?case
    using l in_use_line [OF b(2), of c'] unfolding between_def cs prod.case by (intro exI [of _ "[]"]) simp
qed

lemma distinct_memory_fresh:
  assumes "usable src" "left src < 2 ^ 31" "ready c1 sec0 sv0 0" "holds buff0 []"
    and "distinct_memory env (2 * left src) c1" "all_lines header_constant gets src"
  shows "fresh_memory gets env (0, c1, (sec0, sv0), buff0, 0, False, 0, src)"
  unfolding fresh_memory_def
proof (intro allI impI)
  fix r c cs buff n again eline bio
  assume "load_reach gets env (0, c1, (sec0, sv0), buff0, 0, False, 0, src) (r, c, cs, buff, n, again, eline, bio)"
  from reach_between [OF this refl assms] have "in_use env c1 r c" "r \<le> 2 * left src"
    by (auto simp: between_def split: prod.splits)
  then show "fresh_line (line_mem env r) c" by (rule distinct_is_fresh [OF assms(5)])
qed

end

end
