(* ===== verification/ConfPrint.thy ===== *)
theory ConfPrint
  imports ConfLoad
begin

text \<open>
  Printed documents: sections with names and values as lines, and what the reader and the parser make of
  such lines.
\<close>

type_synonym document = "(bytes \<times> (bytes \<times> bytes) list) list"

definition header_of :: "bytes \<Rightarrow> bytes" where
  "header_of s = [91] @ s @ [93]"

definition entry_of :: "bytes \<times> bytes \<Rightarrow> bytes" where
  "entry_of e = fst e @ [61] @ snd e"

definition lines_of :: "document \<Rightarrow> bytes list" where
  "lines_of doc = concat (map (\<lambda>(s, es). header_of s # map entry_of es) doc)"

definition unlines :: "bytes list \<Rightarrow> bytes" where
  "unlines ls = concat (map (\<lambda>l. l @ [10]) ls)"

definition print_conf :: "document \<Rightarrow> bytes" where
  "print_conf doc = unlines (lines_of doc)"

definition name_text :: "bytes \<Rightarrow> bool" where
  "name_text n \<longleftrightarrow> list_all IS_ALPHA_NUMERIC n"

definition value_text :: "bytes \<Rightarrow> bool" where
  "value_text v \<longleftrightarrow> list_all (\<lambda>c. plain c \<and> \<not> IS_COMMENT c \<and> \<not> is_newline c) v \<and>
     (v = [] \<or> \<not> IS_WS (hd v) \<and> \<not> IS_WS (last v))"

definition printable :: "document \<Rightarrow> bool" where
  "printable doc \<longleftrightarrow> list_all (\<lambda>(s, es). name_text s \<and> list_all (\<lambda>(n, v). name_text n \<and> value_text v) es) doc \<and>
     list_all (\<lambda>l. length l < CONFBUFSIZE - 2) (lines_of doc)"

section \<open>Classes of characters\<close>

lemma alpha_classes:
  assumes "IS_ALPHA_NUMERIC c"
  shows "IS_ALPHA_NUMERIC_PUNCT c" "\<not> IS_WS c" "\<not> IS_ESC c" "\<not> IS_COMMENT c" "\<not> IS_QUOTE c"
proof -
  have "list_all (\<lambda>m. and m 263 \<noteq> 0 \<longrightarrow> and m 775 \<noteq> 0 \<and> and m 16 = 0 \<and> and m 32 = 0 \<and> and m 128 = 0 \<and> and m 64 = 0)
      CONF_type_default"
    by (simp add: CONF_type_default_def)
  from type_table [OF this, of c] assms show "IS_ALPHA_NUMERIC_PUNCT c" "\<not> IS_WS c" "\<not> IS_ESC c" "\<not> IS_COMMENT c" "\<not> IS_QUOTE c"
    by (simp_all add: IS_ALPHA_NUMERIC_def IS_ALPHA_NUMERIC_PUNCT_def IS_WS_def IS_ESC_def IS_COMMENT_def IS_QUOTE_def has_type_def)
qed

lemma never_classes: "\<not> IS_DQUOTE c" "\<not> IS_FCOMMENT c"
proof -
  have "list_all (\<lambda>m. and m 1024 = 0 \<and> and m 2048 = 0) CONF_type_default" by (simp add: CONF_type_default_def)
  from type_table [OF this, of c] show "\<not> IS_DQUOTE c" "\<not> IS_FCOMMENT c"
    by (simp_all add: IS_DQUOTE_def IS_FCOMMENT_def has_type_def)
qed

lemma mark_classes:
  "\<not> IS_ALPHA_NUMERIC_PUNCT 61" "\<not> IS_ALPHA_NUMERIC_PUNCT 93" "\<not> IS_ESC 61" "\<not> IS_ESC 93" "\<not> IS_ESC 91" "\<not> IS_WS 61" "\<not> IS_WS 91"
  "\<not> IS_WS 93" "\<not> IS_COMMENT 61" "\<not> IS_COMMENT 91" "\<not> IS_COMMENT 93" "\<not> IS_QUOTE 61" "\<not> IS_QUOTE 91" "\<not> IS_QUOTE 93"
  by (simp_all add: CONF_type_default_def has_type_def IS_ALPHA_NUMERIC_PUNCT_def IS_ESC_def IS_WS_def IS_COMMENT_def IS_QUOTE_def)

lemma alpha_marks: "IS_ALPHA_NUMERIC c \<Longrightarrow> c \<notin> {0, 10, 13, 36, 58, 61, 91, 93}"
  by (auto simp: CONF_type_default_def has_type_def IS_ALPHA_NUMERIC_def)

lemma alpha_plain: "IS_ALPHA_NUMERIC c \<Longrightarrow> plain c"
  using alpha_classes [of c] alpha_marks [of c] never_classes [of c] by (auto simp: plain_def)

section \<open>Parsing a printed line\<close>

text \<open>Characters that mean nothing to the comment scanner.\<close>

definition quiet :: "u8 \<Rightarrow> bool" where
  "quiet c \<longleftrightarrow> \<not> IS_COMMENT c \<and> \<not> IS_QUOTE c \<and> \<not> IS_ESC c \<and> c \<noteq> 0"

lemma clear_quiet: "list_all quiet s \<Longrightarrow> clear_rest s = s \<and> clear_comments s = s"
proof (induction s)
  case (Cons c s)
  have "clear_rest (c # s) = c # s"
    using Cons by (simp add: quiet_def never_classes eof_iff)
  then show ?case using Cons by (simp add: never_classes del: clear_rest.simps(2))
qed simp

lemma quiet_name: "name_text n \<Longrightarrow> list_all quiet n"
  unfolding name_text_def list_all_iff quiet_def using alpha_classes alpha_marks by blast

lemma quiet_value: "value_text v \<Longrightarrow> list_all quiet v"
  by (auto simp: value_text_def list_all_iff quiet_def plain_def)

lemma eat_ws_here: "s = [] \<or> \<not> IS_WS (hd s) \<Longrightarrow> eat_ws s = s"
  by (cases s) auto

lemma eat_name: "name_text n \<Longrightarrow> \<not> IS_ALPHA_NUMERIC_PUNCT c \<Longrightarrow> \<not> IS_ESC c \<Longrightarrow> eat_alpha_numeric (n @ c # s) = c # s"
  by (induction n) (simp_all add: name_text_def alpha_classes)

lemma hd_name: "name_text n \<Longrightarrow> \<not> IS_WS c \<Longrightarrow> \<not> IS_WS (hd (n @ c # s))"
  by (cases n) (simp_all add: name_text_def alpha_classes)

lemma parse_header:
  assumes "name_text s"
  shows "parse_line (header_of s) = Header s"
proof -
  have "list_all quiet (header_of s)"
    using quiet_name [OF assms] by (simp add: header_of_def quiet_def mark_classes)
  then have "clear_comments (header_of s) = header_of s" by (rule conjunct2 [OF clear_quiet])
  then have c: "clear_comments (header_of s) = 91 # s @ [93]" unfolding header_of_def by simp
  have start: "eat_ws (s @ [93]) = s @ [93]" by (rule eat_ws_here) (use hd_name [OF assms, of 93 "[]"] mark_classes in simp)
  have "eat_alpha_numeric (s @ [93]) = [93]" using eat_name [OF assms, of 93 "[]"] mark_classes by simp
  then have "find_bracket (s @ [93]) = Some [93]" by (subst find_bracket.simps) (simp add: mark_classes cur_def Let_def)
  then show ?thesis
    by (simp add: parse_line_def c mark_classes cur_def eof_iff start upto_ptr_def)
qed

lemma trim_text: "value_text v \<Longrightarrow> trim_value (eat_ws v) = v"
proof (cases v rule: rev_cases)
  case (snoc s c)
  assume v: "value_text v"
  then have "eat_ws v = v" by (intro eat_ws_here) (auto simp: value_text_def)
  moreover have "\<not> IS_WS c" using v snoc by (simp add: value_text_def)
  ultimately show ?thesis using snoc by (cases s) (simp_all add: trim_value_def)
qed (simp add: trim_value_def)

lemma parse_entry:
  assumes "name_text n" "value_text v"
  shows "parse_line (entry_of (n, v)) = Assign None n v"
proof -
  have "list_all quiet (entry_of (n, v))"
    using quiet_name [OF assms(1)] quiet_value [OF assms(2)] by (simp add: entry_of_def quiet_def mark_classes)
  then have "clear_comments (entry_of (n, v)) = entry_of (n, v)" by (rule conjunct2 [OF clear_quiet])
  then have c: "clear_comments (entry_of (n, v)) = n @ 61 # v" unfolding entry_of_def by simp
  have s: "eat_ws (n @ 61 # v) = n @ 61 # v" by (rule eat_ws_here) (use hd_name [OF assms(1), of 61 v] mark_classes in simp)
  have a: "eat_alpha_numeric (n @ 61 # v) = 61 # v" using eat_name [OF assms(1), of 61 v] mark_classes by simp
  have h: "cur (n @ 61 # v) \<noteq> 0 \<and> cur (n @ 61 # v) \<noteq> 91"
    using assms(1) alpha_marks by (cases n) (auto simp: cur_def name_text_def)
  then show ?thesis
    using trim_text [OF assms(2)] by (simp add: parse_line_def c s a eof_iff cur_def [of "61 # v"] mark_classes upto_ptr_def)
qed

section \<open>What printed lines mean\<close>

lemma run_header: "name_text s \<Longrightarrow> run_line (header_of s) (st, sec) = Some (enter_store st s, s)"
  using expand_plain [of s st None] alpha_plain
  by (auto simp: run_line_def parse_header name_text_def list_all_iff)

lemma run_entry:
  "name_text n \<Longrightarrow> value_text v \<Longrightarrow> run_line (entry_of (n, v)) (st, sec) = Some (assign_store st sec n v, sec)"
  using expand_plain [of v st "Some sec"]
  by (auto simp: run_line_def parse_entry value_text_def list_all_iff)

lemma plain_lines:
  "name_text s \<Longrightarrow> plain_line (header_of s)" "name_text n \<Longrightarrow> value_text v \<Longrightarrow> plain_line (entry_of (n, v))"
  using alpha_plain by (auto simp: plain_line_def parse_header parse_entry name_text_def value_text_def list_all_iff)

primrec run_lines :: "bytes list \<Rightarrow> store \<times> bytes \<Rightarrow> (store \<times> bytes) option" where
  "run_lines [] ss = Some ss"
| "run_lines (l # ls) ss = Option.bind (run_line l ss) (run_lines ls)"

lemma run_lines_append: "run_lines (ls @ ms) ss = Option.bind (run_lines ls ss) (run_lines ms)"
  by (induction ls arbitrary: ss) (auto split: bind_splits)

definition assign_all :: "bytes \<Rightarrow> (bytes \<times> bytes) list \<Rightarrow> store \<Rightarrow> store" where
  "assign_all s es st = fold (\<lambda>(n, v) st. assign_store st s n v) es st"

definition doc_store :: "document \<Rightarrow> store \<Rightarrow> store" where
  "doc_store doc st = fold (\<lambda>(s, es) st. assign_all s es (enter_store st s)) doc st"

lemma run_entries:
  "list_all (\<lambda>(n, v). name_text n \<and> value_text v) es \<Longrightarrow>
    run_lines (map entry_of es) (st, s) = Some (assign_all s es st, s)"
  by (induction es arbitrary: st) (auto simp: run_entry assign_all_def)

lemma run_document:
  assumes "list_all (\<lambda>(s, es). name_text s \<and> list_all (\<lambda>(n, v). name_text n \<and> value_text v) es) doc"
  shows "\<exists>sec'. run_lines (lines_of doc) (st, sec) = Some (doc_store doc st, sec')"
  using assms
proof (induction doc arbitrary: st sec)
  case (Cons e doc)
  obtain s es where e: "e = (s, es)" by fastforce
  have "run_lines (header_of s # map entry_of es) (st, sec) = Some (assign_all s es (enter_store st s), s)"
    using Cons.prems by (simp add: e run_header run_entries)
  moreover have "lines_of (e # doc) = (header_of s # map entry_of es) @ lines_of doc" by (simp add: lines_of_def e)
  moreover have "doc_store (e # doc) st = doc_store doc (assign_all s es (enter_store st s))" by (simp add: doc_store_def e)
  ultimately show ?case
    using Cons.IH [of "assign_all s es (enter_store st s)" s] Cons.prems
    by (simp only: run_lines_append Option.bind.bind_lunit list.pred_inject(2))
qed (simp add: lines_of_def doc_store_def)

section \<open>The last assignment\<close>

definition entries :: "document \<Rightarrow> ((bytes \<times> bytes) \<times> bytes) list" where
  "entries doc = concat (map (\<lambda>(s, es). map (\<lambda>(n, v). ((s, n), v)) es) doc)"

definition store_get :: "store \<Rightarrow> bytes \<times> bytes \<Rightarrow> bytes option" where
  "store_get st k = Option.bind (st (fst k)) (\<lambda>m. m (snd k))"

lemma get_assign: "store_get (assign_store st s n v) = (store_get st)((s, n) \<mapsto> v)"
  by (rule ext) (auto simp: store_get_def assign_store_def split: option.splits)

lemma get_enter: "store_get (enter_store st s) = store_get st"
  by (rule ext) (auto simp: store_get_def enter_store_def split: option.splits)

lemma get_assign_all:
  "store_get (assign_all s es st) = store_get st ++ map_of (rev (map (\<lambda>(n, v). ((s, n), v)) es))"
  by (induction es arbitrary: st) (auto simp: assign_all_def get_assign map_add_def intro!: ext split: option.splits)

lemma get_document: "store_get (doc_store doc st) = store_get st ++ map_of (rev (entries doc))"
proof (induction doc arbitrary: st)
  case (Cons e doc)
  obtain s es where e: "e = (s, es)" by fastforce
  have "store_get (doc_store (e # doc) st) = store_get (doc_store doc (assign_all s es (enter_store st s)))"
    by (simp add: doc_store_def e)
  also have "\<dots> = store_get st ++ map_of (rev (map (\<lambda>(n, v). ((s, n), v)) es)) ++ map_of (rev (entries doc))"
    by (simp add: Cons.IH get_assign_all get_enter)
  finally show ?case by (simp add: entries_def e map_of_append)
qed (simp add: doc_store_def entries_def)

end
