(* ===== verification/MemBio.thy ===== *)
theory MemBio
  imports Buf
begin

text \<open>
  \<open>crypto/bio/bio_mem.c\<close> and the calls of \<open>bio.c\<close> that lead to it: BIOs whose method is that of memory. A
  value of type \<open>int\<close> is an integer in its range. The bytes of \<open>ptr->data\<close> are those from the pointer on;
  \<open>passed\<close> are the bytes in front of it, which a read-only BIO steps over. What a caller's buffer gets is
  part of the result.
\<close>

record BIO =
  init :: int
  shutdown :: int
  flags :: u32
  retry_reason :: int
  eof_value :: int
  num_read :: u64
  num_write :: u64
  mem :: BUF_MEM
  passed :: bytes

definition BIO_FLAGS_READ :: u32 where "BIO_FLAGS_READ = 0x01"

definition BIO_FLAGS_WRITE :: u32 where "BIO_FLAGS_WRITE = 0x02"

definition BIO_FLAGS_IO_SPECIAL :: u32 where "BIO_FLAGS_IO_SPECIAL = 0x04"

definition BIO_FLAGS_RWS :: u32 where
  "BIO_FLAGS_RWS = BIO_FLAGS_READ OR BIO_FLAGS_WRITE OR BIO_FLAGS_IO_SPECIAL"

definition BIO_FLAGS_SHOULD_RETRY :: u32 where "BIO_FLAGS_SHOULD_RETRY = 0x08"

definition BIO_FLAGS_MEM_RDONLY :: u32 where "BIO_FLAGS_MEM_RDONLY = 0x200"

definition kRetryFlags :: u32 where
  "kRetryFlags = BIO_FLAGS_RWS OR BIO_FLAGS_SHOULD_RETRY"

definition INT_MAX :: int where
  "INT_MAX = 2 ^ 31 - 1"

text \<open>The conversion of a \<open>size_t\<close> to \<open>int\<close>.\<close>

definition int_of_size :: "u64 \<Rightarrow> int" where
  "int_of_size n = sint (ucast n :: u32)"

section \<open>Flags\<close>

definition BIO_set_flags :: "u32 \<Rightarrow> BIO \<Rightarrow> BIO" where
  "BIO_set_flags f bio = bio\<lparr>flags := flags bio OR f\<rparr>"

definition BIO_test_flags :: "BIO \<Rightarrow> u32 \<Rightarrow> u32" where
  "BIO_test_flags bio f = flags bio AND f"

definition BIO_clear_flags :: "u32 \<Rightarrow> BIO \<Rightarrow> BIO" where
  "BIO_clear_flags f bio = bio\<lparr>flags := flags bio AND NOT f\<rparr>"

definition BIO_set_retry_read :: "BIO \<Rightarrow> BIO" where
  "BIO_set_retry_read bio = bio\<lparr>flags := flags bio OR (BIO_FLAGS_READ OR BIO_FLAGS_SHOULD_RETRY)\<rparr>"

definition BIO_set_retry_write :: "BIO \<Rightarrow> BIO" where
  "BIO_set_retry_write bio = bio\<lparr>flags := flags bio OR (BIO_FLAGS_WRITE OR BIO_FLAGS_SHOULD_RETRY)\<rparr>"

definition BIO_get_retry_flags :: "BIO \<Rightarrow> u32" where
  "BIO_get_retry_flags bio = flags bio AND kRetryFlags"

definition BIO_clear_retry_flags :: "BIO \<Rightarrow> BIO" where
  "BIO_clear_retry_flags bio = bio\<lparr>flags := flags bio AND NOT kRetryFlags, retry_reason := 0\<rparr>"

definition BIO_should_read :: "BIO \<Rightarrow> u32" where
  "BIO_should_read bio = BIO_test_flags bio BIO_FLAGS_READ"

definition BIO_should_write :: "BIO \<Rightarrow> u32" where
  "BIO_should_write bio = BIO_test_flags bio BIO_FLAGS_WRITE"

definition BIO_should_retry :: "BIO \<Rightarrow> u32" where
  "BIO_should_retry bio = BIO_test_flags bio BIO_FLAGS_SHOULD_RETRY"

definition rdonly :: "BIO \<Rightarrow> bool" where
  "rdonly bio \<longleftrightarrow> flags bio AND BIO_FLAGS_MEM_RDONLY \<noteq> 0"

section \<open>Making and freeing\<close>

text \<open>\<open>BIO_new\<close> with the memory method, which calls \<open>mem_new\<close>: \<open>bio_ok\<close> and \<open>mem_ok\<close> are the two
  allocations.\<close>

definition mem_new :: "bool \<Rightarrow> BIO \<Rightarrow> BIO option" where
  "mem_new mem_ok bio = (case BUF_MEM_new mem_ok of None \<Rightarrow> None
     | Some b \<Rightarrow> Some (bio\<lparr>shutdown := 1, init := 1, eof_value := -1, mem := b\<rparr>))"

definition BIO_new :: "bool \<Rightarrow> bool \<Rightarrow> BIO option" where
  "BIO_new bio_ok mem_ok =
    (if \<not> bio_ok then None
     else mem_new mem_ok \<lparr>init = 0, shutdown = 1, flags = 0, retry_reason = 0, eof_value = 0, num_read = 0,
       num_write = 0, mem = \<lparr>buf_length = 0, buf_data = [], buf_max = 0\<rparr>, passed = []\<rparr>)"

text \<open>The outer \<open>None\<close> is undefined: \<open>strlen\<close> on \<open>NULL\<close>, or on an array without a zero.\<close>

definition BIO_new_mem_buf :: "bool \<Rightarrow> bool \<Rightarrow> bytes option \<Rightarrow> int \<Rightarrow> BIO option option" where
  "BIO_new_mem_buf bio_ok mem_ok buf len =
    (if len < 0 \<and> (case buf of None \<Rightarrow> True | Some xs \<Rightarrow> 0 \<notin> set xs) then None
     else let sz = (if len < 0 then of_nat (length (takeWhile (\<lambda>b. b \<noteq> 0) (the buf))) else word_of_int len)
          in if buf = None \<and> len \<noteq> 0 then Some None
             else Some (map_option
               (\<lambda>bio. bio\<lparr>mem := \<lparr>buf_length = sz, buf_data = (case buf of None \<Rightarrow> [] | Some xs \<Rightarrow> xs), buf_max = sz\<rparr>,
                  flags := flags bio OR BIO_FLAGS_MEM_RDONLY, eof_value := 0\<rparr>)
               (BIO_new bio_ok mem_ok)))"

text \<open>\<open>mem_free\<close>: whether the \<open>BUF_MEM\<close> is freed, and whether its block is.\<close>

definition mem_free :: "BIO \<Rightarrow> bool \<times> bool" where
  "mem_free bio =
    (if shutdown bio = 0 \<or> init bio = 0 then (False, False) else (True, \<not> rdonly bio))"

section \<open>Reading and writing\<close>

text \<open>The bytes from the data pointer on after \<open>n\<close> of them are read.\<close>

definition take_front :: "nat \<Rightarrow> BIO \<Rightarrow> BIO" where
  "take_front n bio =
    (let b = mem bio; len = buf_length b - of_nat n
     in if rdonly bio
        then bio\<lparr>mem := b\<lparr>buf_length := len, buf_data := drop n (buf_data b)\<rparr>, passed := passed bio @ take n (buf_data b)\<rparr>
        else bio\<lparr>mem := b\<lparr>buf_length := len,
          buf_data := take (unat len) (drop n (buf_data b)) @ drop (unat len) (buf_data b)\<rparr>\<rparr>)"

definition mem_read :: "BIO \<Rightarrow> int \<Rightarrow> BIO \<times> int \<times> bytes" where
  "mem_read bio outl =
    (let bio = BIO_clear_retry_flags bio;
         len = buf_length (mem bio);
         ret = (if uint len < INT_MAX \<and> int_of_size len < outl then int_of_size len else outl)
     in if 0 < ret then (take_front (nat ret) bio, ret, take (nat ret) (buf_data (mem bio)))
        else if len = 0 then
          (if eof_value bio \<noteq> 0 then BIO_set_retry_read bio else bio, eof_value bio, [])
        else (bio, ret, []))"

text \<open>\<open>xs\<close> are the bytes at the pointer \<open>in\<close>, at least \<open>inl\<close> of them.\<close>

definition mem_write :: "byte_env \<Rightarrow> BIO \<Rightarrow> bytes \<Rightarrow> int \<Rightarrow> BIO \<times> int" where
  "mem_write env bio xs inl =
    (if rdonly bio then (bio, -1)
     else let bio = BIO_clear_retry_flags bio;
              blen = int_of_size (buf_length (mem bio))
          in if INT_MAX - blen < inl then (bio, -1)
             else (case BUF_MEM_grow_clean env (mem bio) (word_of_int (blen + inl)) of (b, grown) \<Rightarrow>
               if grown \<noteq> word_of_int blen + word_of_int inl then (bio\<lparr>mem := b\<rparr>, -1)
               else (bio\<lparr>mem := b\<lparr>buf_data := take (nat blen) (buf_data b) @ take (nat inl) xs @
                       drop (nat blen + nat inl) (buf_data b)\<rparr>\<rparr>, inl)))"

text \<open>The number of bytes up to and with the first newline among the first \<open>j\<close>.\<close>

primrec line_length :: "bytes \<Rightarrow> nat" where
  "line_length [] = 0"
| "line_length (c # s) = (if c = 10 then 1 else Suc (line_length s))"

text \<open>The bytes include the terminating zero.\<close>

definition mem_gets :: "BIO \<Rightarrow> int \<Rightarrow> BIO \<times> int \<times> bytes" where
  "mem_gets bio sz =
    (let bio = BIO_clear_retry_flags bio;
         j = int_of_size (buf_length (mem bio));
         j = (if sz - 1 < j then sz - 1 else j)
     in if j \<le> 0 then (bio, 0, if 0 < sz then [0] else [])
        else (case mem_read bio (int (line_length (take (nat j) (buf_data (mem bio))))) of (bio, i, xs) \<Rightarrow>
          (bio, i, if 0 < i then xs @ [0] else xs)))"

section \<open>Control\<close>

definition BIO_CTRL_RESET :: int where "BIO_CTRL_RESET = 1"

definition BIO_CTRL_EOF :: int where "BIO_CTRL_EOF = 2"

definition BIO_CTRL_INFO :: int where "BIO_CTRL_INFO = 3"

definition BIO_CTRL_GET_CLOSE :: int where "BIO_CTRL_GET_CLOSE = 8"

definition BIO_CTRL_SET_CLOSE :: int where "BIO_CTRL_SET_CLOSE = 9"

definition BIO_CTRL_PENDING :: int where "BIO_CTRL_PENDING = 10"

definition BIO_CTRL_FLUSH :: int where "BIO_CTRL_FLUSH = 11"

definition BIO_CTRL_WPENDING :: int where "BIO_CTRL_WPENDING = 13"

definition BIO_C_SET_BUF_MEM :: int where "BIO_C_SET_BUF_MEM = 114"

definition BIO_C_GET_BUF_MEM_PTR :: int where "BIO_C_GET_BUF_MEM_PTR = 115"

definition BIO_C_SET_BUF_MEM_EOF_RETURN :: int where "BIO_C_SET_BUF_MEM_EOF_RETURN = 130"

text \<open>What \<open>mem_ctrl\<close> writes through its pointer argument: the data pointer, that is the bytes from it
  on, or the \<open>BUF_MEM\<close>.\<close>

datatype ctrl_out = Nothing | Contents bytes | Buffer BUF_MEM

text \<open>\<open>pptr\<close> says whether the pointer is not \<open>NULL\<close>, and \<open>b'\<close> is what it points to for
  \<open>BIO_C_SET_BUF_MEM\<close>.\<close>

definition mem_ctrl :: "BIO \<Rightarrow> int \<Rightarrow> int \<Rightarrow> bool \<Rightarrow> BUF_MEM \<Rightarrow> BIO \<times> int \<times> ctrl_out" where
  "mem_ctrl bio cmd n pptr b' =
    (let b = mem bio in
     if cmd = BIO_CTRL_RESET then
       ((if buf_data b = [] \<and> passed bio = [] then bio
         else if rdonly bio then
           (let back = unat (buf_max b - buf_length b); p = passed bio
            in bio\<lparr>mem := b\<lparr>buf_data := drop (length p - back) p @ buf_data b, buf_length := buf_max b\<rparr>,
                   passed := take (length p - back) p\<rparr>)
         else bio\<lparr>mem := b\<lparr>buf_data := replicate (unat (buf_max b)) 0, buf_length := 0\<rparr>\<rparr>), 1, Nothing)
     else if cmd = BIO_CTRL_EOF then (bio, of_bool (buf_length b = 0), Nothing)
     else if cmd = BIO_C_SET_BUF_MEM_EOF_RETURN then (bio\<lparr>eof_value := signed_take_bit 31 n\<rparr>, 1, Nothing)
     else if cmd = BIO_CTRL_INFO then (bio, sint (buf_length b), if pptr then Contents (buf_data b) else Nothing)
     else if cmd = BIO_C_SET_BUF_MEM then (bio\<lparr>shutdown := signed_take_bit 31 n, mem := b', passed := []\<rparr>, 1, Nothing)
     else if cmd = BIO_C_GET_BUF_MEM_PTR then (bio, 1, if pptr then Buffer b else Nothing)
     else if cmd = BIO_CTRL_GET_CLOSE then (bio, shutdown bio, Nothing)
     else if cmd = BIO_CTRL_SET_CLOSE then (bio\<lparr>shutdown := signed_take_bit 31 n\<rparr>, 1, Nothing)
     else if cmd = BIO_CTRL_WPENDING then (bio, 0, Nothing)
     else if cmd = BIO_CTRL_PENDING then (bio, sint (buf_length b), Nothing)
     else if cmd = BIO_CTRL_FLUSH then (bio, 1, Nothing)
     else (bio, 0, Nothing))"

section \<open>The calls of bio.c\<close>

definition BIO_read :: "BIO \<Rightarrow> int \<Rightarrow> BIO \<times> int \<times> bytes" where
  "BIO_read bio len =
    (if init bio = 0 then (bio, -2, [])
     else if len \<le> 0 then (bio, 0, [])
     else (case mem_read bio len of (bio, ret, xs) \<Rightarrow>
       (if 0 < ret then bio\<lparr>num_read := num_read bio + word_of_int ret\<rparr> else bio, ret, xs)))"

definition BIO_gets :: "BIO \<Rightarrow> int \<Rightarrow> BIO \<times> int \<times> bytes" where
  "BIO_gets bio len =
    (if init bio = 0 then (bio, -2, [])
     else if len \<le> 0 then (bio, 0, [])
     else (case mem_gets bio len of (bio, ret, xs) \<Rightarrow>
       (if 0 < ret then bio\<lparr>num_read := num_read bio + word_of_int ret\<rparr> else bio, ret, xs)))"

definition BIO_write :: "byte_env \<Rightarrow> BIO \<Rightarrow> bytes \<Rightarrow> int \<Rightarrow> BIO \<times> int" where
  "BIO_write env bio xs inl =
    (if init bio = 0 then (bio, -2)
     else if inl \<le> 0 then (bio, 0)
     else (case mem_write env bio xs inl of (bio, ret) \<Rightarrow>
       (if 0 < ret then bio\<lparr>num_write := num_write bio + word_of_int ret\<rparr> else bio, ret)))"

text \<open>\<open>BIO_write_all\<close>: a write is of all the bytes it is given or fails, so the loop takes as many rounds
  as there are pieces of \<open>INT_MAX\<close> bytes; \<open>env\<close> gives the allocator of every round.\<close>

function BIO_write_all :: "(nat \<Rightarrow> byte_env) \<Rightarrow> nat \<Rightarrow> BIO \<Rightarrow> bytes \<Rightarrow> BIO \<times> bool" where
  "BIO_write_all env k bio xs =
    (if xs = [] then (bio, True)
     else case BIO_write (env k) bio xs (if INT_MAX < int (length xs) then INT_MAX else int (length xs)) of (bio, ret) \<Rightarrow>
       if ret \<le> 0 then (bio, False) else BIO_write_all env (Suc k) bio (drop (nat ret) xs))"
  by pat_completeness auto
termination by (relation "measure (\<lambda>(env, k, bio, xs). length xs)") auto

declare BIO_write_all.simps [simp del]

text \<open>A string is its bytes in front of the terminating zero.\<close>

definition BIO_puts :: "byte_env \<Rightarrow> BIO \<Rightarrow> bytes \<Rightarrow> BIO \<times> int" where
  "BIO_puts env bio s = BIO_write env bio s (int_of_size (of_nat (length s)))"

definition BIO_reset :: "BIO \<Rightarrow> BIO \<times> int" where
  "BIO_reset bio = (case mem_ctrl bio BIO_CTRL_RESET 0 False (mem bio) of (bio, ret, _) \<Rightarrow> (bio, signed_take_bit 31 ret))"

definition BIO_eof :: "BIO \<Rightarrow> int" where
  "BIO_eof bio = (case mem_ctrl bio BIO_CTRL_EOF 0 False (mem bio) of (_, ret, _) \<Rightarrow> signed_take_bit 31 ret)"

text \<open>The assertion of \<open>BIO_pending\<close> holds for lengths below \<open>2 ^ 63\<close>.\<close>

definition BIO_pending :: "BIO \<Rightarrow> u64" where
  "BIO_pending bio = (case mem_ctrl bio BIO_CTRL_PENDING 0 False (mem bio) of (_, r, _) \<Rightarrow>
     if r < 0 then 0 else word_of_int r)"

definition BIO_mem_contents :: "BIO \<Rightarrow> bytes \<times> u64" where
  "BIO_mem_contents bio = (buf_data (mem bio), buf_length (mem bio))"

definition BIO_set_mem_eof_return :: "BIO \<Rightarrow> int \<Rightarrow> BIO \<times> int" where
  "BIO_set_mem_eof_return bio v = (case mem_ctrl bio BIO_C_SET_BUF_MEM_EOF_RETURN v False (mem bio) of
     (bio, ret, _) \<Rightarrow> (bio, signed_take_bit 31 ret))"

end
