(* ===== verification/MemBioProps.thy ===== *)
theory MemBioProps
  imports MemBio LineSource
begin

text \<open>
  A memory BIO is a queue of bytes: what is written is read, in order, by \<open>BIO_read\<close> in pieces and by
  \<open>BIO_gets\<close> in lines.
\<close>

section \<open>Numbers and flags\<close>

lemma int_of_size_small: "unat n < 2 ^ 31 \<Longrightarrow> int_of_size n = int (unat n)"
proof -
  assume "unat n < 2 ^ 31"
  then have "int (unat n) < int (2 ^ 31)" by (simp only: of_nat_less_iff)
  moreover have "int_of_size n = signed_take_bit 31 (int (unat n))"
    by (simp add: int_of_size_def sint_uint unsigned_ucast_eq signed_take_bit_take_bit)
  ultimately show ?thesis using signed_take_bit_int_eq_self [of 31 "int (unat n)"] order.trans [of "- 2147483648" 0 "uint n"] by simp
qed

lemma rdonly_flags [simp]:
  "rdonly (BIO_clear_retry_flags bio) = rdonly bio" "rdonly (BIO_set_retry_read bio) = rdonly bio"
proof -
  have "(f AND NOT kRetryFlags) AND BIO_FLAGS_MEM_RDONLY = f AND BIO_FLAGS_MEM_RDONLY"
    "(f OR (BIO_FLAGS_READ OR BIO_FLAGS_SHOULD_RETRY)) AND BIO_FLAGS_MEM_RDONLY = f AND BIO_FLAGS_MEM_RDONLY" for f
    by (simp_all add: kRetryFlags_def BIO_FLAGS_RWS_def BIO_FLAGS_READ_def BIO_FLAGS_WRITE_def BIO_FLAGS_IO_SPECIAL_def
        BIO_FLAGS_SHOULD_RETRY_def BIO_FLAGS_MEM_RDONLY_def and.assoc bit.conj_disj_distrib2)
  then show "rdonly (BIO_clear_retry_flags bio) = rdonly bio" "rdonly (BIO_set_retry_read bio) = rdonly bio"
    by (simp_all add: rdonly_def BIO_clear_retry_flags_def BIO_set_retry_read_def)
qed

lemma clear_simps [simp]:
  "mem (BIO_clear_retry_flags bio) = mem bio" "init (BIO_clear_retry_flags bio) = init bio"
  "passed (BIO_clear_retry_flags bio) = passed bio" "eof_value (BIO_clear_retry_flags bio) = eof_value bio"
  "mem (BIO_set_retry_read bio) = mem bio" "init (BIO_set_retry_read bio) = init bio"
  "passed (BIO_set_retry_read bio) = passed bio" "eof_value (BIO_set_retry_read bio) = eof_value bio"
  by (simp_all add: BIO_clear_retry_flags_def BIO_set_retry_read_def)

section \<open>The queue\<close>

definition mem_ok :: "BIO \<Rightarrow> bool" where
  "mem_ok bio \<longleftrightarrow> init bio \<noteq> 0 \<and> unat (buf_length (mem bio)) < 2 ^ 31 \<and>
     unat (buf_length (mem bio)) \<le> length (buf_data (mem bio)) \<and> (\<not> rdonly bio \<longrightarrow> buf_ok (mem bio))"

definition queue :: "BIO \<Rightarrow> bytes" where
  "queue bio = take (unat (buf_length (mem bio))) (buf_data (mem bio))"

lemma queue_length: "mem_ok bio \<Longrightarrow> length (queue bio) = unat (buf_length (mem bio))"
  by (simp add: mem_ok_def queue_def min_def)

lemma clear_ok [simp]:
  "mem_ok (BIO_clear_retry_flags bio) = mem_ok bio" "queue (BIO_clear_retry_flags bio) = queue bio"
  "mem_ok (BIO_set_retry_read bio) = mem_ok bio" "queue (BIO_set_retry_read bio) = queue bio"
  by (simp_all add: mem_ok_def queue_def)

lemma take_front_spec:
  assumes "mem_ok bio" "n \<le> length (queue bio)"
  shows "mem_ok (take_front n bio) \<and> queue (take_front n bio) = drop n (queue bio) \<and>
    rdonly (take_front n bio) = rdonly bio \<and> eof_value (take_front n bio) = eof_value bio"
proof -
  let ?l = "unat (buf_length (mem bio))"
  have l: "n \<le> ?l" "?l < 2 ^ 31" "?l \<le> length (buf_data (mem bio))"
    using assms queue_length [OF assms(1)] by (simp_all add: mem_ok_def)
  have u: "unat (of_nat n :: u64) = n" by (rule unat_of_nat_u64) (use l in simp)
  have s: "unat (buf_length (mem bio) - of_nat n) = ?l - n"
    using l(1) u by (subst unat_minus_le) (simp_all add: word_le_nat_alt)
  show ?thesis
  proof (cases "rdonly bio")
    case True
    then show ?thesis
      using assms(1) s l diff_le_self [of ?l n]
      by (simp add: take_front_def Let_def mem_ok_def queue_def rdonly_def drop_take del: diff_le_self)
  next
    case False
    moreover have "buf_length (mem bio) - of_nat n \<le> buf_max (mem bio)"
      unfolding word_le_nat_alt s using assms(1) False
      by (meson buf_ok_def diff_le_self le_trans mem_ok_def word_le_nat_alt)
    moreover have "length (buf_data (mem bio)) = unat (buf_max (mem bio))"
      using assms(1) False by (simp add: mem_ok_def buf_ok_def)
    ultimately show ?thesis
      using assms(1) s l
      by (auto simp: take_front_def Let_def mem_ok_def queue_def rdonly_def buf_ok_def drop_take min_def)
  qed
qed

lemma take_front_queue: "mem_ok bio \<Longrightarrow> n \<le> length (queue bio) \<Longrightarrow> take n (buf_data (mem bio)) = take n (queue bio)"
  using queue_length [of bio] by (simp add: queue_def min_def)

section \<open>Reading\<close>

lemma mem_read_spec:
  assumes "mem_ok bio" "0 < n" "n \<le> INT_MAX"
  shows "\<exists>bio'. mem_read bio n = (bio', if queue bio = [] then eof_value bio else int (length (take (nat n) (queue bio))),
      take (nat n) (queue bio)) \<and>
    mem_ok bio' \<and> queue bio' = drop (nat n) (queue bio) \<and> rdonly bio' = rdonly bio \<and> eof_value bio' = eof_value bio"
proof -
  let ?b = "BIO_clear_retry_flags bio" and ?w = "buf_length (mem bio)"
  have l: "length (queue bio) = unat ?w" "unat ?w < 2 ^ 31"
    using queue_length [OF assms(1)] assms(1) by (simp_all add: mem_ok_def)
  define k where "k = min (nat n) (length (queue bio))"
  have k: "(if uint ?w < INT_MAX \<and> int_of_size ?w < n then int_of_size ?w else n) = int k"
  proof -
    define m where "m = unat ?w"
    have m: "uint ?w = int m" "int_of_size ?w = int m" "m < 2 ^ 31" "length (queue bio) = m"
      using int_of_size_small [OF l(2)] l by (simp_all add: m_def)
    show ?thesis unfolding k_def m using assms(2,3) m(3) by (auto simp: INT_MAX_def min_def)
  qed
  have t: "take k (queue bio) = take (nat n) (queue bio)" "drop k (queue bio) = drop (nat n) (queue bio)"
    by (simp_all add: k_def min_def)
  show ?thesis
  proof (cases "queue bio = []")
    case True
    then have z: "?w = 0" "k = 0" using l(1) by (simp_all add: unat_eq_zero k_def)
    then show ?thesis
      using True k assms(1) by (auto simp: mem_read_def Let_def)
  next
    case False
    then have "0 < k" using assms(2) by (simp add: k_def)
    moreover have "length (take (nat n) (queue bio)) = k" "k \<le> length (queue bio)" by (simp_all add: k_def min.commute)
    ultimately show ?thesis
      unfolding mem_read_def Let_def clear_simps k
      using False t take_front_spec [of ?b k] take_front_queue [of ?b k] assms(1) by (simp del: length_take)
  qed
qed

lemma ok_counters [simp]:
  "mem_ok (bio\<lparr>num_read := n\<rparr>) = mem_ok bio" "queue (bio\<lparr>num_read := n\<rparr>) = queue bio"
  "rdonly (bio\<lparr>num_read := n\<rparr>) = rdonly bio" "mem_ok (bio\<lparr>num_write := n\<rparr>) = mem_ok bio"
  "queue (bio\<lparr>num_write := n\<rparr>) = queue bio" "rdonly (bio\<lparr>num_write := n\<rparr>) = rdonly bio"
  by (simp_all add: mem_ok_def queue_def rdonly_def)

lemma BIO_read_spec:
  assumes "mem_ok bio" "n \<le> INT_MAX"
  shows "\<exists>bio' ret. BIO_read bio n = (bio', ret, take (nat n) (queue bio)) \<and> mem_ok bio' \<and>
    queue bio' = drop (nat n) (queue bio) \<and> rdonly bio' = rdonly bio"
proof (cases "n \<le> 0")
  case True
  then show ?thesis using assms(1) by (simp add: BIO_read_def mem_ok_def)
next
  case False
  show ?thesis
  proof -
    obtain bio' e where r: "mem_read bio n = (bio', e, take (nat n) (queue bio))" "mem_ok bio'"
        "queue bio' = drop (nat n) (queue bio)" "rdonly bio' = rdonly bio"
      using mem_read_spec [OF assms(1) _ assms(2)] False by force
    have "init bio \<noteq> 0" using assms(1) by (simp add: mem_ok_def)
    then show ?thesis using False r by (cases "0 < e") (simp_all add: BIO_read_def)
  qed
qed

lemma line_length_le: "line_length s \<le> length s"
  by (induction s) auto

lemma line_length_pos: "s \<noteq> [] \<Longrightarrow> 0 < line_length s"
  by (cases s) auto

text \<open>A line of at most \<open>n\<close> bytes at the front of the queue.\<close>

definition first_line :: "nat \<Rightarrow> bytes \<Rightarrow> bytes" where
  "first_line n s = take (line_length (take n s)) s"

lemma first_line_length: "length (first_line n s) = line_length (take n s)" "length (first_line n s) \<le> n"
  using line_length_le [of "take n s"] by (auto simp: first_line_def)

lemma BIO_gets_spec:
  assumes "mem_ok bio" "0 < n" "n \<le> INT_MAX"
  defines "xs \<equiv> first_line (nat n - 1) (queue bio)"
  shows "\<exists>bio'. BIO_gets bio n = (bio', int (length xs), xs @ [0]) \<and> mem_ok bio' \<and>
    queue bio' = drop (length xs) (queue bio) \<and> rdonly bio' = rdonly bio"
proof -
  let ?b = "BIO_clear_retry_flags bio" and ?w = "buf_length (mem bio)"
  have l: "length (queue bio) = unat ?w" "unat ?w < 2 ^ 31"
    using queue_length [OF assms(1)] assms(1) by (simp_all add: mem_ok_def)
  have i: "init bio \<noteq> 0" using assms(1) by (simp add: mem_ok_def)
  define j where "j = min (nat n - 1) (length (queue bio))"
  have j: "(if n - 1 < int_of_size ?w then n - 1 else int_of_size ?w) = int j"
    unfolding int_of_size_small [OF l(2)] j_def l(1) [symmetric] using assms(2) by (auto simp: min_def)
  have t: "take j (queue bio) = take (nat n - 1) (queue bio)" by (simp add: j_def min_def)
  have jq: "take j (buf_data (mem bio)) = take j (queue bio)"
    by (rule take_front_queue [OF assms(1)]) (simp add: j_def)
  show ?thesis
  proof (cases "j = 0")
    case True
    have "take (nat n - 1) (queue bio) = []" using t True by simp
    then have "xs = []" by (simp only: xs_def first_line_def line_length.simps take_0)
    moreover have "mem_gets bio n = (?b, 0, [0])"
      unfolding mem_gets_def Let_def clear_simps j using True assms(2) by simp
    ultimately show ?thesis using assms(1,2) i by (simp add: BIO_gets_def)
  next
    case False
    define k where "k = line_length (take j (queue bio))"
    have ne: "take j (queue bio) \<noteq> []" using False by (auto simp: j_def)
    then have k: "0 < k" "k \<le> j" using line_length_le [of "take j (queue bio)"] line_length_pos [OF ne]
      by (simp_all add: k_def)
    have kx: "length xs = k" "take k (queue bio) = xs"
      using first_line_length(1) [of "nat n - 1" "queue bio"] t by (simp_all add: xs_def first_line_def k_def)
    have "k \<le> nat n - 1" "0 < nat n" using k(2) assms(2) by (simp_all add: j_def)
    then have "k < nat n" by linarith
    then have "int k \<le> INT_MAX" using assms(3) by linarith
    then obtain bio' where r: "mem_read ?b (int k) = (bio', int k, xs)" "mem_ok bio'"
        "queue bio' = drop k (queue bio)" "rdonly bio' = rdonly bio"
      using mem_read_spec [of ?b "int k"] assms(1) k(1) kx ne by (auto simp del: length_take)
    then have "mem_gets bio n = (bio', int k, xs @ [0])"
      unfolding mem_gets_def Let_def clear_simps j using False k(1) jq by (simp flip: k_def)
    then show ?thesis using assms(2) i r kx k(1) by (simp add: BIO_gets_def)
  qed
qed

section \<open>Writing\<close>

lemma mem_write_spec:
  assumes "mem_ok bio" "\<not> rdonly bio" "0 < n" "n \<le> int (length xs)"
  shows "\<exists>bio' ret. mem_write env bio xs n = (bio', ret) \<and> mem_ok bio' \<and> \<not> rdonly bio' \<and>
    (ret = n \<and> queue bio' = queue bio @ take (nat n) xs \<or> ret = -1 \<and> queue bio' = queue bio) \<and>
    (size_ok env = (\<lambda>n. True) \<and> int (length (queue bio)) + n \<le> INT_MAX \<longrightarrow> ret = n)"
proof -
  let ?b = "BIO_clear_retry_flags bio" and ?w = "buf_length (mem bio)"
  define m where "m = unat ?w"
  have m: "int_of_size ?w = int m" "length (queue bio) = m" "m < 2 ^ 31"
    using assms(1) int_of_size_small [of ?w] queue_length [OF assms(1)] by (simp_all add: m_def mem_ok_def)
  show ?thesis
  proof (cases "INT_MAX - int m < n")
    case True
    then show ?thesis
      using assms m(1,2) by (intro exI [of _ ?b] exI [of _ "-1"]) (simp add: mem_write_def Let_def)
  next
    case False
    define k where "k = nat n"
    have n: "n = int k" "0 < k" "k \<le> length xs" "m + k < 2 ^ 31" using False assms(3,4) by (auto simp: k_def INT_MAX_def)
    let ?len = "of_nat (m + k) :: u64"
    have u: "unat ?len = m + k" by (rule unat_of_nat_u64) (use n(4) in simp)
    then have nz: "?len \<noteq> 0" using n(2) by (metis add_gr_0 less_irrefl unat_0)
    have bo: "buf_ok (mem bio)" using assms(1,2) by (simp add: mem_ok_def)
    obtain b grown where g: "BUF_MEM_grow_clean env (mem bio) ?len = (b, grown)" by fastforce
    then have g': "BUF_MEM_grow env (mem bio) ?len = (b, grown)" by (simp add: BUF_MEM_grow_clean_def)
    note gs = grow_spec [OF bo g']
    have run: "mem_write env bio xs n = (if grown \<noteq> ?len then (?b\<lparr>mem := b\<rparr>, -1)
        else (?b\<lparr>mem := b\<lparr>buf_data := take m (buf_data b) @ take k xs @ drop (m + k) (buf_data b)\<rparr>\<rparr>, n))"
    proof -
      have "word_of_int (int m + int k) = ?len" "word_of_int (int m) + word_of_int (int k) = ?len" by simp_all
      then show ?thesis using False g assms(2) m(1) n(1) by (simp add: mem_write_def Let_def)
    qed
    show ?thesis
    proof (cases "grown = ?len")
      case True
      then have b: "buf_ok b" "buf_length b = ?len" "buf_bytes b = queue bio @ replicate k 0"
        using gs nz u m(2) by (auto simp: buf_bytes_def queue_def m_def min_def split: if_splits)
      have d: "m + k \<le> length (buf_data b)" using b(1,2) u by (simp add: buf_ok_def word_le_nat_alt)
      have "take m (buf_data b) = take m (buf_bytes b)" using b(2) u by (simp add: buf_bytes_def min_def)
      then have tm: "take m (buf_data b) = queue bio" using b(3) m(2) by simp
      let ?bio = "?b\<lparr>mem := b\<lparr>buf_data := take m (buf_data b) @ take k xs @ drop (m + k) (buf_data b)\<rparr>\<rparr>"
      have "rdonly ?bio = rdonly bio" using rdonly_flags(1) [of bio] by (simp add: rdonly_def)
      moreover have "queue ?bio = queue bio @ take k xs"
      proof -
        have "unat (buf_length b) = m + k" unfolding b(2) by (rule u)
        then have "queue ?bio = take (m + k) (take m (buf_data b) @ take k xs @ drop (m + k) (buf_data b))"
          by (simp add: queue_def)
        then show ?thesis unfolding tm using m(2) n(3) by simp
      qed
      moreover have "mem_ok ?bio"
      proof -
        define nd where "nd = take m (buf_data b) @ take k xs @ drop (m + k) (buf_data b)"
        have nd: "length nd = length (buf_data b)" using d n(3) by (simp add: nd_def)
        have ul: "unat (buf_length b) = m + k" unfolding b(2) by (rule u)
        have "init bio \<noteq> 0" using assms(1) by (simp add: mem_ok_def)
        then show ?thesis
          unfolding nd_def [symmetric] using b(1) ul d n(4) nd by (simp add: mem_ok_def buf_ok_def)
      qed
      moreover have "mem_write env bio xs n = (?bio, n)" unfolding run using True by (simp only: simp_thms if_False)
      moreover have "nat n = k" by (simp add: k_def)
      ultimately show ?thesis using assms(2) by simp
    next
      case False
      then have b: "b = mem bio" "grown = 0" using gs nz by (auto split: if_splits)
      have "\<not> size_ok env = (\<lambda>n. True)"
      proof
        assume "size_ok env = (\<lambda>n. True)"
        then have "snd (BUF_MEM_reserve env (mem bio) ?len)" using n(4) u by (intro reserve_granted) simp_all
        then show False using g' b(2) nz by (auto simp: BUF_MEM_grow_def split: prod.splits)
      qed
      moreover have "?b\<lparr>mem := b\<rparr> = ?b" by (cases bio) (simp add: b(1) BIO_clear_retry_flags_def)
      moreover have "mem_write env bio xs n = (?b\<lparr>mem := b\<rparr>, -1)" unfolding run using False by (simp only: simp_thms if_True)
      ultimately show ?thesis using assms(1,2) by simp
    qed
  qed
qed

text \<open>A write takes all bytes or none; on a read-only BIO it fails.\<close>

lemma BIO_write_spec:
  assumes "mem_ok bio" "n \<le> int (length xs)"
  shows "\<exists>bio' ret. BIO_write env bio xs n = (bio', ret) \<and> mem_ok bio' \<and> rdonly bio' = rdonly bio \<and>
    queue bio' = queue bio @ (if 0 < ret then take (nat n) xs else []) \<and> (0 < ret \<longrightarrow> ret = n) \<and>
    (\<not> rdonly bio \<and> 0 < n \<and> size_ok env = (\<lambda>n. True) \<and> int (length (queue bio)) + n \<le> INT_MAX \<longrightarrow> ret = n)"
proof -
  have i: "init bio \<noteq> 0" using assms(1) by (simp add: mem_ok_def)
  consider "n \<le> 0" | "0 < n" "rdonly bio" | "0 < n" "\<not> rdonly bio" by linarith
  then show ?thesis
  proof cases
    case 1
    then show ?thesis using assms(1) i by (simp add: BIO_write_def)
  next
    case 2
    then show ?thesis using assms(1) i by (simp add: BIO_write_def mem_write_def)
  next
    case 3
    obtain bio' ret where w: "mem_write env bio xs n = (bio', ret)" "mem_ok bio'" "\<not> rdonly bio'"
        "ret = n \<and> queue bio' = queue bio @ take (nat n) xs \<or> ret = -1 \<and> queue bio' = queue bio"
        "size_ok env = (\<lambda>n. True) \<and> int (length (queue bio)) + n \<le> INT_MAX \<longrightarrow> ret = n"
      using mem_write_spec [OF assms(1) 3(2,1) assms(2)] by blast
    then show ?thesis using i 3 by (auto simp: BIO_write_def)
  qed
qed

lemma BIO_write_all_spec:
  "mem_ok bio \<Longrightarrow> \<exists>bio' ok n. BIO_write_all env k bio xs = (bio', ok) \<and> mem_ok bio' \<and> rdonly bio' = rdonly bio \<and>
    queue bio' = queue bio @ take n xs \<and> (ok \<longrightarrow> n = length xs) \<and>
    (\<not> rdonly bio \<and> (\<forall>i. size_ok (env i) = (\<lambda>n. True)) \<and> int (length (queue bio) + length xs) \<le> INT_MAX \<longrightarrow> ok)"
proof (induction "length xs" arbitrary: k bio xs rule: less_induct)
  case less
  show ?case
  proof (cases "xs = []")
    case True
    then show ?thesis using less.prems by (auto simp: BIO_write_all.simps)
  next
    case False
    let ?n = "if INT_MAX < int (length xs) then INT_MAX else int (length xs)"
    have n: "?n \<le> int (length xs)" "0 < ?n" "nat ?n \<le> length xs" using False by (auto simp: INT_MAX_def)
    obtain bio' ret where w: "BIO_write (env k) bio xs ?n = (bio', ret)" "mem_ok bio'" "rdonly bio' = rdonly bio"
        "queue bio' = queue bio @ (if 0 < ret then take (nat ?n) xs else [])" "0 < ret \<longrightarrow> ret = ?n"
        "\<not> rdonly bio \<and> 0 < ?n \<and> size_ok (env k) = (\<lambda>n. True) \<and> int (length (queue bio)) + ?n \<le> INT_MAX \<longrightarrow> ret = ?n"
      using BIO_write_spec [OF less.prems n(1), of "env k"] by blast
    note step = BIO_write_all.simps [of env k bio xs]
    show ?thesis
    proof (cases "0 < ret")
      case False
      have "int (length (queue bio)) + ?n \<le> INT_MAX" if "int (length (queue bio) + length xs) \<le> INT_MAX"
        using that n(1) by linarith
      then have "\<not> (\<not> rdonly bio \<and> (\<forall>i. size_ok (env i) = (\<lambda>n. True)) \<and> int (length (queue bio) + length xs) \<le> INT_MAX)"
        using w(6) False n(2) by blast
      then show ?thesis
        unfolding step using False w(1-4) \<open>xs \<noteq> []\<close>
        by (intro exI [of _ bio'] exI [of _ False] exI [of _ 0]) simp
    next
      case True
      define m where "m = nat ?n"
      have m: "0 < m" "m \<le> length xs" using n by (simp_all add: m_def)
      have r: "nat ret = m" using w(5) True by (simp only: m_def)
      have q: "queue bio' = queue bio @ take m xs" using w(4) True by (simp only: m_def if_True)
      obtain bio'' ok i where h: "BIO_write_all env (Suc k) bio' (drop m xs) = (bio'', ok)" "mem_ok bio''"
          "rdonly bio'' = rdonly bio'" "queue bio'' = queue bio' @ take i (drop m xs)" "ok \<longrightarrow> i = length (drop m xs)"
          "\<not> rdonly bio' \<and> (\<forall>i. size_ok (env i) = (\<lambda>n. True)) \<and> int (length (queue bio') + length (drop m xs)) \<le> INT_MAX \<longrightarrow> ok"
      proof -
        have "length (drop m xs) < length xs" using m by simp
        from less.hyps [OF this w(2), of "Suc k"] show ?thesis using that by blast
      qed
      have "BIO_write_all env k bio xs = (bio'', ok)"
        unfolding step w(1) using \<open>xs \<noteq> []\<close> True r h(1) by simp
      moreover have "queue bio'' = queue bio @ take (m + i) xs" using h(4) q by (simp add: take_add)
      moreover have "length (queue bio') + length (drop m xs) = length (queue bio) + length xs" using q m by simp
      ultimately show ?thesis using h w(3) m by (intro exI [of _ bio''] exI [of _ ok] exI [of _ "m + i"]) auto
    qed
  qed
qed

section \<open>Histories\<close>

text \<open>Calls on a BIO, with the allocators of the writes.\<close>

datatype bio_op = Write byte_env bytes | Read int | Gets int | Set_eof int

text \<open>The bytes a call added to the queue, which its result says, and those it handed out.\<close>

primrec run_op :: "bio_op \<Rightarrow> BIO \<Rightarrow> BIO \<times> bytes \<times> bytes" where
  "run_op (Write env xs) bio = (case BIO_write env bio xs (int (length xs)) of (bio, ret) \<Rightarrow>
     (bio, if 0 < ret then xs else [], []))"
| "run_op (Read n) bio = (case BIO_read bio n of (bio, ret, xs) \<Rightarrow> (bio, [], xs))"
| "run_op (Gets n) bio = (case BIO_gets bio n of (bio, ret, xs) \<Rightarrow> (bio, [], butlast xs))"
| "run_op (Set_eof v) bio = (fst (BIO_set_mem_eof_return bio v), [], [])"

primrec run_ops :: "bio_op list \<Rightarrow> BIO \<Rightarrow> BIO \<times> bytes \<times> bytes" where
  "run_ops [] bio = (bio, [], [])"
| "run_ops (op # ops) bio = (case run_op op bio of (bio, wrote, got) \<Rightarrow>
     (case run_ops ops bio of (bio, wrote', got') \<Rightarrow> (bio, wrote @ wrote', got @ got')))"

primrec int_args :: "bio_op \<Rightarrow> bool" where
  "int_args (Write env xs) \<longleftrightarrow> int (length xs) \<le> INT_MAX"
| "int_args (Read n) \<longleftrightarrow> n \<le> INT_MAX"
| "int_args (Gets n) \<longleftrightarrow> n \<le> INT_MAX"
| "int_args (Set_eof v) \<longleftrightarrow> True"

lemma run_op_queue:
  assumes "mem_ok bio" "int_args op" "run_op op bio = (bio', wrote, got)"
  shows "mem_ok bio' \<and> queue bio @ wrote = got @ queue bio'"
proof (cases op)
  case (Write env xs)
  then show ?thesis
    using BIO_write_spec [OF assms(1), of "int (length xs)" xs env] assms(3) by (auto split: if_splits)
next
  case (Read n)
  then show ?thesis using BIO_read_spec [OF assms(1), of n] assms(2,3) by auto
next
  case (Gets n)
  show ?thesis
  proof (cases "0 < n")
    case True
    then obtain b where "BIO_gets bio n = (b, int (length (first_line (nat n - 1) (queue bio))), first_line (nat n - 1) (queue bio) @ [0])"
        "mem_ok b" "queue b = drop (length (first_line (nat n - 1) (queue bio))) (queue bio)"
      using BIO_gets_spec [OF assms(1)] Gets assms(2) by auto
    moreover have "first_line (nat n - 1) (queue bio) @ drop (length (first_line (nat n - 1) (queue bio))) (queue bio) = queue bio"
      by (simp add: first_line_def min_def)
    ultimately show ?thesis using Gets assms(3) by auto
  next
    case False
    then show ?thesis using Gets assms(1,3) by (auto simp: BIO_gets_def mem_ok_def split: if_splits)
  qed
next
  case (Set_eof v)
  have "mem_ok (bio\<lparr>eof_value := x\<rparr>) = mem_ok bio" "queue (bio\<lparr>eof_value := x\<rparr>) = queue bio" for x
    by (simp_all add: mem_ok_def queue_def rdonly_def)
  then show ?thesis
    using Set_eof assms(1,3)
    by (auto simp: BIO_set_mem_eof_return_def mem_ctrl_def Let_def BIO_C_SET_BUF_MEM_EOF_RETURN_def BIO_CTRL_RESET_def BIO_CTRL_EOF_def)
qed

lemma run_ops_queue:
  "mem_ok bio \<Longrightarrow> list_all int_args ops \<Longrightarrow> run_ops ops bio = (bio', wrote, got) \<Longrightarrow>
    mem_ok bio' \<and> queue bio @ wrote = got @ queue bio'"
proof (induction ops arbitrary: bio bio' wrote got)
  case (Cons op ops)
  obtain b w g where r: "run_op op bio = (b, w, g)" by (cases "run_op op bio")
  obtain b' w' g' where rs: "run_ops ops b = (b', w', g')" by (cases "run_ops ops b")
  have "mem_ok b \<and> queue bio @ w = g @ queue b" using run_op_queue [OF Cons.prems(1) _ r] Cons.prems(2) by simp
  moreover from this have "mem_ok b' \<and> queue b @ w' = g' @ queue b'" using Cons.IH [of b b' w' g'] rs Cons.prems(2) by simp
  ultimately show ?case using Cons.prems(3) r rs by (auto) (metis append.assoc)
qed simp

lemma new_ok:
  assumes "BIO_new bio_ok mem_ok' = Some bio"
  shows "mem_ok bio \<and> queue bio = []"
  using assms by (auto simp: BIO_new_def mem_new_def BUF_MEM_new_def mem_ok_def queue_def buf_ok_def split: if_splits)

lemma new_mem_buf_ok:
  assumes "BIO_new_mem_buf bio_ok mem_ok' (Some xs) (int (length xs)) = Some (Some bio)" "length xs < 2 ^ 31"
  shows "mem_ok bio \<and> queue bio = xs"
proof -
  have u: "unat (of_nat (length xs) :: u64) = length xs" by (rule unat_of_nat_u64) (use assms(2) in simp)
  show ?thesis
    using assms u
    by (auto simp: BIO_new_mem_buf_def BIO_new_def mem_new_def BUF_MEM_new_def mem_ok_def queue_def rdonly_def
        BIO_FLAGS_MEM_RDONLY_def Let_def split: if_splits)
qed

text \<open>C40. A memory BIO is a queue: after any history of writes (with any allocator),
  reads and line reads, what was in it at the start and the bytes the successful writes added are, in
  order, the bytes handed out and those \<open>BIO_mem_contents\<close> still shows, of which \<open>BIO_pending\<close> gives the
  number. A read-only BIO made by \<open>BIO_new_mem_buf\<close> starts with the caller's bytes.\<close>

theorem mem_bio_is_queue:
  assumes "BIO_new bio_ok buf_ok' = Some bio \<and> start = [] \<or>
      BIO_new_mem_buf bio_ok buf_ok' (Some start) (int (length start)) = Some (Some bio) \<and> length start < 2 ^ 31"
    and "list_all int_args ops" "run_ops ops bio = (bio', wrote, got)"
  shows "\<exists>rest. start @ wrote = got @ rest \<and> (case BIO_mem_contents bio' of (d, n) \<Rightarrow> rest = take (unat n) d) \<and>
    unat (BIO_pending bio') = length rest"
proof -
  have s: "mem_ok bio" "queue bio = start"
    using assms(1) new_ok [of bio_ok buf_ok' bio] new_mem_buf_ok [of bio_ok buf_ok' start bio] by auto
  then have q: "mem_ok bio'" "start @ wrote = got @ queue bio'" using run_ops_queue [OF _ assms(2,3)] by auto
  have "unat (BIO_pending bio') = length (queue bio')"
  proof -
    have l: "length (queue bio') = unat (buf_length (mem bio'))" "unat (buf_length (mem bio')) < 2 ^ 31"
      using queue_length [OF q(1)] q(1) by (simp_all add: mem_ok_def)
    have "sint (buf_length (mem bio')) = int (unat (buf_length (mem bio')))"
    proof -
      have "int (unat (buf_length (mem bio'))) < int (2 ^ 31)" using l(2) by (simp only: of_nat_less_iff)
      then show ?thesis
        using signed_take_bit_int_eq_self [of 63 "uint (buf_length (mem bio'))"]
          order.trans [of "- (2 ^ 63)" 0 "uint (buf_length (mem bio'))"] by (simp add: sint_uint)
    qed
    then show ?thesis
      using l by (simp add: BIO_pending_def mem_ctrl_def Let_def BIO_CTRL_PENDING_def BIO_CTRL_RESET_def BIO_CTRL_EOF_def
        BIO_C_SET_BUF_MEM_EOF_RETURN_def BIO_CTRL_INFO_def BIO_C_SET_BUF_MEM_def BIO_C_GET_BUF_MEM_PTR_def
        BIO_CTRL_GET_CLOSE_def BIO_CTRL_SET_CLOSE_def BIO_CTRL_WPENDING_def)
  qed
  then show ?thesis using q by (auto simp: BIO_mem_contents_def queue_def)
qed

theorem mem_bio_is_queue_witness:
  "case run_ops [Write \<lparr>size_ok = \<lambda>n. True, fresh_byte = \<lambda>n. 0\<rparr> [97, 10, 98], Gets 10]
      (the (BIO_new True True)) of (bio, wrote, got) \<Rightarrow>
     wrote = [97, 10, 98] \<and> got = [97, 10] \<and> unat (BIO_pending bio) = 1"
proof -
  let ?ops = "[Write \<lparr>size_ok = \<lambda>n. True, fresh_byte = \<lambda>n. 0\<rparr> [97, 10, 98], Gets 10]"
  obtain bio wrote got where r: "run_ops ?ops (the (BIO_new True True)) = (bio, wrote, got)"
    by (cases "run_ops ?ops (the (BIO_new True True))")
  have v: "snd (run_ops ?ops (the (BIO_new True True))) = ([97, 10, 98], [97, 10])" by code_simp
  have n: "BIO_new True True = Some (the (BIO_new True True))"
    by (simp add: BIO_new_def mem_new_def BUF_MEM_new_def)
  have "list_all int_args ?ops" by (simp add: INT_MAX_def)
  from mem_bio_is_queue [OF disjI1 [OF conjI [OF n refl]] this r] obtain rest where
    e: "[] @ wrote = got @ rest" "unat (BIO_pending bio) = length rest" by blast
  have w: "wrote = [97, 10, 98]" "got = [97, 10]" using v unfolding r by simp_all
  then have "rest = [98]" using e(1) by simp
  then show ?thesis unfolding r prod.case using e(2) w by simp
qed

section \<open>A source of lines\<close>

definition gets_chunk :: "BIO \<Rightarrow> nat \<Rightarrow> bytes \<times> BIO" where
  "gets_chunk bio n = (case BIO_gets bio (int n) of (bio', ret, out) \<Rightarrow> (butlast out, bio'))"

lemma gets_chunk_spec:
  assumes "mem_ok bio" "0 < n" "n < 2 ^ 31"
  shows "\<exists>bio'. gets_chunk bio n = (first_line (n - 1) (queue bio), bio') \<and> mem_ok bio' \<and>
    queue bio' = drop (length (first_line (n - 1) (queue bio))) (queue bio)"
proof -
  have "int n \<le> INT_MAX" using assms(3) by (simp add: INT_MAX_def)
  then show ?thesis using BIO_gets_spec [OF assms(1), of "int n"] assms(2) by (auto simp: gets_chunk_def)
qed

interpretation memory: line_source gets_chunk "\<lambda>bio. length (queue bio)" mem_ok
proof
  fix bio n
  assume a: "mem_ok bio" "0 < n" "n < (2 :: nat) ^ 31"
  let ?xs = "first_line (n - 1) (queue bio)"
  obtain bio' where g: "gets_chunk bio n = (?xs, bio')" "mem_ok bio'" "queue bio' = drop (length ?xs) (queue bio)"
    using gets_chunk_spec [OF a] by blast
  have "length ?xs \<le> length (queue bio)" by (simp add: first_line_def)
  then show "length (fst (gets_chunk bio n)) < n" "mem_ok (snd (gets_chunk bio n))"
    "length (queue (snd (gets_chunk bio n))) + length (fst (gets_chunk bio n)) \<le> length (queue bio)"
    using g first_line_length(2) [of "n - 1" "queue bio"] a(2) by auto
qed

end
