(* ===== verification/ConfFile.thy ===== *)
theory ConfFile
  imports ConfFresh ConfPrint MemBioProps LhashHistory
begin

text \<open>
  Loading a configuration: what \<open>NCONF_load_bio\<close> does for any source of lines, and the files in memory it
  reads back.
\<close>

section \<open>An empty configuration\<close>

lemma new_conf:
  assumes "NCONF_new lenv True conf_ok' lh_ok h cm = Some c"
  shows "conf_ok c \<and> conf_store c = Map.empty \<and> conf_map c = Map.empty \<and> vals c = Map.empty \<and> nodes c = {}"
proof -
  obtain lh where lh: "lh_new lenv lh_ok h cm = Some lh" "c = \<lparr>table = lh, vals = Map.empty\<rparr>"
    using assms by (auto simp: NCONF_new_def split: if_splits option.splits)
  have t: "lh_inv (hash_in Map.empty) (conf_key Map.empty) (has_section Map.empty) lh"
      "lh_map (conf_key Map.empty) lh = Map.empty" "lh_items lh = []"
    using new_inv [OF lh(1)] lh(1) by (auto simp: lh_new_def lh_items_def split: if_splits)
  then have m: "conf_map c = Map.empty" "table_ok c" by (simp_all add: lh(2) conf_map_def table_ok_def)
  then show ?thesis
    using t(3) by (auto simp: conf_ok_def conf_store_def lh(2) nodes_def)
qed

text \<open>The memory of a whole load, and an allocator that refuses nothing.\<close>

definition fresh_load :: "('bio \<Rightarrow> nat \<Rightarrow> bytes \<times> 'bio) \<Rightarrow> load_env \<Rightarrow> CONF \<Rightarrow> 'bio \<Rightarrow> bool" where
  "fresh_load gets env c bio \<longleftrightarrow> (\<forall>buff c1 sv. BUF_MEM_new (buff_ok env) = Some buff \<longrightarrow>
     NCONF_new_section (default_env env) c default_section = Run c1 (Some sv) \<longrightarrow>
     fresh_memory gets env (0, c1, (default_section, sv), buff, 0, False, 0, bio))"

definition load_granted :: "load_env \<Rightarrow> bool" where
  "load_granted env \<longleftrightarrow> buff_ok env \<and> section_ok env \<and> section_granted (default_env env) \<and> rounds_granted env"

text \<open>The store that a file makes of nothing.\<close>

definition meaning :: "('bio \<Rightarrow> nat \<Rightarrow> bytes \<times> 'bio) \<Rightarrow> 'bio \<Rightarrow> store \<Rightarrow> bool" where
  "meaning gets bio st \<longleftrightarrow> file_means gets bio [] False ([default_section \<mapsto> Map.empty], default_section) st"

definition get_in :: "store \<Rightarrow> bytes \<Rightarrow> bytes \<Rightarrow> conf_data" where
  "get_in st s n = (case Option.bind (st s) (\<lambda>m. m n) of None \<Rightarrow> No_value | Some x \<Rightarrow> Str x)"

lemma get_string_in: "conf_ok c \<Longrightarrow> NCONF_get_string c (Some s) (Some n) = Some (get_in (conf_store c) s n)"
  using get_string_store [of c s n] by (simp add: get_in_def split: option.splits)

text \<open>The state in which the loop starts.\<close>

lemma default_ready:
  assumes "NCONF_new lenv True conf_ok' lh_ok h cm = Some c"
  shows "\<exists>c1 r. NCONF_new_section (default_env env) c default_section = Run c1 r \<and>
    (\<forall>sv. r = Some sv \<longrightarrow> ready c1 default_section sv 0 \<and> conf_store c1 = [default_section \<mapsto> Map.empty]) \<and>
    (section_granted (default_env env) \<longrightarrow> r \<noteq> None) \<and>
    dom (vals c1) \<subseteq> {sec_addr (default_env env)} \<and> nodes c1 \<subseteq> {item_addr (sec_mem (default_env env))}"
proof -
  have c: "conf_ok c" "conf_store c = Map.empty" "conf_map c = Map.empty" "vals c = Map.empty" "nodes c = {}"
    using new_conf [OF assms] by simp_all
  have "item_addr (sec_mem (default_env env)) \<notin> addr ` set (lh_items (table c))" using c(5) by (simp add: nodes_def)
  then obtain c1 r where n: "NCONF_new_section (default_env env) c default_section = Run c1 r" "conf_ok c1"
    "case r of None \<Rightarrow> conf_store c1 = conf_store c
     | Some p \<Rightarrow> conf_store c1 = (conf_store c)(default_section \<mapsto> Map.empty) \<and>
         conf_map c1 = (conf_map c)((Some default_section, None) \<mapsto> p)"
    "takes_memory c {sec_addr (default_env env)} {item_addr (sec_mem (default_env env))} c1"
    "stacks_small 0 (vals c) \<longrightarrow> stacks_small 0 (vals c1)" "section_granted (default_env env) \<longrightarrow> r \<noteq> None"
    using new_section_spec [OF c(1), of default_section "default_env env" 0] c(3,4) by fastforce
  have sm: "stacks_small 0 (vals c)" by (simp add: c(4) stacks_small_def value_at_def zero_value_def)
  have "ready c1 default_section sv 0 \<and> conf_store c1 = [default_section \<mapsto> Map.empty]" if "r = Some sv" for sv
  proof -
    have "conf_store c1 = [default_section \<mapsto> Map.empty]" using n(3) that c(2) by simp
    moreover have "small_store [default_section \<mapsto> Map.empty]" by (simp add: small_store_def)
    moreover have "conf_map c1 (Some default_section, None) = Some sv" using n(3) that by simp
    ultimately show ?thesis using n(2,5) sm by (simp add: ready_def)
  qed
  then show ?thesis using n c(4,5) unfolding takes_memory_def by auto
qed

lemma new_buffer_holds: "BUF_MEM_new ok = Some buff \<Longrightarrow> holds buff []"
  by (auto simp: BUF_MEM_new_def holds_def buf_ok_def split: if_splits)

lemma load_result:
  assumes "line_source gets left usable" "usable bio" "left bio < 2 ^ 31"
    and "NCONF_new lenv True conf_ok' lh_ok h cm = Some c"
    and "fresh_load gets env c bio" "all_lines header_constant gets bio"
  shows "\<exists>x. NCONF_load_bio gets env c bio = Some x \<and> x \<noteq> Load_crash \<and>
    (\<forall>c'. x = Loaded c' \<longrightarrow> conf_ok c' \<and> meaning gets bio (conf_store c')) \<and>
    (load_granted env \<and> all_lines plain_line gets bio \<longrightarrow> (\<exists>c'. x = Loaded c'))"
proof (cases "buff_ok env \<and> section_ok env")
  case False
  then show ?thesis by (auto simp: NCONF_load_bio_def def_load_bio_def BUF_MEM_new_def load_granted_def)
next
  case True
  then obtain buff where buff: "BUF_MEM_new (buff_ok env) = Some buff" "buff_ok env" "section_ok env"
    by (auto simp: BUF_MEM_new_def)
  obtain c1 r where n: "NCONF_new_section (default_env env) c default_section = Run c1 r"
      "\<And>sv. r = Some sv \<Longrightarrow> ready c1 default_section sv 0 \<and> conf_store c1 = [default_section \<mapsto> Map.empty]"
      "section_granted (default_env env) \<longrightarrow> r \<noteq> None"
    using default_ready [OF assms(4), of env] by blast
  show ?thesis
  proof (cases r)
    case None
    then show ?thesis using buff n(1,3) by (auto simp: NCONF_load_bio_def def_load_bio_def load_granted_def)
  next
    case (Some sv)
    have rd: "ready c1 default_section sv 0" and st: "conf_store c1 = [default_section \<mapsto> Map.empty]"
      using n(2) [OF Some] by simp_all
    have "fresh_memory gets env (0, c1, (default_section, sv), buff, 0, False, 0, bio)"
      using assms(5) buff(1) n(1) Some unfolding fresh_load_def by blast
    then have "load_done gets bio env bio [] False (conf_store c1, default_section)
        (load_loop gets env 0 c1 (default_section, sv) buff (length ([] :: bytes)) False 0 bio)"
      using line_source.loop_done [OF assms(1) _ assms(6), where env = env and r = 0 and acc = "[]" and again = False and eline = 0
          and start = "(0, c1, (default_section, sv), buff, 0, False, 0, bio)"] assms(2,3) rd new_buffer_holds [OF buff(1)]
        reach_start [of gets env] reads_start [of gets bio]
      by auto
    then obtain x where x: "load_loop gets env 0 c1 (default_section, sv) buff 0 False 0 bio = Some x" "x \<noteq> Load_crash"
        "\<And>c'. x = Loaded c' \<Longrightarrow> conf_ok c' \<and> meaning gets bio (conf_store c')"
        "rounds_granted env \<and> all_lines plain_line gets bio \<longrightarrow> (\<exists>c'. x = Loaded c')"
      unfolding load_done_def st meaning_def by auto
    have "NCONF_load_bio gets env c bio = Some x"
      using buff n(1) Some x(1) by (simp add: NCONF_load_bio_def def_load_bio_def)
    then show ?thesis using x(2-4) by (auto simp: load_granted_def)
  qed
qed

text \<open>An allocator that hands out every address once never hands out memory in use.\<close>

lemma distinct_fresh_load:
  assumes "line_source gets left usable" "usable bio" "left bio < 2 ^ 31"
    and "NCONF_new lenv True conf_ok' lh_ok h cm = Some c" "all_lines header_constant gets bio"
    and "\<And>c1 sv. NCONF_new_section (default_env env) c default_section = Run c1 (Some sv) \<Longrightarrow>
      distinct_memory env (2 * left bio) c1"
  shows "fresh_load gets env c bio"
  unfolding fresh_load_def
proof (intro allI impI)
  fix buff c1 sv
  assume b: "BUF_MEM_new (buff_ok env) = Some buff" and n: "NCONF_new_section (default_env env) c default_section = Run c1 (Some sv)"
  have "ready c1 default_section sv 0" using default_ready [OF assms(4), of env] n by auto
  then show "fresh_memory gets env (0, c1, (default_section, sv), buff, 0, False, 0, bio)"
    using line_source.distinct_memory_fresh [OF assms(1,2,3) _ new_buffer_holds [OF b] assms(6) [OF n] assms(5)] by blast
qed

lemma grammar_lines:
  "all_lines constant_header gets start \<longleftrightarrow> all_lines header_constant gets start"
  "all_lines simple_line gets start \<longleftrightarrow> all_lines plain_line gets start"
  by (rule all_lines_strings, erule constant_header_iff) (rule all_lines_strings, erule simple_line_iff)

text \<open>C38. A load from any source of lines returns, and none of its stores, lookups and comparisons is
  undefined, unless a section header names a variable, with an allocator that never hands out memory in
  use and may refuse anything but the one copy whose failure the code does not notice (the section's name
  in \<open>add_string\<close>). If the load succeeds, the strings the configuration gives are those of the file by
  the grammar of \<open>ConfGrammar\<close>: continued lines put together, comments cut, sections entered, values
  unquoted and their variables replaced by what was assigned above. When no allocation is refused and the
  lines are well formed and simple, it succeeds.\<close>

theorem load_means_file:
  assumes "line_source gets left usable" "usable bio" "left bio < 2 ^ 31 - CONFBUFSIZE"
    and "NCONF_new lenv True conf_ok' lh_ok h cm = Some c"
    and "fresh_load gets env c bio" "all_lines constant_header gets bio"
  shows "\<exists>x. NCONF_load_bio gets env c bio = Some x \<and> x \<noteq> Load_crash \<and>
    (\<forall>c'. x = Loaded c' \<longrightarrow> (\<exists>st. meaning gets bio st \<and>
      (\<forall>s n. NCONF_get_string c' (Some s) (Some n) = Some (get_in st s n)))) \<and>
    (load_granted env \<and> all_lines simple_line gets bio \<longrightarrow> (\<exists>c'. x = Loaded c'))"
proof -
  have "all_lines header_constant gets bio" using assms(6) by (simp add: grammar_lines)
  then show ?thesis
    using load_result [OF assms(1,2) _ assms(4,5)] assms(3) get_string_in unfolding grammar_lines by fastforce
qed

section \<open>Printed files in memory\<close>

definition line_text :: "bytes \<Rightarrow> bool" where
  "line_text l \<longleftrightarrow> string l \<and> list_all (\<lambda>c. \<not> is_newline c) l \<and> (l = [] \<or> \<not> IS_ESC (last l)) \<and>
     length l < CONFBUFSIZE - 2 \<and> plain_line l"

lemma line_length_line: "list_all (\<lambda>c. \<not> is_newline c) l \<Longrightarrow> line_length (l @ 10 # s) = length l + 1"
  by (induction l) (auto simp: is_newline_def)

lemma chomp_line:
  assumes "list_all (\<lambda>c. \<not> is_newline c) l"
  shows "chomp (l @ [10]) = l"
proof -
  have "dropWhile is_newline (rev l) = rev l"
  proof (cases l rule: rev_cases)
    case (snoc m c)
    then show ?thesis using assms by simp
  qed simp
  then show ?thesis by (simp add: chomp_def is_newline_def)
qed

lemma joined_line:
  assumes "line_text l"
  shows "seen (l @ [10]) = l @ [10]" "joined [] (l @ [10]) = (l, False)"
proof -
  have l: "list_all (\<lambda>c. \<not> is_newline c) l" "l = [] \<or> \<not> IS_ESC (last l)" "\<forall>c\<in>set l. c \<noteq> 0"
    using assms by (auto simp: line_text_def string_def)
  show "seen (l @ [10]) = l @ [10]" using l(3) by (auto simp: seen_def)
  have "\<not> continues l"
    using l(2) by (cases l rule: rev_cases) (auto simp: continues_def nth_append)
  then show "joined [] (l @ [10]) = (l, False)"
    by (simp add: joined_def chomp_line [OF l(1)])
qed

lemma chunk_line:
  assumes "mem_ok bio" "queue bio = l @ 10 # rest" "line_text l"
  shows "\<exists>bio'. gets_chunk bio (CONFBUFSIZE - 1) = (l @ [10], bio') \<and> mem_ok bio' \<and> queue bio' = rest"
proof -
  have n: "0 < CONFBUFSIZE - 1" "CONFBUFSIZE - 1 < 2 ^ 31" by (simp_all add: CONFBUFSIZE_def)
  have l: "length l < CONFBUFSIZE - 2" "list_all (\<lambda>c. \<not> is_newline c) l" using assms(3) by (simp_all add: line_text_def)
  have "take (CONFBUFSIZE - 2) (l @ 10 # rest) = l @ 10 # take (CONFBUFSIZE - 2 - length l - 1) rest"
    using l(1) by (simp add: take_Cons')
  then have "first_line (CONFBUFSIZE - 1 - 1) (queue bio) = l @ [10]"
    using line_length_line [OF l(2)] by (simp add: first_line_def assms(2) numeral_2_eq_2)
  then show ?thesis using gets_chunk_spec [OF assms(1) n] assms(2) by auto
qed

lemma chunk_end:
  assumes "mem_ok bio" "queue bio = []"
  shows "\<exists>bio'. gets_chunk bio (CONFBUFSIZE - 1) = ([], bio') \<and> mem_ok bio' \<and> queue bio' = []"
proof -
  have n: "0 < CONFBUFSIZE - 1" "CONFBUFSIZE - 1 < 2 ^ 31" by (simp_all add: CONFBUFSIZE_def)
  show ?thesis using gets_chunk_spec [OF assms(1) n] assms(2) by (auto simp: first_line_def)
qed

lemma unlines_simps [simp]: "unlines [] = []" "unlines (l # ls) = l @ 10 # unlines ls"
  by (simp_all add: unlines_def)

lemma joined_end: "joined [] (seen []) = ([], False)"
  using joined_nothing [of "[]"] by (simp add: continues_def seen_def)

lemma reads_lines:
  assumes "reads gets_chunk src bio acc again" "mem_ok src" "queue src = unlines ls" "list_all line_text ls"
  shows "acc = [] \<and> \<not> again \<and> mem_ok bio \<and> (\<exists>ms. queue bio = unlines ms \<and> set ms \<subseteq> set ls)"
  using assms(1)
proof induction
  case reads_start
  then show ?case using assms by auto
next
  case (reads_piece bio acc again chunk bio' acc' going)
  then obtain ms where ms: "acc = []" "\<not> again" "mem_ok bio" "queue bio = unlines ms" "set ms \<subseteq> set ls" by blast
  show ?case
  proof (cases ms)
    case Nil
    then show ?thesis
      using chunk_end [OF ms(3)] ms(4) reads_piece.hyps(2,3) joined_end by (auto simp: ms(1) intro: exI [of _ "[]"])
  next
    case (Cons l ns)
    have l: "line_text l" using Cons ms(5) assms(4) by (auto simp: list_all_iff)
    then show ?thesis
      using chunk_line [OF ms(3) _ l, of "unlines ns"] ms(4,5) Cons reads_piece.hyps(2,3) joined_line [OF l]
      by (auto simp: ms(1))
  qed
qed

lemma all_plain_lines:
  assumes "mem_ok src" "queue src = unlines ls" "list_all line_text ls"
  shows "all_lines plain_line gets_chunk src"
  unfolding all_lines_def
proof (intro allI impI)
  fix bio acc again line
  assume r: "reads gets_chunk src bio acc again"
    and j: "joined acc (seen (fst (gets_chunk bio (CONFBUFSIZE - 1)))) = (line, False)"
  obtain ms where ms: "acc = []" "mem_ok bio" "queue bio = unlines ms" "set ms \<subseteq> set ls"
    using reads_lines [OF r assms] by blast
  show "plain_line line"
  proof (cases ms)
    case Nil
    then have "line = []" using chunk_end [OF ms(2)] ms(1,3) j joined_end by auto
    then show ?thesis by (simp add: plain_line_def parse_line_def cur_def eof_iff)
  next
    case (Cons l ns)
    have l: "line_text l" using Cons ms(4) assms(3) by (auto simp: list_all_iff)
    then have "line = l" using chunk_line [OF ms(2) _ l, of "unlines ns"] ms(1,3) Cons j joined_line [OF l] by auto
    then show ?thesis using l by (simp add: line_text_def)
  qed
qed

lemma plain_constant: "plain_line l \<Longrightarrow> header_constant l"
  by (auto simp: plain_line_def header_constant_def plain_def list_all_iff split: line.splits)

lemma all_lines_mono: "(\<And>l. P l \<Longrightarrow> Q l) \<Longrightarrow> all_lines P gets src \<Longrightarrow> all_lines Q gets src"
  unfolding all_lines_def by blast

lemma means_lines:
  "file_means gets_chunk bio [] False ss st \<Longrightarrow> mem_ok bio \<Longrightarrow> queue bio = unlines ls \<Longrightarrow> list_all line_text ls \<Longrightarrow>
    \<exists>sec. run_lines ls ss = Some (st, sec)"
proof (induction ls arbitrary: bio ss)
  case Nil
  obtain b where g: "gets_chunk bio (CONFBUFSIZE - 1) = ([], b)" using chunk_end [OF Nil.prems(2)] Nil.prems(3) by auto
  have z: "seen [] = []" by (simp add: seen_def)
  show ?case by (rule file_means_cases [OF Nil.prems(1)]) (use g z in auto)
next
  case (Cons l ls)
  have l: "line_text l" using Cons.prems(4) by simp
  obtain b where g: "gets_chunk bio (CONFBUFSIZE - 1) = (l @ [10], b)" "mem_ok b" "queue b = unlines ls"
    using chunk_line [OF Cons.prems(2) _ l, of "unlines ls"] Cons.prems(3) by auto
  note j = joined_line [OF l]
  obtain ss' where "line_says l ss ss'" "file_means gets_chunk b [] False ss' st"
    by (rule file_means_cases [OF Cons.prems(1)]) (use g(1) j in auto)
  moreover from this have "run_line l ss = Some ss'" using says_iff l by (simp add: line_text_def)
  ultimately have "run_line l ss = Some ss'" "file_means gets_chunk b [] False ss' st" by blast+
  then show ?case using Cons.IH [OF _ g(2,3)] Cons.prems(4) by auto
qed

lemma printable_lines:
  assumes "printable doc"
  shows "list_all line_text (lines_of doc)"
proof -
  have h: "line_text (header_of s)" if "name_text s" "length (header_of s) < CONFBUFSIZE - 2" for s
    using that alpha_marks plain_lines(1) mark_classes
    by (auto simp: line_text_def header_of_def string_def name_text_def list_all_iff is_newline_def)
  have e: "line_text (entry_of (n, v))" if "name_text n" "value_text v" "length (entry_of (n, v)) < CONFBUFSIZE - 2" for n v
  proof -
    have "string n" "list_all (\<lambda>c. \<not> is_newline c) n" using that(1) alpha_marks
      by (auto simp: string_def name_text_def list_all_iff is_newline_def)
    moreover have "string v" "list_all (\<lambda>c. \<not> is_newline c) v" using that(2)
      by (auto simp: string_def value_text_def list_all_iff plain_def)
    moreover have "v = [] \<or> \<not> IS_ESC (last v)" using that(2) by (auto simp: value_text_def plain_def list_all_iff)
    ultimately show ?thesis
      using that plain_lines(2) mark_classes by (auto simp: line_text_def entry_of_def is_newline_def)
  qed
  show ?thesis
    unfolding list_all_iff
  proof
    fix l
    assume "l \<in> set (lines_of doc)"
    then obtain s es where d: "(s, es) \<in> set doc" "l = header_of s \<or> (\<exists>e\<in>set es. l = entry_of e)"
      by (auto simp: lines_of_def)
    have t: "name_text s" "list_all (\<lambda>(n, v). name_text n \<and> value_text v) es" "length l < CONFBUFSIZE - 2"
      using assms d(1) \<open>l \<in> set (lines_of doc)\<close> by (auto simp: printable_def list_all_iff)
    show "line_text l" using d(2) t h e by (auto simp: list_all_iff)
  qed
qed

text \<open>C39. Print and load: the lines of a document - sections with names and values that need no quotes, in
  lines shorter than the reader's buffer - are loaded from a memory BIO, by an allocator that refuses nothing
  and hands out every address once, to a configuration that gives for every section and name the value
  assigned to it last.\<close>

theorem print_load_roundtrip:
  assumes "printable doc" "length (print_conf doc) < 2 ^ 31 - CONFBUFSIZE"
    and "BIO_new_mem_buf bio_ok mem_ok' (Some (print_conf doc)) (int (length (print_conf doc))) = Some (Some bio)"
    and "NCONF_new lenv True conf_ok' lh_ok h cm = Some c"
    and "load_granted env"
    and "\<forall>c1 sv. NCONF_new_section (default_env env) c default_section = Run c1 (Some sv) \<longrightarrow>
      distinct_memory env (2 * length (print_conf doc)) c1"
  shows "\<exists>c'. NCONF_load_bio gets_chunk env c bio = Some (Loaded c') \<and>
    (\<forall>s n. NCONF_get_string c' (Some s) (Some n) =
      Some (case map_of (rev (entries doc)) (s, n) of None \<Rightarrow> No_value | Some v \<Rightarrow> Str v))"
proof -
  let ?p = "print_conf doc"
  have b: "mem_ok bio" "queue bio = unlines (lines_of doc)" "queue bio = ?p"
    using new_mem_buf_ok [OF assms(3)] assms(2) by (auto simp: print_conf_def)
  note l = printable_lines [OF assms(1)]
  have pl: "all_lines plain_line gets_chunk bio" by (rule all_plain_lines [OF b(1,2) l])
  have left: "length (queue bio) < 2 ^ 31" using assms(2) b(3) by simp
  have hc: "all_lines header_constant gets_chunk bio" by (rule all_lines_mono [OF plain_constant pl])
  have "fresh_load gets_chunk env c bio"
    by (rule distinct_fresh_load [OF memory.line_source_axioms b(1) left assms(4) hc]) (use assms(6) b(3) in auto)
  from load_result [OF memory.line_source_axioms b(1) left assms(4) this hc] pl assms(5)
  obtain c' where c': "NCONF_load_bio gets_chunk env c bio = Some (Loaded c')" "conf_ok c'" "meaning gets_chunk bio (conf_store c')"
    by blast
  obtain sec where "run_lines (lines_of doc) ([default_section \<mapsto> Map.empty], default_section) = Some (conf_store c', sec)"
    using means_lines [OF c'(3) [unfolded meaning_def] b(1,2) l] by blast
  then have "conf_store c' = doc_store doc [default_section \<mapsto> Map.empty]"
    using run_document [of doc "[default_section \<mapsto> Map.empty]" default_section] assms(1) by (auto simp: printable_def)
  moreover have "store_get [default_section \<mapsto> Map.empty] = Map.empty" by (rule ext) (simp add: store_get_def)
  ultimately have g: "store_get (conf_store c') = map_of (rev (entries doc))" by (simp add: get_document)
  have "get_in (conf_store c') s n = (case map_of (rev (entries doc)) (s, n) of None \<Rightarrow> No_value | Some v \<Rightarrow> Str v)" for s n
    unfolding g [symmetric] by (simp add: get_in_def store_get_def)
  then show ?thesis using c'(1) get_string_in [OF c'(2)] by auto
qed

section \<open>A file\<close>

text \<open>An allocator with addresses by the number of the round, and the file
  \<open>[s]\<close>, \<open>n=1\<close>, \<open>n=2\<close>.\<close>

definition sample_bytes :: byte_env where
  "sample_bytes = \<lparr>size_ok = \<lambda>n. True, fresh_byte = \<lambda>n. 0\<rparr>"

definition sample_alloc :: "nat \<Rightarrow> lh_alloc" where
  "sample_alloc a = \<lparr>item_addr = of_nat a, array_ok = \<lambda>n. True\<rparr>"

definition sample_stack :: alloc_env where
  "sample_stack = \<lparr>granted = \<lambda>n. True, junk = \<lambda>n. 0\<rparr>"

definition sample_section :: "nat \<Rightarrow> section_env" where
  "sample_section a = \<lparr>sk_ok = True, sk_mem = sample_stack, sec_addr = of_nat a, sec_dup_ok = True, sec_mem = sample_alloc a\<rparr>"

definition sample_addr :: "nat \<Rightarrow> nat" where
  "sample_addr r = 2 * (r mod 2 ^ 60) + 2"

definition sample_load :: load_env where
  "sample_load = \<lparr>section_ok = True, default_env = sample_section 1, buff_ok = True, grow_mem = \<lambda>r. sample_bytes,
     line_mem = \<lambda>r. \<lparr>copy_new_ok = True, copy_mem = \<lambda>k. sample_bytes, cv_addr = of_nat (sample_addr r), name_ok = True,
       new_sec = sample_section (sample_addr r + 1),
       new_str = \<lparr>str_dup_ok = True, push_mem = sample_stack, str_mem = sample_alloc (sample_addr r)\<rparr>\<rparr>\<rparr>"

definition sample_doc :: document where
  "sample_doc = [([115], [([110], [49]), ([110], [50])])]"

definition sample_bio :: BIO where
  "sample_bio = the (the (BIO_new_mem_buf True True (Some (print_conf sample_doc)) (int (length (print_conf sample_doc)))))"

definition sample_conf :: CONF where
  "sample_conf = the (NCONF_new (sample_alloc 1) True True True 0 0)"

lemma sample_start:
  "BIO_new_mem_buf True True (Some (print_conf sample_doc)) (int (length (print_conf sample_doc))) = Some (Some sample_bio)"
  "NCONF_new (sample_alloc 1) True True True 0 0 = Some sample_conf"
  by (simp_all add: sample_bio_def BIO_new_mem_buf_def BIO_new_def mem_new_def BUF_MEM_new_def Let_def
      sample_conf_def NCONF_new_def lh_new_def sample_alloc_def)

lemma sample_eq: "a < 2 ^ 64 \<Longrightarrow> b < 2 ^ 64 \<Longrightarrow> of_nat a = (of_nat b :: u64) \<longleftrightarrow> a = b"
  by (metis unat_of_nat_u64)

lemma sample_addr_less: "sample_addr r + 1 < 2 ^ 64" "1 < sample_addr r" "r < 2 ^ 60 \<Longrightarrow> sample_addr r = 2 * r + 2"
proof -
  define m where "m = r mod 2 ^ 60"
  have "m < 1152921504606846976" by (simp add: m_def)
  then have "2 * m + 2 + 1 < 18446744073709551616" by linarith
  then show "sample_addr r + 1 < 2 ^ 64" unfolding sample_addr_def m_def [symmetric] by simp
qed (simp_all add: sample_addr_def)

lemma sample_granted: "load_granted sample_load"
proof -
  have "of_nat (sample_addr r) \<noteq> (0 :: u64)" "of_nat (sample_addr r + 1) \<noteq> (0 :: u64)" for r
    using sample_eq [of "sample_addr r" 0] sample_eq [of "sample_addr r + 1" 0] sample_addr_less [of r] by simp_all
  then show ?thesis
    by (simp add: load_granted_def rounds_granted_def line_granted_def copy_granted_def section_granted_def string_granted_def
        sample_load_def sample_section_def sample_stack_def sample_alloc_def sample_bytes_def)
qed

lemma sample_distinct:
  assumes "NCONF_new_section (default_env sample_load) sample_conf default_section = Run c1 (Some sv)" "N < 2 ^ 60"
  shows "distinct_memory sample_load N c1"
proof -
  have d: "dom (vals c1) \<subseteq> {1}" "nodes c1 \<subseteq> {1}"
    using default_ready [OF sample_start(2), of sample_load] assms(1)
    by (auto simp: sample_load_def sample_section_def sample_alloc_def)
  have ob: "line_objects sample_load r = {of_nat (sample_addr r), of_nat (sample_addr r + 1)}"
    "line_items sample_load r = {of_nat (sample_addr r), of_nat (sample_addr r + 1)}" for r
    by (auto simp: line_objects_def line_items_def sample_load_def sample_section_def sample_alloc_def)
  have one: "of_nat (sample_addr r) \<noteq> (1 :: u64)" "of_nat (sample_addr r + 1) \<noteq> (1 :: u64)"
    "of_nat (sample_addr r) \<noteq> (of_nat (sample_addr r + 1) :: u64)" for r
    using sample_eq [of "sample_addr r" 1] sample_eq [of "sample_addr r + 1" 1] sample_eq [of "sample_addr r" "sample_addr r + 1"]
      sample_addr_less [of r] by simp_all
  have other: "{of_nat (sample_addr r), of_nat (sample_addr r + 1)} \<inter> {of_nat (sample_addr i), of_nat (sample_addr i + 1) :: u64} = {}"
    if "i < r" "r \<le> N" for i r
  proof -
    have "sample_addr i + 1 < sample_addr r" using that assms(2) sample_addr_less(3) [of i] sample_addr_less(3) [of r] by simp
    then show ?thesis
      using sample_addr_less(1) [of i] sample_addr_less(1) [of r]
      by (auto simp: sample_eq simp del: of_nat_add of_nat_Suc)
  qed
  have "str_dup_ok (new_str (line_mem sample_load r)) \<and>
     cv_addr (line_mem sample_load r) \<noteq> sec_addr (new_sec (line_mem sample_load r)) \<and>
     item_addr (str_mem (new_str (line_mem sample_load r))) \<noteq> item_addr (sec_mem (new_sec (line_mem sample_load r)))" for r
    using one(3) [of r] by (simp add: sample_load_def sample_section_def sample_alloc_def)
  moreover have "line_objects sample_load r \<inter> (dom (vals c1) \<union> (\<Union>i<r. line_objects sample_load i)) = {}"
    "line_items sample_load r \<inter> (nodes c1 \<union> (\<Union>i<r. line_items sample_load i)) = {}" if "r \<le> N" for r
    unfolding ob using d one [of r] other [OF _ that] by blast+
  ultimately show ?thesis unfolding distinct_memory_def by blast
qed

lemma sample_printable: "printable sample_doc" "length (print_conf sample_doc) < 2 ^ 31 - CONFBUFSIZE"
proof -
  have "IS_ALPHA_NUMERIC 115" "IS_ALPHA_NUMERIC 110" "plain 49" "plain 50" "\<not> IS_COMMENT 49" "\<not> IS_COMMENT 50"
    "\<not> IS_WS 49" "\<not> IS_WS 50"
    by (simp_all add: CONF_type_default_def has_type_def IS_ALPHA_NUMERIC_def plain_def IS_QUOTE_def IS_DQUOTE_def IS_ESC_def
        IS_COMMENT_def IS_WS_def)
  then show "printable sample_doc"
    by (simp add: sample_doc_def printable_def name_text_def value_text_def lines_of_def header_of_def entry_of_def
        is_newline_def CONFBUFSIZE_def)
  show "length (print_conf sample_doc) < 2 ^ 31 - CONFBUFSIZE"
    by (simp add: sample_doc_def print_conf_def unlines_def lines_of_def header_of_def entry_of_def CONFBUFSIZE_def)
qed

theorem print_load_roundtrip_witness:
  "\<exists>c'. NCONF_load_bio gets_chunk sample_load sample_conf sample_bio = Some (Loaded c') \<and>
    NCONF_get_string c' (Some [115]) (Some [110]) = Some (Str [50])"
proof -
  have "map_of (rev (entries sample_doc)) ([115], [110]) = Some [50]" by (simp add: sample_doc_def entries_def)
  then show ?thesis
    using print_load_roundtrip [OF sample_printable sample_start sample_granted] sample_distinct sample_printable(2) by fastforce
qed

theorem load_means_file_witness:
  "\<exists>c' st. NCONF_load_bio gets_chunk sample_load sample_conf sample_bio = Some (Loaded c') \<and>
    meaning gets_chunk sample_bio st \<and> (\<forall>s n. NCONF_get_string c' (Some s) (Some n) = Some (get_in st s n))"
proof -
  have b: "mem_ok sample_bio" "queue sample_bio = print_conf sample_doc"
    using new_mem_buf_ok [OF sample_start(1)] sample_printable(2) by auto
  then have l: "length (queue sample_bio) < 2 ^ 31 - CONFBUFSIZE" "length (queue sample_bio) < 2 ^ 31"
    using sample_printable(2) by simp_all
  have pl: "all_lines plain_line gets_chunk sample_bio"
    by (rule all_plain_lines [OF b(1) _ printable_lines [OF sample_printable(1)]]) (simp add: b(2) print_conf_def)
  have hc: "all_lines header_constant gets_chunk sample_bio" by (rule all_lines_mono [OF plain_constant pl])
  have "fresh_load gets_chunk sample_load sample_conf sample_bio"
    by (rule distinct_fresh_load [OF memory.line_source_axioms b(1) l(2) sample_start(2) hc])
      (use sample_distinct l(1) in \<open>auto simp: CONFBUFSIZE_def\<close>)
  moreover have "all_lines constant_header gets_chunk sample_bio" "all_lines simple_line gets_chunk sample_bio"
    using hc pl by (simp_all add: grammar_lines)
  ultimately show ?thesis
    using load_means_file [OF memory.line_source_axioms b(1) l(1) sample_start(2)] sample_granted by blast
qed

end
