(* ===== verification/Spec2Isabelle.thy ===== *)
theory Spec2Isabelle
  imports PbLayout PbUnknown PbEncodeDepth CbbSetOf CbbOid Unicode BerProps Base64Decode StackProps LhashHistory ConfFile
begin

text \<open>
  Verification of C code that the Eye-Maps iOS application runs below its Firebase client: nanopb, the
  protocol-buffer runtime that reads and writes the documents the application exchanges with Firestore,
  and the parts of BoringSSL's \<open>libcrypto\<close> that hold and transform data: byte strings and DER, Base64, the
  containers, buffers, memory BIOs and configuration files.

  The model is of the build of the Pods on a little-endian LP64 machine: \<open>PB_FIELD_32BIT\<close>,
  \<open>PB_NO_PACKED_STRUCTS\<close> and \<open>PB_ENABLE_MALLOC\<close> for nanopb, \<open>OPENSSL_NO_ASM\<close> for BoringSSL. In all theories a C
  function is a definition of its name, a struct a record of its members, machine integers are words of their
  width; failure is \<open>None\<close> or a flag with the state the C code leaves behind. The allocator is an argument: it
  says which sizes it grants, which addresses it returns and what fresh memory holds, so that a property for
  all such arguments covers every failed allocation. Undefined behaviour that the code can reach is a value of
  its own (an outer \<open>None\<close>, \<open>Crash\<close>), and the properties say when it is not reached.

  nanopb (\<open>src/Access/Pods/nanopb\<close>): \<open>pb_common.c\<close> walks a message's field descriptors, \<open>pb_encode.c\<close> writes a
  struct through an output stream, \<open>pb_decode.c\<close> reads one from an input stream.

  \<^item> \<open>Prelude\<close>: word abbreviations, the result type of fallible operations (a value or an error,
    with the new state), lemmas on words and lists that several theories use.
  \<^item> \<open>PbCommon\<close>: \<open>pb_field\<close> is the entry of a descriptor array, \<open>pb_field_iter\<close> the iterator with its
    incrementally computed data pointers; \<open>pb_field_iter_begin/next/find\<close>. Results: the search
    visits the entries in cyclic order and ends. \<open>PbLayout\<close>: the macros of \<open>pb.h\<close> that build the
    arrays from a C struct; on them the iterator's pointers are the members' addresses.
  \<^item> \<open>PbMem\<close>: the bytes at struct addresses as a function from 64-bit addresses, loads and stores of
    each width, the allocator as a parameter that says which block \<open>realloc\<close> returns.
  \<^item> \<open>PbIStream\<close>, \<open>PbOStream\<close>: streams as records of the code's members; \<open>callback\<close> is a buffer
    function of the library or a function of the user, the \<open>void *state\<close> is the rest of the buffer or the
    user's state. Every primitive reader and writer.
  \<^item> \<open>PbWire\<close>, \<open>PbEmit\<close>: the two interfaces. The locale \<open>istream_source\<close> says what a source of bytes
    promises to the readers, \<open>ostream_sink\<close> what a sink promises to the writers; the readers' and
    writers' functional behaviour is proved in them and interpreted on the library's own
    \<open>buf_read\<close> and \<open>buf_write\<close>.
  \<^item> \<open>PbStreamProps\<close>: round trips of varints, zigzag and fixed words, exact skipping, substreams,
    and memory safety of all readers on arbitrary bytes.
  \<^item> \<open>PbEncode\<close>: the field encoders, arrays, the proto3 default check, extensions and \<open>pb_encode\<close>.
    Recursion through submessages has a depth as fuel: \<open>None\<close> is running out of it.
  \<^item> \<open>PbEncodeProps\<close>: encoding into a buffer refines the size computed by the sizing stream.
    \<open>PbEncodeDepth\<close>: the depth is only a bound (results do not depend on it), and on data whose
    submessages and extension lists do not run in a cycle some depth is enough.
  \<^item> \<open>PbDecode\<close>, \<open>PbDecodeMsg\<close>: a decoding step maps a \<open>dstate\<close> (stream, memory, blocks of the
    heap) to success and a new state, or to \<open>None\<close> where the fuel is used up or a length-zero
    walk would leave the model; field decoders, static, pointer and callback fields, defaults,
    releasing, extensions and \<open>pb_decode\<close>.
  \<^item> \<open>PbDecodeProps\<close>, \<open>PbRoundTrip\<close>, \<open>PbUnknown\<close>: which integers a field of each width accepts and stores, static
    fields are written in bounds, allocation sizes are exact, scalar fields survive the wire,
    unknown fields are skipped without effect, required fields cannot be missed.

  Byte strings (\<open>crypto/bytestring\<close> in \<open>src/Access/Pods/BoringSSL-GRPC/src\<close>, as all paths below):

  \<^item> \<open>Outcome\<close>: sequencing of fallible calls. \<open>Cbs\<close> (\<open>cbs.c\<close>): a \<open>CBS\<close> is the bytes it has left; every reader
    and the parsers of elements, integers, strings, booleans and times of day.
  \<^item> \<open>CbsDer\<close>, \<open>CbsElement\<close>: the DER encoding of tags, lengths, elements and values as a specification; the
    parsers accept exactly it.
  \<^item> \<open>Cbb\<close> (\<open>cbb.c\<close>): the chain of open builders over one buffer. \<open>CbbSpec\<close>: the abstract state, a tree of
    pieces with pending length prefixes, that every operation refines, \<open>CBB_flush\<close> included. \<open>CbbDer\<close>: what
    the builders write is DER and is parsed back. \<open>CbbSetOf\<close>: \<open>CBB_flush_asn1_set_of\<close> sorts the elements of a SET
    OF by the order of X.690; the count of elements has the length of the contents as fuel (an element takes two bytes), and
    the contents are shorter than \<open>2 ^ 60\<close> bytes. \<open>CbbOid\<close>: object identifiers as text, in both directions; the texts and
    octets are shorter than \<open>2 ^ 58\<close> bytes, so that the text's length stays a \<open>size_t\<close>. \<open>Unicode\<close>
    (\<open>unicode.c\<close>): the readers and writers of UTF-8, Latin-1, UCS-2 and UTF-32 are exact inverses.
  \<^item> \<open>Ber\<close> (\<open>ber.c\<close>): the walk for BER, the recursive conversion, whose termination rests on what the recursion
    leaves of its input, and implicitly tagged strings. \<open>BerSpec\<close>: BER trees, and the conversion as a function on
    trees that the code implements. \<open>BerProps\<close>: what \<open>CBS_asn1_ber_to_der\<close> accepts and returns for inputs
    of less than \<open>2 ^ 30\<close> bytes (a DER form is at most three times as long, so that every length fits 32 bits),
    that the result is DER, and exactly which BER the walk finds and which it overlooks.

  Constant time and Base64:

  \<^item> \<open>ConstTime\<close> (\<open>crypto/internal.h\<close>): the branch-free masks are the comparisons and selections they stand for.
  \<^item> \<open>Base64\<close> (\<open>crypto/base64/base64.c\<close>), \<open>Base64Alphabet\<close>, \<open>Base64Props\<close>: the one-shot coders are those of RFC 4648
    with the lengths they announce. \<open>Base64Stream\<close>, \<open>Base64Decode\<close>: the streaming coders give the result of the
    whole input however it is cut into calls; the calls' lengths are below the bounds (1585834032
    for the encoder, \<open>2 ^ 31\<close> for the decoder) at which the \<open>int\<close> results would overflow.

  Containers:

  \<^item> \<open>Comparator\<close>: the locale \<open>comparator\<close>, the contract of C comparison functions and of \<open>qsort\<close>, interpreted
    on the order of SET OF elements.
  \<^item> \<open>Stack\<close>, \<open>StackProps\<close> (\<open>crypto/stack/stack.c\<close>): every operation on stacks of pointers; searching after
    any history, deep copies.
  \<^item> \<open>Lhash\<close> (\<open>crypto/lhash/lhash.c\<close>): chains of items with their addresses; an iteration follows links in the
    table as the callback left it, as a \<open>partial_function\<close> in which \<open>None\<close> is a freed item or an iteration
    that does not end. \<open>LhashProps\<close>: the locale \<open>hash_contract\<close> is what the table needs of its hash and comparison
    functions; in it the operations are those of a map. \<open>LhashHistory\<close>: iterations end and read no freed item, histories
    with lookups by element and by key refine a map, and the load factor stays bounded.

  Configuration files:

  \<^item> \<open>Buf\<close> (\<open>crypto/buf/buf.c\<close>): the growable buffer, its overflow checks and its contents.
  \<^item> \<open>LineSource\<close>: the locale \<open>line_source\<close>, what the loader needs of a BIO. \<open>MemBio\<close>, \<open>MemBioProps\<close>
    (\<open>crypto/bio/bio_mem.c\<close>, \<open>bio.c\<close>): BIOs in memory are queues of bytes over \<open>BUF_MEM\<close>, and an interpretation
    of \<open>line_source\<close>.
  \<^item> \<open>Conf\<close> (\<open>crypto/conf/conf.c\<close>, \<open>conf_def.h\<close>): the \<open>CONF_VALUE\<close> objects on the heap, in the hash table and in the
    stacks of their sections; lookup, insertion, the scanners, the copying and expansion of values in a \<open>BUF_MEM\<close>, the
    parser of a line, and the loop over a BIO, a \<open>partial_function\<close> in which \<open>None\<close> is an input that does not end.
  \<^item> \<open>ConfTable\<close>: the interpretation of \<open>hash_contract\<close> on the objects of a configuration, the invariant
    \<open>conf_ok\<close> and the abstraction \<open>conf_store\<close> to sections of strings. \<open>ConfCopy\<close>: the buffer of \<open>str_copy\<close> is
    never overrun and the copy is \<open>expand\<close>, the meaning of a value. \<open>ConfLine\<close>: a line does what
    \<open>run_line\<close> says. \<open>ConfGrammar\<close>: the lines of a file as a grammar, without the scanners of the code - comments,
    quotes, references, section and assignment lines and what they say -, with which the scanners agree. \<open>ConfLoad\<close>: the reader's buffer holds the pieces of a line, and the loop, for
    every \<open>line_source\<close>, returns and makes the store that the lines mean by that grammar (\<open>file_means\<close>). \<open>ConfFresh\<close>: an allocator that never
    uses an address twice meets the condition on fresh memory. \<open>ConfPrint\<close>, \<open>ConfFile\<close>: printed files, and the
    properties of whole loads. Inputs are below \<open>2 ^ 31\<close> bytes, the range of the loader's \<open>int\<close> positions; lines
    and stacks are as many as that allows.

  Not modelled: the Swift application, the Objective-C and C++ libraries (Firebase, gRPC, abseil, leveldb)
  and the TLS part of BoringSSL, whose languages the model does not cover, and generated descriptor
  tables, which are data for the model's descriptor arrays. Of \<open>libcrypto\<close>, the ciphers, digests, big numbers,
  curves, X.509 and EVP; the error queue, which no result modelled here depends on; reference counts, threads
  and the other BIO methods; the type-safe macros over stacks and hash tables, which cast pointers;
  \<open>NCONF_load\<close>, which opens a file for \<open>def_load_bio\<close>; and freeing, beyond the stacks, tables and
  objects whose use after it matters.
\<close>

end
